(* ===== verification/Prelude.thy ===== *)
theory Prelude
  imports Main "HOL-Library.Word" "HOL-Library.Monad_Syntax"
begin

text \<open>
  Shared vocabulary of the development.  Machine integers keep their width (\<open>u8\<close>, \<open>u16\<close>,
  \<open>u32\<close>), byte memory is a function from 32-bit addresses to bytes, and a kernel routine
  that may call \<open>panic\<close> returns an \<open>option\<close> whose \<open>None\<close> means that the machine has
  stopped.  The generic lemmas on lists, slots of an array and words that several
  components use are proved here.
\<close>

unbundle bit_operations_syntax

type_synonym u8 = "8 word"
type_synonym u16 = "16 word"
type_synonym u32 = "32 word"
type_synonym mem = "u32 \<Rightarrow> u8"

named_theorems mem_simps \<open>reads over writes\<close>
named_theorems scan_simps \<open>linear scans of an array\<close>

subsection \<open>Little-endian 32-bit values\<close>

definition le32 :: "u8 \<Rightarrow> u8 \<Rightarrow> u8 \<Rightarrow> u8 \<Rightarrow> u32" where
  "le32 b0 b1 b2 b3 =
     (ucast b0 :: u32) OR push_bit 8 (ucast b1) OR push_bit 16 (ucast b2) OR push_bit 24 (ucast b3)"

definition byte_of :: "u32 \<Rightarrow> nat \<Rightarrow> u8" where
  "byte_of v i = ucast (drop_bit (8 * i) v)"

lemma bit_byte_of: "bit (byte_of v i) n \<longleftrightarrow> n < 8 \<and> bit v (8 * i + n)"
  by (auto simp: byte_of_def bit_simps)

lemma le32_byte_of [simp]:
  "le32 (byte_of v 0) (byte_of v 1) (byte_of v 2) (byte_of v 3) = v"
proof (rule bit_word_eqI)
  fix n assume "n < LENGTH(32)"
  then consider "n < 8" | "8 \<le> n" "n < 16" | "16 \<le> n" "n < 24" | "24 \<le> n" "n < 32"
    by fastforce
  then show "bit (le32 (byte_of v 0) (byte_of v 1) (byte_of v 2) (byte_of v 3)) n = bit v n"
    by cases (auto simp: le32_def bit_simps bit_byte_of less_diff_conv2)
qed

lemma le32_byte_of_Suc [simp]:
  "le32 (byte_of v 0) (byte_of v (Suc 0)) (byte_of v 2) (byte_of v 3) = v"
  using le32_byte_of[of v] by simp

lemma byte_of_le32 [simp]:
  "byte_of (le32 a b c d) 0 = a" "byte_of (le32 a b c d) 1 = b"
  "byte_of (le32 a b c d) 2 = c" "byte_of (le32 a b c d) 3 = d"
  by (rule bit_word_eqI; auto simp: le32_def bit_simps bit_byte_of dest: bit_imp_le_length)+

subsection \<open>Words\<close>

lemma unat_lt32: "unat (x :: u32) < 2 ^ 32"
  using unsigned_less[of x] by simp

lemma unat_of_nat32: "n < 2 ^ 32 \<Longrightarrow> unat (of_nat n :: u32) = n"
  by (simp add: unat_of_nat)

lemma unat_sub_cases:
  fixes a b :: u32
  shows "unat (a - b) = (if b \<le> a then unat a - unat b else 2 ^ 32 + unat a - unat b)"
  by (simp add: unat_sub_if_size word_size word_le_nat_alt) linarith

lemma signed_take_bit_small: "n < 2 ^ 31 \<Longrightarrow> signed_take_bit 31 (int n) = int n"
  by (rule signed_take_bit_int_eq_self) auto

lemma sint_unat32: "unat (w :: u32) < 2 ^ 31 \<Longrightarrow> sint w = int (unat w)"
  using signed_take_bit_small[of "unat w"] unfolding sint_uint uint_nat by simp

lemma unat_mult32: "unat (a :: u32) * unat b < 2 ^ 32 \<Longrightarrow> unat (a * b) = unat a * unat b"
  by (simp add: unat_word_ariths)

lemma unat_plus32: "unat (a :: u32) + unat b < 2 ^ 32 \<Longrightarrow> unat (a + b) = unat a + unat b"
  by (simp add: unat_word_ariths)

subsection \<open>Words in memory\<close>

definition load32 :: "mem \<Rightarrow> u32 \<Rightarrow> u32" where
  "load32 m a = le32 (m a) (m (a + 1)) (m (a + 2)) (m (a + 3))"

definition store32 :: "mem \<Rightarrow> u32 \<Rightarrow> u32 \<Rightarrow> mem" where
  "store32 m a v =
     m(a := byte_of v 0, a + 1 := byte_of v 1, a + 2 := byte_of v 2, a + 3 := byte_of v 3)"

lemma load32_store32_same [simp, mem_simps]: "load32 (store32 m a v) a = v"
  by (simp add: load32_def store32_def)

lemma store32_outside: "4 \<le> unat (b - a) \<Longrightarrow> store32 m a v b = m b"
  by (auto simp: store32_def)

lemma load32_cong:
  assumes "m' a = m a" "m' (a + 1) = m (a + 1)" "m' (a + 2) = m (a + 2)" "m' (a + 3) = m (a + 3)"
  shows "load32 m' a = load32 m a"
  using assms by (simp add: load32_def)

subsection \<open>Aligned blocks of memory\<close>

text \<open>
  \<open>within z a p\<close>: the address \<open>a\<close> lies in the \<open>z\<close>-byte block that starts at \<open>p\<close>.  For
  aligned blocks whose size divides the address space this is equality of block numbers,
  so two different aligned blocks are disjoint.
\<close>

definition within :: "nat \<Rightarrow> u32 \<Rightarrow> u32 \<Rightarrow> bool" where
  "within z a p \<longleftrightarrow> unat (a - p) < z"

definition aligned :: "nat \<Rightarrow> u32 \<Rightarrow> bool" where
  "aligned z p \<longleftrightarrow> z dvd unat p"

lemma within_iff:
  assumes "aligned z p" and "z dvd 2 ^ 32" and "0 < z"
  shows "within z a p \<longleftrightarrow> unat a div z = unat p div z"
proof -
  from assms(1) obtain k where k: "unat p = z * k" by (auto simp: aligned_def)
  from assms(2) obtain l where l: "2 ^ 32 = z * l" by (auto simp: dvd_def)
  have "z * k < z * l" using unat_lt32[of p] unfolding k l .
  then have "k < l" by simp
  then have "Suc k \<le> l" by simp
  then have "z * Suc k \<le> z * l" by (rule mult_le_mono2)
  then have pz: "unat p + z \<le> 2 ^ 32" using k l by simp
  show ?thesis
  proof (cases "p \<le> a")
    case True
    then have le: "z * k \<le> unat a" using k by (simp add: word_le_nat_alt)
    have "unat a - z * k < z \<longleftrightarrow> unat a div z = k"
      using le assms(3) by (metis add_diff_inverse_nat div_less_iff_less_mult div_nat_eqI leD
          le_add_diff_inverse less_diff_conv2 mult.commute mult_Suc_right add.commute
          dividend_less_div_times less_Suc_eq_le not_less)
    with True k assms(3) show ?thesis by (simp add: within_def unat_sub_cases)
  next
    case False
    then have lt: "unat a < z * k" using k by (simp add: word_le_nat_alt)
    then have "unat a div z < k" using assms(3) by (simp add: less_mult_imp_div_less mult.commute)
    moreover have "\<not> 2 ^ 32 + unat a - unat p < z" using pz by linarith
    ultimately show ?thesis using False k assms(3) by (simp add: within_def unat_sub_cases)
  qed
qed

lemma load32_store32_other [mem_simps]:
  assumes "aligned 4 a" "aligned 4 b" "a \<noteq> b"
  shows "load32 (store32 m a v) b = load32 m b"
proof -
  have ne: "unat b div 4 \<noteq> unat a div 4"
    using assms by (auto simp: aligned_def word_unat_eq_iff)
  have "store32 m a v (b + k) = m (b + k)" if "unat k < 4" for k
  proof -
    have "within 4 (b + k) b" using that by (simp add: within_def)
    then have "unat (b + k) div 4 = unat b div 4" using within_iff[of 4 b] assms(2) by simp
    with ne have "\<not> within 4 (b + k) a" using within_iff[of 4 a] assms(1) by simp
    then show ?thesis by (intro store32_outside) (simp add: within_def)
  qed
  from this[of 0] this[of 1] this[of 2] this[of 3] show ?thesis
    by (intro load32_cong) simp_all
qed

subsection \<open>Linear scans\<close>

text \<open>The kernel's tables are searched from slot 0 upwards for the first slot that satisfies a test.\<close>

fun first_idx :: "('a \<Rightarrow> bool) \<Rightarrow> 'a list \<Rightarrow> nat option" where
  "first_idx P [] = None"
| "first_idx P (x # xs) = (if P x then Some 0 else map_option Suc (first_idx P xs))"

lemma first_idx_None [scan_simps]: "first_idx P xs = None \<longleftrightarrow> (\<forall>x \<in> set xs. \<not> P x)"
  by (induction xs) auto

lemma first_idx_Some:
  "first_idx P xs = Some i \<longleftrightarrow> i < length xs \<and> P (xs ! i) \<and> (\<forall>j < i. \<not> P (xs ! j))"
proof (induction xs arbitrary: i)
  case (Cons x xs)
  then show ?case by (cases i) (auto simp: nth_Cons split: nat.splits)
qed simp

lemma first_idx_SomeD:
  assumes "first_idx P xs = Some i"
  shows "i < length xs" "P (xs ! i)"
  using assms by (simp_all add: first_idx_Some)

lemma first_idx_exists: "x \<in> set xs \<Longrightarrow> P x \<Longrightarrow> \<exists>i. first_idx P xs = Some i"
  using first_idx_None[of P xs] by (cases "first_idx P xs") auto

lemma find_split: "find P xs = Some x \<Longrightarrow> \<exists>ys zs. xs = ys @ x # zs \<and> P x \<and> (\<forall>y \<in> set ys. \<not> P y)"
proof (induction xs)
  case (Cons a xs)
  show ?case
  proof (cases "P a")
    case True
    thus ?thesis using Cons.prems by (intro exI[of _ "[]"] exI[of _ xs]) simp
  next
    case False
    then obtain ys zs where "xs = ys @ x # zs" "P x" "\<forall>y \<in> set ys. \<not> P y" using Cons by auto
    thus ?thesis using False by (intro exI[of _ "a # ys"] exI[of _ zs]) simp
  qed
qed simp

end
