(* ===== verification/KString.thy ===== *)
theory KString
  imports Prelude
begin

text \<open>
  The kernel's string routines (\<^verbatim>\<open>kernel/string.c\<close>) over byte memory.  Pointers are 32-bit
  words and pointer arithmetic wraps; each loop of the source is a recursive function on
  its remaining count.  \<open>strlen\<close> has no bound in the source, so it is a partial function
  whose \<open>None\<close> means that it never returns.
\<close>

subsection \<open>Operations\<close>

text \<open>\<^verbatim>\<open>stosb\<close>: \<open>rep stosb\<close> stores the low byte of \<open>c\<close> at \<open>n\<close> ascending addresses.\<close>

fun stosb :: "mem \<Rightarrow> u32 \<Rightarrow> u8 \<Rightarrow> nat \<Rightarrow> mem" where
  "stosb m d c 0 = m"
| "stosb m d c (Suc n) = stosb (m(d := c)) (d + 1) c n"

definition kmemset :: "mem \<Rightarrow> u32 \<Rightarrow> u32 \<Rightarrow> u32 \<Rightarrow> mem" where
  "kmemset m dst c n = stosb m dst (ucast c) (unat n)"

fun memcmp_loop :: "mem \<Rightarrow> u32 \<Rightarrow> u32 \<Rightarrow> nat \<Rightarrow> int" where
  "memcmp_loop m s1 s2 0 = 0"
| "memcmp_loop m s1 s2 (Suc n) =
     (if m s1 \<noteq> m s2 then uint (m s1) - uint (m s2)
      else memcmp_loop m (s1 + 1) (s2 + 1) n)"

definition memcmp :: "mem \<Rightarrow> u32 \<Rightarrow> u32 \<Rightarrow> u32 \<Rightarrow> int" where
  "memcmp m v1 v2 n = memcmp_loop m v1 v2 (unat n)"

fun copy_fwd :: "mem \<Rightarrow> u32 \<Rightarrow> u32 \<Rightarrow> nat \<Rightarrow> mem" where
  "copy_fwd m d s 0 = m"
| "copy_fwd m d s (Suc n) = copy_fwd (m(d := m s)) (d + 1) (s + 1) n"

text \<open>The descending loop: \<open>d\<close> and \<open>s\<close> are one past the last byte.\<close>

fun copy_bwd :: "mem \<Rightarrow> u32 \<Rightarrow> u32 \<Rightarrow> nat \<Rightarrow> mem" where
  "copy_bwd m d s 0 = m"
| "copy_bwd m d s (Suc n) = copy_bwd (m(d - 1 := m (s - 1))) (d - 1) (s - 1) n"

definition memmove :: "mem \<Rightarrow> u32 \<Rightarrow> u32 \<Rightarrow> u32 \<Rightarrow> mem" where
  "memmove m dst src n =
     (if src < dst \<and> src + n > dst then copy_bwd m (dst + n) (src + n) (unat n)
      else copy_fwd m dst src (unat n))"

definition memcpy :: "mem \<Rightarrow> u32 \<Rightarrow> u32 \<Rightarrow> u32 \<Rightarrow> mem" where
  "memcpy m dst src n = memmove m dst src n"

fun strncmp_loop :: "mem \<Rightarrow> u32 \<Rightarrow> u32 \<Rightarrow> nat \<Rightarrow> int" where
  "strncmp_loop m p q 0 = 0"
| "strncmp_loop m p q (Suc n) =
     (if m p \<noteq> 0 \<and> m p = m q then strncmp_loop m (p + 1) (q + 1) n
      else uint (m p) - uint (m q))"

definition strncmp :: "mem \<Rightarrow> u32 \<Rightarrow> u32 \<Rightarrow> u32 \<Rightarrow> int" where
  "strncmp m p q n = strncmp_loop m p q (unat n)"

fun strncpy_loop :: "mem \<Rightarrow> u32 \<Rightarrow> u32 \<Rightarrow> nat \<Rightarrow> mem" where
  "strncpy_loop m s t 0 = m"
| "strncpy_loop m s t (Suc n) =
     (let c = m t; m' = m(s := c)
      in if c \<noteq> 0 then strncpy_loop m' (s + 1) (t + 1) n else stosb m' (s + 1) 0 n)"

definition strncpy :: "mem \<Rightarrow> u32 \<Rightarrow> u32 \<Rightarrow> int \<Rightarrow> mem" where
  "strncpy m s t n = strncpy_loop m s t (nat n)"

fun safestrcpy_loop :: "mem \<Rightarrow> u32 \<Rightarrow> u32 \<Rightarrow> nat \<Rightarrow> mem" where
  "safestrcpy_loop m s t 0 = m(s := 0)"
| "safestrcpy_loop m s t (Suc n) =
     (let c = m t; m' = m(s := c)
      in if c \<noteq> 0 then safestrcpy_loop m' (s + 1) (t + 1) n else m'(s + 1 := 0))"

definition safestrcpy :: "mem \<Rightarrow> u32 \<Rightarrow> u32 \<Rightarrow> int \<Rightarrow> mem" where
  "safestrcpy m s t n = (if n \<le> 0 then m else safestrcpy_loop m s t (nat (n - 1)))"

partial_function (option) strlen_loop :: "mem \<Rightarrow> u32 \<Rightarrow> u32 \<Rightarrow> u32 option" where
  "strlen_loop m s n = (if m (s + n) \<noteq> 0 then strlen_loop m s (n + 1) else Some n)"

definition strlen :: "mem \<Rightarrow> u32 \<Rightarrow> u32 option" where
  "strlen m s = strlen_loop m s 0"

subsection \<open>Offsets modulo the address space\<close>

text \<open>
  Whether an address lies in \<open>[d, d + n)\<close> is a statement about the wrapped difference
  \<open>a - d\<close>; the copy loops are characterised through it, so no separate case for
  wrap-around is needed.
\<close>

lemma unat_minus_one_pred: "(x::u32) \<noteq> 0 \<Longrightarrow> unat (x - 1) = unat x - 1"
  by (metis unat_gt_0 unat_minus_one)

lemma unat_next: "(a::u32) \<noteq> s \<Longrightarrow> unat (a - (s + 1)) = unat (a - s) - 1"
  unfolding diff_diff_add[symmetric] by (rule unat_minus_one_pred) simp

lemma unat_neg_one32: "unat (- 1 :: u32) = 2 ^ 32 - 1"
  by (simp add: unsigned_minus_1_eq_mask mask_eq_exp_minus_1)

lemma offset_step:
  fixes a d :: u32
  assumes "n < 2 ^ 32"
  shows "unat (a - (d + 1)) < n \<longleftrightarrow> a \<noteq> d \<and> unat (a - d) < Suc n"
proof (cases "a = d")
  case True
  with assms show ?thesis by (simp add: unat_neg_one32)
next
  case False
  then have "a - d \<noteq> 0" by simp
  then have "unat (a - (d + 1)) = unat (a - d) - 1" and "0 < unat (a - d)"
    using unat_minus_one_pred[of "a - d"] by (simp_all add: diff_diff_add unat_gt_0)
  with False show ?thesis by linarith
qed

lemma offset_step_down:
  fixes a d :: u32
  assumes "n < 2 ^ 32"
  shows "unat (d - 1 - 1 - a) < n \<longleftrightarrow> a \<noteq> d - 1 \<and> unat (d - 1 - a) < Suc n"
proof (cases "a = d - 1")
  case True
  with assms show ?thesis by (simp add: unat_neg_one32)
next
  case False
  then have nz: "d - 1 - a \<noteq> 0" by (metis eq_iff_diff_eq_0)
  have "d - 1 - 1 - a = (d - 1 - a) - 1" by simp
  then have "unat (d - 1 - 1 - a) = unat (d - 1 - a) - 1" and "0 < unat (d - 1 - a)"
    using nz unat_minus_one_pred[OF nz] by (simp_all only: unat_gt_0 not_False_eq_True)
  with False show ?thesis by linarith
qed

subsection \<open>What the loops compute\<close>

lemma stosb_eq:
  "n < 2 ^ 32 \<Longrightarrow> stosb m d c n = (\<lambda>a. if unat (a - d) < n then c else m a)"
proof (induction n arbitrary: m d)
  case 0
  then show ?case by simp
next
  case (Suc n)
  then have n: "n < 2 ^ 32" by simp
  show ?case
    by (rule ext) (auto simp: Suc.IH[OF n] offset_step[OF n])
qed

lemma copy_fwd_eq:
  assumes "n < 2 ^ 32" and "d = s \<or> n \<le> unat (d - s)"
  shows "copy_fwd m d s n = (\<lambda>a. if unat (a - d) < n then m (s + (a - d)) else m a)"
  using assms
proof (induction n arbitrary: m d s)
  case 0
  then show ?case by simp
next
  case (Suc n)
  then have n: "n < 2 ^ 32" and ih: "d + 1 = s + 1 \<or> n \<le> unat (d + 1 - (s + 1))" by auto
  have ne: "s + (a - d) \<noteq> d" if "a \<noteq> d" "unat (a - d) < Suc n" for a
  proof
    assume "s + (a - d) = d"
    then have "a - d = d - s" by (metis add_diff_cancel_left')
    with that Suc.prems(2) show False by auto
  qed
  show ?case
  proof (rule ext)
    fix a
    have "s + 1 + (a - (d + 1)) = s + (a - d)" by simp
    then show "copy_fwd m d s (Suc n) a = (if unat (a - d) < Suc n then m (s + (a - d)) else m a)"
      using ne[of a] by (simp add: Suc.IH[OF n ih] offset_step[OF n])
  qed
qed

lemma copy_bwd_eq:
  assumes "n < 2 ^ 32" and "d = s \<or> n \<le> unat (s - d)"
  shows "copy_bwd m d s n = (\<lambda>a. if unat (d - 1 - a) < n then m (s + (a - d)) else m a)"
  using assms
proof (induction n arbitrary: m d s)
  case 0
  then show ?case by simp
next
  case (Suc n)
  then have n: "n < 2 ^ 32" and ih: "d - 1 = s - 1 \<or> n \<le> unat (s - 1 - (d - 1))" by auto
  have ne: "s + (a - d) \<noteq> d - 1" if "a \<noteq> d - 1" "unat (d - 1 - a) < Suc n" for a
  proof
    assume "s + (a - d) = d - 1"
    then have eq: "d - 1 - a = s - d" by (simp add: algebra_simps)
    have "d \<noteq> s"
    proof
      assume "d = s"
      with eq have "d - 1 - a = 0" by simp
      with that(1) show False by (metis eq_iff_diff_eq_0)
    qed
    with Suc.prems(2) have "Suc n \<le> unat (s - d)" by simp
    with that(2) show False unfolding eq by linarith
  qed
  show ?case
  proof (rule ext)
    fix a
    let ?m = "m(d - 1 := m (s - 1))"
    have e: "s - 1 + (a - (d - 1)) = s + (a - d)" by simp
    have l: "copy_bwd m d s (Suc n) a =
      (if a \<noteq> d - 1 \<and> unat (d - 1 - a) < Suc n then ?m (s + (a - d)) else ?m a)"
      by (simp only: copy_bwd.simps Suc.IH[OF n ih] offset_step_down[OF n] e)
    show "copy_bwd m d s (Suc n) a = (if unat (d - 1 - a) < Suc n then m (s + (a - d)) else m a)"
    proof (cases "a = d - 1")
      case True
      then show ?thesis unfolding l by simp
    next
      case False
      then show ?thesis unfolding l using ne[of a] by (simp only: fun_upd_def) simp
    qed
  qed
qed

subsection \<open>Correctness of memmove and memset\<close>

lemma overlap_no_wrap:
  fixes dst src n :: u32
  assumes "unat src + unat n < 2 ^ 32"
  shows "src < dst \<and> dst < src + n \<longleftrightarrow> src \<noteq> dst \<and> unat (dst - src) < unat n"
proof -
  have sn: "unat (src + n) = unat src + unat n"
    using assms by (simp add: unat_word_ariths)
  show ?thesis
  proof (cases "src \<le> dst")
    case True
    then have "unat (dst - src) = unat dst - unat src" by (simp add: unat_sub)
    with True sn show ?thesis
      by (auto simp: word_less_nat_alt word_le_nat_alt) (metis nat_less_le word_unat_eq_iff)
  next
    case False
    then have lt: "unat dst < unat src" by (simp add: word_le_nat_alt)
    have "unat (dst - src) = 2 ^ 32 + unat dst - unat src"
      using lt by (simp add: unat_sub_if_size word_size word_le_nat_alt)
    with lt assms False show ?thesis by (auto simp: word_less_nat_alt)
  qed
qed

lemma end_offset:
  fixes dst n a :: u32
  shows "unat (dst + n - 1 - a) < unat n \<longleftrightarrow> unat (a - dst) < unat n"
proof (cases "n = 0")
  case False
  have sum: "(dst + n - 1 - a) + (a - dst) = n - 1" by simp
  have n1: "unat (n - 1) = unat n - 1" and pos: "0 < unat n"
    using False by (simp_all add: unat_minus_one_pred unat_gt_0)
  have key: "unat y < unat n" if "x + y = n - 1" "unat x < unat n" for x y :: u32
  proof -
    have "x \<le> n - 1" using that(2) n1 by (simp add: word_le_nat_alt)
    moreover have "y = n - 1 - x" using that(1) by (metis add_diff_cancel_left')
    ultimately have "unat y = unat (n - 1) - unat x" by (simp add: unat_sub)
    with n1 pos show ?thesis by linarith
  qed
  from sum key show ?thesis by (metis add.commute)
qed simp

lemma memmove_eq:
  assumes "unat src + unat n < 2 ^ 32" and "unat dst + unat n \<le> 2 ^ 32"
  shows "memmove m dst src n =
    (\<lambda>a. if unat (a - dst) < unat n then m (src + (a - dst)) else m a)"
proof (cases "src < dst \<and> dst < src + n")
  case True
  have n: "unat n < 2 ^ 32" by (rule unat_lt32)
  from True overlap_no_wrap[OF assms(1)] have ov: "src \<noteq> dst" "unat (dst - src) < unat n" by auto
  have "unat n \<le> unat (src - dst)"
  proof -
    have "src < dst" using True by simp
    then have "unat (src - dst) = 2 ^ 32 + unat src - unat dst" and "unat dst < unat src + unat n"
      using True assms by (auto simp: unat_sub_if_size word_size word_le_nat_alt word_less_nat_alt unat_word_ariths)
    with assms show ?thesis by linarith
  qed
  then have c: "dst + n = src + n \<or> unat n \<le> unat (src + n - (dst + n))" by simp
  have off: "src + n + (a - (dst + n)) = src + (a - dst)" for a by simp
  from True show ?thesis
    unfolding memmove_def copy_bwd_eq[OF n c] off end_offset by simp
next
  case False
  have n: "unat n < 2 ^ 32" by (rule unat_lt32)
  have c: "dst = src \<or> unat n \<le> unat (dst - src)"
    using False unfolding overlap_no_wrap[OF assms(1)] by (metis not_le)
  from False have "memmove m dst src n = copy_fwd m dst src (unat n)"
    unfolding memmove_def by (rule if_not_P)
  then show ?thesis unfolding copy_fwd_eq[OF n c] .
qed

lemma kmemset_eq:
  "kmemset m dst c n = (\<lambda>a. if unat (a - dst) < unat n then ucast c else m a)"
  unfolding kmemset_def by (rule stosb_eq) (rule unat_lt32)

subsection \<open>NUL-terminated strings\<close>

text \<open>\<open>cstr m a xs\<close>: the bytes \<open>xs\<close>, none of them NUL, are followed by a NUL at address \<open>a\<close>.\<close>

fun cstr :: "mem \<Rightarrow> u32 \<Rightarrow> u8 list \<Rightarrow> bool" where
  "cstr m a [] \<longleftrightarrow> m a = 0"
| "cstr m a (x # xs) \<longleftrightarrow> m a = x \<and> x \<noteq> 0 \<and> cstr m (a + 1) xs"

lemma cstr_cong:
  assumes "\<And>k. k \<le> length xs \<Longrightarrow> m' (a + of_nat k) = m (a + of_nat k)"
  shows "cstr m' a xs = cstr m a xs"
  using assms
proof (induction xs arbitrary: a)
  case Nil
  from Nil[of 0] show ?case by simp
next
  case (Cons x xs)
  have "m' (a + 1 + of_nat k) = m (a + 1 + of_nat k)" if "k \<le> length xs" for k
    using Cons.prems[of "Suc k"] that by (simp add: add.assoc)
  then have "cstr m' (a + 1) xs = cstr m (a + 1) xs" by (rule Cons.IH)
  with Cons.prems[of 0] show ?case by simp
qed

lemma strlen_loop_cstr:
  "cstr m (s + n) xs \<Longrightarrow> strlen_loop m s n = Some (n + of_nat (length xs))"
proof (induction xs arbitrary: n)
  case Nil
  then show ?case by (subst strlen_loop.simps) simp
next
  case (Cons x xs)
  then have "cstr m (s + (n + 1)) xs" by (simp add: add.assoc)
  then have "strlen_loop m s (n + 1) = Some (n + 1 + of_nat (length xs))" by (rule Cons.IH)
  with Cons.prems show ?case by (subst strlen_loop.simps) (simp add: add.assoc)
qed

lemma strncmp_loop_zero_iff:
  "cstr m p xs \<Longrightarrow> cstr m q ys \<Longrightarrow> strncmp_loop m p q n = 0 \<longleftrightarrow> take n xs = take n ys"
proof (induction n arbitrary: p q xs ys)
  case 0
  then show ?case by simp
next
  case (Suc n)
  have d: "uint x = uint y \<longleftrightarrow> x = y" "uint x = 0 \<longleftrightarrow> x = 0" "0 = uint x \<longleftrightarrow> x = 0" for x y :: u8
    by (auto simp: word_uint_eq_iff)
  show ?case
  proof (cases xs)
    case Nil
    with Suc.prems show ?thesis by (cases ys) (auto simp: d)
  next
    case (Cons x xs')
    show ?thesis
    proof (cases ys)
      case Nil
      with Cons Suc.prems show ?thesis by (auto simp: d)
    next
      case c: (Cons y ys')
      show ?thesis
        using Suc.prems Suc.IH[of "p + 1" xs' "q + 1" ys'] Cons c by (auto simp: d)
    qed
  qed
qed

lemma shift_offset:
  fixes a s :: u32
  assumes "Suc c < unat (a - s)"
  shows "c < unat (a - (s + 1))" and "a \<noteq> s" and "a \<noteq> s + 1"
proof -
  from assms have nz: "a - s \<noteq> 0" by auto
  with assms show "c < unat (a - (s + 1))" by (simp add: unat_next)
  from assms show "a \<noteq> s" and "a \<noteq> s + 1" by auto
qed

lemma own_offset: "c + 1 < 2 ^ 32 \<Longrightarrow> c < unat ((s::u32) - (s + 1))"
  by (simp add: unat_neg_one32)

lemma safestrcpy_loop_frame:
  "c + 1 < 2 ^ 32 \<Longrightarrow> c < unat (a - s) \<Longrightarrow> safestrcpy_loop m s t c a = m a"
proof (induction c arbitrary: m s t)
  case 0
  then show ?case by auto
next
  case (Suc c)
  then show ?case
    using shift_offset[of c a s] by (simp add: Let_def)
qed

lemma safestrcpy_loop_cstr:
  assumes "cstr m t xs" and "c + 1 < 2 ^ 32"
    and "\<And>j. j \<le> length xs \<Longrightarrow> c < unat (t + of_nat j - s)"
  shows "cstr (safestrcpy_loop m s t c) s (take c xs)"
  using assms
proof (induction c arbitrary: m s t xs)
  case 0
  then show ?case by simp
next
  case (Suc c)
  show ?case
  proof (cases xs)
    case Nil
    with Suc.prems(1) show ?thesis by simp
  next
    case (Cons x xs')
    let ?m = "m(s := x)"
    have x: "m t = x" "x \<noteq> 0" and tail: "cstr m (t + 1) xs'" using Suc.prems(1) Cons by auto
    have off: "c < unat (t + 1 + of_nat j - (s + 1))" and ne: "t + 1 + of_nat j \<noteq> s"
      if "j \<le> length xs'" for j
    proof -
      from Suc.prems(3)[of "Suc j"] that Cons
      have "Suc c < unat (t + 1 + of_nat j - s)" by (simp add: add.assoc)
      then show "c < unat (t + 1 + of_nat j - (s + 1))" "t + 1 + of_nat j \<noteq> s"
        using shift_offset by blast+
    qed
    have cs: "cstr ?m (t + 1) xs'"
      using tail cstr_cong[of xs' ?m "t + 1" m] ne by simp
    have "cstr (safestrcpy_loop ?m (s + 1) (t + 1) c) (s + 1) (take c xs')"
      by (rule Suc.IH[OF cs]) (use Suc.prems(2) off in simp_all)
    moreover have "safestrcpy_loop ?m (s + 1) (t + 1) c s = x"
      using safestrcpy_loop_frame[of c s "s + 1" ?m "t + 1"] own_offset[of c s] Suc.prems(2) by simp
    ultimately show ?thesis using x Cons by (simp add: Let_def)
  qed
qed

lemma strncpy_loop_eq:
  assumes "cstr m t xs" and "c < 2 ^ 32"
    and "\<And>j. j \<le> length xs \<Longrightarrow> c \<le> unat (t + of_nat j - s)"
  shows "strncpy_loop m s t c a =
    (if unat (a - s) < c then (if unat (a - s) < length xs then xs ! unat (a - s) else 0) else m a)"
  using assms
proof (induction c arbitrary: m s t xs)
  case 0
  then show ?case by simp
next
  case (Suc c)
  then have c: "c < 2 ^ 32" by simp
  have step: "unat (a - (s + 1)) = unat (a - s) - 1" "0 < unat (a - s)" if "a \<noteq> s"
    using that by (simp_all add: unat_next unat_gt_0)
  show ?case
  proof (cases xs)
    case Nil
    then show ?thesis
      using Suc.prems(1) c step by (auto simp: Let_def stosb_eq)
  next
    case (Cons x xs')
    let ?m = "m(s := x)"
    have x: "m t = x" "x \<noteq> 0" and tail: "cstr m (t + 1) xs'" using Suc.prems(1) Cons by auto
    have ge: "Suc c \<le> unat (t + 1 + of_nat j - s)" if "j \<le> length xs'" for j
      using Suc.prems(3)[of "Suc j"] that Cons by (simp add: add.assoc)
    have off: "c \<le> unat (t + 1 + of_nat j - (s + 1))" if "j \<le> length xs'" for j
    proof -
      have "t + 1 + of_nat j \<noteq> s" using ge[OF that] by auto
      then show ?thesis using ge[OF that] unat_next[of "t + 1 + of_nat j" s] by linarith
    qed
    have "t + 1 + of_nat j \<noteq> s" if "j \<le> length xs'" for j using ge[OF that] by auto
    then have cs: "cstr ?m (t + 1) xs'"
      using tail cstr_cong[of xs' ?m "t + 1" m] by simp
    have ih: "strncpy_loop ?m (s + 1) (t + 1) c a =
      (if unat (a - (s + 1)) < c then (if unat (a - (s + 1)) < length xs' then xs' ! unat (a - (s + 1)) else 0)
       else ?m a)"
      by (rule Suc.IH[OF cs]) (use c off in simp_all)
    show ?thesis
    proof (cases "a = s")
      case True
      then show ?thesis using x Cons ih c by (simp add: Let_def unat_neg_one32)
    next
      case False
      then show ?thesis using x Cons ih step[OF False] by (auto simp: Let_def nth_Cons')
    qed
  qed
qed

subsection \<open>Properties\<close>

text \<open>
  \<open>memmove\<close> copies correctly for every overlap of source and destination: after the
  call each destination byte holds the byte the source held before it, and every byte
  outside the destination is unchanged, provided neither range runs past the end of the
  address space.
\<close>

theorem memmove_correct:
  assumes "unat src + unat n < 2 ^ 32" and "unat dst + unat n \<le> 2 ^ 32"
  shows "(\<forall>k < unat n. memmove m dst src n (dst + of_nat k) = m (src + of_nat k)) \<and>
    (\<forall>a. unat n \<le> unat (a - dst) \<longrightarrow> memmove m dst src n a = m a)"
proof -
  have "unat (of_nat k :: u32) = k" if "k < unat n" for k
    using that unat_lt32[of n] by (simp add: unat_of_nat32)
  then show ?thesis by (simp add: memmove_eq[OF assms])
qed

text \<open>A witness for C9: an overlapping move of three bytes upwards by one.\<close>

theorem memmove_correct_witness:
  "map (memmove (\<lambda>a. ucast a) 11 10 3) [11, 12, 13, 14] = [10, 11, 12, 14]"
proof -
  have 1: "memmove (\<lambda>a. ucast a) 11 10 3 (11 + of_nat k) = ucast (10 + of_nat k :: u32)" if "k < 3" for k
    using memmove_correct[of 10 3 11 "\<lambda>a. ucast a"] that by simp
  have 2: "memmove (\<lambda>a. ucast a) 11 10 3 a = ucast a" if "3 \<le> unat (a - 11)" for a
    using memmove_correct[of 10 3 11 "\<lambda>a. ucast a"] that by simp
  show ?thesis using 1[of 0] 1[of 1] 1[of 2] 2[of 14] by simp
qed

text \<open>
  \<open>safestrcpy\<close> always NUL-terminates: with a positive size and a source string that
  does not lie in the destination buffer, the destination holds the longest prefix of the
  source that fits with its terminator, and nothing outside the \<open>n\<close> bytes is written.
\<close>

theorem safestrcpy_correct:
  assumes "0 < n" and "n < 2 ^ 32" and "cstr m t xs"
    and "\<forall>j \<le> length xs. nat n \<le> unat (t + of_nat j - s)"
  shows "cstr (safestrcpy m s t n) s (take (nat n - 1) xs) \<and>
    (\<forall>a. nat n \<le> unat (a - s) \<longrightarrow> safestrcpy m s t n a = m a)"
proof -
  let ?c = "nat n - 1"
  have c: "?c + 1 < 2 ^ 32" and eq: "safestrcpy m s t n = safestrcpy_loop m s t ?c"
    using assms(1,2) by (auto simp: safestrcpy_def nat_diff_distrib)
  have "?c < unat (t + of_nat j - s)" if "j \<le> length xs" for j
    using assms(1,4) that by fastforce
  then have "cstr (safestrcpy_loop m s t ?c) s (take ?c xs)"
    using c assms(3) by (intro safestrcpy_loop_cstr)
  moreover have "safestrcpy_loop m s t ?c a = m a" if "nat n \<le> unat (a - s)" for a
    using c that assms(1) by (intro safestrcpy_loop_frame) auto
  ultimately show ?thesis unfolding eq by blast
qed

text \<open>An evaluation: the string \<open>abc\<close> copied into a buffer of three bytes.\<close>

definition abc_mem :: mem where
  "abc_mem = (\<lambda>a. if a = 100 then 97 else if a = 101 then 98 else if a = 102 then 99 else if a = 103 then 0 else 7)"

theorem safestrcpy_correct_witness:
  "cstr (safestrcpy abc_mem 200 100 3) 200 [97, 98] \<and> safestrcpy abc_mem 200 100 3 203 = 7"
proof -
  have "\<forall>j \<le> length [97, 98, 99::u8]. nat 3 \<le> unat ((100::u32) + of_nat j - 200)"
    by (simp add: le_Suc_eq)
  moreover have "cstr abc_mem 100 [97, 98, 99]" by (simp add: abc_mem_def)
  ultimately show ?thesis
    using safestrcpy_correct[of 3 abc_mem 100 "[97, 98, 99]" 200] by (simp add: abc_mem_def)
qed

end
