(* ===== verification/Kalloc.thy ===== *)
theory Kalloc
  imports KString
begin

text \<open>
  The physical page allocator (\<^verbatim>\<open>kernel/kalloc.c\<close>).  The free list is threaded through the
  free pages themselves: the first word of a free page holds the address of the next one.
  The model keeps that representation in byte memory; \<open>flist\<close> reads it back as a list of
  page addresses.  The linker symbol \<open>end\<close> is the parameter \<open>kend\<close>.  The routines run with
  \<open>kmem.lock\<close> held, so each is one atomic step.
\<close>

record kmem =
  kbytes :: mem
  freelist :: u32

definition PGSIZE :: u32 where "PGSIZE = 4096"
definition PHYSTOP :: u32 where "PHYSTOP = 0x1000000"

definition PGROUNDUP :: "u32 \<Rightarrow> u32" where
  "PGROUNDUP sz = (sz + PGSIZE - 1) AND NOT (PGSIZE - 1)"

definition PGROUNDDOWN :: "u32 \<Rightarrow> u32" where
  "PGROUNDDOWN a = a AND NOT (PGSIZE - 1)"

definition kfree :: "u32 \<Rightarrow> kmem \<Rightarrow> u32 \<Rightarrow> kmem option" where
  "kfree kend s v =
     (if v mod PGSIZE \<noteq> 0 \<or> v < kend \<or> v \<ge> PHYSTOP then None
      else let m = kmemset (kbytes s) v 1 PGSIZE
           in Some (s\<lparr>kbytes := store32 m v (freelist s), freelist := v\<rparr>))"

definition kalloc :: "kmem \<Rightarrow> u32 \<times> kmem" where
  "kalloc s =
     (let r = freelist s
      in (r, if r \<noteq> 0 then s\<lparr>freelist := load32 (kbytes s) r\<rparr> else s))"

function kinit_loop :: "u32 \<Rightarrow> kmem \<Rightarrow> u32 \<Rightarrow> kmem option" where
  "kinit_loop kend s p =
     (if p + PGSIZE \<le> PHYSTOP then
        (case kfree kend s p of None \<Rightarrow> None | Some s' \<Rightarrow> kinit_loop kend s' (p + PGSIZE))
      else Some s)"
  by pat_completeness auto
termination
proof (relation "measure (\<lambda>(kend, s, p). 2 ^ 32 - unat p)", simp)
  fix kend s p s'
  assume "kfree kend s p = Some s'"
  then have "p < PHYSTOP" by (auto simp: kfree_def split: if_splits)
  then have "unat (p + PGSIZE) = unat p + 4096"
    by (simp add: unat_word_ariths PHYSTOP_def PGSIZE_def word_less_nat_alt)
  then show "((kend, s', p + PGSIZE), kend, s, p) \<in> measure (\<lambda>(kend, s, p). 2 ^ 32 - unat p)"
    using unat_lt32[of p] by simp
qed

definition kinit :: "u32 \<Rightarrow> kmem \<Rightarrow> kmem option" where
  "kinit kend s = kinit_loop kend s (PGROUNDUP kend)"

declare kinit_loop.simps [simp del]

subsection \<open>The abstract free list\<close>

fun flist :: "mem \<Rightarrow> u32 \<Rightarrow> u32 list \<Rightarrow> bool" where
  "flist m p [] \<longleftrightarrow> p = 0"
| "flist m p (x # xs) \<longleftrightarrow> p = x \<and> x \<noteq> 0 \<and> flist m (load32 m x) xs"

definition kpage :: "u32 \<Rightarrow> u32 \<Rightarrow> bool" where
  "kpage kend v \<longleftrightarrow> v mod PGSIZE = 0 \<and> kend \<le> v \<and> v < PHYSTOP"

definition kinv :: "u32 \<Rightarrow> kmem \<Rightarrow> u32 list \<Rightarrow> bool" where
  "kinv kend s xs \<longleftrightarrow> flist (kbytes s) (freelist s) xs \<and> distinct xs \<and> (\<forall>x \<in> set xs. kpage kend x)"

abbreviation in_page :: "u32 \<Rightarrow> u32 \<Rightarrow> bool" where
  "in_page a p \<equiv> within 4096 a p"

lemma page_aligned: "v mod PGSIZE = 0 \<longleftrightarrow> aligned 4096 v"
  by (simp add: PGSIZE_def aligned_def word_arith_nat_mod unat_word_ariths dvd_eq_mod_eq_0
      word_unat_eq_iff unat_of_nat)

lemma in_page_iff: "aligned 4096 p \<Longrightarrow> in_page a p \<longleftrightarrow> unat a div 4096 = unat p div 4096"
  by (rule within_iff) simp_all

lemma page_disjoint:
  "\<lbrakk>aligned 4096 p; aligned 4096 q; p \<noteq> q; in_page a p\<rbrakk> \<Longrightarrow> \<not> in_page a q"
  by (auto simp: in_page_iff aligned_def word_unat_eq_iff)

lemma word_in_page:
  assumes "aligned 4096 p"
  shows "in_page p p" "in_page (p + 1) p" "in_page (p + 2) p" "in_page (p + 3) p"
  by (simp_all add: within_def)

lemma load32_other_page:
  assumes "aligned 4096 p" "aligned 4096 q" "p \<noteq> q" and "\<And>a. \<not> in_page a p \<Longrightarrow> m' a = m a"
  shows "load32 m' q = load32 m q"
  using assms word_in_page[of q] page_disjoint[of q p] by (intro load32_cong) auto

lemma flist_frame:
  assumes "\<And>a. \<not> in_page a p \<Longrightarrow> m' a = m a" and "aligned 4096 p"
    and "p \<notin> set xs" and "\<forall>x \<in> set xs. aligned 4096 x"
  shows "flist m' q xs = flist m q xs"
  using assms(3,4)
proof (induction xs arbitrary: q)
  case (Cons x xs)
  then have "load32 m' x = load32 m x"
    using assms(1,2) by (intro load32_other_page[of p]) auto
  with Cons show ?case by simp
qed simp

lemma kfree_bytes:
  assumes "kfree kend s v = Some s'" and "\<not> in_page a v"
  shows "kbytes s' a = kbytes s a"
proof -
  have "4 \<le> unat (a - v)" and "\<not> unat (a - v) < 4096" using assms(2) by (auto simp: within_def)
  with assms(1) show ?thesis
    by (auto simp: kfree_def Let_def store32_outside kmemset_eq PGSIZE_def split: if_splits)
qed

lemma kfree_links:
  assumes "kfree kend s v = Some s'"
  shows "freelist s' = v" "load32 (kbytes s') v = freelist s" "kpage kend v"
  using assms by (auto simp: kfree_def Let_def kpage_def split: if_splits)

subsection \<open>The allocator interface\<close>

text \<open>
  What the clients of the allocator (page tables, kernel stacks, pipes) rely on: the free
  pages form a list, \<open>alloc\<close> takes its head, \<open>free\<close> pushes a page that is not on it, and
  freeing touches only the bytes of the freed page.
\<close>

locale page_allocator =
  fixes alloc :: "'s \<Rightarrow> u32 \<times> 's"
    and free :: "'s \<Rightarrow> u32 \<Rightarrow> 's option"
    and inv :: "'s \<Rightarrow> u32 list \<Rightarrow> bool"
    and valid :: "u32 \<Rightarrow> bool"
    and bytes :: "'s \<Rightarrow> mem"
  assumes alloc_empty: "inv s [] \<Longrightarrow> alloc s = (0, s)"
    and alloc_cons: "inv s (x # xs) \<Longrightarrow> \<exists>s'. alloc s = (x, s') \<and> inv s' xs \<and> bytes s' = bytes s"
    and inv_pages: "inv s xs \<Longrightarrow> distinct xs \<and> 0 \<notin> set xs \<and> (\<forall>x \<in> set xs. valid x)"
    and free_ok: "\<lbrakk>inv s xs; valid v; v \<noteq> 0; v \<notin> set xs\<rbrakk> \<Longrightarrow> \<exists>s'. free s v = Some s' \<and> inv s' (v # xs)"
    and free_bytes: "\<lbrakk>free s v = Some s'; \<not> in_page a v\<rbrakk> \<Longrightarrow> bytes s' a = bytes s a"
    and free_invalid: "\<not> valid v \<Longrightarrow> free s v = None"

datatype page_op = Alloc | Free u32

text \<open>
  A client of the allocator: it keeps the list of pages it was handed and frees only pages
  on that list.
\<close>

fun page_run :: "('s \<Rightarrow> u32 \<times> 's) \<Rightarrow> ('s \<Rightarrow> u32 \<Rightarrow> 's option) \<Rightarrow> page_op list \<Rightarrow> 's \<Rightarrow> u32 list
    \<Rightarrow> ('s \<times> u32 list) option" where
  "page_run alloc free [] s held = Some (s, held)"
| "page_run alloc free (Alloc # ops) s held =
     (case alloc s of (r, s') \<Rightarrow> page_run alloc free ops s' (if r = 0 then held else r # held))"
| "page_run alloc free (Free v # ops) s held =
     (if v \<in> set held then
        (case free s v of None \<Rightarrow> None | Some s' \<Rightarrow> page_run alloc free ops s' (remove1 v held))
      else page_run alloc free ops s held)"

context page_allocator
begin

definition owned :: "'s \<Rightarrow> u32 list \<Rightarrow> u32 list \<Rightarrow> bool" where
  "owned s xs held \<longleftrightarrow> inv s xs \<and> distinct (xs @ held) \<and> 0 \<notin> set held \<and> (\<forall>v \<in> set held. valid v)"

lemma run_conserves:
  assumes "owned s xs held"
  shows "\<exists>s' xs' held'. page_run alloc free ops s held = Some (s', held') \<and> owned s' xs' held' \<and>
    set xs' \<union> set held' = set xs \<union> set held"
  using assms
proof (induction ops arbitrary: s xs held)
  case Nil
  then show ?case by auto
next
  case (Cons op ops)
  show ?case
  proof (cases op)
    case Alloc
    show ?thesis
    proof (cases xs)
      case Nil
      then have "alloc s = (0, s)" using Cons.prems alloc_empty[of s] by (simp add: owned_def)
      then show ?thesis using Cons.IH[OF Cons.prems] Alloc by simp
    next
      case (Cons x xs')
      with Cons.prems obtain s' where s': "alloc s = (x, s')" "inv s' xs'"
        using alloc_cons[of s x xs'] by (auto simp: owned_def)
      have "owned s' xs' (x # held)" and "x \<noteq> 0"
        using Cons.prems s' Cons inv_pages[of s xs] by (auto simp: owned_def)
      with Cons.IH[of s' xs' "x # held"] s' Cons Alloc show ?thesis by auto
    qed
  next
    case (Free v)
    show ?thesis
    proof (cases "v \<in> set held")
      case True
      with Cons.prems obtain s' where s': "free s v = Some s'" "inv s' (v # xs)"
        using free_ok[of s xs v] by (auto simp: owned_def)
      have "owned s' (v # xs) (remove1 v held)"
        using Cons.prems s' True by (auto simp: owned_def dest: notin_set_remove1)
      moreover have "set (v # xs) \<union> set (remove1 v held) = set xs \<union> set held"
        using True Cons.prems by (auto simp: owned_def set_remove1_eq)
      ultimately show ?thesis
        using Cons.IH[of s' "v # xs" "remove1 v held"] s' True Free by simp
    next
      case False
      with Cons Free show ?thesis by simp
    qed
  qed
qed

end

lemma kinv_aligned: "kinv kend s xs \<Longrightarrow> \<forall>x \<in> set xs. aligned 4096 x"
  by (auto simp: kinv_def kpage_def page_aligned)

lemma flist_nonzero: "flist m p xs \<Longrightarrow> 0 \<notin> set xs"
  by (induction xs arbitrary: p) auto

lemma kfree_kinv:
  assumes "kinv kend s xs" "kpage kend v" "v \<noteq> 0" "v \<notin> set xs"
  shows "\<exists>s'. kfree kend s v = Some s' \<and> kinv kend s' (v # xs)"
proof -
  from assms(2) have "\<not> (v mod PGSIZE \<noteq> 0 \<or> v < kend \<or> v \<ge> PHYSTOP)" by (auto simp: kpage_def)
  then obtain s' where s': "kfree kend s v = Some s'"
    unfolding kfree_def Let_def by (metis (no_types, lifting))
  have al: "aligned 4096 v" using assms(2) by (simp add: kpage_def page_aligned)
  have "flist (kbytes s') (freelist s) xs"
    using flist_frame[of v "kbytes s'" "kbytes s" xs] kfree_bytes[OF s'] al assms kinv_aligned
    by (auto simp: kinv_def)
  with s' assms kfree_links[OF s'] show ?thesis by (auto simp: kinv_def)
qed

interpretation kpages: page_allocator kalloc "kfree kend" "kinv kend" "kpage kend" kbytes for kend
proof unfold_locales
  fix s assume "kinv kend s []"
  then show "kalloc s = (0, s)" by (simp add: kinv_def kalloc_def)
next
  fix s x xs assume "kinv kend s (x # xs)"
  then show "\<exists>s'. kalloc s = (x, s') \<and> kinv kend s' xs \<and> kbytes s' = kbytes s"
    by (auto simp: kinv_def kalloc_def)
next
  fix s xs assume "kinv kend s xs"
  then show "distinct xs \<and> 0 \<notin> set xs \<and> (\<forall>x \<in> set xs. kpage kend x)"
    using flist_nonzero by (auto simp: kinv_def)
next
  fix s xs v assume "kinv kend s xs" "kpage kend v" "v \<noteq> 0" "v \<notin> set xs"
  then show "\<exists>s'. kfree kend s v = Some s' \<and> kinv kend s' (v # xs)" by (rule kfree_kinv)
next
  fix s v s' a assume "kfree kend s v = Some s'" "\<not> in_page a v"
  then show "kbytes s' a = kbytes s a" by (rule kfree_bytes)
next
  fix v s assume "\<not> kpage kend v"
  then show "kfree kend s v = None" by (auto simp: kfree_def kpage_def not_le not_less)
qed

subsection \<open>Initialisation\<close>

lemma PGROUNDUP_unat:
  assumes "kend \<le> PHYSTOP"
  shows "unat (PGROUNDUP kend) = (unat kend + 4095) div 4096 * 4096"
proof -
  have e: "unat (kend + 4095) = unat kend + 4095"
    using assms by (simp add: unat_word_ariths PHYSTOP_def word_le_nat_alt)
  have m: "PGSIZE - 1 = mask 12" "kend + PGSIZE - 1 = kend + 4095"
    by (simp_all add: PGSIZE_def mask_eq_exp_minus_1)
  have "x AND NOT (mask 12) = push_bit 12 (drop_bit 12 x)" for x :: u32
    by (rule bit_word_eqI) (auto simp: bit_simps)
  then have "PGROUNDUP kend = push_bit 12 (drop_bit 12 (kend + 4095))"
    unfolding PGROUNDUP_def m by blast
  moreover have "unat (push_bit 12 x) = take_bit 32 (unat x * 4096)" for x :: u32
    by (simp only: unsigned_push_bit_eq) (simp add: push_bit_eq_mult)
  ultimately have "unat (PGROUNDUP kend) = take_bit 32 (unat (drop_bit 12 (kend + 4095)) * 4096)"
    by (simp only:)
  also have "unat (drop_bit 12 (kend + 4095)) = (unat kend + 4095) div 4096"
    by (simp only: unat_drop_bit_eq e) (simp add: drop_bit_eq_div)
  also have "take_bit 32 ((unat kend + 4095) div 4096 * 4096) = (unat kend + 4095) div 4096 * 4096"
    using assms by (intro take_bit_nat_eq_self) (simp add: PHYSTOP_def word_le_nat_alt)
  finally show ?thesis .
qed

lemma aligned_below:
  assumes "aligned 4096 v" "aligned 4096 p" "p + PGSIZE \<le> PHYSTOP" "p < PHYSTOP"
  shows "v < p + PGSIZE \<longleftrightarrow> v < p \<or> v = p"
proof -
  have "unat (p + PGSIZE) = unat p + 4096"
    using assms(4) by (simp add: unat_word_ariths PHYSTOP_def PGSIZE_def word_less_nat_alt)
  with assms(1,2) show ?thesis
    unfolding word_less_nat_alt word_unat_eq_iff aligned_def by (auto elim!: dvdE)
qed

lemma kinit_loop_all:
  assumes "kinv kend s xs" and "set xs = {v. kpage kend v \<and> v < p}" and "0 < kend"
    and "aligned 4096 p" and "kend \<le> p" and "p \<le> PHYSTOP"
  shows "\<exists>s' xs'. kinit_loop kend s p = Some s' \<and> kinv kend s' xs' \<and> set xs' = {v. kpage kend v}"
  using assms
proof (induction kend s p arbitrary: xs rule: kinit_loop.induct)
  case (1 kend s p)
  show ?case
  proof (cases "p + PGSIZE \<le> PHYSTOP")
    case True
    have lt: "p < PHYSTOP"
      using "1.prems"(6) True by (auto simp: PHYSTOP_def PGSIZE_def order_less_le)
    with "1.prems" have kp: "kpage kend p" "p \<notin> set xs" "p \<noteq> 0"
      by (auto simp: kpage_def page_aligned)
    then obtain s' where s': "kfree kend s p = Some s'" "kinv kend s' (p # xs)"
      using kfree_kinv[OF "1.prems"(1)] by blast
    have up: "unat (p + PGSIZE) = unat p + 4096"
      using lt by (simp add: unat_word_ariths PHYSTOP_def PGSIZE_def word_less_nat_alt)
    have "set (p # xs) = {v. kpage kend v \<and> v < p + PGSIZE}"
      using "1.prems" kp(1) aligned_below[OF _ "1.prems"(4) True lt] by (auto simp: kpage_def page_aligned)
    moreover have "aligned 4096 (p + PGSIZE)" "kend \<le> p + PGSIZE"
      using up "1.prems"(4,5) by (auto simp: aligned_def word_le_nat_alt)
    ultimately obtain s'' xs'' where "kinit_loop kend s' (p + PGSIZE) = Some s''"
      "kinv kend s'' xs''" "set xs'' = {v. kpage kend v}"
      using "1.IH"[OF True s'(1) s'(2)] "1.prems"(3) True by blast
    with True s' show ?thesis by (auto simp: kinit_loop.simps[of kend s p])
  next
    case False
    have "p = PHYSTOP"
    proof (rule ccontr)
      assume "p \<noteq> PHYSTOP"
      then have "unat p < 0x1000000"
        using "1.prems"(6) by (auto simp: PHYSTOP_def word_le_nat_alt word_unat_eq_iff)
      then obtain k where "unat p = 4096 * k" "k < 4096" using "1.prems"(4) by (auto simp: aligned_def)
      then have "unat (p + PGSIZE) = 4096 * k + 4096"
        by (simp add: unat_word_ariths PGSIZE_def)
      with \<open>k < 4096\<close> False show False by (simp add: PHYSTOP_def word_le_nat_alt)
    qed
    then have "set xs = {v. kpage kend v}" using "1.prems"(2) by (auto simp: kpage_def)
    moreover have "kinit_loop kend s p = Some s" using False by (simp add: kinit_loop.simps[of kend s p])
    ultimately show ?thesis using "1.prems"(1) by blast
  qed
qed

subsection \<open>Properties\<close>

text \<open>
  Initialising the allocator frees exactly the pages between the end of the kernel
  image and \<open>PHYSTOP\<close>: \<open>kinit\<close> never panics and leaves a well-formed free list, without
  repetitions, whose members are the page-aligned addresses of that range.
\<close>

theorem kinit_frees_all_pages:
  assumes "0 < kend" and "kend \<le> PHYSTOP" and "freelist s = 0"
  shows "\<exists>s' xs. kinit kend s = Some s' \<and> kinv kend s' xs \<and> set xs = {v. kpage kend v}"
proof -
  let ?p = "PGROUNDUP kend"
  have u: "unat ?p = (unat kend + 4095) div 4096 * 4096" by (rule PGROUNDUP_unat[OF assms(2)])
  have k: "unat kend \<le> 0x1000000" using assms(2) by (simp add: PHYSTOP_def word_le_nat_alt)
  have 1: "aligned 4096 ?p" by (simp add: aligned_def u)
  have 2: "kend \<le> ?p"
    unfolding word_le_nat_alt u using div_mult_mod_eq[of "unat kend + 4095" 4096]
      mod_less_divisor[of 4096 "unat kend + 4095"] by linarith
  have 3: "?p \<le> PHYSTOP" unfolding word_le_nat_alt u using k by (simp add: PHYSTOP_def)
  have "v < ?p \<Longrightarrow> \<not> kpage kend v" for v
  proof
    assume "v < ?p" and "kpage kend v"
    then obtain i where v: "unat v < unat ?p" "unat v = 4096 * i" "unat kend \<le> unat v"
      by (auto simp: kpage_def page_aligned aligned_def word_less_nat_alt word_le_nat_alt elim: dvdE)
    have "(unat kend + 4095) div 4096 \<le> (4096 * i + 4095) div 4096"
      using v by (intro div_le_mono) simp
    with v(1,2) show False by (simp add: u)
  qed
  then have "set [] = {v. kpage kend v \<and> v < ?p}" by auto
  moreover have "kinv kend s []" using assms(3) by (simp add: kinv_def)
  ultimately show ?thesis
    unfolding kinit_def using kinit_loop_all[OF _ _ assms(1) 1 2 3] by blast
qed

text \<open>An evaluation: a kernel image that ends at address \<open>0xFFF001\<close>.\<close>

theorem kinit_frees_all_pages_witness:
  "\<exists>s' xs. kinit 0xFFD001 \<lparr>kbytes = (\<lambda>_. 0), freelist = 0\<rparr> = Some s' \<and>
     kinv 0xFFD001 s' xs \<and> set xs = {v. kpage 0xFFD001 v}"
  by (rule kinit_frees_all_pages) (simp_all add: PHYSTOP_def)

text \<open>
  C6: No page is handed out twice and none is lost.  Any sequence of \<open>kalloc\<close> and \<open>kfree\<close>
  calls by a client that frees only pages it holds runs without panic; afterwards the
  free list and the pages held are again without repetition, and together they are
  exactly the pages that were free or held before.
\<close>

theorem kalloc_kfree_conserve_pages:
  assumes "kinv kend s xs" and "distinct (xs @ held)" and "0 \<notin> set held"
    and "\<forall>v \<in> set held. kpage kend v"
  shows "\<exists>s' xs' held'. page_run kalloc (kfree kend) ops s held = Some (s', held') \<and>
    kinv kend s' xs' \<and> distinct (xs' @ held') \<and> set xs' \<union> set held' = set xs \<union> set held"
proof -
  have "kpages.owned kend s xs held" using assms by (simp add: kpages.owned_def)
  then show ?thesis
    using kpages.run_conserves[of kend s xs held ops] unfolding kpages.owned_def by blast
qed

text \<open>A witness for C6: one free page at \<open>0x5000\<close>, allocated, freed and allocated again.\<close>

theorem kalloc_kfree_conserve_pages_witness:
  "\<exists>s' xs' held'. page_run kalloc (kfree 0x1000) [Alloc, Free 0x5000, Alloc]
       \<lparr>kbytes = (\<lambda>_. 0), freelist = 0x5000\<rparr> [0x7000] = Some (s', held') \<and>
     kinv 0x1000 s' xs' \<and> distinct (xs' @ held') \<and> set xs' \<union> set held' = {0x5000, 0x7000}"
proof -
  have "kinv 0x1000 \<lparr>kbytes = (\<lambda>_. 0), freelist = 0x5000\<rparr> [0x5000]" and "kpage 0x1000 0x7000"
    by (simp_all add: kinv_def kpage_def PGSIZE_def PHYSTOP_def load32_def le32_def)
  moreover have "set [0x5000::u32] \<union> set [0x7000] = {0x5000, 0x7000}" by auto
  ultimately show ?thesis
    using kalloc_kfree_conserve_pages[of "0x1000" "\<lparr>kbytes = (\<lambda>_. 0), freelist = 0x5000\<rparr>" "[0x5000]"
      "[0x7000]" "[Alloc, Free 0x5000, Alloc]"] by (simp only:) simp
qed

end
