(* ===== verification/Vm.thy ===== *)
theory Vm
  imports Kalloc
begin

text \<open>
  Page tables (\<^verbatim>\<open>kernel/vm.c\<close>).  Page directories and page tables live in the byte memory of
  the page allocator, so every routine passes the allocator's state along; kernel virtual
  addresses equal physical ones (\<open>PADDR\<close> is the identity).  A routine that reports failure
  returns its C value; \<open>None\<close> is a panic, a NULL dereference or a loop that never ends.
  The limit up to which a process may grow is a parameter \<open>utop\<close>: \<open>USERTOP\<close> in the plain
  kernel, the process's \<open>spages_info.current_top\<close> in the kernel with shared pages.
\<close>

definition PTE_P :: u32 where "PTE_P = 1"
definition PTE_W :: u32 where "PTE_W = 2"
definition PTE_U :: u32 where "PTE_U = 4"
definition USERTOP :: u32 where "USERTOP = 0xA0000"

definition PDX :: "u32 \<Rightarrow> u32" where "PDX la = drop_bit 22 la AND 0x3FF"
definition PTX :: "u32 \<Rightarrow> u32" where "PTX la = drop_bit 12 la AND 0x3FF"
definition PTE_ADDR :: "u32 \<Rightarrow> u32" where "PTE_ADDR pte = pte AND NOT 0xFFF"

definition walkpgdir :: "kmem \<Rightarrow> u32 \<Rightarrow> u32 \<Rightarrow> bool \<Rightarrow> u32 \<times> kmem" where
  "walkpgdir s pgdir va create =
     (let pde = pgdir + 4 * PDX va
      in if load32 (kbytes s) pde AND PTE_P \<noteq> 0 then
           (PTE_ADDR (load32 (kbytes s) pde) + 4 * PTX va, s)
         else if \<not> create then (0, s)
         else case kalloc s of (pgtab, s1) \<Rightarrow>
           if pgtab = 0 then (0, s1)
           else let m = kmemset (kbytes s1) pgtab 0 PGSIZE
                in (pgtab + 4 * PTX va,
                    s1\<lparr>kbytes := store32 m pde (pgtab OR PTE_P OR PTE_W OR PTE_U)\<rparr>))"

partial_function (option) mappages_loop ::
    "kmem \<Rightarrow> u32 \<Rightarrow> u32 \<Rightarrow> u32 \<Rightarrow> u32 \<Rightarrow> u32 \<Rightarrow> (int \<times> kmem) option" where
  "mappages_loop s pgdir a lst pa perm =
     (case walkpgdir s pgdir a True of (pte, s1) \<Rightarrow>
        if pte = 0 then Some (-1, s1)
        else if load32 (kbytes s1) pte AND PTE_P \<noteq> 0 then None
        else let s2 = s1\<lparr>kbytes := store32 (kbytes s1) pte (pa OR perm OR PTE_P)\<rparr>
             in if a = lst then Some (0, s2)
                else mappages_loop s2 pgdir (a + PGSIZE) lst (pa + PGSIZE) perm)"

definition mappages :: "kmem \<Rightarrow> u32 \<Rightarrow> u32 \<Rightarrow> u32 \<Rightarrow> u32 \<Rightarrow> u32 \<Rightarrow> (int \<times> kmem) option" where
  "mappages s pgdir la sz pa perm =
     mappages_loop s pgdir (PGROUNDDOWN la) (PGROUNDDOWN (la + sz - 1)) pa perm"

text \<open>The kernel map; \<open>kdata\<close> is the linker symbol \<open>data\<close>.\<close>

definition kmap :: "u32 \<Rightarrow> (u32 \<times> u32 \<times> u32) list" where
  "kmap kdata =
     [(USERTOP, 0x100000, PTE_W), (0x100000, kdata, 0), (kdata, PHYSTOP, PTE_W), (0xFE000000, 0, PTE_W)]"

fun setupkvm_loop :: "kmem \<Rightarrow> u32 \<Rightarrow> (u32 \<times> u32 \<times> u32) list \<Rightarrow> (u32 \<times> kmem) option" where
  "setupkvm_loop s pgdir [] = Some (pgdir, s)"
| "setupkvm_loop s pgdir ((p, e, perm) # ks) =
     (case mappages s pgdir p (e - p) p perm of
        None \<Rightarrow> None
      | Some (r, s') \<Rightarrow> if r < 0 then Some (0, s') else setupkvm_loop s' pgdir ks)"

definition setupkvm :: "u32 \<Rightarrow> kmem \<Rightarrow> (u32 \<times> kmem) option" where
  "setupkvm kdata s =
     (case kalloc s of (pgdir, s1) \<Rightarrow>
        if pgdir = 0 then Some (0, s1)
        else setupkvm_loop (s1\<lparr>kbytes := kmemset (kbytes s1) pgdir 0 PGSIZE\<rparr>) pgdir (kmap kdata))"

definition inituvm :: "kmem \<Rightarrow> u32 \<Rightarrow> u32 \<Rightarrow> u32 \<Rightarrow> kmem option" where
  "inituvm s pgdir init sz =
     (if sz \<ge> PGSIZE then None
      else case kalloc s of (mem, s1) \<Rightarrow>
        let s2 = s1\<lparr>kbytes := kmemset (kbytes s1) mem 0 PGSIZE\<rparr>
        in case mappages s2 pgdir 0 PGSIZE mem (PTE_W OR PTE_U) of
             None \<Rightarrow> None
           | Some (r, s3) \<Rightarrow> Some (s3\<lparr>kbytes := memmove (kbytes s3) mem init sz\<rparr>))"

partial_function (option) deallocuvm_loop :: "u32 \<Rightarrow> kmem \<Rightarrow> u32 \<Rightarrow> u32 \<Rightarrow> u32 \<Rightarrow> kmem option" where
  "deallocuvm_loop kend s pgdir a oldsz =
     (if a < oldsz then
        (case walkpgdir s pgdir a False of (pte, s1) \<Rightarrow>
           if pte \<noteq> 0 \<and> load32 (kbytes s1) pte AND PTE_P \<noteq> 0 then
             (let pa = PTE_ADDR (load32 (kbytes s1) pte)
              in if pa = 0 then None
                 else case kfree kend s1 pa of
                        None \<Rightarrow> None
                      | Some s2 \<Rightarrow>
                          deallocuvm_loop kend (s2\<lparr>kbytes := store32 (kbytes s2) pte 0\<rparr>) pgdir (a + PGSIZE) oldsz)
           else deallocuvm_loop kend s1 pgdir (a + PGSIZE) oldsz)
      else Some s)"

definition deallocuvm :: "u32 \<Rightarrow> kmem \<Rightarrow> u32 \<Rightarrow> u32 \<Rightarrow> u32 \<Rightarrow> (u32 \<times> kmem) option" where
  "deallocuvm kend s pgdir oldsz newsz =
     (if newsz \<ge> oldsz then Some (oldsz, s)
      else case deallocuvm_loop kend s pgdir (PGROUNDUP newsz) oldsz of
             None \<Rightarrow> None | Some s' \<Rightarrow> Some (newsz, s'))"

text \<open>The result of \<open>mappages\<close> is not looked at here, as in the source.\<close>

partial_function (option) allocuvm_loop ::
    "u32 \<Rightarrow> kmem \<Rightarrow> u32 \<Rightarrow> u32 \<Rightarrow> u32 \<Rightarrow> u32 \<Rightarrow> (u32 \<times> kmem) option" where
  "allocuvm_loop kend s pgdir oldsz newsz a =
     (if a < newsz then
        (case kalloc s of (mem, s1) \<Rightarrow>
           if mem = 0 then
             (case deallocuvm kend s1 pgdir newsz oldsz of None \<Rightarrow> None | Some (r, s2) \<Rightarrow> Some (0, s2))
           else
             (case mappages (s1\<lparr>kbytes := kmemset (kbytes s1) mem 0 PGSIZE\<rparr>) pgdir a PGSIZE mem (PTE_W OR PTE_U) of
                None \<Rightarrow> None
              | Some (r, s2) \<Rightarrow> allocuvm_loop kend s2 pgdir oldsz newsz (a + PGSIZE)))
      else Some (newsz, s))"

definition allocuvm :: "u32 \<Rightarrow> u32 \<Rightarrow> kmem \<Rightarrow> u32 \<Rightarrow> u32 \<Rightarrow> u32 \<Rightarrow> (u32 \<times> kmem) option" where
  "allocuvm utop kend s pgdir oldsz newsz =
     (if newsz > utop then Some (0, s)
      else if newsz < oldsz then Some (oldsz, s)
      else allocuvm_loop kend s pgdir oldsz newsz (PGROUNDUP oldsz))"

text \<open>Free the page tables named by the directory entries \<open>i \<dots> 1023\<close>.\<close>

fun freevm_loop :: "u32 \<Rightarrow> kmem \<Rightarrow> u32 \<Rightarrow> u32 \<Rightarrow> nat \<Rightarrow> kmem option" where
  "freevm_loop kend s pgdir i 0 = Some s"
| "freevm_loop kend s pgdir i (Suc n) =
     (let e = load32 (kbytes s) (pgdir + 4 * i)
      in if e AND PTE_P \<noteq> 0 then
           (case kfree kend s (PTE_ADDR e) of
              None \<Rightarrow> None | Some s' \<Rightarrow> freevm_loop kend s' pgdir (i + 1) n)
         else freevm_loop kend s pgdir (i + 1) n)"

definition freevm :: "u32 \<Rightarrow> kmem \<Rightarrow> u32 \<Rightarrow> kmem option" where
  "freevm kend s pgdir =
     (if pgdir = 0 then None
      else case deallocuvm kend s pgdir USERTOP 0 of
             None \<Rightarrow> None
           | Some (r, s1) \<Rightarrow>
               (case freevm_loop kend s1 pgdir 0 1024 of
                  None \<Rightarrow> None | Some s2 \<Rightarrow> kfree kend s2 pgdir))"

text \<open>
  \<open>copyuvm_pages\<close> is the loop over the process's own pages; \<open>Some (False, s)\<close> is the jump to
  \<open>bad\<close>.  \<open>copyuvm_shared\<close> maps the parent's shared pages, from \<open>USERTOP - PGSIZE\<close> downwards.
\<close>

partial_function (option) copyuvm_pages ::
    "kmem \<Rightarrow> u32 \<Rightarrow> u32 \<Rightarrow> u32 \<Rightarrow> u32 \<Rightarrow> (bool \<times> kmem) option" where
  "copyuvm_pages s pgdir d i sz =
     (if i < sz then
        (case walkpgdir s pgdir i False of (pte, s1) \<Rightarrow>
           if pte = 0 then None
           else if load32 (kbytes s1) pte AND PTE_P = 0 then None
           else let pa = PTE_ADDR (load32 (kbytes s1) pte)
                in case kalloc s1 of (mem, s2) \<Rightarrow>
                  if mem = 0 then Some (False, s2)
                  else case mappages (s2\<lparr>kbytes := memmove (kbytes s2) mem pa PGSIZE\<rparr>) d i PGSIZE mem (PTE_W OR PTE_U) of
                         None \<Rightarrow> None
                       | Some (r, s3) \<Rightarrow>
                           if r < 0 then Some (False, s3) else copyuvm_pages s3 pgdir d (i + PGSIZE) sz)
      else Some (True, s))"

partial_function (option) copyuvm_shared :: "kmem \<Rightarrow> u32 \<Rightarrow> u32 \<Rightarrow> u32 \<Rightarrow> u32 \<Rightarrow> kmem option" where
  "copyuvm_shared s pgdir d i utop =
     (if i \<ge> utop then
        (case walkpgdir s pgdir i False of (pte, s1) \<Rightarrow>
           if pte = 0 then None
           else if load32 (kbytes s1) pte \<noteq> 0 then
             (case mappages s1 d i PGSIZE (PTE_ADDR (load32 (kbytes s1) pte)) (PTE_P OR PTE_W OR PTE_U) of
                None \<Rightarrow> None
              | Some (r, s2) \<Rightarrow> copyuvm_shared s2 pgdir d (i - PGSIZE) utop)
           else copyuvm_shared s1 pgdir d (i - PGSIZE) utop)
      else Some s)"

definition copyuvm :: "u32 \<Rightarrow> u32 \<Rightarrow> u32 \<Rightarrow> kmem \<Rightarrow> u32 \<Rightarrow> u32 \<Rightarrow> (u32 \<times> kmem) option" where
  "copyuvm kdata kend utop s pgdir sz =
     (case setupkvm kdata s of
        None \<Rightarrow> None
      | Some (d, s1) \<Rightarrow>
          if d = 0 then Some (0, s1)
          else case copyuvm_pages s1 pgdir d 0 sz of
                 None \<Rightarrow> None
               | Some (ok, s2) \<Rightarrow>
                   if ok then map_option (Pair d) (copyuvm_shared s2 pgdir d (USERTOP - PGSIZE) utop)
                   else map_option (Pair 0) (freevm kend s2 d))"

definition uva2ka :: "kmem \<Rightarrow> u32 \<Rightarrow> u32 \<Rightarrow> u32 option" where
  "uva2ka s pgdir uva =
     (case walkpgdir s pgdir uva False of (pte, s1) \<Rightarrow>
        if pte = 0 then None
        else let e = load32 (kbytes s1) pte
             in if e AND PTE_P = 0 then Some 0
                else if e AND PTE_U = 0 then Some 0
                else Some (PTE_ADDR e))"

partial_function (option) copyout :: "kmem \<Rightarrow> u32 \<Rightarrow> u32 \<Rightarrow> u32 \<Rightarrow> u32 \<Rightarrow> (int \<times> kmem) option" where
  "copyout s pgdir va buf len =
     (if len > 0 then
        (let va0 = PGROUNDDOWN va
         in case uva2ka s pgdir va0 of
              None \<Rightarrow> None
            | Some pa0 \<Rightarrow>
                if pa0 = 0 then Some (-1, s)
                else let n0 = PGSIZE - (va - va0); n = (if n0 > len then len else n0)
                     in copyout (s\<lparr>kbytes := memmove (kbytes s) (pa0 + (va - va0)) buf n\<rparr>) pgdir
                          (va0 + PGSIZE) (buf + n) (len - n))
      else Some (0, s))"

subsection \<open>Entries of a page\<close>

lemma PDX_lt: "unat (PDX va) < 1024" and PTX_lt: "unat (PTX va) < 1024"
proof -
  have *: "unat (x AND 0x3FF) < 1024" for x :: u32
  proof -
    have "unat (x AND 0x3FF) \<le> unat (0x3FF :: u32)"
      by (rule word_and_le1 [THEN word_le_nat_alt [THEN iffD1]])
    then show ?thesis by simp
  qed
  show "unat (PDX va) < 1024" "unat (PTX va) < 1024" by (simp_all only: PDX_def PTX_def *)
qed

lemma unat_entry:
  assumes "aligned 4096 p" and "unat i < 1024"
  shows "unat (p + 4 * i) = unat p + 4 * unat i"
proof -
  from assms(1) obtain k where k: "unat p = 4096 * k" by (auto simp: aligned_def)
  with unat_lt32[of p] have "k < 1048576" by simp
  with k assms(2) have "unat p + 4 * unat i < 2 ^ 32" by simp
  then show ?thesis by (simp add: unat_word_ariths)
qed

lemma entry_aligned: "aligned 4096 p \<Longrightarrow> unat i < 1024 \<Longrightarrow> aligned 4 (p + 4 * i)"
  by (auto simp: aligned_def unat_entry intro: dvd_trans[of 4 4096])

lemma entry_inj:
  assumes "aligned 4096 p" "aligned 4096 q" "unat i < 1024" "unat j < 1024"
  shows "p + 4 * i = q + 4 * j \<longleftrightarrow> p = q \<and> i = j"
proof
  assume "p + 4 * i = q + 4 * j"
  then have e: "unat p + 4 * unat i = unat q + 4 * unat j"
    using assms by (metis unat_entry)
  obtain k l where k: "unat p = 4096 * k" and l: "unat q = 4096 * l"
    using assms(1,2) unfolding aligned_def by (elim dvdE) blast
  from e k l assms(3,4) have "k = l" by auto
  with e k l have "unat p = unat q" "unat i = unat j" by auto
  then show "p = q \<and> i = j" by (simp add: word_unat_eq_iff)
qed simp

lemma entry_load_store:
  assumes "aligned 4096 p" "aligned 4096 q" "unat i < 1024" "unat j < 1024"
  shows "load32 (store32 m (q + 4 * j) v) (p + 4 * i) =
    (if p = q \<and> i = j then v else load32 m (p + 4 * i))"
  using assms entry_inj[of p q i j] by (auto intro!: load32_store32_other entry_aligned)

lemma entry_byte_in_page:
  assumes "aligned 4096 p" "unat i < 1024" "unat k < 4"
  shows "in_page (p + 4 * i + k) p"
proof -
  have "unat (4 * i + k) < 4096" using assms(2,3) by (simp add: unat_word_ariths)
  then show ?thesis by (simp add: within_def add.assoc)
qed

lemma entry_load_page:
  assumes "aligned 4096 p" "unat i < 1024" and "\<And>a. in_page a p \<Longrightarrow> m' a = m a"
  shows "load32 m' (p + 4 * i) = load32 m (p + 4 * i)"
  using assms(3) entry_byte_in_page[OF assms(1,2), of 0] entry_byte_in_page[OF assms(1,2), of 1]
    entry_byte_in_page[OF assms(1,2), of 2] entry_byte_in_page[OF assms(1,2), of 3]
  by (intro load32_cong) simp_all

lemma load32_zero: "m a = 0 \<Longrightarrow> m (a + 1) = 0 \<Longrightarrow> m (a + 2) = 0 \<Longrightarrow> m (a + 3) = 0 \<Longrightarrow> load32 m a = 0"
  by (simp add: load32_def le32_def)

lemma entry_load_cleared:
  assumes "aligned 4096 p" "unat i < 1024"
  shows "load32 (kmemset m p 0 PGSIZE) (p + 4 * i) = 0"
  using entry_byte_in_page[OF assms, of 0] entry_byte_in_page[OF assms, of 1]
    entry_byte_in_page[OF assms, of 2] entry_byte_in_page[OF assms, of 3]
  by (intro load32_zero) (simp_all add: kmemset_eq PGSIZE_def within_def)

lemma PTE_ADDR_mask: "PTE_ADDR x = x AND NOT (mask 12)"
  by (simp add: PTE_ADDR_def mask_eq_exp_minus_1)

lemma small_bits:
  assumes "unat (f :: u32) < 4096" "12 \<le> n" shows "\<not> bit f n"
proof -
  have "take_bit 12 f = f"
    using assms(1) by (simp add: word_unat_eq_iff unsigned_take_bit_eq take_bit_nat_eq_self)
  then show ?thesis using assms(2) by (metis bit_take_bit_iff not_less)
qed

lemma page_bits:
  assumes "aligned 4096 p" "n < 12" shows "\<not> bit p n"
proof -
  have "2 ^ 12 dvd unat p" using assms(1) by (simp add: aligned_def)
  then have "take_bit 12 (unat p) = 0" by (simp add: take_bit_eq_mod dvd_imp_mod_0)
  then have "\<not> bit (unat p) n" using assms(2) by (metis bit_0_eq bit_take_bit_iff bot_apply bot_bool_def)
  then show ?thesis by (simp add: bit_unsigned_iff)
qed

lemma PTE_ADDR_or_flags:
  assumes "aligned 4096 p" and "unat f < 4096"
  shows "PTE_ADDR (p OR f) = p"
proof (rule bit_word_eqI)
  fix n assume "n < LENGTH(32)"
  then show "bit (PTE_ADDR (p OR f)) n = bit p n"
    using small_bits[OF assms(2), of n] page_bits[OF assms(1), of n]
    by (cases "n < 12") (auto simp: PTE_ADDR_mask bit_simps)
qed

lemma PGROUNDDOWN_offset:
  assumes "aligned 4096 p" and "unat f < 4096"
  shows "PGROUNDDOWN (p + f) = p"
proof -
  have "p + f = p OR f"
    using small_bits[OF assms(2)] page_bits[OF assms(1)] by (intro disjunctive_add) (metis not_less)
  moreover have "PGROUNDDOWN x = PTE_ADDR x" for x
    by (simp add: PGROUNDDOWN_def PTE_ADDR_def PGSIZE_def)
  ultimately show ?thesis by (simp add: PTE_ADDR_or_flags[OF assms])
qed

subsection \<open>The abstract address space\<close>

text \<open>
  \<open>entry m pgdir va\<close> is the page table entry the paging hardware finds for \<open>va\<close>, and 0 when
  the directory has no page table there.  \<open>vminv\<close> says that a page directory is well
  formed: the directory and its page tables are pages of the kernel's pool, pairwise
  distinct and none of them free.
\<close>

definition entry :: "mem \<Rightarrow> u32 \<Rightarrow> u32 \<Rightarrow> u32" where
  "entry m pgdir va =
     (let pde = load32 m (pgdir + 4 * PDX va)
      in if pde AND PTE_P \<noteq> 0 then load32 m (PTE_ADDR pde + 4 * PTX va) else 0)"

definition present :: "mem \<Rightarrow> u32 \<Rightarrow> u32 \<Rightarrow> bool" where
  "present m pgdir i \<longleftrightarrow> load32 m (pgdir + 4 * i) AND PTE_P \<noteq> 0"

definition table :: "mem \<Rightarrow> u32 \<Rightarrow> u32 \<Rightarrow> u32" where
  "table m pgdir i = PTE_ADDR (load32 m (pgdir + 4 * i))"

definition dir_ok :: "u32 \<Rightarrow> u32 list \<Rightarrow> u32 \<Rightarrow> mem \<Rightarrow> bool" where
  "dir_ok kend xs pgdir m \<longleftrightarrow>
     (\<forall>i. unat i < 1024 \<longrightarrow> present m pgdir i \<longrightarrow>
        kpage kend (table m pgdir i) \<and> table m pgdir i \<noteq> 0 \<and> table m pgdir i \<noteq> pgdir \<and>
        table m pgdir i \<notin> set xs) \<and>
     (\<forall>i j. unat i < 1024 \<longrightarrow> unat j < 1024 \<longrightarrow> present m pgdir i \<longrightarrow> present m pgdir j \<longrightarrow>
        table m pgdir i = table m pgdir j \<longrightarrow> i = j)"

definition vminv :: "u32 \<Rightarrow> kmem \<Rightarrow> u32 list \<Rightarrow> u32 \<Rightarrow> bool" where
  "vminv kend s xs pgdir \<longleftrightarrow>
     kinv kend s xs \<and> kpage kend pgdir \<and> pgdir \<noteq> 0 \<and> pgdir \<notin> set xs \<and> dir_ok kend xs pgdir (kbytes s)"

text \<open>
  \<open>tabs\<close> are the page tables of a directory; \<open>same_outside P\<close> says that only bytes of the pages in
  \<open>P\<close> differ.
\<close>

definition tabs :: "mem \<Rightarrow> u32 \<Rightarrow> u32 set" where
  "tabs m pgdir = table m pgdir ` {i. unat i < 1024 \<and> present m pgdir i}"

definition dirs :: "mem \<Rightarrow> u32 \<Rightarrow> u32 set" where
  "dirs m pgdir = {i. unat i < 1024 \<and> present m pgdir i}"

definition same_outside :: "u32 set \<Rightarrow> mem \<Rightarrow> mem \<Rightarrow> bool" where
  "same_outside P m m' \<longleftrightarrow> (\<forall>a. (\<forall>p \<in> P. \<not> in_page a p) \<longrightarrow> m' a = m a)"

lemma same_outside_refl [simp]: "same_outside P m m"
  by (simp add: same_outside_def)

lemma same_outside_mono: "same_outside P m m' \<Longrightarrow> P \<subseteq> Q \<Longrightarrow> same_outside Q m m'"
  unfolding same_outside_def by blast

lemma same_outside_trans: "same_outside P m m' \<Longrightarrow> same_outside P m' m'' \<Longrightarrow> same_outside P m m''"
  unfolding same_outside_def by simp

lemma tabs_cong:
  assumes "\<And>i. unat i < 1024 \<Longrightarrow> present m' pgdir i = present m pgdir i"
    and "\<And>i. unat i < 1024 \<Longrightarrow> table m' pgdir i = table m pgdir i"
  shows "tabs m' pgdir = tabs m pgdir"
  unfolding tabs_def using assms by (intro image_cong) auto

lemma dir_ok_cong:
  assumes "\<And>i. unat i < 1024 \<Longrightarrow> present m' pgdir i = present m pgdir i"
    and "\<And>i. unat i < 1024 \<Longrightarrow> table m' pgdir i = table m pgdir i"
  shows "dir_ok kend xs pgdir m' = dir_ok kend xs pgdir m"
  by (simp add: dir_ok_def assms)

lemma kpage_aligned: "kpage kend v \<Longrightarrow> aligned 4096 v"
  by (simp add: kpage_def page_aligned)

lemma vminv_dir: "vminv kend s xs pgdir \<Longrightarrow> aligned 4096 pgdir"
  unfolding vminv_def using kpage_aligned by blast

lemma vminv_table:
  assumes "vminv kend s xs pgdir" "unat i < 1024" "present (kbytes s) pgdir i"
  shows "aligned 4096 (table (kbytes s) pgdir i)" "table (kbytes s) pgdir i \<noteq> pgdir"
    "table (kbytes s) pgdir i \<noteq> 0" "table (kbytes s) pgdir i \<notin> set xs"
  using assms kpage_aligned unfolding vminv_def dir_ok_def by blast+

lemma vminv_inj:
  assumes "vminv kend s xs pgdir" "unat i < 1024" "unat j < 1024"
    "present (kbytes s) pgdir i" "present (kbytes s) pgdir j"
  shows "table (kbytes s) pgdir i = table (kbytes s) pgdir j \<longleftrightarrow> i = j"
  using assms by (auto simp: vminv_def dir_ok_def)

lemma entry_eq:
  "entry m pgdir va = (if present m pgdir (PDX va) then load32 m (table m pgdir (PDX va) + 4 * PTX va) else 0)"
  by (simp add: entry_def present_def table_def Let_def)

lemma present_bit: "(x::u32) AND PTE_P \<noteq> 0 \<longleftrightarrow> bit x 0"
  by (auto simp: PTE_P_def and_one_eq bit_0 mod2_eq_if)

lemma present_absent [simp]: "(0::u32) AND x = 0"
  by simp

text \<open>Writing one entry of one page table changes exactly that entry of the address space.\<close>

lemma store_entry_effect:
  fixes v :: u32
  assumes inv: "vminv kend s xs pgdir" and pr: "present (kbytes s) pgdir (PDX a)"
  defines "m' \<equiv> store32 (kbytes s) (table (kbytes s) pgdir (PDX a) + 4 * PTX a) v"
  shows "vminv kend (s\<lparr>kbytes := m'\<rparr>) xs pgdir"
    and "entry m' pgdir va = (if PDX va = PDX a \<and> PTX va = PTX a then v else entry (kbytes s) pgdir va)"
    and "tabs m' pgdir = tabs (kbytes s) pgdir"
    and "same_outside {table (kbytes s) pgdir (PDX a)} (kbytes s) m'"
    and "\<And>i. unat i < 1024 \<Longrightarrow> present m' pgdir i = present (kbytes s) pgdir i"
    and "\<And>i. unat i < 1024 \<Longrightarrow> table m' pgdir i = table (kbytes s) pgdir i"
proof -
  let ?t = "table (kbytes s) pgdir (PDX a)"
  note t = vminv_table[OF inv PDX_lt pr]
  have dir: "load32 m' (pgdir + 4 * i) = load32 (kbytes s) (pgdir + 4 * i)" if "unat i < 1024" for i
    using t(2) by (simp add: m'_def entry_load_store[OF vminv_dir[OF inv] t(1) that PTX_lt])
  then have pt: "present m' pgdir i = present (kbytes s) pgdir i" "table m' pgdir i = table (kbytes s) pgdir i"
    if "unat i < 1024" for i using that by (simp_all add: present_def table_def)
  have outside: "m' x = kbytes s x" if "\<not> in_page x ?t" for x
  proof -
    have "\<not> within 4 x (?t + 4 * PTX a)"
    proof
      assume "within 4 x (?t + 4 * PTX a)"
      then have "unat (x - (?t + 4 * PTX a)) < 4" by (simp add: within_def)
      from entry_byte_in_page[OF t(1) PTX_lt[of a] this] that show False by simp
    qed
    then show ?thesis unfolding m'_def by (intro store32_outside) (simp add: within_def)
  qed
  have "flist m' (freelist s) xs = flist (kbytes s) (freelist s) xs"
    using inv t(4) kinv_aligned by (intro flist_frame[OF outside t(1)]) (auto simp: vminv_def)
  then have "kinv kend (s\<lparr>kbytes := m'\<rparr>) xs" using inv by (simp add: vminv_def kinv_def)
  then show "vminv kend (s\<lparr>kbytes := m'\<rparr>) xs pgdir"
    using inv dir_ok_cong[OF pt] by (simp add: vminv_def)
  show "tabs m' pgdir = tabs (kbytes s) pgdir" by (rule tabs_cong[OF pt])
  show "same_outside {?t} (kbytes s) m'" using outside by (simp add: same_outside_def)
  show "present m' pgdir i = present (kbytes s) pgdir i" "table m' pgdir i = table (kbytes s) pgdir i"
    if "unat i < 1024" for i using pt[OF that] .
  show "entry m' pgdir va = (if PDX va = PDX a \<and> PTX va = PTX a then v else entry (kbytes s) pgdir va)"
  proof (cases "present (kbytes s) pgdir (PDX va)")
    case True
    note tv = vminv_table[OF inv PDX_lt True]
    have "load32 m' (table (kbytes s) pgdir (PDX va) + 4 * PTX va) =
        (if table (kbytes s) pgdir (PDX va) = ?t \<and> PTX va = PTX a then v
         else load32 (kbytes s) (table (kbytes s) pgdir (PDX va) + 4 * PTX va))"
      unfolding m'_def by (rule entry_load_store[OF tv(1) t(1) PTX_lt PTX_lt])
    moreover have "table (kbytes s) pgdir (PDX va) = ?t \<longleftrightarrow> PDX va = PDX a"
      by (rule vminv_inj[OF inv PDX_lt PDX_lt True pr])
    ultimately show ?thesis using True pt PDX_lt by (simp add: entry_eq)
  next
    case False
    then show ?thesis using pt PDX_lt pr by (auto simp: entry_eq)
  qed
qed

text \<open>
  \<open>walkpgdir\<close> with \<open>create\<close> set: either it finds or makes the page table, without changing any
  entry of the address space, or no page is free and it returns 0 and changes nothing.
\<close>

lemma kalloc_kinv:
  assumes "kinv kend s (x # xs)"
  shows "kalloc s = (x, s\<lparr>freelist := load32 (kbytes s) x\<rparr>)"
    "kinv kend (s\<lparr>freelist := load32 (kbytes s) x\<rparr>) xs" "x \<noteq> 0" "kpage kend x" "x \<notin> set xs"
  using assms by (auto simp: kalloc_def kinv_def)

lemma walkpgdir_found:
  assumes "vminv kend s xs pgdir" "present (kbytes s) pgdir (PDX va)"
  shows "walkpgdir s pgdir va create = (table (kbytes s) pgdir (PDX va) + 4 * PTX va, s)"
    "table (kbytes s) pgdir (PDX va) + 4 * PTX va \<noteq> 0"
proof -
  show "walkpgdir s pgdir va create = (table (kbytes s) pgdir (PDX va) + 4 * PTX va, s)"
    using assms(2) by (simp add: walkpgdir_def present_def table_def)
  note t = vminv_table[OF assms(1) PDX_lt assms(2)]
  have "unat (table (kbytes s) pgdir (PDX va)) \<noteq> 0" using t(3) by (simp add: unat_eq_zero)
  then have "unat (table (kbytes s) pgdir (PDX va) + 4 * PTX va) \<noteq> 0"
    by (simp add: unat_entry[OF t(1) PTX_lt])
  then show "table (kbytes s) pgdir (PDX va) + 4 * PTX va \<noteq> 0" by auto
qed

lemma walkpgdir_full:
  assumes "vminv kend s [] pgdir" "\<not> present (kbytes s) pgdir (PDX va)"
  shows "walkpgdir s pgdir va True = (0, s)"
  using assms by (simp add: walkpgdir_def present_def vminv_def kinv_def kalloc_def)

lemma walkpgdir_new:
  assumes inv: "vminv kend s (x # xs) pgdir" and np: "\<not> present (kbytes s) pgdir (PDX va)"
  obtains s' where "walkpgdir s pgdir va True = (table (kbytes s') pgdir (PDX va) + 4 * PTX va, s')"
    "vminv kend s' xs pgdir" "present (kbytes s') pgdir (PDX va)"
    "\<And>v. entry (kbytes s') pgdir v = entry (kbytes s) pgdir v"
    "tabs (kbytes s') pgdir = insert x (tabs (kbytes s) pgdir)" "same_outside {pgdir, x} (kbytes s) (kbytes s')"
    "dirs (kbytes s') pgdir = insert (PDX va) (dirs (kbytes s) pgdir)"
proof -
  let ?m1 = "kmemset (kbytes s) x 0 PGSIZE"
  let ?e = "x OR PTE_P OR PTE_W OR PTE_U"
  let ?m = "store32 ?m1 (pgdir + 4 * PDX va) ?e"
  let ?s = "s\<lparr>freelist := load32 (kbytes s) x, kbytes := ?m\<rparr>"
  have k: "kinv kend s (x # xs)" and px: "pgdir \<noteq> x" "pgdir \<notin> set xs" using inv by (auto simp: vminv_def)
  note a = kalloc_kinv[OF k]
  note al = kpage_aligned[OF a(4)] vminv_dir[OF inv]
  have e7: "?e = x OR 7" by (simp add: PTE_P_def PTE_W_def PTE_U_def)
  have flags: "PTE_ADDR ?e = x" "?e AND PTE_P \<noteq> 0"
    unfolding e7 by (simp_all add: PTE_ADDR_or_flags[OF al(1)] present_bit bit_simps)
  have m1: "?m1 b = kbytes s b" if "\<not> in_page b x" for b
    using that by (simp add: kmemset_eq PGSIZE_def within_def)
  have outx: "in_page b q \<Longrightarrow> ?m1 b = kbytes s b" if "aligned 4096 q" "q \<noteq> x" for b q
    using that page_disjoint[OF that(1) al(1) that(2)] m1 by blast
  have dir: "load32 ?m (pgdir + 4 * i) = (if i = PDX va then ?e else load32 (kbytes s) (pgdir + 4 * i))"
    if "unat i < 1024" for i
    using entry_load_store[OF al(2) al(2) that PDX_lt, of ?m1 va ?e]
      entry_load_page[OF al(2) that, of ?m1 "kbytes s"] outx[OF al(2) px(1)] by simp
  have pr: "present ?m pgdir i = (i = PDX va \<or> present (kbytes s) pgdir i)"
    and tb: "table ?m pgdir i = (if i = PDX va then x else table (kbytes s) pgdir i)" if "unat i < 1024" for i
    using dir[OF that] flags by (simp_all add: present_def table_def)
  have told: "table (kbytes s) pgdir i \<noteq> x" "aligned 4096 (table (kbytes s) pgdir i)"
     "table (kbytes s) pgdir i \<noteq> pgdir" if "unat i < 1024" "present (kbytes s) pgdir i" for i
    using vminv_table[OF inv that] by auto
  have m2: "?m b = ?m1 b" if "\<not> in_page b pgdir" for b
  proof -
    have "\<not> unat (b - (pgdir + 4 * PDX va)) < 4"
    proof
      assume "unat (b - (pgdir + 4 * PDX va)) < 4"
      from entry_byte_in_page[OF al(2) PDX_lt[of va] this] that show False by simp
    qed
    then show ?thesis by (intro store32_outside) simp
  qed
  have xs: "\<forall>y \<in> set xs. aligned 4096 y" using kinv_aligned[OF k] by simp
  have "flist ?m q xs = flist (kbytes s) q xs" for q
    using flist_frame[of pgdir ?m ?m1, OF m2 al(2) px(2) xs] flist_frame[of x ?m1 "kbytes s", OF m1 al(1) a(5) xs]
    by simp
  then have kinv': "kinv kend ?s xs" using a(2) by (simp add: kinv_def)
  have ok: "dir_ok kend xs pgdir ?m"
    unfolding dir_ok_def
  proof (intro conjI allI impI)
    fix i assume i: "unat i < 1024" "present ?m pgdir i"
    show "kpage kend (table ?m pgdir i)" "table ?m pgdir i \<noteq> 0" "table ?m pgdir i \<noteq> pgdir"
      "table ?m pgdir i \<notin> set xs"
      using i pr[OF i(1)] tb[OF i(1)] a px inv by (auto simp: vminv_def dir_ok_def)
  next
    fix i j assume i: "unat i < 1024" "unat j < 1024" "present ?m pgdir i" "present ?m pgdir j"
      "table ?m pgdir i = table ?m pgdir j"
    then show "i = j"
      using pr tb told inv unfolding vminv_def dir_ok_def by metis
  qed
  have ent: "entry ?m pgdir v = entry (kbytes s) pgdir v" for v
  proof (cases "PDX v = PDX va")
    case True
    have "load32 ?m (x + 4 * PTX v) = load32 ?m1 (x + 4 * PTX v)"
      using entry_load_store[OF al(1) al(2) PTX_lt PDX_lt] px(1) by simp
    with True np show ?thesis
      using pr[OF PDX_lt, of va] tb[OF PDX_lt, of va] entry_load_cleared[OF al(1) PTX_lt] by (simp add: entry_eq)
  next
    case False
    have "load32 ?m (t + 4 * PTX v) = load32 (kbytes s) (t + 4 * PTX v)"
      if "aligned 4096 t" "t \<noteq> pgdir" "t \<noteq> x" for t
      using entry_load_store[OF that(1) al(2) PTX_lt PDX_lt] that(2)
        entry_load_page[OF that(1) PTX_lt outx[OF that(1,3)]] by simp
    with False show ?thesis
      using pr[OF PDX_lt, of v] tb[OF PDX_lt, of v] told[OF PDX_lt, of v] by (simp add: entry_eq)
  qed
  have tab: "tabs ?m pgdir = insert x (tabs (kbytes s) pgdir)"
  proof -
    have "{i. unat i < 1024 \<and> present ?m pgdir i} = insert (PDX va) {i. unat i < 1024 \<and> present (kbytes s) pgdir i}"
      using pr PDX_lt by auto
    moreover have "table ?m pgdir ` {i. unat i < 1024 \<and> present (kbytes s) pgdir i} = tabs (kbytes s) pgdir"
      unfolding tabs_def using tb np by (intro image_cong) auto
    ultimately show ?thesis using tb[OF PDX_lt, of va] by (simp add: tabs_def)
  qed
  have so: "same_outside {pgdir, x} (kbytes s) ?m" using m1 m2 by (simp add: same_outside_def)
  have w: "walkpgdir s pgdir va True = (x + 4 * PTX va, ?s)"
    using np a by (simp add: walkpgdir_def present_def Let_def)
  have "vminv kend ?s xs pgdir" using kinv' ok inv px by (simp add: vminv_def)
  moreover have "present (kbytes ?s) pgdir (PDX va)" "table (kbytes ?s) pgdir (PDX va) = x"
    using pr[OF PDX_lt] tb[OF PDX_lt] by simp_all
  moreover have "dirs ?m pgdir = insert (PDX va) (dirs (kbytes s) pgdir)" using pr PDX_lt by (auto simp: dirs_def)
  ultimately show ?thesis using that[of ?s] w ent tab so by simp
qed

subsection \<open>Mapping pages\<close>

text \<open>The three outcomes of \<open>walkpgdir\<close> in one statement.\<close>

lemma walkpgdir_create:
  assumes "vminv kend s xs pgdir"
  obtains (full) "walkpgdir s pgdir va True = (0, s)" "xs = []" "\<not> present (kbytes s) pgdir (PDX va)"
  | (ok) s' xs' where "walkpgdir s pgdir va True = (table (kbytes s') pgdir (PDX va) + 4 * PTX va, s')"
      "table (kbytes s') pgdir (PDX va) + 4 * PTX va \<noteq> 0"
      "vminv kend s' xs' pgdir" "present (kbytes s') pgdir (PDX va)" "set xs' \<subseteq> set xs"
      "\<And>v. entry (kbytes s') pgdir v = entry (kbytes s) pgdir v"
      "set xs' \<union> tabs (kbytes s') pgdir = set xs \<union> tabs (kbytes s) pgdir"
      "same_outside (insert pgdir (set xs)) (kbytes s) (kbytes s')"
      "dirs (kbytes s') pgdir = insert (PDX va) (dirs (kbytes s) pgdir)"
proof (cases "present (kbytes s) pgdir (PDX va)")
  case True
  then have "dirs (kbytes s) pgdir = insert (PDX va) (dirs (kbytes s) pgdir)" using PDX_lt by (auto simp: dirs_def)
  then show ?thesis using ok[of s xs] walkpgdir_found[OF assms True] assms True by simp
next
  case False
  show ?thesis
  proof (cases xs)
    case Nil
    then show ?thesis using full walkpgdir_full[of kend s pgdir va] assms False by simp
  next
    case (Cons x xs')
    with assms have inv: "vminv kend s (x # xs') pgdir" by simp
    obtain s' where s': "walkpgdir s pgdir va True = (table (kbytes s') pgdir (PDX va) + 4 * PTX va, s')"
      "vminv kend s' xs' pgdir" "present (kbytes s') pgdir (PDX va)"
      "\<And>v. entry (kbytes s') pgdir v = entry (kbytes s) pgdir v"
      "tabs (kbytes s') pgdir = insert x (tabs (kbytes s) pgdir)" "same_outside {pgdir, x} (kbytes s) (kbytes s')"
      "dirs (kbytes s') pgdir = insert (PDX va) (dirs (kbytes s) pgdir)"
      using walkpgdir_new[OF inv False] by blast
    have "same_outside (insert pgdir (set xs)) (kbytes s) (kbytes s')"
      by (rule same_outside_mono[OF s'(6)]) (auto simp: Cons)
    then show ?thesis using ok[of s' xs'] walkpgdir_found(2)[OF s'(2,3)] Cons s'(1-5,7) by auto
  qed
qed

lemma same_page: "PDX va = PDX a \<and> PTX va = PTX a \<longleftrightarrow> drop_bit 12 va = drop_bit 12 a"
proof
  assume "drop_bit 12 va = drop_bit 12 a"
  moreover have "drop_bit 22 x = drop_bit 10 (drop_bit 12 x)" for x :: u32 by simp
  ultimately show "PDX va = PDX a \<and> PTX va = PTX a" unfolding PDX_def PTX_def by metis
next
  assume e: "PDX va = PDX a \<and> PTX va = PTX a"
  have m: "(0x3FF::u32) = mask 10" by (simp add: mask_eq_exp_minus_1)
  have hi: "bit va (22 + n) = bit a (22 + n)" and lo: "bit va (12 + n) = bit a (12 + n)" if "n < 10" for n
  proof -
    have "bit (PDX va) n = bit (PDX a) n" "bit (PTX va) n = bit (PTX a) n" using e by simp_all
    then show "bit va (22 + n) = bit a (22 + n)" "bit va (12 + n) = bit a (12 + n)"
      using that unfolding PDX_def PTX_def m by (simp_all add: bit_simps)
  qed
  show "drop_bit 12 va = drop_bit 12 a"
  proof (rule bit_word_eqI)
    fix n assume "n < LENGTH(32)"
    then consider "n < 10" | "10 \<le> n" "n < 20" | "20 \<le> n" by linarith
    then show "bit (drop_bit 12 va) n = bit (drop_bit 12 a) n"
    proof cases
      case 1
      then show ?thesis using lo[of n] by (simp add: bit_simps)
    next
      case 2
      then show ?thesis using hi[of "n - 10"] by (simp add: bit_simps)
    next
      case 3
      then show ?thesis by (auto simp: bit_simps dest: bit_imp_le_length)
    qed
  qed
qed

lemma page_step_distinct:
  assumes "0 < j" "j < 1048576"
  shows "drop_bit 12 (a + of_nat j * PGSIZE) \<noteq> drop_bit 12 (a :: u32)"
proof
  assume "drop_bit 12 (a + of_nat j * PGSIZE) = drop_bit 12 a"
  then have "drop_bit 12 (unat (a + of_nat j * PGSIZE)) = drop_bit 12 (unat a)"
    by (metis unat_drop_bit_eq)
  then have "unat (a + of_nat j * PGSIZE) div 4096 = unat a div 4096"
    by (simp add: drop_bit_eq_div)
  moreover have "unat (a + of_nat j * PGSIZE) = (unat a + 4096 * j) mod (4096 * 1048576)"
    using assms(2) by (simp add: unat_word_ariths PGSIZE_def unat_of_nat mod_simps mult.commute)
  moreover have "(unat a + 4096 * j) mod (4096 * 1048576) div 4096 = (unat a div 4096 + j) mod 1048576"
    by (subst mod_mult2_eq) (simp add: add.commute)
  ultimately have e: "(unat a div 4096 + j) mod 1048576 = unat a div 4096" by simp
  have "unat a div 4096 < 1048576" using unat_lt32[of a] by simp
  with e assms show False
    by (cases "unat a div 4096 + j < 1048576") (auto simp: mod_if split: if_splits)
qed

definition set_entry :: "(u32 \<Rightarrow> u32) \<Rightarrow> u32 \<Rightarrow> u32 \<Rightarrow> (u32 \<Rightarrow> u32)" where
  "set_entry E a v = (\<lambda>va. if drop_bit 12 va = drop_bit 12 a then v else E va)"

text \<open>The abstract effect of mapping the \<open>n + 1\<close> pages from \<open>a\<close> on.\<close>

fun map_pages :: "(u32 \<Rightarrow> u32) \<Rightarrow> u32 \<Rightarrow> nat \<Rightarrow> u32 \<Rightarrow> u32 \<Rightarrow> (u32 \<Rightarrow> u32)" where
  "map_pages E a 0 pa perm = set_entry E a (pa OR perm OR PTE_P)"
| "map_pages E a (Suc n) pa perm =
     map_pages (set_entry E a (pa OR perm OR PTE_P)) (a + PGSIZE) n (pa + PGSIZE) perm"

lemma mappages_body:
  assumes "vminv kend s xs pgdir" and "entry (kbytes s) pgdir a AND PTE_P = 0"
  obtains (full) "\<And>lst. mappages_loop s pgdir a lst pa perm = Some (-1, s)" "xs = []"
  | (ok) s' xs' where
      "\<And>lst. mappages_loop s pgdir a lst pa perm =
         (if a = lst then Some (0, s') else mappages_loop s' pgdir (a + PGSIZE) lst (pa + PGSIZE) perm)"
      "vminv kend s' xs' pgdir" "set xs' \<subseteq> set xs"
      "entry (kbytes s') pgdir = set_entry (entry (kbytes s) pgdir) a (pa OR perm OR PTE_P)"
      "set xs' \<union> tabs (kbytes s') pgdir = set xs \<union> tabs (kbytes s) pgdir"
      "same_outside (insert pgdir (set xs \<union> tabs (kbytes s) pgdir)) (kbytes s) (kbytes s')"
      "dirs (kbytes s') pgdir = insert (PDX a) (dirs (kbytes s) pgdir)"
  using assms(1)
proof (cases rule: walkpgdir_create[where va = a])
  case full
  then have "mappages_loop s pgdir a lst pa perm = Some (-1, s)" for lst
    by (subst mappages_loop.simps) simp
  then show ?thesis using that(1) full(2) by blast
next
  case (ok s1 xs1)
  let ?pte = "table (kbytes s1) pgdir (PDX a) + 4 * PTX a"
  let ?s2 = "s1\<lparr>kbytes := store32 (kbytes s1) ?pte (pa OR perm OR PTE_P)\<rparr>"
  have "load32 (kbytes s1) ?pte = entry (kbytes s1) pgdir a" using ok(4) by (simp add: entry_eq)
  then have "load32 (kbytes s1) ?pte AND PTE_P = 0" using ok(6) assms(2) by simp
  then have 1: "mappages_loop s pgdir a lst pa perm =
      (if a = lst then Some (0, ?s2) else mappages_loop ?s2 pgdir (a + PGSIZE) lst (pa + PGSIZE) perm)" for lst
    using ok(1,2) by (subst mappages_loop.simps) (simp add: Let_def)
  note eff = store_entry_effect[OF ok(3,4), of "pa OR perm OR PTE_P"]
  have E: "entry (kbytes ?s2) pgdir = set_entry (entry (kbytes s) pgdir) a (pa OR perm OR PTE_P)"
    by (rule ext) (simp add: eff(2) set_entry_def same_page ok(6))
  have S: "same_outside (insert pgdir (set xs \<union> tabs (kbytes s) pgdir)) (kbytes s) (kbytes ?s2)"
  proof (rule same_outside_trans)
    show "same_outside (insert pgdir (set xs \<union> tabs (kbytes s) pgdir)) (kbytes s) (kbytes s1)"
      by (rule same_outside_mono[OF ok(8)]) blast
    have "same_outside {table (kbytes s1) pgdir (PDX a)} (kbytes s1) (kbytes ?s2)" using eff(4) by simp
    moreover have "table (kbytes s1) pgdir (PDX a) \<in> tabs (kbytes s1) pgdir"
      using ok(4) PDX_lt unfolding tabs_def by blast
    then have "{table (kbytes s1) pgdir (PDX a)} \<subseteq> insert pgdir (set xs \<union> tabs (kbytes s) pgdir)" using ok(7) by blast
    ultimately show "same_outside (insert pgdir (set xs \<union> tabs (kbytes s) pgdir)) (kbytes s1) (kbytes ?s2)"
      by (rule same_outside_mono)
  qed
  have T: "set xs1 \<union> tabs (kbytes ?s2) pgdir = set xs \<union> tabs (kbytes s) pgdir" using ok(7) eff(3) by simp
  have D: "dirs (kbytes ?s2) pgdir = insert (PDX a) (dirs (kbytes s) pgdir)"
  proof -
    have "dirs (kbytes ?s2) pgdir = dirs (kbytes s1) pgdir" 
      unfolding dirs_def using store_entry_effect(5)[OF ok(3,4), where v = "pa OR perm OR PTE_P"] by auto
    thus ?thesis by (simp only: ok(9))
  qed
  show ?thesis by (rule that(2)[OF 1 eff(1) ok(5) E T S D])
qed

lemma mappages_loop_refines:
  assumes "vminv kend s xs pgdir" and "n < 1048576"
    and "\<forall>k \<le> n. entry (kbytes s) pgdir (a + of_nat k * PGSIZE) AND PTE_P = 0"
  shows "\<exists>r s' xs'. mappages_loop s pgdir a (a + of_nat n * PGSIZE) pa perm = Some (r, s') \<and>
    vminv kend s' xs' pgdir \<and> set xs' \<subseteq> set xs \<and>
    set xs' \<union> tabs (kbytes s') pgdir = set xs \<union> tabs (kbytes s) pgdir \<and>
    same_outside (insert pgdir (set xs \<union> tabs (kbytes s) pgdir)) (kbytes s) (kbytes s') \<and>
    dirs (kbytes s') pgdir \<subseteq> dirs (kbytes s) pgdir \<union> (\<lambda>k. PDX (a + of_nat k * PGSIZE)) ` {..n} \<and>
    (r = 0 \<and> entry (kbytes s') pgdir = map_pages (entry (kbytes s) pgdir) a n pa perm \<or> r = -1 \<and> xs' = [])"
  using assms
proof (induction n arbitrary: s xs a pa)
  case 0
  then have "entry (kbytes s) pgdir a AND PTE_P = 0" by simp
  from 0(1) this show ?case
  proof (cases rule: mappages_body[where pa = pa and perm = perm])
    case full
    with 0(1) show ?thesis by auto
  next
    case (ok s' xs')
    have "mappages_loop s pgdir a (a + of_nat 0 * PGSIZE) pa perm = Some (0, s')" using ok(1) by simp
    moreover have "entry (kbytes s') pgdir = map_pages (entry (kbytes s) pgdir) a 0 pa perm" using ok(4) by simp
    moreover have "dirs (kbytes s') pgdir \<subseteq> dirs (kbytes s) pgdir \<union> (\<lambda>k. PDX (a + of_nat k * PGSIZE)) ` {..0}"
      using ok(7) by simp
    ultimately show ?thesis using ok(2,3,5,6) by blast
  qed
next
  case (Suc n)
  then have "entry (kbytes s) pgdir a AND PTE_P = 0" by auto
  from Suc.prems(1) this show ?case
  proof (cases rule: mappages_body[where pa = pa and perm = perm])
    case full
    with Suc.prems(1) show ?thesis by auto
  next
    case (ok s' xs')
    have next_a: "a + PGSIZE + of_nat k * PGSIZE = a + of_nat (Suc k) * PGSIZE" for k
      by (simp add: algebra_simps)
    have "entry (kbytes s') pgdir (a + PGSIZE + of_nat k * PGSIZE) AND PTE_P = 0" if "k \<le> n" for k
      using Suc.prems(2,3) that page_step_distinct[of "Suc k" a] unfolding next_a ok(4) set_entry_def by auto
    then obtain r s'' xs'' where r: "mappages_loop s' pgdir (a + PGSIZE) (a + PGSIZE + of_nat n * PGSIZE)
        (pa + PGSIZE) perm = Some (r, s'')" "vminv kend s'' xs'' pgdir" "set xs'' \<subseteq> set xs'"
      "set xs'' \<union> tabs (kbytes s'') pgdir = set xs' \<union> tabs (kbytes s') pgdir"
      "same_outside (insert pgdir (set xs' \<union> tabs (kbytes s') pgdir)) (kbytes s') (kbytes s'')"
      "dirs (kbytes s'') pgdir \<subseteq> dirs (kbytes s') pgdir \<union> (\<lambda>k. PDX (a + PGSIZE + of_nat k * PGSIZE)) ` {..n}"
      "r = 0 \<and> entry (kbytes s'') pgdir = map_pages (entry (kbytes s') pgdir) (a + PGSIZE) n (pa + PGSIZE) perm
        \<or> r = -1 \<and> xs'' = []"
      using Suc.IH[OF ok(2), of "a + PGSIZE" "pa + PGSIZE"] Suc.prems(2) by auto
    have "a \<noteq> a + of_nat (Suc n) * PGSIZE"
      using page_step_distinct[of "Suc n" a] Suc.prems(2) by auto
    then have "mappages_loop s pgdir a (a + of_nat (Suc n) * PGSIZE) pa perm = Some (r, s'')"
      using ok(1) r(1) unfolding next_a by simp
    moreover have "set xs'' \<subseteq> set xs" using r(3) ok(3) by blast
    moreover have "r = 0 \<and> entry (kbytes s'') pgdir = map_pages (entry (kbytes s) pgdir) a (Suc n) pa perm
        \<or> r = -1 \<and> xs'' = []"
      using r(7) ok(4) by simp
    moreover have "dirs (kbytes s'') pgdir \<subseteq> dirs (kbytes s) pgdir \<union> (\<lambda>k. PDX (a + of_nat k * PGSIZE)) ` {..Suc n}"
      using r(6) unfolding ok(7) next_a atMost_Suc_eq_insert_0 image_insert by (auto simp: image_image)
    moreover have "same_outside (insert pgdir (set xs \<union> tabs (kbytes s) pgdir)) (kbytes s) (kbytes s'')"
      using same_outside_trans[OF ok(6)] r(5) by (simp only: ok(5))
    moreover have "set xs'' \<union> tabs (kbytes s'') pgdir = set xs \<union> tabs (kbytes s) pgdir" using r(4) ok(5) by simp
    ultimately show ?thesis using r(2) by blast
  qed
qed

lemma map_pages_other:
  assumes "\<forall>k \<le> n. drop_bit 12 va \<noteq> drop_bit 12 (a + of_nat k * PGSIZE)"
  shows "map_pages E a n pa perm va = E va"
  using assms
proof (induction n arbitrary: E a pa)
  case 0
  then show ?case by (simp add: set_entry_def)
next
  case (Suc n)
  have "drop_bit 12 va \<noteq> drop_bit 12 (a + PGSIZE + of_nat k * PGSIZE)" if "k \<le> n" for k
    using Suc.prems[rule_format, of "Suc k"] that by (simp add: algebra_simps)
  moreover have "drop_bit 12 va \<noteq> drop_bit 12 a" using Suc.prems[rule_format, of 0] by simp
  ultimately show ?case using Suc.IH by (simp add: set_entry_def)
qed

lemma map_pages_in:
  assumes "k \<le> n" "n < 1048576" "drop_bit 12 va = drop_bit 12 (a + of_nat k * PGSIZE)"
  shows "map_pages E a n pa perm va = (pa + of_nat k * PGSIZE) OR perm OR PTE_P"
  using assms
proof (induction n arbitrary: E a pa k)
  case 0
  then show ?case by (simp add: set_entry_def)
next
  case (Suc n)
  show ?case
  proof (cases k)
    case 0
    have "drop_bit 12 va \<noteq> drop_bit 12 (a + PGSIZE + of_nat j * PGSIZE)" if "j \<le> n" for j
      using page_step_distinct[of "Suc j" a] that Suc.prems(2,3) 0 by (simp add: algebra_simps)
    then show ?thesis using Suc.prems(3) 0 by (simp add: map_pages_other set_entry_def)
  next
    case (Suc j)
    then show ?thesis
      using Suc.IH[of j "a + PGSIZE" "set_entry E a (pa OR perm OR PTE_P)" "pa + PGSIZE"] Suc.prems
      by (simp add: algebra_simps)
  qed
qed

lemma mappages_effect:
  assumes "vminv kend s xs pgdir" and "aligned 4096 la" and "n < 1048575"
    and "\<forall>k \<le> n. entry (kbytes s) pgdir (la + of_nat k * PGSIZE) AND PTE_P = 0"
  shows "\<exists>r s' xs'. mappages s pgdir la (of_nat (Suc n) * PGSIZE) pa perm = Some (r, s') \<and>
    vminv kend s' xs' pgdir \<and> set xs' \<subseteq> set xs \<and>
    set xs' \<union> tabs (kbytes s') pgdir = set xs \<union> tabs (kbytes s) pgdir \<and>
    same_outside (insert pgdir (set xs \<union> tabs (kbytes s) pgdir)) (kbytes s) (kbytes s') \<and>
    dirs (kbytes s') pgdir \<subseteq> dirs (kbytes s) pgdir \<union> (\<lambda>k. PDX (la + of_nat k * PGSIZE)) ` {..n} \<and>
    (r = 0 \<and> entry (kbytes s') pgdir = map_pages (entry (kbytes s) pgdir) la n pa perm \<or> r = -1 \<and> xs' = [])"
proof -
  let ?l = "la + of_nat n * PGSIZE"
  have "aligned 4096 ?l"
  proof -
    have "unat ?l = (unat la + 4096 * n) mod 2 ^ 32"
      by (simp add: unat_word_ariths PGSIZE_def unat_of_nat mod_simps mult.commute)
    moreover have "4096 dvd (unat la + 4096 * n)" using assms(2) by (simp add: aligned_def)
    ultimately show ?thesis by (simp add: aligned_def dvd_mod)
  qed
  moreover have "unat (4095 :: u32) < 4096" by simp
  ultimately have "PGROUNDDOWN (?l + 4095) = ?l" by (rule PGROUNDDOWN_offset)
  then have l: "PGROUNDDOWN (la + of_nat (Suc n) * PGSIZE - 1) = ?l"
    by (simp add: PGSIZE_def algebra_simps)
  have a: "PGROUNDDOWN la = la" using PGROUNDDOWN_offset[OF assms(2), of 0] by simp
  have n: "n < 1048576" using assms(3) by simp
  from mappages_loop_refines[OF assms(1) n assms(4), of pa perm]
  obtain r s' xs' where r: "mappages s pgdir la (of_nat (Suc n) * PGSIZE) pa perm = Some (r, s')"
    "vminv kend s' xs' pgdir" "set xs' \<subseteq> set xs"
    "set xs' \<union> tabs (kbytes s') pgdir = set xs \<union> tabs (kbytes s) pgdir"
    "same_outside (insert pgdir (set xs \<union> tabs (kbytes s) pgdir)) (kbytes s) (kbytes s')"
    "dirs (kbytes s') pgdir \<subseteq> dirs (kbytes s) pgdir \<union> (\<lambda>k. PDX (la + of_nat k * PGSIZE)) ` {..n}"
    "r = 0 \<and> entry (kbytes s') pgdir = map_pages (entry (kbytes s) pgdir) la n pa perm \<or> r = -1 \<and> xs' = []"
    unfolding mappages_def l a by blast
  then show ?thesis by blast
qed

subsection \<open>Properties\<close>

text \<open>
  \<open>mappages\<close> implements an update of the abstract address space.  On a well-formed page
  directory whose target pages are unmapped it never panics; it returns 0 after mapping
  each of the pages to the successive physical pages with the given permissions, all other
  translations unchanged, or -1 when the page allocator ran out of pages; the directory
  stays well formed either way.
\<close>

theorem mappages_correct:
  assumes "vminv kend s xs pgdir" and "aligned 4096 la" and "n < 1048575"
    and "\<forall>k \<le> n. entry (kbytes s) pgdir (la + of_nat k * PGSIZE) AND PTE_P = 0"
  shows "\<exists>r s' xs'. mappages s pgdir la (of_nat (Suc n) * PGSIZE) pa perm = Some (r, s') \<and>
    vminv kend s' xs' pgdir \<and> set xs' \<subseteq> set xs \<and>
    (r = 0 \<and> (\<forall>k \<le> n. entry (kbytes s') pgdir (la + of_nat k * PGSIZE) = (pa + of_nat k * PGSIZE) OR perm OR PTE_P) \<and>
       (\<forall>va. (\<forall>k \<le> n. drop_bit 12 va \<noteq> drop_bit 12 (la + of_nat k * PGSIZE)) \<longrightarrow>
          entry (kbytes s') pgdir va = entry (kbytes s) pgdir va)
     \<or> r = -1 \<and> xs' = [])"
proof -
  have n: "n < 1048576" using assms(3) by simp
  from mappages_effect[OF assms, of pa perm]
  obtain r s' xs' where r: "mappages s pgdir la (of_nat (Suc n) * PGSIZE) pa perm = Some (r, s')"
    "vminv kend s' xs' pgdir" "set xs' \<subseteq> set xs"
    "r = 0 \<and> entry (kbytes s') pgdir = map_pages (entry (kbytes s) pgdir) la n pa perm \<or> r = -1 \<and> xs' = []"
    by blast
  have "(\<forall>k \<le> n. E (la + of_nat k * PGSIZE) = (pa + of_nat k * PGSIZE) OR perm OR PTE_P) \<and>
      (\<forall>va. (\<forall>k \<le> n. drop_bit 12 va \<noteq> drop_bit 12 (la + of_nat k * PGSIZE)) \<longrightarrow>
         E va = entry (kbytes s) pgdir va)"
    if "E = map_pages (entry (kbytes s) pgdir) la n pa perm" for E
    unfolding that by (intro conjI allI impI map_pages_in[OF _ n refl] map_pages_other) simp_all
  with r(4) have "r = 0 \<and> (\<forall>k \<le> n. entry (kbytes s') pgdir (la + of_nat k * PGSIZE) = (pa + of_nat k * PGSIZE) OR perm OR PTE_P) \<and>
       (\<forall>va. (\<forall>k \<le> n. drop_bit 12 va \<noteq> drop_bit 12 (la + of_nat k * PGSIZE)) \<longrightarrow>
          entry (kbytes s') pgdir va = entry (kbytes s) pgdir va)
     \<or> r = -1 \<and> xs' = []" by blast
  with r(1-3) show ?thesis by blast
qed

text \<open>
  A witness for C7: a directory at \<open>0x3000\<close> with no page tables, one free page at \<open>0x4000\<close>;
  two pages are mapped from address 0 on.
\<close>

theorem mappages_correct_witness:
  "\<exists>r s' xs'. mappages \<lparr>kbytes = (\<lambda>_. 0), freelist = 0x4000\<rparr> 0x3000 0 (of_nat (Suc 1) * PGSIZE) 0x7000 PTE_W = Some (r, s') \<and>
     vminv 0x1000 s' xs' 0x3000 \<and> set xs' \<subseteq> {0x4000} \<and>
     (r = 0 \<and> (\<forall>k \<le> 1. entry (kbytes s') 0x3000 (0 + of_nat k * PGSIZE) = (0x7000 + of_nat k * PGSIZE) OR PTE_W OR PTE_P) \<and>
        (\<forall>va. (\<forall>k \<le> 1. drop_bit 12 va \<noteq> drop_bit 12 (0 + of_nat k * PGSIZE)) \<longrightarrow>
           entry (kbytes s') 0x3000 va = entry (\<lambda>_. 0) 0x3000 va)
      \<or> r = -1 \<and> xs' = [])"
proof -
  let ?s = "\<lparr>kbytes = (\<lambda>_. 0), freelist = 0x4000\<rparr>"
  have z: "load32 (\<lambda>_. 0) a = 0" for a by (rule load32_zero) simp_all
  have "vminv 0x1000 ?s [0x4000] 0x3000"
    by (simp add: vminv_def dir_ok_def present_def kinv_def kpage_def PGSIZE_def PHYSTOP_def z)
  moreover have "entry (kbytes ?s) 0x3000 va AND PTE_P = 0" for va
    by (simp add: entry_def z)
  ultimately show ?thesis
    using mappages_correct[of "0x1000" ?s "[0x4000]" "0x3000" 0 1 "0x7000" PTE_W]
    by (simp add: aligned_def del: of_nat_Suc)
qed

end
