(* ===== verification/Mlfq.thy ===== *)
theory Mlfq
  imports Vm
begin

text \<open>
  Processes and the multi-level feedback queue scheduler (\<^verbatim>\<open>Project2b/xv6/kernel/proc.c\<close>,
  \<^verbatim>\<open>trap.c\<close>, \<^verbatim>\<open>sysproc.c\<close>).  The process table and the four queues are lists of
  \<open>NPROC\<close> slots; a process pointer is its slot number.  Every routine runs with
  \<open>ptable.lock\<close> held and interrupts off, so each is one atomic step; a routine that
  blocks (\<open>sleep\<close>, \<open>wait\<close>, \<open>yield\<close>, \<open>exit\<close>) ends its step at the call of \<open>sched\<close>, where
  control passes to \<open>scheduler\<close>.  The file system underneath \<open>fork\<close> and \<open>exit\<close> is an
  argument: an opaque state \<open>'f\<close> with the operations of the record \<open>kenv\<close>.
  \<open>None\<close> is a panic or a NULL dereference.
\<close>

subsection \<open>State\<close>

datatype procstate = UNUSED | EMBRYO | SLEEPING | RUNNABLE | RUNNING | ZOMBIE

text \<open>Sleep channels: the address of a process, of \<open>ticks\<close>, or of any other kernel object.\<close>

datatype chan = ProcChan nat | TicksChan | ObjChan u32

text \<open>Where a process resumes in the kernel: at \<open>forkret\<close> or after its call of \<open>sched\<close>.\<close>

datatype kctx = Forkret | InSched

record trapframe =
  tf_eax :: u32
  tf_eip :: u32
  tf_esp :: u32
  tf_eflags :: u32
  tf_cs :: u32
  tf_ds :: u32
  tf_es :: u32
  tf_ss :: u32

record proc =
  psz :: u32
  pgdir :: u32
  kstack :: u32
  pstate :: procstate
  pid :: int
  parent :: "nat option"
  tf :: trapframe
  pcontext :: kctx
  chan :: "chan option"
  killed :: bool
  ofile :: "nat option list"
  cwd :: "nat option"
  pname :: string
  priority :: nat
  pticks :: "nat list"
  accumulatedTicks :: "nat list"
  lastTick :: u32

record 'f kstate =
  km :: kmem
  fs :: 'f
  procs :: "proc list"
  queues :: "nat option list list"
  initproc :: "nat option"
  nextpid :: int
  cur :: "nat option"
  running :: "(nat \<times> nat) option"
  lastRR :: "nat option"
  ticks :: u32
  starvTicks :: u32
  kpgdir :: u32
  cr3 :: u32

record 'f kenv =
  kdata :: u32
  kend :: u32
  initcode_start :: u32
  initcode_size :: u32
  filedup :: "nat \<Rightarrow> 'f \<Rightarrow> 'f option"
  fileclose :: "nat \<Rightarrow> 'f \<Rightarrow> 'f option"
  idup :: "nat \<Rightarrow> 'f \<Rightarrow> 'f option"
  iput :: "nat \<Rightarrow> 'f \<Rightarrow> 'f option"
  namei_root :: "'f \<Rightarrow> (nat option \<times> 'f) option"

abbreviation NPROC :: nat where "NPROC \<equiv> 64"

definition upd :: "'f kstate \<Rightarrow> nat \<Rightarrow> (proc \<Rightarrow> proc) \<Rightarrow> 'f kstate" where
  "upd s i f = s\<lparr>procs := (procs s)[i := f (procs s ! i)]\<rparr>"

subsection \<open>Queues\<close>

definition put_queue :: "nat option list \<Rightarrow> nat \<Rightarrow> nat option list" where
  "put_queue q p = (case first_idx (\<lambda>x. x = None) q of None \<Rightarrow> q | Some i \<Rightarrow> q[i := Some p])"

definition clear_queue :: "nat option list \<Rightarrow> nat \<Rightarrow> nat option list" where
  "clear_queue q p = (case first_idx (\<lambda>x. x = Some p) q of None \<Rightarrow> q | Some i \<Rightarrow> q[i := None])"

definition enqueue :: "'f kstate \<Rightarrow> nat \<Rightarrow> nat \<Rightarrow> 'f kstate" where
  "enqueue s k p = s\<lparr>queues := (queues s)[k := put_queue (queues s ! k) p]\<rparr>"

subsection \<open>Creating processes\<close>

definition switchuvm :: "'f kstate \<Rightarrow> nat \<Rightarrow> 'f kstate option" where
  "switchuvm s p = (if pgdir (procs s ! p) = 0 then None else Some (s\<lparr>cr3 := pgdir (procs s ! p)\<rparr>))"

definition switchkvm :: "'f kstate \<Rightarrow> 'f kstate" where
  "switchkvm s = s\<lparr>cr3 := kpgdir s\<rparr>"

definition allocproc :: "'f kstate \<Rightarrow> nat option \<times> 'f kstate" where
  "allocproc s =
     (case first_idx (\<lambda>p. pstate p = UNUSED) (procs s) of
        None \<Rightarrow> (None, s)
      | Some i \<Rightarrow>
          let s1 = (upd s i (\<lambda>p. p\<lparr>pstate := EMBRYO, pid := nextpid s\<rparr>))\<lparr>nextpid := nextpid s + 1\<rparr>
          in case kalloc (km s1) of (k, km') \<Rightarrow>
               let s2 = (upd s1 i (\<lambda>p. p\<lparr>kstack := k\<rparr>))\<lparr>km := km'\<rparr>
               in if k = 0 then (None, upd s2 i (\<lambda>p. p\<lparr>pstate := UNUSED\<rparr>))
                  else (Some i, upd s2 i (\<lambda>p. p\<lparr>pcontext := Forkret\<rparr>)))"

definition userinit :: "'f kenv \<Rightarrow> 'f kstate \<Rightarrow> 'f kstate option" where
  "userinit e s =
     (case allocproc s of
        (None, s1) \<Rightarrow> None
      | (Some p, s1) \<Rightarrow>
          (case setupkvm (kdata e) (km s1) of
             None \<Rightarrow> None
           | Some (d, km2) \<Rightarrow>
               if d = 0 then None
               else case inituvm km2 d (initcode_start e) (initcode_size e) of
                      None \<Rightarrow> None
                    | Some km3 \<Rightarrow>
                        (case namei_root e (fs s1) of
                           None \<Rightarrow> None
                         | Some (root, fs') \<Rightarrow>
                             let s2 = s1\<lparr>initproc := Some p, km := km3, fs := fs'\<rparr>;
                                 s3 = upd s2 p (\<lambda>r. r\<lparr>pgdir := d, psz := PGSIZE,
                                        tf := \<lparr>tf_eax = 0, tf_eip = 0, tf_esp = PGSIZE, tf_eflags = 0x200,
                                               tf_cs = (push_bit 3 4) OR 3, tf_ds = (push_bit 3 5) OR 3,
                                               tf_es = (push_bit 3 5) OR 3, tf_ss = (push_bit 3 5) OR 3\<rparr>,
                                        pname := ''initcode'', cwd := root, pstate := RUNNABLE, priority := 0\<rparr>)
                             in Some (enqueue s3 0 p))))"

definition growproc :: "'f kenv \<Rightarrow> 'f kstate \<Rightarrow> nat \<Rightarrow> int \<Rightarrow> (int \<times> 'f kstate) option" where
  "growproc e s c n =
     (let p = procs s ! c; sz = psz p;
          res = (if n > 0 then allocuvm USERTOP (kend e) (km s) (pgdir p) sz (sz + of_int n)
                 else if n < 0 then deallocuvm (kend e) (km s) (pgdir p) sz (sz + of_int n)
                 else Some (sz, km s))
      in case res of
           None \<Rightarrow> None
         | Some (sz', km') \<Rightarrow>
             if n \<noteq> 0 \<and> sz' = 0 then Some (-1, s\<lparr>km := km'\<rparr>)
             else map_option (Pair 0) (switchuvm (upd (s\<lparr>km := km'\<rparr>) c (\<lambda>r. r\<lparr>psz := sz'\<rparr>)) c))"

fun dup_files :: "(nat \<Rightarrow> 'f \<Rightarrow> 'f option) \<Rightarrow> nat option list \<Rightarrow> nat option list \<Rightarrow> 'f
    \<Rightarrow> (nat option list \<times> 'f) option" where
  "dup_files dup [] ys f = Some (ys, f)"
| "dup_files dup (x # xs) [] f = Some ([], f)"
| "dup_files dup (None # xs) (y # ys) f =
     (case dup_files dup xs ys f of None \<Rightarrow> None | Some (zs, f') \<Rightarrow> Some (y # zs, f'))"
| "dup_files dup (Some v # xs) (y # ys) f =
     (case dup v f of
        None \<Rightarrow> None
      | Some f1 \<Rightarrow> (case dup_files dup xs ys f1 of None \<Rightarrow> None | Some (zs, f') \<Rightarrow> Some (Some v # zs, f')))"

definition fork :: "'f kenv \<Rightarrow> 'f kstate \<Rightarrow> nat \<Rightarrow> (int \<times> 'f kstate) option" where
  "fork e s c =
     (case allocproc s of
        (None, s1) \<Rightarrow> Some (-1, s1)
      | (Some np, s1) \<Rightarrow>
          (case copyuvm (kdata e) (kend e) USERTOP (km s1) (pgdir (procs s1 ! c)) (psz (procs s1 ! c)) of
             None \<Rightarrow> None
           | Some (d, km2) \<Rightarrow>
               let s2 = (upd s1 np (\<lambda>p. p\<lparr>pgdir := d\<rparr>))\<lparr>km := km2\<rparr>
               in if d = 0 then
                    (case kfree (kend e) km2 (kstack (procs s2 ! np)) of
                       None \<Rightarrow> None
                     | Some km3 \<Rightarrow>
                         Some (-1, (upd s2 np (\<lambda>p. p\<lparr>kstack := 0, pstate := UNUSED\<rparr>))\<lparr>km := km3\<rparr>))
                  else
                    let s3 = enqueue (upd s2 np (\<lambda>p. p\<lparr>priority := 0\<rparr>)) 0 np; pr = procs s3 ! c
                    in case dup_files (filedup e) (ofile pr) (ofile (procs s3 ! np)) (fs s3) of
                         None \<Rightarrow> None
                       | Some (files, f1) \<Rightarrow>
                           (case (case cwd pr of None \<Rightarrow> None | Some d \<Rightarrow> idup e d f1) of
                              None \<Rightarrow> None
                            | Some f2 \<Rightarrow>
                                Some (pid (procs s3 ! np),
                                  (upd s3 np (\<lambda>p. p\<lparr>psz := psz pr, parent := Some c,
                                       tf := (tf pr)\<lparr>tf_eax := 0\<rparr>, ofile := files, cwd := cwd pr,
                                       pstate := RUNNABLE, pname := pname pr\<rparr>))\<lparr>fs := f2\<rparr>))))"

subsection \<open>Sleeping, waking, killing\<close>

definition wakeup1 :: "proc list \<Rightarrow> chan option \<Rightarrow> proc list" where
  "wakeup1 ps ch =
     map (\<lambda>p. if pstate p = SLEEPING \<and> chan p = ch then p\<lparr>pstate := RUNNABLE\<rparr> else p) ps"

definition wakeup :: "'f kstate \<Rightarrow> chan option \<Rightarrow> 'f kstate" where
  "wakeup s ch = s\<lparr>procs := wakeup1 (procs s) ch\<rparr>"

text \<open>
  \<open>sleep\<close> and \<open>yield\<close> up to their call of \<open>sched\<close>; \<open>sleep_resume\<close> is the rest of \<open>sleep\<close>,
  run when the process is scheduled again.
\<close>

definition sleep :: "'f kstate \<Rightarrow> nat \<Rightarrow> chan \<Rightarrow> 'f kstate" where
  "sleep s c ch = upd s c (\<lambda>p. p\<lparr>chan := Some ch, pstate := SLEEPING, pcontext := InSched\<rparr>)"

definition sleep_resume :: "'f kstate \<Rightarrow> nat \<Rightarrow> 'f kstate" where
  "sleep_resume s c = upd s c (\<lambda>p. p\<lparr>chan := None\<rparr>)"

definition yield :: "'f kstate \<Rightarrow> nat \<Rightarrow> 'f kstate" where
  "yield s c = upd s c (\<lambda>p. p\<lparr>pstate := RUNNABLE, pcontext := InSched\<rparr>)"

definition kill :: "'f kstate \<Rightarrow> int \<Rightarrow> int \<times> 'f kstate" where
  "kill s i =
     (case first_idx (\<lambda>p. pid p = i) (procs s) of
        None \<Rightarrow> (-1, s)
      | Some j \<Rightarrow>
          (0, upd s j (\<lambda>p. p\<lparr>killed := True, pstate := (if pstate p = SLEEPING then RUNNABLE else pstate p)\<rparr>)))"

subsection \<open>Exit and wait\<close>

fun close_files :: "(nat \<Rightarrow> 'f \<Rightarrow> 'f option) \<Rightarrow> nat option list \<Rightarrow> 'f \<Rightarrow> 'f option" where
  "close_files close [] f = Some f"
| "close_files close (None # xs) f = close_files close xs f"
| "close_files close (Some v # xs) f =
     (case close v f of None \<Rightarrow> None | Some f' \<Rightarrow> close_files close xs f')"

text \<open>The loop of \<open>exit\<close> that passes abandoned children to init.\<close>

fun reparent :: "proc list \<Rightarrow> nat \<Rightarrow> nat option \<Rightarrow> nat list \<Rightarrow> proc list" where
  "reparent ps c ini [] = ps"
| "reparent ps c ini (i # is) =
     (if parent (ps ! i) = Some c then
        let ps1 = ps[i := (ps ! i)\<lparr>parent := ini\<rparr>]
        in reparent (if pstate (ps1 ! i) = ZOMBIE then wakeup1 ps1 (map_option ProcChan ini) else ps1) c ini is
      else reparent ps c ini is)"

definition exit_proc :: "'f kenv \<Rightarrow> 'f kstate \<Rightarrow> nat \<Rightarrow> 'f kstate option" where
  "exit_proc e s c =
     (if Some c = initproc s then None
      else case close_files (fileclose e) (ofile (procs s ! c)) (fs s) of
             None \<Rightarrow> None
           | Some f1 \<Rightarrow>
               (case (case cwd (procs s ! c) of None \<Rightarrow> None | Some d \<Rightarrow> iput e d f1) of
                  None \<Rightarrow> None
                | Some f2 \<Rightarrow>
                    let s1 = (upd s c (\<lambda>p. p\<lparr>ofile := map (\<lambda>_. None) (ofile p), cwd := None\<rparr>))\<lparr>fs := f2\<rparr>;
                        ps1 = wakeup1 (procs s1) (map_option ProcChan (parent (procs s1 ! c)));
                        ps2 = reparent ps1 c (initproc s) [0..<length ps1]
                    in Some (upd (s1\<lparr>procs := ps2\<rparr>) c (\<lambda>p. p\<lparr>pstate := ZOMBIE, pcontext := InSched\<rparr>))))"

datatype wait_result = Reaped int | NoChild | Asleep

text \<open>
  One pass of the loop of \<open>wait\<close>: reap the first zombie child, return -1, or go to sleep on
  the process's own address; in the last case the loop starts again when it is woken.
\<close>

definition wait_pass :: "'f kenv \<Rightarrow> 'f kstate \<Rightarrow> nat \<Rightarrow> (wait_result \<times> 'f kstate) option" where
  "wait_pass e s c =
     (case first_idx (\<lambda>p. parent p = Some c \<and> pstate p = ZOMBIE) (procs s) of
        Some i \<Rightarrow>
          (case kfree (kend e) (km s) (kstack (procs s ! i)) of
             None \<Rightarrow> None
           | Some km1 \<Rightarrow>
               (case freevm (kend e) km1 (pgdir (procs s ! i)) of
                  None \<Rightarrow> None
                | Some km2 \<Rightarrow>
                    Some (Reaped (pid (procs s ! i)),
                      (upd s i (\<lambda>p. p\<lparr>kstack := 0, pstate := UNUSED, pid := 0, parent := None,
                                      pname := [], killed := False\<rparr>))\<lparr>km := km2\<rparr>)))
      | None \<Rightarrow>
          if (\<forall>p \<in> set (procs s). parent p \<noteq> Some c) \<or> killed (procs s ! c) then Some (NoChild, s)
          else Some (Asleep, sleep s c (ProcChan c)))"

subsection \<open>The scheduler\<close>

text \<open>
  One scan of a queue segment whose first slot has number \<open>i\<close>: slots of \<open>UNUSED\<close> processes are
  cleared, processes that are not \<open>RUNNABLE\<close> are passed over, and the first \<open>RUNNABLE\<close> one is
  returned with its slot number.
\<close>

fun scan :: "proc list \<Rightarrow> nat \<Rightarrow> nat option list \<Rightarrow> (nat \<times> nat) option \<times> nat option list" where
  "scan ps i [] = (None, [])"
| "scan ps i (None # q) = (case scan ps (Suc i) q of (r, q') \<Rightarrow> (r, None # q'))"
| "scan ps i (Some p # q) =
     (if pstate (ps ! p) = UNUSED then (case scan ps (Suc i) q of (r, q') \<Rightarrow> (r, None # q'))
      else if pstate (ps ! p) \<noteq> RUNNABLE then (case scan ps (Suc i) q of (r, q') \<Rightarrow> (r, Some p # q'))
      else (Some (i, p), Some p # q))"

text \<open>
  Levels 0 to 2 are scanned from slot 0.  Level 3 is scanned from \<open>lastRR\<close> to the end and then
  from slot 0 up to \<open>lastRR\<close>; with \<open>lastRR\<close> NULL the first scan covers the whole queue.
\<close>

definition scan_rr :: "proc list \<Rightarrow> nat option \<Rightarrow> nat option list \<Rightarrow> (nat \<times> nat) option \<times> nat option list" where
  "scan_rr ps rr q =
     (let l = (case rr of None \<Rightarrow> 0 | Some l \<Rightarrow> l)
      in case scan ps l (drop l q) of
           (Some r, hi) \<Rightarrow> (Some r, take l q @ hi)
         | (None, hi) \<Rightarrow> (case scan ps 0 (take l q) of (r, lo) \<Rightarrow> (r, lo @ hi)))"

fun scan_levels :: "proc list \<Rightarrow> nat option \<Rightarrow> nat \<Rightarrow> nat option list list
    \<Rightarrow> (nat \<times> nat \<times> nat) option \<times> nat option list list" where
  "scan_levels ps rr k [] = (None, [])"
| "scan_levels ps rr k (q # qs) =
     (case (if k < 3 then scan ps 0 q else scan_rr ps rr q) of
        (Some (i, p), q') \<Rightarrow> (Some (k, i, p), q' # qs)
      | (None, q') \<Rightarrow> (case scan_levels ps rr (Suc k) qs of (r, qs') \<Rightarrow> (r, q' # qs')))"

text \<open>
  The body of the scheduler's loop up to \<open>swtch\<close>: \<open>cur\<close> is the process switched to, \<open>running\<close>
  remembers the queue slot (the local variable \<open>q\<close>) it was taken from.
\<close>

definition sched_pick :: "'f kstate \<Rightarrow> 'f kstate option" where
  "sched_pick s =
     (case scan_levels (procs s) (lastRR s) 0 (queues s) of
        (None, qs) \<Rightarrow> Some (s\<lparr>queues := qs\<rparr>)
      | (Some (k, i, p), qs) \<Rightarrow>
          (case switchuvm (s\<lparr>queues := qs, cur := Some p\<rparr>) p of
             None \<Rightarrow> None
           | Some s1 \<Rightarrow>
               Some ((upd s1 p (\<lambda>r. r\<lparr>pstate := RUNNING, lastTick := ticks s\<rparr>))\<lparr>running := Some (k, i)\<rparr>)))"

definition quantum :: "nat \<Rightarrow> nat" where
  "quantum k = (if k = 0 then 5 else if k = 1 then 5 else if k = 2 then 10 else 20)"

text \<open>
  The rest of the loop body, after \<open>swtch\<close> returns: a process that used up its time slice on
  levels 0 to 2 moves one level down; on level 3 the round-robin position advances.
\<close>

definition sched_after :: "'f kstate \<Rightarrow> 'f kstate" where
  "sched_after s0 =
     (let s = switchkvm s0
      in case (cur s, running s) of
        (Some p, Some (k, i)) \<Rightarrow>
          let s1 = (if pticks (procs s ! p) ! k = quantum k then
                      (let s2 = upd s p (\<lambda>r. r\<lparr>pticks := (pticks r)[k := 0]\<rparr>)
                       in if k < 3 then
                            enqueue ((upd s2 p (\<lambda>r. r\<lparr>priority := priority r + 1\<rparr>))
                              \<lparr>queues := (queues s2)[k := (queues s2 ! k)[i := None]]\<rparr>) (Suc k) p
                          else s2\<lparr>lastRR := Some (if i = NPROC - 1 then 0 else Suc i)\<rparr>)
                    else s)
          in s1\<lparr>cur := None, running := None\<rparr>
      | _ \<Rightarrow> s0)"

subsection \<open>The timer interrupt\<close>

text \<open>
  Starvation: a \<open>RUNNABLE\<close> process that has not run for more than 100 ticks moves one level up.
  The comparison \<open>now - 100 > p->lastTick\<close> is on unsigned integers.
\<close>

fun boost :: "u32 \<Rightarrow> 'f kstate \<Rightarrow> nat list \<Rightarrow> 'f kstate" where
  "boost now s [] = s"
| "boost now s (i # is) =
     (let p = procs s ! i; c = priority p
      in if pstate p = RUNNABLE \<and> now - 100 > lastTick p \<and> c > 0 then
           let q1 = (queues s)[c := clear_queue (queues s ! c) i];
               q2 = q1[c - 1 := put_queue (q1 ! (c - 1)) i];
               s1 = upd s i (\<lambda>r. r\<lparr>priority := c - 1, pticks := (pticks r)[c - 1 := 0, c := 0]\<rparr>)
           in boost now (s1\<lparr>queues := q2\<rparr>) is
         else boost now s is)"

definition timer_charge :: "'f kstate \<Rightarrow> nat \<Rightarrow> 'f kstate" where
  "timer_charge s c =
     (let s1 = (upd s c (\<lambda>r. r\<lparr>pticks := (pticks r)[priority r := pticks r ! priority r + 1],
                            accumulatedTicks := (accumulatedTicks r)[priority r := accumulatedTicks r ! priority r + 1]\<rparr>));
          s2 = s1\<lparr>starvTicks := starvTicks s + 1\<rparr>
      in yield (if starvTicks s2 = 100 then boost (ticks s) (s2\<lparr>starvTicks := 0\<rparr>) [0..<NPROC] else s2) c)"

text \<open>
  \<open>trap\<close> for the timer interrupt of CPU 0: \<open>user\<close> tells whether the interrupted code ran in user
  mode.  A killed process in user mode exits; a running one is charged the tick and yields.
\<close>

definition trap_timer :: "'f kenv \<Rightarrow> 'f kstate \<Rightarrow> bool \<Rightarrow> 'f kstate option" where
  "trap_timer e s user =
     (let s1 = wakeup (s\<lparr>ticks := ticks s + 1\<rparr>) (Some TicksChan)
      in case cur s1 of
           None \<Rightarrow> Some s1
         | Some c \<Rightarrow>
             if killed (procs s1 ! c) \<and> user then exit_proc e s1 c
             else if pstate (procs s1 ! c) = RUNNING then Some (timer_charge s1 c)
             else Some s1)"

text \<open>The end of \<open>trap\<close>, when a process that yielded in it runs again.\<close>

definition trap_resume :: "'f kenv \<Rightarrow> 'f kstate \<Rightarrow> bool \<Rightarrow> 'f kstate option" where
  "trap_resume e s user =
     (case cur s of
        None \<Rightarrow> Some s
      | Some c \<Rightarrow> if killed (procs s ! c) \<and> user then exit_proc e s c else Some s)"

text \<open>\<open>trap\<close> for an unexpected trap: a fault in user mode kills the process, one in the kernel panics.\<close>

definition trap_fault :: "'f kenv \<Rightarrow> 'f kstate \<Rightarrow> bool \<Rightarrow> 'f kstate option" where
  "trap_fault e s user =
     (case cur s of
        None \<Rightarrow> None
      | Some c \<Rightarrow> if \<not> user then None else exit_proc e (upd s c (\<lambda>p. p\<lparr>killed := True\<rparr>)) c)"

subsection \<open>Process statistics\<close>

record pstat =
  st_inuse :: "int list"
  st_pid :: "int list"
  st_priority :: "nat list"
  st_state :: "procstate list"
  st_ticks :: "nat list list"

fun getpinfo_loop :: "proc list \<Rightarrow> nat \<Rightarrow> pstat \<Rightarrow> pstat" where
  "getpinfo_loop [] idx a = a"
| "getpinfo_loop (p # ps) idx a =
     getpinfo_loop ps (Suc idx)
       (if pstate p = UNUSED then a\<lparr>st_inuse := (st_inuse a)[idx := 0]\<rparr>
        else a\<lparr>st_inuse := (st_inuse a)[idx := 1], st_pid := (st_pid a)[idx := pid p],
               st_state := (st_state a)[idx := pstate p], st_priority := (st_priority a)[idx := priority p],
               st_ticks := (st_ticks a)[idx := accumulatedTicks p]\<rparr>)"

definition getpinfo :: "'f kstate \<Rightarrow> pstat \<Rightarrow> int \<times> pstat" where
  "getpinfo s a = (0, getpinfo_loop (procs s) 0 a)"

subsection \<open>Small system calls\<close>

definition sys_getpid :: "'f kstate \<Rightarrow> nat \<Rightarrow> int" where
  "sys_getpid s c = pid (procs s ! c)"

definition sys_uptime :: "'f kstate \<Rightarrow> u32" where
  "sys_uptime s = ticks s"

definition sys_sbrk :: "'f kenv \<Rightarrow> 'f kstate \<Rightarrow> nat \<Rightarrow> int \<Rightarrow> (int \<times> 'f kstate) option" where
  "sys_sbrk e s c n =
     (case growproc e s c n of
        None \<Rightarrow> None
      | Some (r, s') \<Rightarrow> Some (if r < 0 then -1 else uint (psz (procs s ! c)), s'))"

datatype sleep_result = SleepDone int | SleepAgain

text \<open>One pass of the loop of \<open>sys_sleep\<close>, with \<open>ticks0\<close> the tick count at the call.\<close>

definition sys_sleep_pass :: "'f kstate \<Rightarrow> nat \<Rightarrow> u32 \<Rightarrow> u32 \<Rightarrow> sleep_result \<times> 'f kstate" where
  "sys_sleep_pass s c ticks0 n =
     (if ticks s - ticks0 < n then
        if killed (procs s ! c) then (SleepDone (-1), s)
        else (SleepAgain, sleep s c TicksChan)
      else (SleepDone 0, s))"

end
