(* ===== verification/MlfqSched.thy ===== *)
theory MlfqSched
  imports Mlfq
begin

text \<open>
  The scheduler's choice of a process and the queue discipline of \<^verbatim>\<open>Project2b/xv6/kernel/proc.c\<close>.
  The four queues are shown to implement a partial map from processes to levels (the locale
  \<open>level_store\<close>), and the scans of \<open>scheduler\<close> are shown to find the first \<open>RUNNABLE\<close> entry in
  scan order.
\<close>

subsection \<open>Queue slots\<close>

definition slot :: "nat option list list \<Rightarrow> nat \<Rightarrow> nat \<Rightarrow> nat \<Rightarrow> bool" where
  "slot Q p k i \<longleftrightarrow> k < 4 \<and> i < NPROC \<and> Q ! k ! i = Some p"

definition queues_ok :: "nat option list list \<Rightarrow> bool" where
  "queues_ok Q \<longleftrightarrow>
     length Q = 4 \<and> (\<forall>q \<in> set Q. length q = NPROC) \<and>
     (\<forall>k i p. slot Q p k i \<longrightarrow> p < NPROC) \<and>
     (\<forall>p k i k' i'. slot Q p k i \<longrightarrow> slot Q p k' i' \<longrightarrow> k' = k \<and> i' = i)"

definition level :: "nat option list list \<Rightarrow> nat \<Rightarrow> nat option" where
  "level Q p = first_idx (\<lambda>q. Some p \<in> set q) Q"

definition q_put :: "nat option list list \<Rightarrow> nat \<Rightarrow> nat \<Rightarrow> nat option list list" where
  "q_put Q k p = Q[k := put_queue (Q ! k) p]"

definition q_remove :: "nat option list list \<Rightarrow> nat \<Rightarrow> nat \<Rightarrow> nat option list list" where
  "q_remove Q k p = Q[k := clear_queue (Q ! k) p]"

lemma queues_ok_len: "queues_ok Q \<Longrightarrow> length Q = 4 \<and> (k < 4 \<longrightarrow> length (Q ! k) = NPROC)"
  by (auto simp: queues_ok_def)

lemma queues_ok_uniq: "queues_ok Q \<Longrightarrow> slot Q p k i \<Longrightarrow> slot Q p k' i' \<Longrightarrow> k' = k \<and> i' = i"
  unfolding queues_ok_def by blast

lemma queues_ok_bound: "queues_ok Q \<Longrightarrow> slot Q p k i \<Longrightarrow> p < NPROC"
  unfolding queues_ok_def by blast

lemma level_Some:
  assumes "queues_ok Q"
  shows "level Q p = Some k \<longleftrightarrow> (\<exists>i. slot Q p k i)"
proof -
  note len = queues_ok_len[OF assms]
  have occ: "Some p \<in> set (Q ! j) \<longleftrightarrow> (\<exists>i. slot Q p j i)" if "j < 4" for j
    using that len[of j] by (auto simp: slot_def in_set_conv_nth)
  show ?thesis
  proof
    assume "level Q p = Some k"
    thus "\<exists>i. slot Q p k i" using occ[of k] len by (auto simp: level_def first_idx_Some)
  next
    assume "\<exists>i. slot Q p k i"
    then obtain i where i: "slot Q p k i" by blast
    hence k: "k < 4" by (simp add: slot_def)
    have "\<not> Some p \<in> set (Q ! j)" if "j < k" for j
      using occ[of j] that k queues_ok_uniq[OF assms i] by fastforce
    thus "level Q p = Some k" using occ[OF k] i k len by (auto simp: level_def first_idx_Some)
  qed
qed

lemma level_None: "queues_ok Q \<Longrightarrow> level Q p = None \<longleftrightarrow> (\<forall>k i. \<not> slot Q p k i)"
  using level_Some[of Q p] by (metis not_None_eq)

lemma slot_upd:
  assumes "queues_ok Q" "k < 4" "j < NPROC"
  shows "slot (Q[k := (Q ! k)[j := x]]) p' k' i' \<longleftrightarrow>
         (if k' = k \<and> i' = j then x = Some p' else slot Q p' k' i')"
  using assms queues_ok_len[OF assms(1)] by (auto simp: slot_def nth_list_update)

lemma queues_ok_upd:
  assumes "queues_ok Q" "k < 4" "j < NPROC"
    and x: "\<And>p. x = Some p \<Longrightarrow> p < NPROC" "\<And>p l i. x = Some p \<Longrightarrow> \<not> slot Q p l i"
  shows "queues_ok (Q[k := (Q ! k)[j := x]])"
  unfolding queues_ok_def slot_upd[OF assms(1-3)]
proof (intro conjI allI impI ballI)
  fix q assume "q \<in> set (Q[k := (Q ! k)[j := x]])"
  thus "length q = NPROC"
    using queues_ok_len[OF assms(1)] assms(2) by (auto simp: in_set_conv_nth nth_list_update)
next
  fix l i p assume "if l = k \<and> i = j then x = Some p else slot Q p l i"
  thus "p < NPROC" using x(1) queues_ok_bound[OF assms(1)] by (metis (full_types))
next
  fix p l i l' i'
  assume *: "if l = k \<and> i = j then x = Some p else slot Q p l i"
    "if l' = k \<and> i' = j then x = Some p else slot Q p l' i'"
  have "l' = l \<and> i' = i"
  proof (cases "x = Some p")
    case True thus ?thesis using * x(2)[OF True] by (metis (full_types))
  next
    case False thus ?thesis using * queues_ok_uniq[OF assms(1), of p l i l' i'] by (metis (full_types))
  qed
  thus "l' = l" "i' = i" by simp_all
qed (use queues_ok_len[OF assms(1)] in auto)

lemma level_ext:
  assumes "queues_ok Q" "queues_ok Q'" "\<And>k. (\<exists>i. slot Q' p k i) \<longleftrightarrow> (\<exists>i. slot Q p k i)"
  shows "level Q' p = level Q p"
  using level_Some[OF assms(1), of p] level_Some[OF assms(2), of p] assms(3)
  by (metis not_None_eq)

text \<open>A queue never overflows: 64 distinct processes and one that is not queued.\<close>

lemma queue_has_room:
  assumes "queues_ok Q" "k < 4" "p < NPROC" "level Q p = None"
  shows "None \<in> set (Q ! k)"
proof (rule ccontr)
  assume full: "None \<notin> set (Q ! k)"
  note len = queues_ok_len[OF assms(1), of k]
  have inj: "distinct (Q ! k)"
    unfolding distinct_conv_nth
  proof (intro allI impI)
    fix i j assume ij: "i < length (Q ! k)" "j < length (Q ! k)" "i \<noteq> j"
    then obtain r where r: "Q ! k ! i = Some r" using full nth_mem by (metis not_None_eq)
    show "Q ! k ! i \<noteq> Q ! k ! j"
      using queues_ok_uniq[OF assms(1), of r k i k j] r ij len assms(2) by (auto simp: slot_def)
  qed
  have "set (Q ! k) \<subseteq> Some ` ({..<NPROC} - {p})"
  proof
    fix x assume x: "x \<in> set (Q ! k)"
    then obtain i r where r: "i < length (Q ! k)" "Q ! k ! i = Some r" "x = Some r"
      using full by (metis in_set_conv_nth not_None_eq)
    hence "slot Q r k i" using len assms(2) by (simp add: slot_def)
    hence "r < NPROC" "r \<noteq> p"
      using queues_ok_bound[OF assms(1)] assms(4) level_None[OF assms(1), of p] by auto
    thus "x \<in> Some ` ({..<NPROC} - {p})" using r by auto
  qed
  hence "card (set (Q ! k)) \<le> card (Some ` ({..<NPROC} - {p}))" by (intro card_mono) auto
  also have "\<dots> = 63" using assms(3) by (subst card_image) auto
  finally show False using inj len assms(2) by (simp add: distinct_card)
qed

lemma q_put_slot:
  assumes "queues_ok Q" "k < 4" "p < NPROC" "level Q p = None"
  obtains j where "j < NPROC" "Q ! k ! j = None"
    "q_put Q k p = Q[k := (Q ! k)[j := Some p]]"
proof -
  obtain j where j: "first_idx (\<lambda>x. x = None) (Q ! k) = Some j"
    using first_idx_exists[OF queue_has_room[OF assms], of "\<lambda>x. x = None"] by auto
  show thesis
    by (rule that[of j]) (use first_idx_SomeD[OF j] j queues_ok_len[OF assms(1), of k] assms(2) in
        \<open>auto simp: q_put_def put_queue_def\<close>)
qed

lemma q_remove_slot:
  assumes "queues_ok Q" "slot Q p k i"
  shows "q_remove Q k p = Q[k := (Q ! k)[i := None]]"
proof -
  have "first_idx (\<lambda>x. x = Some p) (Q ! k) = Some i"
    unfolding first_idx_Some
  proof (intro conjI allI impI)
    fix j assume "j < i"
    thus "Q ! k ! j \<noteq> Some p" using queues_ok_uniq[OF assms, of k j] assms(2) by (auto simp: slot_def)
  qed (use assms(2) queues_ok_len[OF assms(1), of k] in \<open>auto simp: slot_def\<close>)
  thus ?thesis by (simp add: q_remove_def clear_queue_def)
qed

lemma q_put_keeps:
  assumes "queues_ok Q" "k < 4" "p < NPROC" "level Q p = None" "slot Q p' k' i'"
  shows "slot (q_put Q k p) p' k' i'"
proof -
  obtain j where j: "j < NPROC" "Q ! k ! j = None" "q_put Q k p = Q[k := (Q ! k)[j := Some p]]"
    using q_put_slot[OF assms(1-4)] by metis
  show ?thesis unfolding j(3) slot_upd[OF assms(1,2) j(1)] using assms(5) j(2) by (auto simp: slot_def)
qed

lemma q_remove_keeps:
  assumes "queues_ok Q" "slot Q p k i" "slot Q p' k' i'" "p' \<noteq> p"
  shows "slot (q_remove Q k p) p' k' i'"
proof -
  have b: "k < 4" "i < NPROC" using assms(2) by (auto simp: slot_def)
  show ?thesis unfolding q_remove_slot[OF assms(1,2)] slot_upd[OF assms(1) b]
    using assms(2-4) by (auto simp: slot_def)
qed

subsection \<open>Queues as a map from processes to levels\<close>

locale level_store =
  fixes ok :: "'q \<Rightarrow> bool" and lev :: "'q \<Rightarrow> nat \<Rightarrow> nat option"
    and put :: "'q \<Rightarrow> nat \<Rightarrow> nat \<Rightarrow> 'q" and remove :: "'q \<Rightarrow> nat \<Rightarrow> nat \<Rightarrow> 'q" and n :: nat
  assumes put: "ok q \<Longrightarrow> k < 4 \<Longrightarrow> p < n \<Longrightarrow> lev q p = None
      \<Longrightarrow> ok (put q k p) \<and> lev (put q k p) = (lev q)(p \<mapsto> k)"
    and remove: "ok q \<Longrightarrow> lev q p = Some k \<Longrightarrow> ok (remove q k p) \<and> lev (remove q k p) = (lev q)(p := None)"
begin

lemma move:
  assumes "ok q" "lev q p = Some k" "k' < 4" "p < n"
  shows "ok (put (remove q k p) k' p) \<and> lev (put (remove q k p) k' p) = (lev q)(p \<mapsto> k')"
  using remove[OF assms(1,2)] put[of "remove q k p" k' p] assms by simp

end

lemma q_put_level:
  assumes "queues_ok Q" "k < 4" "p < NPROC" "level Q p = None"
  shows "queues_ok (q_put Q k p) \<and> level (q_put Q k p) = (level Q)(p \<mapsto> k)"
proof -
  obtain j where j: "j < NPROC" "Q ! k ! j = None" "q_put Q k p = Q[k := (Q ! k)[j := Some p]]"
    using q_put_slot[OF assms] by metis
  have free: "\<not> slot Q p k' i'" for k' i' using level_None[OF assms(1)] assms(4) by blast
  have ok: "queues_ok (q_put Q k p)"
    unfolding j(3) by (rule queues_ok_upd[OF assms(1,2) j(1)]) (use free assms in auto)
  have sl: "slot (q_put Q k p) p' k' i' \<longleftrightarrow> (if k' = k \<and> i' = j then p' = p else slot Q p' k' i')" for p' k' i'
    unfolding j(3) slot_upd[OF assms(1,2) j(1)] by auto
  have "\<not> slot Q p' k j" for p' using j(2) by (simp add: slot_def)
  hence "level (q_put Q k p) p' = level Q p'" if "p' \<noteq> p" for p'
    using that sl by (intro level_ext[OF assms(1) ok]) metis
  moreover have "level (q_put Q k p) p = Some k" using level_Some[OF ok] sl by auto
  ultimately show ?thesis using ok by auto
qed

lemma q_remove_level:
  assumes "queues_ok Q" "level Q p = Some k"
  shows "queues_ok (q_remove Q k p) \<and> level (q_remove Q k p) = (level Q)(p := None)"
proof -
  obtain i where i: "slot Q p k i" using level_Some[OF assms(1)] assms(2) by blast
  hence b: "k < 4" "i < NPROC" by (auto simp: slot_def)
  note q = q_remove_slot[OF assms(1) i]
  have ok: "queues_ok (q_remove Q k p)"
    unfolding q by (rule queues_ok_upd[OF assms(1) b]) auto
  have sl: "slot (q_remove Q k p) p' k' i' \<longleftrightarrow> (k', i') \<noteq> (k, i) \<and> slot Q p' k' i'" for p' k' i'
    unfolding q slot_upd[OF assms(1) b] by auto
  have "slot (q_remove Q k p) p' k' i' = slot Q p' k' i'" if "p' \<noteq> p" for p' k' i'
    using i that unfolding sl by (auto simp: slot_def)
  hence "level (q_remove Q k p) p' = level Q p'" if "p' \<noteq> p" for p'
    using that by (intro level_ext[OF assms(1) ok]) simp
  moreover have "level (q_remove Q k p) p = None"
    using level_None[OF ok] sl queues_ok_uniq[OF assms(1) i] by auto
  ultimately show ?thesis using ok by auto
qed

interpretation mlq: level_store queues_ok level q_put q_remove NPROC
  by unfold_locales (use q_put_level q_remove_level in auto)

subsection \<open>Scanning a queue\<close>

text \<open>What a scan leaves of a queue segment: entries of \<open>UNUSED\<close> processes may be cleared.\<close>

definition runnable_in :: "proc list \<Rightarrow> nat option list \<Rightarrow> nat \<Rightarrow> bool" where
  "runnable_in ps q i \<longleftrightarrow> (\<exists>p. q ! i = Some p \<and> pstate (ps ! p) = RUNNABLE)"

definition purged :: "proc list \<Rightarrow> nat option list \<Rightarrow> nat option list \<Rightarrow> bool" where
  "purged ps q q' \<longleftrightarrow> list_all2 (\<lambda>x y. y = x \<or> y = None \<and> (\<exists>p. x = Some p \<and> pstate (ps ! p) = UNUSED)) q q'"

lemma purged_refl [simp]: "purged ps q q"
  by (simp add: purged_def list.rel_refl)

lemma purged_append: "purged ps a a' \<Longrightarrow> purged ps b b' \<Longrightarrow> purged ps (a @ b) (a' @ b')"
  by (simp add: purged_def list_all2_appendI)

lemma scan_purged: "purged ps q (snd (scan ps i q))"
proof (induction q arbitrary: i)
  case (Cons x q)
  show ?case using Cons[of "Suc i"] by (cases x) (auto simp: purged_def list.rel_refl split: prod.splits)
qed simp

lemma scan_None: "fst (scan ps i q) = None \<longleftrightarrow> (\<forall>j < length q. \<not> runnable_in ps q j)"
proof (induction q arbitrary: i)
  case (Cons x q)
  show ?case using Cons[of "Suc i"]
    by (cases x) (auto simp: runnable_in_def All_less_Suc2 split: prod.splits)
qed simp

lemma scan_Some:
  "fst (scan ps i q) = Some (j, p) \<Longrightarrow>
     \<exists>d. j = i + d \<and> d < length q \<and> q ! d = Some p \<and> pstate (ps ! p) = RUNNABLE \<and>
     (\<forall>d' < d. \<not> runnable_in ps q d')"
proof (induction q arbitrary: i)
  case (Cons x q)
  show ?case
  proof (cases "runnable_in ps (x # q) 0")
    case True thus ?thesis using Cons.prems by (auto simp: runnable_in_def)
  next
    case False
    hence "fst (scan ps (Suc i) q) = Some (j, p)"
      using Cons.prems by (cases x) (auto simp: runnable_in_def split: prod.splits if_splits)
    from Cons.IH[OF this] obtain d where d: "j = Suc i + d" "d < length q" "q ! d = Some p"
      "pstate (ps ! p) = RUNNABLE" "\<forall>d' < d. \<not> runnable_in ps q d'" by blast
    have "\<not> runnable_in ps (x # q) d'" if "d' < Suc d" for d'
      using that False d(5) by (cases d') (auto simp: runnable_in_def)
    thus ?thesis using d by (intro exI[of _ "Suc d"]) simp
  qed
qed simp

text \<open>The position of slot \<open>i\<close> of level \<open>k\<close> in the scheduler's scan order of that level.\<close>

definition scan_dist :: "nat option \<Rightarrow> nat \<Rightarrow> nat \<Rightarrow> nat" where
  "scan_dist rr k i = (if k < 3 then i else (i + NPROC - (case rr of None \<Rightarrow> 0 | Some l \<Rightarrow> l)) mod NPROC)"

definition rr_ok :: "nat option \<Rightarrow> bool" where
  "rr_ok rr \<longleftrightarrow> (case rr of None \<Rightarrow> True | Some l \<Rightarrow> l < NPROC)"

definition level_scan :: "proc list \<Rightarrow> nat option \<Rightarrow> nat \<Rightarrow> nat option list \<Rightarrow> (nat \<times> nat) option \<times> nat option list" where
  "level_scan ps rr k q = (if k < 3 then scan ps 0 q else scan_rr ps rr q)"

definition first_runnable :: "proc list \<Rightarrow> nat option \<Rightarrow> nat \<Rightarrow> nat option list \<Rightarrow> nat \<Rightarrow> nat \<Rightarrow> bool" where
  "first_runnable ps rr k q i p \<longleftrightarrow>
     i < NPROC \<and> q ! i = Some p \<and> pstate (ps ! p) = RUNNABLE \<and>
     (\<forall>i' < NPROC. scan_dist rr k i' < scan_dist rr k i \<longrightarrow> \<not> runnable_in ps q i')"

lemma rr_dist_hi: "l < NPROC \<Longrightarrow> l \<le> i \<Longrightarrow> i < NPROC \<Longrightarrow> (i + NPROC - l) mod NPROC = i - l"
  by (simp add: mod_if)

lemma rr_dist_lo: "l < NPROC \<Longrightarrow> i < l \<Longrightarrow> (i + NPROC - l) mod NPROC = i + NPROC - l"
  by simp

lemma scan_rr_purged: "purged ps q (snd (scan_rr ps rr q))"
proof -
  let ?l = "case rr of None \<Rightarrow> 0 | Some l \<Rightarrow> l"
  show ?thesis
    using scan_purged[of ps "drop ?l q" ?l] scan_purged[of ps "take ?l q" 0]
      purged_append[of ps "take ?l q" _ "drop ?l q"]
    by (auto simp: scan_rr_def Let_def split: prod.splits option.splits)
qed

lemma scan_rr_result:
  assumes "rr_ok rr" "length q = NPROC"
  shows "case fst (scan_rr ps rr q) of
           None \<Rightarrow> \<forall>j < NPROC. \<not> runnable_in ps q j
         | Some (i, p) \<Rightarrow> first_runnable ps rr 3 q i p"
proof -
  define l where "l = (case rr of None \<Rightarrow> 0 | Some l \<Rightarrow> l)"
  have l: "l < NPROC" using assms(1) by (auto simp: l_def rr_ok_def split: option.splits)
  have dist: "scan_dist rr 3 i = (i + NPROC - l) mod NPROC" for i by (simp add: scan_dist_def l_def)
  have hi: "runnable_in ps (drop l q) d \<longleftrightarrow> runnable_in ps q (l + d)" for d
    using l assms(2) by (simp add: runnable_in_def)
  have lo: "d < l \<Longrightarrow> runnable_in ps (take l q) d \<longleftrightarrow> runnable_in ps q d" for d
    by (simp add: runnable_in_def)
  show ?thesis
  proof (cases "fst (scan ps l (drop l q))")
    case None
    hence hi0: "\<not> runnable_in ps q j" if "l \<le> j" "j < NPROC" for j
      using that hi[of "j - l"] assms(2) by (simp add: scan_None)
    have eq: "fst (scan_rr ps rr q) = fst (scan ps 0 (take l q))"
      using None by (auto simp: scan_rr_def l_def[symmetric] Let_def split: prod.splits option.splits)
    show ?thesis
    proof (cases "fst (scan ps 0 (take l q))")
      case None
      hence "\<not> runnable_in ps q j" if "j < l" for j
        using that lo[of j] assms(2) l by (simp add: scan_None)
      thus ?thesis using hi0 eq None by (auto simp: not_less) (meson not_less)
    next
      case (Some r)
      obtain i p where r: "r = (i, p)" by force
      from scan_Some[OF Some[unfolded r]] have i: "i < l" "q ! i = Some p" "pstate (ps ! p) = RUNNABLE"
        "\<forall>d' < i. \<not> runnable_in ps q d'" using lo by auto
      have "\<not> runnable_in ps q i'" if "i' < NPROC" "scan_dist rr 3 i' < scan_dist rr 3 i" for i'
        using that i hi0[of i'] l rr_dist_hi[of l i'] rr_dist_lo[of l i'] rr_dist_lo[of l i]
        unfolding dist by (cases "l \<le> i'") auto
      thus ?thesis using eq Some r i l by (simp add: first_runnable_def)
    qed
  next
    case (Some r)
    obtain i p where r: "r = (i, p)" by force
    from scan_Some[OF Some[unfolded r]] obtain d where i: "i = l + d" "i < NPROC" "q ! i = Some p"
      "pstate (ps ! p) = RUNNABLE" "\<forall>d' < d. \<not> runnable_in ps q (l + d')" using hi assms(2) l by auto
    have eq: "fst (scan_rr ps rr q) = Some (i, p)"
      using Some r by (auto simp: scan_rr_def l_def[symmetric] Let_def split: prod.splits option.splits)
    have "\<not> runnable_in ps q i'" if "i' < NPROC" "scan_dist rr 3 i' < scan_dist rr 3 i" for i'
    proof (cases "l \<le> i'")
      case True
      thus ?thesis using that i l i(5)[rule_format, of "i' - l"] rr_dist_hi[of l i'] rr_dist_hi[of l i]
        unfolding dist by simp
    next
      case False
      thus ?thesis using that i l rr_dist_lo[of l i'] rr_dist_hi[of l i] unfolding dist by simp
    qed
    thus ?thesis using eq i by (simp add: first_runnable_def)
  qed
qed

lemma level_scan_result:
  assumes "rr_ok rr" "length q = NPROC"
  shows "case fst (level_scan ps rr k q) of
           None \<Rightarrow> \<forall>j < NPROC. \<not> runnable_in ps q j
         | Some (i, p) \<Rightarrow> first_runnable ps rr k q i p"
proof (cases "k < 3")
  case True
  thus ?thesis
    using scan_None[of ps 0 q] scan_Some[of ps 0 q] assms(2)
    by (auto simp: level_scan_def first_runnable_def scan_dist_def split: option.splits)
next
  case False
  thus ?thesis using scan_rr_result[OF assms, of ps]
    by (auto simp: level_scan_def first_runnable_def scan_dist_def split: option.splits)
qed

lemma level_scan_purged: "purged ps q (snd (level_scan ps rr k q))"
  by (simp add: level_scan_def scan_purged scan_rr_purged)

lemma scan_levels_purged: "list_all2 (purged ps) Q (snd (scan_levels ps rr k Q))"
proof (induction Q arbitrary: k)
  case (Cons q Q)
  show ?case using level_scan_purged[of ps q rr k] Cons[of "Suc k"]
    unfolding scan_levels.simps level_scan_def[symmetric]
    by (auto simp: list.rel_refl split: prod.splits option.splits)
qed simp

lemma scan_levels_None:
  assumes "rr_ok rr" "\<forall>q \<in> set Q. length q = NPROC"
  shows "fst (scan_levels ps rr k Q) = None \<longleftrightarrow> (\<forall>d < length Q. \<forall>j < NPROC. \<not> runnable_in ps (Q ! d) j)"
  using assms(2)
proof (induction Q arbitrary: k)
  case (Cons q Q)
  have "fst (level_scan ps rr k q) = None \<longleftrightarrow> (\<forall>j < NPROC. \<not> runnable_in ps q j)"
    using level_scan_result[OF assms(1), of q ps k] Cons.prems
    by (auto simp: first_runnable_def runnable_in_def split: option.splits)
  thus ?case using Cons.IH[of "Suc k"] Cons.prems
    unfolding scan_levels.simps level_scan_def[symmetric]
    by (auto simp: All_less_Suc2 split: prod.splits option.splits)
qed simp

lemma scan_levels_Some:
  assumes "rr_ok rr" "\<forall>q \<in> set Q. length q = NPROC" "fst (scan_levels ps rr k Q) = Some (m, i, p)"
  shows "\<exists>d. m = k + d \<and> d < length Q \<and> first_runnable ps rr m (Q ! d) i p \<and>
     (\<forall>d' < d. \<forall>j < NPROC. \<not> runnable_in ps (Q ! d') j)"
  using assms(2,3)
proof (induction Q arbitrary: k)
  case (Cons q Q)
  note res = level_scan_result[OF assms(1), of q ps k]
  show ?case
  proof (cases "fst (level_scan ps rr k q)")
    case None
    hence "fst (scan_levels ps rr (Suc k) Q) = Some (m, i, p)"
      using Cons.prems unfolding scan_levels.simps level_scan_def[symmetric]
      by (auto split: prod.splits option.splits)
    from Cons.IH[OF _ this] Cons.prems obtain d where d: "m = Suc k + d" "d < length Q"
      "first_runnable ps rr m (Q ! d) i p" "\<forall>d' < d. \<forall>j < NPROC. \<not> runnable_in ps (Q ! d') j" by auto
    show ?thesis using d res None Cons.prems by (intro exI[of _ "Suc d"]) (auto simp: All_less_Suc2)
  next
    case (Some r)
    thus ?thesis using res Cons.prems unfolding scan_levels.simps level_scan_def[symmetric]
      by (auto split: prod.splits option.splits)
  qed
qed simp

end
