(* ===== verification/MlfqInv.thy ===== *)
theory MlfqInv
  imports MlfqSched
begin

text \<open>
  The invariant of the multi-level feedback queue scheduler and its preservation by every
  transition of the kernel: a live process stands in exactly one queue slot, on the level of its
  priority, and no process has used up a time slice when the scheduler runs.
\<close>

subsection \<open>Invariant\<close>

definition mlfq_core :: "'f kstate \<Rightarrow> bool" where
  "mlfq_core s \<longleftrightarrow>
     length (procs s) = NPROC \<and> queues_ok (queues s) \<and> rr_ok (lastRR s) \<and>
     (\<forall>p < NPROC. length (pticks (procs s ! p)) = 4) \<and>
     (\<forall>p < NPROC. pstate (procs s ! p) \<noteq> UNUSED \<longrightarrow> level (queues s) p = Some (priority (procs s ! p)))"

definition slice_left :: "proc \<Rightarrow> bool" where
  "slice_left p \<longleftrightarrow> (\<forall>k < 4. pticks p ! k < quantum k)"

definition on_cpu :: "'f kstate \<Rightarrow> nat \<Rightarrow> bool" where
  "on_cpu s c \<longleftrightarrow> c < NPROC \<and> cur s = Some c \<and>
     (\<exists>i. running s = Some (priority (procs s ! c), i) \<and> slot (queues s) c (priority (procs s ! c)) i)"

definition mlfq_inv :: "'f kstate \<Rightarrow> bool" where
  "mlfq_inv s \<longleftrightarrow> mlfq_core s \<and>
     (\<forall>p < NPROC. slice_left (procs s ! p)) \<and>
     (\<forall>p < NPROC. pstate (procs s ! p) = RUNNING \<longleftrightarrow> cur s = Some p) \<and>
     (case cur s of None \<Rightarrow> running s = None | Some c \<Rightarrow> on_cpu s c)"

text \<open>The state in which a process that gives up the CPU enters the scheduler.\<close>

definition leaving :: "'f kstate \<Rightarrow> nat \<Rightarrow> bool" where
  "leaving s c \<longleftrightarrow> mlfq_core s \<and> on_cpu s c \<and>
     pstate (procs s ! c) \<noteq> UNUSED \<and>
     (\<forall>p < NPROC. pstate (procs s ! p) \<noteq> RUNNING) \<and>
     (\<forall>p < NPROC. p \<noteq> c \<longrightarrow> slice_left (procs s ! p)) \<and>
     (\<forall>k < 4. k \<noteq> priority (procs s ! c) \<longrightarrow> pticks (procs s ! c) ! k < quantum k) \<and>
     pticks (procs s ! c) ! priority (procs s ! c) \<le> quantum (priority (procs s ! c))"

subsection \<open>Frame lemmas\<close>

named_theorems kst

lemma upd_fields [simp, kst]:
  "km (upd s i f) = km s" "fs (upd s i f) = fs s" "queues (upd s i f) = queues s"
  "cur (upd s i f) = cur s" "running (upd s i f) = running s" "lastRR (upd s i f) = lastRR s"
  "ticks (upd s i f) = ticks s" "starvTicks (upd s i f) = starvTicks s" "nextpid (upd s i f) = nextpid s"
  "initproc (upd s i f) = initproc s" "length (procs (upd s i f)) = length (procs s)"
  by (simp_all add: upd_def)

lemma upd_nth [kst]:
  "p < length (procs s) \<Longrightarrow> procs (upd s i f) ! p = (if p = i then f (procs s ! p) else procs s ! p)"
  by (simp add: upd_def)

text \<open>
  A transition is quiet when it changes neither the queues nor the scheduling data of a process:
  it may change process states, as long as no free slot comes to life and none starts running.
\<close>

definition quiet :: "'f kstate \<Rightarrow> 'f kstate \<Rightarrow> bool" where
  "quiet s s' \<longleftrightarrow>
     length (procs s') = length (procs s) \<and> queues s' = queues s \<and> lastRR s' = lastRR s \<and>
     cur s' = cur s \<and> running s' = running s \<and>
     (\<forall>p < length (procs s). priority (procs s' ! p) = priority (procs s ! p) \<and>
        pticks (procs s' ! p) = pticks (procs s ! p) \<and>
        (pstate (procs s ! p) = UNUSED \<longrightarrow> pstate (procs s' ! p) = UNUSED) \<and>
        (pstate (procs s' ! p) = RUNNING \<longrightarrow> pstate (procs s ! p) = RUNNING))"

lemma quiet_refl [simp]: "quiet s s"
  by (simp add: quiet_def)

lemma quiet_fields:
  assumes "quiet s s'"
  shows "length (procs s') = length (procs s)" "queues s' = queues s" "lastRR s' = lastRR s"
    "cur s' = cur s" "running s' = running s"
  using assms unfolding quiet_def by blast+

lemma quiet_proc:
  assumes "quiet s s'" "p < length (procs s)"
  shows "priority (procs s' ! p) = priority (procs s ! p)" "pticks (procs s' ! p) = pticks (procs s ! p)"
    "pstate (procs s' ! p) \<noteq> UNUSED \<Longrightarrow> pstate (procs s ! p) \<noteq> UNUSED"
    "pstate (procs s' ! p) = RUNNING \<Longrightarrow> pstate (procs s ! p) = RUNNING"
  using assms unfolding quiet_def by blast+

lemma quiet_trans:
  assumes "quiet s t" "quiet t u"
  shows "quiet s u"
  unfolding quiet_def[of s u]
proof (intro conjI allI impI)
  fix p assume p: "p < length (procs s)"
  hence p': "p < length (procs t)" using quiet_fields(1)[OF assms(1)] by simp
  note a = quiet_proc[OF assms(1) p] and b = quiet_proc[OF assms(2) p']
  show "priority (procs u ! p) = priority (procs s ! p)" using a(1) b(1) by simp
  show "pticks (procs u ! p) = pticks (procs s ! p)" using a(2) b(2) by simp
  show "pstate (procs u ! p) = UNUSED" if "pstate (procs s ! p) = UNUSED" using a(3) b(3) that by blast
  show "pstate (procs s ! p) = RUNNING" if "pstate (procs u ! p) = RUNNING" using a(4) b(4) that by blast
qed (use quiet_fields[OF assms(1)] quiet_fields[OF assms(2)] in simp_all)

lemma core_len: "mlfq_core s \<Longrightarrow> length (procs s) = NPROC"
  by (simp add: mlfq_core_def)

lemma inv_core: "mlfq_inv s \<Longrightarrow> mlfq_core s"
  by (simp add: mlfq_inv_def)

lemma inv_len: "mlfq_inv s \<Longrightarrow> length (procs s) = NPROC"
  by (simp add: inv_core core_len)

lemma inv_slice: "mlfq_inv s \<Longrightarrow> p < NPROC \<Longrightarrow> slice_left (procs s ! p)"
  by (simp add: mlfq_inv_def)

lemma inv_running: "mlfq_inv s \<Longrightarrow> p < NPROC \<Longrightarrow> pstate (procs s ! p) = RUNNING \<longleftrightarrow> cur s = Some p"
  by (simp add: mlfq_inv_def)

lemma inv_on_cpu: "mlfq_inv s \<Longrightarrow> cur s = Some c \<Longrightarrow> on_cpu s c"
  by (simp add: mlfq_inv_def)

lemma on_cpuD: "on_cpu s c \<Longrightarrow> c < NPROC \<and> priority (procs s ! c) < 4 \<and> cur s = Some c"
  by (auto simp: on_cpu_def slot_def)

lemma quiet_core:
  assumes "mlfq_core s" "quiet s s'"
  shows "mlfq_core s'"
proof -
  note q = quiet_fields[OF assms(2)] and p = quiet_proc[OF assms(2), unfolded core_len[OF assms(1)]]
  have "level (queues s') p = Some (priority (procs s' ! p))"
    if "p < NPROC" "pstate (procs s' ! p) \<noteq> UNUSED" for p
    using assms(1) p(3)[OF that] that unfolding q(2) p(1)[OF that(1)] mlfq_core_def by blast
  moreover have "length (pticks (procs s' ! p)) = 4" if "p < NPROC" for p
    using assms(1) that unfolding p(2)[OF that] mlfq_core_def by blast
  ultimately show ?thesis using assms(1) unfolding mlfq_core_def q(1-3) by blast
qed

lemma quiet_on_cpu:
  assumes "on_cpu s c" "quiet s s'" "length (procs s) = NPROC"
  shows "on_cpu s' c"
proof -
  have "c < length (procs s)" using assms(1,3) by (simp add: on_cpu_def)
  thus ?thesis using assms(1)
    unfolding on_cpu_def quiet_fields(2,4,5)[OF assms(2)] by (simp add: quiet_proc(1)[OF assms(2)])
qed

lemma quiet_slice: "slice_left (procs s ! p) \<Longrightarrow> quiet s s' \<Longrightarrow> p < length (procs s) \<Longrightarrow> slice_left (procs s' ! p)"
  by (simp add: slice_left_def quiet_proc(2))

lemma quiet_inv:
  assumes "mlfq_inv s" "quiet s s'" "\<And>c. cur s = Some c \<Longrightarrow> pstate (procs s' ! c) = RUNNING"
  shows "mlfq_inv s'"
proof -
  note len = inv_len[OF assms(1)]
  have "pstate (procs s' ! p) = RUNNING \<longleftrightarrow> cur s' = Some p" if "p < NPROC" for p
    using assms(3) quiet_proc(4)[OF assms(2), of p] inv_running[OF assms(1) that] that len
      quiet_fields(4)[OF assms(2)] by metis
  moreover have "case cur s' of None \<Rightarrow> running s' = None | Some c \<Rightarrow> on_cpu s' c"
    using quiet_on_cpu[OF inv_on_cpu[OF assms(1)] assms(2) len] quiet_fields(4,5)[OF assms(2)] assms(1)
    by (auto simp: mlfq_inv_def split: option.splits)
  ultimately show ?thesis
    using quiet_core[OF inv_core[OF assms(1)] assms(2)] quiet_slice[OF inv_slice[OF assms(1)] assms(2)] len
    by (simp add: mlfq_inv_def)
qed

lemma quiet_leaving:
  assumes "mlfq_inv s" "quiet s s'" "cur s = Some c"
    "pstate (procs s' ! c) \<noteq> RUNNING" "pstate (procs s' ! c) \<noteq> UNUSED"
  shows "leaving s' c"
proof -
  note len = inv_len[OF assms(1)]
  have oc: "on_cpu s' c" using quiet_on_cpu[OF inv_on_cpu[OF assms(1,3)] assms(2) len] .
  have sl: "slice_left (procs s' ! p)" if "p < NPROC" for p
    using quiet_slice[OF inv_slice[OF assms(1) that] assms(2)] that len by simp
  have "pstate (procs s' ! p) \<noteq> RUNNING" if "p < NPROC" for p
    using quiet_proc(4)[OF assms(2), of p] inv_running[OF assms(1) that] that len assms(3,4) by auto
  thus ?thesis
    unfolding leaving_def using quiet_core[OF inv_core[OF assms(1)] assms(2)] oc sl assms(5) on_cpuD[OF oc]
    by (auto simp: slice_left_def less_imp_le)
qed

subsection \<open>After the process gives up the CPU\<close>

lemma idle_invI:
  assumes "mlfq_core s" "\<forall>p < NPROC. pstate (procs s ! p) \<noteq> RUNNING"
    "\<forall>p < NPROC. p \<noteq> c \<longrightarrow> slice_left (procs s ! p)"
    and r: "slice_left r" "length (pticks r) = 4" "pstate r \<noteq> RUNNING" "level Q c = Some (priority r)"
    and Q: "queues_ok Q" "\<And>p. p \<noteq> c \<Longrightarrow> level Q p = level (queues s) p"
    and t: "procs t = (procs s)[c := r]" "queues t = Q" "rr_ok (lastRR t)" "cur t = None" "running t = None"
  shows "mlfq_inv t"
proof -
  have len: "length (procs s) = NPROC" using core_len[OF assms(1)] .
  have each: "length (pticks (procs t ! p)) = 4 \<and> slice_left (procs t ! p) \<and> pstate (procs t ! p) \<noteq> RUNNING \<and>
      (pstate (procs t ! p) \<noteq> UNUSED \<longrightarrow> level Q p = Some (priority (procs t ! p)))" if "p < NPROC" for p
  proof (cases "p = c")
    case True
    thus ?thesis using r t(1) len that by simp
  next
    case False
    thus ?thesis using assms(1-3) t(1) Q(2)[OF False] that by (simp add: mlfq_core_def)
  qed
  show ?thesis unfolding mlfq_inv_def mlfq_core_def using each len t Q(1) by simp
qed

lemma sched_after_inv:
  assumes "leaving s c"
  shows "mlfq_inv (sched_after s)"
proof -
  define k where "k = priority (procs s ! c)"
  have core: "mlfq_core s" and len: "length (procs s) = NPROC"
    using assms by (auto simp: leaving_def mlfq_core_def)
  obtain i where i: "running s = Some (k, i)" "slot (queues s) c k i" "cur s = Some c" "c < NPROC"
    using assms by (auto simp: leaving_def on_cpu_def k_def)
  have ok: "queues_ok (queues s)" using core by (simp add: mlfq_core_def)
  have lv: "level (queues s) c = Some k" using level_Some[OF ok] i by blast
  have k4: "k < 4" using i by (simp add: slot_def)
  have bd: "length (pticks (procs s ! c)) = 4" using core i by (simp add: mlfq_core_def)
  have nr: "\<forall>p < NPROC. pstate (procs s ! p) \<noteq> RUNNING" using assms by (simp add: leaving_def)
  have oth: "\<forall>p < NPROC. p \<noteq> c \<longrightarrow> slice_left (procs s ! p)" using assms by (simp add: leaving_def)
  have mine: "\<forall>j < 4. j \<noteq> k \<longrightarrow> pticks (procs s ! c) ! j < quantum j"
    "pticks (procs s ! c) ! k \<le> quantum k" using assms by (auto simp: leaving_def k_def)
  have qpos: "0 < quantum k" by (simp add: quantum_def)
  define s1 where "s1 = switchkvm s"
  have s1: "procs s1 = procs s" "queues s1 = queues s" "cur s1 = cur s" "running s1 = running s" "lastRR s1 = lastRR s"
    by (simp_all add: s1_def switchkvm_def)
  show ?thesis
  proof (cases "pticks (procs s ! c) ! k = quantum k")
    case False
    hence "slice_left (procs s ! c)" using mine unfolding slice_left_def by (metis le_neq_implies_less)
    hence "\<forall>p < NPROC. slice_left (procs s ! p)" using oth by auto
    moreover have "sched_after s = s1\<lparr>cur := None, running := None\<rparr>"
      using False i by (simp add: sched_after_def Let_def s1_def[symmetric] s1)
    ultimately show ?thesis using core nr by (simp add: s1 mlfq_inv_def mlfq_core_def)
  next
    case True
    define r where "r = (procs s ! c)\<lparr>pticks := (pticks (procs s ! c))[k := 0]\<rparr>"
    have "(pticks (procs s ! c))[k := 0] ! j < quantum j" if "j < 4" for j
      using mine(1) bd qpos k4 that by (cases "j = k") auto
    hence r: "slice_left r" "length (pticks r) = 4" using bd by (auto simp: r_def slice_left_def)
    show ?thesis
    proof (cases "k < 3")
      case low: True
      define Q where "Q = q_put (q_remove (queues s) k c) (Suc k) c"
      have Q: "queues_ok Q" "level Q = (level (queues s))(c \<mapsto> Suc k)"
        using mlq.move[OF ok lv _ i(4), of "Suc k"] low by (auto simp: Q_def)
      have res: "sched_after s =
          s1\<lparr>procs := (procs s)[c := r\<lparr>priority := Suc k\<rparr>], queues := Q, cur := None, running := None\<rparr>"
        using True low i len k4
        by (simp add: sched_after_def Let_def s1_def[symmetric] s1 upd_def enqueue_def Q_def q_put_def
            q_remove_slot[OF ok i(2)] r_def k_def[symmetric])
      show ?thesis
        by (rule idle_invI[OF core nr oth, of "r\<lparr>priority := Suc k\<rparr>" Q])
           (use r Q nr i core in \<open>simp_all add: res s1 r_def slice_left_def mlfq_core_def\<close>)
    next
      case False
      have i64: "i < NPROC" using i by (simp add: slot_def)
      have res: "sched_after s =
          s1\<lparr>procs := (procs s)[c := r], lastRR := Some (if i = NPROC - 1 then 0 else Suc i), cur := None, running := None\<rparr>"
        using True False i len
        by (simp add: sched_after_def Let_def s1_def[symmetric] s1 upd_def r_def)
      show ?thesis
        by (rule idle_invI[OF core nr oth, of r "queues s"])
           (use r nr i i64 ok lv in \<open>simp_all add: res s1 r_def k_def rr_ok_def\<close>)
    qed
  qed
qed


subsection \<open>Quiet transitions\<close>

lemma wakeup1_len [simp]: "length (wakeup1 ps ch) = length ps"
  by (simp add: wakeup1_def)

lemma wakeup1_nth:
  "p < length ps \<Longrightarrow> wakeup1 ps ch ! p =
     (if pstate (ps ! p) = SLEEPING \<and> chan (ps ! p) = ch then (ps ! p)\<lparr>pstate := RUNNABLE\<rparr> else ps ! p)"
  by (simp add: wakeup1_def)

text \<open>Lists of processes that agree up to quiet changes, other than a change of slot \<open>c\<close>.\<close>

definition same_sched :: "proc \<Rightarrow> proc \<Rightarrow> bool" where
  "same_sched p q \<longleftrightarrow> priority q = priority p \<and> pticks q = pticks p \<and>
     (pstate p = UNUSED \<longrightarrow> pstate q = UNUSED) \<and> (pstate q = RUNNING \<longrightarrow> pstate p = RUNNING)"

lemma same_sched_refl [simp]: "same_sched p p"
  by (simp add: same_sched_def)

lemma quiet_iff:
  "quiet s s' \<longleftrightarrow> queues s' = queues s \<and> lastRR s' = lastRR s \<and> cur s' = cur s \<and> running s' = running s \<and>
     list_all2 same_sched (procs s) (procs s')"
  unfolding quiet_def list_all2_conv_all_nth same_sched_def by auto

lemma same_sched_trans: "same_sched p q \<Longrightarrow> same_sched q r \<Longrightarrow> same_sched p r"
  unfolding same_sched_def by (elim conjE, intro conjI) (blast | metis)+

lemma wakeup1_sched: "list_all2 same_sched ps (wakeup1 ps ch)"
  by (auto simp: list_all2_conv_all_nth wakeup1_nth same_sched_def)

lemma sched_upd: "list_all2 same_sched ps qs \<Longrightarrow> same_sched (qs ! i) q \<Longrightarrow> list_all2 same_sched ps (qs[i := q])"
  unfolding list_all2_conv_all_nth
  by (elim conjE, intro conjI allI impI) (simp, metis nth_list_update_eq nth_list_update_neq same_sched_trans)

lemma sched_trans: "list_all2 same_sched a b \<Longrightarrow> list_all2 same_sched b c \<Longrightarrow> list_all2 same_sched a c"
  by (rule list_all2_trans[OF same_sched_trans])

lemma sched_refl: "list_all2 same_sched ps ps"
  by (simp add: list.rel_refl)

lemma quiet_upd: "same_sched (procs s ! i) (f (procs s ! i)) \<Longrightarrow> quiet s (upd s i f)"
  by (simp add: quiet_iff upd_def sched_upd sched_refl)

lemma quiet_mem [simp]: "quiet s (t\<lparr>km := m\<rparr>) = quiet s t" "quiet s (t\<lparr>fs := f\<rparr>) = quiet s t"
  "quiet s (t\<lparr>cr3 := x\<rparr>) = quiet s t" "quiet s (t\<lparr>ticks := n\<rparr>) = quiet s t" "quiet s (t\<lparr>nextpid := j\<rparr>) = quiet s t"
  by (simp_all add: quiet_iff)

lemma quiet_wakeup: "quiet s (wakeup s ch)"
  by (simp add: quiet_iff wakeup_def wakeup1_sched)

lemma quiet_kill: "quiet s (snd (kill s i))"
  by (auto simp: kill_def same_sched_def intro!: quiet_upd split: option.splits)

lemma quiet_sleep: "pstate (procs s ! c) \<noteq> UNUSED \<Longrightarrow> quiet s (sleep s c ch)"
  by (auto simp: sleep_def same_sched_def intro!: quiet_upd)

lemma reparent_sched: "list_all2 same_sched ps (reparent ps c ini is)"
proof (induction ps c ini "is" rule: reparent.induct)
  case (2 ps c ini i "is")
  let ?ps = "ps[i := (ps ! i)\<lparr>parent := ini\<rparr>]"
  have a: "list_all2 same_sched ps ?ps" by (rule sched_upd[OF sched_refl]) (simp add: same_sched_def)
  have b: "list_all2 same_sched ps (wakeup1 ?ps (map_option ProcChan ini))"
    using sched_trans[OF a wakeup1_sched] .
  show ?case
  proof (cases "parent (ps ! i) = Some c")
    case True
    have "list_all2 same_sched ps (if pstate (?ps ! i) = ZOMBIE then wakeup1 ?ps (map_option ProcChan ini) else ?ps)"
      using a b by presburger
    from sched_trans[OF this "2.IH"(1)[OF True refl]] show ?thesis
      unfolding reparent.simps Let_def if_P[OF True] .
  next
    case False
    thus ?thesis using "2.IH"(2) by simp
  qed
qed (simp add: sched_refl)

lemma reparent_len [simp]: "length (reparent ps c ini is) = length ps"
  using list_all2_lengthD[OF reparent_sched] by metis

lemma exit_proc_effect:
  assumes "exit_proc e s c = Some s'" "c < length (procs s)" "pstate (procs s ! c) \<noteq> UNUSED"
  shows "quiet s s' \<and> pstate (procs s' ! c) = ZOMBIE"
proof -
  obtain f2 where s': "s' = upd ((upd s c (\<lambda>p. p\<lparr>ofile := map (\<lambda>_. None) (ofile p), cwd := None\<rparr>))
      \<lparr>fs := f2, procs := reparent (wakeup1 (procs ((upd s c (\<lambda>p. p\<lparr>ofile := map (\<lambda>_. None) (ofile p), cwd := None\<rparr>))\<lparr>fs := f2\<rparr>))
         (map_option ProcChan (parent (procs (upd s c (\<lambda>p. p\<lparr>ofile := map (\<lambda>_. None) (ofile p), cwd := None\<rparr>)) ! c)))) c (initproc s)
         [0..<length (procs s)]\<rparr>) c (\<lambda>p. p\<lparr>pstate := ZOMBIE, pcontext := InSched\<rparr>)"
    using assms(1) by (auto simp: exit_proc_def Let_def split: if_splits option.splits)
  define ps0 where "ps0 = procs (upd s c (\<lambda>p. p\<lparr>ofile := map (\<lambda>_. None) (ofile p), cwd := None\<rparr>))"
  define ps where "ps = reparent (wakeup1 ps0 (map_option ProcChan (parent (ps0 ! c)))) c (initproc s) [0..<length (procs s)]"
  have a: "list_all2 same_sched (procs s) ps0"
    unfolding ps0_def upd_def by (simp add: sched_upd sched_refl same_sched_def)
  have b: "list_all2 same_sched (procs s) ps"
    unfolding ps_def using sched_trans[OF sched_trans[OF a wakeup1_sched] reparent_sched] .
  have len: "length ps = length (procs s)" using list_all2_lengthD[OF b] by simp
  have procs': "procs s' = ps[c := (ps ! c)\<lparr>pstate := ZOMBIE, pcontext := InSched\<rparr>]"
    using s' by (simp add: upd_def ps_def ps0_def)
  have "list_all2 same_sched (procs s) (procs s')"
    unfolding procs' list_all2_conv_all_nth
  proof (intro conjI allI impI)
    fix p assume p: "p < length (procs s)"
    hence "same_sched (procs s ! p) (ps ! p)" using list_all2_nthD[OF b] by simp
    thus "same_sched (procs s ! p) (ps[c := (ps ! c)\<lparr>pstate := ZOMBIE, pcontext := InSched\<rparr>] ! p)"
      using assms(2,3) len p by (cases "p = c") (simp_all add: same_sched_def)
  qed (simp add: len)
  thus ?thesis using s' procs' len assms(2) by (simp add: quiet_iff)
qed

lemma wait_pass_effect:
  assumes "wait_pass e s c = Some (w, s')" "c < length (procs s)" "pstate (procs s ! c) = RUNNING"
  shows "quiet s s' \<and> pstate (procs s' ! c) = (if w = Asleep then SLEEPING else RUNNING)"
proof (cases "first_idx (\<lambda>p. parent p = Some c \<and> pstate p = ZOMBIE) (procs s)")
  case None
  hence "w = Asleep \<and> s' = sleep s c (ProcChan c) \<or> w = NoChild \<and> s' = s"
    using assms(1) by (auto simp: wait_pass_def split: if_splits)
  moreover have "pstate (procs (sleep s c (ProcChan c)) ! c) = SLEEPING"
    using assms(2) by (simp add: sleep_def upd_nth)
  ultimately show ?thesis using quiet_sleep[of s c] assms(3) by auto
next
  case (Some i)
  hence i: "i < length (procs s)" "pstate (procs s ! i) = ZOMBIE" by (auto dest: first_idx_SomeD)
  obtain m where s': "s' = (upd s i (\<lambda>p. p\<lparr>kstack := 0, pstate := UNUSED, pid := 0, parent := None,
                                      pname := [], killed := False\<rparr>))\<lparr>km := m\<rparr>" "w \<noteq> Asleep"
    using assms(1) Some by (auto simp: wait_pass_def split: option.splits)
  have "quiet s s'" unfolding s'(1) quiet_mem by (rule quiet_upd) (simp add: same_sched_def)
  moreover have "procs s' ! c = procs s ! c" using i assms(2,3) unfolding s'(1) by (auto simp: upd_nth)
  ultimately show ?thesis using s'(2) assms(3) by simp
qed

lemma growproc_effect:
  assumes "growproc e s c n = Some (r, s')"
  shows "quiet s s' \<and> pstate (procs s' ! c) = pstate (procs s ! c)"
proof -
  obtain res where "(case res of None \<Rightarrow> None
      | Some (z, m) \<Rightarrow> if n \<noteq> 0 \<and> z = 0 then Some (-1, s\<lparr>km := m\<rparr>)
          else map_option (Pair 0) (switchuvm (upd (s\<lparr>km := m\<rparr>) c (\<lambda>r. r\<lparr>psz := z\<rparr>)) c)) = Some (r, s')"
    using assms unfolding growproc_def Let_def by blast
  moreover have "quiet s (upd (s\<lparr>km := m\<rparr>) c (\<lambda>r. r\<lparr>psz := z\<rparr>))" for m z
    by (rule quiet_trans[OF _ quiet_upd]) (simp_all add: same_sched_def)
  moreover have "pstate (procs (upd (s\<lparr>km := m\<rparr>) c (\<lambda>r. r\<lparr>psz := z\<rparr>)) ! c) = pstate (procs s ! c)" for m z
    by (cases "c < length (procs s)") (simp_all add: upd_def list_update_beyond)
  ultimately show ?thesis by (auto simp: switchuvm_def split: option.splits if_splits)
qed

subsection \<open>Fork\<close>

definition free_slot :: "'f kstate \<Rightarrow> nat option" where
  "free_slot s = first_idx (\<lambda>p. pstate p = UNUSED) (procs s)"

text \<open>Nothing of the scheduler's own state changes.\<close>

definition sched_frame :: "'f kstate \<Rightarrow> 'f kstate \<Rightarrow> bool" where
  "sched_frame s s' \<longleftrightarrow> lastRR s' = lastRR s \<and> cur s' = cur s \<and> running s' = running s"

lemma free_slotD: "free_slot s = Some i \<Longrightarrow> i < length (procs s) \<and> pstate (procs s ! i) = UNUSED"
  by (auto simp: free_slot_def dest: first_idx_SomeD)

lemma allocproc_effect:
  assumes "allocproc s = (r, s')"
  shows "case free_slot s of
           None \<Rightarrow> r = None \<and> s' = s
         | Some i \<Rightarrow> sched_frame s s' \<and> queues s' = queues s \<and> procs s' = (procs s)[i := procs s' ! i] \<and>
             pid (procs s' ! i) = nextpid s \<and> priority (procs s' ! i) = priority (procs s ! i) \<and>
             pticks (procs s' ! i) = pticks (procs s ! i) \<and> (r = None \<and> pstate (procs s' ! i) = UNUSED \<or> r = Some i)"
  using assms free_slotD[of s]
  by (auto simp: allocproc_def free_slot_def upd_def Let_def sched_frame_def split: option.splits prod.splits if_splits)

lemma quiet_slot:
  assumes "sched_frame s s'" "queues s' = queues s" "procs s' = (procs s)[i := q]"
    "pstate (procs s ! i) = UNUSED" "pstate q = UNUSED" "priority q = priority (procs s ! i)" "pticks q = pticks (procs s ! i)"
  shows "quiet s s'"
  unfolding quiet_iff using assms by (simp add: sched_frame_def sched_upd sched_refl same_sched_def)

lemma fork_effect:
  assumes "fork e s c = Some (r, s')"
  shows "(free_slot s = None \<and> s' = s \<and> r = -1) \<or>
    (\<exists>i. free_slot s = Some i \<and> sched_frame s s' \<and> procs s' = (procs s)[i := procs s' ! i] \<and>
       pticks (procs s' ! i) = pticks (procs s ! i) \<and> pid (procs s' ! i) = nextpid s \<and>
       (r = -1 \<and> queues s' = queues s \<and> pstate (procs s' ! i) = UNUSED \<and> priority (procs s' ! i) = priority (procs s ! i) \<or>
        r = nextpid s \<and> queues s' = q_put (queues s) 0 i \<and> pstate (procs s' ! i) = RUNNABLE \<and> priority (procs s' ! i) = 0 \<and>
        parent (procs s' ! i) = Some c \<and> tf_eax (tf (procs s' ! i)) = 0))"
proof -
  obtain a s1 where al: "allocproc s = (a, s1)" by force
  note ae = allocproc_effect[OF al]
  show ?thesis
  proof (cases "free_slot s")
    case None
    thus ?thesis using ae assms al by (simp add: fork_def)
  next
    case fr: (Some i)
    note i = free_slotD[OF fr]
    define q where "q = procs s1 ! i"
    have q: "sched_frame s s1" "queues s1 = queues s" "procs s1 = (procs s)[i := q]" "pid q = nextpid s"
       "priority q = priority (procs s ! i)" "pticks q = pticks (procs s ! i)"
       "a = None \<and> pstate q = UNUSED \<or> a = Some i" using ae fr by (auto simp: q_def)
    show ?thesis
    proof (cases a)
      case None
      hence "s' = s1" "r = -1" using assms al by (auto simp: fork_def)
      thus ?thesis using q i fr None by simp
    next
      case (Some i')
      hence a: "a = Some i" using q by auto
      obtain d km2 where cp: "copyuvm (kdata e) (kend e) USERTOP (km s1) (pgdir (procs s1 ! c)) (psz (procs s1 ! c)) = Some (d, km2)"
        using assms al a by (auto simp: fork_def split: option.splits)
      let ?P = "\<lambda>r s'. sched_frame s s' \<and> procs s' = (procs s)[i := procs s' ! i] \<and>
       pticks (procs s' ! i) = pticks (procs s ! i) \<and> pid (procs s' ! i) = nextpid s \<and>
       (r = -1 \<and> queues s' = queues s \<and> pstate (procs s' ! i) = UNUSED \<and> priority (procs s' ! i) = priority (procs s ! i) \<or>
        r = nextpid s \<and> queues s' = q_put (queues s) 0 i \<and> pstate (procs s' ! i) = RUNNABLE \<and> priority (procs s' ! i) = 0 \<and>
        parent (procs s' ! i) = Some c \<and> tf_eax (tf (procs s' ! i)) = 0)"
      have "?P r s'"
      proof (cases "d = 0")
        case True
        show ?thesis using assms al a cp q i True
          by (clarsimp simp: fork_def Let_def upd_def sched_frame_def split: option.splits)
      next
        case False
        show ?thesis using assms al a cp q i False
          by (clarsimp simp: fork_def Let_def upd_def enqueue_def q_put_def sched_frame_def split: option.splits)
      qed
      thus ?thesis using fr by blast
    qed
  qed
qed

lemma fork_inv:
  assumes inv: "mlfq_inv s" and fk: "fork e s c = Some (r, s')"
    and c: "cur s = Some c" and stale: "\<And>i. free_slot s = Some i \<Longrightarrow> level (queues s) i = None"
  shows "mlfq_inv s'"
proof -
  note len = inv_len[OF inv] and core = inv_core[OF inv]
  have cpu: "on_cpu s c" using inv_on_cpu[OF inv c] .
  hence rc: "pstate (procs s ! c) = RUNNING" "c < NPROC" using inv_running[OF inv, of c] c on_cpuD by auto
  from fork_effect[OF fk] show ?thesis
  proof (elim disjE exE conjE)
    assume "s' = s" thus ?thesis using inv by simp
  next
    fix i assume h: "free_slot s = Some i" "sched_frame s s'" "procs s' = (procs s)[i := procs s' ! i]"
      "pticks (procs s' ! i) = pticks (procs s ! i)" "queues s' = queues s" "pstate (procs s' ! i) = UNUSED"
      "priority (procs s' ! i) = priority (procs s ! i)"
    note i = free_slotD[OF h(1)]
    have q: "quiet s s'" using quiet_slot[OF h(2,5,3) _ h(6,7,4)] i by simp
    have "procs s' ! c = procs s ! c" using h(3) i rc by (metis nth_list_update_neq procstate.distinct(7))
    thus ?thesis using quiet_inv[OF inv q] c rc by simp
  next
    fix i assume h: "free_slot s = Some i" "sched_frame s s'" "procs s' = (procs s)[i := procs s' ! i]"
      "pticks (procs s' ! i) = pticks (procs s ! i)" "queues s' = q_put (queues s) 0 i"
      "pstate (procs s' ! i) = RUNNABLE" "priority (procs s' ! i) = 0"
    note i = free_slotD[OF h(1)]
    have oth: "procs s' ! p = procs s ! p" if "p \<noteq> i" for p using h(3) that by (metis nth_list_update_neq)
    have ci: "c \<noteq> i" using i rc by auto
    have ok: "queues_ok (queues s)" using core by (simp add: mlfq_core_def)
    note put = q_put_level[OF ok, of 0 i, folded h(5)]
    have Q: "queues_ok (queues s')" "level (queues s') = (level (queues s))(i \<mapsto> 0)"
      using put stale[OF h(1)] i len by auto
    have core': "mlfq_core s'"
      unfolding mlfq_core_def Q(2)
    proof (intro conjI allI impI)
      fix p assume p: "p < NPROC" "pstate (procs s' ! p) \<noteq> UNUSED"
      thus "((level (queues s))(i \<mapsto> 0)) p = Some (priority (procs s' ! p))"
        using oth[of p] h(7) core by (cases "p = i") (auto simp: mlfq_core_def)
    next
      fix p assume "p < NPROC"
      thus "length (pticks (procs s' ! p)) = 4"
        using oth[of p] h(4) core i by (cases "p = i") (auto simp: mlfq_core_def)
    next
      show "length (procs s') = NPROC" using h(3) len by (metis length_list_update)
    qed (use Q h(2) core in \<open>auto simp: sched_frame_def mlfq_core_def\<close>)
    have each: "slice_left (procs s' ! p) \<and> (pstate (procs s' ! p) = RUNNING \<longleftrightarrow> cur s' = Some p)" if "p < NPROC" for p
      using oth[of p] h(2,4,6) inv_slice[OF inv that] inv_running[OF inv that] c ci
      by (cases "p = i") (auto simp: slice_left_def sched_frame_def)
    have sl: "slot (queues s') c k j" if "slot (queues s) c k j" for k j
      using q_put_keeps[OF ok _ _ stale[OF h(1)] that, of 0] i len by (simp add: h(5))
    have "on_cpu s' c" using cpu sl h(2) oth[OF ci] by (auto simp: on_cpu_def sched_frame_def)
    moreover have "cur s' = Some c" using h(2) c by (simp add: sched_frame_def)
    ultimately show ?thesis unfolding mlfq_inv_def using core' each by simp
  qed
qed

subsection \<open>Picking a process\<close>

lemma purged_queues:
  assumes "queues_ok Q" "list_all2 (purged ps) Q Q'"
  shows "queues_ok Q'" "slot Q' p k i \<Longrightarrow> slot Q p k i"
    "slot Q p k i \<Longrightarrow> pstate (ps ! p) \<noteq> UNUSED \<Longrightarrow> slot Q' p k i"
    "pstate (ps ! p) \<noteq> UNUSED \<Longrightarrow> level Q' p = level Q p"
proof -
  have len: "length Q' = 4" using assms list_all2_lengthD queues_ok_len by metis
  have lenk: "length (Q' ! k) = NPROC" if "k < 4" for k
    using that list_all2_nthD2[OF assms(2), of k] queues_ok_len[OF assms(1), of k] len
    by (auto simp: purged_def dest: list_all2_lengthD)
  have step: "Q' ! k ! i = Q ! k ! i \<or> Q' ! k ! i = None \<and> (\<exists>p. Q ! k ! i = Some p \<and> pstate (ps ! p) = UNUSED)"
    if "k < 4" "i < NPROC" for k i
    using that list_all2_nthD2[OF assms(2), of k] queues_ok_len[OF assms(1), of k] len lenk[of k]
    by (auto simp: purged_def list_all2_conv_all_nth)
  show bwd: "slot Q' p k i \<Longrightarrow> slot Q p k i" for p k i using step[of k i] by (auto simp: slot_def)
  show fwd: "slot Q p k i \<Longrightarrow> pstate (ps ! p) \<noteq> UNUSED \<Longrightarrow> slot Q' p k i" for p k i
    using step[of k i] by (auto simp: slot_def)
  show ok: "queues_ok Q'"
    unfolding queues_ok_def
  proof (intro conjI allI impI ballI)
    fix q assume "q \<in> set Q'"
    thus "length q = NPROC" using lenk len by (auto simp: in_set_conv_nth)
  next
    fix k i p assume "slot Q' p k i"
    thus "p < NPROC" using bwd queues_ok_bound[OF assms(1)] by blast
  next
    fix p k i k' i' assume "slot Q' p k i" "slot Q' p k' i'"
    thus "k' = k" "i' = i" using queues_ok_uniq[OF assms(1) bwd bwd] by blast+
  qed (rule len)
  show "pstate (ps ! p) \<noteq> UNUSED \<Longrightarrow> level Q' p = level Q p"
    by (rule level_ext[OF assms(1) ok]) (use bwd fwd in blast)
qed

lemma sched_pick_cases:
  assumes "sched_pick s = Some s'"
  obtains (idle) qs where "scan_levels (procs s) (lastRR s) 0 (queues s) = (None, qs)" "s' = s\<lparr>queues := qs\<rparr>"
  | (pick) qs k i p where "scan_levels (procs s) (lastRR s) 0 (queues s) = (Some (k, i, p), qs)"
      "procs s' = (procs s)[p := (procs s ! p)\<lparr>pstate := RUNNING, lastTick := ticks s\<rparr>]" "queues s' = qs"
      "lastRR s' = lastRR s" "cur s' = Some p" "running s' = Some (k, i)" "cr3 s' = pgdir (procs s ! p)"
  using assms by (auto simp: sched_pick_def switchuvm_def upd_def split: prod.splits option.splits if_splits)

lemma sched_pick_inv:
  assumes inv: "mlfq_inv s" and noc: "cur s = None" and pk: "sched_pick s = Some s'"
  shows "mlfq_inv s'"
proof -
  note len = inv_len[OF inv] and core = inv_core[OF inv]
  have ok: "queues_ok (queues s)" "rr_ok (lastRR s)" using core by (auto simp: mlfq_core_def)
  define qs where "qs = snd (scan_levels (procs s) (lastRR s) 0 (queues s))"
  have pu: "list_all2 (purged (procs s)) (queues s) qs" unfolding qs_def by (rule scan_levels_purged)
  note P = purged_queues[OF ok(1) pu]
  have nr: "pstate (procs s ! p) \<noteq> RUNNING" if "p < NPROC" for p using inv_running[OF inv that] noc by simp
  from pk show ?thesis
  proof (cases rule: sched_pick_cases)
    case (idle qs')
    hence "s' = s\<lparr>queues := qs\<rparr>" by (simp add: qs_def)
    thus ?thesis using inv noc P(1,4) by (simp add: mlfq_inv_def mlfq_core_def)
  next
    case (pick qs' k i p)
    have qs': "qs' = qs" using pick(1) by (simp add: qs_def)
    have "fst (scan_levels (procs s) (lastRR s) 0 (queues s)) = Some (k, i, p)" using pick(1) by simp
    from scan_levels_Some[OF ok(2) _ this] queues_ok_len[OF ok(1)] have fr: "k < 4"
      "first_runnable (procs s) (lastRR s) k (queues s ! k) i p" using ok(1) by (auto simp: queues_ok_def)
    hence sl: "slot (queues s) p k i" and run: "pstate (procs s ! p) = RUNNABLE"
      by (auto simp: first_runnable_def slot_def)
    have p: "p < NPROC" using queues_ok_bound[OF ok(1) sl] .
    have lv: "level (queues s) p = Some k" using level_Some[OF ok(1)] sl by blast
    hence prio: "priority (procs s ! p) = k" using core p run by (simp add: mlfq_core_def)
    have each: "length (pticks (procs s' ! r)) = 4 \<and> slice_left (procs s' ! r) \<and>
        (pstate (procs s' ! r) = RUNNING \<longleftrightarrow> cur s' = Some r) \<and>
        (pstate (procs s' ! r) \<noteq> UNUSED \<longrightarrow> level qs r = Some (priority (procs s' ! r)))" if "r < NPROC" for r
      using that inv_slice[OF inv that] nr[OF that] core P(4)[of r] p len run prio lv
      by (cases "r = p") (simp_all add: pick mlfq_core_def slice_left_def)
    have "on_cpu s' p" using p P(3)[OF sl] run prio len by (simp add: on_cpu_def pick qs')
    thus ?thesis unfolding mlfq_inv_def mlfq_core_def using each P(1) ok(2) len by (simp add: pick qs')
  qed
qed

subsection \<open>The starvation boost\<close>

definition starving :: "u32 \<Rightarrow> proc \<Rightarrow> bool" where
  "starving now p \<longleftrightarrow> pstate p = RUNNABLE \<and> now - 100 > lastTick p \<and> priority p > 0"

definition promoted :: "proc \<Rightarrow> proc" where
  "promoted p = p\<lparr>priority := priority p - 1, pticks := (pticks p)[priority p - 1 := 0, priority p := 0]\<rparr>"

lemma promoted_facts [simp]:
  "pstate (promoted p) = pstate p" "length (pticks (promoted p)) = length (pticks p)"
  "priority (promoted p) = priority p - 1"
  by (simp_all add: promoted_def)

lemma quantum_pos [simp]: "0 < quantum k"
  by (simp add: quantum_def)

lemma promoted_slice: "slice_left p \<Longrightarrow> slice_left (promoted p)"
  unfolding slice_left_def promoted_def
  by (auto simp: nth_list_update) (metis length_list_update list_update_beyond not_le nth_list_update quantum_pos)

text \<open>One iteration of the loop, for a starving process.\<close>

definition promote :: "'f kstate \<Rightarrow> nat \<Rightarrow> 'f kstate" where
  "promote s i = s\<lparr>procs := (procs s)[i := promoted (procs s ! i)],
     queues := q_put (q_remove (queues s) (priority (procs s ! i)) i) (priority (procs s ! i) - 1) i\<rparr>"

lemma boost_Cons:
  assumes "length (queues s) = 4"
  shows "boost now s (i # is) = boost now (if starving now (procs s ! i) then promote s i else s) is"
  using assms
  by (auto simp: Let_def starving_def promote_def promoted_def upd_def q_put_def q_remove_def)

lemma promote_core:
  assumes core: "mlfq_core s" and i: "i < NPROC" "starving now (procs s ! i)"
  shows "mlfq_core (promote s i)"
    "level (queues (promote s i)) = (level (queues s))(i \<mapsto> priority (procs s ! i) - 1)"
    "p \<noteq> i \<Longrightarrow> slot (queues s) p k j \<Longrightarrow> slot (queues (promote s i)) p k j"
proof -
  let ?k = "priority (procs s ! i)"
  have ok: "queues_ok (queues s)" and len: "length (procs s) = NPROC" using core by (auto simp: mlfq_core_def)
  have lv: "level (queues s) i = Some ?k" using core i by (simp add: mlfq_core_def starving_def)
  then obtain x where x: "slot (queues s) i ?k x" using level_Some[OF ok] by blast
  hence k4: "?k < 4" "x < NPROC" by (auto simp: slot_def)
  have mv: "queues_ok (queues (promote s i)) \<and> level (queues (promote s i)) = (level (queues s))(i \<mapsto> ?k - 1)"
    using mlq.move[OF ok lv _ i(1), of "?k - 1"] k4 by (simp add: promote_def)
  thus "level (queues (promote s i)) = (level (queues s))(i \<mapsto> ?k - 1)" by blast
  show "mlfq_core (promote s i)"
    unfolding mlfq_core_def
  proof (intro conjI allI impI)
    fix p assume "p < NPROC" "pstate (procs (promote s i) ! p) \<noteq> UNUSED"
    thus "level (queues (promote s i)) p = Some (priority (procs (promote s i) ! p))"
      using core mv len by (cases "p = i") (auto simp: mlfq_core_def promote_def)
  next
    fix p assume "p < NPROC"
    thus "length (pticks (procs (promote s i) ! p)) = 4"
      using core len by (cases "p = i") (auto simp: mlfq_core_def promote_def)
  qed (use mv core in \<open>auto simp: promote_def mlfq_core_def\<close>)
  have Q: "queues_ok (q_remove (queues s) ?k i)" "level (q_remove (queues s) ?k i) i = None"
    using q_remove_level[OF ok lv] by auto
  show "p \<noteq> i \<Longrightarrow> slot (queues s) p k j \<Longrightarrow> slot (queues (promote s i)) p k j"
    using q_put_keeps[OF Q(1) _ i(1) Q(2)] q_remove_keeps[OF ok x] k4 by (simp add: promote_def)
qed

lemma all_slots: "distinct [0..<NPROC]" "set [0..<NPROC] \<subseteq> {..<NPROC}"
  by auto

lemma boost_spec:
  assumes "mlfq_core s" "distinct is" "set is \<subseteq> {..<NPROC}"
  shows "mlfq_core (boost now s is) \<and> sched_frame s (boost now s is) \<and>
    (\<forall>p. procs (boost now s is) ! p =
       (if p \<in> set is \<and> starving now (procs s ! p) then promoted (procs s ! p) else procs s ! p)) \<and>
    (\<forall>p. level (queues (boost now s is)) p =
       (if p \<in> set is \<and> starving now (procs s ! p) then Some (priority (procs s ! p) - 1) else level (queues s) p)) \<and>
    (\<forall>p k i. \<not> starving now (procs s ! p) \<longrightarrow> slot (queues s) p k i \<longrightarrow> slot (queues (boost now s is)) p k i)"
  using assms
proof (induction "is" arbitrary: s)
  case Nil
  thus ?case by (simp add: sched_frame_def)
next
  case (Cons i "is")
  have len: "length (procs s) = NPROC" "length (queues s) = 4"
    using Cons.prems queues_ok_len by (auto simp: mlfq_core_def)
  have i: "i < NPROC" "i \<notin> set is" "distinct is" "set is \<subseteq> {..<NPROC}" using Cons.prems by auto
  show ?case
  proof (cases "starving now (procs s ! i)")
    case False
    thus ?thesis using Cons.IH[OF Cons.prems(1) i(3,4)] i(2) by (simp add: boost_Cons[OF len(2)] del: boost.simps)
  next
    case True
    note pr = promote_core[OF Cons.prems(1) i(1) True]
    have P: "procs (promote s i) ! p = (if p = i then promoted (procs s ! i) else procs s ! p)" for p
      using i len by (simp add: promote_def)
    have F: "sched_frame (promote s i) t = sched_frame s t" for t by (simp add: sched_frame_def promote_def)
    have B: "boost now s (i # is) = boost now (promote s i) is" using True by (simp add: boost_Cons[OF len(2)] del: boost.simps)
    note IH = Cons.IH[OF pr(1) i(3,4)]
    have sp: "p \<in> set is \<Longrightarrow> p \<noteq> i" for p using i(2) by auto
    show ?thesis unfolding B
    proof (intro conjI allI impI)
      fix p
      show "procs (boost now (promote s i) is) ! p =
         (if p \<in> set (i # is) \<and> starving now (procs s ! p) then promoted (procs s ! p) else procs s ! p)"
        using IH P[of p] sp[of p] True i(2) by (cases "p = i") auto
      show "level (queues (boost now (promote s i) is)) p =
         (if p \<in> set (i # is) \<and> starving now (procs s ! p) then Some (priority (procs s ! p) - 1) else level (queues s) p)"
        using IH P[of p] sp[of p] True i(2) pr(2) by (cases "p = i") auto
    next
      fix p k j assume a: "\<not> starving now (procs s ! p)" "slot (queues s) p k j"
      hence "p \<noteq> i" using True by auto
      thus "slot (queues (boost now (promote s i) is)) p k j" using IH a pr(3)[of p k j] P[of p] by auto
    qed (use IH F in auto)
  qed
qed

subsection \<open>The timer interrupt\<close>

lemma charge_core:
  assumes "mlfq_inv s" "cur s = Some c"
  defines "s1 \<equiv> upd s c (\<lambda>r. r\<lparr>pticks := (pticks r)[priority r := pticks r ! priority r + 1],
                            accumulatedTicks := (accumulatedTicks r)[priority r := accumulatedTicks r ! priority r + 1]\<rparr>)"
  shows "mlfq_core s1" "on_cpu s1 c" "sched_frame s s1"
    "p \<noteq> c \<Longrightarrow> procs s1 ! p = procs s ! p" "pstate (procs s1 ! c) = RUNNING"
    "priority (procs s1 ! c) = priority (procs s ! c)"
    "k < 4 \<Longrightarrow> pticks (procs s1 ! c) ! k = pticks (procs s ! c) ! k + (if k = priority (procs s ! c) then 1 else 0)"
proof -
  note core = inv_core[OF assms(1)] and len = inv_len[OF assms(1)] and cpu = inv_on_cpu[OF assms(1,2)]
  note c = on_cpuD[OF cpu]
  have tl: "length (pticks (procs s ! c)) = 4" using core c by (simp add: mlfq_core_def)
  have me: "procs s1 ! c = (procs s ! c)\<lparr>pticks := (pticks (procs s ! c))[priority (procs s ! c) := pticks (procs s ! c) ! priority (procs s ! c) + 1],
      accumulatedTicks := (accumulatedTicks (procs s ! c))[priority (procs s ! c) := accumulatedTicks (procs s ! c) ! priority (procs s ! c) + 1]\<rparr>"
    using c len by (simp add: s1_def upd_nth)
  show oth: "p \<noteq> c \<Longrightarrow> procs s1 ! p = procs s ! p" for p by (simp add: s1_def upd_def)
  show "pstate (procs s1 ! c) = RUNNING" using me inv_running[OF assms(1), of c] c by simp
  show pr: "priority (procs s1 ! c) = priority (procs s ! c)" using me by simp
  show "k < 4 \<Longrightarrow> pticks (procs s1 ! c) ! k = pticks (procs s ! c) ! k + (if k = priority (procs s ! c) then 1 else 0)"
    using me tl by (simp add: nth_list_update)
  show "sched_frame s s1" by (simp add: sched_frame_def s1_def)
  have f: "queues s1 = queues s" "running s1 = running s" "cur s1 = cur s" "lastRR s1 = lastRR s" "length (procs s1) = NPROC"
    using len by (simp_all add: s1_def)
  show "on_cpu s1 c" using cpu pr f by (simp add: on_cpu_def)
  show "mlfq_core s1"
    unfolding mlfq_core_def f
  proof (intro conjI allI impI)
    fix p assume "p < NPROC" "pstate (procs s1 ! p) \<noteq> UNUSED"
    thus "level (queues s) p = Some (priority (procs s1 ! p))"
      using core oth[of p] me by (cases "p = c") (auto simp: mlfq_core_def)
  next
    fix p assume "p < NPROC"
    thus "length (pticks (procs s1 ! p)) = 4" using core oth[of p] me tl by (cases "p = c") (auto simp: mlfq_core_def)
  qed (use core in \<open>auto simp: mlfq_core_def\<close>)
qed

lemma timer_charge_leaving:
  assumes inv: "mlfq_inv s" and cu: "cur s = Some c"
  shows "leaving (timer_charge s c) c"
proof -
  define s1 where "s1 = upd s c (\<lambda>r. r\<lparr>pticks := (pticks r)[priority r := pticks r ! priority r + 1],
                            accumulatedTicks := (accumulatedTicks r)[priority r := accumulatedTicks r ! priority r + 1]\<rparr>)"
  note ch = charge_core[OF inv cu, folded s1_def]
  define s2 where "s2 = (if starvTicks s + 1 = 100 then boost (ticks s) (s1\<lparr>starvTicks := 0\<rparr>) [0..<NPROC] else s1\<lparr>starvTicks := starvTicks s + 1\<rparr>)"
  have tc: "timer_charge s c = yield s2 c"
    by (simp add: timer_charge_def s2_def s1_def Let_def)
  have c1: "mlfq_core (s1\<lparr>starvTicks := n\<rparr>)" for n using ch(1) by (simp add: mlfq_core_def)
  note bs = boost_spec[OF c1 all_slots, of "ticks s" 0]
  have nst: "\<not> starving (ticks s) (procs s1 ! c)" using ch(5) by (simp add: starving_def)
  have core2: "mlfq_core s2" using bs c1 by (simp add: s2_def)
  have c2: "procs s2 ! c = procs s1 ! c" using bs nst by (simp add: s2_def)
  have fr: "sched_frame s1 s2" using bs by (auto simp: s2_def sched_frame_def)
  have sl: "slot (queues s1) c k i \<Longrightarrow> slot (queues s2) c k i" for k i using bs nst by (auto simp: s2_def)
  have cpu2: "on_cpu s2 c" using ch(2) sl c2 fr by (auto simp: on_cpu_def sched_frame_def)
  have oth: "procs s2 ! p = procs s ! p \<or> procs s2 ! p = promoted (procs s ! p)" if "p \<noteq> c" for p
    using bs ch(4)[OF that] by (auto simp: s2_def)
  have len: "length (procs s2) = NPROC" using core_len[OF core2] .
  note c = on_cpuD[OF cpu2]
  have y: "procs (yield s2 c) ! p = (if p = c then (procs s2 ! c)\<lparr>pstate := RUNNABLE, pcontext := InSched\<rparr> else procs s2 ! p)" for p
    using c len by (simp add: yield_def upd_def)
  have tk: "pticks (procs s ! c) ! k < quantum k" if "k < 4" for k
    using inv_slice[OF inv, of c] c that by (simp add: slice_left_def)
  have corey: "mlfq_core (yield s2 c)"
    unfolding mlfq_core_def
  proof (intro conjI allI impI)
    fix p assume "p < NPROC" "pstate (procs (yield s2 c) ! p) \<noteq> UNUSED"
    thus "level (queues (yield s2 c)) p = Some (priority (procs (yield s2 c) ! p))"
      using core2 y[of p] c2 ch(5) c by (cases "p = c") (auto simp: mlfq_core_def yield_def)
  next
    fix p assume "p < NPROC"
    thus "length (pticks (procs (yield s2 c) ! p)) = 4" using core2 y[of p] by (cases "p = c") (auto simp: mlfq_core_def)
  qed (use core2 in \<open>auto simp: mlfq_core_def yield_def\<close>)
  have cpuy: "on_cpu (yield s2 c) c" using cpu2 y[of c] by (simp add: on_cpu_def yield_def)
  have nr: "pstate (procs (yield s2 c) ! p) \<noteq> RUNNING" if "p < NPROC" for p
    using y[of p] oth[of p] inv_running[OF inv that] cu by (cases "p = c") auto
  have so: "slice_left (procs (yield s2 c) ! p)" if "p < NPROC" "p \<noteq> c" for p
    using y[of p] oth[of p] that inv_slice[OF inv that(1)] promoted_slice by auto
  have mine: "pticks (procs (yield s2 c) ! c) ! k = pticks (procs s ! c) ! k + (if k = priority (procs s ! c) then 1 else 0)"
    if "k < 4" for k using y[of c] c2 ch(7)[OF that] by simp
  have pr: "priority (procs (yield s2 c) ! c) = priority (procs s ! c)" using y[of c] c2 ch(6) by simp
  have p4: "priority (procs s ! c) < 4" using c c2 ch(6) by simp
  show ?thesis
    unfolding tc leaving_def pr using corey cpuy nr so mine tk p4 y[of c] by (auto simp: Suc_leI)
qed

subsection \<open>Transitions of the kernel\<close>

text \<open>
  The scheduler's loop, the timer and the system calls as steps.  A call that blocks runs up to
  \<open>sched\<close> and continues with the rest of the scheduler's loop body.  The premise of \<open>step_fork\<close> says
  that the process slot \<open>allocproc\<close> takes has no queue entry left over from an earlier process:
  \<open>wait\<close> frees a slot without clearing its entry, only a later scan of the scheduler does.
\<close>

inductive mlfq_step :: "'f kenv \<Rightarrow> 'f kstate \<Rightarrow> 'f kstate \<Rightarrow> bool" for e where
  step_pick: "cur s = None \<Longrightarrow> sched_pick s = Some s' \<Longrightarrow> mlfq_step e s s'"
| step_tick_idle: "cur s = None \<Longrightarrow> trap_timer e s user = Some s' \<Longrightarrow> mlfq_step e s s'"
| step_tick: "cur s = Some c \<Longrightarrow> trap_timer e s user = Some s' \<Longrightarrow> mlfq_step e s (sched_after s')"
| step_fault: "cur s = Some c \<Longrightarrow> trap_fault e s user = Some s' \<Longrightarrow> mlfq_step e s (sched_after s')"
| step_wakeup: "mlfq_step e s (wakeup s ch)"
| step_sleep: "cur s = Some c \<Longrightarrow> mlfq_step e s (sched_after (sleep s c ch))"
| step_resume: "cur s = Some c \<Longrightarrow> mlfq_step e s (sleep_resume s c)"
| step_kill: "cur s = Some c \<Longrightarrow> mlfq_step e s (snd (kill s i))"
| step_exit: "cur s = Some c \<Longrightarrow> exit_proc e s c = Some s' \<Longrightarrow> mlfq_step e s (sched_after s')"
| step_wait: "cur s = Some c \<Longrightarrow> wait_pass e s c = Some (w, s') \<Longrightarrow>
    mlfq_step e s (if w = Asleep then sched_after s' else s')"
| step_sbrk: "cur s = Some c \<Longrightarrow> growproc e s c n = Some (r, s') \<Longrightarrow> mlfq_step e s s'"
| step_fork: "cur s = Some c \<Longrightarrow> (\<And>i. free_slot s = Some i \<Longrightarrow> level (queues s) i = None) \<Longrightarrow>
    fork e s c = Some (r, s') \<Longrightarrow> mlfq_step e s s'"

inductive_cases mlfq_stepE: "mlfq_step e s s'"

lemma on_cpu_running: "mlfq_inv s \<Longrightarrow> cur s = Some c \<Longrightarrow> c < length (procs s) \<and> pstate (procs s ! c) = RUNNING"
  using inv_on_cpu on_cpuD inv_running inv_len by metis

lemma exit_inv:
  assumes "mlfq_inv s" "cur s = Some c" "exit_proc e s c = Some s'"
  shows "mlfq_inv (sched_after s')"
proof -
  note c = on_cpu_running[OF assms(1,2)]
  have "quiet s s' \<and> pstate (procs s' ! c) = ZOMBIE" using exit_proc_effect[OF assms(3)] c by simp
  thus ?thesis using sched_after_inv[OF quiet_leaving[OF assms(1) _ assms(2)]] by simp
qed

lemma wakeup_inv:
  assumes "mlfq_inv s"
  shows "mlfq_inv (wakeup s ch)" "cur (wakeup s ch) = cur s"
proof -
  show "mlfq_inv (wakeup s ch)"
  proof (rule quiet_inv[OF assms quiet_wakeup])
    fix c assume "cur s = Some c"
    from on_cpu_running[OF assms this] show "pstate (procs (wakeup s ch) ! c) = RUNNING"
      by (simp add: wakeup_def wakeup1_nth)
  qed
  show "cur (wakeup s ch) = cur s" by (simp add: wakeup_def)
qed

lemma tick_inv: "mlfq_inv s \<Longrightarrow> mlfq_inv (s\<lparr>ticks := n\<rparr>)"
  by (simp add: mlfq_inv_def mlfq_core_def on_cpu_def split: option.splits)

lemma upd_quiet_inv:
  assumes "mlfq_inv s" "cur s = Some c" "\<And>p. same_sched p (f p)" "\<And>p. pstate p = RUNNING \<Longrightarrow> pstate (f p) = RUNNING"
  shows "mlfq_inv (upd s c f)"
proof (rule quiet_inv[OF assms(1)])
  show "quiet s (upd s c f)" using assms(3) by (rule quiet_upd)
  fix c' assume "cur s = Some c'"
  thus "pstate (procs (upd s c f) ! c') = RUNNING"
    using on_cpu_running[OF assms(1,2)] assms(2,4) by (simp add: upd_nth)
qed

lemma timer_inv:
  assumes "mlfq_inv s" "trap_timer e s user = Some s'"
  shows "case cur s of None \<Rightarrow> mlfq_inv s' | Some c \<Rightarrow> mlfq_inv (sched_after s')"
proof -
  define s1 where "s1 = wakeup (s\<lparr>ticks := ticks s + 1\<rparr>) (Some TicksChan)"
  have inv1: "mlfq_inv s1" and cur1: "cur s1 = cur s"
    unfolding s1_def using wakeup_inv[OF tick_inv[OF assms(1)]] by simp_all
  show ?thesis
  proof (cases "cur s")
    case None
    thus ?thesis using assms(2) inv1 cur1 by (simp add: trap_timer_def Let_def s1_def[symmetric])
  next
    case (Some c)
    hence c1: "cur s1 = Some c" using cur1 by simp
    note r = on_cpu_running[OF inv1 c1]
    have "exit_proc e s1 c = Some s' \<or> s' = timer_charge s1 c"
      using assms(2) c1 r by (auto simp: trap_timer_def Let_def s1_def[symmetric] split: if_splits)
    thus ?thesis using exit_inv[OF inv1 c1] sched_after_inv[OF timer_charge_leaving[OF inv1 c1]] Some by auto
  qed
qed

lemma mlfq_step_inv:
  assumes "mlfq_step e s s'" "mlfq_inv s"
  shows "mlfq_inv s'"
  using assms
proof (cases rule: mlfq_step.cases)
  case step_pick
  thus ?thesis using sched_pick_inv assms(2) by blast
next
  case (step_tick_idle user)
  thus ?thesis using timer_inv[OF assms(2)] by fastforce
next
  case (step_tick c user t)
  thus ?thesis using timer_inv[OF assms(2)] by fastforce
next
  case (step_fault c user t)
  have "mlfq_inv (upd s c (\<lambda>p. p\<lparr>killed := True\<rparr>))"
    by (rule upd_quiet_inv[OF assms(2) step_fault(2)]) (simp_all add: same_sched_def)
  moreover have "cur (upd s c (\<lambda>p. p\<lparr>killed := True\<rparr>)) = Some c" using step_fault(2) by simp
  moreover have "exit_proc e (upd s c (\<lambda>p. p\<lparr>killed := True\<rparr>)) c = Some t"
    using step_fault(2,3) by (simp add: trap_fault_def split: if_splits)
  ultimately show ?thesis using exit_inv step_fault(1) by blast
next
  case (step_wakeup ch)
  thus ?thesis using wakeup_inv[OF assms(2)] by simp
next
  case (step_sleep c ch)
  note r = on_cpu_running[OF assms(2) step_sleep(2)]
  have "pstate (procs (sleep s c ch) ! c) = SLEEPING" using r by (simp add: sleep_def upd_nth)
  thus ?thesis
    using sched_after_inv[OF quiet_leaving[OF assms(2) quiet_sleep step_sleep(2)]] r step_sleep(1) by simp
next
  case (step_resume c)
  show ?thesis unfolding step_resume(1) sleep_resume_def
    by (rule upd_quiet_inv[OF assms(2) step_resume(2)]) (simp_all add: same_sched_def)
next
  case (step_kill c i)
  have "pstate (procs (snd (kill s i)) ! c) = RUNNING"
    using on_cpu_running[OF assms(2) step_kill(2)] by (auto simp: kill_def upd_nth split: option.splits)
  thus ?thesis using quiet_inv[OF assms(2) quiet_kill] step_kill by simp
next
  case (step_exit c t)
  thus ?thesis using exit_inv[OF assms(2)] by simp
next
  case (step_wait c w t)
  note r = on_cpu_running[OF assms(2) step_wait(2)]
  have "quiet s t \<and> pstate (procs t ! c) = (if w = Asleep then SLEEPING else RUNNING)"
    using wait_pass_effect[OF step_wait(3)] r by simp
  thus ?thesis
    using sched_after_inv[OF quiet_leaving[OF assms(2) _ step_wait(2)]] quiet_inv[OF assms(2)] step_wait by auto
next
  case (step_sbrk c n r)
  thus ?thesis using growproc_effect[OF step_sbrk(2)] quiet_inv[OF assms(2)] on_cpu_running[OF assms(2) step_sbrk(1)] by auto
next
  case (step_fork c r)
  thus ?thesis using fork_inv[OF assms(2) step_fork(3,1)] by blast
qed

lemma mlfq_steps_inv: "(mlfq_step e)\<^sup>*\<^sup>* s s' \<Longrightarrow> mlfq_inv s \<Longrightarrow> mlfq_inv s'"
  by (induction rule: rtranclp_induct) (auto intro: mlfq_step_inv)

end
