(* ===== verification/MlfqProps.thy ===== *)
theory MlfqProps
  imports MlfqInv
begin

text \<open>
  The properties of the multi-level feedback queue kernel, each with an evaluation on a small
  concrete state: \<open>boot_at l\<close> holds one runnable process in slot 0 of the queue of level \<open>l\<close>.
\<close>

definition unused_proc :: proc where
  "unused_proc = \<lparr>psz = 0, pgdir = 0, kstack = 0, pstate = UNUSED, pid = 0, parent = None,
     tf = \<lparr>tf_eax = 0, tf_eip = 0, tf_esp = 0, tf_eflags = 0, tf_cs = 0, tf_ds = 0, tf_es = 0, tf_ss = 0\<rparr>,
     pcontext = Forkret, chan = None, killed = False, ofile = replicate 16 None, cwd = None, pname = [],
     priority = 0, pticks = [0, 0, 0, 0], accumulatedTicks = [0, 0, 0, 0], lastTick = 0\<rparr>"

definition init_proc :: proc where
  "init_proc = unused_proc\<lparr>pstate := RUNNABLE, pgdir := 4096, kstack := 8192, pid := 1\<rparr>"

definition boot_at :: "nat \<Rightarrow> unit kstate" where
  "boot_at l = \<lparr>km = \<lparr>kbytes = (\<lambda>_. 0), freelist = 0\<rparr>, fs = (),
     procs = init_proc\<lparr>priority := l\<rparr> # replicate 63 unused_proc,
     queues = (replicate 4 (replicate 64 None))[l := Some 0 # replicate 63 None],
     initproc = Some 0, nextpid = 2, cur = None, running = None, lastRR = None, ticks = 0, starvTicks = 0,
     kpgdir = 0, cr3 = 0\<rparr>"

abbreviation boot_state :: "unit kstate" where
  "boot_state \<equiv> boot_at 0"

definition unit_env :: "unit kenv" where
  "unit_env = \<lparr>kdata = 0x108000, kend = 0x110000, initcode_start = 0, initcode_size = 0,
     filedup = (\<lambda>_ _. Some ()), fileclose = (\<lambda>_ _. Some ()), idup = (\<lambda>_ _. Some ()), iput = (\<lambda>_ _. Some ()),
     namei_root = (\<lambda>_. Some (None, ()))\<rparr>"

lemma boot_queues:
  "queues (boot_at l) ! k ! i = Some p \<Longrightarrow> l < 4 \<Longrightarrow> k < 4 \<Longrightarrow> i < 64 \<Longrightarrow> k = l \<and> i = 0 \<and> p = 0"
  by (auto simp: boot_at_def nth_Cons' nth_list_update split: if_splits)

lemma boot_ok:
  assumes "l < 4"
  shows "queues_ok (queues (boot_at l))"
  unfolding queues_ok_def
proof (intro conjI allI impI ballI)
  fix p k i k' i' assume "slot (queues (boot_at l)) p k i" "slot (queues (boot_at l)) p k' i'"
  thus "k' = k" "i' = i" using boot_queues assms unfolding slot_def by metis+
next
  fix q assume "q \<in> set (queues (boot_at l))"
  thus "length q = NPROC" using assms by (auto simp: boot_at_def dest!: subsetD[OF set_update_subset_insert])
qed (use boot_queues assms in \<open>auto simp: slot_def boot_at_def\<close>)

lemma boot_level: "l < 4 \<Longrightarrow> level (queues (boot_at l)) 0 = Some l"
  by (subst level_Some[OF boot_ok]) (auto simp: slot_def boot_at_def intro!: exI[of _ 0])

lemma boot_proc: "p < 64 \<Longrightarrow> procs (boot_at l) ! p = (if p = 0 then init_proc\<lparr>priority := l\<rparr> else unused_proc)"
  by (simp add: boot_at_def nth_Cons')

lemma boot_inv:
  assumes "l < 4"
  shows "mlfq_inv (boot_at l)"
proof -
  have "slice_left (procs (boot_at l) ! p) \<and> length (pticks (procs (boot_at l) ! p)) = 4 \<and>
      pstate (procs (boot_at l) ! p) \<noteq> RUNNING" if "p < 64" for p
    using boot_proc[OF that, of l]
    by (auto simp: init_proc_def unused_proc_def slice_left_def quantum_def less_Suc_eq numeral_eq_Suc)
  moreover have "level (queues (boot_at l)) p = Some (priority (procs (boot_at l) ! p))"
    if "p < 64" "pstate (procs (boot_at l) ! p) \<noteq> UNUSED" for p
    using boot_proc[OF that(1), of l] that boot_level[OF assms] by (auto simp: init_proc_def unused_proc_def split: if_splits)
  ultimately show ?thesis
    unfolding mlfq_inv_def mlfq_core_def using boot_ok[OF assms] by (auto simp: boot_at_def rr_ok_def)
qed

lemma replicate_4: "replicate 4 x = [x, x, x, x]"
  by (simp add: numeral_eq_Suc)

lemma boot_pick:
  "sched_pick boot_state = Some (boot_state\<lparr>procs := init_proc\<lparr>pstate := RUNNING, lastTick := 0\<rparr> # replicate 63 unused_proc,
      cur := Some 0, running := Some (0, 0), cr3 := 4096\<rparr>)"
  by (simp add: sched_pick_def boot_at_def init_proc_def unused_proc_def switchuvm_def upd_def replicate_4)

lemma boot_inv0: "mlfq_inv boot_state"
  by (rule boot_inv) simp



text \<open>
  C2: the scheduler runs a process of the highest level.  In an idle state the scheduler
  loop picks a \<open>RUNNABLE\<close> process whose priority level is minimal among all \<open>RUNNABLE\<close> processes and
  which comes first in the scan order of its level (slot order on levels 0 to 2, cyclic order from
  the round-robin position on level 3), stamps it with the current tick and loads its page
  directory; it stays idle exactly when no process is \<open>RUNNABLE\<close>.
\<close>

theorem sched_pick_highest:
  assumes inv: "mlfq_inv s" and noc: "cur s = None" and pk: "sched_pick s = Some s'"
  shows "case cur s' of
           None \<Rightarrow> (\<forall>p < NPROC. pstate (procs s ! p) \<noteq> RUNNABLE) \<and> procs s' = procs s
         | Some p \<Rightarrow> p < NPROC \<and> pstate (procs s ! p) = RUNNABLE \<and>
             (\<forall>r < NPROC. pstate (procs s ! r) = RUNNABLE \<longrightarrow> priority (procs s ! p) \<le> priority (procs s ! r)) \<and>
             (\<exists>i. running s' = Some (priority (procs s ! p), i) \<and>
                  first_runnable (procs s) (lastRR s) (priority (procs s ! p)) (queues s ! priority (procs s ! p)) i p) \<and>
             procs s' = (procs s)[p := (procs s ! p)\<lparr>pstate := RUNNING, lastTick := ticks s\<rparr>] \<and>
             cr3 s' = pgdir (procs s ! p)"
proof -
  note core = inv_core[OF inv]
  have ok: "queues_ok (queues s)" "rr_ok (lastRR s)" "\<forall>q \<in> set (queues s). length q = NPROC" "length (queues s) = 4"
    using core by (auto simp: mlfq_core_def queues_ok_def)
  have at: "\<exists>i. i < NPROC \<and> runnable_in (procs s) (queues s ! priority (procs s ! r)) i \<and> priority (procs s ! r) < 4"
    if "r < NPROC" "pstate (procs s ! r) = RUNNABLE" for r
  proof -
    have "level (queues s) r = Some (priority (procs s ! r))" using core that by (simp add: mlfq_core_def)
    then obtain i where "slot (queues s) r (priority (procs s ! r)) i" using level_Some[OF ok(1)] by blast
    thus ?thesis using that by (auto simp: slot_def runnable_in_def)
  qed
  from pk show ?thesis
  proof (cases rule: sched_pick_cases)
    case (idle qs)
    hence "\<forall>d < 4. \<forall>j < NPROC. \<not> runnable_in (procs s) (queues s ! d) j"
      using scan_levels_None[OF ok(2,3), of "procs s" 0] ok(4) by simp
    hence "\<forall>p < NPROC. pstate (procs s ! p) \<noteq> RUNNABLE" using at by blast
    thus ?thesis using idle noc by simp
  next
    case (pick qs k i p)
    have "fst (scan_levels (procs s) (lastRR s) 0 (queues s)) = Some (k, i, p)" using pick(1) by simp
    from scan_levels_Some[OF ok(2,3) this] ok(4) have fr: "k < 4"
      "first_runnable (procs s) (lastRR s) k (queues s ! k) i p"
      "\<forall>d < k. \<forall>j < NPROC. \<not> runnable_in (procs s) (queues s ! d) j" by auto
    hence sl: "slot (queues s) p k i" and run: "pstate (procs s ! p) = RUNNABLE"
      by (auto simp: first_runnable_def slot_def)
    have p: "p < NPROC" using queues_ok_bound[OF ok(1) sl] .
    have "level (queues s) p = Some k" using level_Some[OF ok(1)] sl by blast
    hence prio: "priority (procs s ! p) = k" using core p run by (simp add: mlfq_core_def)
    have "k \<le> priority (procs s ! r)" if "r < NPROC" "pstate (procs s ! r) = RUNNABLE" for r
      using at[OF that] fr(3) by (meson not_le)
    thus ?thesis using pick p run prio fr(2) by auto
  qed
qed

text \<open>Witness for C2: at boot the scheduler picks the first process.\<close>

theorem sched_pick_highest_witness:
  "\<exists>s'. sched_pick boot_state = Some s' \<and> cur s' = Some 0 \<and> pstate (procs boot_state ! 0) = RUNNABLE \<and>
     (\<forall>r < NPROC. pstate (procs boot_state ! r) = RUNNABLE \<longrightarrow> priority (procs boot_state ! 0) \<le> priority (procs boot_state ! r))"
proof -
  obtain s' where s': "sched_pick boot_state = Some s'" "cur s' = Some 0" using boot_pick by simp
  from sched_pick_highest[OF boot_inv0 _ s'(1)] show ?thesis using s' by (auto simp: boot_at_def)
qed

subsection \<open>Time slices\<close>

definition charged :: "proc \<Rightarrow> proc" where
  "charged r = r\<lparr>pticks := (pticks r)[priority r := pticks r ! priority r + 1],
     accumulatedTicks := (accumulatedTicks r)[priority r := accumulatedTicks r ! priority r + 1]\<rparr>"

lemma timer_charge_self:
  assumes inv: "mlfq_inv s" and cu: "cur s = Some c"
  shows "procs (timer_charge s c) ! c = (charged (procs s ! c))\<lparr>pstate := RUNNABLE, pcontext := InSched\<rparr>"
    "running (timer_charge s c) = running s" "cur (timer_charge s c) = Some c"
proof -
  note ch = charge_core[OF inv cu] and r = on_cpu_running[OF inv cu]
  define s1 where "s1 = upd s c charged"
  have s1: "upd s c (\<lambda>r. r\<lparr>pticks := (pticks r)[priority r := pticks r ! priority r + 1],
     accumulatedTicks := (accumulatedTicks r)[priority r := accumulatedTicks r ! priority r + 1]\<rparr>) = s1"
    by (simp add: s1_def charged_def upd_def)
  note ch = ch[unfolded s1]
  have c1: "mlfq_core (s1\<lparr>starvTicks := 0\<rparr>)" using ch(1) by (simp add: mlfq_core_def)
  have bs: "mlfq_core (boost now (s1\<lparr>starvTicks := 0\<rparr>) [0..<NPROC])"
    "sched_frame (s1\<lparr>starvTicks := 0\<rparr>) (boost now (s1\<lparr>starvTicks := 0\<rparr>) [0..<NPROC])"
    "procs (boost now (s1\<lparr>starvTicks := 0\<rparr>) [0..<NPROC]) ! c = procs s1 ! c" for now
    using boost_spec[OF c1 all_slots, of now] ch(5) by (simp_all add: starving_def)
  have len1: "length (procs s1) = NPROC" using inv_len[OF inv] by (simp add: s1_def)
  have me: "procs s1 ! c = charged (procs s ! c)" using r by (simp add: s1_def upd_nth)
  have c64: "c < NPROC" using r inv_len[OF inv] by simp
  show "procs (timer_charge s c) ! c = (charged (procs s ! c))\<lparr>pstate := RUNNABLE, pcontext := InSched\<rparr>"
    unfolding timer_charge_def Let_def s1 yield_def using c64 len1 me bs(3) core_len[OF bs(1)] by (simp add: upd_nth)
  have f1: "running s1 = running s" "cur s1 = Some c" using cu by (simp_all add: s1_def)
  show "running (timer_charge s c) = running s" "cur (timer_charge s c) = Some c"
    unfolding timer_charge_def Let_def s1 yield_def using bs(2) f1 by (auto simp: sched_frame_def)
qed

lemma sched_after_self:
  assumes "cur s = Some c" "running s = Some (k, i)" "c < length (procs s)"
  shows "procs (sched_after s) ! c =
    (if pticks (procs s ! c) ! k = quantum k
     then (procs s ! c)\<lparr>pticks := (pticks (procs s ! c))[k := 0],
            priority := (if k < 3 then priority (procs s ! c) + 1 else priority (procs s ! c))\<rparr>
     else procs s ! c)"
    "lastRR (sched_after s) = (if pticks (procs s ! c) ! k = quantum k \<and> \<not> k < 3
       then Some (if i = NPROC - 1 then 0 else Suc i) else lastRR s)"
  using assms by (auto simp: sched_after_def Let_def switchkvm_def upd_def enqueue_def)

text \<open>
  C3: time slices and demotion.  A timer interrupt charges the running process one tick on its level
  and makes it \<open>RUNNABLE\<close>.  When this is the last tick of its slice (5, 5, 10 and 20 ticks) the
  counter is reset and the process moves exactly one level down, or on level 3 keeps its level
  and the round-robin position moves past its slot; otherwise level and slot stay as they are.
\<close>

theorem tick_charges_and_demotes:
  assumes inv: "mlfq_inv s" and cu: "cur s = Some c" and k: "k = priority (procs s ! c)"
    and tk: "\<not> killed (procs s ! c)" "trap_timer e s user = Some t" and run: "running s = Some (k, i)"
  shows "let p = procs s ! c; p' = procs (sched_after t) ! c; full = (pticks p ! k + 1 = quantum k) in
     pstate p' = RUNNABLE \<and> accumulatedTicks p' = (accumulatedTicks p)[k := accumulatedTicks p ! k + 1] \<and>
     pticks p' = (pticks p)[k := if full then 0 else pticks p ! k + 1] \<and>
     priority p' = (if full \<and> k < 3 then k + 1 else k) \<and>
     level (queues (sched_after t)) c = Some (priority p') \<and>
     (full \<and> k = 3 \<longrightarrow> lastRR (sched_after t) = Some (Suc i mod NPROC))"
proof -
  define s1 where "s1 = wakeup (s\<lparr>ticks := ticks s + 1\<rparr>) (Some TicksChan)"
  have inv1: "mlfq_inv s1" and cur1: "cur s1 = Some c" and run1: "running s1 = Some (k, i)"
    unfolding s1_def using wakeup_inv[OF tick_inv[OF inv]] cu run by (simp_all add: wakeup_def)
  note r = on_cpu_running[OF inv cu] and r1 = on_cpu_running[OF inv1 cur1]
  have p1: "procs s1 ! c = procs s ! c" using r by (simp add: s1_def wakeup_def wakeup1_nth)
  have t: "t = timer_charge s1 c"
    using tk cur1 r1 p1 by (auto simp: trap_timer_def Let_def s1_def[symmetric] split: if_splits)
  have k4: "k < 4" "i < NPROC" using inv_on_cpu[OF inv cu] run k by (auto simp: on_cpu_def slot_def)
  have tl: "length (pticks (procs s ! c)) = 4" using inv_core[OF inv] r inv_len[OF inv] by (simp add: mlfq_core_def)
  note self = timer_charge_self[OF inv1 cur1, folded t, unfolded p1]
  have len: "c < length (procs t)" using timer_charge_leaving[OF inv1 cur1] r inv_len[OF inv]
    by (simp add: t leaving_def mlfq_core_def)
  note after = sched_after_self[OF self(3) self(2)[unfolded run1] len]
  have invt: "mlfq_inv (sched_after t)" using timer_inv[OF inv tk(2)] cu by simp
  have tick: "pticks (charged (procs s ! c)) ! k = pticks (procs s ! c) ! k + 1"
    using tl k4 k by (simp add: charged_def)
  have prio: "pticks (procs (sched_after t) ! c) = (pticks (procs s ! c))[k := if pticks (procs s ! c) ! k + 1 = quantum k then 0 else pticks (procs s ! c) ! k + 1]"
    "priority (procs (sched_after t) ! c) = (if pticks (procs s ! c) ! k + 1 = quantum k \<and> k < 3 then k + 1 else k)"
    "pstate (procs (sched_after t) ! c) = RUNNABLE"
    "accumulatedTicks (procs (sched_after t) ! c) = (accumulatedTicks (procs s ! c))[k := accumulatedTicks (procs s ! c) ! k + 1]"
    using tick unfolding after(1) self(1) by (auto simp: charged_def k)
  have "level (queues (sched_after t)) c = Some (priority (procs (sched_after t) ! c))"
    using inv_core[OF invt] prio(3) r inv_len[OF inv] by (simp add: mlfq_core_def)
  moreover have "pticks (procs s ! c) ! k + 1 = quantum k \<and> k = 3 \<longrightarrow> lastRR (sched_after t) = Some (Suc i mod NPROC)"
    using after(2) self(1) tick k4 by auto
  ultimately show ?thesis using prio by (simp add: Let_def)
qed

text \<open>Witness for C3: the boot process is scheduled and charged its first tick.\<close>

theorem tick_charges_and_demotes_witness:
  "\<exists>s t. sched_pick boot_state = Some s \<and> trap_timer unit_env s True = Some t \<and>
     pticks (procs (sched_after t) ! 0) = [1, 0, 0, 0] \<and> priority (procs (sched_after t) ! 0) = 0"
proof -
  obtain s where s: "sched_pick boot_state = Some s" "cur s = Some 0" "killed (procs s ! 0) = False"
      "pstate (procs s ! 0) = RUNNING" "length (procs s) = 64" "running s = Some (0, 0)" "priority (procs s ! 0) = 0"
      "pticks (procs s ! 0) = [0, 0, 0, 0]"
    using boot_pick by (simp add: init_proc_def unused_proc_def)
  have inv: "mlfq_inv s" using sched_pick_inv[OF boot_inv0 _ s(1)] by (simp add: boot_at_def)
  obtain t where t: "trap_timer unit_env s True = Some t"
    using s by (simp add: trap_timer_def Let_def wakeup_def wakeup1_nth)
  show ?thesis
    using tick_charges_and_demotes[OF inv s(2) _ _ t, of 0 0] s t by (simp add: Let_def quantum_def)
qed

text \<open>
  C4: starvation.  The boost that every hundredth charged tick performs promotes exactly the
  \<open>RUNNABLE\<close> processes below the top level whose last run is more than 100 ticks ago (compared
  as unsigned integers), each by one level with the tick counters of the two levels involved
  reset, and leaves every other process, its level and its slot alone.
\<close>

theorem boost_promotes_starving:
  assumes "mlfq_core s"
  shows "mlfq_core (boost now s [0..<NPROC]) \<and>
    (\<forall>p < NPROC. procs (boost now s [0..<NPROC]) ! p =
       (if starving now (procs s ! p) then promoted (procs s ! p) else procs s ! p) \<and>
     level (queues (boost now s [0..<NPROC])) p =
       (if starving now (procs s ! p) then Some (priority (procs s ! p) - 1) else level (queues s) p)) \<and>
    (\<forall>p k i. \<not> starving now (procs s ! p) \<longrightarrow> slot (queues s) p k i \<longrightarrow> slot (queues (boost now s [0..<NPROC])) p k i)"
  using boost_spec[OF assms all_slots, of now] by auto

text \<open>Witness for C4: at tick 200 a process on level 2 that last ran at tick 0 moves to level 1.\<close>

theorem boost_promotes_starving_witness:
  "mlfq_core (boot_at 2) \<and> level (queues (boot_at 2)) 0 = Some 2 \<and>
   level (queues (boost 200 (boot_at 2) [0..<NPROC])) 0 = Some 1 \<and>
   priority (procs (boost 200 (boot_at 2) [0..<NPROC]) ! 0) = 1"
proof -
  have core: "mlfq_core (boot_at 2)" by (rule inv_core[OF boot_inv]) simp
  have "starving 200 (procs (boot_at 2) ! 0)"
    by (simp add: starving_def boot_at_def init_proc_def unused_proc_def)
  moreover have "priority (procs (boot_at 2) ! 0) = 2" by (simp add: boot_at_def)
  ultimately show ?thesis using boost_promotes_starving[OF core, of 200] core boot_level[of 2] by (simp add: promoted_def)
qed

subsection \<open>Exit and wait\<close>

lemma wakeup1_fields:
  assumes "p < length ps"
  shows "parent (wakeup1 ps ch ! p) = parent (ps ! p)" "chan (wakeup1 ps ch ! p) = chan (ps ! p)"
    "ofile (wakeup1 ps ch ! p) = ofile (ps ! p)" "cwd (wakeup1 ps ch ! p) = cwd (ps ! p)"
    "pstate (wakeup1 ps ch ! p) = (if pstate (ps ! p) = SLEEPING \<and> chan (ps ! p) = ch then RUNNABLE else pstate (ps ! p))"
  using assms by (simp_all add: wakeup1_nth)

lemma reparent_fields:
  assumes "p < length ps" "ini \<noteq> Some c" "distinct is" "set is \<subseteq> {..<length ps}"
  shows "parent (reparent ps c ini is ! p) = (if p \<in> set is \<and> parent (ps ! p) = Some c then ini else parent (ps ! p)) \<and>
    chan (reparent ps c ini is ! p) = chan (ps ! p) \<and> ofile (reparent ps c ini is ! p) = ofile (ps ! p) \<and>
    cwd (reparent ps c ini is ! p) = cwd (ps ! p) \<and>
    pstate (reparent ps c ini is ! p) =
      (if pstate (ps ! p) = SLEEPING \<and> chan (ps ! p) = map_option ProcChan ini \<and>
          (\<exists>i \<in> set is. parent (ps ! i) = Some c \<and> pstate (ps ! i) = ZOMBIE)
       then RUNNABLE else pstate (ps ! p))"
  using assms
proof (induction "is" arbitrary: ps)
  case (Cons i "is")
  let ?q = "ps[i := (ps ! i)\<lparr>parent := ini\<rparr>]"
  let ?r = "if pstate (?q ! i) = ZOMBIE then wakeup1 ?q (map_option ProcChan ini) else ?q"
  show ?case
  proof (cases "parent (ps ! i) = Some c")
    case False
    thus ?thesis using Cons.IH[of ps] Cons.prems by auto
  next
    case True
    have i: "i < length ps" "i \<notin> set is" using Cons.prems by auto
    have q: "?q ! j = (if j = i then (ps ! i)\<lparr>parent := ini\<rparr> else ps ! j)" for j using i by simp
    have f: "parent (?r ! j) = (if j = i then ini else parent (ps ! j))" "chan (?r ! j) = chan (ps ! j)"
      "ofile (?r ! j) = ofile (ps ! j)" "cwd (?r ! j) = cwd (ps ! j)"
      "pstate (?r ! j) = (if pstate (ps ! i) = ZOMBIE \<and> pstate (ps ! j) = SLEEPING \<and> chan (ps ! j) = map_option ProcChan ini
         then RUNNABLE else pstate (ps ! j))" if "j < length ps" for j
      using that i by (cases "j = i"; simp add: wakeup1_nth)+
    have IH: "p < length ?r" "ini \<noteq> Some c" "distinct is" "set is \<subseteq> {..<length ?r}" using Cons.prems by auto
    have z: "(\<exists>j \<in> set is. parent (?r ! j) = Some c \<and> pstate (?r ! j) = ZOMBIE) \<longleftrightarrow>
        (\<exists>j \<in> set is. parent (ps ! j) = Some c \<and> pstate (ps ! j) = ZOMBIE)"
      using f i Cons.prems(4) by (intro bex_cong) (auto split: if_splits)
    have e: "reparent ps c ini (i # is) = reparent ?r c ini is" using True by (simp add: Let_def)
    note IH' = Cons.IH[OF IH, unfolded z f(2-5)[OF Cons.prems(1)]]
    show ?thesis
    proof (intro conjI)
      show "parent (reparent ps c ini (i # is) ! p) = (if p \<in> set (i # is) \<and> parent (ps ! p) = Some c then ini else parent (ps ! p))"
        unfolding e using IH' f(1)[OF Cons.prems(1)] True i(2) by (cases "p = i") simp_all
      show "pstate (reparent ps c ini (i # is) ! p) =
        (if pstate (ps ! p) = SLEEPING \<and> chan (ps ! p) = map_option ProcChan ini \<and>
            (\<exists>i \<in> set (i # is). parent (ps ! i) = Some c \<and> pstate (ps ! i) = ZOMBIE)
         then RUNNABLE else pstate (ps ! p))"
        unfolding e using IH' True by (cases "pstate (ps ! i) = ZOMBIE") simp_all
    qed (use IH' e in simp_all)
  qed
qed simp

text \<open>
  C5: exit hands over.  When \<open>exit\<close> of a process \<open>c\<close> succeeds, \<open>c\<close> is a \<open>ZOMBIE\<close> with no open file
  and no directory, each child of \<open>c\<close> and no other process has \<open>init\<close> as its new parent, and a
  process is woken exactly when it sleeps on \<open>c\<close>'s parent's address (so a parent blocked in
  \<open>wait\<close> runs again), or on \<open>init\<close>'s address while \<open>init\<close> inherits a zombie.
\<close>

theorem exit_hands_over:
  assumes ex: "exit_proc e s c = Some s'" and c: "c < length (procs s)" "pstate (procs s ! c) = RUNNING"
  shows "pstate (procs s' ! c) = ZOMBIE \<and> (\<forall>f \<in> set (ofile (procs s' ! c)). f = None) \<and> cwd (procs s' ! c) = None \<and>
    (\<forall>p < length (procs s). parent (procs s' ! p) = (if parent (procs s ! p) = Some c then initproc s else parent (procs s ! p))) \<and>
    (\<forall>p < length (procs s). p \<noteq> c \<longrightarrow> pstate (procs s' ! p) =
       (if pstate (procs s ! p) = SLEEPING \<and>
           (chan (procs s ! p) = map_option ProcChan (parent (procs s ! c)) \<or>
            chan (procs s ! p) = map_option ProcChan (initproc s) \<and>
              (\<exists>i < length (procs s). parent (procs s ! i) = Some c \<and> pstate (procs s ! i) = ZOMBIE))
        then RUNNABLE else pstate (procs s ! p)))"
proof -
  define ps0 where "ps0 = procs (upd s c (\<lambda>p. p\<lparr>ofile := map (\<lambda>_. None) (ofile p), cwd := None\<rparr>))"
  define ps1 where "ps1 = wakeup1 ps0 (map_option ProcChan (parent (ps0 ! c)))"
  define ps2 where "ps2 = reparent ps1 c (initproc s) [0..<length (procs s)]"
  have len: "length ps0 = length (procs s)" "length ps1 = length (procs s)" "length ps2 = length (procs s)"
    by (simp_all add: ps0_def ps1_def ps2_def)
  have ini: "initproc s \<noteq> Some c" and s': "procs s' = ps2[c := (ps2 ! c)\<lparr>pstate := ZOMBIE, pcontext := InSched\<rparr>]"
    using ex by (auto simp: exit_proc_def Let_def upd_def ps0_def ps1_def ps2_def split: if_splits option.splits)
  have p0: "ps0 ! p = (if p = c then (procs s ! c)\<lparr>ofile := map (\<lambda>_. None) (ofile (procs s ! c)), cwd := None\<rparr> else procs s ! p)" for p
    using c by (simp add: ps0_def upd_def)
  have f1: "parent (ps1 ! p) = parent (procs s ! p)" "chan (ps1 ! p) = chan (procs s ! p)"
    "pstate (ps1 ! p) = (if pstate (procs s ! p) = SLEEPING \<and> chan (procs s ! p) = map_option ProcChan (parent (procs s ! c))
       then RUNNABLE else pstate (procs s ! p))" "ofile (ps1 ! p) = ofile (ps0 ! p)" "cwd (ps1 ! p) = cwd (ps0 ! p)"
    if "p < length (procs s)" for p
    unfolding ps1_def using wakeup1_fields[of p ps0] that len by (simp_all add: p0)
  have z: "(\<exists>i \<in> set [0..<length (procs s)]. parent (ps1 ! i) = Some c \<and> pstate (ps1 ! i) = ZOMBIE) \<longleftrightarrow>
      (\<exists>i < length (procs s). parent (procs s ! i) = Some c \<and> pstate (procs s ! i) = ZOMBIE)"
  proof -
    have "parent (ps1 ! i) = Some c \<and> pstate (ps1 ! i) = ZOMBIE \<longleftrightarrow> parent (procs s ! i) = Some c \<and> pstate (procs s ! i) = ZOMBIE"
      if "i < length (procs s)" for i using f1(1,3)[OF that] by simp
    thus ?thesis by auto
  qed
  have up: "distinct [0..<length (procs s)]" "set [0..<length (procs s)] \<subseteq> {..<length ps1}" by (auto simp: len)
  note rf = reparent_fields[OF _ ini up, folded ps2_def, unfolded z]
  have f2: "parent (ps2 ! p) = (if parent (procs s ! p) = Some c then initproc s else parent (procs s ! p))"
    "ofile (ps2 ! p) = ofile (ps0 ! p)" "cwd (ps2 ! p) = cwd (ps0 ! p)"
    "pstate (ps2 ! p) = (if pstate (ps1 ! p) = SLEEPING \<and> chan (procs s ! p) = map_option ProcChan (initproc s) \<and>
          (\<exists>i < length (procs s). parent (procs s ! i) = Some c \<and> pstate (procs s ! i) = ZOMBIE)
       then RUNNABLE else pstate (ps1 ! p))" if "p < length (procs s)" for p
    using rf[of p] f1(1,2,4,5)[OF that] that by (simp_all add: len)
  have "pstate (procs s' ! c) = ZOMBIE" using s' c len by simp
  moreover have "\<forall>f \<in> set (ofile (procs s' ! c)). f = None" "cwd (procs s' ! c) = None"
    using s' c len f2[OF c(1)] by (auto simp: p0)
  moreover have "parent (procs s' ! p) = (if parent (procs s ! p) = Some c then initproc s else parent (procs s ! p))"
    if "p < length (procs s)" for p using s' that len f2(1)[OF that] by (cases "p = c") simp_all
  moreover have "pstate (procs s' ! p) = (if pstate (procs s ! p) = SLEEPING \<and>
           (chan (procs s ! p) = map_option ProcChan (parent (procs s ! c)) \<or>
            chan (procs s ! p) = map_option ProcChan (initproc s) \<and>
              (\<exists>i < length (procs s). parent (procs s ! i) = Some c \<and> pstate (procs s ! i) = ZOMBIE))
        then RUNNABLE else pstate (procs s ! p))" if "p < length (procs s)" "p \<noteq> c" for p
    using s' that(2) f2(4)[OF that(1)] unfolding f1(3)[OF that(1)] by simp blast
  ultimately show ?thesis by blast
qed

text \<open>Witness for C5: process 1, a child of \<open>init\<close>, exits while \<open>init\<close> waits.\<close>

definition waiting_state :: "unit kstate" where
  "waiting_state = boot_state\<lparr>procs := [init_proc\<lparr>pstate := SLEEPING, chan := Some (ProcChan 0)\<rparr>,
     init_proc\<lparr>pstate := RUNNING, pid := 2, parent := Some 0, cwd := Some 0\<rparr>]\<rparr>"

theorem exit_hands_over_witness:
  "\<exists>s'. exit_proc unit_env waiting_state 1 = Some s' \<and> pstate (procs s' ! 0) = RUNNABLE \<and> pstate (procs s' ! 1) = ZOMBIE"
proof -
  have nf: "close_files cl (replicate n None) f = Some f" for cl n and f :: unit by (induction n) auto
  obtain s' where s': "exit_proc unit_env waiting_state 1 = Some s'"
    by (simp add: exit_proc_def waiting_state_def boot_at_def unit_env_def init_proc_def unused_proc_def nf)
  show ?thesis using exit_hands_over[OF s'] s'
    by (simp add: waiting_state_def boot_at_def init_proc_def unused_proc_def)
qed

text \<open>
  One pass of \<open>wait\<close>.  It reaps the first zombie child: the result is the child's pid, the
  child's slot is free and anonymous, and no other process changes.  It returns -1 without a change
  when there is no zombie child and either no child at all or the caller was killed.  Otherwise it
  puts the caller to sleep on its own address, the channel \<open>exit\<close> of a child wakes.
\<close>

theorem wait_pass_correct:
  assumes w: "wait_pass e s c = Some (w, s')" and c: "c < length (procs s)"
  shows "case w of
     Reaped n \<Rightarrow> (\<exists>i < length (procs s). parent (procs s ! i) = Some c \<and> pstate (procs s ! i) = ZOMBIE \<and>
        (\<forall>j < i. \<not> (parent (procs s ! j) = Some c \<and> pstate (procs s ! j) = ZOMBIE)) \<and> n = pid (procs s ! i) \<and>
        pstate (procs s' ! i) = UNUSED \<and> pid (procs s' ! i) = 0 \<and> parent (procs s' ! i) = None \<and> \<not> killed (procs s' ! i) \<and>
        (\<forall>j. j \<noteq> i \<longrightarrow> procs s' ! j = procs s ! j))
   | NoChild \<Rightarrow> s' = s \<and> ((\<forall>p \<in> set (procs s). parent p \<noteq> Some c) \<or> killed (procs s ! c)) \<and>
        (\<forall>p \<in> set (procs s). \<not> (parent p = Some c \<and> pstate p = ZOMBIE))
   | Asleep \<Rightarrow> (\<exists>p \<in> set (procs s). parent p = Some c) \<and> (\<forall>p \<in> set (procs s). \<not> (parent p = Some c \<and> pstate p = ZOMBIE)) \<and>
        \<not> killed (procs s ! c) \<and> pstate (procs s' ! c) = SLEEPING \<and> chan (procs s' ! c) = Some (ProcChan c) \<and>
        (\<forall>j. j \<noteq> c \<longrightarrow> procs s' ! j = procs s ! j)"
proof (cases "first_idx (\<lambda>p. parent p = Some c \<and> pstate p = ZOMBIE) (procs s)")
  case None
  hence z: "\<forall>p \<in> set (procs s). \<not> (parent p = Some c \<and> pstate p = ZOMBIE)" by (simp add: first_idx_None)
  show ?thesis
  proof (cases "(\<forall>p \<in> set (procs s). parent p \<noteq> Some c) \<or> killed (procs s ! c)")
    case True
    hence "w = NoChild \<and> s' = s" using w None by (simp add: wait_pass_def)
    thus ?thesis using True z by simp
  next
    case False
    hence "w = Asleep \<and> s' = sleep s c (ProcChan c)" using w None unfolding wait_pass_def if_not_P[OF False] by simp
    moreover have "procs (sleep s c (ProcChan c)) ! j = (if j = c
       then (procs s ! c)\<lparr>chan := Some (ProcChan c), pstate := SLEEPING, pcontext := InSched\<rparr> else procs s ! j)" for j
      using c by (simp add: sleep_def upd_def)
    ultimately show ?thesis using False z by simp
  qed
next
  case (Some i)
  note i = Some[unfolded first_idx_Some]
  obtain m where s': "s' = (upd s i (\<lambda>p. p\<lparr>kstack := 0, pstate := UNUSED, pid := 0, parent := None,
      pname := [], killed := False\<rparr>))\<lparr>km := m\<rparr>" "w = Reaped (pid (procs s ! i))"
    using w Some by (auto simp: wait_pass_def split: option.splits)
  have "procs s' ! j = (if j = i then (procs s ! i)\<lparr>kstack := 0, pstate := UNUSED, pid := 0, parent := None,
      pname := [], killed := False\<rparr> else procs s ! j)" for j
    using i by (simp add: s' upd_def)
  thus ?thesis using i s'(2) by (auto intro!: exI[of _ i])
qed

text \<open>An evaluation: a waiting process with a running child goes to sleep on its own address.\<close>

theorem wait_pass_correct_witness:
  "\<exists>s'. wait_pass unit_env (waiting_state\<lparr>procs := map (\<lambda>p. p\<lparr>pstate := RUNNING\<rparr>) (procs waiting_state)\<rparr>) 0 = Some (Asleep, s') \<and>
     pstate (procs s' ! 0) = SLEEPING \<and> chan (procs s' ! 0) = Some (ProcChan 0)"
proof -
  let ?s = "waiting_state\<lparr>procs := map (\<lambda>p. p\<lparr>pstate := RUNNING\<rparr>) (procs waiting_state)\<rparr>"
  obtain s' where s': "wait_pass unit_env ?s 0 = Some (Asleep, s')"
    by (simp add: wait_pass_def waiting_state_def init_proc_def unused_proc_def)
  have "(0::nat) < length (procs ?s)" by (simp add: waiting_state_def)
  from wait_pass_correct[OF s' this] show ?thesis using s' by simp
qed

subsection \<open>Fork and left-over queue entries\<close>

text \<open>
  \<open>wait\<close> leaves the queues alone, so the slot it frees keeps its queue entry until a scan of the
  scheduler passes over it.  A \<open>fork\<close> that takes such a slot first enters it a second time.
\<close>

lemma wait_keeps_queue_entry: "wait_pass e s c = Some (w, s') \<Longrightarrow> queues s' = queues s"
  by (auto simp: wait_pass_def sleep_def split: option.splits if_splits)

lemma fork_doubles_stale_entry:
  assumes "fork e s c = Some (r, s')" "r \<noteq> -1" "queues_ok (queues s)" "free_slot s = Some i"
    "slot (queues s) i k j" "None \<in> set (queues s ! 0)"
  shows "\<exists>j'. slot (queues s') i k j \<and> slot (queues s') i 0 j' \<and> (k, j) \<noteq> (0, j')"
proof -
  have q: "queues s' = q_put (queues s) 0 i" using fork_effect[OF assms(1)] assms(2,4) by auto
  obtain x where x: "first_idx (\<lambda>y. y = None) (queues s ! 0) = Some x"
    using first_idx_exists[OF assms(6), of "\<lambda>y. y = None"] by auto
  hence x': "x < NPROC" "queues s ! 0 ! x = None"
    using queues_ok_len[OF assms(3), of 0] by (auto dest: first_idx_SomeD)
  have s': "queues s' = (queues s)[0 := (queues s ! 0)[x := Some i]]"
    using q x by (simp add: q_put_def put_queue_def)
  have ne: "(k, j) \<noteq> (0, x)" using assms(5) x'(2) by (auto simp: slot_def)
  have su: "slot (queues s') p' k' i' = (if k' = 0 \<and> i' = x then Some i = Some p' else slot (queues s) p' k' i')" for p' k' i'
    unfolding s' by (rule slot_upd[OF assms(3) _ x'(1)]) simp
  show ?thesis using ne assms(5) by (intro exI[of _ x]) (simp add: su)
qed

text \<open>
  A killed flag can outlive its process: \<open>kill 0\<close> finds a free slot, whose pid is 0, marks it, and
  \<open>allocproc\<close> does not reset the mark.
\<close>

lemma kill_zero_marks_free_slot:
  "kill boot_state 0 = (0, upd boot_state 1 (\<lambda>p. p\<lparr>killed := True\<rparr>)) \<and>
   pstate (procs (snd (kill boot_state 0)) ! 1) = UNUSED \<and> killed (procs (snd (kill boot_state 0)) ! 1)"
  by (simp add: kill_def boot_at_def init_proc_def unused_proc_def upd_def numeral_eq_Suc)

subsection \<open>Process statistics\<close>

lemma getpinfo_loop_nth:
  assumes "idx + length ps \<le> length (st_inuse a)" "length (st_pid a) = length (st_inuse a)"
    "length (st_state a) = length (st_inuse a)" "length (st_priority a) = length (st_inuse a)"
    "length (st_ticks a) = length (st_inuse a)"
  shows "let b = getpinfo_loop ps idx a in
    (\<forall>i < length (st_inuse a). i < idx \<longrightarrow> st_inuse b ! i = st_inuse a ! i \<and> st_pid b ! i = st_pid a ! i \<and>
      st_state b ! i = st_state a ! i \<and> st_priority b ! i = st_priority a ! i \<and> st_ticks b ! i = st_ticks a ! i) \<and>
    (\<forall>i < length ps. st_inuse b ! (idx + i) = (if pstate (ps ! i) = UNUSED then 0 else 1) \<and>
      (pstate (ps ! i) \<noteq> UNUSED \<longrightarrow> st_pid b ! (idx + i) = pid (ps ! i) \<and> st_state b ! (idx + i) = pstate (ps ! i) \<and>
         st_priority b ! (idx + i) = priority (ps ! i) \<and> st_ticks b ! (idx + i) = accumulatedTicks (ps ! i)))"
  using assms
proof (induction ps idx a rule: getpinfo_loop.induct)
  case (2 p ps idx a)
  let ?a = "if pstate p = UNUSED then a\<lparr>st_inuse := (st_inuse a)[idx := 0]\<rparr>
        else a\<lparr>st_inuse := (st_inuse a)[idx := 1], st_pid := (st_pid a)[idx := pid p],
               st_state := (st_state a)[idx := pstate p], st_priority := (st_priority a)[idx := priority p],
               st_ticks := (st_ticks a)[idx := accumulatedTicks p]\<rparr>"
  have len: "length (st_inuse ?a) = length (st_inuse a)" by simp
  have IH: "let b = getpinfo_loop ps (Suc idx) ?a in
    (\<forall>i < length (st_inuse a). i < Suc idx \<longrightarrow> st_inuse b ! i = st_inuse ?a ! i \<and> st_pid b ! i = st_pid ?a ! i \<and>
      st_state b ! i = st_state ?a ! i \<and> st_priority b ! i = st_priority ?a ! i \<and> st_ticks b ! i = st_ticks ?a ! i) \<and>
    (\<forall>i < length ps. st_inuse b ! (Suc idx + i) = (if pstate (ps ! i) = UNUSED then 0 else 1) \<and>
      (pstate (ps ! i) \<noteq> UNUSED \<longrightarrow> st_pid b ! (Suc idx + i) = pid (ps ! i) \<and> st_state b ! (Suc idx + i) = pstate (ps ! i) \<and>
         st_priority b ! (Suc idx + i) = priority (ps ! i) \<and> st_ticks b ! (Suc idx + i) = accumulatedTicks (ps ! i)))"
    using "2.IH" "2.prems" unfolding len by simp
  define b where "b = getpinfo_loop ps (Suc idx) ?a"
  have b: "getpinfo_loop (p # ps) idx a = b" by (simp add: b_def)
  note IH = IH[folded b_def, unfolded Let_def]
  have idx: "idx < length (st_inuse a)" using "2.prems" by simp
  show ?case unfolding b Let_def
  proof (intro conjI allI impI; (elim conjE)?)
    fix i assume i: "i < length (p # ps)"
    note j = IH[THEN conjunct2, rule_format, of "i - 1"] and z = IH[THEN conjunct1, rule_format, OF idx lessI]
    show "st_inuse b ! (idx + i) = (if pstate ((p # ps) ! i) = UNUSED then 0 else 1)"
      using i j z idx by (cases i) simp_all
    show "pstate ((p # ps) ! i) \<noteq> UNUSED \<Longrightarrow> st_pid b ! (idx + i) = pid ((p # ps) ! i)"
      "pstate ((p # ps) ! i) \<noteq> UNUSED \<Longrightarrow> st_state b ! (idx + i) = pstate ((p # ps) ! i)"
      "pstate ((p # ps) ! i) \<noteq> UNUSED \<Longrightarrow> st_priority b ! (idx + i) = priority ((p # ps) ! i)"
      "pstate ((p # ps) ! i) \<noteq> UNUSED \<Longrightarrow> st_ticks b ! (idx + i) = accumulatedTicks ((p # ps) ! i)"
      using i j z idx "2.prems" by (cases i; simp)+
  next
    fix i assume i: "i < length (st_inuse a)" "i < idx"
    note z = IH[THEN conjunct1, rule_format, OF i(1) less_SucI[OF i(2)]]
    show "st_inuse b ! i = st_inuse a ! i" "st_pid b ! i = st_pid a ! i" "st_state b ! i = st_state a ! i"
      "st_priority b ! i = st_priority a ! i" "st_ticks b ! i = st_ticks a ! i" using z i(2) by simp_all
  qed
qed (simp add: Let_def)

text \<open>
  \<open>getpinfo\<close> reports, for every slot of the process table, whether it is in use and, if so, the
  pid, state, priority and accumulated ticks of its process.
\<close>

theorem getpinfo_reports:
  assumes "length (procs s) = NPROC" "\<forall>l \<in> {length (st_inuse a), length (st_pid a), length (st_state a), length (st_priority a), length (st_ticks a)}. l = NPROC"
  shows "fst (getpinfo s a) = 0 \<and> (let b = snd (getpinfo s a) in \<forall>i < NPROC.
     st_inuse b ! i = (if pstate (procs s ! i) = UNUSED then 0 else 1) \<and>
      (pstate (procs s ! i) \<noteq> UNUSED \<longrightarrow> st_pid b ! i = pid (procs s ! i) \<and> st_state b ! i = pstate (procs s ! i) \<and>
         st_priority b ! i = priority (procs s ! i) \<and> st_ticks b ! i = accumulatedTicks (procs s ! i)))"
  using getpinfo_loop_nth[of 0 "procs s" a] assms by (simp add: getpinfo_def Let_def)

text \<open>An evaluation: the table of the boot state.\<close>

theorem getpinfo_reports_witness:
  "let a = \<lparr>st_inuse = replicate 64 7, st_pid = replicate 64 7, st_priority = replicate 64 7,
      st_state = replicate 64 ZOMBIE, st_ticks = replicate 64 [7, 7, 7, 7]\<rparr>; b = snd (getpinfo boot_state a)
   in st_inuse b ! 0 = 1 \<and> st_pid b ! 0 = 1 \<and> st_state b ! 0 = RUNNABLE \<and> st_inuse b ! 5 = 0"
proof -
  let ?a = "\<lparr>st_inuse = replicate 64 7, st_pid = replicate 64 7, st_priority = replicate 64 7,
      st_state = replicate 64 ZOMBIE, st_ticks = replicate 64 [7, 7, 7, 7]\<rparr>"
  have 1: "length (procs boot_state) = NPROC" by (simp add: boot_at_def)
  have p: "procs boot_state ! 0 = init_proc" "procs boot_state ! 5 = unused_proc"
    by (simp_all add: boot_at_def init_proc_def unused_proc_def)
  from getpinfo_reports[OF 1, of ?a] have r: "\<forall>i < NPROC.
     st_inuse (snd (getpinfo boot_state ?a)) ! i = (if pstate (procs boot_state ! i) = UNUSED then 0 else 1) \<and>
      (pstate (procs boot_state ! i) \<noteq> UNUSED \<longrightarrow> st_pid (snd (getpinfo boot_state ?a)) ! i = pid (procs boot_state ! i) \<and>
        st_state (snd (getpinfo boot_state ?a)) ! i = pstate (procs boot_state ! i))" by (simp add: Let_def)
  show ?thesis unfolding Let_def using r[rule_format, of 0] r[rule_format, of 5] p
    by (simp add: init_proc_def unused_proc_def)
qed

end
