(* ===== verification/Fs.thy ===== *)
theory Fs
  imports Prelude
begin

text \<open>
  The checksummed file system (\<^verbatim>\<open>Project5b/xv6/kernel/fs.c\<close>, \<^verbatim>\<open>include/fs.h\<close>,
  \<^verbatim>\<open>include/stat.h\<close>, \<^verbatim>\<open>kernel/file.h\<close>).  A disk maps block numbers to blocks of 512 bytes
  (functions from offsets below \<open>BSIZE\<close>); \<open>bread\<close> and \<open>bwrite\<close> act on it directly, since the
  buffer cache is transparent to a sequence of calls.  An inode pointer is the index of its
  entry in the inode cache.  \<open>None\<close> means that the call does not return: a \<open>panic\<close>, or the wait
  of \<open>ilock\<close> for an inode that is busy.  Data that the code copies through a pointer argument
  (\<open>dst\<close>, \<open>src\<close>, \<open>name\<close>) is passed as a list of bytes; path names are lists without the final NUL.
\<close>

subsection \<open>Layout of the disk\<close>

type_synonym block = "nat \<Rightarrow> u8"

abbreviation BSIZE :: nat where "BSIZE \<equiv> 512"
abbreviation NDIRECT :: nat where "NDIRECT \<equiv> 12"
abbreviation NINDIRECT :: nat where "NINDIRECT \<equiv> 128"
abbreviation MAXFILE :: nat where "MAXFILE \<equiv> 140"
abbreviation IPB :: nat where "IPB \<equiv> 8"
abbreviation BPB :: nat where "BPB \<equiv> 4096"
abbreviation DIRSIZ :: nat where "DIRSIZ \<equiv> 14"
abbreviation NINODE :: nat where "NINODE \<equiv> 50"
abbreviation NDEV :: nat where "NDEV \<equiv> 10"

abbreviation T_DIR :: u16 where "T_DIR \<equiv> 1"
abbreviation T_FILE :: u16 where "T_FILE \<equiv> 2"
abbreviation T_DEV :: u16 where "T_DEV \<equiv> 3"
abbreviation T_CHECKED :: u16 where "T_CHECKED \<equiv> 4"

definition IBLOCK :: "u32 \<Rightarrow> u32" where
  "IBLOCK i = i div 8 + 2"

definition BBLOCK :: "u32 \<Rightarrow> u32 \<Rightarrow> u32" where
  "BBLOCK b ninodes = b div 4096 + ninodes div 8 + 3"

definition CH_MASK :: u32 where
  "CH_MASK = 0xFF000000"

definition CH_GET_CHECKSUM :: "u32 \<Rightarrow> u8" where
  "CH_GET_CHECKSUM addr = ucast (drop_bit 24 (addr AND CH_MASK))"

definition CH_SET_CHECKSUM :: "u32 \<Rightarrow> u8 \<Rightarrow> u32" where
  "CH_SET_CHECKSUM addr val = (addr AND NOT CH_MASK) OR push_bit 24 (ucast val AND 0xFF)"

definition CH_GET_ADDR :: "u32 \<Rightarrow> u32" where
  "CH_GET_ADDR addr = addr AND NOT CH_MASK"

text \<open>Little-endian fields of a block.\<close>

definition rd16 :: "block \<Rightarrow> nat \<Rightarrow> u16" where
  "rd16 d o' = (ucast (d o') :: u16) OR push_bit 8 (ucast (d (o' + 1)))"

definition wr16 :: "block \<Rightarrow> nat \<Rightarrow> u16 \<Rightarrow> block" where
  "wr16 d o' v = d(o' := ucast v, o' + 1 := ucast (drop_bit 8 v))"

definition rd32 :: "block \<Rightarrow> nat \<Rightarrow> u32" where
  "rd32 d o' = le32 (d o') (d (o' + 1)) (d (o' + 2)) (d (o' + 3))"

definition wr32 :: "block \<Rightarrow> nat \<Rightarrow> u32 \<Rightarrow> block" where
  "wr32 d o' v = d(o' := byte_of v 0, o' + 1 := byte_of v 1, o' + 2 := byte_of v 2, o' + 3 := byte_of v 3)"

text \<open>A copy of bytes into a block (\<open>memmove\<close> to \<open>bp->data + o\<close>) and out of it.\<close>

definition put_bytes :: "block \<Rightarrow> nat \<Rightarrow> u8 list \<Rightarrow> block" where
  "put_bytes d o' xs = (\<lambda>i. if o' \<le> i \<and> i < o' + length xs then xs ! (i - o') else d i)"

definition get_bytes :: "block \<Rightarrow> nat \<Rightarrow> nat \<Rightarrow> u8 list" where
  "get_bytes d o' n = map (\<lambda>k. d (o' + k)) [0..<n]"

record superblock =
  sb_size :: u32
  sb_nblocks :: u32
  sb_ninodes :: u32

record dinode =
  d_type :: u16
  d_major :: u16
  d_minor :: u16
  d_nlink :: u16
  d_size :: u32
  d_addrs :: "u32 list"

record inode =
  idev :: u32
  inum :: u32
  iref :: int
  ibusy :: bool
  ivalid :: bool
  itype :: u16
  imajor :: u16
  iminor :: u16
  inlink :: u16
  isize :: u32
  addrs :: "u32 list"

record fsst =
  disk :: "u32 \<Rightarrow> u32 \<Rightarrow> block"
  icache :: "inode list"

record devsw =
  dread :: "nat \<Rightarrow> (u32 \<Rightarrow> int \<times> u8 list) option"
  dwrite :: "nat \<Rightarrow> (u8 list \<Rightarrow> int) option"

definition bread :: "fsst \<Rightarrow> u32 \<Rightarrow> u32 \<Rightarrow> block" where
  "bread s dev b = disk s dev b"

definition bwrite :: "fsst \<Rightarrow> u32 \<Rightarrow> u32 \<Rightarrow> block \<Rightarrow> fsst" where
  "bwrite s dev b d = s\<lparr>disk := (disk s)(dev := (disk s dev)(b := d))\<rparr>"

definition iupd :: "fsst \<Rightarrow> nat \<Rightarrow> (inode \<Rightarrow> inode) \<Rightarrow> fsst" where
  "iupd s i f = s\<lparr>icache := (icache s)[i := f (icache s ! i)]\<rparr>"

definition rd_dinode :: "block \<Rightarrow> nat \<Rightarrow> dinode" where
  "rd_dinode d o' = \<lparr>d_type = rd16 d o', d_major = rd16 d (o' + 2), d_minor = rd16 d (o' + 4),
     d_nlink = rd16 d (o' + 6), d_size = rd32 d (o' + 8), d_addrs = map (\<lambda>k. rd32 d (o' + 12 + 4 * k)) [0..<13]\<rparr>"

fun wr_addrs :: "block \<Rightarrow> nat \<Rightarrow> u32 list \<Rightarrow> block" where
  "wr_addrs d o' [] = d"
| "wr_addrs d o' (a # as) = wr_addrs (wr32 d o' a) (o' + 4) as"

definition wr_dinode :: "block \<Rightarrow> nat \<Rightarrow> dinode \<Rightarrow> block" where
  "wr_dinode d o' x =
     wr_addrs (wr32 (wr16 (wr16 (wr16 (wr16 d o' (d_type x)) (o' + 2) (d_major x)) (o' + 4) (d_minor x))
       (o' + 6) (d_nlink x)) (o' + 8) (d_size x)) (o' + 12) (d_addrs x)"

subsection \<open>Blocks\<close>

definition readsb :: "fsst \<Rightarrow> u32 \<Rightarrow> superblock" where
  "readsb s dev = (let d = bread s dev 1 in \<lparr>sb_size = rd32 d 0, sb_nblocks = rd32 d 4, sb_ninodes = rd32 d 8\<rparr>)"

definition bzero :: "fsst \<Rightarrow> u32 \<Rightarrow> u32 \<Rightarrow> fsst" where
  "bzero s dev bno = bwrite s dev bno (put_bytes (bread s dev bno) 0 (replicate BSIZE 0))"

definition set_map_bit :: "block \<Rightarrow> nat \<Rightarrow> bool \<Rightarrow> block" where
  "set_map_bit d bi v = d(bi div 8 :=
     (if v then d (bi div 8) OR push_bit (bi mod 8) 1 else d (bi div 8) AND NOT (push_bit (bi mod 8) 1)))"

definition map_bit :: "block \<Rightarrow> nat \<Rightarrow> bool" where
  "map_bit d bi \<longleftrightarrow> d (bi div 8) AND push_bit (bi mod 8) 1 \<noteq> 0"

fun balloc_loop :: "fsst \<Rightarrow> u32 \<Rightarrow> u32 \<Rightarrow> nat list \<Rightarrow> (u32 \<times> fsst) option" where
  "balloc_loop s dev ninodes [] = None"
| "balloc_loop s dev ninodes (b # bs) =
     (let bb = BBLOCK (of_nat b) ninodes; d = bread s dev bb
      in case first_idx (\<lambda>bi. \<not> map_bit d bi) [0..<BPB] of
           None \<Rightarrow> balloc_loop s dev ninodes bs
         | Some bi \<Rightarrow> Some (of_nat (b + bi), bwrite s dev bb (set_map_bit d bi True)))"

definition balloc :: "fsst \<Rightarrow> u32 \<Rightarrow> (u32 \<times> fsst) option" where
  "balloc s dev =
     (let sb = readsb s dev
      in balloc_loop s dev (sb_ninodes sb) (map (\<lambda>k. k * BPB) [0..<(unat (sb_size sb) + BPB - 1) div BPB]))"

definition bfree :: "fsst \<Rightarrow> u32 \<Rightarrow> u32 \<Rightarrow> fsst option" where
  "bfree s dev b =
     (let s1 = bzero s dev b; sb = readsb s1 dev; bb = BBLOCK b (sb_ninodes sb);
          d = bread s1 dev bb; bi = unat b mod BPB
      in if \<not> map_bit d bi then None else Some (bwrite s1 dev bb (set_map_bit d bi False)))"

subsection \<open>Inodes\<close>

definition iget :: "fsst \<Rightarrow> u32 \<Rightarrow> u32 \<Rightarrow> (nat \<times> fsst) option" where
  "iget s dev n =
     (case first_idx (\<lambda>ip. iref ip > 0 \<and> idev ip = dev \<and> inum ip = n) (icache s) of
        Some i \<Rightarrow> Some (i, iupd s i (\<lambda>ip. ip\<lparr>iref := iref ip + 1\<rparr>))
      | None \<Rightarrow>
          (case first_idx (\<lambda>ip. iref ip = 0) (icache s) of
             None \<Rightarrow> None
           | Some i \<Rightarrow> Some (i, iupd s i (\<lambda>ip. ip\<lparr>idev := dev, inum := n, iref := 1, ibusy := False, ivalid := False\<rparr>))))"

definition ialloc :: "fsst \<Rightarrow> u32 \<Rightarrow> u16 \<Rightarrow> (nat \<times> fsst) option" where
  "ialloc s dev ty =
     (case first_idx (\<lambda>k. d_type (rd_dinode (bread s dev (IBLOCK (of_nat k))) (64 * (k mod IPB))) = 0)
             [1..<unat (sb_ninodes (readsb s dev))] of
        None \<Rightarrow> None
      | Some j \<Rightarrow>
          let k = Suc j; d = bread s dev (IBLOCK (of_nat k));
              d1 = wr16 (put_bytes d (64 * (k mod IPB)) (replicate 64 0)) (64 * (k mod IPB)) ty
          in iget (bwrite s dev (IBLOCK (of_nat k)) d1) dev (of_nat k))"

definition iupdate :: "fsst \<Rightarrow> nat \<Rightarrow> fsst" where
  "iupdate s i =
     (let ip = icache s ! i; b = IBLOCK (inum ip)
      in bwrite s (idev ip) b (wr_dinode (bread s (idev ip) b) (64 * (unat (inum ip) mod IPB))
           \<lparr>d_type = itype ip, d_major = imajor ip, d_minor = iminor ip, d_nlink = inlink ip,
            d_size = isize ip, d_addrs = addrs ip\<rparr>))"

definition idup :: "fsst \<Rightarrow> nat \<Rightarrow> fsst" where
  "idup s i = iupd s i (\<lambda>ip. ip\<lparr>iref := iref ip + 1\<rparr>)"

definition ilock :: "fsst \<Rightarrow> nat \<Rightarrow> fsst option" where
  "ilock s i =
     (let ip = icache s ! i
      in if iref ip < 1 then None
         else if ibusy ip then None
         else if ivalid ip then Some (iupd s i (\<lambda>ip. ip\<lparr>ibusy := True\<rparr>))
         else let x = rd_dinode (bread s (idev ip) (IBLOCK (inum ip))) (64 * (unat (inum ip) mod IPB))
              in if d_type x = 0 then None
                 else Some (iupd s i (\<lambda>ip. ip\<lparr>ibusy := True, ivalid := True, itype := d_type x,
                        imajor := d_major x, iminor := d_minor x, inlink := d_nlink x, isize := d_size x,
                        addrs := d_addrs x\<rparr>)))"

definition iunlock :: "fsst \<Rightarrow> nat \<Rightarrow> fsst option" where
  "iunlock s i =
     (if \<not> ibusy (icache s ! i) \<or> iref (icache s ! i) < 1 then None
      else Some (iupd s i (\<lambda>ip. ip\<lparr>ibusy := False\<rparr>)))"

subsection \<open>Inode contents\<close>

definition bmap :: "fsst \<Rightarrow> nat \<Rightarrow> nat \<Rightarrow> (u32 \<times> fsst) option" where
  "bmap s i bn =
     (let ip = icache s ! i
      in if bn < NDIRECT then
           if addrs ip ! bn = 0 then do {
             (a, s1) \<leftarrow> balloc s (idev ip);
             Some (CH_GET_ADDR a, iupd s1 i (\<lambda>ip. ip\<lparr>addrs := (addrs ip)[bn := a]\<rparr>))
           } else Some (CH_GET_ADDR (addrs ip ! bn), s)
         else if bn - NDIRECT < NINDIRECT then do {
           (ind, s1) \<leftarrow> (if addrs ip ! NDIRECT = 0 then do {
                (a, s1) \<leftarrow> balloc s (idev ip);
                Some (a, iupd s1 i (\<lambda>ip. ip\<lparr>addrs := (addrs ip)[NDIRECT := a]\<rparr>))
              } else Some (addrs ip ! NDIRECT, s));
           let d = bread s1 (idev ip) (CH_GET_ADDR ind);
           let a = rd32 d (4 * (bn - NDIRECT));
           (if a = 0 then do {
              (a', s2) \<leftarrow> balloc s1 (idev ip);
              Some (CH_GET_ADDR a', bwrite s2 (idev ip) (CH_GET_ADDR ind) (wr32 d (4 * (bn - NDIRECT)) a'))
            } else Some (CH_GET_ADDR a, s1))
         } else None)"

text \<open>
  The two loops of \<open>itrunc\<close>: the direct addresses are masked, the entries of the indirect block
  are passed to \<open>bfree\<close> as they are.
\<close>

fun itrunc_direct :: "fsst \<Rightarrow> nat \<Rightarrow> nat list \<Rightarrow> fsst option" where
  "itrunc_direct s i [] = Some s"
| "itrunc_direct s i (k # ks) =
     (let a = addrs (icache s ! i) ! k
      in if a = 0 then itrunc_direct s i ks
         else case bfree s (idev (icache s ! i)) (CH_GET_ADDR a) of
                None \<Rightarrow> None
              | Some s1 \<Rightarrow> itrunc_direct (iupd s1 i (\<lambda>ip. ip\<lparr>addrs := (addrs ip)[k := 0]\<rparr>)) i ks)"

fun itrunc_indirect :: "fsst \<Rightarrow> u32 \<Rightarrow> u32 list \<Rightarrow> fsst option" where
  "itrunc_indirect s dev [] = Some s"
| "itrunc_indirect s dev (a # as) =
     (if a = 0 then itrunc_indirect s dev as
      else case bfree s dev a of None \<Rightarrow> None | Some s1 \<Rightarrow> itrunc_indirect s1 dev as)"

definition itrunc :: "fsst \<Rightarrow> nat \<Rightarrow> fsst option" where
  "itrunc s i = do {
     s1 \<leftarrow> itrunc_direct s i [0..<NDIRECT];
     let dev = idev (icache s1 ! i);
     let ind = addrs (icache s1 ! i) ! NDIRECT;
     s3 \<leftarrow> (if ind = 0 then Some s1
        else do {
          s2 \<leftarrow> itrunc_indirect s1 dev (map (\<lambda>j. rd32 (bread s1 dev (CH_GET_ADDR ind)) (4 * j)) [0..<NINDIRECT]);
          s2' \<leftarrow> bfree s2 dev (CH_GET_ADDR ind);
          Some (iupd s2' i (\<lambda>ip. ip\<lparr>addrs := (addrs ip)[NDIRECT := 0]\<rparr>))
        });
     Some (iupdate (iupd s3 i (\<lambda>ip. ip\<lparr>isize := 0\<rparr>)) i)
   }"

definition iput :: "fsst \<Rightarrow> nat \<Rightarrow> fsst option" where
  "iput s i =
     (let ip = icache s ! i
      in if iref ip = 1 \<and> ivalid ip \<and> inlink ip = 0 then
           if ibusy ip then None
           else do {
             s1 \<leftarrow> itrunc (iupd s i (\<lambda>ip. ip\<lparr>ibusy := True\<rparr>)) i;
             let s2 = iupdate (iupd s1 i (\<lambda>ip. ip\<lparr>itype := 0\<rparr>)) i;
             Some (iupd s2 i (\<lambda>ip. ip\<lparr>ibusy := False, ivalid := False, iref := iref ip - 1\<rparr>))
           }
         else Some (iupd s i (\<lambda>ip. ip\<lparr>iref := iref ip - 1\<rparr>)))"

definition iunlockput :: "fsst \<Rightarrow> nat \<Rightarrow> fsst option" where
  "iunlockput s i = do { s1 \<leftarrow> iunlock s i; iput s1 i }"

subsection \<open>Checksums\<close>

fun calculate_checksum_loop :: "u8 \<Rightarrow> u8 list \<Rightarrow> u8" where
  "calculate_checksum_loop result [] = result"
| "calculate_checksum_loop result (x # xs) = calculate_checksum_loop (result XOR x) xs"

definition calculate_checksum :: "u8 list \<Rightarrow> u8" where
  "calculate_checksum xs = calculate_checksum_loop 0 xs"

definition calculate_file_checksum :: "fsst \<Rightarrow> nat \<Rightarrow> u8" where
  "calculate_file_checksum s i =
     (let ip = icache s ! i;
          r = calculate_checksum (map CH_GET_CHECKSUM (take NDIRECT (addrs ip)))
      in if addrs ip ! NDIRECT \<noteq> 0 then
           let d = bread s (idev ip) (CH_GET_ADDR (addrs ip ! NDIRECT))
           in calculate_checksum_loop r (map (\<lambda>k. CH_GET_CHECKSUM (rd32 d (4 * k))) [0..<BSIZE div 4])
         else r)"

record stat =
  st_dev :: u32
  st_ino :: u32
  st_type :: u16
  st_nlink :: u16
  st_size :: u32
  st_checksum :: u8

definition stati :: "fsst \<Rightarrow> nat \<Rightarrow> stat \<Rightarrow> stat" where
  "stati s i st =
     (let ip = icache s ! i
      in st\<lparr>st_dev := idev ip, st_ino := inum ip, st_type := itype ip, st_nlink := inlink ip,
            st_size := isize ip,
            st_checksum := (if itype ip = T_CHECKED then calculate_file_checksum s i else st_checksum st)\<rparr>)"

definition update_checksum :: "fsst \<Rightarrow> nat \<Rightarrow> nat \<Rightarrow> u8 \<Rightarrow> fsst option" where
  "update_checksum s i bn c =
     (let ip = icache s ! i
      in if bn < NDIRECT then Some (iupd s i (\<lambda>ip. ip\<lparr>addrs := (addrs ip)[bn := CH_SET_CHECKSUM (addrs ip ! bn) c]\<rparr>))
         else if bn - NDIRECT < NINDIRECT then
           let b = CH_GET_ADDR (addrs ip ! NDIRECT); d = bread s (idev ip) b; o' = 4 * (bn - NDIRECT)
           in Some (bwrite s (idev ip) b (wr32 d o' (CH_SET_CHECKSUM (rd32 d o') c)))
         else None)"

definition fetch_checksum :: "fsst \<Rightarrow> nat \<Rightarrow> nat \<Rightarrow> u8 option" where
  "fetch_checksum s i bn =
     (let ip = icache s ! i
      in if bn < NDIRECT then Some (CH_GET_CHECKSUM (addrs ip ! bn))
         else if bn - NDIRECT < NINDIRECT then
           Some (CH_GET_CHECKSUM (rd32 (bread s (idev ip) (CH_GET_ADDR (addrs ip ! NDIRECT))) (4 * (bn - NDIRECT))))
         else None)"

subsection \<open>Reading and writing\<close>

text \<open>
  The loops of \<open>readi\<close> and \<open>writei\<close>: \<open>n\<close> bytes remain at offset \<open>off\<close>.  The reading loop returns
  whether every block passed its checksum, and the bytes copied so far.
\<close>

function readi_loop :: "bool \<Rightarrow> fsst \<Rightarrow> nat \<Rightarrow> nat \<Rightarrow> nat \<Rightarrow> u8 list \<Rightarrow> (bool \<times> u8 list \<times> fsst) option" where
  "readi_loop chk s i off n acc =
     (if n = 0 then Some (True, acc, s)
      else case bmap s i (off div BSIZE) of
             None \<Rightarrow> None
           | Some (b, s1) \<Rightarrow>
               let d = bread s1 (idev (icache s1 ! i)) b; m = min n (BSIZE - off mod BSIZE)
               in case (if chk then fetch_checksum s1 i (off div BSIZE) else Some 0) of
                    None \<Rightarrow> None
                  | Some c \<Rightarrow>
                      if chk \<and> calculate_checksum (get_bytes d 0 BSIZE) \<noteq> c then Some (False, acc, s1)
                      else readi_loop chk s1 i (off + m) (n - m) (acc @ get_bytes d (off mod BSIZE) m))"
  by pat_completeness auto
termination
  by (relation "measure (\<lambda>(chk, s, i, off, n, acc). n)") auto

definition readi :: "devsw \<Rightarrow> fsst \<Rightarrow> nat \<Rightarrow> u32 \<Rightarrow> u32 \<Rightarrow> (int \<times> u8 list \<times> fsst) option" where
  "readi dv s i off n0 =
     (let ip = icache s ! i
      in if itype ip = T_DEV then
           if sint (imajor ip) < 0 \<or> sint (imajor ip) \<ge> int NDEV then Some (-1, [], s)
           else (case dread dv (unat (imajor ip)) of
                   None \<Rightarrow> Some (-1, [], s)
                 | Some f \<Rightarrow> (case f n0 of (r, xs) \<Rightarrow> Some (r, xs, s)))
         else if off > isize ip \<or> off + n0 < off then Some (-1, [], s)
         else let n = (if off + n0 > isize ip then isize ip - off else n0)
              in case readi_loop (itype ip = T_CHECKED) s i (unat off) (unat n) [] of
                   None \<Rightarrow> None
                 | Some (ok, xs, s1) \<Rightarrow> Some (if ok then uint n else -1, xs, s1))"

function writei_loop :: "bool \<Rightarrow> fsst \<Rightarrow> nat \<Rightarrow> nat \<Rightarrow> u8 list \<Rightarrow> fsst option" where
  "writei_loop chk s i off src =
     (if src = [] then Some s
      else case bmap s i (off div BSIZE) of
             None \<Rightarrow> None
           | Some (b, s1) \<Rightarrow>
               let m = min (length src) (BSIZE - off mod BSIZE);
                   d = put_bytes (bread s1 (idev (icache s1 ! i)) b) (off mod BSIZE) (take m src)
               in case (if chk then update_checksum s1 i (off div BSIZE) (calculate_checksum (get_bytes d 0 BSIZE)) else Some s1) of
                    None \<Rightarrow> None
                  | Some s2 \<Rightarrow> writei_loop chk (bwrite s2 (idev (icache s2 ! i)) b d) i (off + m) (drop m src))"
  by pat_completeness auto
termination
  by (relation "measure (\<lambda>(chk, s, i, off, src). length src)") (auto simp: min_def)

text \<open>\<open>src\<close> holds at least the \<open>n\<close> bytes to write.\<close>

definition writei :: "devsw \<Rightarrow> fsst \<Rightarrow> nat \<Rightarrow> u8 list \<Rightarrow> u32 \<Rightarrow> u32 \<Rightarrow> (int \<times> fsst) option" where
  "writei dv s i src off n0 =
     (let ip = icache s ! i
      in if itype ip = T_DEV then
           if sint (imajor ip) < 0 \<or> sint (imajor ip) \<ge> int NDEV then Some (-1, s)
           else (case dwrite dv (unat (imajor ip)) of
                   None \<Rightarrow> Some (-1, s)
                 | Some f \<Rightarrow> Some (f (take (unat n0) src), s))
         else if off > isize ip \<or> off + n0 < off then Some (-1, s)
         else let n = (if off + n0 > of_nat (MAXFILE * BSIZE) then of_nat (MAXFILE * BSIZE) - off else n0)
              in case writei_loop (itype ip = T_CHECKED) s i (unat off) (take (unat n) src) of
                   None \<Rightarrow> None
                 | Some s1 \<Rightarrow>
                     let off' = off + n
                     in if itype ip = T_CHECKED \<and> n > 0 \<or> n > 0 \<and> off' > isize (icache s1 ! i)
                        then Some (uint n, iupdate (iupd s1 i (\<lambda>ip. ip\<lparr>isize := off'\<rparr>)) i)
                        else Some (uint n, s1))"

subsection \<open>Directories\<close>

definition chr_at :: "u8 list \<Rightarrow> u8" where
  "chr_at xs = (case xs of [] \<Rightarrow> 0 | x # _ \<Rightarrow> x)"

text \<open>\<open>strncmp\<close> on strings that are given without their final NUL.\<close>

fun strncmp_list :: "nat \<Rightarrow> u8 list \<Rightarrow> u8 list \<Rightarrow> int" where
  "strncmp_list 0 p q = 0"
| "strncmp_list (Suc n) p q =
     (if chr_at p \<noteq> 0 \<and> chr_at p = chr_at q then strncmp_list n (tl p) (tl q) else uint (chr_at p) - uint (chr_at q))"

definition namecmp :: "u8 list \<Rightarrow> u8 list \<Rightarrow> int" where
  "namecmp p q = strncmp_list DIRSIZ p q"

record dirent =
  de_inum :: u16
  de_name :: "u8 list"

definition rd_dirent :: "block \<Rightarrow> nat \<Rightarrow> dirent" where
  "rd_dirent d o' = \<lparr>de_inum = rd16 d o', de_name = get_bytes d (o' + 2) DIRSIZ\<rparr>"

definition dirent_bytes :: "dirent \<Rightarrow> u8 list" where
  "dirent_bytes de = [ucast (de_inum de), ucast (drop_bit 8 (de_inum de))] @ de_name de"

definition dirent_of :: "u8 list \<Rightarrow> dirent" where
  "dirent_of xs = rd_dirent (\<lambda>k. xs ! k) 0"

definition strncpy_list :: "u8 list \<Rightarrow> nat \<Rightarrow> u8 list" where
  "strncpy_list t n = take n t @ replicate (n - length t) 0"

fun dirlookup_loop :: "fsst \<Rightarrow> nat \<Rightarrow> u8 list \<Rightarrow> nat list \<Rightarrow> ((nat \<times> nat) option \<times> fsst) option" where
  "dirlookup_loop s dp nm [] = Some (None, s)"
| "dirlookup_loop s dp nm (off # offs) =
     (case bmap s dp (off div BSIZE) of
        None \<Rightarrow> None
      | Some (b, s1) \<Rightarrow>
          let d = bread s1 (idev (icache s1 ! dp)) b
          in case first_idx (\<lambda>k. de_inum (rd_dirent d (16 * k)) \<noteq> 0 \<and> namecmp nm (de_name (rd_dirent d (16 * k))) = 0) [0..<32] of
               None \<Rightarrow> dirlookup_loop s1 dp nm offs
             | Some k \<Rightarrow>
                 (case iget s1 (idev (icache s1 ! dp)) (ucast (de_inum (rd_dirent d (16 * k)))) of
                    None \<Rightarrow> None
                  | Some (ip, s2) \<Rightarrow> Some (Some (ip, off + 16 * k), s2)))"

text \<open>The inode found and the offset of its entry, which the caller may ask for by \<open>poff\<close>.\<close>

definition dirlookup :: "fsst \<Rightarrow> nat \<Rightarrow> u8 list \<Rightarrow> ((nat \<times> nat) option \<times> fsst) option" where
  "dirlookup s dp nm =
     (if itype (icache s ! dp) \<noteq> T_DIR then None
      else dirlookup_loop s dp nm (map (\<lambda>k. k * BSIZE) [0..<(unat (isize (icache s ! dp)) + BSIZE - 1) div BSIZE]))"

fun dirlink_scan :: "devsw \<Rightarrow> fsst \<Rightarrow> nat \<Rightarrow> nat list \<Rightarrow> nat \<Rightarrow> (nat \<times> fsst) option" where
  "dirlink_scan dv s dp [] off_end = Some (off_end, s)"
| "dirlink_scan dv s dp (off # offs) off_end =
     (case readi dv s dp (of_nat off) 16 of
        None \<Rightarrow> None
      | Some (r, xs, s1) \<Rightarrow>
          if r \<noteq> 16 then None
          else if de_inum (dirent_of xs) = 0 then Some (off, s1)
          else dirlink_scan dv s1 dp offs off_end)"

definition dirlink :: "devsw \<Rightarrow> fsst \<Rightarrow> nat \<Rightarrow> u8 list \<Rightarrow> u32 \<Rightarrow> (int \<times> fsst) option" where
  "dirlink dv s dp nm n =
     (case dirlookup s dp nm of
        None \<Rightarrow> None
      | Some (Some (ip, off), s1) \<Rightarrow> map_option (Pair (-1)) (iput s1 ip)
      | Some (None, s1) \<Rightarrow>
          let sz = unat (isize (icache s1 ! dp)); cnt = (sz + 15) div 16
          in case dirlink_scan dv s1 dp (map (\<lambda>k. 16 * k) [0..<cnt]) (16 * cnt) of
               None \<Rightarrow> None
             | Some (off, s2) \<Rightarrow>
                 (case writei dv s2 dp (dirent_bytes \<lparr>de_inum = ucast n, de_name = strncpy_list nm DIRSIZ\<rparr>) (of_nat off) 16 of
                    None \<Rightarrow> None
                  | Some (r, s3) \<Rightarrow> if r \<noteq> 16 then None else Some (0, s3)))"

subsection \<open>Paths\<close>

abbreviation slash :: u8 where "slash \<equiv> 47"

text \<open>\<open>None\<close> is the NULL result; otherwise the rest of the path and the element (cut to \<open>DIRSIZ\<close> bytes).\<close>

definition skipelem :: "u8 list \<Rightarrow> (u8 list \<times> u8 list) option" where
  "skipelem path =
     (let p = dropWhile (\<lambda>c. c = slash) path
      in if p = [] then None
         else Some (dropWhile (\<lambda>c. c = slash) (dropWhile (\<lambda>c. c \<noteq> slash) p), take DIRSIZ (takeWhile (\<lambda>c. c \<noteq> slash) p)))"

lemma skipelem_shorter: "skipelem path = Some (rest, nm) \<Longrightarrow> length rest < length path"
proof -
  assume a: "skipelem path = Some (rest, nm)"
  let ?p = "dropWhile (\<lambda>c. c = slash) path"
  have p: "?p \<noteq> []" and r: "rest = dropWhile (\<lambda>c. c = slash) (dropWhile (\<lambda>c. c \<noteq> slash) ?p)"
    using a by (auto simp: skipelem_def Let_def split: if_splits)
  obtain x xs where x: "?p = x # xs" using p by (cases ?p) auto
  have "x \<noteq> slash" using hd_dropWhile[of "\<lambda>c. c = slash" path] p x by auto
  hence "length (dropWhile (\<lambda>c. c \<noteq> slash) ?p) \<le> length xs" using x by (simp add: length_dropWhile_le)
  moreover have "length rest \<le> length (dropWhile (\<lambda>c. c \<noteq> slash) ?p)" unfolding r by (rule length_dropWhile_le)
  moreover have "length ?p \<le> length path" by (rule length_dropWhile_le)
  ultimately show ?thesis using x by simp
qed

function namex_loop :: "fsst \<Rightarrow> nat \<Rightarrow> u8 list \<Rightarrow> bool \<Rightarrow> u8 list \<Rightarrow> (nat option \<times> u8 list \<times> fsst) option" where
  "namex_loop s ip path par nm =
     (case skipelem path of
        None \<Rightarrow> if par then map_option (\<lambda>s1. (None, nm, s1)) (iput s ip) else Some (Some ip, nm, s)
      | Some (rest, el) \<Rightarrow>
          (case ilock s ip of
             None \<Rightarrow> None
           | Some s1 \<Rightarrow>
               if itype (icache s1 ! ip) \<noteq> T_DIR then map_option (\<lambda>s2. (None, el, s2)) (iunlockput s1 ip)
               else if par \<and> rest = [] then map_option (\<lambda>s2. (Some ip, el, s2)) (iunlock s1 ip)
               else case dirlookup s1 ip el of
                      None \<Rightarrow> None
                    | Some (None, s2) \<Rightarrow> map_option (\<lambda>s3. (None, el, s3)) (iunlockput s2 ip)
                    | Some (Some (nxt, off), s2) \<Rightarrow>
                        (case iunlockput s2 ip of
                           None \<Rightarrow> None
                         | Some s3 \<Rightarrow> namex_loop s3 nxt rest par el)))"
  by pat_completeness auto
termination
  by (relation "measure (\<lambda>(s, ip, path, par, nm). length path)") (auto dest: skipelem_shorter)

declare readi_loop.simps [simp del] writei_loop.simps [simp del] namex_loop.simps [simp del]

definition namex :: "fsst \<Rightarrow> nat \<Rightarrow> u8 list \<Rightarrow> bool \<Rightarrow> (nat option \<times> u8 list \<times> fsst) option" where
  "namex s cwd path par =
     (if chr_at path = slash then
        (case iget s 1 1 of None \<Rightarrow> None | Some (ip, s1) \<Rightarrow> namex_loop s1 ip path par [])
      else namex_loop (idup s cwd) cwd path par [])"

definition namei :: "fsst \<Rightarrow> nat \<Rightarrow> u8 list \<Rightarrow> (nat option \<times> fsst) option" where
  "namei s cwd path = map_option (\<lambda>(r, nm, s1). (r, s1)) (namex s cwd path False)"

definition nameiparent :: "fsst \<Rightarrow> nat \<Rightarrow> u8 list \<Rightarrow> (nat option \<times> u8 list \<times> fsst) option" where
  "nameiparent s cwd path = namex s cwd path True"

end
