(* ===== verification/FsBlocks.thy ===== *)
theory FsBlocks
  imports Fs
begin

text \<open>
  The block layer of \<^verbatim>\<open>Project5b/xv6/kernel/fs.c\<close>: the allocation bitmap refines a set of blocks in
  use (the locale \<open>block_store\<close>), on-disk inodes survive encoding and decoding, and the checksum
  bits of a block pointer are independent of its address bits.
\<close>

subsection \<open>Fields of a block\<close>

named_theorems blk_simps \<open>fields of a block after writes\<close>

lemma rd32_wr32 [simp, blk_simps]: "rd32 (wr32 d o' v) o' = v"
  by (simp add: rd32_def wr32_def)

lemma rd32_wr32_other [blk_simps]: "o1 + 4 \<le> o2 \<or> o2 + 4 \<le> o1 \<Longrightarrow> rd32 (wr32 d o1 v) o2 = rd32 d o2"
  by (auto simp: rd32_def wr32_def)

lemma rd16_wr16 [simp, blk_simps]: "rd16 (wr16 d o' v) o' = v"
proof (rule bit_word_eqI)
  fix n assume "n < LENGTH(16)"
  thus "bit (rd16 (wr16 d o' v) o') n = bit v n"
    by (auto simp: rd16_def wr16_def bit_simps)
qed

lemma rd16_wr16_other [blk_simps]: "o1 + 2 \<le> o2 \<or> o2 + 2 \<le> o1 \<Longrightarrow> rd16 (wr16 d o1 v) o2 = rd16 d o2"
  by (auto simp: rd16_def wr16_def)

lemma rd16_wr32_other [blk_simps]: "o1 + 4 \<le> o2 \<or> o2 + 2 \<le> o1 \<Longrightarrow> rd16 (wr32 d o1 v) o2 = rd16 d o2"
  by (auto simp: rd16_def wr32_def)

lemma wr_addrs_outside: "k < o' \<or> o' + 4 * length as \<le> k \<Longrightarrow> wr_addrs d o' as k = d k"
  by (induction as arbitrary: d o') (auto simp: wr32_def)

lemma wr16_outside: "k < o' \<or> o' + 2 \<le> k \<Longrightarrow> wr16 d o' v k = d k"
  by (auto simp: wr16_def)

lemma wr32_outside: "k < o' \<or> o' + 4 \<le> k \<Longrightarrow> wr32 d o' v k = d k"
  by (auto simp: wr32_def)

lemma rd32_cong: "(\<And>k. o' \<le> k \<Longrightarrow> k < o' + 4 \<Longrightarrow> d k = d' k) \<Longrightarrow> rd32 d o' = rd32 d' o'"
  by (simp add: rd32_def)

lemma rd16_cong: "(\<And>k. o' \<le> k \<Longrightarrow> k < o' + 2 \<Longrightarrow> d k = d' k) \<Longrightarrow> rd16 d o' = rd16 d' o'"
  by (simp add: rd16_def)

lemma rd32_wr_addrs: "k < length as \<Longrightarrow> rd32 (wr_addrs d o' as) (o' + 4 * k) = as ! k"
proof (induction as arbitrary: d o' k)
  case (Cons a as)
  show ?case
  proof (cases k)
    case 0
    have "rd32 (wr_addrs (wr32 d o' a) (o' + 4) as) o' = rd32 (wr32 d o' a) o'"
      by (rule rd32_cong) (simp add: wr_addrs_outside)
    thus ?thesis using 0 by simp
  next
    case (Suc j)
    thus ?thesis using Cons.IH[of j "wr32 d o' a" "o' + 4"] Cons.prems by (simp add: add.assoc)
  qed
qed simp

lemma rd16_wr_addrs: "o2 + 2 \<le> o' \<Longrightarrow> rd16 (wr_addrs d o' as) o2 = rd16 d o2"
  by (rule rd16_cong) (simp add: wr_addrs_outside)

lemma rd32_wr_addrs_below: "o2 + 4 \<le> o' \<Longrightarrow> rd32 (wr_addrs d o' as) o2 = rd32 d o2"
  by (rule rd32_cong) (simp add: wr_addrs_outside)

lemma rd_wr_dinode:
  assumes "length (d_addrs x) = 13"
  shows "rd_dinode (wr_dinode d o' x) o' = x"
proof -
  have "map (\<lambda>k. rd32 (wr_dinode d o' x) (o' + 12 + 4 * k)) [0..<13] = d_addrs x"
    using assms rd32_wr_addrs[of _ "d_addrs x" _ "o' + 12"] by (intro nth_equalityI) (auto simp: wr_dinode_def)
  thus ?thesis
    by (simp add: rd_dinode_def) (simp add: wr_dinode_def rd16_wr_addrs rd32_wr_addrs_below rd16_wr32_other rd16_wr16_other)
qed

lemma wr_dinode_outside:
  assumes "length (d_addrs x) = 13" "k < o' \<or> o' + 64 \<le> k"
  shows "wr_dinode d o' x k = d k"
  using assms by (auto simp: wr_dinode_def wr_addrs_outside wr16_outside wr32_outside)

subsection \<open>Checksum bits of a block pointer\<close>

lemma bit_CH_MASK: "bit CH_MASK n \<longleftrightarrow> 24 \<le> n \<and> n < 32"
proof -
  have e: "CH_MASK = push_bit 24 (mask 8)" by (simp add: CH_MASK_def mask_eq_exp_minus_1)
  show ?thesis unfolding e by (auto simp: bit_simps)
qed

lemma low_byte [simp]: "(ucast (c :: u8) :: u32) AND 255 = ucast c"
proof -
  have e: "(255 :: u32) = mask 8" by (simp add: mask_eq_exp_minus_1)
  show ?thesis unfolding e by (intro bit_word_eqI) (auto simp: bit_simps dest: bit_imp_le_length)
qed

lemma CH_get_set [simp]: "CH_GET_CHECKSUM (CH_SET_CHECKSUM a c) = c"
  by (rule bit_word_eqI) (auto simp: CH_GET_CHECKSUM_def CH_SET_CHECKSUM_def bit_simps bit_CH_MASK)

lemma CH_addr_set [simp]: "CH_GET_ADDR (CH_SET_CHECKSUM a c) = CH_GET_ADDR a"
  by (rule bit_word_eqI) (auto simp: CH_GET_ADDR_def CH_SET_CHECKSUM_def bit_simps bit_CH_MASK)

lemma CH_addr_small: "unat b < 2 ^ 24 \<Longrightarrow> CH_GET_ADDR b = b"
proof (rule bit_word_eqI)
  fix n assume h: "unat b < 2 ^ 24" "n < LENGTH(32)"
  have "take_bit 24 (unat b) = unat b" using h(1) by (rule take_bit_nat_eq_self)
  moreover have "bit (unat b) n = bit b n" by (simp add: bit_unsigned_iff)
  ultimately have "bit b n \<Longrightarrow> n < 24" by (metis bit_take_bit_iff)
  thus "bit (CH_GET_ADDR b) n = bit b n" using h(2) by (auto simp: CH_GET_ADDR_def bit_simps bit_CH_MASK)
qed

subsection \<open>The bitmap\<close>

lemma map_bit_iff: "map_bit d bi \<longleftrightarrow> bit (d (bi div 8)) (bi mod 8)"
  by (simp add: map_bit_def and_exp_eq_0_iff_not_bit)

lemma map_bit_set: "map_bit (set_map_bit d bi v) bj \<longleftrightarrow> (if bj = bi then v else map_bit d bj)"
proof -
  have "bi div 8 = bj div 8 \<Longrightarrow> bi mod 8 = bj mod 8 \<Longrightarrow> bi = bj" by (metis div_mult_mod_eq)
  thus ?thesis by (auto simp: map_bit_iff set_map_bit_def bit_simps)
qed

definition nmap :: "fsst \<Rightarrow> u32 \<Rightarrow> nat" where
  "nmap s dev = (unat (sb_size (readsb s dev)) + BPB - 1) div BPB * BPB"

definition used :: "fsst \<Rightarrow> u32 \<Rightarrow> u32 \<Rightarrow> bool" where
  "used s dev b \<longleftrightarrow> map_bit (bread s dev (BBLOCK b (sb_ninodes (readsb s dev)))) (unat b mod BPB)"

definition used_blocks :: "u32 \<Rightarrow> fsst \<Rightarrow> u32 set" where
  "used_blocks dev s = {b. unat b < nmap s dev \<and> used s dev b}"

definition data_block :: "u32 \<Rightarrow> fsst \<Rightarrow> u32 \<Rightarrow> bool" where
  "data_block dev s b \<longleftrightarrow> unat b < nmap s dev \<and>
     unat (sb_ninodes (readsb s dev)) div 8 + 3 + (nmap s dev - 1) div BPB < unat b"

lemma unat_BBLOCK: "unat (BBLOCK b n) = unat b div BPB + unat n div 8 + 3"
proof -
  have "unat b div 4096 < 2 ^ 20" "unat n div 8 < 2 ^ 29"
    using unat_lt32[of b] unat_lt32[of n] by (auto simp: less_mult_imp_div_less)
  hence s: "unat b div 4096 + unat n div 8 + 3 < 2 ^ 32" by simp
  have "BBLOCK b n = of_nat (unat b div 4096 + unat n div 8 + 3)"
    unfolding BBLOCK_def by (simp add: word_arith_nat_div unat_word_ariths)
  thus ?thesis by (simp only: unat_of_nat32[OF s])
qed

lemma BBLOCK_ne_1 [simp]: "BBLOCK b n \<noteq> 1"
  using unat_BBLOCK[of b n] by (auto dest: arg_cong[of _ _ unat])

lemma bread_bwrite: "bread (bwrite s dev b d) dev' b' = (if dev' = dev \<and> b' = b then d else bread s dev' b')"
  by (simp add: bread_def bwrite_def)

lemma readsb_bwrite: "b \<noteq> 1 \<Longrightarrow> readsb (bwrite s dev b d) dev' = readsb s dev'"
  by (simp add: readsb_def bread_bwrite)

lemma nmap_le: "nmap s dev \<le> 2 ^ 32"
proof -
  have "unat (sb_size (readsb s dev)) + BPB - 1 < 2 ^ 32 + 4095"
    using unat_lt32[of "sb_size (readsb s dev)"] by linarith
  hence "(unat (sb_size (readsb s dev)) + BPB - 1) div BPB \<le> 1048576" by simp
  hence "nmap s dev \<le> 1048576 * BPB" unfolding nmap_def by (rule mult_le_mono1)
  thus ?thesis by simp
qed

lemma used_set:
  fixes s :: fsst and dev :: u32
  assumes "b < 2 ^ 32"
  defines "bb \<equiv> BBLOCK (of_nat b) (sb_ninodes (readsb s dev))"
  shows "used (bwrite s dev bb (set_map_bit (bread s dev bb) (b mod BPB) v)) dev b' \<longleftrightarrow>
         (if b' = of_nat b then v else used s dev b')"
proof -
  let ?n = "sb_ninodes (readsb s dev)"
  have ub: "unat (of_nat b :: u32) = b" using assms(1) by (rule unat_of_nat32)
  have same: "BBLOCK b' ?n = bb \<longleftrightarrow> unat b' div BPB = b div BPB"
    unfolding bb_def word_unat_eq_iff unat_BBLOCK ub by simp
  have eq: "b' = of_nat b \<longleftrightarrow> unat b' div BPB = b div BPB \<and> unat b' mod BPB = b mod BPB"
    using ub by (metis div_mult_mod_eq word_unat_eq_iff)
  have rs: "readsb (bwrite s dev bb d) dev = readsb s dev" for d
    by (rule readsb_bwrite) (simp add: bb_def)
  show ?thesis
    unfolding used_def rs bread_bwrite using same eq by (auto simp: map_bit_set)
qed

lemma balloc_loop_spec:
  assumes "balloc_loop s dev n (map (\<lambda>k. k * BPB) [j..<m]) = Some (b, s')" "m * BPB \<le> 2 ^ 32"
    "n = sb_ninodes (readsb s dev)"
  shows "\<exists>x. j * BPB \<le> x \<and> x < m * BPB \<and> b = of_nat x \<and> \<not> used s dev b \<and>
     (\<forall>y. j * BPB \<le> y \<and> y < x \<longrightarrow> used s dev (of_nat y)) \<and>
     s' = bwrite s dev (BBLOCK b n) (set_map_bit (bread s dev (BBLOCK b n)) (x mod BPB) True)"
  using assms
proof (induction "m - j" arbitrary: j)
  case 0
  thus ?case by simp
next
  case (Suc r)
  hence jm: "j < m" by linarith
  hence lst: "map (\<lambda>k. k * BPB) [j..<m] = j * BPB # map (\<lambda>k. k * BPB) [Suc j..<m]" by (simp add: upt_conv_Cons)
  have lim: "j * BPB + c < m * BPB" if "c < BPB" for c
  proof -
    have "j * BPB + c < Suc j * BPB" using that by simp
    also have "\<dots> \<le> m * BPB" using jm by (intro mult_le_mono1) simp
    finally show ?thesis .
  qed
  have un: "unat (of_nat (j * BPB + c) :: u32) = j * BPB + c" if "c < BPB" for c
    using lim[OF that] Suc.prems(2) by (intro unat_of_nat32) linarith
  have bb: "BBLOCK (of_nat (j * BPB + c)) n = BBLOCK (of_nat (j * BPB)) n" if "c < BPB" for c
    unfolding word_unat_eq_iff unat_BBLOCK un[OF that] using un[of 0] that by simp
  let ?d = "bread s dev (BBLOCK (of_nat (j * BPB)) n)"
  have us: "used s dev (of_nat (j * BPB + c)) \<longleftrightarrow> map_bit ?d c" if "c < BPB" for c
    unfolding used_def Suc.prems(3)[symmetric] bb[OF that] un[OF that] using that by simp
  show ?case
  proof (cases "first_idx (\<lambda>bi. \<not> map_bit ?d bi) [0..<BPB]")
    case None
    hence all: "map_bit ?d c" if "c < BPB" for c using that by (simp add: first_idx_None)
    have "balloc_loop s dev n (map (\<lambda>k. k * BPB) [Suc j..<m]) = Some (b, s')"
      using Suc.prems(1) None unfolding lst by (simp add: Let_def)
    moreover have "r = m - Suc j" using Suc.hyps(2) by simp
    ultimately obtain x where
      x: "Suc j * BPB \<le> x" "x < m * BPB" "b = of_nat x" "\<not> used s dev b"
        "\<forall>y. Suc j * BPB \<le> y \<and> y < x \<longrightarrow> used s dev (of_nat y)"
        "s' = bwrite s dev (BBLOCK b n) (set_map_bit (bread s dev (BBLOCK b n)) (x mod BPB) True)"
      using Suc.hyps(1)[OF _ _ Suc.prems(2,3), of "Suc j"] by blast
    have "used s dev (of_nat y)" if "j * BPB \<le> y" "y < x" for y
    proof (cases "Suc j * BPB \<le> y")
      case True thus ?thesis using x(5) that by blast
    next
      case False
      define c where "c = y - j * BPB"
      have "y = j * BPB + c" "c < BPB" using False that by (auto simp: c_def)
      thus ?thesis using us[of c] all by simp
    qed
    thus ?thesis using x by (intro exI[of _ x]) auto
  next
    case (Some bi)
    hence bi: "bi < BPB" "\<not> map_bit ?d bi" "\<forall>c < bi. map_bit ?d c" by (auto simp: first_idx_Some)
    let ?x = "j * BPB + bi"
    have r: "b = of_nat ?x" "s' = bwrite s dev (BBLOCK (of_nat (j * BPB)) n) (set_map_bit ?d bi True)"
      using Suc.prems(1) Some unfolding lst by (auto simp: Let_def)
    have "used s dev (of_nat y)" if "j * BPB \<le> y" "y < ?x" for y
    proof -
      define c where "c = y - j * BPB"
      have "y = j * BPB + c" "c < bi" using that by (auto simp: c_def)
      thus ?thesis using us[of c] bi by simp
    qed
    moreover have "\<not> used s dev b" using us[OF bi(1)] bi(2) r(1) by simp
    moreover have "s' = bwrite s dev (BBLOCK b n) (set_map_bit (bread s dev (BBLOCK b n)) (?x mod BPB) True)"
      using r bb[OF bi(1)] bi(1) by simp
    ultimately show ?thesis using lim[OF bi(1)] r(1) by (intro exI[of _ ?x]) auto
  qed
qed

lemma balloc_loop_None:
  assumes "balloc_loop s dev n (map (\<lambda>k. k * BPB) [j..<m]) = None" "m * BPB \<le> 2 ^ 32" "n = sb_ninodes (readsb s dev)"
    "j * BPB \<le> y" "y < m * BPB"
  shows "used s dev (of_nat y)"
  using assms
proof (induction "m - j" arbitrary: j)
  case 0
  hence "m * BPB \<le> j * BPB" by simp
  thus ?case using 0 by linarith
next
  case (Suc r)
  hence jm: "j < m" by linarith
  hence lst: "map (\<lambda>k. k * BPB) [j..<m] = j * BPB # map (\<lambda>k. k * BPB) [Suc j..<m]" by (simp add: upt_conv_Cons)
  let ?d = "bread s dev (BBLOCK (of_nat (j * BPB)) n)"
  have f: "first_idx (\<lambda>bi. \<not> map_bit ?d bi) [0..<BPB] = None"
    and rest: "balloc_loop s dev n (map (\<lambda>k. k * BPB) [Suc j..<m]) = None"
    using Suc.prems(1) unfolding lst by (auto simp: Let_def split: option.splits)
  show ?case
  proof (cases "Suc j * BPB \<le> y")
    case True
    show ?thesis using Suc.hyps(1)[of "Suc j"] Suc.hyps(2) rest Suc.prems(2,3,5) True by simp
  next
    case False
    define c where "c = y - j * BPB"
    have c: "y = j * BPB + c" "c < BPB" using False Suc.prems(4) by (auto simp: c_def)
    have y: "unat (of_nat y :: u32) = y" using Suc.prems(2,5) by (intro unat_of_nat32) linarith
    have z: "unat (of_nat (j * BPB) :: u32) = j * BPB" using Suc.prems(2,4,5) by (intro unat_of_nat32) linarith
    have "BBLOCK (of_nat y) n = BBLOCK (of_nat (j * BPB)) n"
      unfolding word_unat_eq_iff unat_BBLOCK y z using c by simp
    moreover have "y mod BPB = c" using c by simp
    moreover have "map_bit ?d c" using f c(2) by (simp add: first_idx_None)
    ultimately show ?thesis unfolding used_def Suc.prems(3)[symmetric] y by simp
  qed
qed

lemma balloc_full:
  assumes "balloc s dev = None" "unat b < nmap s dev"
  shows "b \<in> used_blocks dev s"
proof -
  let ?m = "(unat (sb_size (readsb s dev)) + BPB - 1) div BPB"
  have m: "?m * BPB = nmap s dev" by (simp add: nmap_def)
  have "used s dev (of_nat (unat b))"
    using balloc_loop_None[of s dev "sb_ninodes (readsb s dev)" 0 ?m "unat b"] assms nmap_le[of s dev]
    unfolding m by (simp add: balloc_def Let_def)
  thus ?thesis using assms(2) by (simp add: used_blocks_def)
qed

lemma balloc_spec:
  assumes "balloc s dev = Some (b, s')"
  shows "unat b < nmap s dev" "b \<notin> used_blocks dev s" "used_blocks dev s' = insert b (used_blocks dev s)"
    "\<And>y. unat y < unat b \<Longrightarrow> y \<in> used_blocks dev s" "readsb s' dev = readsb s dev" "icache s' = icache s"
    "\<And>dev' b'. (dev', b') \<noteq> (dev, BBLOCK b (sb_ninodes (readsb s dev))) \<Longrightarrow> bread s' dev' b' = bread s dev' b'"
proof -
  let ?m = "(unat (sb_size (readsb s dev)) + BPB - 1) div BPB"
  have m: "?m * BPB = nmap s dev" by (simp add: nmap_def)
  obtain x where x: "x < nmap s dev" "b = of_nat x" "\<not> used s dev b" "\<forall>y. y < x \<longrightarrow> used s dev (of_nat y)"
    "s' = bwrite s dev (BBLOCK b (sb_ninodes (readsb s dev))) (set_map_bit (bread s dev (BBLOCK b (sb_ninodes (readsb s dev)))) (x mod BPB) True)"
    using balloc_loop_spec[of s dev "sb_ninodes (readsb s dev)" 0 ?m b s'] assms nmap_le[of s dev]
    unfolding m by (auto simp: balloc_def Let_def)
  have x32: "x < 2 ^ 32" using x(1) nmap_le[of s dev] by linarith
  hence ub: "unat b = x" using x(2) unat_of_nat32 by simp
  show "unat b < nmap s dev" using x(1) ub by simp
  show "b \<notin> used_blocks dev s" using x(3) by (simp add: used_blocks_def)
  show rs: "readsb s' dev = readsb s dev" unfolding x(5) by (rule readsb_bwrite) simp
  have u: "used s' dev y \<longleftrightarrow> (if y = b then True else used s dev y)" for y
    unfolding x(5) using used_set[OF x32, of s dev True y] x(2) by simp
  show "used_blocks dev s' = insert b (used_blocks dev s)"
    using u x(1) ub rs by (auto simp: used_blocks_def nmap_def)
  show "\<And>y. unat y < unat b \<Longrightarrow> y \<in> used_blocks dev s"
    using x(1,4) ub unfolding used_blocks_def by (metis (mono_tags) less_trans mem_Collect_eq of_nat_unat ucast_id)
  show "icache s' = icache s" unfolding x(5) by (simp add: bwrite_def)
  show "\<And>dev' b'. (dev', b') \<noteq> (dev, BBLOCK b (sb_ninodes (readsb s dev))) \<Longrightarrow> bread s' dev' b' = bread s dev' b'"
    unfolding x(5) bread_bwrite by auto
qed

lemma data_block_not_map:
  assumes "data_block dev s b" "unat b' < nmap s dev"
  shows "BBLOCK b' (sb_ninodes (readsb s dev)) \<noteq> b" "b \<noteq> 1"
proof -
  have "unat b' \<le> nmap s dev - 1" using assms(2) by simp
  hence "unat b' div BPB \<le> (nmap s dev - 1) div BPB" by (rule div_le_mono)
  hence "unat (BBLOCK b' (sb_ninodes (readsb s dev))) < unat b"
    using assms(1) unfolding unat_BBLOCK data_block_def by linarith
  thus "BBLOCK b' (sb_ninodes (readsb s dev)) \<noteq> b" by auto
  show "b \<noteq> 1" using assms(1) by (auto simp: data_block_def)
qed

lemma bfree_spec:
  assumes db: "data_block dev s b" and ub: "b \<in> used_blocks dev s"
  shows "\<exists>s'. bfree s dev b = Some s' \<and> used_blocks dev s' = used_blocks dev s - {b} \<and>
     (\<forall>k < BSIZE. bread s' dev b k = 0) \<and> readsb s' dev = readsb s dev"
proof -
  define s1 where "s1 = bzero s dev b"
  define bb where "bb = BBLOCK b (sb_ninodes (readsb s dev))"
  have bn: "unat b < nmap s dev" using db by (simp add: data_block_def)
  have rs1: "readsb s1 dev = readsb s dev"
    unfolding s1_def bzero_def by (rule readsb_bwrite) (rule data_block_not_map(2)[OF db bn])
  have rd: "bread s1 dev (BBLOCK y (sb_ninodes (readsb s dev))) = bread s dev (BBLOCK y (sb_ninodes (readsb s dev)))"
    if "unat y < nmap s dev" for y
    unfolding s1_def bzero_def bread_bwrite using data_block_not_map(1)[OF db that] by simp
  have us1: "used s1 dev y = used s dev y" if "unat y < nmap s dev" for y
    unfolding used_def rs1 rd[OF that] ..
  have "used s1 dev b" using us1[OF bn] ub by (simp add: used_blocks_def)
  hence mb: "map_bit (bread s1 dev bb) (unat b mod BPB)" by (simp add: used_def rs1 bb_def)
  define s' where "s' = bwrite s1 dev bb (set_map_bit (bread s1 dev bb) (unat b mod BPB) False)"
  have bf: "bfree s dev b = Some s'"
    using mb unfolding bfree_def Let_def s1_def[symmetric] rs1 bb_def[symmetric] s'_def by simp
  have b32: "unat b < 2 ^ 32" by (rule unat_lt32)
  have u: "used s' dev y \<longleftrightarrow> y \<noteq> b \<and> used s1 dev y" for y
    using used_set[OF b32, of s1 dev False y] by (simp add: s'_def bb_def rs1)
  have rs': "readsb s' dev = readsb s1 dev" unfolding s'_def by (rule readsb_bwrite) (simp add: bb_def)
  have "used_blocks dev s' = used_blocks dev s - {b}"
    using u us1 rs' rs1 by (auto simp: used_blocks_def nmap_def)
  moreover have "bread s' dev b k = 0" if "k < BSIZE" for k
    using that data_block_not_map(1)[OF db bn]
    by (simp add: s'_def bread_bwrite bb_def s1_def bzero_def put_bytes_def)
  ultimately show ?thesis using bf rs' rs1 by auto
qed

subsection \<open>The allocator as an interface\<close>

locale block_store =
  fixes inuse :: "'s \<Rightarrow> 'b set" and is_data :: "'s \<Rightarrow> 'b \<Rightarrow> bool"
    and alloc :: "'s \<Rightarrow> ('b \<times> 's) option" and free :: "'s \<Rightarrow> 'b \<Rightarrow> 's option"
  assumes alloc_fresh: "alloc s = Some (b, s') \<Longrightarrow> b \<notin> inuse s \<and> inuse s' = insert b (inuse s)"
    and alloc_data: "alloc s = Some (b, s') \<Longrightarrow> is_data s' x = is_data s x"
    and free_used: "is_data s b \<Longrightarrow> b \<in> inuse s \<Longrightarrow> \<exists>s'. free s b = Some s' \<and> inuse s' = inuse s - {b}"
begin

lemma alloc_twice:
  assumes "alloc s = Some (a, s1)" "alloc s1 = Some (b, s2)"
  shows "a \<noteq> b \<and> inuse s2 = {a, b} \<union> inuse s"
  using alloc_fresh[OF assms(1)] alloc_fresh[OF assms(2)] by auto

lemma alloc_free:
  assumes "alloc s = Some (b, s1)" "is_data s b"
  shows "\<exists>s2. free s1 b = Some s2 \<and> inuse s2 = inuse s"
  using free_used[of s1 b] alloc_fresh[OF assms(1)] alloc_data[OF assms(1)] assms(2) by auto

end

interpretation bitmap: block_store "used_blocks dev" "data_block dev" "\<lambda>s. balloc s dev" "\<lambda>s. bfree s dev"
proof
  fix s b s' x
  assume a: "balloc s dev = Some (b, s')"
  show "b \<notin> used_blocks dev s \<and> used_blocks dev s' = insert b (used_blocks dev s)" using balloc_spec[OF a] by simp
  show "data_block dev s' x = data_block dev s x" using balloc_spec(5)[OF a] by (simp add: data_block_def nmap_def)
next
  fix s b assume "data_block dev s b" "b \<in> used_blocks dev s"
  thus "\<exists>s'. bfree s dev b = Some s' \<and> used_blocks dev s' = used_blocks dev s - {b}" using bfree_spec by blast
qed

text \<open>
  Masking matters: the bitmap block of a pointer that still carries checksum bits is not the bitmap
  block of the disk block it points to.
\<close>

lemma bitmap_block_unmasked:
  assumes "CH_GET_CHECKSUM a \<noteq> 0"
  shows "BBLOCK a n \<noteq> BBLOCK (CH_GET_ADDR a) n"
proof -
  have split: "unat a = 2 ^ 24 * unat (drop_bit 24 a) + unat (CH_GET_ADDR a)"
  proof -
    have e: "CH_GET_ADDR a = take_bit 24 a"
      by (rule bit_word_eqI) (auto simp: CH_GET_ADDR_def bit_simps bit_CH_MASK)
    have "unat (take_bit 24 a) = take_bit 24 (unat a)" by (rule unsigned_take_bit_eq)
    hence 1: "unat (CH_GET_ADDR a) = unat a mod 2 ^ 24" unfolding e take_bit_nat_def .
    have "unat (drop_bit 24 a) = drop_bit 24 (take_bit 32 (unat a))" by (simp only: unsigned_drop_bit_eq len_of_numeral_defs) simp
    hence "unat (drop_bit 24 a) = unat a div 2 ^ 24" using unat_lt32[of a] by (simp only: take_bit_nat_eq_self drop_bit_eq_div)
    thus ?thesis unfolding 1 by simp
  qed
  have "drop_bit 24 a \<noteq> 0"
  proof
    assume "drop_bit 24 a = 0"
    hence "\<not> bit a (24 + k)" for k by (metis bit_drop_bit_eq bit_0_eq bot_apply bot_bool_def comp_apply)
    hence "CH_GET_CHECKSUM a = 0" by (intro bit_word_eqI) (auto simp: CH_GET_CHECKSUM_def bit_simps)
    thus False using assms by simp
  qed
  hence "0 < unat (drop_bit 24 a)" by (simp add: unat_gt_0)
  hence "unat a \<ge> 2 ^ 24 + unat (CH_GET_ADDR a)" using split by simp
  hence "unat a div BPB \<noteq> unat (CH_GET_ADDR a) div BPB"
    using div_le_mono[of "2 ^ 24 + unat (CH_GET_ADDR a)" "unat a" BPB] by simp
  thus ?thesis unfolding word_unat_eq_iff unat_BBLOCK by simp
qed

end
