(* ===== verification/FsFile.thy ===== *)
theory FsFile
  imports FsBlocks
begin

text \<open>
  Files of \<^verbatim>\<open>Project5b/xv6/kernel/fs.c\<close> as sequences of bytes.  \<open>ptr\<close>, \<open>fblk\<close> and \<open>fbyte\<close> are the block
  pointer, block and byte of a file that the inode and its indirect block determine; on the part of
  a file that has blocks, \<open>readi\<close> and \<open>writei\<close> are shown to be a read and an update of that sequence,
  with the checksums of a \<open>T_CHECKED\<close> file checked and maintained.
\<close>

subsection \<open>The contents of a file\<close>

definition ptr :: "fsst \<Rightarrow> nat \<Rightarrow> nat \<Rightarrow> u32" where
  "ptr s i bn = (let ip = icache s ! i in
     if bn < NDIRECT then addrs ip ! bn
     else rd32 (bread s (idev ip) (CH_GET_ADDR (addrs ip ! NDIRECT))) (4 * (bn - NDIRECT)))"

definition baddr :: "fsst \<Rightarrow> nat \<Rightarrow> nat \<Rightarrow> u32" where
  "baddr s i bn = CH_GET_ADDR (ptr s i bn)"

definition ind_addr :: "fsst \<Rightarrow> nat \<Rightarrow> u32" where
  "ind_addr s i = CH_GET_ADDR (addrs (icache s ! i) ! NDIRECT)"

definition mapped :: "fsst \<Rightarrow> nat \<Rightarrow> nat \<Rightarrow> bool" where
  "mapped s i bn \<longleftrightarrow> bn < MAXFILE \<and> baddr s i bn \<noteq> 0 \<and> (NDIRECT \<le> bn \<longrightarrow> ind_addr s i \<noteq> 0)"

definition fblk :: "fsst \<Rightarrow> nat \<Rightarrow> nat \<Rightarrow> block" where
  "fblk s i bn = bread s (idev (icache s ! i)) (baddr s i bn)"

definition fbyte :: "fsst \<Rightarrow> nat \<Rightarrow> nat \<Rightarrow> u8" where
  "fbyte s i k = fblk s i (k div BSIZE) (k mod BSIZE)"

definition intact :: "fsst \<Rightarrow> nat \<Rightarrow> nat \<Rightarrow> bool" where
  "intact s i bn \<longleftrightarrow> calculate_checksum (get_bytes (fblk s i bn) 0 BSIZE) = CH_GET_CHECKSUM (ptr s i bn)"

definition touches :: "nat \<Rightarrow> nat \<Rightarrow> nat \<Rightarrow> bool" where
  "touches off n bn \<longleftrightarrow> 0 < n \<and> off div BSIZE \<le> bn \<and> bn * BSIZE < off + n"

lemma CH_addr_0 [simp]: "CH_GET_ADDR 0 = 0"
  by (simp add: CH_GET_ADDR_def)

lemma bmap_mapped: "mapped s i bn \<Longrightarrow> bmap s i bn = Some (baddr s i bn, s)"
  by (auto simp: mapped_def bmap_def baddr_def ptr_def ind_addr_def Let_def)

lemma fetch_checksum_ptr: "bn < MAXFILE \<Longrightarrow> fetch_checksum s i bn = Some (CH_GET_CHECKSUM (ptr s i bn))"
  by (auto simp: fetch_checksum_def ptr_def Let_def)

subsection \<open>Reading\<close>

lemma within_block:
  fixes off k :: nat
  assumes "off mod BSIZE + k < BSIZE"
  shows "(off + k) div BSIZE = off div BSIZE" "(off + k) mod BSIZE = off mod BSIZE + k"
proof -
  define q r where "q = off div BSIZE" and "r = off mod BSIZE"
  have off: "off = BSIZE * q + r" unfolding q_def r_def by simp
  have e: "off + k = (r + k) + BSIZE * q" and l: "r + k < BSIZE" using off assms by (simp_all add: r_def)
  have "(off + k) div BSIZE = q" "(off + k) mod BSIZE = r + k"
    unfolding e using l by (simp_all only: div_mult_self2 mod_mult_self2 div_less mod_less)
  thus "(off + k) div BSIZE = off div BSIZE" "(off + k) mod BSIZE = off mod BSIZE + k" by (simp_all add: q_def r_def)
qed

lemma chunk_bytes:
  assumes "m \<le> BSIZE - off mod BSIZE"
  shows "get_bytes (fblk s i (off div BSIZE)) (off mod BSIZE) m = map (fbyte s i) [off..<off + m]"
proof (rule nth_equalityI)
  fix k assume "k < length (get_bytes (fblk s i (off div BSIZE)) (off mod BSIZE) m)"
  hence k: "k < m" by (simp add: get_bytes_def)
  hence "off mod BSIZE + k < BSIZE" using assms by linarith
  from within_block[OF this]
  show "get_bytes (fblk s i (off div BSIZE)) (off mod BSIZE) m ! k = map (fbyte s i) [off..<off + m] ! k"
    using k by (simp add: get_bytes_def fbyte_def)
qed (simp add: get_bytes_def)

lemma chunk_end:
  fixes off n :: nat
  assumes "m = min n (BSIZE - off mod BSIZE)" "0 < n"
  shows "touches off n bn \<longleftrightarrow> bn = off div BSIZE \<or> touches (off + m) (n - m) bn" "0 < m" "m \<le> n"
proof -
  define q r where "q = off div BSIZE" and "r = off mod BSIZE"
  have off: "off = BSIZE * q + r" and r: "r < BSIZE" unfolding q_def r_def by simp_all
  have m: "0 < m" "m \<le> n" "r + m \<le> BSIZE" using assms r by (auto simp: r_def)
  show "0 < m" "m \<le> n" using m by simp_all
  have t: "touches off n bn \<longleftrightarrow> q \<le> bn \<and> BSIZE * bn < BSIZE * q + r + n"
    unfolding touches_def q_def[symmetric] using off assms(2) by (simp add: mult.commute)
  have sum: "off + m + (n - m) = BSIZE * q + r + n" using m(2) off by simp
  show "touches off n bn \<longleftrightarrow> bn = off div BSIZE \<or> touches (off + m) (n - m) bn"
  proof (cases "r + m = BSIZE")
    case True
    have e: "off + m = BSIZE * (q + 1)" using True off by simp
    have "touches (off + m) (n - m) bn \<longleftrightarrow> n \<noteq> m \<and> q + 1 \<le> bn \<and> BSIZE * bn < BSIZE * q + r + n"
      unfolding touches_def sum using e m(2) by (auto simp: mult.commute)
    thus ?thesis unfolding t q_def[symmetric] using m True by auto
  next
    case False
    hence n: "n = m" using assms(1) by (auto simp: r_def min_def split: if_splits)
    thus ?thesis unfolding t q_def[symmetric] using m n by (auto simp: touches_def)
  qed
qed

lemma readi_loop_ok:
  assumes "\<And>bn. touches off n bn \<Longrightarrow> mapped s i bn \<and> (chk \<longrightarrow> intact s i bn)"
  shows "readi_loop chk s i off n acc = Some (True, acc @ map (fbyte s i) [off..<off + n], s)"
  using assms
proof (induction n arbitrary: off acc rule: less_induct)
  case (less n)
  show ?case
  proof (cases "n = 0")
    case False
    define m where "m = min n (BSIZE - off mod BSIZE)"
    note ce = chunk_end[OF m_def]
    have n: "0 < n" using False by simp
    have h: "mapped s i (off div BSIZE)" "chk \<longrightarrow> intact s i (off div BSIZE)"
      using less.prems[of "off div BSIZE"] ce(1)[OF n] by auto
    have IH: "readi_loop chk s i (off + m) (n - m) acc' = Some (True, acc' @ map (fbyte s i) [off + m..<off + n], s)" for acc'
    proof -
      have lt: "n - m < n" using ce(2)[OF n] n by simp
      have "\<And>bn. touches (off + m) (n - m) bn \<Longrightarrow> mapped s i bn \<and> (chk \<longrightarrow> intact s i bn)"
        using less.prems ce(1)[OF n] by blast
      from less.IH[OF lt this] show ?thesis using ce(3)[OF n] by simp
    qed
    have sp: "[off..<off + n] = [off..<off + m] @ [off + m..<off + n]"
      using upt_add_eq_append[of off "off + m" "n - m"] ce(3)[OF n] by simp
    have bnd: "off div BSIZE < MAXFILE" using h(1) by (simp add: mapped_def)
    show ?thesis
      using n h bmap_mapped[OF h(1)] fetch_checksum_ptr[OF bnd, of s i] IH chunk_bytes[of m off s i] m_def
      by (subst readi_loop.simps) (auto simp: Let_def intact_def fblk_def sp)
  qed (simp add: readi_loop.simps)
qed

lemma readi_loop_corrupt:
  assumes "\<And>bn. touches off n bn \<Longrightarrow> mapped s i bn" "touches off n bad" "\<not> intact s i bad"
  shows "\<exists>xs. readi_loop True s i off n acc = Some (False, xs, s)"
  using assms
proof (induction n arbitrary: off acc rule: less_induct)
  case (less n)
  have n: "0 < n" using less.prems(2) by (simp add: touches_def)
  define m where "m = min n (BSIZE - off mod BSIZE)"
  note ce = chunk_end[OF m_def n]
  have h: "mapped s i (off div BSIZE)" using less.prems(1)[of "off div BSIZE"] ce(1) by auto
  have bnd: "off div BSIZE < MAXFILE" using h by (simp add: mapped_def)
  note st = bmap_mapped[OF h] fetch_checksum_ptr[OF bnd, of s i]
  show ?case
  proof (cases "intact s i (off div BSIZE)")
    case False
    thus ?thesis using n st by (subst readi_loop.simps) (auto simp: Let_def intact_def fblk_def)
  next
    case True
    have lt: "n - m < n" using ce(2) n by simp
    have p: "\<And>bn. touches (off + m) (n - m) bn \<Longrightarrow> mapped s i bn" "touches (off + m) (n - m) bad"
      using less.prems ce(1) True by auto
    obtain xs where "readi_loop True s i (off + m) (n - m) (acc @ get_bytes (fblk s i (off div BSIZE)) (off mod BSIZE) m) = Some (False, xs, s)"
      using less.IH[OF lt p less.prems(3)] by blast
    thus ?thesis using n st True m_def by (subst readi_loop.simps) (auto simp: Let_def intact_def fblk_def)
  qed
qed

lemma readi_result:
  assumes ty: "itype (icache s ! i) \<noteq> T_DEV" and sz: "off \<le> isize (icache s ! i)" and ov: "unat off + unat n < 2 ^ 32"
    and m: "m = min (unat n) (unat (isize (icache s ! i)) - unat off)"
  shows "readi dv s i off n = (case readi_loop (itype (icache s ! i) = T_CHECKED) s i (unat off) m [] of
       None \<Rightarrow> None | Some (ok, xs, s1) \<Rightarrow> Some (if ok then int m else -1, xs, s1))"
proof -
  let ?z = "isize (icache s ! i)"
  have sum: "unat (off + n) = unat off + unat n" using ov by (simp add: unat_word_ariths)
  have no: "\<not> off + n < off" using sum by (simp add: word_less_nat_alt)
  define N where "N = (if off + n > ?z then ?z - off else n)"
  have N: "unat N = m"
    using sum sz m by (auto simp: N_def word_less_nat_alt word_le_nat_alt unat_sub split: if_splits)
  moreover have "uint N = int (unat N)" by simp
  moreover have "\<not> off > ?z" using sz by simp
  ultimately show ?thesis using ty no unfolding readi_def Let_def N_def[symmetric] by (simp split: option.splits prod.splits)
qed

subsection \<open>Writing\<close>

text \<open>
  Different blocks of a file lie at different places of the disk, and none of them is the indirect
  block or the block of the inode.
\<close>

definition file_ok :: "fsst \<Rightarrow> nat \<Rightarrow> bool" where
  "file_ok s i \<longleftrightarrow> i < length (icache s) \<and> length (addrs (icache s ! i)) = 13 \<and>
     (\<forall>a b. mapped s i a \<longrightarrow> mapped s i b \<longrightarrow> baddr s i a = baddr s i b \<longrightarrow> a = b) \<and>
     (\<forall>a. mapped s i a \<longrightarrow> baddr s i a \<noteq> ind_addr s i \<and> baddr s i a \<noteq> IBLOCK (inum (icache s ! i))) \<and>
     ind_addr s i \<noteq> IBLOCK (inum (icache s ! i))"

text \<open>Two states with the same file layout: only the contents and the checksums may differ.\<close>

definition same_layout :: "fsst \<Rightarrow> nat \<Rightarrow> fsst \<Rightarrow> bool" where
  "same_layout s i t \<longleftrightarrow> length (icache t) = length (icache s) \<and> length (addrs (icache t ! i)) = length (addrs (icache s ! i)) \<and>
     (\<forall>a < MAXFILE. baddr t i a = baddr s i a) \<and> ind_addr t i = ind_addr s i \<and>
     inum (icache t ! i) = inum (icache s ! i) \<and> idev (icache t ! i) = idev (icache s ! i) \<and>
     itype (icache t ! i) = itype (icache s ! i)"

lemma same_layout_refl [simp]: "same_layout s i s"
  by (simp add: same_layout_def)

lemma same_layout_trans: "same_layout s i t \<Longrightarrow> same_layout t i u \<Longrightarrow> same_layout s i u"
  by (simp add: same_layout_def)

lemma same_layout_mapped: "same_layout s i t \<Longrightarrow> mapped t i a \<longleftrightarrow> mapped s i a"
  by (auto simp: same_layout_def mapped_def)

lemma same_layout_ok:
  assumes "same_layout s i t" "file_ok s i"
  shows "file_ok t i"
proof -
  note m = same_layout_mapped[OF assms(1)]
  have b: "baddr t i a = baddr s i a" if "mapped s i a" for a
    using assms(1) that by (simp add: same_layout_def mapped_def)
  show ?thesis using assms b unfolding file_ok_def m by (auto simp: same_layout_def)
qed

text \<open>One round of the loop of \<open>writei\<close>: block \<open>bn\<close> becomes \<open>d\<close>.\<close>

definition put_block :: "bool \<Rightarrow> fsst \<Rightarrow> nat \<Rightarrow> nat \<Rightarrow> block \<Rightarrow> fsst" where
  "put_block chk s i bn d =
     (let s2 = (if chk then the (update_checksum s i bn (calculate_checksum (get_bytes d 0 BSIZE))) else s)
      in bwrite s2 (idev (icache s2 ! i)) (baddr s i bn) d)"

lemma update_checksum_total: "bn < MAXFILE \<Longrightarrow> \<exists>t. update_checksum s i bn c = Some t"
  by (auto simp: update_checksum_def Let_def)

lemma bwrite_icache [simp]: "icache (bwrite s dev b d) = icache s"
  by (simp add: bwrite_def)

lemma update_checksum_ptr:
  assumes ok: "file_ok s i" and mp: "mapped s i bn" and u: "update_checksum s i bn c = Some t"
  shows "a < MAXFILE \<Longrightarrow> ptr t i a = (if a = bn then CH_SET_CHECKSUM (ptr s i bn) c else ptr s i a)"
    "ind_addr t i = ind_addr s i" "idev (icache t ! i) = idev (icache s ! i)"
    "b \<noteq> ind_addr s i \<Longrightarrow> bread t (idev (icache s ! i)) b = bread s (idev (icache s ! i)) b"
    "inum (icache t ! i) = inum (icache s ! i)" "itype (icache t ! i) = itype (icache s ! i)" "isize (icache t ! i) = isize (icache s ! i)"
    "length (icache t) = length (icache s)" "length (addrs (icache t ! i)) = length (addrs (icache s ! i))"
proof -
  have i: "i < length (icache s)" "length (addrs (icache s ! i)) = 13" using ok by (auto simp: file_ok_def)
  have bn: "bn < MAXFILE" using mp by (simp add: mapped_def)
  consider (dir) "bn < NDIRECT" "t = iupd s i (\<lambda>ip. ip\<lparr>addrs := (addrs ip)[bn := CH_SET_CHECKSUM (addrs ip ! bn) c]\<rparr>)"
    | (ind) "\<not> bn < NDIRECT" "t = bwrite s (idev (icache s ! i)) (ind_addr s i)
        (wr32 (bread s (idev (icache s ! i)) (ind_addr s i)) (4 * (bn - NDIRECT))
          (CH_SET_CHECKSUM (rd32 (bread s (idev (icache s ! i)) (ind_addr s i)) (4 * (bn - NDIRECT))) c))"
    using u bn by (cases "bn < NDIRECT") (auto simp: update_checksum_def Let_def ind_addr_def split: if_splits)
  note cs = this
  have "(a < MAXFILE \<longrightarrow> ptr t i a = (if a = bn then CH_SET_CHECKSUM (ptr s i bn) c else ptr s i a)) \<and>
    ind_addr t i = ind_addr s i \<and> idev (icache t ! i) = idev (icache s ! i) \<and>
    (b \<noteq> ind_addr s i \<longrightarrow> bread t (idev (icache s ! i)) b = bread s (idev (icache s ! i)) b) \<and>
    inum (icache t ! i) = inum (icache s ! i) \<and> itype (icache t ! i) = itype (icache s ! i) \<and> isize (icache t ! i) = isize (icache s ! i) \<and>
    length (icache t) = length (icache s) \<and> length (addrs (icache t ! i)) = length (addrs (icache s ! i))"
    using cs
  proof cases
    case dir
    show ?thesis using i dir(1) unfolding dir(2)
      by (auto simp: iupd_def ptr_def ind_addr_def bread_def Let_def nth_list_update)
  next
    case ind
    have o: "4 * (bn - NDIRECT) + 4 \<le> 4 * (a - NDIRECT) \<or> 4 * (a - NDIRECT) + 4 \<le> 4 * (bn - NDIRECT)"
      if "a \<noteq> bn" "\<not> a < NDIRECT" using that ind(1) by arith
    show ?thesis using i ind(1) unfolding ind(2)
      by (auto simp: ptr_def ind_addr_def bread_bwrite Let_def rd32_wr32_other[OF o])
  qed
  thus "a < MAXFILE \<Longrightarrow> ptr t i a = (if a = bn then CH_SET_CHECKSUM (ptr s i bn) c else ptr s i a)"
    "ind_addr t i = ind_addr s i" "idev (icache t ! i) = idev (icache s ! i)"
    "b \<noteq> ind_addr s i \<Longrightarrow> bread t (idev (icache s ! i)) b = bread s (idev (icache s ! i)) b"
    "inum (icache t ! i) = inum (icache s ! i)" "itype (icache t ! i) = itype (icache s ! i)" "isize (icache t ! i) = isize (icache s ! i)"
    "length (icache t) = length (icache s)" "length (addrs (icache t ! i)) = length (addrs (icache s ! i))" by blast+
qed

lemma put_block_effect:
  fixes chk :: bool and d :: block
  assumes ok: "file_ok s i" and mp: "mapped s i bn"
  defines "t \<equiv> put_block chk s i bn d"
  shows "same_layout s i t" "isize (icache t ! i) = isize (icache s ! i)"
    "mapped s i a \<Longrightarrow> fblk t i a = (if a = bn then d else fblk s i a)"
    "chk \<Longrightarrow> intact t i bn" "mapped s i a \<Longrightarrow> a \<noteq> bn \<Longrightarrow> intact t i a = intact s i a"
    "\<not> chk \<Longrightarrow> a < MAXFILE \<Longrightarrow> ptr t i a = ptr s i a"
proof -
  let ?c = "calculate_checksum (get_bytes d 0 BSIZE)"
  have bn: "bn < MAXFILE" using mp by (simp add: mapped_def)
  obtain u where u: "update_checksum s i bn ?c = Some u" using update_checksum_total[OF bn] by blast
  define s2 where "s2 = (if chk then u else s)"
  have t: "t = bwrite s2 (idev (icache s2 ! i)) (baddr s i bn) d"
    unfolding t_def put_block_def Let_def s2_def u by simp
  note uc = update_checksum_ptr[OF ok mp u]
  have p2: "ptr s2 i a = (if a = bn \<and> chk then CH_SET_CHECKSUM (ptr s i bn) ?c else ptr s i a)" if "a < MAXFILE" for a
    using uc(1)[OF that] by (auto simp: s2_def)
  have f2: "ind_addr s2 i = ind_addr s i" "idev (icache s2 ! i) = idev (icache s ! i)" "inum (icache s2 ! i) = inum (icache s ! i)"
    "itype (icache s2 ! i) = itype (icache s ! i)" "isize (icache s2 ! i) = isize (icache s ! i)"
    "length (icache s2) = length (icache s)" "length (addrs (icache s2 ! i)) = length (addrs (icache s ! i))"
    using uc by (simp_all add: s2_def)
  have r2: "bread s2 (idev (icache s ! i)) b = bread s (idev (icache s ! i)) b" if "b \<noteq> ind_addr s i" for b
    using uc(4)[OF that] by (simp add: s2_def)
  have ne: "baddr s i a \<noteq> ind_addr s i" if "mapped s i a" for a using ok that by (simp add: file_ok_def)
  have ic: "icache t = icache s2" by (simp add: t)
  have pt: "ptr t i a = ptr s2 i a" for a
    unfolding ptr_def Let_def ic using ne[OF mp] f2(1,2) by (simp add: t bread_bwrite ind_addr_def)
  have ba: "baddr t i a = baddr s i a" if "a < MAXFILE" for a using p2[OF that] pt by (simp add: baddr_def)
  have ia: "ind_addr t i = ind_addr s i" using f2(1) by (simp add: ind_addr_def ic)
  show "same_layout s i t" using ba ia f2 by (simp add: same_layout_def ic)
  show "isize (icache t ! i) = isize (icache s ! i)" using f2 ic by simp
  have fb: "fblk t i a = (if a = bn then d else fblk s i a)" if "mapped s i a" for a
  proof -
    have "a < MAXFILE" using that by (simp add: mapped_def)
    moreover have "baddr s i a = baddr s i bn \<Longrightarrow> a = bn" using ok that mp unfolding file_ok_def by blast
    ultimately show ?thesis unfolding fblk_def ic f2(2) using ba r2[OF ne[OF that]] by (auto simp: t bread_bwrite f2(2))
  qed
  show "mapped s i a \<Longrightarrow> fblk t i a = (if a = bn then d else fblk s i a)" by (rule fb)
  show "chk \<Longrightarrow> intact t i bn" using fb[OF mp] p2[OF bn] pt by (simp add: intact_def)
  show "mapped s i a \<Longrightarrow> a \<noteq> bn \<Longrightarrow> intact t i a = intact s i a"
    using fb p2 pt by (simp add: intact_def mapped_def)
  show "\<not> chk \<Longrightarrow> a < MAXFILE \<Longrightarrow> ptr t i a = ptr s i a" using p2 pt by simp
qed

lemma put_chunk_bytes:
  fixes chk :: bool
  assumes ok: "file_ok s i" and mp: "mapped s i (off div BSIZE)" "mapped s i (k div BSIZE)"
    and m: "off mod BSIZE + length xs \<le> BSIZE"
  defines "t \<equiv> put_block chk s i (off div BSIZE) (put_bytes (fblk s i (off div BSIZE)) (off mod BSIZE) xs)"
  shows "fbyte t i k = (if off \<le> k \<and> k < off + length xs then xs ! (k - off) else fbyte s i k)"
proof -
  define q r where "q = off div BSIZE" and "r = off mod BSIZE"
  have off: "off = BSIZE * q + r" unfolding q_def r_def by simp
  have fb: "fblk t i (k div BSIZE) = (if k div BSIZE = q then put_bytes (fblk s i q) r xs else fblk s i (k div BSIZE))"
    unfolding t_def q_def[symmetric] r_def[symmetric]
    using put_block_effect(3)[OF ok, of q "k div BSIZE"] mp by (simp add: q_def)
  show ?thesis
  proof (cases "k div BSIZE = q")
    case True
    have k: "k = BSIZE * q + k mod BSIZE" unfolding True[symmetric] by simp
    have "off \<le> k \<and> k < off + length xs \<longleftrightarrow> r \<le> k mod BSIZE \<and> k mod BSIZE < r + length xs" "k - off = k mod BSIZE - r"
      using off k by linarith+
    thus ?thesis unfolding fbyte_def fb using True by (simp add: put_bytes_def)
  next
    case False
    have "\<not> (off \<le> k \<and> k < off + length xs)"
    proof
      assume h: "off \<le> k \<and> k < off + length xs"
      hence "off mod BSIZE + (k - off) < BSIZE" using m by linarith
      from within_block(1)[OF this] h False show False by (simp add: q_def)
    qed
    thus ?thesis unfolding fbyte_def fb using False by auto
  qed
qed

lemma writei_loop_step:
  assumes mp: "mapped s i (off div BSIZE)" and ne: "src \<noteq> []" and m: "m = min (length src) (BSIZE - off mod BSIZE)"
  shows "writei_loop chk s i off src =
    writei_loop chk (put_block chk s i (off div BSIZE) (put_bytes (fblk s i (off div BSIZE)) (off mod BSIZE) (take m src)))
      i (off + m) (drop m src)"
proof -
  have b: "off div BSIZE < MAXFILE" using mp by (simp add: mapped_def)
  obtain u where u: "update_checksum s i (off div BSIZE)
      (calculate_checksum (get_bytes (put_bytes (fblk s i (off div BSIZE)) (off mod BSIZE) (take m src)) 0 BSIZE)) = Some u"
    using update_checksum_total[OF b] by blast
  show ?thesis
    using ne bmap_mapped[OF mp] u
    by (subst writei_loop.simps) (auto simp: Let_def put_block_def fblk_def m[symmetric])
qed

lemma writei_loop_ok:
  assumes "file_ok s i" "\<And>bn. touches off (length src) bn \<Longrightarrow> mapped s i bn"
  shows "\<exists>t. writei_loop chk s i off src = Some t \<and> same_layout s i t \<and> isize (icache t ! i) = isize (icache s ! i) \<and>
    (\<forall>k. mapped s i (k div BSIZE) \<longrightarrow>
       fbyte t i k = (if off \<le> k \<and> k < off + length src then src ! (k - off) else fbyte s i k)) \<and>
    (chk \<longrightarrow> (\<forall>bn. mapped s i bn \<longrightarrow> touches off (length src) bn \<or> intact s i bn \<longrightarrow> intact t i bn))"
  using assms
proof (induction "length src" arbitrary: s off src rule: less_induct)
  case less
  show ?case
  proof (cases "src = []")
    case True
    thus ?thesis by (auto simp: writei_loop.simps touches_def)
  next
    case False
    define m where "m = min (length src) (BSIZE - off mod BSIZE)"
    have n: "0 < length src" using False by simp
    note ce = chunk_end[OF m_def n]
    let ?q = "off div BSIZE"
    have mp: "mapped s i ?q" using less.prems(2)[of ?q] ce(1) by auto
    define s3 where "s3 = put_block chk s i ?q (put_bytes (fblk s i ?q) (off mod BSIZE) (take m src))"
    note pe = put_block_effect[OF less.prems(1) mp, where chk = chk and d = "put_bytes (fblk s i ?q) (off mod BSIZE) (take m src)", folded s3_def]
    have st: "writei_loop chk s i off src = writei_loop chk s3 i (off + m) (drop m src)"
      unfolding s3_def by (rule writei_loop_step[OF mp False m_def])
    have lt: "length (drop m src) < length src" using ce(2) n by simp
    have tm: "length (take m src) = m" using ce(3) by simp
    have ok3: "file_ok s3 i" using same_layout_ok[OF pe(1) less.prems(1)] .
    have mp3: "\<And>bn. touches (off + m) (length (drop m src)) bn \<Longrightarrow> mapped s3 i bn"
      using less.prems(2) ce(1) same_layout_mapped[OF pe(1)] by simp
    from less.hyps[OF lt ok3 mp3] obtain t where
      t: "writei_loop chk s3 i (off + m) (drop m src) = Some t" "same_layout s3 i t" "isize (icache t ! i) = isize (icache s3 ! i)"
      and fb: "\<And>k. mapped s3 i (k div BSIZE) \<Longrightarrow> fbyte t i k =
          (if off + m \<le> k \<and> k < off + m + length (drop m src) then drop m src ! (k - (off + m)) else fbyte s3 i k)"
      and ch: "\<And>bn. chk \<Longrightarrow> mapped s3 i bn \<Longrightarrow> touches (off + m) (length (drop m src)) bn \<or> intact s3 i bn \<Longrightarrow> intact t i bn"
      by blast
    have mo: "off mod BSIZE + length (take m src) \<le> BSIZE" unfolding tm using m_def mod_less_divisor[of BSIZE off] by linarith
    have bytes: "fbyte t i k = (if off \<le> k \<and> k < off + length src then src ! (k - off) else fbyte s i k)"
      if k: "mapped s i (k div BSIZE)" for k
    proof -
      have b3: "fbyte s3 i k = (if off \<le> k \<and> k < off + m then take m src ! (k - off) else fbyte s i k)"
        unfolding s3_def using put_chunk_bytes[OF less.prems(1) mp k mo, of chk] unfolding tm .
      have k3: "mapped s3 i (k div BSIZE)" using k same_layout_mapped[OF pe(1)] by simp
      have le: "m \<le> length src" by (rule ce(3))
      consider "k < off" | "off \<le> k" "k < off + m" | "off + m \<le> k" by linarith
      thus ?thesis
      proof cases
        case 1 thus ?thesis using fb[OF k3] b3 by simp
      next
        case 2 thus ?thesis using fb[OF k3] b3 le by simp
      next
        case 3
        hence e: "m + (k - (off + m)) = k - off" by simp
        show ?thesis using fb[OF k3] b3 le 3 e by auto
      qed
    qed
    have "intact t i bn" if "chk" "mapped s i bn" "touches off (length src) bn \<or> intact s i bn" for bn
      using that ch[of bn] pe(4,5) ce(1)[of bn] same_layout_mapped[OF pe(1)] by (cases "bn = ?q") auto
    thus ?thesis using st t same_layout_trans[OF pe(1) t(2)] pe(2) bytes by auto
  qed
qed

lemma iupd_size_view:
  fixes z :: u32
  assumes "file_ok s i"
  defines "t \<equiv> iupdate (iupd s i (\<lambda>ip. ip\<lparr>isize := z\<rparr>)) i"
  shows "same_layout s i t" "isize (icache t ! i) = z" "mapped s i a \<Longrightarrow> fblk t i a = fblk s i a"
    "mapped s i a \<Longrightarrow> intact t i a = intact s i a"
proof -
  define u where "u = iupd s i (\<lambda>ip. ip\<lparr>isize := z\<rparr>)"
  have i: "i < length (icache s)" using assms(1) by (simp add: file_ok_def)
  have ic: "icache t = icache u" by (simp add: t_def u_def iupdate_def Let_def)
  have me: "icache u ! i = (icache s ! i)\<lparr>isize := z\<rparr>" using i by (simp add: u_def iupd_def)
  have br: "bread t (idev (icache s ! i)) b = bread s (idev (icache s ! i)) b" if "b \<noteq> IBLOCK (inum (icache s ! i))" for b
    using that me by (simp add: t_def u_def[symmetric] iupdate_def Let_def bread_bwrite) (simp add: u_def iupd_def bread_def)
  have ia: "ind_addr t i = ind_addr s i" by (simp add: ind_addr_def ic me)
  have ni: "ind_addr s i \<noteq> IBLOCK (inum (icache s ! i))" using assms(1) by (simp add: file_ok_def)
  have pt: "ptr t i a = ptr s i a" for a
    using br[OF ni] by (simp add: ptr_def Let_def ic me ind_addr_def)
  show sl: "same_layout s i t" using pt ia i by (simp add: same_layout_def ic me baddr_def) (simp add: u_def iupd_def)
  show "isize (icache t ! i) = z" by (simp add: ic me)
  have fb: "fblk t i a = fblk s i a" if "mapped s i a" for a
    using br[of "baddr s i a"] assms(1) that by (simp add: fblk_def baddr_def pt ic me file_ok_def)
  show "mapped s i a \<Longrightarrow> fblk t i a = fblk s i a" by (rule fb)
  show "mapped s i a \<Longrightarrow> intact t i a = intact s i a" by (simp add: intact_def fb pt)
qed

lemma checksum_loop_xor: "calculate_checksum_loop r xs = r XOR calculate_checksum_loop 0 xs"
proof (induction xs arbitrary: r)
  case (Cons x xs)
  have "calculate_checksum_loop r (x # xs) = (r XOR x) XOR calculate_checksum_loop 0 xs" using Cons[of "r XOR x"] by simp
  moreover have "calculate_checksum_loop 0 (x # xs) = x XOR calculate_checksum_loop 0 xs" using Cons[of x] by simp
  ultimately show ?case by (simp add: xor.assoc)
qed simp

lemma checksum_update:
  "j < length xs \<Longrightarrow> calculate_checksum (xs[j := x]) = calculate_checksum xs XOR (xs ! j) XOR x"
proof (induction xs arbitrary: j)
  case (Cons y xs)
  have c: "calculate_checksum (z # zs) = z XOR calculate_checksum zs" for z zs
    using checksum_loop_xor[of z zs] by (simp add: calculate_checksum_def)
  show ?case
  proof (cases j)
    case 0
    have "y XOR (y XOR v) = v" for v by (simp add: xor.assoc[symmetric])
    thus ?thesis using 0 by (simp add: c xor.commute xor.left_commute)
  next
    case (Suc k)
    thus ?thesis using Cons by (simp add: c xor.assoc)
  qed
qed simp

lemma get_bytes_upd: "j < n \<Longrightarrow> get_bytes (d(j := x)) 0 n = (get_bytes d 0 n)[j := x]"
  by (rule nth_equalityI) (auto simp: get_bytes_def nth_list_update)

lemma readi_file:
  assumes "itype (icache s ! i) \<noteq> T_DEV" "off \<le> isize (icache s ! i)" "unat off + unat n < 2 ^ 32"
    and m: "m = min (unat n) (unat (isize (icache s ! i)) - unat off)"
    and mp: "\<And>bn. touches (unat off) m bn \<Longrightarrow> mapped s i bn"
  shows "if itype (icache s ! i) = T_CHECKED \<and> (\<exists>bn. touches (unat off) m bn \<and> \<not> intact s i bn)
         then \<exists>xs. readi dv s i off n = Some (-1, xs, s)
         else readi dv s i off n = Some (int m, map (fbyte s i) [unat off..<unat off + m], s)"
proof (cases "itype (icache s ! i) = T_CHECKED \<and> (\<exists>bn. touches (unat off) m bn \<and> \<not> intact s i bn)")
  case True
  then obtain bad where "touches (unat off) m bad" "\<not> intact s i bad" by blast
  from readi_loop_corrupt[OF mp this] obtain xs where
    "readi_loop True s i (unat off) m [] = Some (False, xs, s)" by blast
  thus ?thesis using True unfolding readi_result[OF assms(1-3) m] by auto
next
  case False
  have "readi_loop (itype (icache s ! i) = T_CHECKED) s i (unat off) m [] =
      Some (True, [] @ map (fbyte s i) [unat off..<unat off + m], s)"
    by (rule readi_loop_ok) (use False mp in blast)
  thus ?thesis unfolding readi_result[OF assms(1-3) m] if_not_P[OF False] by simp
qed

lemma writei_result:
  assumes "itype (icache s ! i) \<noteq> T_DEV" "off \<le> isize (icache s ! i)" "unat off + length src \<le> MAXFILE * BSIZE" "src \<noteq> []"
  shows "writei dv s i src off (of_nat (length src)) =
    (case writei_loop (itype (icache s ! i) = T_CHECKED) s i (unat off) src of
       None \<Rightarrow> None
     | Some t \<Rightarrow> Some (int (length src),
         if itype (icache s ! i) = T_CHECKED \<or> off + of_nat (length src) > isize (icache t ! i)
         then iupdate (iupd t i (\<lambda>ip. ip\<lparr>isize := off + of_nat (length src)\<rparr>)) i else t))"
proof -
  let ?n = "of_nat (length src) :: u32"
  have l: "length src < 2 ^ 32" using assms(3) by simp
  hence un: "unat ?n = length src" by (rule unat_of_nat32)
  have sum: "unat (off + ?n) = unat off + length src" using assms(3) un by (simp add: unat_word_ariths)
  have c: "\<not> off + ?n < off" "\<not> off + ?n > 71680" "\<not> off > isize (icache s ! i)"
    using sum assms(2,3) by (auto simp: word_less_nat_alt word_le_nat_alt)
  have pos: "?n > 0" using un assms(4) by (simp add: word_less_nat_alt)
  have ui: "uint ?n = int (length src)" using un by (metis uint_nat)
  show ?thesis using assms(1) c pos un ui by (simp add: writei_def Let_def split: option.splits)
qed

end
