(* ===== verification/FsProps.thy ===== *)
theory FsProps
  imports FsFile
begin

text \<open>
  The properties of the checksummed file system, with their evaluation on a blank disk and on a
  file of one block.
\<close>

subsection \<open>Example states\<close>

definition free_inode :: inode where
  "free_inode = \<lparr>idev = 0, inum = 0, iref = 0, ibusy = False, ivalid = False, itype = 0, imajor = 0, iminor = 0,
     inlink = 0, isize = 0, addrs = replicate 13 0\<rparr>"

definition small_file :: inode where
  "small_file = \<lparr>idev = 1, inum = 7, iref = 1, ibusy = True, ivalid = True, itype = T_CHECKED, imajor = 0, iminor = 0,
     inlink = 1, isize = 512, addrs = 100 # replicate 12 0\<rparr>"

definition small_fs :: fsst where
  "small_fs = \<lparr>disk = (\<lambda>_ _ _. 0), icache = [small_file, free_inode]\<rparr>"

definition no_devices :: devsw where
  "no_devices = \<lparr>dread = (\<lambda>_. None), dwrite = (\<lambda>_. None)\<rparr>"

text \<open>A file system of 1024 blocks and 200 inodes whose first two bitmap bits are set.\<close>

definition map_fs :: fsst where
  "map_fs = \<lparr>disk = (\<lambda>_ b k. if b = 1 then (if k = 1 then 4 else if k = 8 then 200 else 0) else if b = 28 \<and> k = 0 then 3 else 0),
     icache = []\<rparr>"

lemma small_rd32: "rd32 (\<lambda>_. 0) k = 0"
  by (simp add: rd32_def le32_def)

lemma small_ptr: "ptr small_fs 0 bn = (if bn = 0 then 100 else if bn < MAXFILE then 0 else ptr small_fs 0 bn)"
  by (simp add: ptr_def small_fs_def small_file_def Let_def bread_def small_rd32 nth_Cons')

lemma small_addr: "CH_GET_ADDR 100 = 100" "CH_GET_CHECKSUM 100 = 0"
  by (simp_all add: CH_GET_ADDR_def CH_GET_CHECKSUM_def CH_MASK_def)

lemma small_mapped: "mapped small_fs 0 bn \<longleftrightarrow> bn = 0"
  using small_ptr[of bn] by (auto simp: mapped_def baddr_def small_addr split: if_splits)

lemma small_ok: "file_ok small_fs 0"
proof -
  have "baddr small_fs 0 0 = 100" using small_ptr[of 0] by (simp add: baddr_def small_addr)
  moreover have "ind_addr small_fs 0 = 0" by (simp add: ind_addr_def small_fs_def small_file_def)
  moreover have "IBLOCK (inum (icache small_fs ! 0)) = 2" by (simp add: IBLOCK_def small_fs_def small_file_def)
  ultimately show ?thesis unfolding file_ok_def small_mapped by (simp add: small_fs_def small_file_def)
qed

lemma small_touch: "n \<le> 512 \<Longrightarrow> touches 0 n bn \<Longrightarrow> bn = 0"
  by (simp add: touches_def)

lemma checksum_zeros: "calculate_checksum (replicate n 0) = 0"
  by (induction n) (simp_all add: calculate_checksum_def)

lemma small_intact: "intact small_fs 0 0"
proof -
  have "get_bytes (fblk small_fs 0 0) 0 BSIZE = replicate BSIZE 0"
    by (intro nth_equalityI) (simp_all add: get_bytes_def fblk_def bread_def small_fs_def)
  thus ?thesis using small_ptr[of 0] by (simp add: intact_def small_addr checksum_zeros)
qed

lemma xor_cancel: "(a :: u8) XOR b = a \<Longrightarrow> b = 0"
proof -
  assume h: "a XOR b = a"
  have "a XOR (a XOR b) = b" by (simp add: xor.assoc[symmetric])
  thus "b = 0" unfolding h by simp
qed

lemma xor_zero: "(a :: u8) XOR b = 0 \<Longrightarrow> b = a"
proof -
  assume h: "a XOR b = 0"
  have "a XOR (a XOR b) = b" by (simp add: xor.assoc[symmetric])
  thus "b = a" unfolding h by simp
qed

subsection \<open>Files\<close>

text \<open>
  C7: reading.  On an inode that is not a device, a read at an offset within the file returns exactly the
  bytes of the file from the offset up to the requested length or the end of the file, without a change
  of state, provided the blocks it touches are mapped; for a checksummed file it returns -1 instead
  exactly when one of these blocks does not match its stored checksum.
\<close>

theorem readi_reads_file:
  assumes "itype (icache s ! i) \<noteq> T_DEV" "off \<le> isize (icache s ! i)" "unat off + unat n < 2 ^ 32"
    and "m = min (unat n) (unat (isize (icache s ! i)) - unat off)"
    and "\<And>bn. touches (unat off) m bn \<Longrightarrow> mapped s i bn"
  shows "if itype (icache s ! i) = T_CHECKED \<and> (\<exists>bn. touches (unat off) m bn \<and> \<not> intact s i bn)
         then \<exists>xs. readi dv s i off n = Some (-1, xs, s)
         else readi dv s i off n = Some (int m, map (fbyte s i) [unat off..<unat off + m], s)"
  using readi_file[OF assms] .

text \<open>Witness for C7: three bytes of the example file.\<close>

theorem readi_reads_file_witness:
  "readi no_devices small_fs 0 0 3 = Some (3, [0, 0, 0], small_fs)"
proof -
  have "itype (icache small_fs ! 0) \<noteq> T_DEV" "(0::u32) \<le> isize (icache small_fs ! 0)"
    and m: "(3::nat) = min (unat (3::u32)) (unat (isize (icache small_fs ! 0)) - unat (0::u32))"
    by (simp_all add: small_fs_def small_file_def)
  note r = readi_reads_file[OF this(1,2) _ m, where dv = no_devices]
  have t: "\<And>bn. touches (unat (0::u32)) 3 bn \<Longrightarrow> bn = 0" using small_touch[of 3] by simp
  have "map (fbyte small_fs 0) [0..<3] = [0, 0, 0]"
    by (simp add: fbyte_def fblk_def bread_def small_fs_def upt_rec)
  thus ?thesis using r t small_intact small_mapped by (auto split: if_splits)
qed

text \<open>
  C8: write, then read.  Writing a non-empty list of bytes to mapped blocks of a regular or checksummed
  file succeeds, the bytes can be read back at the same place (so every checksum written is right), bytes of the
  file outside the range keep their values, the layout of the file does not change, and no intact block becomes corrupt.
  The size becomes the end of the write for a checksummed file, even if that is smaller than the old
  size, and the larger of the two otherwise.
\<close>

theorem writei_readi_roundtrip:
  assumes ok: "file_ok s i" and ty: "itype (icache s ! i) \<noteq> T_DEV" and sz: "off \<le> isize (icache s ! i)"
    and len: "unat off + length src \<le> MAXFILE * BSIZE" "src \<noteq> []"
    and mp: "\<And>bn. touches (unat off) (length src) bn \<Longrightarrow> mapped s i bn"
  shows "\<exists>t. writei dv s i src off (of_nat (length src)) = Some (int (length src), t) \<and>
     readi dv t i off (of_nat (length src)) = Some (int (length src), src, t) \<and> same_layout s i t \<and>
     (\<forall>k. mapped s i (k div BSIZE) \<longrightarrow> \<not> (unat off \<le> k \<and> k < unat off + length src) \<longrightarrow> fbyte t i k = fbyte s i k) \<and>
     (itype (icache s ! i) = T_CHECKED \<longrightarrow> (\<forall>bn. mapped s i bn \<longrightarrow> intact s i bn \<longrightarrow> intact t i bn)) \<and>
     unat (isize (icache t ! i)) =
       (if itype (icache s ! i) = T_CHECKED then unat off + length src
        else max (unat (isize (icache s ! i))) (unat off + length src))"
proof -
  let ?c = "itype (icache s ! i) = T_CHECKED" and ?n = "length src"
  obtain u where u: "writei_loop ?c s i (unat off) src = Some u" "same_layout s i u" "isize (icache u ! i) = isize (icache s ! i)"
    and ub: "\<And>k. mapped s i (k div BSIZE) \<Longrightarrow> fbyte u i k = (if unat off \<le> k \<and> k < unat off + ?n then src ! (k - unat off) else fbyte s i k)"
    and uc: "\<And>bn. ?c \<Longrightarrow> mapped s i bn \<Longrightarrow> touches (unat off) ?n bn \<or> intact s i bn \<Longrightarrow> intact u i bn"
    using writei_loop_ok[OF ok mp, where chk = ?c] by blast
  let ?e = "off + of_nat ?n :: u32"
  have un: "unat (of_nat ?n :: u32) = ?n" using len(1) by (intro unat_of_nat32) simp
  have sum: "unat ?e = unat off + ?n" using len(1) un by (simp add: unat_word_ariths)
  define t where "t = (if ?c \<or> ?e > isize (icache u ! i) then iupdate (iupd u i (\<lambda>ip. ip\<lparr>isize := ?e\<rparr>)) i else u)"
  have w: "writei dv s i src off (of_nat ?n) = Some (int ?n, t)"
    using writei_result[OF ty sz len] u(1) by (simp add: t_def)
  have oku: "file_ok u i" using same_layout_ok[OF u(2) ok] .
  note v = iupd_size_view[OF oku, where z = ?e]
  have slu: "same_layout u i t" using v(1) by (simp add: t_def)
  have sl: "same_layout s i t" using same_layout_trans[OF u(2) slu] .
  have mu: "mapped u i a = mapped s i a" "mapped t i a = mapped s i a" for a
    using same_layout_mapped[OF u(2)] same_layout_mapped[OF sl] by auto
  have tb: "fbyte t i k = fbyte u i k" if "mapped s i (k div BSIZE)" for k
    using v(3)[of "k div BSIZE"] that mu by (simp add: t_def fbyte_def)
  have ti: "intact t i a = intact u i a" if "mapped s i a" for a
    using v(4)[of a] that mu by (simp add: t_def)
  have size: "unat (isize (icache t ! i)) = (if ?c then unat off + ?n else max (unat (isize (icache s ! i))) (unat off + ?n))"
    using v(2) sum u(3) by (auto simp: t_def word_less_nat_alt)
  have tty: "itype (icache t ! i) = itype (icache s ! i)" using sl by (simp add: same_layout_def)
  have osz: "off \<le> isize (icache t ! i)" using size by (auto simp: word_le_nat_alt split: if_splits)
  have m: "?n = min (unat (of_nat ?n :: u32)) (unat (isize (icache t ! i)) - unat off)" using un size by (auto split: if_splits)
  have ov: "unat off + unat (of_nat ?n :: u32) < 2 ^ 32" using un len(1) by simp
  have "readi dv t i off (of_nat ?n) = Some (int ?n, map (fbyte t i) [unat off..<unat off + ?n], t)"
    using readi_file[of t i off "of_nat ?n", OF _ osz ov m, where dv = dv] ty tty mp mu uc ti by (auto split: if_splits)
  moreover have "map (fbyte t i) [unat off..<unat off + ?n] = src"
  proof (rule nth_equalityI)
    fix k assume "k < length (map (fbyte t i) [unat off..<unat off + ?n])"
    hence k: "k < ?n" by simp
    have "touches (unat off) ?n ((unat off + k) div BSIZE)"
      using k by (auto simp: touches_def div_le_mono)
    hence "mapped s i ((unat off + k) div BSIZE)" by (rule mp)
    thus "map (fbyte t i) [unat off..<unat off + ?n] ! k = src ! k" using k tb ub by simp
  qed simp
  moreover have "fbyte t i k = fbyte s i k" if "mapped s i (k div BSIZE)" "\<not> (unat off \<le> k \<and> k < unat off + ?n)" for k
    using tb[OF that(1)] ub[OF that(1)] that(2) by auto
  ultimately show ?thesis using w sl size ti uc by auto
qed

text \<open>Witness for C8: \<open>abc\<close> written to the example file, which shrinks from 512 bytes to 3.\<close>

theorem writei_readi_roundtrip_witness:
  "\<exists>t. writei no_devices small_fs 0 [97, 98, 99] 0 3 = Some (3, t) \<and> readi no_devices t 0 0 3 = Some (3, [97, 98, 99], t) \<and>
     isize (icache small_fs ! 0) = 512 \<and> unat (isize (icache t ! 0)) = 3"
proof -
  have p: "itype (icache small_fs ! 0) = T_CHECKED" "isize (icache small_fs ! 0) = 512"
    by (simp_all add: small_fs_def small_file_def)
  have "\<And>bn. touches (unat (0::u32)) (length [97, 98, 99 :: u8]) bn \<Longrightarrow> mapped small_fs 0 bn"
    using small_touch[of "length [97, 98, 99 :: u8]"] small_mapped by auto
  from writei_readi_roundtrip[of small_fs 0 0 "[97, 98, 99]", OF small_ok _ _ _ _ this, where dv = no_devices] p
  show ?thesis by auto
qed



subsection \<open>Blocks\<close>

text \<open>
  Block allocation.  \<open>balloc\<close> returns the lowest block whose bitmap bit is clear and marks exactly that
  block as used, leaving the inode cache, the superblock and all disk blocks but one bitmap block unchanged;
  it panics only when all blocks covered by the bitmap are in use.
\<close>

theorem balloc_takes_lowest_free:
  "case balloc s dev of
     None \<Rightarrow> \<forall>b. unat b < nmap s dev \<longrightarrow> b \<in> used_blocks dev s
   | Some (b, s') \<Rightarrow> unat b < nmap s dev \<and> b \<notin> used_blocks dev s \<and> (\<forall>y. unat y < unat b \<longrightarrow> y \<in> used_blocks dev s) \<and>
       used_blocks dev s' = insert b (used_blocks dev s) \<and> icache s' = icache s \<and> readsb s' dev = readsb s dev \<and>
       (\<forall>dev' b'. (dev', b') \<noteq> (dev, BBLOCK b (sb_ninodes (readsb s dev))) \<longrightarrow> bread s' dev' b' = bread s dev' b')"
proof (cases "balloc s dev")
  case None
  thus ?thesis using balloc_full by simp
next
  case (Some r)
  obtain b s' where r: "r = (b, s')" by force
  note sp = balloc_spec[OF Some[unfolded r]]
  show ?thesis using Some r sp by auto
qed

lemma map_fs_sb: "readsb map_fs 0 = \<lparr>sb_size = 1024, sb_nblocks = 0, sb_ninodes = 200\<rparr>"
  by (simp add: readsb_def bread_def map_fs_def rd32_def le32_def Let_def)

text \<open>An evaluation: block 2 is the first free block of the example disk.\<close>

theorem balloc_takes_lowest_free_witness:
  "\<exists>s'. balloc map_fs 0 = Some (2, s') \<and> 2 \<notin> used_blocks 0 map_fs \<and> used_blocks 0 s' = insert 2 (used_blocks 0 map_fs)"
proof -
  let ?d = "bread map_fs 0 (BBLOCK 0 200)"
  have d: "?d = (\<lambda>k. if k = 0 then 3 else 0)" by (auto simp: BBLOCK_def bread_def map_fs_def)
  have "first_idx (\<lambda>bi. \<not> map_bit ?d bi) [0..<BPB] = Some 2"
    unfolding first_idx_Some d by (auto simp: map_bit_def less_Suc_eq numeral_2_eq_2)
  moreover have "[0..<(1024 + BPB - 1) div BPB] = [0]" by simp
  ultimately obtain s' where s': "balloc map_fs 0 = Some (2, s')"
    by (simp add: balloc_def Let_def map_fs_sb)
  show ?thesis using balloc_takes_lowest_free[of map_fs 0] s' by simp
qed

text \<open>
  Block release.  Freeing a data block that is in use succeeds, clears its bit and no other,
  and zeroes the block; freeing the block that \<open>balloc\<close> just returned restores the set of used blocks.
\<close>

theorem bfree_releases:
  assumes "data_block dev s b"
  shows "(b \<in> used_blocks dev s \<longrightarrow> (\<exists>s'. bfree s dev b = Some s' \<and> used_blocks dev s' = used_blocks dev s - {b} \<and>
            (\<forall>k < BSIZE. bread s' dev b k = 0))) \<and>
         (\<forall>s1. balloc s dev = Some (b, s1) \<longrightarrow> (\<exists>s2. bfree s1 dev b = Some s2 \<and> used_blocks dev s2 = used_blocks dev s))"
  using bfree_spec[OF assms] bitmap.alloc_free assms by blast

text \<open>An evaluation: block 2 of a disk whose bitmap has no inode blocks before it would be metadata; block 700 is data.\<close>

definition full_fs :: fsst where
  "full_fs = \<lparr>disk = (\<lambda>_ b k. if b = 1 then (if k = 1 then 4 else if k = 8 then 200 else 0) else if b = 28 then 255 else 1), icache = []\<rparr>"

theorem bfree_releases_witness:
  "data_block 0 full_fs 700 \<and> (\<exists>s'. bfree full_fs 0 700 = Some s' \<and> used_blocks 0 s' = used_blocks 0 full_fs - {700})"
proof -
  have sb: "readsb full_fs 0 = \<lparr>sb_size = 1024, sb_nblocks = 0, sb_ninodes = 200\<rparr>"
    by (simp add: readsb_def bread_def full_fs_def rd32_def le32_def Let_def)
  have n: "nmap full_fs 0 = 4096" by (simp add: nmap_def sb)
  have db: "data_block 0 full_fs 700" unfolding data_block_def n sb by simp
  have "used full_fs 0 700"
    unfolding used_def sb by (simp add: BBLOCK_def bread_def full_fs_def map_bit_def)
  hence "700 \<in> used_blocks 0 full_fs" by (simp add: used_blocks_def n)
  thus ?thesis using bfree_releases[OF db] db by blast
qed

subsection \<open>Inodes\<close>

text \<open>
  Inodes survive the disk.  After \<open>iupdate\<close>, locking a cache entry for the same inode whose copy
  is not valid loads exactly the type, device numbers, link count, size and addresses that were in memory; the
  other inodes of the block are not changed.
\<close>

theorem iupdate_ilock_roundtrip:
  assumes i: "i < length (icache s)" "length (addrs (icache s ! i)) = 13" "itype (icache s ! i) \<noteq> 0" "iref (icache s ! i) \<ge> 1"
  shows "\<exists>t. ilock (iupd (iupdate s i) i (\<lambda>ip. (ip\<lparr>ibusy := False, ivalid := False, itype := ty, imajor := mj, iminor := mn,
              inlink := nl, isize := sz, addrs := as\<rparr>))) i = Some t \<and>
     icache t ! i = (icache s ! i)\<lparr>ibusy := True, ivalid := True\<rparr> \<and>
     (\<forall>k. k div 64 \<noteq> unat (inum (icache s ! i)) mod IPB \<longrightarrow>
        bread t (idev (icache s ! i)) (IBLOCK (inum (icache s ! i))) k = bread s (idev (icache s ! i)) (IBLOCK (inum (icache s ! i))) k)"
proof -
  let ?ip = "icache s ! i" and ?b = "IBLOCK (inum (icache s ! i))" and ?o = "64 * (unat (inum (icache s ! i)) mod IPB)"
  let ?x = "\<lparr>d_type = itype ?ip, d_major = imajor ?ip, d_minor = iminor ?ip, d_nlink = inlink ?ip, d_size = isize ?ip, d_addrs = addrs ?ip\<rparr>"
  define u where "u = iupd (iupdate s i) i (\<lambda>ip. (ip\<lparr>ibusy := False, ivalid := False, itype := ty, imajor := mj, iminor := mn,
              inlink := nl, isize := sz, addrs := as\<rparr>))"
  have ic: "icache u ! i = ?ip\<lparr>ibusy := False, ivalid := False, itype := ty, imajor := mj, iminor := mn, inlink := nl, isize := sz, addrs := as\<rparr>"
    "length (icache u) = length (icache s)"
    using i(1) by (simp_all add: u_def iupd_def iupdate_def Let_def)
  have bu: "bread u (idev ?ip) ?b = wr_dinode (bread s (idev ?ip) ?b) ?o ?x"
    by (simp add: u_def iupd_def iupdate_def Let_def bread_def bwrite_def)
  have rd: "rd_dinode (bread u (idev ?ip) ?b) ?o = ?x" unfolding bu by (rule rd_wr_dinode) (simp add: i(2))
  define t where "t = iupd u i (\<lambda>ip. ip\<lparr>ibusy := True, ivalid := True, itype := itype ?ip, imajor := imajor ?ip, iminor := iminor ?ip,
     inlink := inlink ?ip, isize := isize ?ip, addrs := addrs ?ip\<rparr>)"
  have "ilock u i = Some t"
    using i(3,4) rd by (simp add: ilock_def Let_def ic t_def)
  moreover have "icache t ! i = ?ip\<lparr>ibusy := True, ivalid := True\<rparr>"
    using i(1) ic by (simp add: t_def iupd_def)
  moreover have "bread t (idev ?ip) ?b k = bread s (idev ?ip) ?b k" if "k div 64 \<noteq> unat (inum ?ip) mod IPB" for k
  proof -
    have "k < ?o \<or> ?o + 64 \<le> k" using that by (metis div_mult_self1_is_m div_nat_eqI leI mult.commute mult_Suc_right add.commute zero_less_numeral)
    moreover have "bread t (idev ?ip) ?b = bread u (idev ?ip) ?b" by (simp add: t_def iupd_def bread_def)
    ultimately show ?thesis unfolding bu using wr_dinode_outside[of ?x k ?o] i(2) by simp
  qed
  ultimately show ?thesis unfolding u_def[symmetric] by blast
qed

text \<open>An evaluation: the example inode.\<close>

theorem iupdate_ilock_roundtrip_witness:
  "\<exists>t. ilock (iupd (iupdate small_fs 0) 0 (\<lambda>ip. (ip\<lparr>ibusy := False, ivalid := False, itype := 0, imajor := 0, iminor := 0,
              inlink := 0, isize := 0, addrs := []\<rparr>))) 0 = Some t \<and> icache t ! 0 = small_file"
proof -
  have e: "icache small_fs ! 0 = small_file" by (simp add: small_fs_def)
  have "small_file\<lparr>ibusy := True, ivalid := True\<rparr> = small_file" by (simp add: small_file_def)
  moreover have "0 < length (icache small_fs)" "length (addrs (icache small_fs ! 0)) = 13" "itype (icache small_fs ! 0) \<noteq> 0" "iref (icache small_fs ! 0) \<ge> 1"
    by (simp_all add: small_fs_def small_file_def)
  ultimately show ?thesis
    using iupdate_ilock_roundtrip[of 0 small_fs, where ty = 0 and mj = 0 and mn = 0 and nl = 0 and sz = 0 and as = "[]"] unfolding e by auto
qed

subsection \<open>Paths\<close>

text \<open>The elements that the loop of \<open>namex\<close> takes from a path, and the elements a path denotes.\<close>

function elems :: "u8 list \<Rightarrow> u8 list list" where
  "elems path = (case skipelem path of None \<Rightarrow> [] | Some (rest, nm) \<Rightarrow> nm # elems rest)"
  by pat_completeness auto
termination
  by (relation "measure length") (auto dest: skipelem_shorter)

declare elems.simps [simp del]

fun split_slash :: "u8 list \<Rightarrow> u8 list list" where
  "split_slash [] = [[]]"
| "split_slash (c # cs) = (if c = slash then [] # split_slash cs
     else (case split_slash cs of [] \<Rightarrow> [[c]] | x # xs \<Rightarrow> (c # x) # xs))"

lemma split_slash_nonempty: "split_slash p \<noteq> []"
  by (induction p) (auto split: list.splits)

lemma split_slash_skip: "filter (\<lambda>x. x \<noteq> []) (split_slash (dropWhile (\<lambda>c. c = slash) p)) = filter (\<lambda>x. x \<noteq> []) (split_slash p)"
  by (induction p) auto

lemma split_slash_take:
  "split_slash p = takeWhile (\<lambda>c. c \<noteq> slash) p #
     (case dropWhile (\<lambda>c. c \<noteq> slash) p of [] \<Rightarrow> [] | _ # r \<Rightarrow> split_slash r)"
  by (induction p) (auto split: list.splits)

text \<open>
  Path parsing.  The sequence of names the path walk takes from a path consists of the non-empty parts between
  slashes, in order, each cut to 14 bytes.
\<close>

theorem path_elements:
  "elems path = map (take DIRSIZ) (filter (\<lambda>x. x \<noteq> []) (split_slash path))"
proof (induction path rule: elems.induct)
  case (1 path)
  let ?p = "dropWhile (\<lambda>c. c = slash) path"
  show ?case
  proof (cases "?p = []")
    case True
    have "filter (\<lambda>x. x \<noteq> []) (split_slash path) = []" using split_slash_skip[of path] unfolding True by simp
    moreover have "skipelem path = None" using True unfolding skipelem_def Let_def by simp
    ultimately show ?thesis by (simp add: elems.simps[of path])
  next
    case False
    let ?t = "takeWhile (\<lambda>c. c \<noteq> slash) ?p" and ?d = "dropWhile (\<lambda>c. c \<noteq> slash) ?p"
    let ?r = "dropWhile (\<lambda>c. c = slash) ?d"
    have sk: "skipelem path = Some (?r, take DIRSIZ ?t)" using False by (simp add: skipelem_def Let_def)
    have ne: "?t \<noteq> []" using False hd_dropWhile[of "\<lambda>c. c = slash" path] by (cases ?p) auto
    have IH: "elems ?r = map (take DIRSIZ) (filter (\<lambda>x. x \<noteq> []) (split_slash ?r))" using "1.IH"[OF sk refl] .
    have rest: "filter (\<lambda>x. x \<noteq> []) (split_slash ?d) = filter (\<lambda>x. x \<noteq> []) (case ?d of [] \<Rightarrow> [] | _ # r \<Rightarrow> split_slash r)"
    proof (cases ?d)
      case (Cons c r)
      hence "c = slash" using hd_dropWhile[of "\<lambda>c. c \<noteq> slash" ?p] by auto
      thus ?thesis unfolding Cons by simp
    next
      case Nil
      show ?thesis unfolding Nil by simp
    qed
    have "filter (\<lambda>x. x \<noteq> []) (split_slash path) = ?t # filter (\<lambda>x. x \<noteq> []) (split_slash ?r)"
      using split_slash_skip[of path] split_slash_take[of ?p] split_slash_skip[of ?d] rest ne by simp
    thus ?thesis using sk IH by (simp add: elems.simps[of path])
  qed
qed

end
