(* ===== verification/FsCheck.thy ===== *)
theory FsCheck
  imports FsBlocks
begin

text \<open>
  The file system checker (\<^verbatim>\<open>Project5a/main.c\<close>).  The mapped image is a function from byte offsets
  to bytes; the on-disk structures are those of the theory \<open>Fs\<close>.  A check that prints an error
  and exits is \<open>Inl\<close> of that error; an access outside the checker's own tables, which is
  undefined in C, is \<open>Inl OutOfTable\<close>.  The counters of type \<open>char\<close> are 8-bit words.
\<close>

subsection \<open>State\<close>

datatype fsck_error =
    BadInode | BadAddress | AddressFree | AddressTwice | DirFormat | DirTwice | EntryFree
  | NoRoot | ParentMismatch | BitmapUnused | InodeLost | BadRefCount | OutOfTable

record ck =
  my_bitmap :: "u8 list"
  my_inode :: "u8 list"
  my_inode_alloced :: "bool list"
  my_dir_parent_inode :: "u8 list"
  parent_mismatch_seen :: bool
  seen_root :: bool

text \<open>Loops that a failing check leaves.\<close>

fun foldE :: "('s \<Rightarrow> 'a \<Rightarrow> 'e + 's) \<Rightarrow> 's \<Rightarrow> 'a list \<Rightarrow> 'e + 's" where
  "foldE f s [] = Inr s"
| "foldE f s (x # xs) = (case f s x of Inl e \<Rightarrow> Inl e | Inr s' \<Rightarrow> foldE f s' xs)"

subsection \<open>Image access\<close>

definition rsect :: "u32 \<Rightarrow> (nat \<Rightarrow> u8) \<Rightarrow> block" where
  "rsect sect img = (\<lambda>k. img (unat (sect * 512) + k))"

definition image_inode :: "(nat \<Rightarrow> u8) \<Rightarrow> nat \<Rightarrow> dinode" where
  "image_inode img k = rd_dinode (rsect 2 img) (64 * k)"

definition n_blocks :: "dinode \<Rightarrow> nat" where
  "n_blocks dip = unat (d_size dip) div 512 + (if unat (d_size dip) mod 512 \<noteq> 0 then 1 else 0)"

definition dip_block :: "(nat \<Rightarrow> u8) \<Rightarrow> dinode \<Rightarrow> nat \<Rightarrow> u32" where
  "dip_block img dip i =
     (if i < NDIRECT then d_addrs dip ! i else rd32 (rsect (d_addrs dip ! NDIRECT) img) (4 * (i - NDIRECT)))"

definition is_dot :: "u8 list \<Rightarrow> bool" where
  "is_dot nm \<longleftrightarrow> nm ! 0 = 46 \<and> nm ! 1 = 0"

definition is_dotdot :: "u8 list \<Rightarrow> bool" where
  "is_dotdot nm \<longleftrightarrow> nm ! 0 = 46 \<and> nm ! 1 = 46 \<and> nm ! 2 = 0"

subsection \<open>Checks\<close>

definition check_inode_alloced :: "(nat \<Rightarrow> u8) \<Rightarrow> ck \<Rightarrow> nat \<Rightarrow> fsck_error + ck" where
  "check_inode_alloced img s n =
     (let ty = d_type (image_inode img n)
      in if ty = 0 then Inl EntryFree
         else if ty = T_FILE then
           if n < length (my_inode s) then Inr (s\<lparr>my_inode := (my_inode s)[n := my_inode s ! n - 1]\<rparr>) else Inl OutOfTable
         else Inr s)"

definition check_balloced :: "(nat \<Rightarrow> u8) \<Rightarrow> ck \<Rightarrow> u32 \<Rightarrow> fsck_error + ck" where
  "check_balloced img s b =
     (let bitmap = rsect (BBLOCK b 200) img; off = unat b div 8; bit_off = unat b mod 8
      in if \<not> bit (bitmap off) bit_off then Inl AddressFree
         else if \<not> off < length (my_bitmap s) then Inl OutOfTable
         else if \<not> bit (my_bitmap s ! off) bit_off then Inl AddressTwice
         else Inr (s\<lparr>my_bitmap := (my_bitmap s)[off := my_bitmap s ! off AND NOT (push_bit bit_off 1)]\<rparr>))"

text \<open>The scan of one directory block for the entry of a child, which stops at an empty entry.\<close>

fun seen_child_in :: "block \<Rightarrow> nat \<Rightarrow> nat list \<Rightarrow> bool" where
  "seen_child_in d child [] = False"
| "seen_child_in d child (j # js) =
     (let de = rd_dirent d (16 * j)
      in if de_inum de = 0 then False
         else if is_dotdot (de_name de) \<or> is_dot (de_name de) then seen_child_in d child js
         else if unat (de_inum de) = child then True
         else seen_child_in d child js)"

definition check_parent_dir :: "(nat \<Rightarrow> u8) \<Rightarrow> ck \<Rightarrow> nat \<Rightarrow> nat \<Rightarrow> ck" where
  "check_parent_dir img s par child =
     (let dip = image_inode img par;
          seen = (d_type dip = T_DIR \<and>
            (\<exists>i \<in> set [0..<n_blocks dip]. seen_child_in (rsect (dip_block img dip i) img) child [0..<32]))
      in if \<not> seen \<and> child \<noteq> 1 then s\<lparr>parent_mismatch_seen := True\<rparr> else s)"

text \<open>One directory entry of \<open>check_dir_inode\<close>, with the flags for \<open>.\<close> and \<open>..\<close>.\<close>

definition check_entry :: "(nat \<Rightarrow> u8) \<Rightarrow> nat \<Rightarrow> ck \<times> bool \<times> bool \<Rightarrow> dirent \<Rightarrow> fsck_error + ck \<times> bool \<times> bool" where
  "check_entry img me st de =
     (case st of (s, self, par) \<Rightarrow>
        let n = unat (de_inum de);
            r = (if \<not> self \<and> is_dot (de_name de) then Inr (s, True, par)
                 else if \<not> par \<and> is_dotdot (de_name de) then
                   let s1 = (if \<not> seen_root s \<and> n = me \<and> me = 1 then s\<lparr>seen_root := True\<rparr> else s)
                   in Inr (check_parent_dir img s1 n me, self, True)
                 else if d_type (image_inode img n) = T_DIR then
                   if \<not> n < length (my_dir_parent_inode s) then Inl OutOfTable
                   else if my_dir_parent_inode s ! n = 0 then
                     Inr (s\<lparr>my_dir_parent_inode := (my_dir_parent_inode s)[n := of_nat me]\<rparr>, self, par)
                   else Inl DirTwice
                 else Inr (s, self, par))
        in case r of
             Inl e \<Rightarrow> Inl e
           | Inr (s1, self1, par1) \<Rightarrow>
               (case check_inode_alloced img s1 n of
                  Inl e \<Rightarrow> Inl e
                | Inr s2 \<Rightarrow>
                    if n < length (my_inode_alloced s2)
                    then Inr (s2\<lparr>my_inode_alloced := (my_inode_alloced s2)[n := False]\<rparr>, self1, par1)
                    else Inl OutOfTable))"

fun check_entries :: "(nat \<Rightarrow> u8) \<Rightarrow> nat \<Rightarrow> block \<Rightarrow> ck \<times> bool \<times> bool \<Rightarrow> nat list \<Rightarrow> fsck_error + ck \<times> bool \<times> bool" where
  "check_entries img me d st [] = Inr st"
| "check_entries img me d st (j # js) =
     (if de_inum (rd_dirent d (16 * j)) = 0 then Inr st
      else case check_entry img me st (rd_dirent d (16 * j)) of
             Inl e \<Rightarrow> Inl e
           | Inr st' \<Rightarrow> check_entries img me d st' js)"

definition check_dir_inode :: "(nat \<Rightarrow> u8) \<Rightarrow> ck \<Rightarrow> nat \<Rightarrow> dinode \<Rightarrow> fsck_error + ck" where
  "check_dir_inode img s me dip =
     (case foldE (\<lambda>st i. check_entries img me (rsect (dip_block img dip i) img) st [0..<32]) (s, False, False) [0..<n_blocks dip] of
        Inl e \<Rightarrow> Inl e
      | Inr (s', self, par) \<Rightarrow> if self \<and> par then Inr s' else Inl DirFormat)"

definition check_addr :: "(nat \<Rightarrow> u8) \<Rightarrow> ck \<Rightarrow> u32 \<Rightarrow> fsck_error + ck" where
  "check_addr img s a = (if a < 29 \<or> a > 1024 then Inl BadAddress else check_balloced img s a)"

definition check_inode_addrs :: "(nat \<Rightarrow> u8) \<Rightarrow> ck \<Rightarrow> dinode \<Rightarrow> fsck_error + ck" where
  "check_inode_addrs img s dip =
     (case (if n_blocks dip > NDIRECT then check_addr img s (d_addrs dip ! NDIRECT) else Inr s) of
        Inl e \<Rightarrow> Inl e
      | Inr s1 \<Rightarrow> foldE (check_addr img) s1 (map (dip_block img dip) [0..<n_blocks dip]))"

definition check_inode :: "(nat \<Rightarrow> u8) \<Rightarrow> ck \<Rightarrow> nat \<Rightarrow> fsck_error + ck" where
  "check_inode img s i =
     (let dip = image_inode img i; ty = d_type dip
      in if ty = 0 then Inr s
         else if ty = T_DEV \<or> ty = T_FILE then check_inode_addrs img s dip
         else if ty = T_DIR then
           (case check_inode_addrs img s dip of Inl e \<Rightarrow> Inl e | Inr s1 \<Rightarrow> check_dir_inode img s1 i dip)
         else Inl BadInode)"

subsection \<open>The main program\<close>

definition init_inode :: "(nat \<Rightarrow> u8) \<Rightarrow> ck \<Rightarrow> nat \<Rightarrow> fsck_error + ck" where
  "init_inode img s i =
     (let dip = image_inode img i
      in if d_type dip \<noteq> 0 \<and> \<not> i < length (my_inode_alloced s) then Inl OutOfTable
         else let s1 = (if d_type dip \<noteq> 0 then s\<lparr>my_inode_alloced := (my_inode_alloced s)[i := True]\<rparr> else s)
              in Inr (if d_type dip = T_FILE then s1\<lparr>my_inode := (my_inode s1)[i := ucast (d_nlink dip)]\<rparr> else s1))"

definition fsck :: "(nat \<Rightarrow> u8) \<Rightarrow> fsck_error + ck" where
  "fsck img =
     (let ninodes = rd32 (rsect 1 img) 8;
          s0 = \<lparr>my_bitmap = get_bytes (rsect (BBLOCK 1 ninodes) img) 0 512, my_inode = replicate 200 0,
                my_inode_alloced = replicate 200 False, my_dir_parent_inode = replicate 200 0,
                parent_mismatch_seen = False, seen_root = False\<rparr>
      in case foldE (init_inode img) s0 [0..<unat ninodes] of
           Inl e \<Rightarrow> Inl e
         | Inr s1 \<Rightarrow>
             (case foldE (check_inode img) s1 [0..<unat ninodes] of
                Inl e \<Rightarrow> Inl e
              | Inr s2 \<Rightarrow>
                  if \<not> seen_root s2 then Inl NoRoot
                  else if parent_mismatch_seen s2 then Inl ParentMismatch
                  else case foldE (check_balloced img) s2 (map of_nat [0..<29]) of
                         Inl e \<Rightarrow> Inl e
                       | Inr s3 \<Rightarrow>
                           if (\<exists>x \<in> set (my_bitmap s3). x \<noteq> 0) then Inl BitmapUnused
                           else if (\<exists>b \<in> set (my_inode_alloced s3). b) then Inl InodeLost
                           else if (\<exists>c \<in> set (my_inode s3). c \<noteq> 0) then Inl BadRefCount
                           else Inr s3))"

subsection \<open>Folding checks\<close>

lemma foldE_append: "foldE f s (xs @ ys) = (case foldE f s xs of Inl e \<Rightarrow> Inl e | Inr s' \<Rightarrow> foldE f s' ys)"
  by (induction xs arbitrary: s) (auto split: sum.splits)

lemma foldE_inv:
  assumes "foldE f s xs = Inr t" "I s" "\<And>s x s'. I s \<Longrightarrow> f s x = Inr s' \<Longrightarrow> I s'"
  shows "I t"
  using assms(1,2) by (induction xs arbitrary: s) (auto split: sum.splits intro: assms(3))

subsection \<open>Block accounting\<close>

definition bm_bit :: "u8 list \<Rightarrow> u32 \<Rightarrow> bool" where
  "bm_bit bm b \<longleftrightarrow> unat b div 8 < length bm \<and> bit (bm ! (unat b div 8)) (unat b mod 8)"

lemma div_mod_8_eq: "unat (a :: u32) div 8 = unat b div 8 \<Longrightarrow> unat a mod 8 = unat b mod 8 \<Longrightarrow> a = b"
  by (metis div_mult_mod_eq word_unat_eq_iff)

lemma check_balloced_ok:
  assumes "check_balloced img s b = Inr t"
  shows "bm_bit (my_bitmap s) b" "bit (rsect (BBLOCK b 200) img (unat b div 8)) (unat b mod 8)"
    "\<And>c. bm_bit (my_bitmap t) c \<longleftrightarrow> c \<noteq> b \<and> bm_bit (my_bitmap s) c"
    "length (my_bitmap t) = length (my_bitmap s)"
proof -
  have h: "unat b div 8 < length (my_bitmap s)" "bit (my_bitmap s ! (unat b div 8)) (unat b mod 8)"
    "bit (rsect (BBLOCK b 200) img (unat b div 8)) (unat b mod 8)"
    and t: "t = s\<lparr>my_bitmap := (my_bitmap s)[unat b div 8 := my_bitmap s ! (unat b div 8) AND NOT (push_bit (unat b mod 8) 1)]\<rparr>"
    using assms by (auto simp: check_balloced_def Let_def split: if_splits)
  show "bm_bit (my_bitmap s) b" "bit (rsect (BBLOCK b 200) img (unat b div 8)) (unat b mod 8)" using h by (auto simp: bm_bit_def)
  show "length (my_bitmap t) = length (my_bitmap s)" using t by simp
  fix c
  show "bm_bit (my_bitmap t) c \<longleftrightarrow> c \<noteq> b \<and> bm_bit (my_bitmap s) c"
  proof (cases "unat c div 8 = unat b div 8")
    case True
    have "unat c mod 8 < 8" by simp
    thus ?thesis using True h(1) div_mod_8_eq[of c b] t by (auto simp: bm_bit_def bit_simps)
  next
    case False
    thus ?thesis using t by (auto simp: bm_bit_def)
  qed
qed

lemma check_balloced_list:
  assumes "foldE (check_balloced img) s bs = Inr t"
  shows "distinct bs \<and> (\<forall>b \<in> set bs. bm_bit (my_bitmap s) b \<and> bit (rsect (BBLOCK b 200) img (unat b div 8)) (unat b mod 8)) \<and>
    (\<forall>c. bm_bit (my_bitmap t) c \<longleftrightarrow> c \<notin> set bs \<and> bm_bit (my_bitmap s) c) \<and>
    length (my_bitmap t) = length (my_bitmap s)"
  using assms
proof (induction bs arbitrary: s)
  case (Cons b bs)
  obtain u where u: "check_balloced img s b = Inr u" "foldE (check_balloced img) u bs = Inr t"
    using Cons.prems by (auto split: sum.splits)
  note c = check_balloced_ok[OF u(1)] and IH = Cons.IH[OF u(2)]
  show ?case using c IH by auto
qed simp

lemma check_balloced_complete:
  assumes "distinct bs" "\<forall>b \<in> set bs. bm_bit (my_bitmap s) b \<and> bit (rsect (BBLOCK b 200) img (unat b div 8)) (unat b mod 8)"
  shows "\<exists>bm. foldE (check_balloced img) s bs = Inr (s\<lparr>my_bitmap := bm\<rparr>)"
  using assms
proof (induction bs arbitrary: s)
  case Nil
  have "s = s\<lparr>my_bitmap := my_bitmap s\<rparr>" by simp
  thus ?case by (metis foldE.simps(1))
next
  case (Cons b bs)
  obtain bm where u: "check_balloced img s b = Inr (s\<lparr>my_bitmap := bm\<rparr>)"
    using Cons.prems(2) by (auto simp: check_balloced_def Let_def bm_bit_def)
  have "\<forall>c \<in> set bs. bm_bit bm c \<and> bit (rsect (BBLOCK c 200) img (unat c div 8)) (unat c mod 8)"
    using check_balloced_ok(3)[OF u] Cons.prems by auto
  hence "\<exists>bm'. foldE (check_balloced img) (s\<lparr>my_bitmap := bm\<rparr>) bs = Inr (s\<lparr>my_bitmap := bm'\<rparr>)"
    using Cons.IH[of "s\<lparr>my_bitmap := bm\<rparr>"] Cons.prems(1) by simp
  thus ?case using u by auto
qed

definition inode_blocks :: "(nat \<Rightarrow> u8) \<Rightarrow> dinode \<Rightarrow> u32 list" where
  "inode_blocks img dip = (if n_blocks dip > NDIRECT then [d_addrs dip ! NDIRECT] else []) @ map (dip_block img dip) [0..<n_blocks dip]"

lemma check_addr_list:
  assumes "foldE (check_addr img) s bs = Inr t"
  shows "foldE (check_balloced img) s bs = Inr t \<and> (\<forall>b \<in> set bs. 29 \<le> unat b \<and> unat b \<le> 1024)"
  using assms by (induction bs arbitrary: s) (auto simp: check_addr_def word_less_nat_alt word_le_nat_alt split: sum.splits if_splits)

lemma check_inode_addrs_fold: "check_inode_addrs img s dip = foldE (check_addr img) s (inode_blocks img dip)"
  by (auto simp: check_inode_addrs_def inode_blocks_def foldE_append split: sum.splits)

lemma check_entry_bitmap:
  assumes "check_entry img me (s, self, par) de = Inr (t, self', par')"
  shows "my_bitmap t = my_bitmap s"
proof -
  have "my_bitmap (check_parent_dir img u p c) = my_bitmap u" for u p c by (simp add: check_parent_dir_def Let_def)
  thus ?thesis using assms
    by (auto simp: check_entry_def check_inode_alloced_def Let_def split: if_splits sum.splits)
qed

lemma check_entries_bitmap:
  "check_entries img me d (s, fl) js = Inr (t, fl') \<Longrightarrow> my_bitmap t = my_bitmap s"
proof (induction js arbitrary: s fl)
  case (Cons j js)
  obtain self par where fl: "fl = (self, par)" by force
  show ?case
  proof (cases "de_inum (rd_dirent d (16 * j)) = 0")
    case False
    then obtain u where u: "check_entry img me (s, self, par) (rd_dirent d (16 * j)) = Inr u" "check_entries img me d u js = Inr (t, fl')"
      using Cons.prems by (auto simp: fl split: sum.splits)
    obtain u1 u2 u3 where u': "u = (u1, u2, u3)" by (metis surj_pair)
    show ?thesis using Cons.IH[of u1 "(u2, u3)"] u check_entry_bitmap[of img me s self par _ u1 u2 u3] by (simp add: u')
  qed (use Cons.prems in simp)
qed simp

lemma check_dir_bitmap:
  assumes "check_dir_inode img s me dip = Inr t"
  shows "my_bitmap t = my_bitmap s"
proof -
  obtain fl where f: "foldE (\<lambda>st i. check_entries img me (rsect (dip_block img dip i) img) st [0..<32]) (s, False, False) [0..<n_blocks dip] = Inr (t, fl)"
    using assms by (auto simp: check_dir_inode_def split: sum.splits if_splits)
  show ?thesis
    using foldE_inv[OF f, of "\<lambda>st. my_bitmap (fst st) = my_bitmap s"] check_entries_bitmap by fastforce
qed

definition live_blocks :: "(nat \<Rightarrow> u8) \<Rightarrow> nat \<Rightarrow> u32 list" where
  "live_blocks img i = (if d_type (image_inode img i) = 0 then [] else inode_blocks img (image_inode img i))"

lemma check_inode_blocks:
  assumes "check_inode img s i = Inr t"
  shows "d_type (image_inode img i) \<in> {0, T_DIR, T_FILE, T_DEV}"
    "\<exists>u. foldE (check_addr img) s (live_blocks img i) = Inr u \<and> my_bitmap t = my_bitmap u"
  using assms check_dir_bitmap
  by (auto simp: check_inode_def Let_def live_blocks_def check_inode_addrs_fold split: if_splits sum.splits)

lemma check_balloced_cong:
  assumes "foldE (check_balloced img) s bs = Inr t" "my_bitmap s' = my_bitmap s"
  shows "\<exists>t'. foldE (check_balloced img) s' bs = Inr t' \<and> my_bitmap t' = my_bitmap t"
  using assms
proof (induction bs arbitrary: s s')
  case (Cons b bs)
  obtain u where u: "check_balloced img s b = Inr u" "foldE (check_balloced img) u bs = Inr t"
    using Cons.prems(1) by (auto split: sum.splits)
  obtain u' where u': "check_balloced img s' b = Inr u'" "my_bitmap u' = my_bitmap u"
    using u(1) Cons.prems(2) by (auto simp: check_balloced_def Let_def split: if_splits)
  show ?case using Cons.IH[OF u(2) u'(2)] u'(1) by auto
qed simp

lemma check_inodes_blocks:
  assumes "foldE (check_inode img) s is = Inr t"
  shows "(\<forall>i \<in> set is. d_type (image_inode img i) \<in> {0, T_DIR, T_FILE, T_DEV} \<and>
            (\<forall>b \<in> set (live_blocks img i). 29 \<le> unat b \<and> unat b \<le> 1024)) \<and>
         (\<exists>u. foldE (check_balloced img) s (concat (map (live_blocks img) is)) = Inr u \<and> my_bitmap t = my_bitmap u)"
  using assms
proof (induction "is" arbitrary: s)
  case (Cons i "is")
  obtain v where v: "check_inode img s i = Inr v" "foldE (check_inode img) v is = Inr t"
    using Cons.prems by (auto split: sum.splits)
  obtain u where u: "foldE (check_addr img) s (live_blocks img i) = Inr u" "my_bitmap v = my_bitmap u"
    using check_inode_blocks(2)[OF v(1)] by blast
  note ca = check_addr_list[OF u(1)] and IH = Cons.IH[OF v(2)]
  obtain w where w: "foldE (check_balloced img) v (concat (map (live_blocks img) is)) = Inr w" "my_bitmap t = my_bitmap w"
    using IH by blast
  obtain w' where "foldE (check_balloced img) u (concat (map (live_blocks img) is)) = Inr w'" "my_bitmap w' = my_bitmap w"
    using check_balloced_cong[OF w(1), of u] u(2) by auto
  hence "foldE (check_balloced img) s (concat (map (live_blocks img) (i # is))) = Inr w'" "my_bitmap t = my_bitmap w'"
    using ca w(2) by (simp_all add: foldE_append)
  thus ?case using IH ca check_inode_blocks(1)[OF v(1)] by auto
qed simp

lemma bits_zero: "(\<And>n. n < 8 \<Longrightarrow> \<not> bit (x :: u8) n) \<Longrightarrow> x = 0"
  by (rule bit_word_eqI) simp

lemma init_inode_bitmap: "init_inode img s i = Inr t \<Longrightarrow> my_bitmap t = my_bitmap s"
  by (auto simp: init_inode_def Let_def split: if_splits)

lemma init_inodes_bitmap:
  assumes "foldE (init_inode img) s is = Inr t"
  shows "my_bitmap t = my_bitmap s"
  using foldE_inv[OF assms, of "\<lambda>t. my_bitmap t = my_bitmap s"] init_inode_bitmap by metis

text \<open>The blocks the checker counts: those of all inodes in use, and the 29 metadata blocks.\<close>

definition all_blocks :: "(nat \<Rightarrow> u8) \<Rightarrow> u32 list" where
  "all_blocks img = concat (map (live_blocks img) [0..<unat (rd32 (rsect 1 img) 8)])"

text \<open>
  C10: an accepted image has sound block accounting.  Every inode has a known type, every block
  address of an inode in use lies between 29 and 1024, no address is used twice, by one inode or by two,
  and the bitmap block marks exactly the addresses in use and the 29 blocks before the data.
\<close>

theorem fsck_block_accounting:
  assumes "fsck img = Inr s"
  shows "(\<forall>i < unat (rd32 (rsect 1 img) 8). d_type (image_inode img i) \<in> {0, T_DIR, T_FILE, T_DEV}) \<and>
    distinct (all_blocks img) \<and> (\<forall>b \<in> set (all_blocks img). 29 \<le> unat b \<and> unat b \<le> 1024) \<and>
    (\<forall>b. unat b < BPB \<longrightarrow>
       map_bit (rsect (BBLOCK 1 (rd32 (rsect 1 img) 8)) img) (unat b) \<longleftrightarrow> unat b < 29 \<or> b \<in> set (all_blocks img))"
proof -
  let ?n = "rd32 (rsect 1 img) 8" and ?bm = "get_bytes (rsect (BBLOCK 1 (rd32 (rsect 1 img) 8)) img) 0 512"
  obtain s0 s1 s2 where s0: "my_bitmap s0 = ?bm" "foldE (init_inode img) s0 [0..<unat ?n] = Inr s1"
    and s1: "foldE (check_inode img) s1 [0..<unat ?n] = Inr s2"
    and s2: "foldE (check_balloced img) s2 (map of_nat [0..<29]) = Inr s" and z: "\<not> (\<exists>x \<in> set (my_bitmap s). x \<noteq> 0)"
  proof -
    define s0 where "s0 = \<lparr>my_bitmap = ?bm, my_inode = replicate 200 0,
                my_inode_alloced = replicate 200 False, my_dir_parent_inode = replicate 200 0,
                parent_mismatch_seen = False, seen_root = False\<rparr>"
    have "my_bitmap s0 = ?bm" by (simp add: s0_def)
    moreover obtain s1 s2 where "foldE (init_inode img) s0 [0..<unat ?n] = Inr s1"
      "foldE (check_inode img) s1 [0..<unat ?n] = Inr s2"
      "foldE (check_balloced img) s2 (map of_nat [0..<29]) = Inr s" "\<not> (\<exists>x \<in> set (my_bitmap s). x \<noteq> 0)"
      using assms unfolding fsck_def Let_def s0_def[symmetric]
      by (auto split: sum.splits if_splits simp del: upt.simps)
    ultimately show thesis using that by blast
  qed
  have b1: "my_bitmap s1 = ?bm" using init_inodes_bitmap[OF s0(2)] s0(1) by simp
  note ci = check_inodes_blocks[OF s1]
  obtain u where u: "foldE (check_balloced img) s1 (all_blocks img) = Inr u" "my_bitmap s2 = my_bitmap u"
    using ci by (auto simp: all_blocks_def)
  note l1 = check_balloced_list[OF u(1)] and l2 = check_balloced_list[OF s2]
  have meta: "(b :: u32) \<in> set (map of_nat [0..<29]) \<longleftrightarrow> unat b < 29" for b
  proof
    assume "unat b < 29" thus "b \<in> set (map of_nat [0..<29])" by (auto intro!: image_eqI[of _ _ "unat b"])
  qed (auto simp: unat_of_nat32)
  have none: "\<not> bm_bit (my_bitmap s) b" for b
  proof
    assume b: "bm_bit (my_bitmap s) b"
    hence "my_bitmap s ! (unat b div 8) = 0" using z by (meson bm_bit_def nth_mem)
    thus False using b by (simp add: bm_bit_def)
  qed
  have bm: "bm_bit ?bm b \<longleftrightarrow> unat b < 29 \<or> b \<in> set (all_blocks img)" for b
    using none[of b] l1 l2 u(2) b1 meta[of b] by auto
  have "map_bit (rsect (BBLOCK 1 ?n) img) (unat b) \<longleftrightarrow> bm_bit ?bm b" if "unat b < BPB" for b
    using that by (auto simp: map_bit_iff bm_bit_def get_bytes_def)
  moreover have "\<forall>b \<in> set (all_blocks img). 29 \<le> unat b \<and> unat b \<le> 1024" using ci by (auto simp: all_blocks_def)
  ultimately show ?thesis using ci l1 bm by auto
qed

text \<open>
  Witness for C10: an image with the root directory in block 29, two inodes, and the bitmap in blocks 3
  (where the program looks for it with two inodes) and 28 (where it checks addresses).
\<close>

definition tiny_image :: "nat \<Rightarrow> u8" where
  "tiny_image k = (case map_of [(520, 2), (1088, 1), (1097, 2), (1100, 29),
     (1536, 255), (1537, 255), (1538, 255), (1539, 63), (14336, 255), (14337, 255), (14338, 255), (14339, 63),
     (14848, 1), (14850, 46), (14864, 1), (14866, 46), (14867, 46)] k of None \<Rightarrow> 0 | Some v \<Rightarrow> v)"

lemma tiny_inodes:
  "d_type (image_inode tiny_image 0) = 0"
  "image_inode tiny_image 1 = \<lparr>d_type = T_DIR, d_major = 0, d_minor = 0, d_nlink = 0, d_size = 512, d_addrs = 29 # replicate 12 0\<rparr>"
proof -
  have z: "tiny_image (1024 + k) = 0" if "k < 2" for k
    using that by (auto simp: tiny_image_def less_Suc_eq numeral_2_eq_2)
  show "d_type (image_inode tiny_image 0) = 0"
    using z[of 0] z[of 1] by (simp add: image_inode_def rd_dinode_def rsect_def rd16_def)
  have upt13: "[0..<13] = [0, 1, 2, 3, 4, 5, 6, 7, 8, 9, 10, 11, 12 :: nat]" by (simp add: upt_rec)
  have r12: "replicate 12 (0::u32) = [0, 0, 0, 0, 0, 0, 0, 0, 0, 0, 0, 0]" by (simp add: numeral_eq_Suc)
  show "image_inode tiny_image 1 = \<lparr>d_type = T_DIR, d_major = 0, d_minor = 0, d_nlink = 0, d_size = 512, d_addrs = 29 # replicate 12 0\<rparr>"
    unfolding image_inode_def rd_dinode_def upt13 r12
    by (simp add: rsect_def rd16_def rd32_def le32_def tiny_image_def)
qed

lemma tiny_ninodes: "rd32 (rsect 1 tiny_image) 8 = 2"
  by (simp add: rsect_def rd32_def le32_def tiny_image_def)

lemma tiny_entries:
  "de_inum (rd_dirent (rsect 29 tiny_image) 0) = 1" "is_dot (de_name (rd_dirent (rsect 29 tiny_image) 0))"
  "de_inum (rd_dirent (rsect 29 tiny_image) 16) = 1" "is_dotdot (de_name (rd_dirent (rsect 29 tiny_image) 16))"
  "\<not> is_dot (de_name (rd_dirent (rsect 29 tiny_image) 16))" "de_inum (rd_dirent (rsect 29 tiny_image) 32) = 0"
  by (simp_all add: rd_dirent_def rsect_def rd16_def tiny_image_def is_dot_def is_dotdot_def get_bytes_def)

lemma tiny_bits:
  assumes "n < 30"
  shows "bit (tiny_image (1536 + n div 8)) (n mod 8)" "bit (tiny_image (14336 + n div 8)) (n mod 8)"
proof -
  have full: "bit (255 :: u8) k" if "k < 8" for k
  proof -
    have e: "(255 :: u8) = mask 8" by (simp add: mask_eq_exp_minus_1)
    show ?thesis unfolding e using that by (simp add: bit_mask_iff)
  qed
  have six: "bit (63 :: u8) k" if "k < 6" for k
  proof -
    have e: "(63 :: u8) = mask 6" by (simp add: mask_eq_exp_minus_1)
    show ?thesis unfolding e using that by (simp add: bit_mask_iff)
  qed
  have v: "tiny_image 1536 = 255" "tiny_image 1537 = 255" "tiny_image 1538 = 255" "tiny_image 1539 = 63"
    "tiny_image 14336 = 255" "tiny_image 14337 = 255" "tiny_image 14338 = 255" "tiny_image 14339 = 63"
    by (simp_all add: tiny_image_def)
  have m8: "n mod 8 < 8" by simp
  have d: "n = 8 * (n div 8) + n mod 8" by simp
  have "n div 8 < 4" using assms by simp
  then consider "n div 8 = 0" | "n div 8 = 1" | "n div 8 = 2" | "n div 8 = 3" by linarith
  hence "bit (tiny_image (1536 + n div 8)) (n mod 8) \<and> bit (tiny_image (14336 + n div 8)) (n mod 8)"
  proof cases
    case 4
    hence "n mod 8 < 6" using d assms by linarith
    thus ?thesis using 4 v six by simp
  qed (use v full[OF m8] in simp_all)
  thus "bit (tiny_image (1536 + n div 8)) (n mod 8)" "bit (tiny_image (14336 + n div 8)) (n mod 8)" by blast+
qed

lemma tiny_bit_only: "k < 512 \<Longrightarrow> bit (tiny_image (1536 + k)) j \<Longrightarrow> 8 * k + j < 30"
proof -
  assume k: "k < 512" and b: "bit (tiny_image (1536 + k)) j"
  have e: "(63 :: u8) = mask 6" by (simp add: mask_eq_exp_minus_1)
  have six: "bit (63 :: u8) j \<Longrightarrow> j < 6" unfolding e by (simp add: bit_mask_iff)
  have "j < 8" using b bit_imp_le_length by fastforce
  moreover have "k = 0 \<or> k = 1 \<or> k = 2 \<or> (k = 3 \<and> j < 6)"
    using b k six by (auto simp: tiny_image_def split: if_splits)
  ultimately show ?thesis by auto
qed

lemma tiny_dir:
  assumes "s = \<lparr>my_bitmap = bm, my_inode = replicate 200 0, my_inode_alloced = (replicate 200 False)[1 := True],
     my_dir_parent_inode = replicate 200 0, parent_mismatch_seen = False, seen_root = False\<rparr>"
  shows "check_dir_inode tiny_image s 1 (image_inode tiny_image 1) =
    Inr (s\<lparr>my_inode_alloced := replicate 200 False, seen_root := True\<rparr>)"
proof -
  have u: "[0..<32] = 0 # 1 # 2 # [3..<32]" by (simp add: upt_rec)
  have b: "dip_block tiny_image (image_inode tiny_image 1) 0 = 29" by (simp add: dip_block_def tiny_inodes(2)[simplified])
  have n: "[0..<n_blocks (image_inode tiny_image 1)] = [0]" by (simp add: n_blocks_def tiny_inodes(2)[simplified])
  have ty: "d_type (image_inode tiny_image (Suc 0)) = T_DIR" by (simp add: tiny_inodes(2)[simplified])
  have pm: "check_parent_dir tiny_image x p (Suc 0) = x" for x p by (simp add: check_parent_dir_def Let_def)
  let ?d = "rsect 29 tiny_image"
  let ?s' = "s\<lparr>my_inode_alloced := (my_inode_alloced s)[1 := False]\<rparr>"
  have len: "1 < length (my_inode_alloced s)" "seen_root s = False" by (simp_all add: assms)
  have 0: "check_entry tiny_image 1 (s, False, False) (rd_dirent ?d 0) = Inr (?s', True, False)"
    using tiny_entries(1,2) ty len by (simp add: check_entry_def check_inode_alloced_def Let_def)
  have 1: "check_entry tiny_image 1 (?s', True, False) (rd_dirent ?d 16) = Inr (?s'\<lparr>seen_root := True\<rparr>, True, True)"
    using tiny_entries(3-5) ty len by (simp add: check_entry_def check_inode_alloced_def Let_def pm)
  have c: "check_entries tiny_image 1 ?d (s, False, False) [0..<32] = Inr (?s'\<lparr>seen_root := True\<rparr>, True, True)"
    unfolding u using tiny_entries(1,3,6) 0 1 by simp
  have "(my_inode_alloced s)[1 := False] = replicate 200 False" by (simp add: assms list_update_same_conv)
  thus ?thesis unfolding check_dir_inode_def n using c by (simp add: b[unfolded One_nat_def] del: check_entries.simps upt.simps)
qed

lemma tiny_accepted: "\<exists>s. fsck tiny_image = Inr s"
proof -
  let ?bm = "get_bytes (rsect 3 tiny_image) 0 512"
  let ?s0 = "\<lparr>my_bitmap = ?bm, my_inode = replicate 200 0, my_inode_alloced = replicate 200 False,
     my_dir_parent_inode = replicate 200 0, parent_mismatch_seen = False, seen_root = False\<rparr>"
  let ?s1 = "?s0\<lparr>my_inode_alloced := (replicate 200 False)[1 := True]\<rparr>"
  have bb: "BBLOCK 1 2 = 3" by (simp add: BBLOCK_def)
  have bmb: "bm_bit ?bm b \<longleftrightarrow> unat b < 30" for b
  proof
    assume h: "bm_bit ?bm b"
    hence "8 * (unat b div 8) + unat b mod 8 < 30"
      by (intro tiny_bit_only) (auto simp: bm_bit_def get_bytes_def rsect_def)
    thus "unat b < 30" by simp
  next
    assume "unat b < 30"
    thus "bm_bit ?bm b" using tiny_bits(1)[of "unat b"] by (auto simp: bm_bit_def get_bytes_def rsect_def)
  qed
  have im: "bit (rsect (BBLOCK b 200) tiny_image (unat b div 8)) (unat b mod 8)" if "unat b < 30" for b
  proof -
    have "unat (BBLOCK b 200) = 28" using that by (simp add: unat_BBLOCK)
    hence e: "BBLOCK b 200 = 28" by (simp add: word_unat_eq_iff)
    show ?thesis unfolding e using tiny_bits(2)[OF that] by (simp add: rsect_def)
  qed
  have i1: "foldE (init_inode tiny_image) ?s0 [0..<2] = Inr ?s1"
    using tiny_inodes by (simp add: upt_rec init_inode_def Let_def)
  obtain bm1 where c1: "foldE (check_balloced tiny_image) ?s1 [29] = Inr (?s1\<lparr>my_bitmap := bm1\<rparr>)"
    using check_balloced_complete[of "[29]" ?s1 tiny_image] bmb[of 29] im[of 29] by auto
  let ?s2 = "?s0\<lparr>my_bitmap := bm1, seen_root := True\<rparr>"
  have ib: "inode_blocks tiny_image (image_inode tiny_image 1) = [29]"
    by (simp add: inode_blocks_def n_blocks_def dip_block_def tiny_inodes(2)[simplified])
  have ca: "check_inode_addrs tiny_image ?s1 (image_inode tiny_image 1) = Inr (?s1\<lparr>my_bitmap := bm1\<rparr>)"
    using c1 unfolding check_inode_addrs_fold ib by (simp add: check_addr_def split: sum.splits)
  have "check_dir_inode tiny_image (?s1\<lparr>my_bitmap := bm1\<rparr>) 1 (image_inode tiny_image 1) = Inr ?s2"
    by (subst tiny_dir) simp_all
  hence i2: "foldE (check_inode tiny_image) ?s1 [0..<2] = Inr ?s2"
    using ca tiny_inodes by (simp add: upt_rec check_inode_def Let_def)
  note l1 = check_balloced_list[OF c1]
  have bm1: "bm_bit bm1 b \<longleftrightarrow> unat b < 30 \<and> b \<noteq> 29" for b using l1 bmb[of b] by auto
  have d: "distinct (map of_nat [0..<29] :: u32 list)"
    unfolding distinct_map by (auto simp: inj_on_def word_unat_eq_iff unat_of_nat32)
  have sub: "unat b < 29 \<and> b \<noteq> 29" if "b \<in> set (map of_nat [0..<29])" for b :: u32
    using that by (auto simp: unat_of_nat32 word_unat_eq_iff)
  obtain bm3 where c3: "foldE (check_balloced tiny_image) ?s2 (map of_nat [0..<29]) = Inr (?s2\<lparr>my_bitmap := bm3\<rparr>)"
    using check_balloced_complete[OF d, of ?s2 tiny_image] sub bm1 im by fastforce
  note l3 = check_balloced_list[OF c3]
  have "\<not> bm_bit bm3 b" for b
  proof
    assume "bm_bit bm3 b"
    hence "b \<notin> set (map of_nat [0..<29])" "unat b < 30" "b \<noteq> 29" using l3 bm1[of b] by auto
    moreover from this(2,3) have "unat b < 29" using word_unat_eq_iff[of b 29] by auto
    ultimately show False by (metis atLeastLessThan_iff image_eqI le0 list.set_map of_nat_unat set_upt ucast_id)
  qed
  hence nb: "\<not> bit (bm3 ! k) j" if "k < length bm3" "j < 8" for k j
  proof -
    have len: "length bm3 = 512" using l1 l3 by (simp add: get_bytes_def)
    have un: "unat (of_nat (8 * k + j) :: u32) = 8 * k + j" using that len by (intro unat_of_nat32) simp
    show ?thesis using \<open>\<And>b. \<not> bm_bit bm3 b\<close>[of "of_nat (8 * k + j)"] that unfolding bm_bit_def un by simp
  qed
  have z: "\<not> (\<exists>x \<in> set bm3. x \<noteq> 0)" using nb bits_zero by (metis in_set_conv_nth)
  show ?thesis
    unfolding fsck_def tiny_ninodes bb Let_def using i1 i2 c3 z by (simp del: upt.simps add: numeral_2_eq_2[symmetric])
qed

theorem fsck_block_accounting_witness:
  "\<exists>s. fsck tiny_image = Inr s \<and> distinct (all_blocks tiny_image) \<and>
     map_bit (rsect 3 tiny_image) 29 \<and> 29 \<in> set (all_blocks tiny_image)"
proof -
  obtain s where s: "fsck tiny_image = Inr s" using tiny_accepted by blast
  have bb: "BBLOCK 1 2 = 3" by (simp add: BBLOCK_def)
  have "map_bit (rsect 3 tiny_image) 29" using tiny_bits(1)[of 29] by (simp add: map_bit_iff rsect_def)
  moreover have "unat (29::u32) = 29" "\<not> unat (29::u32) < 29" "unat (29::u32) < BPB" by simp_all
  ultimately have "29 \<in> set (all_blocks tiny_image)" "distinct (all_blocks tiny_image)"
    using fsck_block_accounting[OF s] unfolding tiny_ninodes bb by metis+
  thus ?thesis using s \<open>map_bit (rsect 3 tiny_image) 29\<close> by blast
qed

subsection \<open>Directory accounting\<close>

text \<open>The entries of a directory that the checker looks at: in each block, those before an empty one.\<close>

definition block_entries :: "block \<Rightarrow> dirent list" where
  "block_entries d = takeWhile (\<lambda>de. de_inum de \<noteq> 0) (map (\<lambda>j. rd_dirent d (16 * j)) [0..<32])"

definition dir_entries :: "(nat \<Rightarrow> u8) \<Rightarrow> nat \<Rightarrow> dirent list" where
  "dir_entries img i = (let dip = image_inode img i in
     if d_type dip = T_DIR then concat (map (\<lambda>k. block_entries (rsect (dip_block img dip k) img)) [0..<n_blocks dip]) else [])"

lemma check_entries_fold:
  "check_entries img me d st js = foldE (check_entry img me) st (takeWhile (\<lambda>de. de_inum de \<noteq> 0) (map (\<lambda>j. rd_dirent d (16 * j)) js))"
  by (induction js arbitrary: st) (auto split: sum.splits)

lemma foldE_concat:
  "foldE (\<lambda>st i. foldE f st (g i)) st is = foldE f st (concat (map g is))"
  by (induction "is" arbitrary: st) (auto simp: foldE_append split: sum.splits)

lemma dot_exclusive: "is_dot nm \<Longrightarrow> \<not> is_dotdot nm"
  by (auto simp: is_dot_def is_dotdot_def)

definition refs_to :: "nat \<Rightarrow> dirent list \<Rightarrow> nat" where
  "refs_to n es = length (filter (\<lambda>de. unat (de_inum de) = n) es)"

lemma check_parent_dir_fields [simp]:
  "my_inode (check_parent_dir img s p c) = my_inode s" "my_inode_alloced (check_parent_dir img s p c) = my_inode_alloced s"
  by (simp_all add: check_parent_dir_def Let_def)

lemma check_entry_effect:
  assumes "check_entry img me (s, self, par) de = Inr (t, self', par')"
  defines "n \<equiv> unat (de_inum de)"
  shows "d_type (image_inode img n) \<noteq> 0" "n < length (my_inode_alloced s)"
    "my_inode_alloced t = (my_inode_alloced s)[n := False]"
    "my_inode t = (if d_type (image_inode img n) = T_FILE then (my_inode s)[n := my_inode s ! n - 1] else my_inode s)"
    "d_type (image_inode img n) = T_FILE \<Longrightarrow> n < length (my_inode s)"
    "self' \<longleftrightarrow> self \<or> is_dot (de_name de)" "par' \<longleftrightarrow> par \<or> is_dotdot (de_name de)"
proof -
  obtain s1 where s1: "my_inode s1 = my_inode s" "my_inode_alloced s1 = my_inode_alloced s"
    and fl: "self' \<longleftrightarrow> self \<or> is_dot (de_name de)" "par' \<longleftrightarrow> par \<or> is_dotdot (de_name de)"
    and r: "(case check_inode_alloced img s1 n of Inl e \<Rightarrow> Inl e | Inr s2 \<Rightarrow>
        if n < length (my_inode_alloced s2) then Inr (s2\<lparr>my_inode_alloced := (my_inode_alloced s2)[n := False]\<rparr>, self', par')
        else Inl OutOfTable) = Inr (t, self', par')"
  proof (cases "\<not> self \<and> is_dot (de_name de)")
    case True
    hence "\<not> is_dotdot (de_name de)" using dot_exclusive by blast
    thus thesis using assms(1) True by (intro that[of s]) (auto simp: check_entry_def n_def Let_def split: sum.splits if_splits)
  next
    case False
    show thesis
    proof (cases "\<not> par \<and> is_dotdot (de_name de)")
      case True
      hence "\<not> is_dot (de_name de)" using dot_exclusive by blast
      let ?s = "if \<not> seen_root s \<and> n = me \<and> me = 1 then s\<lparr>seen_root := True\<rparr> else s"
      show thesis using assms(1) True False \<open>\<not> is_dot (de_name de)\<close>
        by (intro that[of "check_parent_dir img ?s n me"]) (auto simp: check_entry_def n_def Let_def split: sum.splits if_splits)
    next
      case F2: False
      define s1 where "s1 = (if d_type (image_inode img n) = T_DIR then s\<lparr>my_dir_parent_inode := (my_dir_parent_inode s)[n := of_nat me]\<rparr> else s)"
      show thesis using assms(1) False F2 dot_exclusive[of "de_name de"]
        by (intro that[of s1]) (auto simp: check_entry_def n_def s1_def Let_def split: sum.splits if_splits)
    qed
  qed
  note r = r[unfolded check_inode_alloced_def Let_def s1]
  show "d_type (image_inode img n) \<noteq> 0" "n < length (my_inode_alloced s)" "my_inode_alloced t = (my_inode_alloced s)[n := False]"
    "my_inode t = (if d_type (image_inode img n) = T_FILE then (my_inode s)[n := my_inode s ! n - 1] else my_inode s)"
    "d_type (image_inode img n) = T_FILE \<Longrightarrow> n < length (my_inode s)"
    using r s1 by (auto split: if_splits)
  show "self' \<longleftrightarrow> self \<or> is_dot (de_name de)" "par' \<longleftrightarrow> par \<or> is_dotdot (de_name de)" using fl by blast+
qed

lemma check_entry_list:
  assumes "foldE (check_entry img me) (s, self, par) es = Inr (t, self', par')"
  shows "(\<forall>de \<in> set es. d_type (image_inode img (unat (de_inum de))) \<noteq> 0 \<and> unat (de_inum de) < length (my_inode_alloced s)) \<and>
    length (my_inode_alloced t) = length (my_inode_alloced s) \<and> length (my_inode t) = length (my_inode s) \<and>
    (\<forall>n < length (my_inode_alloced s). my_inode_alloced t ! n \<longleftrightarrow> my_inode_alloced s ! n \<and> refs_to n es = 0) \<and>
    (\<forall>n < length (my_inode s). d_type (image_inode img n) = T_FILE \<longrightarrow> my_inode t ! n = my_inode s ! n - of_nat (refs_to n es)) \<and>
    (self' \<longleftrightarrow> self \<or> (\<exists>de \<in> set es. is_dot (de_name de))) \<and> (par' \<longleftrightarrow> par \<or> (\<exists>de \<in> set es. is_dotdot (de_name de)))"
  using assms
proof (induction es arbitrary: s self par)
  case (Cons de es)
  obtain u su pu where u: "check_entry img me (s, self, par) de = Inr (u, su, pu)" "foldE (check_entry img me) (u, su, pu) es = Inr (t, self', par')"
    using Cons.prems by (auto split: sum.splits)
  note c = check_entry_effect[OF u(1)] and IH = Cons.IH[OF u(2)]
  let ?n = "unat (de_inum de)"
  have lens: "length (my_inode_alloced u) = length (my_inode_alloced s)" "length (my_inode u) = length (my_inode s)" using c by auto
  have rc: "refs_to n (de # es) = (if ?n = n then 1 else 0) + refs_to n es" for n by (simp add: refs_to_def)
  have "my_inode_alloced t ! n \<longleftrightarrow> my_inode_alloced s ! n \<and> refs_to n (de # es) = 0" if "n < length (my_inode_alloced s)" for n
    using IH that lens c(3) by (auto simp: rc nth_list_update)
  moreover have "my_inode t ! n = my_inode s ! n - of_nat (refs_to n (de # es))"
    if "n < length (my_inode s)" "d_type (image_inode img n) = T_FILE" for n
    using IH that lens c(4) by (cases "n = ?n") (auto simp: rc)
  ultimately show ?case using IH c lens by auto
qed (simp add: refs_to_def)

definition all_entries :: "(nat \<Rightarrow> u8) \<Rightarrow> nat list \<Rightarrow> dirent list" where
  "all_entries img is = concat (map (dir_entries img) is)"

lemma check_addrs_frame:
  assumes "check_inode_addrs img s dip = Inr t"
  shows "my_inode t = my_inode s" "my_inode_alloced t = my_inode_alloced s"
proof -
  have "check_addr img u b = Inr v \<Longrightarrow> my_inode v = my_inode u \<and> my_inode_alloced v = my_inode_alloced u" for u b v
    by (auto simp: check_addr_def check_balloced_def Let_def split: if_splits)
  hence "my_inode t = my_inode s \<and> my_inode_alloced t = my_inode_alloced s"
    using foldE_inv[OF assms[unfolded check_inode_addrs_fold], of "\<lambda>t. my_inode t = my_inode s \<and> my_inode_alloced t = my_inode_alloced s"] by metis
  thus "my_inode t = my_inode s" "my_inode_alloced t = my_inode_alloced s" by blast+
qed

definition dir_result :: "(nat \<Rightarrow> u8) \<Rightarrow> ck \<Rightarrow> ck \<Rightarrow> dirent list \<Rightarrow> bool" where
  "dir_result img s t es \<longleftrightarrow>
    (\<forall>de \<in> set es. d_type (image_inode img (unat (de_inum de))) \<noteq> 0 \<and> unat (de_inum de) < length (my_inode_alloced s)) \<and>
    length (my_inode_alloced t) = length (my_inode_alloced s) \<and> length (my_inode t) = length (my_inode s) \<and>
    (\<forall>n < length (my_inode_alloced s). my_inode_alloced t ! n \<longleftrightarrow> my_inode_alloced s ! n \<and> refs_to n es = 0) \<and>
    (\<forall>n < length (my_inode s). d_type (image_inode img n) = T_FILE \<longrightarrow> my_inode t ! n = my_inode s ! n - of_nat (refs_to n es))"

lemma check_dir_inode_entries:
  assumes "check_dir_inode img s i (image_inode img i) = Inr t" "d_type (image_inode img i) = T_DIR"
  shows "dir_result img s t (dir_entries img i) \<and> (\<exists>de \<in> set (dir_entries img i). is_dot (de_name de)) \<and>
     (\<exists>de \<in> set (dir_entries img i). is_dotdot (de_name de))"
proof -
  have "foldE (check_entry img i) (s, False, False) (dir_entries img i) = Inr (t, True, True)"
    using assms unfolding check_dir_inode_def check_entries_fold foldE_concat
    by (auto simp: dir_entries_def block_entries_def Let_def split: sum.splits if_splits)
  from check_entry_list[OF this] show ?thesis unfolding dir_result_def by blast
qed

lemma check_inode_entries:
  assumes "check_inode img s i = Inr t"
  shows "dir_result img s t (dir_entries img i) \<and> (d_type (image_inode img i) = T_DIR \<longrightarrow>
     (\<exists>de \<in> set (dir_entries img i). is_dot (de_name de)) \<and> (\<exists>de \<in> set (dir_entries img i). is_dotdot (de_name de)))"
proof (cases "d_type (image_inode img i) = T_DIR")
  case True
  then obtain u where u: "check_inode_addrs img s (image_inode img i) = Inr u" "check_dir_inode img u i (image_inode img i) = Inr t"
    using assms by (auto simp: check_inode_def Let_def split: sum.splits)
  show ?thesis using check_dir_inode_entries[OF u(2) True] check_addrs_frame[OF u(1)] by (simp add: dir_result_def)
next
  case False
  hence "my_inode t = my_inode s \<and> my_inode_alloced t = my_inode_alloced s"
    using assms check_addrs_frame by (auto simp: check_inode_def Let_def split: if_splits)
  thus ?thesis using False by (simp add: dir_result_def dir_entries_def refs_to_def Let_def)
qed

lemma dir_result_trans:
  assumes "dir_result img s t xs" "dir_result img t u ys"
  shows "dir_result img s u (xs @ ys)"
proof -
  have rc: "refs_to n (xs @ ys) = refs_to n xs + refs_to n ys" for n by (simp add: refs_to_def)
  show ?thesis using assms unfolding dir_result_def rc by (auto simp: of_nat_add)
qed

lemma check_inodes_entries:
  assumes "foldE (check_inode img) s is = Inr t"
  shows "dir_result img s t (all_entries img is) \<and> (\<forall>i \<in> set is. d_type (image_inode img i) = T_DIR \<longrightarrow>
     (\<exists>de \<in> set (dir_entries img i). is_dot (de_name de)) \<and> (\<exists>de \<in> set (dir_entries img i). is_dotdot (de_name de)))"
  using assms
proof (induction "is" arbitrary: s)
  case Nil
  thus ?case by (simp add: dir_result_def all_entries_def refs_to_def)
next
  case (Cons i "is")
  obtain u where u: "check_inode img s i = Inr u" "foldE (check_inode img) u is = Inr t"
    using Cons.prems by (auto split: sum.splits)
  note c = check_inode_entries[OF u(1)] and IH = Cons.IH[OF u(2)]
  have "dir_result img s t (all_entries img (i # is))"
    using dir_result_trans[of img s u "dir_entries img i" t "all_entries img is"] c IH by (simp add: all_entries_def)
  thus ?case using c IH by auto
qed


lemma init_inodes_effect:
  assumes "foldE (init_inode img) s is = Inr t" "distinct is"
  shows "length (my_inode_alloced t) = length (my_inode_alloced s) \<and> length (my_inode t) = length (my_inode s) \<and>
    (\<forall>n \<in> set is. d_type (image_inode img n) \<noteq> 0 \<longrightarrow> n < length (my_inode_alloced s) \<and> my_inode_alloced t ! n) \<and>
    (\<forall>n < length (my_inode s). n \<in> set is \<longrightarrow> d_type (image_inode img n) = T_FILE \<longrightarrow>
        my_inode t ! n = ucast (d_nlink (image_inode img n))) \<and>
    (\<forall>n < length (my_inode s). n \<notin> set is \<longrightarrow> my_inode t ! n = my_inode s ! n) \<and>
    (\<forall>n < length (my_inode_alloced s). n \<notin> set is \<longrightarrow> my_inode_alloced t ! n = my_inode_alloced s ! n)"
  using assms
proof (induction "is" arbitrary: s)
  case (Cons i "is")
  obtain u where u: "init_inode img s i = Inr u" "foldE (init_inode img) u is = Inr t"
    using Cons.prems(1) by (auto split: sum.splits)
  have d: "i \<notin> set is" "distinct is" using Cons.prems(2) by auto
  have e: "my_inode_alloced u = (if d_type (image_inode img i) \<noteq> 0 then (my_inode_alloced s)[i := True] else my_inode_alloced s)"
    "my_inode u = (if d_type (image_inode img i) = T_FILE then (my_inode s)[i := ucast (d_nlink (image_inode img i))] else my_inode s)"
    "d_type (image_inode img i) \<noteq> 0 \<Longrightarrow> i < length (my_inode_alloced s)"
    using u(1) by (auto simp: init_inode_def Let_def split: if_splits)
  have l: "length (my_inode_alloced u) = length (my_inode_alloced s)" "length (my_inode u) = length (my_inode s)"
    by (simp_all add: e(1,2))
  note IH = Cons.IH[OF u(2) d(2), unfolded l]
  have i1: "my_inode_alloced t ! i" if "d_type (image_inode img i) \<noteq> 0"
    using IH d(1) e(1) e(3)[OF that] that by simp
  have i2: "my_inode t ! i = ucast (d_nlink (image_inode img i))" if "d_type (image_inode img i) = T_FILE" "i < length (my_inode s)"
    using IH d(1) e(2) that by simp
  show ?case using IH i1 i2 e d(1) by (auto simp: nth_list_update)
qed simp

text \<open>
  C11: an accepted image has sound directories.  Every entry the checker reads names an inode in use,
  each directory has the entries \<open>.\<close> and \<open>..\<close>, every inode in use stands in some directory, and the
  link count of a file is the number of entries that name it.  The count is kept in a \<open>char\<close>, so the
  two agree modulo 256 only.
\<close>

theorem fsck_directories:
  assumes "fsck img = Inr s"
  defines "n \<equiv> unat (rd32 (rsect 1 img) 8)"
  shows "(\<forall>de \<in> set (all_entries img [0..<n]). d_type (image_inode img (unat (de_inum de))) \<noteq> 0 \<and> unat (de_inum de) < 200) \<and>
    (\<forall>i < n. d_type (image_inode img i) = T_DIR \<longrightarrow>
       (\<exists>de \<in> set (dir_entries img i). is_dot (de_name de)) \<and> (\<exists>de \<in> set (dir_entries img i). is_dotdot (de_name de))) \<and>
    (\<forall>i < n. d_type (image_inode img i) \<noteq> 0 \<longrightarrow> i < 200 \<and> refs_to i (all_entries img [0..<n]) > 0) \<and>
    (\<forall>i < n. d_type (image_inode img i) = T_FILE \<longrightarrow>
       unat (d_nlink (image_inode img i)) mod 256 = refs_to i (all_entries img [0..<n]) mod 256)"
proof -
  define s0 where "s0 = \<lparr>my_bitmap = get_bytes (rsect (BBLOCK 1 (rd32 (rsect 1 img) 8)) img) 0 512, my_inode = replicate 200 0,
                my_inode_alloced = replicate 200 False, my_dir_parent_inode = replicate 200 0,
                parent_mismatch_seen = False, seen_root = False\<rparr>"
  obtain s1 s2 where s1: "foldE (init_inode img) s0 [0..<n] = Inr s1" and s2: "foldE (check_inode img) s1 [0..<n] = Inr s2"
    and s3: "foldE (check_balloced img) s2 (map of_nat [0..<29]) = Inr s"
    and z: "\<not> (\<exists>b \<in> set (my_inode_alloced s). b)" "\<not> (\<exists>c \<in> set (my_inode s). c \<noteq> 0)"
    using assms(1) unfolding fsck_def Let_def s0_def[symmetric] n_def
    by (auto split: sum.splits if_splits simp del: upt.simps)
  have fr: "my_inode s = my_inode s2 \<and> my_inode_alloced s = my_inode_alloced s2"
    using foldE_inv[OF s3, of "\<lambda>t. my_inode t = my_inode s2 \<and> my_inode_alloced t = my_inode_alloced s2"]
    by (fastforce simp: check_balloced_def Let_def split: if_splits)
  have l0: "length (my_inode_alloced s0) = 200" "length (my_inode s0) = 200" by (simp_all add: s0_def)
  note i = init_inodes_effect[OF s1 distinct_upt, unfolded l0] and e = check_inodes_entries[OF s2]
  let ?es = "all_entries img [0..<n]"
  have l1: "length (my_inode_alloced s1) = 200" "length (my_inode s1) = 200" using i by simp_all
  have dr: "\<forall>de \<in> set ?es. d_type (image_inode img (unat (de_inum de))) \<noteq> 0 \<and> unat (de_inum de) < 200"
    "length (my_inode_alloced s2) = 200" "length (my_inode s2) = 200"
    "\<And>k. k < 200 \<Longrightarrow> my_inode_alloced s2 ! k \<longleftrightarrow> my_inode_alloced s1 ! k \<and> refs_to k ?es = 0"
    "\<And>k. k < 200 \<Longrightarrow> d_type (image_inode img k) = T_FILE \<Longrightarrow> my_inode s2 ! k = my_inode s1 ! k - of_nat (refs_to k ?es)"
    using e unfolding dir_result_def l1 by simp_all
  have lost: "i < 200 \<and> refs_to i ?es > 0" if "i < n" "d_type (image_inode img i) \<noteq> 0" for i
  proof -
    have b: "i < 200" "my_inode_alloced s1 ! i" using i that by simp_all
    have "\<not> my_inode_alloced s2 ! i" using z(1) fr b(1) dr(2) by (metis nth_mem)
    thus ?thesis using dr(4)[OF b(1)] b by simp
  qed
  have cnt: "unat (d_nlink (image_inode img i)) mod 256 = refs_to i ?es mod 256" if "i < n" "d_type (image_inode img i) = T_FILE" for i
  proof -
    have b: "i < 200" using lost[of i] that by simp
    have "my_inode s2 ! i = 0" using z(2) fr b dr(3) by (metis nth_mem)
    moreover have "my_inode s1 ! i = ucast (d_nlink (image_inode img i))" using i b that by simp
    ultimately have "(ucast (d_nlink (image_inode img i)) :: u8) = of_nat (refs_to i ?es)" using dr(5)[OF b that(2)] by simp
    hence "unat (ucast (d_nlink (image_inode img i)) :: u8) = unat (of_nat (refs_to i ?es) :: u8)" by simp
    thus ?thesis by (simp add: unsigned_ucast_eq unsigned_of_nat take_bit_eq_mod)
  qed
  show ?thesis using dr(1) e lost cnt by simp
qed

text \<open>Witness for C11: the image above, whose root directory is its own parent.\<close>

theorem fsck_directories_witness:
  "\<exists>s. fsck tiny_image = Inr s \<and> refs_to 1 (all_entries tiny_image [0..<2]) > 0 \<and>
     (\<exists>de \<in> set (dir_entries tiny_image 1). is_dotdot (de_name de))"
proof -
  obtain s where s: "fsck tiny_image = Inr s" using tiny_accepted by blast
  have t: "d_type (image_inode tiny_image 1) = T_DIR" by (simp add: tiny_inodes(2)[simplified])
  have n: "unat (rd32 (rsect 1 tiny_image) 8) = 2" by (simp add: tiny_ninodes)
  show ?thesis using fsck_directories[OF s, unfolded n] s t by fastforce
qed

end
