(* ===== verification/Bio.thy ===== *)
theory Bio
  imports Fs
begin

text \<open>
  The buffer cache and the IDE driver (\<^verbatim>\<open>Project5b/xv6/kernel/bio.c\<close> and \<^verbatim>\<open>ide.c\<close>).  The ten buffers and
  the list head are slots of one array, linked by indices as the C structures are by pointers; the
  head is slot \<open>NBUF\<close>.  The drive is a parameter of the state: its contents (\<open>platter\<close>) and
  the command last sent to it.  A panic, or a list walk that does not end, is \<open>None\<close>.  The locks
  \<open>bcache.lock\<close> and \<open>idelock\<close> make each routine one step.
\<close>

subsection \<open>State\<close>

abbreviation NBUF :: nat where "NBUF \<equiv> 10"

record buf =
  b_busy :: bool
  b_valid :: bool
  b_dirty :: bool
  b_dev :: u32
  b_sector :: u32
  b_prev :: nat
  b_next :: nat
  b_qnext :: "nat option"
  b_data :: block

datatype ide_cmd = NoCmd | CmdRead "bool \<times> u32" | CmdWrite "bool \<times> u32"

record biost =
  bufs :: "buf list"
  idequeue :: "nat option"
  havedisk1 :: bool
  platter :: "bool \<times> u32 \<Rightarrow> block"
  cmd :: ide_cmd

datatype bget_result = Got nat | Sleep nat | NoBuffers

definition bupd :: "biost \<Rightarrow> nat \<Rightarrow> (buf \<Rightarrow> buf) \<Rightarrow> biost" where
  "bupd st i f = st\<lparr>bufs := (bufs st)[i := f (bufs st ! i)]\<rparr>"

subsection \<open>The driver\<close>

text \<open>The drive and sector that \<open>idestart\<close> sends to the controller: one bit and 28 bits.\<close>

definition ide_addr :: "buf \<Rightarrow> bool \<times> u32" where
  "ide_addr b = (bit (b_dev b) 0, b_sector b AND 0x0fffffff)"

definition idestart :: "biost \<Rightarrow> nat option \<Rightarrow> biost option" where
  "idestart st ob =
     (case ob of
        None \<Rightarrow> None
      | Some i \<Rightarrow>
          let b = bufs st ! i
          in if b_dirty b
             then Some (st\<lparr>cmd := CmdWrite (ide_addr b), platter := (platter st)(ide_addr b := b_data b)\<rparr>)
             else Some (st\<lparr>cmd := CmdRead (ide_addr b)\<rparr>))"

text \<open>What the data port gives: the sector named in the last read command.\<close>

definition insl :: "biost \<Rightarrow> block \<Rightarrow> block" where
  "insl st old = (case cmd st of CmdRead a \<Rightarrow> platter st a | _ \<Rightarrow> old)"

text \<open>The interrupt handler; \<open>err\<close> is the error status that \<open>idewait(1)\<close> reads.\<close>

definition ideintr :: "bool \<Rightarrow> biost \<Rightarrow> biost option" where
  "ideintr err st =
     (case idequeue st of
        None \<Rightarrow> Some st
      | Some i \<Rightarrow>
          let s1 = st\<lparr>idequeue := b_qnext (bufs st ! i)\<rparr>;
              s2 = (if \<not> b_dirty (bufs s1 ! i) \<and> \<not> err
                    then bupd s1 i (\<lambda>b. b\<lparr>b_data := insl s1 (b_data b)\<rparr>) else s1);
              s3 = bupd s2 i (\<lambda>b. b\<lparr>b_valid := True, b_dirty := False\<rparr>)
          in if idequeue s3 \<noteq> None then idestart s3 (idequeue s3) else Some s3)"

text \<open>The walk to the end of the request queue, with as many steps as there are slots.\<close>

fun qlast :: "buf list \<Rightarrow> nat \<Rightarrow> nat \<Rightarrow> nat option" where
  "qlast bs i 0 = None"
| "qlast bs i (Suc n) = (case b_qnext (bs ! i) of None \<Rightarrow> Some i | Some j \<Rightarrow> qlast bs j n)"

definition iderw_submit :: "biost \<Rightarrow> nat \<Rightarrow> biost option" where
  "iderw_submit st i =
     (let b = bufs st ! i
      in if \<not> b_busy b then None
         else if b_valid b \<and> \<not> b_dirty b then None
         else if b_dev b \<noteq> 0 \<and> \<not> havedisk1 st then None
         else let s1 = bupd st i (\<lambda>b. b\<lparr>b_qnext := None\<rparr>)
              in case idequeue s1 of
                   None \<Rightarrow> idestart (s1\<lparr>idequeue := Some i\<rparr>) (Some i)
                 | Some h \<Rightarrow>
                     (case qlast (bufs s1) h (length (bufs s1)) of
                        None \<Rightarrow> None
                      | Some l \<Rightarrow>
                          let s2 = bupd s1 l (\<lambda>b. b\<lparr>b_qnext := Some i\<rparr>)
                          in if idequeue s2 = Some i then idestart s2 (Some i) else Some s2))"

text \<open>The caller of \<open>iderw\<close> sleeps until its buffer is valid and clean; interrupts run meanwhile.\<close>

fun ide_wait :: "bool \<Rightarrow> nat \<Rightarrow> biost \<Rightarrow> nat \<Rightarrow> biost option" where
  "ide_wait err n st i =
     (if b_valid (bufs st ! i) \<and> \<not> b_dirty (bufs st ! i) then Some st
      else case n of 0 \<Rightarrow> None
           | Suc m \<Rightarrow> (case ideintr err st of None \<Rightarrow> None | Some st' \<Rightarrow> ide_wait err m st' i))"

declare ide_wait.simps [simp del]

definition iderw :: "bool \<Rightarrow> biost \<Rightarrow> nat \<Rightarrow> biost option" where
  "iderw err st i =
     (case iderw_submit st i of None \<Rightarrow> None | Some s1 \<Rightarrow> ide_wait err (length (bufs s1)) s1 i)"

subsection \<open>The cache\<close>

definition unlink_buf :: "biost \<Rightarrow> nat \<Rightarrow> biost" where
  "unlink_buf st i =
     (let s1 = bupd st (b_next (bufs st ! i)) (\<lambda>b. b\<lparr>b_prev := b_prev (bufs st ! i)\<rparr>)
      in bupd s1 (b_prev (bufs s1 ! i)) (\<lambda>b. b\<lparr>b_next := b_next (bufs s1 ! i)\<rparr>))"

definition push_front :: "biost \<Rightarrow> nat \<Rightarrow> biost" where
  "push_front st i =
     (let s1 = bupd st i (\<lambda>b. b\<lparr>b_next := b_next (bufs st ! NBUF), b_prev := NBUF\<rparr>);
          s2 = bupd s1 (b_next (bufs s1 ! NBUF)) (\<lambda>b. b\<lparr>b_prev := i\<rparr>)
      in bupd s2 NBUF (\<lambda>b. b\<lparr>b_next := i\<rparr>))"

definition binit :: "biost \<Rightarrow> biost" where
  "binit st = fold (\<lambda>i s. push_front (bupd s i (\<lambda>b. b\<lparr>b_dev := -1\<rparr>)) i) [0..<NBUF]
                (bupd st NBUF (\<lambda>b. b\<lparr>b_prev := NBUF, b_next := NBUF\<rparr>))"

text \<open>A walk round the ring by \<open>next\<close> or \<open>prev\<close> until the head is met.\<close>

fun walk :: "(buf \<Rightarrow> nat) \<Rightarrow> (buf \<Rightarrow> bool) \<Rightarrow> buf list \<Rightarrow> nat \<Rightarrow> nat \<Rightarrow> nat option option" where
  "walk step P bs i 0 = None"
| "walk step P bs i (Suc n) =
     (if i = NBUF then Some None
      else if P (bs ! i) then Some (Some i)
      else walk step P bs (step (bs ! i)) n)"

definition bget :: "biost \<Rightarrow> u32 \<Rightarrow> u32 \<Rightarrow> (bget_result \<times> biost) option" where
  "bget st dev sector =
     (case walk b_next (\<lambda>b. b_dev b = dev \<and> b_sector b = sector) (bufs st) (b_next (bufs st ! NBUF)) (length (bufs st)) of
        None \<Rightarrow> None
      | Some (Some i) \<Rightarrow>
          Some (if \<not> b_busy (bufs st ! i) then (Got i, bupd st i (\<lambda>b. b\<lparr>b_busy := True\<rparr>)) else (Sleep i, st))
      | Some None \<Rightarrow>
          (case walk b_prev (\<lambda>b. \<not> b_busy b) (bufs st) (b_prev (bufs st ! NBUF)) (length (bufs st)) of
             None \<Rightarrow> None
           | Some None \<Rightarrow> Some (NoBuffers, st)
           | Some (Some i) \<Rightarrow>
               Some (Got i, bupd st i (\<lambda>b. b\<lparr>b_dev := dev, b_sector := sector, b_busy := True, b_valid := False, b_dirty := False\<rparr>))))"

text \<open>\<open>bread\<close> when the buffer is not held by another process; \<open>None\<close> also when it would sleep for one.\<close>

definition bio_bread :: "bool \<Rightarrow> biost \<Rightarrow> u32 \<Rightarrow> u32 \<Rightarrow> (nat \<times> biost) option" where
  "bio_bread err st dev sector =
     (case bget st dev sector of
        Some (Got i, s1) \<Rightarrow>
          if b_valid (bufs s1 ! i) then Some (i, s1)
          else (case iderw err s1 i of None \<Rightarrow> None | Some s2 \<Rightarrow> Some (i, s2))
      | _ \<Rightarrow> None)"

definition bio_bwrite :: "bool \<Rightarrow> biost \<Rightarrow> nat \<Rightarrow> biost option" where
  "bio_bwrite err st i =
     (if \<not> b_busy (bufs st ! i) then None else iderw err (bupd st i (\<lambda>b. b\<lparr>b_dirty := True\<rparr>)) i)"

definition brelse :: "biost \<Rightarrow> nat \<Rightarrow> biost option" where
  "brelse st i =
     (if \<not> b_busy (bufs st ! i) then None
      else Some (bupd (push_front (unlink_buf st i) i) i (\<lambda>b. b\<lparr>b_busy := False\<rparr>)))"

text \<open>
  The two patterns in which \<^verbatim>\<open>fs.c\<close> uses the cache: read a block and release it, and read a block,
  change its data, write it and release it.
\<close>

definition bio_read :: "bool \<Rightarrow> biost \<Rightarrow> u32 \<Rightarrow> u32 \<Rightarrow> (block \<times> biost) option" where
  "bio_read err st dev sector =
     do { (i, s1) \<leftarrow> bio_bread err st dev sector;
          s2 \<leftarrow> brelse s1 i;
          Some (b_data (bufs s1 ! i), s2) }"

definition bio_update :: "bool \<Rightarrow> biost \<Rightarrow> u32 \<Rightarrow> u32 \<Rightarrow> (block \<Rightarrow> block) \<Rightarrow> biost option" where
  "bio_update err st dev sector f =
     do { (i, s1) \<leftarrow> bio_bread err st dev sector;
          s2 \<leftarrow> bio_bwrite err (bupd s1 i (\<lambda>b. b\<lparr>b_data := f (b_data b)\<rparr>)) i;
          brelse s2 i }"


subsection \<open>The ring\<close>

fun seg :: "buf list \<Rightarrow> nat \<Rightarrow> nat list \<Rightarrow> nat \<Rightarrow> bool" where
  "seg bs x [] y \<longleftrightarrow> b_next (bs ! x) = y \<and> b_prev (bs ! y) = x"
| "seg bs x (z # zs) y \<longleftrightarrow> b_next (bs ! x) = z \<and> b_prev (bs ! z) = x \<and> seg bs z zs y"

lemma seg_append [simp]: "seg bs x (as @ z # cs) y \<longleftrightarrow> seg bs x as z \<and> seg bs z cs y"
  by (induction as arbitrary: x) auto

lemma seg_cong:
  assumes "\<And>i. i \<in> insert x (set zs) \<Longrightarrow> b_next (bs' ! i) = b_next (bs ! i)"
    "\<And>i. i \<in> insert y (set zs) \<Longrightarrow> b_prev (bs' ! i) = b_prev (bs ! i)"
  shows "seg bs' x zs y = seg bs x zs y"
  using assms by (induction zs arbitrary: x) auto

lemma seg_last_prev: "seg bs x zs y \<Longrightarrow> b_prev (bs ! y) = last (x # zs)"
  by (induction zs arbitrary: x) auto

lemma seg_first_next: "seg bs x zs y \<Longrightarrow> b_next (bs ! x) = hd (zs @ [y])"
  by (cases zs) auto

text \<open>Joining a chain that ends before \<open>n\<close> with one that starts at \<open>n\<close> by setting two links.\<close>

lemma seg_join:
  assumes "seg bs x as i" "seg bs i cs y" "distinct (as @ i # cs)" "x \<notin> set (as @ i # cs)" "y \<notin> set (as @ i # cs)"
    and n: "\<And>j. j \<in> insert x (set (as @ cs)) \<Longrightarrow> b_next (bs' ! j) = (if j = last (x # as) then hd (cs @ [y]) else b_next (bs ! j))"
    and p: "\<And>j. j \<in> insert y (set (as @ cs)) \<Longrightarrow> b_prev (bs' ! j) = (if j = hd (cs @ [y]) then last (x # as) else b_prev (bs ! j))"
  shows "seg bs' x (as @ cs) y"
proof -
  have left: "seg bs' x (butlast as) (last as)" if ne: "as \<noteq> []"
  proof -
    obtain a as' where as: "as = as' @ [a]" using ne by (cases as rule: rev_cases) auto
    have "seg bs x as' a" using assms(1) as by simp
    moreover have "seg bs' x as' a = seg bs x as' a"
    proof (rule seg_cong)
      fix j assume j: "j \<in> insert x (set as')"
      have "j \<noteq> last (x # as)" using j assms(3,4) as by auto
      thus "b_next (bs' ! j) = b_next (bs ! j)" using n[of j] j as by auto
    next
      fix j assume j: "j \<in> insert a (set as')"
      have "j \<noteq> hd (cs @ [y])" using j assms(3,5) as by (cases cs) auto
      thus "b_prev (bs' ! j) = b_prev (bs ! j)" using p[of j] j as by auto
    qed
    ultimately show ?thesis using as by simp
  qed
  have right: "seg bs' (hd cs) (tl cs) y" if ne: "cs \<noteq> []"
  proof -
    obtain c cs' where cs: "cs = c # cs'" using ne by (cases cs) auto
    have "seg bs c cs' y" using assms(2) cs by simp
    moreover have "seg bs' c cs' y = seg bs c cs' y"
    proof (rule seg_cong)
      fix j assume j: "j \<in> insert c (set cs')"
      have "j \<noteq> last (x # as)" using j assms(3,4) cs by (cases as rule: rev_cases) auto
      thus "b_next (bs' ! j) = b_next (bs ! j)" using n[of j] j cs by auto
    next
      fix j assume j: "j \<in> insert y (set cs')"
      have "j \<noteq> c" using j assms(3,5) cs by auto
      thus "b_prev (bs' ! j) = b_prev (bs ! j)" using p[of j] j cs by auto
    qed
    ultimately show ?thesis using cs by simp
  qed
  have mid: "b_next (bs' ! last (x # as)) = hd (cs @ [y])" "b_prev (bs' ! hd (cs @ [y])) = last (x # as)"
    using n[of "last (x # as)"] p[of "hd (cs @ [y])"] by (cases cs; cases as rule: rev_cases; auto)+
  show ?thesis
  proof (cases as rule: rev_cases)
    case Nil
    thus ?thesis using mid right by (cases cs) auto
  next
    case (snoc as' a)
    hence "seg bs' x as' a" using left by simp
    moreover have "seg bs' a cs y" using mid right snoc by (cases cs) auto
    ultimately show ?thesis using snoc by simp
  qed
qed


definition ring :: "biost \<Rightarrow> nat list \<Rightarrow> bool" where
  "ring st xs \<longleftrightarrow> length (bufs st) = Suc NBUF \<and> distinct xs \<and> set xs \<subseteq> {0..<NBUF} \<and> seg (bufs st) NBUF xs NBUF"

lemma bufs_bupd [simp]: "bufs (bupd st i f) = (bufs st)[i := f (bufs st ! i)]"
  by (simp add: bupd_def)

lemma bupd_other [simp]:
  "idequeue (bupd st i f) = idequeue st" "havedisk1 (bupd st i f) = havedisk1 st"
  "platter (bupd st i f) = platter st" "cmd (bupd st i f) = cmd st"
  by (simp_all add: bupd_def)

lemma nth_list_update_if: "(xs[i := v]) ! j = (if i = j \<and> i < length xs then v else xs ! j)"
  by (cases "i < length xs") (auto simp: nth_list_update list_update_beyond not_less)

text \<open>What the list operations leave alone: everything but the links.\<close>

definition same_but_links :: "buf \<Rightarrow> buf \<Rightarrow> bool" where
  "same_but_links a b \<longleftrightarrow> b_busy a = b_busy b \<and> b_valid a = b_valid b \<and> b_dirty a = b_dirty b \<and> b_dev a = b_dev b \<and>
     b_sector a = b_sector b \<and> b_data a = b_data b \<and> b_qnext a = b_qnext b"

lemma ring_unlink:
  assumes "ring st (as @ i # cs)"
  shows "ring (unlink_buf st i) (as @ cs)"
proof -
  have len: "length (bufs st) = Suc NBUF" and dist: "distinct (as @ i # cs)" and sub: "set (as @ i # cs) \<subseteq> {0..<NBUF}"
    and sg: "seg (bufs st) NBUF as i" "seg (bufs st) i cs NBUF"
    using assms by (auto simp: ring_def)
  let ?p = "last (NBUF # as)" and ?n = "hd (cs @ [NBUF])"
  have p: "b_prev (bufs st ! i) = ?p" and n: "b_next (bufs st ! i) = ?n"
    using seg_last_prev[OF sg(1)] seg_first_next[OF sg(2)] by simp_all
  have ne: "?n \<noteq> i" "?p \<noteq> i" and lt: "?n < Suc NBUF" "?p < Suc NBUF"
    using dist sub by (cases cs; cases as rule: rev_cases; auto)+
  let ?bs = "bufs (unlink_buf st i)"
  have e: "?bs = (bufs st)[?n := (bufs st ! ?n)\<lparr>b_prev := ?p\<rparr>, ?p := ((bufs st)[?n := (bufs st ! ?n)\<lparr>b_prev := ?p\<rparr>] ! ?p)\<lparr>b_next := ?n\<rparr>]"
    using ne by (simp add: unlink_buf_def Let_def p n)
  have nx: "b_next (?bs ! j) = (if j = ?p then ?n else b_next (bufs st ! j))"
    and pv: "b_prev (?bs ! j) = (if j = ?n then ?p else b_prev (bufs st ! j))" for j
    using lt len by (auto simp: e nth_list_update)
  have "seg ?bs NBUF (as @ cs) NBUF"
    by (rule seg_join[OF sg dist]) (use sub nx pv in auto)
  thus ?thesis using len dist sub by (auto simp: ring_def unlink_buf_def Let_def)
qed

lemma ring_push:
  assumes "ring st xs" "i \<notin> set xs" "i < NBUF"
  shows "ring (push_front st i) (i # xs)"
proof -
  have len: "length (bufs st) = Suc NBUF" and dist: "distinct xs" and sub: "set xs \<subseteq> {0..<NBUF}"
    and sg: "seg (bufs st) NBUF xs NBUF" using assms(1) by (auto simp: ring_def)
  let ?h = "hd (xs @ [NBUF])" and ?bs = "bufs (push_front st i)"
  have h: "b_next (bufs st ! NBUF) = ?h" using seg_first_next[OF sg] .
  have hl: "?h < Suc NBUF" "?h \<noteq> i" using sub assms(2,3) by (cases xs; auto)+
  have e: "?bs = ((bufs st)[i := (bufs st ! i)\<lparr>b_next := ?h, b_prev := NBUF\<rparr>, ?h := (bufs st ! ?h)\<lparr>b_prev := i\<rparr>])
      [NBUF := ((bufs st)[?h := (bufs st ! ?h)\<lparr>b_prev := i\<rparr>] ! NBUF)\<lparr>b_next := i\<rparr>]"
    using assms(3) hl len by (auto simp: push_front_def Let_def h nth_list_update)
  have nx: "b_next (?bs ! j) = (if j = NBUF then i else if j = i then ?h else b_next (bufs st ! j))"
    and pv: "b_prev (?bs ! j) = (if j = ?h then i else if j = i then NBUF else b_prev (bufs st ! j))" for j
    using hl len assms(3) by (auto simp: e nth_list_update)
  have "seg ?bs i xs NBUF"
  proof (cases xs)
    case Nil
    thus ?thesis using nx[of i] pv[of NBUF] hl assms(3) by simp
  next
    case (Cons x xs')
    have "seg ?bs x xs' NBUF = seg (bufs st) x xs' NBUF"
      by (rule seg_cong) (use Cons sub dist assms(2,3) nx pv in auto)
    thus ?thesis using Cons sg nx[of i] pv[of x] hl assms(3) by simp
  qed
  moreover have "b_next (?bs ! NBUF) = i" "b_prev (?bs ! i) = NBUF" using nx[of NBUF] pv[of i] hl by simp_all
  ultimately show ?thesis using len dist sub assms(2,3) by (auto simp: ring_def push_front_def Let_def)
qed

lemma links_frame:
  "same_but_links (bufs (push_front st i) ! j) (bufs st ! j)" "same_but_links (bufs (unlink_buf st i) ! j) (bufs st ! j)"
proof -
  have *: "same_but_links (bs[k := (bs ! k)\<lparr>b_next := x\<rparr>] ! j) b" "same_but_links (bs[k := (bs ! k)\<lparr>b_prev := x\<rparr>] ! j) b"
    "same_but_links (bs[k := (bs ! k)\<lparr>b_next := x, b_prev := y\<rparr>] ! j) b"
    if "same_but_links (bs ! j) b" for bs k x y b
    using that by (simp_all add: same_but_links_def nth_list_update_if)
  have r: "same_but_links b b" for b by (simp add: same_but_links_def)
  show "same_but_links (bufs (push_front st i) ! j) (bufs st ! j)"
    unfolding push_front_def Let_def bufs_bupd by (intro *) (rule r)
  show "same_but_links (bufs (unlink_buf st i) ! j) (bufs st ! j)"
    unfolding unlink_buf_def Let_def bufs_bupd by (intro *) (rule r)
qed

lemma links_other:
  "idequeue (push_front st i) = idequeue st" "havedisk1 (push_front st i) = havedisk1 st"
  "platter (push_front st i) = platter st" "cmd (push_front st i) = cmd st" "length (bufs (push_front st i)) = length (bufs st)"
  "idequeue (unlink_buf st i) = idequeue st" "havedisk1 (unlink_buf st i) = havedisk1 st"
  "platter (unlink_buf st i) = platter st" "cmd (unlink_buf st i) = cmd st" "length (bufs (unlink_buf st i)) = length (bufs st)"
  by (simp_all add: push_front_def unlink_buf_def Let_def)

lemma ring_bupd:
  assumes "ring st xs" "\<And>b. b_next (f b) = b_next b" "\<And>b. b_prev (f b) = b_prev b"
  shows "ring (bupd st i f) xs"
proof -
  have "b_next (bufs (bupd st i f) ! j) = b_next (bufs st ! j)" "b_prev (bufs (bupd st i f) ! j) = b_prev (bufs st ! j)" for j
    by (simp_all add: assms(2,3) nth_list_update_if)
  hence "seg (bufs (bupd st i f)) NBUF xs NBUF = seg (bufs st) NBUF xs NBUF" by (intro seg_cong)
  thus ?thesis using assms(1) by (simp add: ring_def)
qed

lemma walk_next:
  assumes "seg bs x xs NBUF" "NBUF \<notin> set xs" "length xs < n"
  shows "walk b_next P bs (b_next (bs ! x)) n = Some (find (\<lambda>i. P (bs ! i)) xs)"
  using assms
proof (induction xs arbitrary: x n)
  case Nil
  thus ?case by (cases n) auto
next
  case (Cons y xs)
  then obtain m where m: "n = Suc m" by (cases n) auto
  show ?case using Cons.prems Cons.IH[of y m] by (auto simp: m)
qed

lemma walk_prev:
  assumes "seg bs NBUF xs y" "NBUF \<notin> set xs" "length xs < n"
  shows "walk b_prev P bs (b_prev (bs ! y)) n = Some (find (\<lambda>i. P (bs ! i)) (rev xs))"
  using assms
proof (induction xs arbitrary: y n rule: rev_induct)
  case Nil
  thus ?case by (cases n) auto
next
  case (snoc x xs)
  then obtain m where m: "n = Suc m" by (cases n) auto
  show ?case using snoc.prems snoc.IH[of x m] by (auto simp: m)
qed


subsection \<open>The request queue\<close>

fun qchain :: "buf list \<Rightarrow> nat option \<Rightarrow> nat list \<Rightarrow> bool" where
  "qchain bs h [] \<longleftrightarrow> h = None"
| "qchain bs h (j # q) \<longleftrightarrow> h = Some j \<and> qchain bs (b_qnext (bs ! j)) q"

definition pending :: "buf \<Rightarrow> bool" where
  "pending b \<longleftrightarrow> b_busy b \<and> \<not> (b_valid b \<and> \<not> b_dirty b)"

definition ide_ok :: "biost \<Rightarrow> nat list \<Rightarrow> bool" where
  "ide_ok st q \<longleftrightarrow> length (bufs st) = Suc NBUF \<and> qchain (bufs st) (idequeue st) q \<and> distinct q \<and> set q \<subseteq> {0..<NBUF} \<and>
     (\<forall>j \<in> set q. pending (bufs st ! j)) \<and>
     (q \<noteq> [] \<longrightarrow> (let b = bufs st ! hd q in if b_dirty b then platter st (ide_addr b) = b_data b else cmd st = CmdRead (ide_addr b)))"

lemma qchain_cong:
  "(\<And>j. j \<in> set q \<Longrightarrow> b_qnext (bs' ! j) = b_qnext (bs ! j)) \<Longrightarrow> qchain bs' h q = qchain bs h q"
  by (induction q arbitrary: h) auto

lemma qlast_chain: "qchain bs (Some h) q \<Longrightarrow> length q \<le> n \<Longrightarrow> qlast bs h n = Some (last q)"
proof (induction q arbitrary: h n)
  case (Cons j q)
  obtain m where m: "n = Suc m" using Cons.prems(2) by (cases n) auto
  show ?case
  proof (cases q)
    case Nil
    thus ?thesis using Cons.prems by (simp add: m)
  next
    case (Cons k q')
    thus ?thesis using Cons.prems Cons.IH[of k m] by (simp add: m)
  qed
qed simp

lemma qchain_snoc:
  assumes "qchain bs (Some h) q" "distinct q" "i \<notin> set q" "b_qnext (bs' ! i) = None" "b_qnext (bs' ! last q) = Some i"
    "\<And>j. j \<in> set q \<Longrightarrow> j \<noteq> last q \<Longrightarrow> b_qnext (bs' ! j) = b_qnext (bs ! j)"
  shows "qchain bs' (Some h) (q @ [i])"
  using assms
proof (induction q arbitrary: h)
  case (Cons j q)
  show ?case
  proof (cases q)
    case Nil
    thus ?thesis using Cons.prems by simp
  next
    case (Cons k q')
    hence l: "last (j # q) = last q" "j \<noteq> last q" using Cons.prems(2) by auto
    have "qchain bs' (Some k) (q @ [i])" using Cons.prems l Cons by (intro Cons.IH) auto
    moreover have "b_qnext (bs' ! j) = Some k" using Cons.prems(1) Cons.prems(6)[of j] l Cons by simp
    ultimately show ?thesis using Cons.prems(1) by simp
  qed
qed simp

lemma ide_addr_upd [simp]:
  "ide_addr (b\<lparr>b_qnext := x\<rparr>) = ide_addr b" "ide_addr (b\<lparr>b_data := d\<rparr>) = ide_addr b" "ide_addr (b\<lparr>b_valid := v\<rparr>) = ide_addr b"
  "ide_addr (b\<lparr>b_dirty := v\<rparr>) = ide_addr b" "ide_addr (b\<lparr>b_busy := v\<rparr>) = ide_addr b"
  by (simp_all add: ide_addr_def)

definition flush :: "buf list \<Rightarrow> nat list \<Rightarrow> (bool \<times> u32 \<Rightarrow> block) \<Rightarrow> bool \<times> u32 \<Rightarrow> block" where
  "flush bs q P = fold (\<lambda>j P. if b_dirty (bs ! j) then P(ide_addr (bs ! j) := b_data (bs ! j)) else P) q P"

definition served :: "(bool \<times> u32 \<Rightarrow> block) \<Rightarrow> buf \<Rightarrow> buf" where
  "served P b = b\<lparr>b_data := (if b_dirty b then b_data b else P (ide_addr b)), b_valid := True, b_dirty := False\<rparr>"

lemma flush_simps [simp]:
  "flush bs [] P = P"
  "flush bs (j # q) P = flush bs q (if b_dirty (bs ! j) then P(ide_addr (bs ! j) := b_data (bs ! j)) else P)"
  by (simp_all add: flush_def)

lemma flush_cong: "(\<And>j. j \<in> set q \<Longrightarrow> bs' ! j = bs ! j) \<Longrightarrow> flush bs' q P = flush bs q P"
  by (induction q arbitrary: P) auto

lemma idestart_some:
  "\<exists>st'. idestart st (Some i) = Some st' \<and> bufs st' = bufs st \<and> idequeue st' = idequeue st \<and> havedisk1 st' = havedisk1 st \<and>
     platter st' = flush (bufs st) [i] (platter st) \<and> (\<not> b_dirty (bufs st ! i) \<longrightarrow> cmd st' = CmdRead (ide_addr (bufs st ! i)))"
  by (simp add: idestart_def Let_def)

lemma iderw_submit_ok:
  assumes ok: "ide_ok st q" and i: "i \<notin> set q" "i < NBUF" and p: "pending (bufs st ! i)"
    and d: "b_dev (bufs st ! i) = 0 \<or> havedisk1 st"
  shows "\<exists>st'. iderw_submit st i = Some st' \<and> ide_ok st' (q @ [i]) \<and> havedisk1 st' = havedisk1 st \<and>
    (\<forall>j. bufs st' ! j = (bufs st ! j)\<lparr>b_qnext := b_qnext (bufs st' ! j)\<rparr>) \<and>
    platter st' = (if q = [] then flush (bufs st) [i] (platter st) else platter st)"
proof (cases q)
  case Nil
  have q: "idequeue st = None" "length (bufs st) = Suc NBUF" using ok Nil by (auto simp: ide_ok_def)
  define st1 where "st1 = (bupd st i (\<lambda>b. b\<lparr>b_qnext := None\<rparr>))\<lparr>idequeue := Some i\<rparr>"
  have bi: "bufs st1 ! i = (bufs st ! i)\<lparr>b_qnext := None\<rparr>" using q i by (simp add: st1_def)
  have b: "bufs st1 ! j = (bufs st ! j)\<lparr>b_qnext := b_qnext (bufs st1 ! j)\<rparr>" for j
    by (simp add: st1_def nth_list_update_if)
  have a: "ide_addr (bufs st1 ! i) = ide_addr (bufs st ! i)" by (simp add: bi ide_addr_def)
  have e: "iderw_submit st i = idestart st1 (Some i)"
    using p d q by (auto simp: iderw_submit_def pending_def Let_def st1_def)
  have o1: "idequeue st1 = Some i" "havedisk1 st1 = havedisk1 st" "platter st1 = platter st" "length (bufs st1) = Suc NBUF"
    using q by (simp_all add: st1_def)
  obtain st' where s: "idestart st1 (Some i) = Some st'" and bs: "bufs st' = bufs st1" "idequeue st' = Some i" "havedisk1 st' = havedisk1 st"
    and pl: "platter st' = flush (bufs st1) [i] (platter st)"
    and cm: "\<not> b_dirty (bufs st1 ! i) \<Longrightarrow> cmd st' = CmdRead (ide_addr (bufs st1 ! i))"
    using idestart_some[of st1 i] o1 by auto
  have pl': "flush (bufs st1) [i] (platter st) = flush (bufs st) [i] (platter st)" by (simp add: a bi)
  have "ide_ok st' [i]"
    using q i bs pl cm p o1(4) by (auto simp: ide_ok_def pending_def bi Let_def)
  moreover have "\<forall>j. bufs st' ! j = (bufs st ! j)\<lparr>b_qnext := b_qnext (bufs st' ! j)\<rparr>" unfolding bs(1) using b by blast
  moreover have "platter st' = flush (bufs st) [i] (platter st)" using pl pl' by simp
  ultimately show ?thesis using e s bs(3) Nil by (intro exI[of _ st']) (simp del: flush_simps)
next
  case (Cons h q')
  have len: "length (bufs st) = Suc NBUF" and qc: "qchain (bufs st) (Some h) q" "idequeue st = Some h" and dq: "distinct q" "set q \<subseteq> {0..<NBUF}"
    using ok Cons by (auto simp: ide_ok_def)
  define s1 where "s1 = bupd st i (\<lambda>b. b\<lparr>b_qnext := None\<rparr>)"
  define s2 where "s2 = bupd s1 (last q) (\<lambda>b. b\<lparr>b_qnext := Some i\<rparr>)"
  have lq: "last q \<in> set q" "last q < NBUF" "last q \<noteq> i" using dq(2) i Cons by (auto simp: subset_iff)
  have lenq: "length q \<le> Suc NBUF" using card_mono[OF _ dq(2)] distinct_card[OF dq(1)] by simp
  have "j \<in> set q \<Longrightarrow> b_qnext (bufs s1 ! j) = b_qnext (bufs st ! j)" for j using i by (auto simp: s1_def nth_list_update_if)
  hence q1: "qchain (bufs s1) (Some h) q" using qchain_cong[of q "bufs s1" "bufs st"] qc(1) by blast
  have ql: "qlast (bufs s1) h (length (bufs s1)) = Some (last q)"
    using qlast_chain[OF q1] lenq len by (simp add: s1_def)
  have ne: "h \<noteq> i" using i Cons by auto
  have e: "iderw_submit st i = Some s2"
    using p d qc(2) ql ne by (auto simp: iderw_submit_def pending_def Let_def s1_def s2_def)
  have n2: "b_qnext (bufs s2 ! j) = (if j = last q then Some i else if j = i then None else b_qnext (bufs st ! j))" for j
    using lq i len by (auto simp: s2_def s1_def nth_list_update_if)
  have "qchain (bufs s2) (Some h) (q @ [i])" by (rule qchain_snoc[OF qc(1) dq(1) i(1)]) (use lq n2 i(1) in auto)
  have b: "bufs s2 ! j = (bufs st ! j)\<lparr>b_qnext := b_qnext (bufs s2 ! j)\<rparr>" for j
    using lq by (auto simp: s2_def s1_def nth_list_update_if)
  hence f: "pending (bufs s2 ! j) = pending (bufs st ! j)" "b_dirty (bufs s2 ! j) = b_dirty (bufs st ! j)"
    "ide_addr (bufs s2 ! j) = ide_addr (bufs st ! j)" "b_data (bufs s2 ! j) = b_data (bufs st ! j)" for j
    by (metis (no_types, lifting) buf.ext_inject buf.surjective buf.update_convs(8) pending_def ide_addr_def)+
  have o2: "idequeue s2 = Some h" "length (bufs s2) = Suc NBUF" "platter s2 = platter st" "cmd s2 = cmd st" "havedisk1 s2 = havedisk1 st"
    using qc(2) len by (simp_all add: s1_def s2_def)
  have "ide_ok s2 (q @ [i])"
    using ok i p \<open>qchain (bufs s2) (Some h) (q @ [i])\<close> Cons o2 unfolding ide_ok_def Let_def f o2 by auto
  thus ?thesis using e b Cons o2 by auto
qed

lemma ideintr_ok:
  assumes ok: "ide_ok st (j # q)"
  shows "\<exists>st'. ideintr False st = Some st' \<and> ide_ok st' q \<and> havedisk1 st' = havedisk1 st \<and>
    bufs st' = (bufs st)[j := served (platter st) (bufs st ! j)] \<and>
    platter st' = (if q = [] then platter st else flush (bufs st) [hd q] (platter st))"
proof -
  have len: "length (bufs st) = Suc NBUF" and qc: "idequeue st = Some j" "qchain (bufs st) (b_qnext (bufs st ! j)) q"
    and dq: "j \<notin> set q" "distinct q" "j < NBUF" "set q \<subseteq> {0..<NBUF}" and pd: "\<forall>k \<in> set q. pending (bufs st ! k)"
    and hd: "\<not> b_dirty (bufs st ! j) \<Longrightarrow> cmd st = CmdRead (ide_addr (bufs st ! j))"
    using ok by (auto simp: ide_ok_def Let_def)
  let ?bs = "(bufs st)[j := served (platter st) (bufs st ! j)]"
  obtain s3 where s3: "bufs s3 = ?bs" "idequeue s3 = b_qnext (bufs st ! j)" "havedisk1 s3 = havedisk1 st" "platter s3 = platter st"
    and e: "ideintr False st = (if idequeue s3 \<noteq> None then idestart s3 (idequeue s3) else Some s3)"
  proof (cases "b_dirty (bufs st ! j)")
    case True
    show thesis
      by (rule that[of "bupd (st\<lparr>idequeue := b_qnext (bufs st ! j)\<rparr>) j (\<lambda>b. b\<lparr>b_valid := True, b_dirty := False\<rparr>)"])
         (use True qc(1) len dq(3) in \<open>simp_all add: ideintr_def Let_def served_def\<close>)
  next
    case False
    show thesis
      by (rule that[of "bupd (bupd (st\<lparr>idequeue := b_qnext (bufs st ! j)\<rparr>) j (\<lambda>b. b\<lparr>b_data := platter st (ide_addr b)\<rparr>)) j
                         (\<lambda>b. b\<lparr>b_valid := True, b_dirty := False\<rparr>)"])
         (use False qc(1) len dq(3) hd[OF False] in \<open>simp_all add: ideintr_def Let_def served_def insl_def bupd_def\<close>)
  qed
  have qc3: "qchain ?bs (b_qnext (bufs st ! j)) q"
    using qc(2) qchain_cong[of q ?bs "bufs st"] dq(1) by (metis nth_list_update_neq)
  show ?thesis
  proof (cases q)
    case Nil
    hence "b_qnext (bufs st ! j) = None" using qc(2) by simp
    thus ?thesis using e s3 Nil len by (simp add: ide_ok_def)
  next
    case (Cons k q')
    hence k: "b_qnext (bufs st ! j) = Some k" "k \<noteq> j" "?bs ! k = bufs st ! k" using qc(2) dq(1) by auto
    obtain st' where st': "idestart s3 (Some k) = Some st'" "bufs st' = ?bs" "idequeue st' = Some k" "havedisk1 st' = havedisk1 st"
      "platter st' = flush ?bs [k] (platter st)" "\<not> b_dirty (?bs ! k) \<Longrightarrow> cmd st' = CmdRead (ide_addr (?bs ! k))"
      using idestart_some[of s3 k] s3 k by auto
    have "?bs ! x = bufs st ! x" if "x \<in> set q" for x using that dq(1) by (metis nth_list_update_neq)
    hence "ide_ok st' q" using st' k qc3 dq pd len Cons by (auto simp: ide_ok_def Let_def)
    thus ?thesis using e s3 k st' Cons by simp
  qed
qed

lemma ide_wait_serves:
  assumes "ide_ok st q" "q \<noteq> []" "i = last q" "inj_on (\<lambda>j. ide_addr (bufs st ! j)) (set q)" "length q \<le> n"
  shows "\<exists>st'. ide_wait False n st i = Some st' \<and> ide_ok st' [] \<and> havedisk1 st' = havedisk1 st \<and>
    platter st' = flush (bufs st) q (platter st) \<and>
    (\<forall>k. bufs st' ! k = (if k \<in> set q then served (platter st) (bufs st ! k) else bufs st ! k))"
  using assms
proof (induction q arbitrary: st n)
  case (Cons j q)
  obtain m where m: "n = Suc m" using Cons.prems(5) by (cases n) auto
  have pi: "\<not> (b_valid (bufs st ! i) \<and> \<not> b_dirty (bufs st ! i))"
    using Cons.prems(1,3) by (auto simp: ide_ok_def pending_def)
  have jl: "j < length (bufs st)" "j \<notin> set q" and hd: "b_dirty (bufs st ! j) \<Longrightarrow> platter st (ide_addr (bufs st ! j)) = b_data (bufs st ! j)"
    using Cons.prems(1) by (auto simp: ide_ok_def Let_def)
  have pj: "(if b_dirty (bufs st ! j) then (platter st)(ide_addr (bufs st ! j) := b_data (bufs st ! j)) else platter st) = platter st"
    using hd by (simp add: fun_upd_idem)
  obtain st1 where s1: "ideintr False st = Some st1" "ide_ok st1 q" "havedisk1 st1 = havedisk1 st"
    "bufs st1 = (bufs st)[j := served (platter st) (bufs st ! j)]"
    "platter st1 = (if q = [] then platter st else flush (bufs st) [hd q] (platter st))"
    using ideintr_ok[OF Cons.prems(1)] by blast
  have w: "ide_wait False n st i = ide_wait False m st1 i" using pi s1(1) by (subst ide_wait.simps) (auto simp: m)
  have bq: "bufs st1 ! k = bufs st ! k" if "k \<noteq> j" for k using s1(4) that by simp
  have bqs: "bufs st1 ! k = bufs st ! k" if "k \<in> set q" for k using bq[of k] jl(2) that by metis
  show ?case
  proof (cases "q = []")
    case True
    hence "ide_wait False m st1 i = Some st1" using Cons.prems(3) s1(4) jl by (simp add: served_def ide_wait.simps)
    thus ?thesis using w s1 True jl pj by (auto simp: nth_list_update_if)
  next
    case False
    have i1: "inj_on (\<lambda>j. ide_addr (bufs st1 ! j)) (set q)"
      using Cons.prems(4) bqs by (simp add: inj_on_def)
    obtain st' where st': "ide_wait False m st1 i = Some st'" "ide_ok st' []" "havedisk1 st' = havedisk1 st1"
      "platter st' = flush (bufs st1) q (platter st1)"
      "\<forall>k. bufs st' ! k = (if k \<in> set q then served (platter st1) (bufs st1 ! k) else bufs st1 ! k)"
      using Cons.IH[OF s1(2) False _ i1, of m] Cons.prems(3,5) False m by auto
    obtain h q' where q: "q = h # q'" using False by (cases q) auto
    have "flush (bufs st1) q (platter st1) = flush (bufs st) q (platter st1)" using bqs by (rule flush_cong)
    also have "\<dots> = flush (bufs st) q (platter st)" using s1(5) q by simp
    finally have pl: "platter st' = flush (bufs st) (j # q) (platter st)" using st'(4) pj by simp
    have sv: "served (platter st1) (bufs st1 ! k) = served (platter st) (bufs st ! k)" if "k \<in> set q" for k
    proof -
      have "k \<noteq> j" using that jl(2) by auto
      moreover have "k = h \<or> ide_addr (bufs st ! k) \<noteq> ide_addr (bufs st ! h)"
        using Cons.prems(4) that q by (auto simp: inj_on_def)
      ultimately show ?thesis using s1(5) q bq by (auto simp: served_def)
    qed
    have "bufs st' ! k = (if k \<in> set (j # q) then served (platter st) (bufs st ! k) else bufs st ! k)" for k
      using st'(5) sv jl s1(4) by (auto simp: nth_list_update_if)
    thus ?thesis using w st' s1(3) pl by auto
  qed
qed simp

end
