(* ===== verification/BioProps.thy ===== *)
theory BioProps
  imports Bio
begin

text \<open>
  What the buffer cache promises: requests to the drive complete in order, buffers are reused least
  recently used first, and reading and updating blocks through the cache is the same as reading and
  writing the disk that the file system theory \<open>Fs\<close> works on.
\<close>

subsection \<open>Serving requests\<close>

lemma iderw_ok:
  assumes ok: "ide_ok st q" and i: "i \<notin> set q" "i < NBUF" and p: "pending (bufs st ! i)"
    and d: "b_dev (bufs st ! i) = 0 \<or> havedisk1 st" and inj: "inj_on (\<lambda>j. ide_addr (bufs st ! j)) (set (q @ [i]))"
  shows "\<exists>st'. iderw False st i = Some st' \<and> ide_ok st' [] \<and> havedisk1 st' = havedisk1 st \<and>
    platter st' = flush (bufs st) (q @ [i]) (platter st) \<and>
    (\<forall>k. \<exists>x. bufs st' ! k = (if k \<in> set (q @ [i]) then served (platter st) (bufs st ! k) else bufs st ! k)\<lparr>b_qnext := x\<rparr>)"
proof -
  obtain s1 where s1: "iderw_submit st i = Some s1" "ide_ok s1 (q @ [i])" "havedisk1 s1 = havedisk1 st"
    "\<And>j. bufs s1 ! j = (bufs st ! j)\<lparr>b_qnext := b_qnext (bufs s1 ! j)\<rparr>"
    "platter s1 = (if q = [] then flush (bufs st) [i] (platter st) else platter st)"
    using iderw_submit_ok[OF ok i p d] by blast
  have f: "b_dirty (bufs s1 ! j) = b_dirty (bufs st ! j)" "ide_addr (bufs s1 ! j) = ide_addr (bufs st ! j)"
    "b_data (bufs s1 ! j) = b_data (bufs st ! j)" for j
    by (subst s1(4), simp)+
  have len: "length (bufs s1) = Suc NBUF" "set (q @ [i]) \<subseteq> {0..<NBUF}" "distinct (q @ [i])" using s1(2) by (auto simp: ide_ok_def)
  have "length (q @ [i]) \<le> length (bufs s1)" using card_mono[OF _ len(2)] distinct_card[OF len(3)] len(1) by simp
  then obtain st' where st': "ide_wait False (length (bufs s1)) s1 i = Some st'" "ide_ok st' []" "havedisk1 st' = havedisk1 s1"
    "platter st' = flush (bufs s1) (q @ [i]) (platter s1)"
    "\<And>k. bufs st' ! k = (if k \<in> set (q @ [i]) then served (platter s1) (bufs s1 ! k) else bufs s1 ! k)"
    using ide_wait_serves[OF s1(2), of i "length (bufs s1)"] inj by (auto simp: f)
  have fl: "flush (bufs s1) q' P = flush (bufs st) q' P" for q' P by (induction q' arbitrary: P) (simp_all add: f)
  have "flush (bufs st) (q @ [i]) (platter s1) = flush (bufs st) (q @ [i]) (platter st)" by (simp add: s1(5))
  hence pl: "platter st' = flush (bufs st) (q @ [i]) (platter st)" using st'(4) fl by simp
  have sv: "\<exists>x. served (platter s1) (bufs s1 ! k) = (served (platter st) (bufs st ! k))\<lparr>b_qnext := x\<rparr>" if "k \<in> set (q @ [i])" for k
  proof -
    have "b_dirty (bufs st ! k) \<or> platter s1 (ide_addr (bufs st ! k)) = platter st (ide_addr (bufs st ! k))"
      using that s1(5) by auto
    thus ?thesis by (intro exI[of _ "b_qnext (bufs s1 ! k)"], subst s1(4)) (auto simp: served_def)
  qed
  have "\<exists>x. bufs st' ! k = (if k \<in> set (q @ [i]) then served (platter st) (bufs st ! k) else bufs st ! k)\<lparr>b_qnext := x\<rparr>" for k
  proof (cases "k \<in> set (q @ [i])")
    case False
    thus ?thesis using st'(5)[of k] s1(4)[of k] by auto
  qed (use st'(5)[of k] sv[of k] in auto)
  thus ?thesis using s1 st' pl by (auto simp: iderw_def)
qed



text \<open>
  Witness for C12: buffer 3 waits for a read when the holder of buffer 5 asks for a write.
\<close>

definition demo_bio :: biost where
  "demo_bio = \<lparr>bufs = map (\<lambda>i. \<lparr>b_busy = (i = 3 \<or> i = 5), b_valid = False, b_dirty = (i = 5), b_dev = 0, b_sector = of_nat i,
       b_prev = 0, b_next = 0, b_qnext = None, b_data = (\<lambda>k. of_nat i)\<rparr>) [0..<11],
     idequeue = Some 3, havedisk1 = False, platter = (\<lambda>a k. 7), cmd = CmdRead (False, 3)\<rparr>"


subsection \<open>Choice of a buffer\<close>

lemma ring_bget:
  assumes "ring st xs"
  shows "bget st dev sector = Some
    (case find (\<lambda>i. b_dev (bufs st ! i) = dev \<and> b_sector (bufs st ! i) = sector) xs of
       Some i \<Rightarrow> if \<not> b_busy (bufs st ! i) then (Got i, bupd st i (\<lambda>b. b\<lparr>b_busy := True\<rparr>)) else (Sleep i, st)
     | None \<Rightarrow>
         (case find (\<lambda>i. \<not> b_busy (bufs st ! i)) (rev xs) of
            None \<Rightarrow> (NoBuffers, st)
          | Some i \<Rightarrow> (Got i, bupd st i (\<lambda>b. b\<lparr>b_dev := dev, b_sector := sector, b_busy := True, b_valid := False, b_dirty := False\<rparr>))))"
proof -
  have h: "length (bufs st) = Suc NBUF" "seg (bufs st) NBUF xs NBUF" "NBUF \<notin> set xs" "distinct xs" "set xs \<subseteq> {0..<NBUF}"
    using assms by (auto simp: ring_def)
  have l: "length xs < length (bufs st)" using card_mono[OF _ h(5)] distinct_card[OF h(4)] h(1) by simp
  show ?thesis
    unfolding bget_def walk_next[OF h(2,3) l] walk_prev[OF h(2,3) l] by (auto split: option.splits)
qed

lemma ring_brelse:
  assumes "ring st xs" "i \<in> set xs" "b_busy (bufs st ! i)"
  shows "\<exists>st'. brelse st i = Some st' \<and> ring st' (i # remove1 i xs) \<and> idequeue st' = idequeue st \<and> havedisk1 st' = havedisk1 st \<and>
    platter st' = platter st \<and> (\<forall>j < NBUF. same_but_links (bufs st' ! j) (if j = i then (bufs st ! j)\<lparr>b_busy := False\<rparr> else bufs st ! j))"
proof -
  obtain as cs where xs: "xs = as @ i # cs" "i \<notin> set as" using assms(2) by (meson split_list_first)
  have d: "distinct xs" "i < NBUF" "length (bufs st) = Suc NBUF" using assms(1,2) by (auto simp: ring_def)
  have r1: "remove1 i xs = as @ cs" using xs by (simp add: remove1_append)
  have "ring (unlink_buf st i) (as @ cs)" using ring_unlink assms(1) xs(1) by blast
  moreover have "i \<notin> set (as @ cs)" using d(1) xs by auto
  ultimately have "ring (push_front (unlink_buf st i) i) (i # as @ cs)" using ring_push d(2) by blast
  hence r: "ring (bupd (push_front (unlink_buf st i) i) i (\<lambda>b. b\<lparr>b_busy := False\<rparr>)) (i # remove1 i xs)"
    unfolding r1 by (rule ring_bupd) simp_all
  let ?s = "push_front (unlink_buf st i) i"
  have "same_but_links (bufs ?s ! j) (bufs st ! j)" for j
    using links_frame(1)[of "unlink_buf st i" i j] links_frame(2)[of st i j] by (simp add: same_but_links_def)
  moreover have "length (bufs ?s) = Suc NBUF" by (simp add: links_other d(3))
  ultimately have "same_but_links (bufs (bupd ?s i (\<lambda>b. b\<lparr>b_busy := False\<rparr>)) ! j) (if j = i then (bufs st ! j)\<lparr>b_busy := False\<rparr> else bufs st ! j)" for j
    using d(2) by (auto simp: same_but_links_def nth_list_update_if)
  thus ?thesis using r assms(3) by (simp add: brelse_def links_other)
qed

text \<open>
  Buffers are reused least recently used first.  The ring after \<open>brelse\<close> has the released buffer
  first and the others in their old order; \<open>bget\<close> takes a cached buffer if there is one, and else, from
  the other end of the ring, the first that nobody holds.  Only when all are held does it panic.
\<close>

theorem cache_lru:
  assumes "ring st xs" "set xs = {0..<NBUF}"
  shows "(case bget st dev sector of
            None \<Rightarrow> False
          | Some (NoBuffers, st') \<Rightarrow> st' = st \<and> (\<forall>i < NBUF. b_busy (bufs st ! i) \<and> (b_dev (bufs st ! i), b_sector (bufs st ! i)) \<noteq> (dev, sector))
          | Some (Sleep i, st') \<Rightarrow> st' = st \<and> i < NBUF \<and> b_busy (bufs st ! i) \<and> (b_dev (bufs st ! i), b_sector (bufs st ! i)) = (dev, sector)
          | Some (Got i, st') \<Rightarrow>
              ring st' xs \<and> i < NBUF \<and> \<not> b_busy (bufs st ! i) \<and> b_busy (bufs st' ! i) \<and>
              b_dev (bufs st' ! i) = dev \<and> b_sector (bufs st' ! i) = sector \<and>
              ((b_dev (bufs st ! i), b_sector (bufs st ! i)) \<noteq> (dev, sector) \<longrightarrow>
                 \<not> b_valid (bufs st' ! i) \<and> (\<forall>j < NBUF. (b_dev (bufs st ! j), b_sector (bufs st ! j)) \<noteq> (dev, sector)) \<and>
                 (\<exists>as cs. xs = as @ i # cs \<and> (\<forall>j \<in> set cs. b_busy (bufs st ! j))))) \<and>
         (\<forall>i < NBUF. b_busy (bufs st ! i) \<longrightarrow> (\<exists>st'. brelse st i = Some st' \<and> ring st' (i # remove1 i xs)))"
proof -
  have len: "length (bufs st) = Suc NBUF" using assms(1) by (simp add: ring_def)
  have rb: "ring (bupd st i f) xs" if "\<And>b. b_next (f b) = b_next b" "\<And>b. b_prev (f b) = b_prev b" for i f
    using ring_bupd[OF assms(1)] that by blast
  have r: "\<forall>i < NBUF. b_busy (bufs st ! i) \<longrightarrow> (\<exists>st'. brelse st i = Some st' \<and> ring st' (i # remove1 i xs))"
    using ring_brelse[OF assms(1)] assms(2) by fastforce
  let ?m = "\<lambda>i. b_dev (bufs st ! i) = dev \<and> b_sector (bufs st ! i) = sector"
  show ?thesis
  proof (cases "find ?m xs")
    case (Some i)
    hence i: "?m i" "i < NBUF" using assms(2) by (auto simp: find_Some_iff set_conv_nth)
    show ?thesis using r i len rb by (cases "b_busy (bufs st ! i)") (simp_all add: ring_bget[OF assms(1)] Some)
  next
    case None
    hence nm: "\<forall>j < NBUF. (b_dev (bufs st ! j), b_sector (bufs st ! j)) \<noteq> (dev, sector)"
      using assms(2) by (force simp: find_None_iff)
    show ?thesis
    proof (cases "find (\<lambda>i. \<not> b_busy (bufs st ! i)) (rev xs)")
      case n2: None
      have "\<forall>i < NBUF. b_busy (bufs st ! i)" using n2 assms(2) by (force simp: find_None_iff)
      thus ?thesis using r nm by (simp add: ring_bget[OF assms(1)] None n2)
    next
      case s2: (Some i)
      then obtain ys zs where rv: "rev xs = ys @ i # zs" "\<not> b_busy (bufs st ! i)" "\<forall>y \<in> set ys. b_busy (bufs st ! y)"
        using find_split[OF s2] by auto
      hence x: "xs = rev zs @ i # rev ys" by (metis append.assoc append_Cons append_Nil rev.simps(2) rev_append rev_rev_ident)
      have i: "i < NBUF" using x assms(2) by auto
      have "\<exists>as cs. xs = as @ i # cs \<and> (\<forall>j \<in> set cs. b_busy (bufs st ! j))" using x rv(3) by (metis set_rev)
      thus ?thesis using r nm rv(2) i len rb by (simp add: ring_bget[OF assms(1)] None s2)
    qed
  qed
qed


text \<open>An evaluation: the cache that \<open>binit\<close> sets up.\<close>

definition blank_bio :: biost where
  "blank_bio = \<lparr>bufs = replicate 11 \<lparr>b_busy = False, b_valid = False, b_dirty = False, b_dev = 0, b_sector = 0,
       b_prev = 0, b_next = 0, b_qnext = None, b_data = (\<lambda>k. 0)\<rparr>,
     idequeue = None, havedisk1 = False, platter = (\<lambda>a k. 7), cmd = NoCmd\<rparr>"

lemma binit_ring:
  assumes "length (bufs st) = Suc NBUF"
  shows "ring (binit st) (rev [0..<NBUF])"
proof -
  let ?s0 = "bupd st NBUF (\<lambda>b. b\<lparr>b_prev := NBUF, b_next := NBUF\<rparr>)"
  have "n \<le> NBUF \<Longrightarrow> ring (fold (\<lambda>i s. push_front (bupd s i (\<lambda>b. b\<lparr>b_dev := -1\<rparr>)) i) [0..<n] ?s0) (rev [0..<n])" for n
  proof (induction n)
    case 0
    show ?case using assms by (simp add: ring_def nth_list_update_if)
  next
    case (Suc n)
    let ?s = "fold (\<lambda>i s. push_front (bupd s i (\<lambda>b. b\<lparr>b_dev := -1\<rparr>)) i) [0..<n] ?s0"
    have "ring (bupd ?s n (\<lambda>b. b\<lparr>b_dev := -1\<rparr>)) (rev [0..<n])" using Suc by (intro ring_bupd) simp_all
    thus ?case using Suc.prems ring_push[of "bupd ?s n (\<lambda>b. b\<lparr>b_dev := -1\<rparr>)" "rev [0..<n]" n] by simp
  qed
  thus ?thesis unfolding binit_def by blast
qed

lemma binit_slots:
  assumes "length (bufs st) = Suc NBUF" "j < NBUF"
  shows "same_but_links (bufs (binit st) ! j) ((bufs st ! j)\<lparr>b_dev := -1\<rparr>)"
    "idequeue (binit st) = idequeue st" "havedisk1 (binit st) = havedisk1 st" "platter (binit st) = platter st"
proof -
  let ?s0 = "bupd st NBUF (\<lambda>b. b\<lparr>b_prev := NBUF, b_next := NBUF\<rparr>)"
  let ?f = "\<lambda>i s. push_front (bupd s i (\<lambda>b. b\<lparr>b_dev := -1\<rparr>)) i"
  have o: "length (bufs (fold ?f xs s)) = length (bufs s) \<and> idequeue (fold ?f xs s) = idequeue s \<and>
      havedisk1 (fold ?f xs s) = havedisk1 s \<and> platter (fold ?f xs s) = platter s" for xs s
    by (induction xs arbitrary: s) (simp_all add: links_other)
  have step: "same_but_links (bufs (?f n s) ! j) (if n = j then (bufs s ! j)\<lparr>b_dev := -1\<rparr> else bufs s ! j)"
    if "length (bufs s) = Suc NBUF" for s n
    using links_frame(1)[of "bupd s n (\<lambda>b. b\<lparr>b_dev := -1\<rparr>)" n j] that assms(2) by (auto simp: nth_list_update_if)
  have "same_but_links (bufs (fold ?f [0..<n] ?s0) ! j) (if j < n then (bufs st ! j)\<lparr>b_dev := -1\<rparr> else bufs st ! j)" for n
  proof (induction n)
    case 0
    show ?case using assms by (simp add: same_but_links_def nth_list_update_if)
  next
    case (Suc n)
    have "length (bufs (fold ?f [0..<n] ?s0)) = Suc NBUF" using o assms(1) by simp
    note st = step[OF this, of n]
    show ?case
    proof (cases "n = j")
      case True
      thus ?thesis using st Suc by (simp add: same_but_links_def)
    next
      case False
      hence "j < Suc n \<longleftrightarrow> j < n" by linarith
      thus ?thesis using st Suc False by (simp add: same_but_links_def)
    qed
  qed
  from this[of NBUF] show "same_but_links (bufs (binit st) ! j) ((bufs st ! j)\<lparr>b_dev := -1\<rparr>)"
    using assms(2) by (simp add: binit_def del: upt.simps)
  show "idequeue (binit st) = idequeue st" "havedisk1 (binit st) = havedisk1 st" "platter (binit st) = platter st"
    using o[of "[0..<NBUF]" ?s0] by (simp_all add: binit_def del: upt.simps)
qed

theorem cache_lru_witness:
  "case bget (binit blank_bio) 0 9 of None \<Rightarrow> False | Some (r, st') \<Rightarrow> \<exists>i. r = Got i \<and> b_sector (bufs st' ! i) = 9"
proof -
  have nb: "\<not> b_busy (bufs (binit blank_bio) ! j)" if "j < NBUF" for j
    using binit_slots(1)[of blank_bio j] that by (simp add: same_but_links_def blank_bio_def)
  have "ring (binit blank_bio) (rev [0..<NBUF])" by (rule binit_ring) (simp add: blank_bio_def)
  moreover have "set (rev [0..<NBUF]) = {0..<NBUF}" by simp
  ultimately have l: "case bget (binit blank_bio) 0 9 of
            None \<Rightarrow> False
          | Some (NoBuffers, st') \<Rightarrow> b_busy (bufs (binit blank_bio) ! 0)
          | Some (Sleep i, st') \<Rightarrow> i < NBUF \<and> b_busy (bufs (binit blank_bio) ! i)
          | Some (Got i, st') \<Rightarrow> b_sector (bufs st' ! i) = 9"
    using cache_lru[of "binit blank_bio" "rev [0..<NBUF]" 0 9, THEN conjunct1] by (simp split: option.splits prod.splits bget_result.splits)
  show ?thesis
  proof (cases "bget (binit blank_bio) 0 9")
    case (Some p)
    obtain r st' where p: "p = (r, st')" by force
    show ?thesis using l nb[of 0] nb by (cases r) (auto simp: Some p)
  qed (use l in simp)
qed


subsection \<open>Block devices\<close>

datatype blk_op = Rd u32 u32 | Up u32 u32 "block \<Rightarrow> block"

fun op_ok :: "(u32 \<Rightarrow> u32 \<Rightarrow> bool) \<Rightarrow> blk_op \<Rightarrow> bool" where
  "op_ok ok (Rd d b) = ok d b"
| "op_ok ok (Up d b f) = ok d b"

text \<open>A sequence of reads and updates on a device given by its two operations, with the blocks read.\<close>

fun run_ops :: "('s \<Rightarrow> u32 \<Rightarrow> u32 \<Rightarrow> (block \<times> 's) option) \<Rightarrow> ('s \<Rightarrow> u32 \<Rightarrow> u32 \<Rightarrow> (block \<Rightarrow> block) \<Rightarrow> 's option) \<Rightarrow>
    's \<Rightarrow> blk_op list \<Rightarrow> (block list \<times> 's) option" where
  "run_ops rd up s [] = Some ([], s)"
| "run_ops rd up s (Rd d b # ops) =
     (case rd s d b of None \<Rightarrow> None
      | Some (x, s') \<Rightarrow> (case run_ops rd up s' ops of None \<Rightarrow> None | Some (xs, t) \<Rightarrow> Some (x # xs, t)))"
| "run_ops rd up s (Up d b f # ops) = (case up s d b f of None \<Rightarrow> None | Some s' \<Rightarrow> run_ops rd up s' ops)"

fun spec_ops :: "(u32 \<Rightarrow> u32 \<Rightarrow> block) \<Rightarrow> blk_op list \<Rightarrow> block list \<times> (u32 \<Rightarrow> u32 \<Rightarrow> block)" where
  "spec_ops c [] = ([], c)"
| "spec_ops c (Rd d b # ops) = (c d b # fst (spec_ops c ops), snd (spec_ops c ops))"
| "spec_ops c (Up d b f # ops) = spec_ops (c(d := (c d)(b := f (c d b)))) ops"

locale block_device =
  fixes rd :: "'s \<Rightarrow> u32 \<Rightarrow> u32 \<Rightarrow> (block \<times> 's) option"
    and up :: "'s \<Rightarrow> u32 \<Rightarrow> u32 \<Rightarrow> (block \<Rightarrow> block) \<Rightarrow> 's option"
    and content :: "'s \<Rightarrow> u32 \<Rightarrow> u32 \<Rightarrow> block"
    and inv :: "'s \<Rightarrow> bool"
    and ok :: "u32 \<Rightarrow> u32 \<Rightarrow> bool"
  assumes rd_law: "inv s \<Longrightarrow> ok d b \<Longrightarrow>
      \<exists>s'. rd s d b = Some (content s d b, s') \<and> inv s' \<and> (\<forall>d' b'. ok d' b' \<longrightarrow> content s' d' b' = content s d' b')"
    and up_law: "inv s \<Longrightarrow> ok d b \<Longrightarrow>
      \<exists>s'. up s d b f = Some s' \<and> inv s' \<and>
           (\<forall>d' b'. ok d' b' \<longrightarrow> content s' d' b' = (if d' = d \<and> b' = b then f (content s d b) else content s d' b'))"
begin

lemma run_spec:
  assumes "inv s" "list_all (op_ok ok) ops" "\<And>d b. ok d b \<Longrightarrow> c d b = content s d b"
  shows "\<exists>t. run_ops rd up s ops = Some (fst (spec_ops c ops), t) \<and> inv t \<and>
     (\<forall>d b. ok d b \<longrightarrow> snd (spec_ops c ops) d b = content t d b)"
  using assms
proof (induction ops arbitrary: s c)
  case (Cons p ops)
  show ?case
  proof (cases p)
    case (Rd d b)
    hence k: "ok d b" "list_all (op_ok ok) ops" using Cons.prems(2) by auto
    obtain s' where s': "rd s d b = Some (content s d b, s')" "inv s'" "\<And>d' b'. ok d' b' \<Longrightarrow> content s' d' b' = content s d' b'"
      using rd_law[OF Cons.prems(1) k(1)] by blast
    have "\<And>d' b'. ok d' b' \<Longrightarrow> c d' b' = content s' d' b'" using s'(3) Cons.prems(3) by simp
    from Cons.IH[OF s'(2) k(2) this] show ?thesis using s'(1) Cons.prems(3)[OF k(1)] Rd by auto
  next
    case (Up d b f)
    hence k: "ok d b" "list_all (op_ok ok) ops" using Cons.prems(2) by auto
    obtain s' where s': "up s d b f = Some s'" "inv s'"
      "\<And>d' b'. ok d' b' \<Longrightarrow> content s' d' b' = (if d' = d \<and> b' = b then f (content s d b) else content s d' b')"
      using up_law[OF Cons.prems(1) k(1), of f] by blast
    define c' where "c' = c(d := (c d)(b := f (c d b)))"
    have "\<And>d' b'. ok d' b' \<Longrightarrow> c' d' b' = content s' d' b'"
      using s'(3) Cons.prems(3) k(1) by (auto simp: c'_def)
    note IH = Cons.IH[OF s'(2) k(2) this]
    have "spec_ops c (p # ops) = spec_ops c' ops" unfolding Up c'_def by simp
    thus ?thesis using IH s'(1) Up by simp
  qed
qed simp

end

text \<open>The disk of the file system theory is a block device.\<close>

interpretation fsdev: block_device "\<lambda>s d b. Some (bread s d b, s)" "\<lambda>s d b f. Some (bwrite s d b (f (bread s d b)))" disk "\<lambda>_. True" "\<lambda>_ _. True"
  by unfold_locales (auto simp: bread_def bwrite_def)

subsection \<open>Coherence of the cache\<close>

definition io_ok :: "bool \<Rightarrow> u32 \<Rightarrow> u32 \<Rightarrow> bool" where
  "io_ok disk1 dev sector \<longleftrightarrow> (dev = 0 \<or> dev = 1 \<and> disk1) \<and> unat sector < 2 ^ 28"

definition at_addr :: "u32 \<Rightarrow> u32 \<Rightarrow> bool \<times> u32" where
  "at_addr dev sector = (bit dev 0, sector AND 0x0fffffff)"

definition content :: "biost \<Rightarrow> u32 \<Rightarrow> u32 \<Rightarrow> block" where
  "content st dev sector = platter st (at_addr dev sector)"

lemma ide_addr_at: "ide_addr b = at_addr (b_dev b) (b_sector b)"
  by (simp add: ide_addr_def at_addr_def)

lemma and_28: "unat (s :: u32) < 2 ^ 28 \<Longrightarrow> s AND 0x0fffffff = s"
proof -
  assume s: "unat s < 2 ^ 28"
  have m: "(0x0fffffff :: u32) = mask 28" by (simp add: mask_eq_exp_minus_1)
  have "unat (take_bit 28 s) = unat s" using s by (simp add: unsigned_take_bit_eq take_bit_nat_eq_self)
  hence "take_bit 28 s = s" by (simp add: word_unat_eq_iff)
  thus ?thesis unfolding m take_bit_eq_mask .
qed

lemma at_addr_inj: "io_ok k d s \<Longrightarrow> io_ok k d' s' \<Longrightarrow> at_addr d s = at_addr d' s' \<Longrightarrow> d = d' \<and> s = s'"
  by (auto simp: io_ok_def at_addr_def and_28)

definition slot_ok :: "bool \<Rightarrow> biost \<Rightarrow> nat \<Rightarrow> bool" where
  "slot_ok k st j \<longleftrightarrow> (let b = bufs st ! j in
     \<not> b_busy b \<and> \<not> b_dirty b \<and> (if b_dev b = -1 then \<not> b_valid b else io_ok k (b_dev b) (b_sector b)) \<and>
     (b_valid b \<longrightarrow> b_data b = platter st (ide_addr b)))"

text \<open>
  The state between operations, with nobody holding a buffer, and the state in which one holder has
  buffer \<open>i\<close> for a block.  No two buffers hold the same block.
\<close>

definition uniq :: "biost \<Rightarrow> bool" where
  "uniq st \<longleftrightarrow> (\<forall>i < NBUF. \<forall>j < NBUF. b_dev (bufs st ! i) = b_dev (bufs st ! j) \<longrightarrow> b_sector (bufs st ! i) = b_sector (bufs st ! j) \<longrightarrow>
     b_dev (bufs st ! i) \<noteq> -1 \<longrightarrow> i = j)"

definition cache_ok :: "bool \<Rightarrow> biost \<Rightarrow> bool" where
  "cache_ok k st \<longleftrightarrow> (\<exists>xs. ring st xs \<and> set xs = {0..<NBUF}) \<and> idequeue st = None \<and> havedisk1 st = k \<and> uniq st \<and> (\<forall>j < NBUF. slot_ok k st j)"

definition held :: "bool \<Rightarrow> biost \<Rightarrow> nat \<Rightarrow> u32 \<Rightarrow> u32 \<Rightarrow> bool" where
  "held k st i dev sector \<longleftrightarrow> (\<exists>xs. ring st xs \<and> set xs = {0..<NBUF}) \<and> idequeue st = None \<and> havedisk1 st = k \<and> uniq st \<and>
     io_ok k dev sector \<and> i < NBUF \<and> b_busy (bufs st ! i) \<and> b_dev (bufs st ! i) = dev \<and> b_sector (bufs st ! i) = sector \<and>
     (\<forall>j < NBUF. j \<noteq> i \<longrightarrow> slot_ok k st j)"

lemma uniq_cong:
  assumes "\<And>j. j < NBUF \<Longrightarrow> b_dev (bufs st' ! j) = b_dev (bufs st ! j) \<and> b_sector (bufs st' ! j) = b_sector (bufs st ! j)"
  shows "uniq st' = uniq st"
  using assms by (simp add: uniq_def)

lemma uniq_set:
  assumes "uniq st" "length (bufs st) = Suc NBUF" "i < NBUF"
    "\<And>j. j < NBUF \<Longrightarrow> \<not> (b_dev (bufs st ! j) = dev \<and> b_sector (bufs st ! j) = sector)"
    "b_dev (f (bufs st ! i)) = dev" "b_sector (f (bufs st ! i)) = sector"
  shows "uniq (bupd st i f)"
  unfolding uniq_def
proof (intro allI impI)
  fix a b assume a: "a < NBUF" "b < NBUF" "b_dev (bufs (bupd st i f) ! a) = b_dev (bufs (bupd st i f) ! b)"
    "b_sector (bufs (bupd st i f) ! a) = b_sector (bufs (bupd st i f) ! b)" "b_dev (bufs (bupd st i f) ! a) \<noteq> -1"
  have n: "bufs (bupd st i f) ! x = (if x = i then f (bufs st ! i) else bufs st ! x)" for x
    using assms(2,3) by (simp add: nth_list_update_if)
  note a' = a(3-5)[unfolded n]
  consider "a = i" "b = i" | "a = i" "b \<noteq> i" | "a \<noteq> i" "b = i" | "a \<noteq> i" "b \<noteq> i" by blast
  thus "a = b"
  proof cases
    case 2
    thus ?thesis using a' assms(4)[OF a(2)] assms(5,6) by simp
  next
    case 3
    thus ?thesis using a' assms(4)[OF a(1)] assms(5,6) by simp
  next
    case 4
    thus ?thesis using a' assms(1) a(1,2) by (simp add: uniq_def)
  qed simp
qed

lemma bget_held:
  assumes c: "cache_ok k st" and k: "io_ok k dev sector"
  shows "\<exists>i st'. bget st dev sector = Some (Got i, st') \<and> held k st' i dev sector \<and> \<not> b_dirty (bufs st' ! i) \<and>
    (b_valid (bufs st' ! i) \<longrightarrow> b_data (bufs st' ! i) = content st dev sector) \<and> platter st' = platter st"
proof -
  obtain xs where xs: "ring st xs" "set xs = {0..<NBUF}" using c by (auto simp: cache_ok_def)
  have len: "length (bufs st) = Suc NBUF" using xs(1) by (simp add: ring_def)
  have sl: "slot_ok k st j" if "j < NBUF" for j using c that by (auto simp: cache_ok_def)
  have u: "uniq st" and o: "idequeue st = None" "havedisk1 st = k" using c by (auto simp: cache_ok_def)
  have nd: "dev \<noteq> -1" using k by (auto simp: io_ok_def)
  have nb: "\<not> b_busy (bufs st ! j)" if "j < NBUF" for j using sl[OF that] by (simp add: slot_ok_def Let_def)
  let ?m = "\<lambda>i. b_dev (bufs st ! i) = dev \<and> b_sector (bufs st ! i) = sector"
  have fr: "slot_ok k (bupd st i f) j" if "j < NBUF" "j \<noteq> i" for i j f
    using sl[OF that(1)] that(2) by (simp add: slot_ok_def)
  show ?thesis
  proof (cases "find ?m xs")
    case (Some i)
    hence i: "?m i" "i < NBUF" using xs(2) by (auto simp: find_Some_iff set_conv_nth)
    let ?s = "bupd st i (\<lambda>b. b\<lparr>b_busy := True\<rparr>)"
    have e: "bget st dev sector = Some (Got i, ?s)" using nb[OF i(2)] by (simp add: ring_bget[OF xs(1)] Some)
    have r: "ring ?s xs" using xs(1) by (rule ring_bupd) simp_all
    have "uniq ?s" using uniq_cong[of ?s st] u by (simp add: nth_list_update_if)
    moreover have "\<exists>xs. ring ?s xs \<and> set xs = {0..<NBUF}" using r xs(2) by blast
    ultimately have "held k ?s i dev sector" using o k i len fr[of _ i] by (simp add: held_def)
    thus ?thesis using e sl[OF i(2)] i nd len by (simp add: slot_ok_def Let_def content_def ide_addr_at)
  next
    case None
    hence nm: "\<not> ?m j" if "j < NBUF" for j using that xs(2) by (force simp: find_None_iff)
    have "xs \<noteq> []" using xs(2) by auto
    then obtain i where i: "find (\<lambda>i. \<not> b_busy (bufs st ! i)) (rev xs) = Some i"
      using nb xs(2) by (cases "find (\<lambda>i. \<not> b_busy (bufs st ! i)) (rev xs)") (force simp: find_None_iff)+
    have iN: "i < NBUF" using find_split[OF i] xs(2) by (metis atLeastLessThan_iff in_set_conv_decomp set_rev)
    let ?s = "bupd st i (\<lambda>b. b\<lparr>b_dev := dev, b_sector := sector, b_busy := True, b_valid := False, b_dirty := False\<rparr>)"
    have e: "bget st dev sector = Some (Got i, ?s)" by (simp add: ring_bget[OF xs(1)] None i)
    have r: "ring ?s xs" using xs(1) by (rule ring_bupd) simp_all
    have "uniq ?s" using u len iN nm by (rule uniq_set) simp_all
    moreover have "\<exists>xs. ring ?s xs \<and> set xs = {0..<NBUF}" using r xs(2) by blast
    ultimately have "held k ?s i dev sector" using o k iN len fr[of _ i] by (simp add: held_def)
    thus ?thesis using e iN len by simp
  qed
qed


lemma held_iderw:
  assumes h: "held k st i dev sector" and np: "\<not> (b_valid (bufs st ! i) \<and> \<not> b_dirty (bufs st ! i))"
  shows "\<exists>st'. iderw False st i = Some st' \<and> held k st' i dev sector \<and> b_valid (bufs st' ! i) \<and> \<not> b_dirty (bufs st' ! i) \<and>
    b_data (bufs st' ! i) = (if b_dirty (bufs st ! i) then b_data (bufs st ! i) else content st dev sector) \<and>
    platter st' = (if b_dirty (bufs st ! i) then (platter st)(at_addr dev sector := b_data (bufs st ! i)) else platter st)"
proof -
  obtain xs where xs: "ring st xs" "set xs = {0..<NBUF}" and q: "idequeue st = None" "havedisk1 st = k" and u: "uniq st"
    and k: "io_ok k dev sector" and i: "i < NBUF" "b_busy (bufs st ! i)" "b_dev (bufs st ! i) = dev" "b_sector (bufs st ! i) = sector"
    and sl: "\<And>j. j < NBUF \<Longrightarrow> j \<noteq> i \<Longrightarrow> slot_ok k st j"
    using h by (auto simp: held_def)
  have len: "length (bufs st) = Suc NBUF" using xs(1) by (simp add: ring_def)
  have ok: "ide_ok st []" using len q by (simp add: ide_ok_def)
  have pd: "pending (bufs st ! i)" using np i(2) by (simp add: pending_def)
  have dv: "b_dev (bufs st ! i) = 0 \<or> havedisk1 st" using k i(3) q(2) by (auto simp: io_ok_def)
  obtain st' where st': "iderw False st i = Some st'" "ide_ok st' []" "havedisk1 st' = havedisk1 st"
    "platter st' = flush (bufs st) [i] (platter st)"
    "\<And>j. \<exists>x. bufs st' ! j = (if j \<in> set [i] then served (platter st) (bufs st ! j) else bufs st ! j)\<lparr>b_qnext := x\<rparr>"
    using iderw_ok[OF ok _ i(1) pd dv] by (auto simp del: flush_simps)
  have f: "b_next (bufs st' ! j) = b_next (bufs st ! j)" "b_prev (bufs st' ! j) = b_prev (bufs st ! j)" "b_busy (bufs st' ! j) = b_busy (bufs st ! j)"
    "b_dev (bufs st' ! j) = b_dev (bufs st ! j)" "b_sector (bufs st' ! j) = b_sector (bufs st ! j)"
    "j \<noteq> i \<Longrightarrow> b_valid (bufs st' ! j) = b_valid (bufs st ! j) \<and> b_dirty (bufs st' ! j) = b_dirty (bufs st ! j) \<and> b_data (bufs st' ! j) = b_data (bufs st ! j)" for j
    using st'(5)[of j] by (auto simp: served_def split: if_splits)
  have fi: "b_valid (bufs st' ! i)" "\<not> b_dirty (bufs st' ! i)"
    "b_data (bufs st' ! i) = (if b_dirty (bufs st ! i) then b_data (bufs st ! i) else content st dev sector)"
    using st'(5)[of i] i(3,4) by (auto simp: served_def content_def ide_addr_at)
  have pl: "platter st' = (if b_dirty (bufs st ! i) then (platter st)(at_addr dev sector := b_data (bufs st ! i)) else platter st)"
    using st'(4) i(3,4) by (simp add: ide_addr_at)
  have len': "length (bufs st') = Suc NBUF" "idequeue st' = None" using st'(2) by (auto simp: ide_ok_def)
  have "seg (bufs st') NBUF xs NBUF = seg (bufs st) NBUF xs NBUF" by (rule seg_cong) (simp_all add: f)
  hence r: "ring st' xs" using xs(1) len' by (simp add: ring_def)
  have u': "uniq st'" using uniq_cong[of st' st] u f by blast
  have "slot_ok k st' j" if j: "j < NBUF" "j \<noteq> i" for j
  proof -
    let ?b = "bufs st ! j"
    have "platter st' (at_addr (b_dev ?b) (b_sector ?b)) = platter st (at_addr (b_dev ?b) (b_sector ?b))" if nd: "b_dev ?b \<noteq> -1"
    proof -
      have "io_ok k (b_dev ?b) (b_sector ?b)" using sl[OF j] nd by (simp add: slot_ok_def Let_def)
      moreover have "\<not> (b_dev ?b = dev \<and> b_sector ?b = sector)" using u j i nd unfolding uniq_def by metis
      ultimately have "at_addr (b_dev ?b) (b_sector ?b) \<noteq> at_addr dev sector" using at_addr_inj k by blast
      thus ?thesis by (simp add: pl)
    qed
    thus ?thesis using sl[OF j] f[of j] j by (simp add: slot_ok_def Let_def ide_addr_at split: if_splits)
  qed
  moreover have "\<exists>xs. ring st' xs \<and> set xs = {0..<NBUF}" using r xs(2) by blast
  ultimately have "held k st' i dev sector" using len' st'(3) q u' k i f by (simp add: held_def)
  thus ?thesis using st'(1) fi pl by blast
qed

lemma held_brelse:
  assumes h: "held k st i dev sector" and d: "b_data (bufs st ! i) = content st dev sector" "\<not> b_dirty (bufs st ! i)"
  shows "\<exists>st'. brelse st i = Some st' \<and> cache_ok k st' \<and> platter st' = platter st"
proof -
  obtain xs where xs: "ring st xs" "set xs = {0..<NBUF}" and q: "idequeue st = None" "havedisk1 st = k" and u: "uniq st"
    and k: "io_ok k dev sector" and i: "i < NBUF" "b_busy (bufs st ! i)" "b_dev (bufs st ! i) = dev" "b_sector (bufs st ! i) = sector"
    and sl: "\<And>j. j < NBUF \<Longrightarrow> j \<noteq> i \<Longrightarrow> slot_ok k st j"
    using h by (auto simp: held_def)
  obtain st' where st': "brelse st i = Some st'" "ring st' (i # remove1 i xs)" "idequeue st' = idequeue st" "havedisk1 st' = havedisk1 st"
    "platter st' = platter st" "\<And>j. j < NBUF \<Longrightarrow> same_but_links (bufs st' ! j) (if j = i then (bufs st ! j)\<lparr>b_busy := False\<rparr> else bufs st ! j)"
    using ring_brelse[OF xs(1) _ i(2)] i(1) xs(2) by auto
  have nd: "dev \<noteq> -1" using k by (auto simp: io_ok_def)
  have "slot_ok k st' j" if "j < NBUF" for j
  proof (cases "j = i")
    case True
    thus ?thesis using st'(6)[OF that] d i k nd st'(5) by (simp add: slot_ok_def same_but_links_def Let_def content_def ide_addr_at)
  next
    case False
    thus ?thesis using st'(6)[OF that] sl[OF that False] st'(5) by (simp add: slot_ok_def same_but_links_def Let_def ide_addr_at)
  qed
  moreover have "uniq st'"
  proof -
    have "b_dev (bufs st' ! j) = b_dev (bufs st ! j) \<and> b_sector (bufs st' ! j) = b_sector (bufs st ! j)" if "j < NBUF" for j
      using st'(6)[OF that] by (cases "j = i") (simp_all add: same_but_links_def)
    from uniq_cong[OF this] show ?thesis using u by simp
  qed
  moreover have "set (i # remove1 i xs) = {0..<NBUF}"
  proof -
    have "distinct xs" "i \<in> set xs" using xs i(1) by (simp_all add: ring_def)
    hence "set (i # remove1 i xs) = set xs" by (simp add: set_remove1_eq insert_absorb)
    thus ?thesis using xs(2) by simp
  qed
  ultimately have "cache_ok k st'" unfolding cache_ok_def st'(3,4) q using st'(2) by blast
  thus ?thesis using st'(1,5) by blast
qed

lemma bread_held:
  assumes c: "cache_ok k st" and k: "io_ok k dev sector"
  shows "\<exists>i st'. bio_bread False st dev sector = Some (i, st') \<and> held k st' i dev sector \<and> b_valid (bufs st' ! i) \<and> \<not> b_dirty (bufs st' ! i) \<and>
    b_data (bufs st' ! i) = content st dev sector \<and> platter st' = platter st"
proof -
  obtain i s1 where s1: "bget st dev sector = Some (Got i, s1)" "held k s1 i dev sector" "\<not> b_dirty (bufs s1 ! i)"
    "b_valid (bufs s1 ! i) \<Longrightarrow> b_data (bufs s1 ! i) = content st dev sector" "platter s1 = platter st"
    using bget_held[OF c k] by blast
  show ?thesis
  proof (cases "b_valid (bufs s1 ! i)")
    case True
    thus ?thesis using s1 by (simp add: bio_bread_def)
  next
    case False
    obtain st' where "iderw False s1 i = Some st'" "held k st' i dev sector" "b_valid (bufs st' ! i)" "\<not> b_dirty (bufs st' ! i)"
      "b_data (bufs st' ! i) = content s1 dev sector" "platter st' = platter s1"
      using held_iderw[OF s1(2)] False s1(3) by auto
    thus ?thesis using s1 False by (simp add: bio_bread_def content_def)
  qed
qed

lemma bio_read_law:
  assumes "cache_ok k st" "io_ok k dev sector"
  shows "\<exists>st'. bio_read False st dev sector = Some (content st dev sector, st') \<and> cache_ok k st' \<and> platter st' = platter st"
proof -
  obtain i s1 where s1: "bio_bread False st dev sector = Some (i, s1)" "held k s1 i dev sector" "\<not> b_dirty (bufs s1 ! i)"
    "b_data (bufs s1 ! i) = content st dev sector" "platter s1 = platter st"
    using bread_held[OF assms] by blast
  obtain st' where "brelse s1 i = Some st'" "cache_ok k st'" "platter st' = platter s1"
    using held_brelse[OF s1(2) _ s1(3)] s1(4,5) by (auto simp: content_def)
  thus ?thesis using s1 by (simp add: bio_read_def)
qed

lemma bio_update_law:
  assumes "cache_ok k st" "io_ok k dev sector"
  shows "\<exists>st'. bio_update False st dev sector f = Some st' \<and> cache_ok k st' \<and>
    platter st' = (platter st)(at_addr dev sector := f (content st dev sector))"
proof -
  obtain i s1 where s1: "bio_bread False st dev sector = Some (i, s1)" "held k s1 i dev sector"
    "b_data (bufs s1 ! i) = content st dev sector" "platter s1 = platter st"
    using bread_held[OF assms] by blast
  let ?s2 = "bupd (bupd s1 i (\<lambda>b. b\<lparr>b_data := f (b_data b)\<rparr>)) i (\<lambda>b. b\<lparr>b_dirty := True\<rparr>)"
  have i: "i < NBUF" "length (bufs s1) = Suc NBUF" "b_busy (bufs s1 ! i)" using s1(2) by (auto simp: held_def ring_def)
  have h2: "held k ?s2 i dev sector"
  proof -
    obtain xs where "ring s1 xs" "set xs = {0..<NBUF}" using s1(2) by (auto simp: held_def)
    moreover from this(1) have "ring ?s2 xs" by (intro ring_bupd) simp_all
    moreover have "uniq ?s2 = uniq s1" by (rule uniq_cong) (simp add: nth_list_update_if)
    moreover have "slot_ok k ?s2 j" if "slot_ok k s1 j" "j \<noteq> i" for j using that by (simp add: slot_ok_def)
    ultimately show ?thesis using s1(2) i by (auto simp: held_def)
  qed
  have d2: "b_dirty (bufs ?s2 ! i)" "b_data (bufs ?s2 ! i) = f (content st dev sector)" using i s1(3) by simp_all
  obtain s3 where s3: "iderw False ?s2 i = Some s3" "held k s3 i dev sector" "\<not> b_dirty (bufs s3 ! i)"
    "b_data (bufs s3 ! i) = f (content st dev sector)" "platter s3 = (platter s1)(at_addr dev sector := f (content st dev sector))"
    using held_iderw[OF h2] d2 by auto
  obtain st' where "brelse s3 i = Some st'" "cache_ok k st'" "platter st' = platter s3"
    using held_brelse[OF s3(2) _ s3(3)] s3(4,5) by (auto simp: content_def)
  moreover have "bio_bwrite False (bupd s1 i (\<lambda>b. b\<lparr>b_data := f (b_data b)\<rparr>)) i = Some s3"
    using s3(1) i by (simp add: bio_bwrite_def)
  ultimately show ?thesis using s1 s3 by (simp add: bio_update_def)
qed

interpretation biodev: block_device "bio_read False" "bio_update False" content "cache_ok k" "io_ok k" for k
proof unfold_locales
  fix s d b assume "cache_ok k s" "io_ok k d b"
  then show "\<exists>s'. bio_read False s d b = Some (content s d b, s') \<and> cache_ok k s' \<and> (\<forall>d' b'. io_ok k d' b' \<longrightarrow> content s' d' b' = content s d' b')"
    using bio_read_law[of k s d b] by (auto simp: content_def)
next
  fix s d b f assume a: "cache_ok k s" "io_ok k d b"
  then obtain s' where s': "bio_update False s d b f = Some s'" "cache_ok k s'" "platter s' = (platter s)(at_addr d b := f (content s d b))"
    using bio_update_law by blast
  have "content s' d' b' = (if d' = d \<and> b' = b then f (content s d b) else content s d' b')" if "io_ok k d' b'" for d' b'
    using s'(3) at_addr_inj[OF that a(2)] by (auto simp: content_def)
  thus "\<exists>s'. bio_update False s d b f = Some s' \<and> cache_ok k s' \<and>
           (\<forall>d' b'. io_ok k d' b' \<longrightarrow> content s' d' b' = (if d' = d \<and> b' = b then f (content s d b) else content s d' b'))"
    using s' by blast
qed

text \<open>
  C13: the cache is invisible to the file system.  From a coherent cache whose drive holds what the
  disk of \<open>Fs\<close> holds, any sequence of block reads and updates succeeds on the cache, returns the
  same blocks as on that disk, and ends in a coherent cache that again agrees with the disk.
\<close>

theorem cache_refines_disk:
  assumes "cache_ok k st" "list_all (op_ok (io_ok k)) ops" "\<And>d b. io_ok k d b \<Longrightarrow> disk s d b = content st d b"
  shows "\<exists>xs st' s'. run_ops (bio_read False) (bio_update False) st ops = Some (xs, st') \<and>
    run_ops (\<lambda>s d b. Some (bread s d b, s)) (\<lambda>s d b f. Some (bwrite s d b (f (bread s d b)))) s ops = Some (xs, s') \<and>
    cache_ok k st' \<and> (\<forall>d b. io_ok k d b \<longrightarrow> disk s' d b = content st' d b)"
proof -
  obtain st' where st': "run_ops (bio_read False) (bio_update False) st ops = Some (fst (spec_ops (disk s) ops), st')" "cache_ok k st'"
    "\<forall>d b. io_ok k d b \<longrightarrow> snd (spec_ops (disk s) ops) d b = content st' d b"
    using biodev.run_spec[OF assms] by blast
  have t: "list_all (op_ok (\<lambda>_ _. True)) ops" by (simp add: list_all_iff) (metis op_ok.elims(3))
  obtain s' where s': "run_ops (\<lambda>s d b. Some (bread s d b, s)) (\<lambda>s d b f. Some (bwrite s d b (f (bread s d b)))) s ops =
      Some (fst (spec_ops (disk s) ops), s')" "\<forall>d b. snd (spec_ops (disk s) ops) d b = disk s' d b"
    using fsdev.run_spec[OF _ t, of "disk s" s] by auto
  show ?thesis using st' s' by auto
qed

text \<open>Witness for C13: two updates and a read on the freshly initialised cache.\<close>

theorem cache_refines_disk_witness:
  "\<exists>xs st' s'. run_ops (bio_read False) (bio_update False) (binit blank_bio) [Up 0 2 (\<lambda>d. d(1 := 5)), Up 0 3 (\<lambda>d. d), Rd 0 2] = Some (xs, st') \<and>
    run_ops (\<lambda>s d b. Some (bread s d b, s)) (\<lambda>s d b f. Some (bwrite s d b (f (bread s d b)))) \<lparr>disk = (\<lambda>d b k. 7), icache = []\<rparr>
      [Up 0 2 (\<lambda>d. d(1 := 5)), Up 0 3 (\<lambda>d. d), Rd 0 2] = Some (xs, s') \<and> xs = [(\<lambda>k. 7)(1 := 5)]"
proof -
  have len: "length (bufs blank_bio) = Suc NBUF" by (simp add: blank_bio_def)
  have "ring (binit blank_bio) (rev [0..<NBUF])" by (rule binit_ring[OF len])
  moreover have sl: "bufs blank_bio ! j = \<lparr>b_busy = False, b_valid = False, b_dirty = False, b_dev = 0, b_sector = 0,
       b_prev = 0, b_next = 0, b_qnext = None, b_data = (\<lambda>k. 0)\<rparr>" if "j < NBUF" for j
    using that by (simp add: blank_bio_def)
  have b: "b_dev (bufs (binit blank_bio) ! j) = -1 \<and> slot_ok False (binit blank_bio) j" if "j < NBUF" for j
    using binit_slots(1)[OF len that] sl[OF that] by (simp add: slot_ok_def same_but_links_def Let_def)
  hence "uniq (binit blank_bio)" by (simp add: uniq_def)
  moreover have "idequeue (binit blank_bio) = None" "havedisk1 (binit blank_bio) = False" "platter (binit blank_bio) = (\<lambda>a k. 7)"
    using binit_slots(2-4)[OF len, of 0] by (simp_all add: blank_bio_def)
  ultimately have "cache_ok False (binit blank_bio)" "\<And>d e. (\<lambda>d b k. 7) d e = content (binit blank_bio) d e"
    using b by (auto simp: cache_ok_def content_def intro!: exI[of _ "rev [0..<NBUF]"])
  thus ?thesis
    using cache_refines_disk[of False "binit blank_bio" "[Up 0 2 (\<lambda>d. d(1 := 5)), Up 0 3 (\<lambda>d. d), Rd 0 2]" "\<lparr>disk = (\<lambda>d b k. 7), icache = []\<rparr>"]
    by (auto simp: io_ok_def bread_def bwrite_def)
qed

end
