(* ===== verification/Syscall.thy ===== *)
theory Syscall
  imports Prelude
begin

text \<open>
  Fetching system call arguments from user memory (\<^verbatim>\<open>kernel/syscall.c\<close>) and the dispatch with the
  call counter of \<^verbatim>\<open>Project1b\<close>.  The user memory of the calling process is a byte memory; \<open>sz\<close> is
  its size and \<open>esp\<close> its saved stack pointer.  \<open>None\<close> is the return value -1.
\<close>

subsection \<open>Arguments\<close>

definition fetchint :: "mem \<Rightarrow> u32 \<Rightarrow> u32 \<Rightarrow> u32 option" where
  "fetchint m sz addr = (if addr \<ge> sz \<or> addr + 4 > sz then None else Some (load32 m addr))"

text \<open>The loop of \<open>fetchstr\<close> from the address \<open>s\<close> on.\<close>

function fetchstr_loop :: "mem \<Rightarrow> u32 \<Rightarrow> u32 \<Rightarrow> u32 \<Rightarrow> u32 option" where
  "fetchstr_loop m ep pp s =
     (if s < ep then if m s = 0 then Some (s - pp) else fetchstr_loop m ep pp (s + 1) else None)"
  by pat_completeness auto
termination
proof (relation "measure (\<lambda>(m, ep, pp, s). unat ep - unat s)")
  fix m :: mem and ep pp s :: u32
  assume "s < ep"
  moreover from this have "unat (s + 1) = unat s + 1"
    using unat_lt32[of ep] by (simp add: unat_word_ariths word_less_nat_alt)
  ultimately show "((m, ep, pp, s + 1), m, ep, pp, s) \<in> measure (\<lambda>(m, ep, pp, s). unat ep - unat s)"
    by (simp add: word_less_nat_alt)
qed simp

declare fetchstr_loop.simps [simp del]

definition fetchstr :: "mem \<Rightarrow> u32 \<Rightarrow> u32 \<Rightarrow> u32 option" where
  "fetchstr m sz addr = (if addr \<ge> sz then None else fetchstr_loop m sz addr addr)"

definition argint :: "mem \<Rightarrow> u32 \<Rightarrow> u32 \<Rightarrow> u32 \<Rightarrow> u32 option" where
  "argint m sz esp n = fetchint m sz (esp + 4 + 4 * n)"

text \<open>The size argument is a C \<open>int\<close>, which the comparison turns into an unsigned word.\<close>

definition argptr :: "mem \<Rightarrow> u32 \<Rightarrow> u32 \<Rightarrow> u32 \<Rightarrow> u32 \<Rightarrow> u32 option" where
  "argptr m sz esp n bytes =
     (case argint m sz esp n of
        None \<Rightarrow> None
      | Some i \<Rightarrow> if i \<ge> sz \<or> i + bytes > sz then None else Some i)"

definition argstr :: "mem \<Rightarrow> u32 \<Rightarrow> u32 \<Rightarrow> u32 \<Rightarrow> (u32 \<times> u32) option" where
  "argstr m sz esp n =
     (case argint m sz esp n of
        None \<Rightarrow> None
      | Some addr \<Rightarrow> map_option (\<lambda>len. (addr, len)) (fetchstr m sz addr))"

subsection \<open>Dispatch with a call counter\<close>

record cproc =
  c_eax :: u32
  syscall_count :: u32

abbreviation SYS_getnumsyscallp :: int where "SYS_getnumsyscallp \<equiv> 22"

definition sys_getnumsyscallp :: "cproc \<Rightarrow> u32 \<times> cproc" where
  "sys_getnumsyscallp p = (syscall_count p - 1, p\<lparr>syscall_count := syscall_count p - 1\<rparr>)"

text \<open>
  \<open>syscall\<close> on the fields it uses: \<open>h\<close> gives the return value of the other handlers, which leave the
  caller's counter alone.
\<close>

definition syscall :: "(int \<Rightarrow> cproc \<Rightarrow> u32) \<Rightarrow> cproc \<Rightarrow> cproc" where
  "syscall h p =
     (let num = sint (c_eax p)
      in if num > 0 \<and> num < 23 then
           let p1 = p\<lparr>syscall_count := syscall_count p + 1\<rparr>
           in if num = SYS_getnumsyscallp then (case sys_getnumsyscallp p1 of (r, p2) \<Rightarrow> p2\<lparr>c_eax := r\<rparr>)
              else p1\<lparr>c_eax := h num p1\<rparr>
         else p\<lparr>c_eax := -1\<rparr>)"

text \<open>The program sets \<open>eax\<close> to the number and traps.\<close>

definition do_syscalls :: "(int \<Rightarrow> cproc \<Rightarrow> u32) \<Rightarrow> u32 list \<Rightarrow> cproc \<Rightarrow> cproc" where
  "do_syscalls h = fold (\<lambda>n p. syscall h (p\<lparr>c_eax := n\<rparr>))"

subsection \<open>Properties\<close>

lemma fetchstr_loop_spec:
  assumes "unat ep \<le> unat s + n" "unat pp \<le> unat s"
  shows "(case fetchstr_loop m ep pp s of
            Some len \<Rightarrow> unat s \<le> unat pp + unat len \<and> unat pp + unat len < unat ep \<and> m (pp + len) = 0 \<and>
               (\<forall>k. unat s \<le> k \<longrightarrow> k < unat pp + unat len \<longrightarrow> m (of_nat k) \<noteq> 0)
          | None \<Rightarrow> \<forall>k. unat s \<le> k \<longrightarrow> k < unat ep \<longrightarrow> m (of_nat k) \<noteq> 0)"
  using assms
proof (induction n arbitrary: s)
  case 0
  thus ?case by (simp add: fetchstr_loop.simps[of m ep pp s] word_less_nat_alt)
next
  case (Suc n)
  show ?case
  proof (cases "s < ep")
    case False
    thus ?thesis by (simp add: fetchstr_loop.simps[of m ep pp s] word_less_nat_alt)
  next
    case True
    hence s1: "unat (s + 1) = unat s + 1" using unat_lt32[of ep] by (simp add: unat_word_ariths word_less_nat_alt)
    show ?thesis
    proof (cases "m s = 0")
      case z: True
      have "pp \<le> s" using Suc.prems(2) by (simp add: word_le_nat_alt)
      hence "unat (s - pp) = unat s - unat pp" by (simp add: unat_sub_cases)
      thus ?thesis using True z Suc.prems(2)
        by (simp add: fetchstr_loop.simps[of m ep pp s] word_less_nat_alt)
    next
      case nz: False
      have e: "fetchstr_loop m ep pp s = fetchstr_loop m ep pp (s + 1)"
        using True nz by (simp add: fetchstr_loop.simps[of m ep pp s])
      have m0: "m (of_nat k) \<noteq> 0" if "unat s \<le> k" "unat (s + 1) \<le> k \<Longrightarrow> m (of_nat k) \<noteq> 0" for k
        using that nz s1 by (cases "k = unat s") auto
      note IH = Suc.IH[of "s + 1"]
      have pre: "unat ep \<le> unat (s + 1) + n" "unat pp \<le> unat (s + 1)" using Suc.prems s1 by simp_all
      show ?thesis
      proof (cases "fetchstr_loop m ep pp (s + 1)")
        case None
        thus ?thesis using IH[OF pre] e by simp (metis m0)
      next
        case (Some len)
        thus ?thesis using IH[OF pre] e s1 by simp (metis m0)
      qed
    qed
  qed
qed


text \<open>
  C14: argument checks keep the kernel inside user memory.  An accepted word argument lies below \<open>sz\<close>;
  an accepted pointer argument of a non-negative size starts a block that ends at or below \<open>sz\<close>; an
  accepted string argument has its terminating zero below \<open>sz\<close> and no zero before it, and a string is
  refused exactly when it starts outside or has no terminator.
\<close>

theorem syscall_arguments_bounded:
  assumes "unat sz < 2 ^ 31" "unat bytes < 2 ^ 31"
  shows "(\<forall>addr v. fetchint m sz addr = Some v \<longrightarrow> unat addr + 4 \<le> unat sz \<and> v = load32 m addr) \<and>
    (\<forall>n i. argptr m sz esp n bytes = Some i \<longrightarrow> unat i < unat sz \<and> unat i + unat bytes \<le> unat sz) \<and>
    (\<forall>addr. case fetchstr m sz addr of
       Some len \<Rightarrow> unat addr + unat len < unat sz \<and> m (addr + len) = 0 \<and> (\<forall>k. unat addr \<le> k \<longrightarrow> k < unat addr + unat len \<longrightarrow> m (of_nat k) \<noteq> 0)
     | None \<Rightarrow> \<forall>k. unat addr \<le> k \<longrightarrow> k < unat sz \<longrightarrow> m (of_nat k) \<noteq> 0)"
proof (intro conjI allI impI)
  have add: "unat (a + b) = unat a + unat b" if "a < sz" "unat b < 2 ^ 31" for a b :: u32
    using that assms by (simp add: unat_word_ariths word_less_nat_alt)
  fix addr v assume f: "fetchint m sz addr = Some v"
  hence "addr < sz" "addr + 4 \<le> sz" "v = load32 m addr" by (auto simp: fetchint_def split: if_splits)
  thus "unat addr + 4 \<le> unat sz" "v = load32 m addr" using add[of addr 4] by (simp_all add: word_le_nat_alt)
next
  fix n i assume "argptr m sz esp n bytes = Some i"
  hence "i < sz" "i + bytes \<le> sz" by (auto simp: argptr_def split: option.splits if_splits)
  moreover have "unat (i + bytes) = unat i + unat bytes"
    using assms \<open>i < sz\<close> by (simp add: unat_word_ariths word_less_nat_alt)
  ultimately show "unat i < unat sz" "unat i + unat bytes \<le> unat sz" by (simp_all add: word_less_nat_alt word_le_nat_alt)
next
  fix addr
  show "case fetchstr m sz addr of
       Some len \<Rightarrow> unat addr + unat len < unat sz \<and> m (addr + len) = 0 \<and> (\<forall>k. unat addr \<le> k \<longrightarrow> k < unat addr + unat len \<longrightarrow> m (of_nat k) \<noteq> 0)
     | None \<Rightarrow> \<forall>k. unat addr \<le> k \<longrightarrow> k < unat sz \<longrightarrow> m (of_nat k) \<noteq> 0"
    using fetchstr_loop_spec[of sz addr "unat sz" addr m]
    by (auto simp: fetchstr_def word_le_nat_alt not_le split: option.splits)
qed

text \<open>Witness for C14: the string "hi" at address 8 of a 16-byte process.\<close>

theorem syscall_arguments_bounded_witness:
  "argptr (\<lambda>a. if a = 8 then 4 else 0) 16 0 1 12 = Some 4 \<and> unat (4::u32) + unat (12::u32) \<le> unat (16::u32)"
proof -
  have e: "argptr (\<lambda>a. if a = 8 then 4 else 0) 16 0 1 12 = Some 4"
    by (simp add: argptr_def argint_def fetchint_def load32_def le32_def)
  thus ?thesis
    using syscall_arguments_bounded[of 16 12 "\<lambda>a. if a = 8 then 4 else 0" 0, THEN conjunct2, THEN conjunct1, rule_format, of 1 4] by simp
qed

text \<open>A negative size is accepted: a block of -1 bytes at the last byte of the process.\<close>

lemma argptr_accepts_negative_size:
  assumes "argint m sz esp n = Some (sz - 1)" "1 < sz"
  shows "argptr m sz esp n (-1) = Some (sz - 1)"
proof -
  have "unat (sz - 1) < unat sz" "unat (sz - 2) \<le> unat sz"
    using assms(2) by (simp_all add: unat_sub_cases word_le_nat_alt word_less_nat_alt)
  thus ?thesis using assms(1) by (simp add: argptr_def word_le_nat_alt word_less_nat_alt)
qed

lemma do_syscalls_count:
  "syscall_count (do_syscalls h ns p) =
     syscall_count p + of_nat (length (filter (\<lambda>n. 0 < sint n \<and> sint n < 22) ns))"
  by (induction ns arbitrary: p) (auto simp: do_syscalls_def syscall_def sys_getnumsyscallp_def Let_def)

text \<open>
  \<open>getnumsyscallp\<close> returns the number of system calls since the counter was set, itself and its
  earlier uses and calls with an unknown number not counted.
\<close>

theorem getnumsyscallp_counts:
  "c_eax (syscall h ((do_syscalls h ns p)\<lparr>c_eax := 22\<rparr>)) =
     syscall_count p + of_nat (length (filter (\<lambda>n. 0 < sint n \<and> sint n < 22) ns))"
  using do_syscalls_count[of h ns p] by (simp add: syscall_def sys_getnumsyscallp_def Let_def)

end
