(* ===== verification/Locks.thy ===== *)
theory Locks
  imports Prelude
begin

text \<open>
  Spin locks and interrupt nesting (\<^verbatim>\<open>kernel/spinlock.c\<close>).  A CPU is a number.  One execution of the
  atomic \<open>xchg\<close> in the loop of \<open>acquire\<close> is one step; the call stack recorded for debugging is left
  out.  \<open>None\<close> is a panic.
\<close>

subsection \<open>Model\<close>

record spinlock =
  locked :: u32
  lcpu :: "nat option"

record cpu_int =
  ncli :: int
  intena :: bool
  eflags_if :: bool

definition initlock :: "spinlock \<Rightarrow> spinlock" where
  "initlock lk = lk\<lparr>locked := 0, lcpu := None\<rparr>"

definition holding :: "nat \<Rightarrow> spinlock \<Rightarrow> bool" where
  "holding me lk \<longleftrightarrow> locked lk \<noteq> 0 \<and> lcpu lk = Some me"

definition pushcli :: "cpu_int \<Rightarrow> cpu_int" where
  "pushcli c =
     (let c1 = c\<lparr>eflags_if := False, ncli := ncli c + 1\<rparr>
      in if ncli c = 0 then c1\<lparr>intena := eflags_if c\<rparr> else c1)"

definition popcli :: "cpu_int \<Rightarrow> cpu_int option" where
  "popcli c =
     (if eflags_if c then None
      else let c1 = c\<lparr>ncli := ncli c - 1\<rparr>
           in if ncli c1 < 0 then None
              else if ncli c1 = 0 \<and> intena c1 then Some (c1\<lparr>eflags_if := True\<rparr>) else Some c1)"

text \<open>\<open>acquire\<close> before its loop, one turn of the loop, and \<open>release\<close>.\<close>

definition acquire_enter :: "nat \<Rightarrow> spinlock \<Rightarrow> cpu_int \<Rightarrow> cpu_int option" where
  "acquire_enter me lk c = (let c1 = pushcli c in if holding me lk then None else Some c1)"

definition acquire_try :: "nat \<Rightarrow> spinlock \<Rightarrow> bool \<times> spinlock" where
  "acquire_try me lk =
     (let old = locked lk; lk1 = lk\<lparr>locked := 1\<rparr>
      in if old \<noteq> 0 then (False, lk1) else (True, lk1\<lparr>lcpu := Some me\<rparr>))"

definition release_lock :: "nat \<Rightarrow> spinlock \<Rightarrow> spinlock option" where
  "release_lock me lk = (if \<not> holding me lk then None else Some (lk\<lparr>lcpu := None, locked := 0\<rparr>))"

definition release :: "nat \<Rightarrow> spinlock \<Rightarrow> cpu_int \<Rightarrow> (spinlock \<times> cpu_int) option" where
  "release me lk c =
     (case release_lock me lk of
        None \<Rightarrow> None
      | Some lk1 \<Rightarrow> map_option (Pair lk1) (popcli c))"

subsection \<open>Locks in general\<close>

text \<open>
  The state of a lock with the set of those between a successful attempt and their release.  Attempts
  of all parties interleave freely.
\<close>

inductive lock_step :: "(nat \<Rightarrow> 'l \<Rightarrow> bool \<times> 'l) \<Rightarrow> (nat \<Rightarrow> 'l \<Rightarrow> 'l option) \<Rightarrow> 'l \<times> nat set \<Rightarrow> 'l \<times> nat set \<Rightarrow> bool"
  for att rel where
  enter: "i \<notin> H \<Longrightarrow> att i l = (True, l') \<Longrightarrow> lock_step att rel (l, H) (l', insert i H)"
| spin: "i \<notin> H \<Longrightarrow> att i l = (False, l') \<Longrightarrow> lock_step att rel (l, H) (l', H)"
| leave: "i \<in> H \<Longrightarrow> rel i l = Some l' \<Longrightarrow> lock_step att rel (l, H) (l', H - {i})"

inductive_cases lock_stepE: "lock_step att rel (l, H) s'"

locale mutex_lock =
  fixes att :: "nat \<Rightarrow> 'l \<Rightarrow> bool \<times> 'l"
    and rel :: "nat \<Rightarrow> 'l \<Rightarrow> 'l option"
    and owner :: "'l \<Rightarrow> nat set \<Rightarrow> bool"
    and init :: 'l
  assumes init_free: "owner init {}"
    and owner_one: "owner l H \<Longrightarrow> H = {} \<or> (\<exists>i. H = {i})"
    and att_law: "owner l H \<Longrightarrow> \<exists>l'. att i l = (H = {}, l') \<and> owner l' (if H = {} then {i} else H)"
    and rel_law: "owner l {i} \<Longrightarrow> \<exists>l'. rel i l = Some l' \<and> owner l' {}"
begin

lemma step_owner:
  assumes "lock_step att rel (l, H) (l', H')" "owner l H"
  shows "owner l' H'"
  using assms(1)
proof (rule lock_stepE)
  fix i l'' assume "(l', H') = (l'', insert i H)" "i \<notin> H" "att i l = (True, l'')"
  thus ?thesis using att_law[OF assms(2), of i] by auto
next
  fix i l'' assume h: "(l', H') = (l'', H)" "i \<notin> H" "att i l = (False, l'')"
  hence "H \<noteq> {}" "owner l'' (if H = {} then {i} else H)" using att_law[OF assms(2), of i] by (auto split: if_splits)
  thus ?thesis using h by simp
next
  fix i l'' assume h: "(l', H') = (l'', H - {i})" "i \<in> H" "rel i l = Some l''"
  hence "H = {i}" using owner_one[OF assms(2)] by auto
  thus ?thesis using h rel_law[of l i] assms(2) by auto
qed

lemma reach_owner:
  assumes "(lock_step att rel)\<^sup>*\<^sup>* (init, {}) (l, H)"
  shows "owner l H"
proof -
  have "owner (fst s) (snd s)" if "(lock_step att rel)\<^sup>*\<^sup>* (init, {}) s" for s
    using that
  proof (induction rule: rtranclp_induct)
    case base
    show ?case using init_free by simp
  next
    case (step s s')
    thus ?case using step_owner[of "fst s" "snd s" "fst s'" "snd s'"] by simp
  qed
  from this[OF assms] show ?thesis by simp
qed

lemma mutual_exclusion:
  assumes "(lock_step att rel)\<^sup>*\<^sup>* (init, {}) (l, H)"
  shows "(i \<in> H \<and> j \<in> H \<longrightarrow> i = j) \<and> (i \<in> H \<longrightarrow> (\<exists>l'. rel i l = Some l')) \<and> (fst (att i l) \<longleftrightarrow> H = {})"
proof -
  have o: "owner l H" using reach_owner[OF assms] .
  have "H = {} \<or> (\<exists>i. H = {i})" using owner_one[OF o] .
  moreover have "\<exists>l'. rel i l = Some l'" if "i \<in> H" using owner_one[OF o] rel_law[of l i] o that by auto
  moreover have "fst (att i l) \<longleftrightarrow> H = {}" using att_law[OF o, of i] by auto
  ultimately show ?thesis by auto
qed

end

definition spin_owner :: "spinlock \<Rightarrow> nat set \<Rightarrow> bool" where
  "spin_owner lk H \<longleftrightarrow> (if locked lk = 0 then H = {} else \<exists>i. lcpu lk = Some i \<and> H = {i})"

interpretation kspin: mutex_lock acquire_try release_lock spin_owner "initlock lk" for lk
proof unfold_locales
  show "spin_owner (initlock lk) {}" by (simp add: spin_owner_def initlock_def)
  show "spin_owner l H \<Longrightarrow> H = {} \<or> (\<exists>i. H = {i})" for l H by (auto simp: spin_owner_def split: if_splits)
  show "spin_owner l H \<Longrightarrow> \<exists>l'. acquire_try i l = (H = {}, l') \<and> spin_owner l' (if H = {} then {i} else H)" for l H i
    by (auto simp: spin_owner_def acquire_try_def Let_def split: if_splits)
  show "spin_owner l {i} \<Longrightarrow> \<exists>l'. release_lock i l = Some l' \<and> spin_owner l' {}" for l i
    by (auto simp: spin_owner_def release_lock_def holding_def split: if_splits)
qed

text \<open>
  C15: the kernel's spin locks exclude.  Whatever the order in which CPUs try, spin and release,
  at most one CPU holds the lock, its release does not panic, and an attempt succeeds exactly when
  nobody holds the lock.
\<close>

theorem spinlock_excludes:
  assumes "(lock_step acquire_try release_lock)\<^sup>*\<^sup>* (initlock lk, {}) (l, H)"
  shows "(i \<in> H \<and> j \<in> H \<longrightarrow> i = j) \<and> (i \<in> H \<longrightarrow> (\<exists>l'. release_lock i l = Some l')) \<and> (fst (acquire_try i l) \<longleftrightarrow> H = {})"
  using assms by (rule kspin.mutual_exclusion)

text \<open>Witness for C15: CPU 2 takes the lock and CPU 5 spins.\<close>

theorem spinlock_excludes_witness:
  "\<not> fst (acquire_try 5 \<lparr>locked = 1, lcpu = Some 2\<rparr>) \<and> (\<exists>l'. release_lock 2 \<lparr>locked = 1, lcpu = Some 2\<rparr> = Some l')"
proof -
  let ?l0 = "\<lparr>locked = 7, lcpu = None\<rparr>" and ?l = "\<lparr>locked = 1, lcpu = Some 2\<rparr>"
  have "lock_step acquire_try release_lock (initlock ?l0, {}) (?l, {2})"
    by (rule lock_step.enter[of 2 "{}"]) (simp_all add: acquire_try_def initlock_def Let_def)
  moreover have "lock_step acquire_try release_lock (?l, {2}) (?l, {2})"
    by (rule lock_step.spin[of 5]) (simp_all add: acquire_try_def Let_def)
  ultimately have "(lock_step acquire_try release_lock)\<^sup>*\<^sup>* (initlock ?l0, {}) (?l, {2})" by auto
  from spinlock_excludes[OF this, of 5 2] spinlock_excludes[OF this, of 2 2] show ?thesis by simp
qed

subsection \<open>Interrupt nesting\<close>

text \<open>A run of \<open>pushcli\<close> (\<open>True\<close>) and \<open>popcli\<close> (\<open>False\<close>) on one CPU.\<close>

fun cli_run :: "bool list \<Rightarrow> cpu_int \<Rightarrow> cpu_int option" where
  "cli_run [] c = Some c"
| "cli_run (True # ops) c = cli_run ops (pushcli c)"
| "cli_run (False # ops) c = (case popcli c of None \<Rightarrow> None | Some c' \<Rightarrow> cli_run ops c')"

fun depth :: "int \<Rightarrow> bool list \<Rightarrow> int option" where
  "depth d [] = Some d"
| "depth d (True # ops) = depth (d + 1) ops"
| "depth d (False # ops) = (if d = 0 then None else depth (d - 1) ops)"

lemma cli_run_depth:
  assumes "ncli c \<ge> 0" "ncli c > 0 \<Longrightarrow> \<not> eflags_if c" "ncli c > 0 \<Longrightarrow> intena c = b" "ncli c = 0 \<Longrightarrow> eflags_if c = b"
    "depth (ncli c) ops = Some d"
  shows "\<exists>c'. cli_run ops c = Some c' \<and> ncli c' = d \<and> eflags_if c' = (b \<and> d = 0)"
  using assms
proof (induction ops arbitrary: c)
  case Nil
  thus ?case by (cases "ncli c = 0") auto
next
  case (Cons op ops)
  show ?case
  proof (cases op)
    case True
    have "ncli (pushcli c) = ncli c + 1" "\<not> eflags_if (pushcli c)" "intena (pushcli c) = b"
      using Cons.prems by (auto simp: pushcli_def Let_def)
    thus ?thesis using Cons.IH[of "pushcli c"] Cons.prems True by simp
  next
    case False
    hence p: "ncli c > 0" "depth (ncli c - 1) ops = Some d" using Cons.prems(1,5) by (auto split: if_splits)
    define c1 where "c1 = (if ncli c = 1 \<and> b then c\<lparr>ncli := ncli c - 1, eflags_if := True\<rparr> else c\<lparr>ncli := ncli c - 1\<rparr>)"
    have c1: "popcli c = Some c1" "ncli c1 = ncli c - 1" "eflags_if c1 = (b \<and> ncli c = 1)" "intena c1 = b"
      using Cons.prems(2,3) p(1) by (auto simp: popcli_def Let_def c1_def)
    show ?thesis using Cons.IH[of c1] c1 p False by auto
  qed
qed

text \<open>
  \<open>pushcli\<close> and \<open>popcli\<close> nest.  From a CPU outside any critical section, a run in which every
  \<open>popcli\<close> has its \<open>pushcli\<close> never panics, \<open>ncli\<close> is the nesting depth, and interrupts are on exactly
  when they were on before and the depth is zero.  An unmatched \<open>popcli\<close> panics.
\<close>

theorem cli_nesting:
  assumes "ncli c = 0"
  shows "case depth 0 ops of
           Some d \<Rightarrow> (\<exists>c'. cli_run ops c = Some c' \<and> ncli c' = d \<and> eflags_if c' = (eflags_if c \<and> d = 0))
         | None \<Rightarrow> cli_run ops c = None"
proof (cases "depth 0 ops")
  case (Some d)
  thus ?thesis using cli_run_depth[of c "eflags_if c" ops d] assms by simp
next
  case None
  have "cli_run ops c = None" if "depth (ncli c) ops = None" "ncli c \<ge> 0" for c
    using that
  proof (induction ops arbitrary: c)
    case (Cons op ops)
    show ?case
    proof (cases op)
      case True
      have "ncli (pushcli c) = ncli c + 1" by (simp add: pushcli_def Let_def)
      thus ?thesis using Cons.IH[of "pushcli c"] Cons.prems True by simp
    next
      case False
      show ?thesis
      proof (cases "ncli c = 0")
        case True
        thus ?thesis using False by (simp add: popcli_def Let_def)
      next
        case n: False
        have "ncli c1 = ncli c - 1" if "popcli c = Some c1" for c1 using that by (auto simp: popcli_def Let_def split: if_splits)
        thus ?thesis using Cons.IH Cons.prems False n by (cases "popcli c") simp_all
      qed
    qed
  qed simp
  thus ?thesis using None assms by simp
qed

text \<open>An evaluation: two nested critical sections.\<close>

theorem cli_nesting_witness:
  "\<exists>c'. cli_run [True, True, False, False] \<lparr>ncli = 0, intena = False, eflags_if = True\<rparr> = Some c' \<and> ncli c' = 0 \<and> eflags_if c'"
  using cli_nesting[of "\<lparr>ncli = 0, intena = False, eflags_if = True\<rparr>" "[True, True, False, False]"] by simp

end
