(* ===== verification/Threads.thy ===== *)
theory Threads
  imports Mlfq
begin

text \<open>
  Processes with kernel threads (\<^verbatim>\<open>Project4b/xv6/kernel/proc.c\<close>) and the user-level thread library
  (\<^verbatim>\<open>user/thread.c\<close>).  A thread is a slot of the process table that shares its parent's page
  directory.  As in the theory \<open>Mlfq\<close>, routines that hold \<open>ptable.lock\<close> are single steps, a
  routine that blocks ends its step where it calls \<open>sched\<close>, memory is the page allocator's state with the
  page tables in it, and the file layer is the argument \<open>kenv\<close>.  \<open>None\<close> is a panic or a fault in the kernel.
\<close>

subsection \<open>State\<close>

record thread_t =
  th_func :: u32
  th_arg :: u32
  th_stack :: u32
  is_thread :: bool

record tproc =
  t_sz :: u32
  t_pgdir :: u32
  t_kstack :: u32
  t_state :: procstate
  t_pid :: int
  t_parent :: "nat option"
  t_tf :: trapframe
  t_ebp :: u32
  t_ctx :: kctx
  t_chan :: "chan option"
  t_killed :: bool
  t_ofile :: "nat option list"
  t_cwd :: "nat option"
  t_name :: string
  thread_info :: thread_t

record 'f tstate =
  tkm :: kmem
  tfs :: 'f
  tprocs :: "tproc list"
  tinit :: "nat option"
  tnextpid :: int
  tcur :: "nat option"
  tcr3 :: u32

definition tupd :: "'f tstate \<Rightarrow> nat \<Rightarrow> (tproc \<Rightarrow> tproc) \<Rightarrow> 'f tstate" where
  "tupd s i f = s\<lparr>tprocs := (tprocs s)[i := f (tprocs s ! i)]\<rparr>"

abbreviation KSTACKSIZE :: u32 where "KSTACKSIZE \<equiv> 4096"

subsection \<open>Writing user memory from the kernel\<close>

text \<open>A store through the page tables the CPU uses; an address that is not mapped faults.\<close>

definition ustore8 :: "u32 \<Rightarrow> mem \<Rightarrow> u32 \<Rightarrow> u8 \<Rightarrow> mem option" where
  "ustore8 dir m va b =
     (let pde = load32 m (dir + 4 * PDX va); pte = load32 m (PTE_ADDR pde + 4 * PTX va)
      in if pde AND PTE_P = 0 \<or> pte AND PTE_P = 0 then None
         else Some (m(PTE_ADDR pte + (va AND 0xFFF) := b)))"

definition ustore32 :: "u32 \<Rightarrow> mem \<Rightarrow> u32 \<Rightarrow> u32 \<Rightarrow> mem option" where
  "ustore32 dir m va v =
     do { m1 \<leftarrow> ustore8 dir m va (byte_of v 0);
          m2 \<leftarrow> ustore8 dir m1 (va + 1) (byte_of v 1);
          m3 \<leftarrow> ustore8 dir m2 (va + 2) (byte_of v 2);
          ustore8 dir m3 (va + 3) (byte_of v 3) }"

subsection \<open>Creating processes and threads\<close>

definition t_allocproc :: "'f tstate \<Rightarrow> nat option \<times> 'f tstate" where
  "t_allocproc s =
     (case first_idx (\<lambda>p. t_state p = UNUSED) (tprocs s) of
        None \<Rightarrow> (None, s)
      | Some i \<Rightarrow>
          let s1 = (tupd s i (\<lambda>p. p\<lparr>t_state := EMBRYO, t_pid := tnextpid s\<rparr>))\<lparr>tnextpid := tnextpid s + 1\<rparr>
          in case kalloc (tkm s1) of (k, km') \<Rightarrow>
               let s2 = (tupd s1 i (\<lambda>p. p\<lparr>t_kstack := k\<rparr>))\<lparr>tkm := km'\<rparr>
               in if k = 0 then (None, tupd s2 i (\<lambda>p. p\<lparr>t_state := UNUSED\<rparr>))
                  else (Some i, tupd s2 i (\<lambda>p. p\<lparr>t_ctx := Forkret\<rparr>)))"

text \<open>\<open>allocthread\<close> has the same body; its two parameters are not used.\<close>

definition allocthread :: "'f tstate \<Rightarrow> nat option \<times> 'f tstate" where
  "allocthread s =
     (case first_idx (\<lambda>p. t_state p = UNUSED) (tprocs s) of
        None \<Rightarrow> (None, s)
      | Some i \<Rightarrow>
          let s1 = (tupd s i (\<lambda>p. p\<lparr>t_state := EMBRYO, t_pid := tnextpid s\<rparr>))\<lparr>tnextpid := tnextpid s + 1\<rparr>
          in case kalloc (tkm s1) of (k, km') \<Rightarrow>
               let s2 = (tupd s1 i (\<lambda>p. p\<lparr>t_kstack := k\<rparr>))\<lparr>tkm := km'\<rparr>
               in if k = 0 then (None, tupd s2 i (\<lambda>p. p\<lparr>t_state := UNUSED\<rparr>))
                  else (Some i, tupd s2 i (\<lambda>p. p\<lparr>t_ctx := Forkret\<rparr>)))"

definition t_switchuvm :: "'f tstate \<Rightarrow> nat \<Rightarrow> 'f tstate option" where
  "t_switchuvm s p = (if t_pgdir (tprocs s ! p) = 0 then None else Some (s\<lparr>tcr3 := t_pgdir (tprocs s ! p)\<rparr>))"

definition t_growproc :: "'f kenv \<Rightarrow> 'f tstate \<Rightarrow> nat \<Rightarrow> int \<Rightarrow> (int \<times> 'f tstate) option" where
  "t_growproc e s c n =
     (let p = tprocs s ! c; sz = t_sz p;
          res = (if n > 0 then allocuvm USERTOP (kend e) (tkm s) (t_pgdir p) sz (sz + of_int n)
                 else if n < 0 then deallocuvm (kend e) (tkm s) (t_pgdir p) sz (sz + of_int n)
                 else Some (sz, tkm s))
      in case res of
           None \<Rightarrow> None
         | Some (sz', km') \<Rightarrow>
             if n \<noteq> 0 \<and> sz' = 0 then Some (-1, s\<lparr>tkm := km'\<rparr>)
             else let s1 = tupd (s\<lparr>tkm := km'\<rparr>) c (\<lambda>r. r\<lparr>t_sz := sz'\<rparr>);
                      s2 = s1\<lparr>tprocs := map (\<lambda>r. if t_pid r = t_pid p then r\<lparr>t_sz := sz'\<rparr> else r) (tprocs s1)\<rparr>
                  in map_option (Pair 0) (t_switchuvm s2 c))"

definition t_fork :: "'f kenv \<Rightarrow> 'f tstate \<Rightarrow> nat \<Rightarrow> (int \<times> 'f tstate) option" where
  "t_fork e s c =
     (case t_allocproc s of
        (None, s1) \<Rightarrow> Some (-1, s1)
      | (Some np, s1) \<Rightarrow>
          let pr = tprocs s1 ! c
          in case copyuvm (kdata e) (kend e) USERTOP (tkm s1) (t_pgdir pr) (t_sz pr) of
               None \<Rightarrow> None
             | Some (d, km2) \<Rightarrow>
                 let s2 = (tupd s1 np (\<lambda>p. p\<lparr>t_pgdir := d\<rparr>))\<lparr>tkm := km2\<rparr>
                 in if d = 0 then
                      (case kfree (kend e) km2 (t_kstack (tprocs s2 ! np)) of
                         None \<Rightarrow> None
                       | Some km3 \<Rightarrow> Some (-1, (tupd s2 np (\<lambda>p. p\<lparr>t_kstack := 0, t_state := UNUSED\<rparr>))\<lparr>tkm := km3\<rparr>))
                    else
                      (case dup_files (filedup e) (t_ofile pr) (t_ofile (tprocs s2 ! np)) (tfs s2) of
                         None \<Rightarrow> None
                       | Some (files, f1) \<Rightarrow>
                           (case (case t_cwd pr of None \<Rightarrow> None | Some d \<Rightarrow> idup e d f1) of
                              None \<Rightarrow> None
                            | Some f2 \<Rightarrow>
                                Some (t_pid (tprocs s2 ! np),
                                  (tupd s2 np (\<lambda>p. p\<lparr>t_sz := t_sz pr, t_parent := Some c, t_tf := (t_tf pr)\<lparr>tf_eax := 0\<rparr>,
                                     t_ebp := t_ebp pr, t_ofile := files, t_cwd := t_cwd pr, t_state := RUNNABLE, t_name := t_name pr\<rparr>))\<lparr>tfs := f2\<rparr>))))"

text \<open>The file table of a new thread: the parent's open files, not duplicated; other slots are as they were.\<close>

definition share_files :: "nat option list \<Rightarrow> nat option list \<Rightarrow> nat option list" where
  "share_files xs ys = map2 (\<lambda>x y. if x \<noteq> None then x else y) xs ys"

definition thread_fork :: "'f tstate \<Rightarrow> nat \<Rightarrow> thread_t \<Rightarrow> (int \<times> 'f tstate) option" where
  "thread_fork s c ti =
     (case allocthread s of
        (None, s1) \<Rightarrow> Some (-1, s1)
      | (Some np, s1) \<Rightarrow>
          let pr = tprocs s1 ! c;
              sp1 = th_stack ti + KSTACKSIZE - 4;
              sp2 = sp1 - 4
          in case ustore32 (tcr3 s1) (kbytes (tkm s1)) sp1 (th_arg ti) of
               None \<Rightarrow> None
             | Some m1 \<Rightarrow>
                 (case ustore32 (tcr3 s1) m1 sp2 0xffffffff of
                    None \<Rightarrow> None
                  | Some m2 \<Rightarrow>
                      Some (t_pid (tprocs s1 ! np),
                        (tupd s1 np (\<lambda>p. p\<lparr>t_pgdir := t_pgdir pr, t_sz := t_sz pr, t_parent := Some c,
                           t_tf := (t_tf pr)\<lparr>tf_eip := th_func ti, tf_esp := sp2, tf_eax := 0\<rparr>,
                           t_ebp := th_stack ti + KSTACKSIZE,
                           t_ofile := share_files (t_ofile pr) (t_ofile p), t_cwd := t_cwd pr,
                           thread_info := ti\<lparr>is_thread := True\<rparr>, t_state := RUNNABLE, t_name := t_name pr\<rparr>))
                          \<lparr>tkm := (tkm s1)\<lparr>kbytes := m2\<rparr>\<rparr>)))"

text \<open>\<open>sys_clone\<close>; the arguments are the results of the three calls of \<open>argptr\<close>.\<close>

definition sys_clone :: "'f tstate \<Rightarrow> nat \<Rightarrow> u32 option \<Rightarrow> u32 option \<Rightarrow> u32 option \<Rightarrow> (int \<times> 'f tstate) option" where
  "sys_clone s c func arg stack =
     (case (func, arg, stack) of
        (Some f, Some a, Some st) \<Rightarrow> thread_fork s c \<lparr>th_func = f, th_arg = a, th_stack = st, is_thread = False\<rparr>
      | _ \<Rightarrow> Some (-1, s))"

subsection \<open>Sleeping, waking, killing, scheduling\<close>

definition t_wakeup1 :: "tproc list \<Rightarrow> chan option \<Rightarrow> tproc list" where
  "t_wakeup1 ps ch = map (\<lambda>p. if t_state p = SLEEPING \<and> t_chan p = ch then p\<lparr>t_state := RUNNABLE\<rparr> else p) ps"

definition t_wakeup :: "'f tstate \<Rightarrow> chan option \<Rightarrow> 'f tstate" where
  "t_wakeup s ch = s\<lparr>tprocs := t_wakeup1 (tprocs s) ch\<rparr>"

definition t_sleep :: "'f tstate \<Rightarrow> nat \<Rightarrow> chan \<Rightarrow> 'f tstate" where
  "t_sleep s c ch = tupd s c (\<lambda>p. p\<lparr>t_chan := Some ch, t_state := SLEEPING, t_ctx := InSched\<rparr>)"

definition t_sleep_resume :: "'f tstate \<Rightarrow> nat \<Rightarrow> 'f tstate" where
  "t_sleep_resume s c = tupd s c (\<lambda>p. p\<lparr>t_chan := None\<rparr>)"

definition t_yield :: "'f tstate \<Rightarrow> nat \<Rightarrow> 'f tstate" where
  "t_yield s c = tupd s c (\<lambda>p. p\<lparr>t_state := RUNNABLE, t_ctx := InSched\<rparr>)"

definition t_kill :: "'f tstate \<Rightarrow> int \<Rightarrow> int \<times> 'f tstate" where
  "t_kill s i =
     (case first_idx (\<lambda>p. t_pid p = i) (tprocs s) of
        None \<Rightarrow> (-1, s)
      | Some j \<Rightarrow>
          (0, tupd s j (\<lambda>p. p\<lparr>t_killed := True, t_state := (if t_state p = SLEEPING then RUNNABLE else t_state p)\<rparr>)))"

text \<open>
  The scheduler's pass over the table from slot \<open>i\<close> on: switch to the next \<open>RUNNABLE\<close> process and
  remember where the pass goes on; at the end of the table a new pass starts.  The second part runs when
  the process gives up the CPU.
\<close>

definition t_sched_pick :: "'f tstate \<Rightarrow> nat \<Rightarrow> (nat \<times> 'f tstate) option" where
  "t_sched_pick s i =
     (case first_idx (\<lambda>p. t_state p = RUNNABLE) (drop i (tprocs s)) of
        None \<Rightarrow> Some (0, s)
      | Some k \<Rightarrow>
          (case t_switchuvm (s\<lparr>tcur := Some (i + k)\<rparr>) (i + k) of
             None \<Rightarrow> None
           | Some s1 \<Rightarrow> Some (Suc (i + k), tupd s1 (i + k) (\<lambda>p. p\<lparr>t_state := RUNNING\<rparr>))))"

definition t_sched_after :: "'f tstate \<Rightarrow> 'f tstate" where
  "t_sched_after s = s\<lparr>tcur := None\<rparr>"

subsection \<open>Exit, wait and join\<close>

fun t_reparent :: "tproc list \<Rightarrow> nat \<Rightarrow> nat option \<Rightarrow> nat list \<Rightarrow> tproc list" where
  "t_reparent ps c ini [] = ps"
| "t_reparent ps c ini (i # is) =
     (if t_parent (ps ! i) = Some c then
        let ps1 = ps[i := (ps ! i)\<lparr>t_parent := ini\<rparr>]
        in t_reparent (if t_state (ps1 ! i) = ZOMBIE then t_wakeup1 ps1 (map_option ProcChan ini) else ps1) c ini is
      else t_reparent ps c ini is)"

text \<open>A process closes its files and leaves its directory; a thread does neither, since they are its creator's.\<close>

definition exit_files :: "'f kenv \<Rightarrow> tproc \<Rightarrow> 'f \<Rightarrow> (nat option list \<times> 'f) option" where
  "exit_files e p f =
     (if is_thread (thread_info p) then Some (t_ofile p, f)
      else case close_files (fileclose e) (t_ofile p) f of
             None \<Rightarrow> None
           | Some f1 \<Rightarrow>
               (case t_cwd p of
                  None \<Rightarrow> None
                | Some d \<Rightarrow> map_option (Pair (map (\<lambda>_. None) (t_ofile p))) (iput e d f1)))"

definition t_exit :: "'f kenv \<Rightarrow> 'f tstate \<Rightarrow> nat \<Rightarrow> 'f tstate option" where
  "t_exit e s c =
     (if Some c = tinit s then None
      else case exit_files e (tprocs s ! c) (tfs s) of
             None \<Rightarrow> None
           | Some (files, f2) \<Rightarrow>
               let s1 = (tupd s c (\<lambda>p. p\<lparr>t_ofile := files, t_cwd := None\<rparr>))\<lparr>tfs := f2\<rparr>;
                   ps1 = t_wakeup1 (tprocs s1) (map_option ProcChan (t_parent (tprocs s1 ! c)));
                   ps2 = t_reparent ps1 c (tinit s) [0..<length ps1]
               in Some (tupd (s1\<lparr>tprocs := ps2\<rparr>) c (\<lambda>p. p\<lparr>t_state := ZOMBIE, t_ctx := InSched\<rparr>)))"

text \<open>One pass of \<open>wait\<close>, which does not tell threads from processes.\<close>

definition t_wait_pass :: "'f kenv \<Rightarrow> 'f tstate \<Rightarrow> nat \<Rightarrow> (wait_result \<times> 'f tstate) option" where
  "t_wait_pass e s c =
     (case first_idx (\<lambda>p. t_parent p = Some c \<and> t_state p = ZOMBIE) (tprocs s) of
        Some i \<Rightarrow>
          (case kfree (kend e) (tkm s) (t_kstack (tprocs s ! i)) of
             None \<Rightarrow> None
           | Some km1 \<Rightarrow>
               (case freevm (kend e) km1 (t_pgdir (tprocs s ! i)) of
                  None \<Rightarrow> None
                | Some km2 \<Rightarrow>
                    Some (Reaped (t_pid (tprocs s ! i)),
                      (tupd s i (\<lambda>p. p\<lparr>t_kstack := 0, t_state := UNUSED, t_pid := 0, t_parent := None,
                                      t_name := [], t_killed := False\<rparr>))\<lparr>tkm := km2\<rparr>)))
      | None \<Rightarrow>
          if (\<forall>p \<in> set (tprocs s). t_parent p \<noteq> Some c) \<or> t_killed (tprocs s ! c) then Some (NoChild, s)
          else Some (Asleep, t_sleep s c (ProcChan c)))"

text \<open>One pass of \<open>sys_join\<close>; \<open>stack\<close> is the checked pointer argument.\<close>

definition sys_join_pass :: "'f kenv \<Rightarrow> 'f tstate \<Rightarrow> nat \<Rightarrow> u32 \<Rightarrow> (wait_result \<times> 'f tstate) option" where
  "sys_join_pass e s c stack =
     (case first_idx (\<lambda>p. t_parent p = Some c \<and> is_thread (thread_info p) \<and> t_state p = ZOMBIE) (tprocs s) of
        Some i \<Rightarrow>
          (case kfree (kend e) (tkm s) (t_kstack (tprocs s ! i)) of
             None \<Rightarrow> None
           | Some km1 \<Rightarrow>
               (case ustore32 (tcr3 s) (kbytes km1) stack (th_stack (thread_info (tprocs s ! i))) of
                  None \<Rightarrow> None
                | Some m \<Rightarrow>
                    Some (Reaped (t_pid (tprocs s ! i)),
                      (tupd s i (\<lambda>p. p\<lparr>t_kstack := 0, t_state := UNUSED, t_pid := 0, t_parent := None,
                                      t_name := [], t_killed := False, thread_info := (thread_info p)\<lparr>is_thread := False\<rparr>\<rparr>))
                        \<lparr>tkm := km1\<lparr>kbytes := m\<rparr>\<rparr>)))
      | None \<Rightarrow>
          if (\<forall>p \<in> set (tprocs s). t_parent p = Some c \<longrightarrow> \<not> is_thread (thread_info p)) \<or> t_killed (tprocs s ! c)
          then Some (NoChild, s)
          else Some (Asleep, t_sleep s c (ProcChan c)))"

subsection \<open>The user-level library\<close>

record uthread =
  u_stack :: u32
  u_pid :: int
  u_parent_pid :: int
  u_in_use :: bool

definition alloc_thread :: "int \<Rightarrow> uthread list \<Rightarrow> nat option \<times> uthread list" where
  "alloc_thread me ts =
     (case first_idx (\<lambda>t. \<not> u_in_use t) ts of
        None \<Rightarrow> (None, ts)
      | Some i \<Rightarrow> (Some i, ts[i := (ts ! i)\<lparr>u_in_use := True, u_parent_pid := me\<rparr>]))"

text \<open>
  \<open>thread_create\<close>: \<open>stack\<close> is what \<open>malloc\<close> returned and \<open>newpid\<close> what \<open>clone\<close> returned.  The stack is
  cleared before it is compared with NULL, so a failed allocation writes to address 0 (\<open>None\<close>).
\<close>

definition thread_create :: "int \<Rightarrow> uthread list \<Rightarrow> u32 \<Rightarrow> int \<Rightarrow> (int \<times> uthread list) option" where
  "thread_create me ts stack newpid =
     (case alloc_thread me ts of
        (None, ts1) \<Rightarrow> Some (-1, ts1)
      | (Some i, ts1) \<Rightarrow>
          if stack = 0 then None
          else Some (newpid, ts1[i := (ts1 ! i)\<lparr>u_stack := stack, u_pid := newpid\<rparr>]))"

text \<open>The spin lock of the library: one \<open>xchg\<close> of a waiting thread is one step.\<close>

definition lock_init :: "u32 \<Rightarrow> u32" where
  "lock_init l = 0"

definition xchg :: "u32 \<Rightarrow> u32 \<Rightarrow> u32 \<times> u32" where
  "xchg l v = (l, v)"

definition lock_try :: "u32 \<Rightarrow> bool \<times> u32" where
  "lock_try l = (case xchg l 1 of (old, l') \<Rightarrow> (old = 0, l'))"

definition lock_release :: "u32 \<Rightarrow> u32" where
  "lock_release l = 0"

end
