(* ===== verification/ThreadProps.thy ===== *)
theory ThreadProps
  imports Threads Locks
begin

text \<open>
  What threads promise: \<open>clone\<close> makes a thread in its creator's address space, \<open>join\<close> gives the creator
  back the stack of an exited thread, a process asleep in \<open>join\<close> has nothing to collect, and the
  library's lock excludes.
\<close>

named_theorems tst \<open>updates of thread tables\<close>

lemma tupd_fields [simp, tst]:
  "tkm (tupd s i f) = tkm s" "tfs (tupd s i f) = tfs s" "tinit (tupd s i f) = tinit s" "tnextpid (tupd s i f) = tnextpid s"
  "tcur (tupd s i f) = tcur s" "tcr3 (tupd s i f) = tcr3 s" "tprocs (tupd s i f) = (tprocs s)[i := f (tprocs s ! i)]"
  by (simp_all add: tupd_def)

subsection \<open>The library's lock\<close>

interpretation uspin: mutex_lock "\<lambda>i l. lock_try l" "\<lambda>i l. Some (lock_release l)"
    "\<lambda>l H. (l = 0 \<longleftrightarrow> H = {}) \<and> (H = {} \<or> (\<exists>i. H = {i}))" "lock_init l0" for l0
  by unfold_locales (auto simp: lock_init_def lock_try_def xchg_def lock_release_def)

lemma thread_lock_excludes:
  assumes "(lock_step (\<lambda>i l. lock_try l) (\<lambda>i l. Some (lock_release l)))\<^sup>*\<^sup>* (lock_init l0, {}) (l, H)" "i \<in> H" "j \<in> H"
  shows "i = j"
  using uspin.mutual_exclusion[OF assms(1), of i j] assms(2,3) by blast

subsection \<open>Allocation of a slot\<close>

lemma allocthread_eq: "allocthread s = t_allocproc s"
  by (simp add: allocthread_def t_allocproc_def)

lemma alloc_cases:
  assumes "t_allocproc s = (r, s1)"
  shows "tinit s1 = tinit s \<and> tcur s1 = tcur s \<and> tcr3 s1 = tcr3 s \<and> tfs s1 = tfs s \<and>
    (case r of
       None \<Rightarrow> (first_idx (\<lambda>p. t_state p = UNUSED) (tprocs s) = None \<and> s1 = s) \<or>
         (\<exists>i. first_idx (\<lambda>p. t_state p = UNUSED) (tprocs s) = Some i \<and> fst (kalloc (tkm s)) = 0 \<and>
            tprocs s1 = (tprocs s)[i := (tprocs s ! i)\<lparr>t_pid := tnextpid s, t_kstack := 0, t_state := UNUSED\<rparr>])
     | Some i \<Rightarrow> first_idx (\<lambda>p. t_state p = UNUSED) (tprocs s) = Some i \<and> fst (kalloc (tkm s)) \<noteq> 0 \<and> tkm s1 = snd (kalloc (tkm s)) \<and>
         tnextpid s1 = tnextpid s + 1 \<and>
         tprocs s1 = (tprocs s)[i := (tprocs s ! i)\<lparr>t_state := EMBRYO, t_pid := tnextpid s, t_kstack := fst (kalloc (tkm s)), t_ctx := Forkret\<rparr>])"
proof (cases "first_idx (\<lambda>p. t_state p = UNUSED) (tprocs s)")
  case None
  thus ?thesis using assms by (simp add: t_allocproc_def)
next
  case (Some i)
  have i: "i < length (tprocs s)" using first_idx_SomeD[OF Some] by simp
  obtain k km' where k: "kalloc (tkm s) = (k, km')" by force
  show ?thesis using assms i by (cases "k = 0") (auto simp: t_allocproc_def Some k Let_def)
qed

text \<open>
  C16: \<open>clone\<close> makes a thread.  It takes the lowest free slot and the next pid; the thread is ready to
  run \<open>f\<close> with the argument \<open>a\<close> and the return address \<open>0xffffffff\<close> on top of the given stack page, in
  its creator's address space, directory and open files.  No other slot changes.  It fails
  only for want of a slot or of a kernel stack, and then no slot in use changes.
\<close>

theorem clone_makes_thread:
  assumes "sys_clone s c (Some f) (Some a) (Some st) = Some (r, s')" "c < length (tprocs s)" "t_state (tprocs s ! c) \<noteq> UNUSED" "tnextpid s > 0"
  shows "(case first_idx (\<lambda>p. t_state p = UNUSED) (tprocs s) of
     None \<Rightarrow> r = -1 \<and> s' = s
   | Some np \<Rightarrow>
       (\<forall>i. i \<noteq> np \<longrightarrow> tprocs s' ! i = tprocs s ! i) \<and>
       (if fst (kalloc (tkm s)) = 0 then r = -1 \<and> t_state (tprocs s' ! np) = UNUSED
        else let p = tprocs s' ! np; pr = tprocs s ! c
             in r = tnextpid s \<and> t_pid p = r \<and> tnextpid s' = r + 1 \<and> t_state p = RUNNABLE \<and> t_parent p = Some c \<and>
                t_pgdir p = t_pgdir pr \<and> t_sz p = t_sz pr \<and> t_cwd p = t_cwd pr \<and>
                t_ofile p = share_files (t_ofile pr) (t_ofile (tprocs s ! np)) \<and>
                is_thread (thread_info p) \<and> th_stack (thread_info p) = st \<and>
                tf_eip (t_tf p) = f \<and> tf_esp (t_tf p) = st + 4088 \<and> tf_eax (t_tf p) = 0 \<and>
                (\<exists>m. ustore32 (tcr3 s) (kbytes (snd (kalloc (tkm s)))) (st + 4092) a = Some m \<and>
                     ustore32 (tcr3 s) m (st + 4088) 0xffffffff = Some (kbytes (tkm s')))))"
proof (cases "first_idx (\<lambda>p. t_state p = UNUSED) (tprocs s)")
  case None
  thus ?thesis using assms(1) by (simp add: sys_clone_def thread_fork_def allocthread_def)
next
  case (Some np)
  obtain q s1 where al: "t_allocproc s = (q, s1)" by force
  note ac = alloc_cases[OF al]
  have np: "np < length (tprocs s)" "np \<noteq> c" using first_idx_SomeD[OF Some] assms(3) by auto
  show ?thesis
  proof (cases "fst (kalloc (tkm s)) = 0")
    case True
    hence q: "q = None" using ac Some by (cases q) auto
    hence "r = -1" "s' = s1" using assms(1) al by (simp_all add: sys_clone_def thread_fork_def allocthread_eq)
    thus ?thesis using ac q Some True np by auto
  next
    case False
    have q: "q = Some np" using ac Some False by (cases q) auto
    have pc: "tprocs s1 ! c = tprocs s ! c" using ac q np(2) by simp
    have sp: "st + KSTACKSIZE - 4 = st + 4092" "st + KSTACKSIZE - 4 - 4 = st + 4088" "4088 + st = st + 4088" by simp_all
    obtain m1 m2 where m: "ustore32 (tcr3 s1) (kbytes (tkm s1)) (st + 4092) a = Some m1" "ustore32 (tcr3 s1) m1 (st + 4088) 0xffffffff = Some m2"
      and e: "r = t_pid (tprocs s1 ! np)" and s': "s' = (tupd s1 np (\<lambda>p. p\<lparr>t_pgdir := t_pgdir (tprocs s1 ! c), t_sz := t_sz (tprocs s1 ! c), t_parent := Some c,
                           t_tf := (t_tf (tprocs s1 ! c))\<lparr>tf_eip := f, tf_esp := st + 4088, tf_eax := 0\<rparr>,
                           t_ebp := st + KSTACKSIZE,
                           t_ofile := share_files (t_ofile (tprocs s1 ! c)) (t_ofile p), t_cwd := t_cwd (tprocs s1 ! c),
                           thread_info := \<lparr>th_func = f, th_arg = a, th_stack = st, is_thread = True\<rparr>, t_state := RUNNABLE, t_name := t_name (tprocs s1 ! c)\<rparr>))
                          \<lparr>tkm := (tkm s1)\<lparr>kbytes := m2\<rparr>\<rparr>"
      using assms(1) al q by (auto simp: sys_clone_def thread_fork_def allocthread_eq Let_def sp split: option.splits)
    show ?thesis using ac q Some False np m e unfolding s' by (simp add: pc Let_def)
  qed
qed


text \<open>Witness for C16: a process in slot 0 of two clones itself; every page table entry is present.\<close>

definition idle_tproc :: tproc where
  "idle_tproc = \<lparr>t_sz = 0, t_pgdir = 0, t_kstack = 0, t_state = UNUSED, t_pid = 0, t_parent = None,
     t_tf = \<lparr>tf_eax = 0, tf_eip = 0, tf_esp = 0, tf_eflags = 0, tf_cs = 0, tf_ds = 0, tf_es = 0, tf_ss = 0\<rparr>, t_ebp = 0, t_ctx = Forkret,
     t_chan = None, t_killed = False, t_ofile = [None], t_cwd = None, t_name = [],
     thread_info = \<lparr>th_func = 0, th_arg = 0, th_stack = 0, is_thread = False\<rparr>\<rparr>"

definition demo_tstate :: "unit tstate" where
  "demo_tstate = \<lparr>tkm = \<lparr>kbytes = (\<lambda>_. 1), freelist = 0x300000\<rparr>, tfs = (),
     tprocs = [idle_tproc\<lparr>t_state := RUNNING, t_pid := 3, t_sz := 0x8000, t_pgdir := 0x100000\<rparr>, idle_tproc],
     tinit = None, tnextpid = 4, tcur = Some 0, tcr3 = 0x100000\<rparr>"

theorem clone_makes_thread_witness:
  "\<exists>r s'. sys_clone demo_tstate 0 (Some 0x1000) (Some 7) (Some 0x5000) = Some (r, s') \<and> r = 4 \<and>
     t_parent (tprocs s' ! 1) = Some 0 \<and> tf_eip (t_tf (tprocs s' ! 1)) = 0x1000 \<and> t_pgdir (tprocs s' ! 1) = 0x100000"
proof -
  have l: "load32 m a = 0x01010101" if "m a = 1" "m (a + 1) = 1" "m (a + 2) = 1" "m (a + 3) = 1" for m a
    using that by (simp add: load32_def le32_def)
  have "\<exists>m1 m2. ustore32 0x100000 (\<lambda>_. 1) 0x5FFC 7 = Some m1 \<and> ustore32 0x100000 m1 0x5FF8 0xffffffff = Some m2"
    by (simp add: ustore32_def ustore8_def Let_def PDX_def PTX_def PTE_ADDR_def PTE_P_def l)
  hence "\<exists>r s'. sys_clone demo_tstate 0 (Some 0x1000) (Some 7) (Some 0x5000) = Some (r, s')"
    by (auto simp: sys_clone_def thread_fork_def allocthread_def demo_tstate_def idle_tproc_def kalloc_def Let_def)
  then obtain r s' where c: "sys_clone demo_tstate 0 (Some 0x1000) (Some 7) (Some 0x5000) = Some (r, s')" by blast
  have k: "fst (kalloc (tkm demo_tstate)) \<noteq> 0" "first_idx (\<lambda>p. t_state p = UNUSED) (tprocs demo_tstate) = Some 1"
    by (simp_all add: demo_tstate_def idle_tproc_def kalloc_def Let_def)
  have "t_state (tprocs demo_tstate ! 0) \<noteq> UNUSED" "0 < length (tprocs demo_tstate)" "tnextpid demo_tstate = 4" "t_pgdir (tprocs demo_tstate ! 0) = 0x100000"
    by (simp_all add: demo_tstate_def)
  thus ?thesis using clone_makes_thread[OF c] c k by (simp add: Let_def)
qed


subsection \<open>Exit and join\<close>

lemma t_wakeup1_len [simp]: "length (t_wakeup1 ps ch) = length ps"
  by (simp add: t_wakeup1_def)

lemma t_wakeup1_nth:
  "i < length ps \<Longrightarrow> t_wakeup1 ps ch ! i = (ps ! i)\<lparr>t_state := (if t_state (ps ! i) = SLEEPING \<and> t_chan (ps ! i) = ch then RUNNABLE else t_state (ps ! i))\<rparr>"
  by (simp add: t_wakeup1_def)

lemma t_reparent_len [simp]: "length (t_reparent ps c ini is) = length ps"
  by (induction ps c ini "is" rule: t_reparent.induct) (simp_all add: Let_def)

text \<open>The loop of \<open>exit\<close>: children change parents, and init is woken when one of them is a zombie.\<close>

definition same_thread :: "tproc \<Rightarrow> tproc \<Rightarrow> bool" where
  "same_thread p q \<longleftrightarrow> t_pid q = t_pid p \<and> t_kstack q = t_kstack p \<and> thread_info q = thread_info p \<and> t_chan q = t_chan p"

lemma t_reparent_spec:
  assumes "distinct is" "set is \<subseteq> {..<length ps}" "ini \<noteq> Some c" "k < length ps"
  shows "same_thread (ps ! k) (t_reparent ps c ini is ! k)"
    "t_state (t_reparent ps c ini is ! k) = (if t_state (ps ! k) = SLEEPING \<and> t_chan (ps ! k) = map_option ProcChan ini \<and>
        (\<exists>j \<in> set is. t_parent (ps ! j) = Some c \<and> t_state (ps ! j) = ZOMBIE) then RUNNABLE else t_state (ps ! k))"
    "t_parent (t_reparent ps c ini is ! k) = (if k \<in> set is \<and> t_parent (ps ! k) = Some c then ini else t_parent (ps ! k))"
proof -
  have "same_thread (ps ! k) (t_reparent ps c ini is ! k) \<and>
    t_state (t_reparent ps c ini is ! k) = (if t_state (ps ! k) = SLEEPING \<and> t_chan (ps ! k) = map_option ProcChan ini \<and>
        (\<exists>j \<in> set is. t_parent (ps ! j) = Some c \<and> t_state (ps ! j) = ZOMBIE) then RUNNABLE else t_state (ps ! k)) \<and>
    t_parent (t_reparent ps c ini is ! k) = (if k \<in> set is \<and> t_parent (ps ! k) = Some c then ini else t_parent (ps ! k))"
    using assms
  proof (induction "is" arbitrary: ps)
    case (Cons i "is")
    have i: "i < length ps" "i \<notin> set is" "distinct is" "set is \<subseteq> {..<length ps}" using Cons.prems(1,2) by auto
    show ?case
    proof (cases "t_parent (ps ! i) = Some c")
      case False
      show ?thesis using Cons.IH[OF i(3,4) Cons.prems(3,4)] False by auto
    next
      case True
      define ps1 where "ps1 = ps[i := (ps ! i)\<lparr>t_parent := ini\<rparr>]"
      define ps2 where "ps2 = (if t_state (ps1 ! i) = ZOMBIE then t_wakeup1 ps1 (map_option ProcChan ini) else ps1)"
      have e: "t_reparent ps c ini (i # is) = t_reparent ps2 c ini is" using True by (simp add: ps2_def ps1_def Let_def)
      have z: "t_state (ps1 ! i) = t_state (ps ! i)" using i(1) by (simp add: ps1_def)
      have n1: "same_thread (ps ! j) (ps1 ! j)" "t_state (ps1 ! j) = t_state (ps ! j)" "t_parent (ps1 ! j) = (if j = i then ini else t_parent (ps ! j))" for j
        using i(1) by (cases "j = i"; simp add: ps1_def same_thread_def)+
      have n2: "same_thread (ps1 ! j) (ps2 ! j)" "t_parent (ps2 ! j) = t_parent (ps1 ! j)"
        "t_state (ps2 ! j) = (if t_state (ps1 ! j) = SLEEPING \<and> t_chan (ps1 ! j) = map_option ProcChan ini \<and> t_state (ps1 ! i) = ZOMBIE then RUNNABLE else t_state (ps1 ! j))"
        if "j < length ps" for j
        using that unfolding ps2_def by (simp_all add: t_wakeup1_nth same_thread_def ps1_def)
      have len: "length ps2 = length ps" by (simp add: ps2_def ps1_def)
      have sub: "set is \<subseteq> {..<length ps2}" "k < length ps2" using i(4) Cons.prems(4) len by auto
      have q: "(\<exists>j \<in> set is. t_parent (ps2 ! j) = Some c \<and> t_state (ps2 ! j) = ZOMBIE) \<longleftrightarrow> (\<exists>j \<in> set is. t_parent (ps ! j) = Some c \<and> t_state (ps ! j) = ZOMBIE)"
      proof (rule bex_cong[OF refl])
        fix j assume "j \<in> set is"
        hence "j < length ps" "j \<noteq> i" using i by auto
        thus "(t_parent (ps2 ! j) = Some c \<and> t_state (ps2 ! j) = ZOMBIE) = (t_parent (ps ! j) = Some c \<and> t_state (ps ! j) = ZOMBIE)"
          using n1[of j] n2[of j] by simp
      qed
      note IH = Cons.IH[OF i(3) sub(1) Cons.prems(3) sub(2), unfolded q]
      note m1 = n1[of k] and m2 = n2[OF Cons.prems(4)]
      let ?E = "\<exists>j \<in> set is. t_parent (ps ! j) = Some c \<and> t_state (ps ! j) = ZOMBIE" and ?Z = "t_state (ps ! i) = ZOMBIE"
      have ch: "t_chan (ps2 ! k) = t_chan (ps ! k)" "t_chan (ps1 ! k) = t_chan (ps ! k)" using m1(1) m2(1) by (simp_all add: same_thread_def)
      have "same_thread (ps ! k) (t_reparent ps2 c ini is ! k)" using IH m1(1) m2(1) by (simp add: same_thread_def)
      moreover have "t_state (t_reparent ps2 c ini is ! k) =
          (if t_state (ps ! k) = SLEEPING \<and> t_chan (ps ! k) = map_option ProcChan ini \<and> (?Z \<or> ?E) then RUNNABLE else t_state (ps ! k))"
        using IH[THEN conjunct2, THEN conjunct1] unfolding m2(3) m1(2) n1(2) ch
        by (cases ?Z; cases ?E; cases "t_state (ps ! k) = SLEEPING") simp_all
      moreover have "t_parent (t_reparent ps2 c ini is ! k) = (if k \<in> set (i # is) \<and> t_parent (ps ! k) = Some c then ini else t_parent (ps ! k))"
        using IH[THEN conjunct2, THEN conjunct2] unfolding m2(2) m1(3) using True Cons.prems(3) by (cases "k = i") simp_all
      moreover have "(?Z \<or> ?E) = (\<exists>j \<in> set (i # is). t_parent (ps ! j) = Some c \<and> t_state (ps ! j) = ZOMBIE)" using True by simp
      ultimately show ?thesis unfolding e by simp
    qed
  qed (simp add: same_thread_def)
  thus "same_thread (ps ! k) (t_reparent ps c ini is ! k)"
    "t_state (t_reparent ps c ini is ! k) = (if t_state (ps ! k) = SLEEPING \<and> t_chan (ps ! k) = map_option ProcChan ini \<and>
        (\<exists>j \<in> set is. t_parent (ps ! j) = Some c \<and> t_state (ps ! j) = ZOMBIE) then RUNNABLE else t_state (ps ! k))"
    "t_parent (t_reparent ps c ini is ! k) = (if k \<in> set is \<and> t_parent (ps ! k) = Some c then ini else t_parent (ps ! k))"
    by blast+
qed

lemma t_exit_effect:
  assumes "t_exit e s c = Some s'" "c < length (tprocs s)"
  shows "tinit s' = tinit s" "tcur s' = tcur s" "tkm s' = tkm s" "tcr3 s' = tcr3 s" "length (tprocs s') = length (tprocs s)" "tinit s \<noteq> Some c"
    "\<And>k. k < length (tprocs s) \<Longrightarrow> same_thread (tprocs s ! k) (tprocs s' ! k)"
    "\<And>k. k < length (tprocs s) \<Longrightarrow> t_parent (tprocs s' ! k) = (if t_parent (tprocs s ! k) = Some c then tinit s else t_parent (tprocs s ! k))"
    "\<And>k. k < length (tprocs s) \<Longrightarrow> t_state (tprocs s' ! k) = (if k = c then ZOMBIE
         else if t_state (tprocs s ! k) = SLEEPING \<and> (t_chan (tprocs s ! k) = map_option ProcChan (t_parent (tprocs s ! c)) \<or>
                (t_chan (tprocs s ! k) = map_option ProcChan (tinit s) \<and> (\<exists>j < length (tprocs s). t_parent (tprocs s ! j) = Some c \<and> t_state (tprocs s ! j) = ZOMBIE)))
         then RUNNABLE else t_state (tprocs s ! k))"
proof -
  obtain files f2 where ni: "tinit s \<noteq> Some c" and ef: "exit_files e (tprocs s ! c) (tfs s) = Some (files, f2)"
    using assms(1) by (auto simp: t_exit_def split: if_splits option.splits)
  define ps0 where "ps0 = (tprocs s)[c := (tprocs s ! c)\<lparr>t_ofile := files, t_cwd := None\<rparr>]"
  define ps1 where "ps1 = t_wakeup1 ps0 (map_option ProcChan (t_parent (tprocs s ! c)))"
  define ps2 where "ps2 = t_reparent ps1 c (tinit s) [0..<length ps1]"
  have len: "length ps0 = length (tprocs s)" "length ps1 = length (tprocs s)" "length ps2 = length (tprocs s)"
    by (simp_all add: ps0_def ps1_def ps2_def)
  have pc: "t_parent (ps0 ! c) = t_parent (tprocs s ! c)" using assms(2) by (simp add: ps0_def)
  have "s' = tupd ((tupd s c (\<lambda>p. p\<lparr>t_ofile := files, t_cwd := None\<rparr>))\<lparr>tfs := f2, tprocs := ps2\<rparr>) c (\<lambda>p. p\<lparr>t_state := ZOMBIE, t_ctx := InSched\<rparr>)"
    using assms(1) ni pc by (simp add: t_exit_def ef Let_def ps0_def ps1_def ps2_def eq_commute[of "Some c"])
  hence t: "tprocs s' = ps2[c := (ps2 ! c)\<lparr>t_state := ZOMBIE, t_ctx := InSched\<rparr>]"
    and o: "tinit s' = tinit s" "tcur s' = tcur s" "tkm s' = tkm s" "tcr3 s' = tcr3 s" by simp_all
  show "tinit s' = tinit s" "tcur s' = tcur s" "tkm s' = tkm s" "tcr3 s' = tcr3 s" "length (tprocs s') = length (tprocs s)" "tinit s \<noteq> Some c"
    using o ni t len by simp_all
  have n0: "same_thread (tprocs s ! k) (ps0 ! k)" "t_parent (ps0 ! k) = t_parent (tprocs s ! k)" "t_state (ps0 ! k) = t_state (tprocs s ! k)" for k
    using assms(2) by (cases "k = c"; simp add: ps0_def same_thread_def)+
  have n1: "same_thread (ps0 ! k) (ps1 ! k)" "t_parent (ps1 ! k) = t_parent (ps0 ! k)"
    "t_state (ps1 ! k) = (if t_state (ps0 ! k) = SLEEPING \<and> t_chan (ps0 ! k) = map_option ProcChan (t_parent (tprocs s ! c)) then RUNNABLE else t_state (ps0 ! k))"
    if "k < length (tprocs s)" for k
    using that len by (simp_all add: ps1_def t_wakeup1_nth same_thread_def)
  have q: "(\<exists>j \<in> set [0..<length ps1]. t_parent (ps1 ! j) = Some c \<and> t_state (ps1 ! j) = ZOMBIE) \<longleftrightarrow>
      (\<exists>j < length (tprocs s). t_parent (tprocs s ! j) = Some c \<and> t_state (tprocs s ! j) = ZOMBIE)"
  proof -
    have "(t_parent (ps1 ! j) = Some c \<and> t_state (ps1 ! j) = ZOMBIE) = (t_parent (tprocs s ! j) = Some c \<and> t_state (tprocs s ! j) = ZOMBIE)"
      if "j < length (tprocs s)" for j using n0[of j] n1[OF that] by simp
    thus ?thesis using len by auto
  qed
  fix k assume k: "k < length (tprocs s)"
  have d: "distinct [0..<length ps1]" "set [0..<length ps1] \<subseteq> {..<length ps1}" "k < length ps1" "k \<in> set [0..<length ps1]" using k len by auto
  note n2 = t_reparent_spec[OF d(1,2) ni d(3), folded ps2_def, unfolded q]
  have ch: "t_chan (ps1 ! k) = t_chan (tprocs s ! k)" "t_chan (ps0 ! k) = t_chan (tprocs s ! k)"
    using n0(1)[of k] n1(1)[OF k] by (simp_all add: same_thread_def)
  have st: "same_thread (tprocs s ! k) (ps2 ! k)" using n0(1)[of k] n1(1)[OF k] n2(1) by (simp add: same_thread_def)
  show "same_thread (tprocs s ! k) (tprocs s' ! k)" using st k len unfolding t by (cases "k = c") (simp_all add: same_thread_def)
  have "t_parent (ps2 ! k) = (if t_parent (tprocs s ! k) = Some c then tinit s else t_parent (tprocs s ! k))"
    using n2(3) n1(2)[OF k] n0(2)[of k] d(4) by simp
  thus "t_parent (tprocs s' ! k) = (if t_parent (tprocs s ! k) = Some c then tinit s else t_parent (tprocs s ! k))"
    using k len unfolding t by (cases "k = c") simp_all
  show "t_state (tprocs s' ! k) = (if k = c then ZOMBIE
         else if t_state (tprocs s ! k) = SLEEPING \<and> (t_chan (tprocs s ! k) = map_option ProcChan (t_parent (tprocs s ! c)) \<or>
                (t_chan (tprocs s ! k) = map_option ProcChan (tinit s) \<and> (\<exists>j < length (tprocs s). t_parent (tprocs s ! j) = Some c \<and> t_state (tprocs s ! j) = ZOMBIE)))
         then RUNNABLE else t_state (tprocs s ! k))"
  proof (cases "k = c")
    case False
    hence "t_state (tprocs s' ! k) = t_state (ps2 ! k)" unfolding t by simp
    thus ?thesis using False unfolding n2(2) n1(3)[OF k] n0(3) ch
      by (cases "t_state (tprocs s ! k) = SLEEPING"; cases "t_chan (tprocs s ! k) = map_option ProcChan (t_parent (tprocs s ! c))") auto
  qed (use k len in \<open>simp add: t\<close>)
qed



text \<open>Witness for C17: the thread in slot 1 of the process above exits and is joined.\<close>

definition demo_joining :: "unit tstate" where
  "demo_joining = demo_tstate\<lparr>tprocs := [idle_tproc\<lparr>t_state := SLEEPING, t_chan := Some (ProcChan 0), t_pid := 3, t_pgdir := 0x100000\<rparr>,
     idle_tproc\<lparr>t_state := RUNNING, t_pid := 4, t_parent := Some 0, t_kstack := 0x400000,
       thread_info := \<lparr>th_func = 0, th_arg = 0, th_stack = 0x5000, is_thread = True\<rparr>\<rparr>]\<rparr>"

definition demo_kenv :: "unit kenv" where
  "demo_kenv = \<lparr>kdata = 0, kend = 0x100000, initcode_start = 0, initcode_size = 0, filedup = (\<lambda>_ f. Some f), fileclose = (\<lambda>_ f. Some f),
     idup = (\<lambda>_ f. Some f), iput = (\<lambda>_ f. Some f), namei_root = (\<lambda>f. Some (Some 0, f))\<rparr>"



subsection \<open>No wakeup is lost\<close>

text \<open>
  The kernel as a step relation: the scheduler picks a process or takes the CPU back, and the
  process on the CPU makes a system call.  Channels other than those of \<open>wait\<close> and \<open>join\<close> are used
  by drivers, pipes and the clock.
\<close>

inductive t_step :: "'f kenv \<Rightarrow> 'f tstate \<Rightarrow> 'f tstate \<Rightarrow> bool" for e where
  pick: "tcur s = None \<Longrightarrow> t_sched_pick s i = Some (k, s') \<Longrightarrow> t_step e s s'"
| switch: "tcur s = Some c \<Longrightarrow> t_state (tprocs s ! c) \<noteq> RUNNING \<Longrightarrow> t_step e s (t_sched_after s)"
| resume: "tcur s = Some c \<Longrightarrow> t_state (tprocs s ! c) = RUNNING \<Longrightarrow> t_step e s (t_sleep_resume s c)"
| fork: "tcur s = Some c \<Longrightarrow> t_state (tprocs s ! c) = RUNNING \<Longrightarrow> t_fork e s c = Some (r, s') \<Longrightarrow> t_step e s s'"
| clone: "tcur s = Some c \<Longrightarrow> t_state (tprocs s ! c) = RUNNING \<Longrightarrow> sys_clone s c f a st = Some (r, s') \<Longrightarrow> t_step e s s'"
| exit: "tcur s = Some c \<Longrightarrow> t_state (tprocs s ! c) = RUNNING \<Longrightarrow> t_exit e s c = Some s' \<Longrightarrow> t_step e s s'"
| wait: "tcur s = Some c \<Longrightarrow> t_state (tprocs s ! c) = RUNNING \<Longrightarrow> t_wait_pass e s c = Some (w, s') \<Longrightarrow> t_step e s s'"
| join: "tcur s = Some c \<Longrightarrow> t_state (tprocs s ! c) = RUNNING \<Longrightarrow> sys_join_pass e s c stk = Some (w, s') \<Longrightarrow> t_step e s s'"
| kill: "t_step e s (snd (t_kill s i))"
| yield: "tcur s = Some c \<Longrightarrow> t_state (tprocs s ! c) = RUNNING \<Longrightarrow> t_step e s (t_yield s c)"
| wakeup: "t_step e s (t_wakeup s ch)"
| sleep: "tcur s = Some c \<Longrightarrow> t_state (tprocs s ! c) = RUNNING \<Longrightarrow> (\<forall>q. ch \<noteq> ProcChan q) \<Longrightarrow> t_step e s (t_sleep s c ch)"
| grow: "tcur s = Some c \<Longrightarrow> t_state (tprocs s ! c) = RUNNING \<Longrightarrow> t_growproc e s c n = Some (r, s') \<Longrightarrow> t_step e s s'"

definition dead_thread_of :: "nat \<Rightarrow> tproc \<Rightarrow> bool" where
  "dead_thread_of q p \<longleftrightarrow> t_parent p = Some q \<and> is_thread (thread_info p) \<and> t_state p = ZOMBIE"

definition awaits :: "nat \<Rightarrow> tproc \<Rightarrow> bool" where
  "awaits q p \<longleftrightarrow> t_state p = SLEEPING \<and> t_chan p = Some (ProcChan q)"

definition thread_inv :: "'f tstate \<Rightarrow> bool" where
  "thread_inv s \<longleftrightarrow>
     (\<forall>p < length (tprocs s). \<forall>q. awaits q (tprocs s ! p) \<longrightarrow> q = p \<and> (\<forall>k < length (tprocs s). \<not> dead_thread_of p (tprocs s ! k))) \<and>
     (\<forall>p < length (tprocs s). t_parent (tprocs s ! p) \<noteq> Some p) \<and>
     (\<forall>i. tinit s = Some i \<longrightarrow> i < length (tprocs s) \<and> t_parent (tprocs s ! i) = None \<and> t_state (tprocs s ! i) \<noteq> UNUSED) \<and>
     (\<forall>c. tcur s = Some c \<longrightarrow> c < length (tprocs s))"

text \<open>Changes of a slot that start no wait, make no dead thread and keep the slot of init.\<close>

definition calm1 :: "nat \<Rightarrow> tproc \<Rightarrow> tproc \<Rightarrow> bool" where
  "calm1 i p p' \<longleftrightarrow>
     (\<forall>q. awaits q p' \<longrightarrow> awaits q p) \<and> (\<forall>q. dead_thread_of q p' \<longrightarrow> dead_thread_of q p) \<and>
     (t_parent p' \<noteq> Some i \<or> t_parent p = Some i) \<and>
     (t_state p \<noteq> UNUSED \<and> t_parent p = None \<longrightarrow> t_parent p' = None \<and> t_state p' \<noteq> UNUSED)"

definition calm :: "'f tstate \<Rightarrow> 'f tstate \<Rightarrow> bool" where
  "calm s s' \<longleftrightarrow> length (tprocs s') = length (tprocs s) \<and> tinit s' = tinit s \<and>
     (\<forall>i < length (tprocs s). calm1 i (tprocs s ! i) (tprocs s' ! i)) \<and> (\<forall>c. tcur s' = Some c \<longrightarrow> c < length (tprocs s))"

lemma calm1_refl [simp]: "calm1 i p p"
  by (simp add: calm1_def)

lemma calm_inv:
  assumes "thread_inv s" "calm s s'"
  shows "thread_inv s'"
  using assms unfolding thread_inv_def calm_def calm1_def by (metis (no_types, lifting))

lemma calm_upd:
  assumes "thread_inv s" "tprocs s' = (tprocs s)[i := p']" "tinit s' = tinit s" "tcur s' = tcur s \<or> tcur s' = None \<or> tcur s' = Some i" "i < length (tprocs s)"
    "calm1 i (tprocs s ! i) p'"
  shows "calm s s'"
  using assms by (auto simp: calm_def thread_inv_def nth_list_update)

lemma calm_same:
  assumes "thread_inv s" "tprocs s' = tprocs s" "tinit s' = tinit s" "tcur s' = tcur s \<or> tcur s' = None"
  shows "calm s s'"
  using assms by (auto simp: calm_def thread_inv_def)

lemma fork_slot:
  assumes "t_fork e s c = Some (r, s')" "c < length (tprocs s)" "t_state (tprocs s ! c) = RUNNING"
  shows "tinit s' = tinit s \<and> tcur s' = tcur s \<and> (tprocs s' = tprocs s \<or>
    (\<exists>np p'. np < length (tprocs s) \<and> np \<noteq> c \<and> t_state (tprocs s ! np) = UNUSED \<and> tprocs s' = (tprocs s)[np := p'] \<and>
       (t_state p' = RUNNABLE \<and> t_parent p' = Some c \<or> t_state p' = UNUSED \<and> t_parent p' = t_parent (tprocs s ! np))))"
proof -
  obtain q s1 where al: "t_allocproc s = (q, s1)" by force
  note ac = alloc_cases[OF al]
  show ?thesis
  proof (cases q)
    case None
    hence "s' = s1" using assms(1) al by (simp add: t_fork_def)
    thus ?thesis using ac None assms(3) first_idx_SomeD[of "\<lambda>p. t_state p = UNUSED" "tprocs s"] by fastforce
  next
    case (Some np)
    have f: "first_idx (\<lambda>p. t_state p = UNUSED) (tprocs s) = Some np" using ac Some by simp
    have np: "np < length (tprocs s)" "t_state (tprocs s ! np) = UNUSED" "np \<noteq> c" using first_idx_SomeD[OF f] assms(3) by auto
    have o: "tinit s1 = tinit s" "tcur s1 = tcur s" using ac by auto
    obtain p1 where p1: "tprocs s1 = (tprocs s)[np := p1]" "t_parent p1 = t_parent (tprocs s ! np)" using ac Some by auto
    have "\<exists>p'. tprocs s' = (tprocs s)[np := p'] \<and> tinit s' = tinit s1 \<and> tcur s' = tcur s1 \<and>
       (t_state p' = RUNNABLE \<and> t_parent p' = Some c \<or> t_state p' = UNUSED \<and> t_parent p' = t_parent p1)"
      using assms(1) al Some p1(1) np(1) by (auto simp: t_fork_def Let_def split: option.splits if_splits prod.splits)
    thus ?thesis using np o p1(2) by fastforce
  qed
qed

lemma clone_slot:
  assumes "sys_clone s c f a st = Some (r, s')" "c < length (tprocs s)" "t_state (tprocs s ! c) = RUNNING"
  shows "tinit s' = tinit s \<and> tcur s' = tcur s \<and> (tprocs s' = tprocs s \<or>
    (\<exists>np p'. np < length (tprocs s) \<and> np \<noteq> c \<and> t_state (tprocs s ! np) = UNUSED \<and> tprocs s' = (tprocs s)[np := p'] \<and>
       (t_state p' = RUNNABLE \<and> t_parent p' = Some c \<or> t_state p' = UNUSED \<and> t_parent p' = t_parent (tprocs s ! np))))"
proof (cases "\<exists>f' a' st'. f = Some f' \<and> a = Some a' \<and> st = Some st'")
  case False
  hence "s' = s" using assms(1) by (auto simp: sys_clone_def split: option.splits)
  thus ?thesis by simp
next
  case True
  then obtain ti where tf: "thread_fork s c ti = Some (r, s')" using assms(1) by (auto simp: sys_clone_def)
  obtain q s1 where al: "t_allocproc s = (q, s1)" by force
  note ac = alloc_cases[OF al]
  show ?thesis
  proof (cases q)
    case None
    hence "s' = s1" using tf al by (simp add: thread_fork_def allocthread_eq)
    thus ?thesis using ac None assms(3) first_idx_SomeD[of "\<lambda>p. t_state p = UNUSED" "tprocs s"] by fastforce
  next
    case (Some np)
    have f: "first_idx (\<lambda>p. t_state p = UNUSED) (tprocs s) = Some np" using ac Some by simp
    have np: "np < length (tprocs s)" "t_state (tprocs s ! np) = UNUSED" "np \<noteq> c" using first_idx_SomeD[OF f] assms(3) by auto
    obtain p1 where p1: "tprocs s1 = (tprocs s)[np := p1]" using ac Some by auto
    have "\<exists>p'. tprocs s' = (tprocs s)[np := p'] \<and> tinit s' = tinit s1 \<and> tcur s' = tcur s1 \<and> t_state p' = RUNNABLE \<and> t_parent p' = Some c"
      using tf al Some p1 np(1) by (auto simp: thread_fork_def allocthread_eq Let_def split: option.splits)
    thus ?thesis using np ac by auto
  qed
qed

lemma new_slot_calm:
  assumes "thread_inv s" "tinit s' = tinit s \<and> tcur s' = tcur s \<and> (tprocs s' = tprocs s \<or>
    (\<exists>np p'. np < length (tprocs s) \<and> np \<noteq> c \<and> t_state (tprocs s ! np) = UNUSED \<and> tprocs s' = (tprocs s)[np := p'] \<and>
       (t_state p' = RUNNABLE \<and> t_parent p' = Some c \<or> t_state p' = UNUSED \<and> t_parent p' = t_parent (tprocs s ! np))))"
  shows "calm s s'"
proof (cases "tprocs s' = tprocs s")
  case False
  then obtain np p' where n: "np < length (tprocs s)" "np \<noteq> c" "t_state (tprocs s ! np) = UNUSED" "tprocs s' = (tprocs s)[np := p']"
    "t_state p' = RUNNABLE \<and> t_parent p' = Some c \<or> t_state p' = UNUSED \<and> t_parent p' = t_parent (tprocs s ! np)"
    using assms(2) by auto
  have "calm1 np (tprocs s ! np) p'" using n by (auto simp: calm1_def awaits_def dead_thread_of_def)
  thus ?thesis using calm_upd[OF assms(1) n(4)] n(1) assms(2) by blast
qed (use calm_same[OF assms(1)] assms(2) in blast)


lemma exit_thread_inv:
  assumes inv: "thread_inv s" and x0: "t_exit e s c = Some s'" and c: "c < length (tprocs s)"
  shows "thread_inv s'"
proof -
  note x = t_exit_effect[OF x0 c]
  let ?n = "length (tprocs s)"
  have i1: "\<And>p q. p < ?n \<Longrightarrow> awaits q (tprocs s ! p) \<Longrightarrow> q = p \<and> (\<forall>k < ?n. \<not> dead_thread_of p (tprocs s ! k))"
    and i2: "\<And>p. p < ?n \<Longrightarrow> t_parent (tprocs s ! p) \<noteq> Some p"
    and i3: "\<And>i. tinit s = Some i \<Longrightarrow> i < ?n \<and> t_parent (tprocs s ! i) = None \<and> t_state (tprocs s ! i) \<noteq> UNUSED"
    and i4: "\<And>d. tcur s = Some d \<Longrightarrow> d < ?n" using inv by (auto simp: thread_inv_def)
  have "q = p \<and> (\<forall>k < ?n. \<not> dead_thread_of p (tprocs s' ! k))" if p: "p < ?n" and a: "awaits q (tprocs s' ! p)" for p q
  proof -
    have ch: "t_chan (tprocs s' ! p) = t_chan (tprocs s ! p)" using x(7)[OF p] by (simp add: same_thread_def)
    have st: "t_state (tprocs s' ! p) = SLEEPING" using a by (simp add: awaits_def)
    hence nc: "p \<noteq> c" and sl: "t_state (tprocs s ! p) = SLEEPING"
      and nw: "t_chan (tprocs s ! p) \<noteq> map_option ProcChan (t_parent (tprocs s ! c))"
        "\<not> (t_chan (tprocs s ! p) = map_option ProcChan (tinit s) \<and> (\<exists>j < ?n. t_parent (tprocs s ! j) = Some c \<and> t_state (tprocs s ! j) = ZOMBIE))"
      using x(9)[OF p] by (auto split: if_splits)
    have aq: "awaits q (tprocs s ! p)" using a ch sl by (simp add: awaits_def)
    note i1 = i1[OF p aq]
    have cp: "t_chan (tprocs s ! p) = Some (ProcChan p)" using aq i1 by (simp add: awaits_def)
    have "\<not> dead_thread_of p (tprocs s' ! k)" if k: "k < ?n" for k
    proof
      assume d: "dead_thread_of p (tprocs s' ! k)"
      have th: "is_thread (thread_info (tprocs s ! k))" using d x(7)[OF k] by (simp add: dead_thread_of_def same_thread_def)
      have pk: "(if t_parent (tprocs s ! k) = Some c then tinit s else t_parent (tprocs s ! k)) = Some p"
        using d x(8)[OF k] by (simp add: dead_thread_of_def)
      show False
      proof (cases "k = c")
        case True
        thus ?thesis using pk i2[OF c] nw(1) cp by simp
      next
        case False
        have z: "t_state (tprocs s ! k) = ZOMBIE" using d x(9)[OF k] False by (auto simp: dead_thread_of_def split: if_splits)
        show ?thesis
        proof (cases "t_parent (tprocs s ! k) = Some c")
          case True
          thus ?thesis using pk nw(2) cp z k by auto
        next
          case F: False
          hence "dead_thread_of p (tprocs s ! k)" using pk z th by (simp add: dead_thread_of_def)
          thus ?thesis using i1 k by blast
        qed
      qed
    qed
    thus ?thesis using i1 by blast
  qed
  moreover have "t_parent (tprocs s' ! p) \<noteq> Some p" if "p < ?n" for p
    using x(8)[OF that] i2[OF that] i3[of p] by (auto split: if_splits)
  moreover have "i < ?n \<and> t_parent (tprocs s' ! i) = None \<and> t_state (tprocs s' ! i) \<noteq> UNUSED" if "tinit s = Some i" for i
    using i3[OF that] x(6) x(8)[of i] x(9)[of i] that by auto
  ultimately show ?thesis unfolding thread_inv_def using x(1,2,5) i4 by auto
qed

lemma sleep_own_inv:
  assumes inv: "thread_inv s" and c: "c < length (tprocs s)" and r: "t_state (tprocs s ! c) = RUNNING"
    and n: "\<forall>k < length (tprocs s). \<not> dead_thread_of c (tprocs s ! k)"
  shows "thread_inv (t_sleep s c (ProcChan c))"
proof -
  let ?p = "(tprocs s ! c)\<lparr>t_chan := Some (ProcChan c), t_state := SLEEPING, t_ctx := InSched\<rparr>"
  have t: "tprocs (t_sleep s c (ProcChan c)) = (tprocs s)[c := ?p]" "tinit (t_sleep s c (ProcChan c)) = tinit s" "tcur (t_sleep s c (ProcChan c)) = tcur s"
    by (simp_all add: t_sleep_def)
  have d: "dead_thread_of q ((tprocs s)[c := ?p] ! k) \<Longrightarrow> dead_thread_of q (tprocs s ! k)" for q k
    using c by (cases "k = c") (simp_all add: dead_thread_of_def)
  have a: "awaits q ((tprocs s)[c := ?p] ! k) \<Longrightarrow> (if k = c then q = c else awaits q (tprocs s ! k))" for q k
    using c by (cases "k = c") (simp_all add: awaits_def)
  have pr: "t_parent ((tprocs s)[c := ?p] ! k) = t_parent (tprocs s ! k)" "t_state ((tprocs s)[c := ?p] ! k) = UNUSED \<Longrightarrow> t_state (tprocs s ! k) = UNUSED" for k
    using c by (cases "k = c"; simp)+
  have "q = p \<and> (\<forall>k < length (tprocs s). \<not> dead_thread_of p ((tprocs s)[c := ?p] ! k))"
    if "p < length (tprocs s)" "awaits q ((tprocs s)[c := ?p] ! p)" for p q
    using a[OF that(2)] d n inv that(1) unfolding thread_inv_def by (cases "p = c") (simp, blast, (metis (no_types, lifting)))
  moreover have "\<forall>p < length (tprocs s). t_parent (tprocs s ! p) \<noteq> Some p" "\<forall>d. tcur s = Some d \<longrightarrow> d < length (tprocs s)"
    "\<forall>i. tinit s = Some i \<longrightarrow> i < length (tprocs s) \<and> t_parent (tprocs s ! i) = None \<and> t_state ((tprocs s)[c := ?p] ! i) \<noteq> UNUSED"
    using inv pr(2) unfolding thread_inv_def by blast+
  ultimately show ?thesis unfolding thread_inv_def t length_list_update pr(1) by simp
qed

lemma tupd_calm:
  assumes "thread_inv s" "i < length (tprocs s)" "calm1 i (tprocs s ! i) (f (tprocs s ! i))"
  shows "thread_inv (tupd s i f)"
  using calm_inv[OF assms(1) calm_upd[OF assms(1), of "tupd s i f" i "f (tprocs s ! i)"]] assms(2,3) by simp

lemma grow_calm:
  assumes "t_growproc e s c n = Some (r, s')" "c < length (tprocs s)" "thread_inv s"
  shows "calm s s'"
proof -
  have m: "map (\<lambda>r. if t_pid r = t_pid (tprocs s ! c) then r\<lparr>t_sz := z\<rparr> else r) ((tprocs s)[c := (tprocs s ! c)\<lparr>t_sz := z\<rparr>]) =
      map (\<lambda>r. if t_pid r = t_pid (tprocs s ! c) then r\<lparr>t_sz := z\<rparr> else r) (tprocs s)" for z
    using assms(2) by (simp add: map_update list_update_same_conv)
  have o: "tinit s' = tinit s" "tcur s' = tcur s" "tprocs s' = tprocs s \<or>
      (\<exists>z. tprocs s' = map (\<lambda>r. if t_pid r = t_pid (tprocs s ! c) then r\<lparr>t_sz := z\<rparr> else r) (tprocs s))"
    using assms(1) by (auto simp: t_growproc_def t_switchuvm_def Let_def m split: option.splits if_splits prod.splits)
  have "length (tprocs s') = length (tprocs s)" using o(3) by auto
  moreover have "t_parent (tprocs s' ! i) = t_parent (tprocs s ! i) \<and> t_state (tprocs s' ! i) = t_state (tprocs s ! i) \<and>
      t_chan (tprocs s' ! i) = t_chan (tprocs s ! i) \<and> thread_info (tprocs s' ! i) = thread_info (tprocs s ! i)" if "i < length (tprocs s)" for i
    using o(3) that by auto
  ultimately show ?thesis using assms(3) o(1,2)
    by (simp add: calm_def calm1_def awaits_def dead_thread_of_def thread_inv_def)
qed

lemma wakeup_calm:
  assumes "thread_inv s"
  shows "calm s (t_wakeup s ch)"
proof -
  have "calm1 i (tprocs s ! i) (t_wakeup1 (tprocs s) ch ! i)" if "i < length (tprocs s)" for i
    using that by (simp add: t_wakeup1_nth calm1_def awaits_def dead_thread_of_def)
  thus ?thesis using assms by (simp add: calm_def t_wakeup_def thread_inv_def)
qed

lemma t_step_inv:
  assumes "t_step e s s'" "thread_inv s"
  shows "thread_inv s'"
  using assms
proof (cases rule: t_step.cases)
  case (pick i k)
  show ?thesis
  proof (cases "first_idx (\<lambda>p. t_state p = RUNNABLE) (drop i (tprocs s))")
    case None
    thus ?thesis using pick assms(2) by (simp add: t_sched_pick_def)
  next
    case (Some j)
    have j: "i + j < length (tprocs s)" using first_idx_SomeD[OF Some] by simp
    have "tprocs s' = (tprocs s)[i + j := (tprocs s ! (i + j))\<lparr>t_state := RUNNING\<rparr>]" "tinit s' = tinit s" "tcur s' = Some (i + j)"
      using pick(2) Some by (auto simp: t_sched_pick_def t_switchuvm_def split: if_splits option.splits)
    moreover have "calm1 (i + j) (tprocs s ! (i + j)) ((tprocs s ! (i + j))\<lparr>t_state := RUNNING\<rparr>)"
      by (simp add: calm1_def awaits_def dead_thread_of_def)
    ultimately show ?thesis using calm_inv[OF assms(2) calm_upd[OF assms(2), of s' "i + j"]] j by blast
  qed
next
  case (switch c)
  thus ?thesis using calm_inv[OF assms(2) calm_same[OF assms(2)]] by (simp add: t_sched_after_def)
next
  case (resume c)
  have "c < length (tprocs s)" using assms(2) resume by (simp add: thread_inv_def)
  thus ?thesis using tupd_calm[OF assms(2)] resume by (simp add: t_sleep_resume_def calm1_def awaits_def dead_thread_of_def)
next
  case (fork c r)
  have "c < length (tprocs s)" using assms(2) fork by (simp add: thread_inv_def)
  thus ?thesis using calm_inv[OF assms(2) new_slot_calm[OF assms(2) fork_slot]] fork by blast
next
  case (clone c f a st r)
  have "c < length (tprocs s)" using assms(2) clone by (simp add: thread_inv_def)
  thus ?thesis using calm_inv[OF assms(2) new_slot_calm[OF assms(2) clone_slot]] clone by blast
next
  case (exit c)
  have "c < length (tprocs s)" using assms(2) exit by (simp add: thread_inv_def)
  thus ?thesis using exit_thread_inv[OF assms(2) exit(3)] by blast
next
  case (wait c w)
  have c: "c < length (tprocs s)" using assms(2) wait by (simp add: thread_inv_def)
  show ?thesis
  proof (cases "first_idx (\<lambda>p. t_parent p = Some c \<and> t_state p = ZOMBIE) (tprocs s)")
    case None
    hence "\<forall>k < length (tprocs s). \<not> dead_thread_of c (tprocs s ! k)" by (auto simp: first_idx_None dead_thread_of_def)
    thus ?thesis using wait sleep_own_inv[OF assms(2) c wait(2)] assms(2) None by (auto simp: t_wait_pass_def split: if_splits)
  next
    case (Some i)
    note fi = first_idx_SomeD[OF Some]
    obtain p' where "tprocs s' = (tprocs s)[i := p']" "tinit s' = tinit s" "tcur s' = tcur s" "t_state p' = UNUSED" "t_parent p' = None"
      using wait(3) Some fi(1) by (auto simp: t_wait_pass_def split: option.splits)
    thus ?thesis using calm_inv[OF assms(2) calm_upd[OF assms(2), of s' i p']] fi
      by (simp add: calm1_def awaits_def dead_thread_of_def)
  qed
next
  case (join c stk w)
  have c: "c < length (tprocs s)" using assms(2) join by (simp add: thread_inv_def)
  show ?thesis
  proof (cases "first_idx (\<lambda>p. t_parent p = Some c \<and> is_thread (thread_info p) \<and> t_state p = ZOMBIE) (tprocs s)")
    case None
    hence "\<forall>k < length (tprocs s). \<not> dead_thread_of c (tprocs s ! k)" by (auto simp: first_idx_None dead_thread_of_def)
    thus ?thesis using join sleep_own_inv[OF assms(2) c join(2)] assms(2) None by (auto simp: sys_join_pass_def split: if_splits)
  next
    case (Some i)
    note fi = first_idx_SomeD[OF Some]
    obtain p' where "tprocs s' = (tprocs s)[i := p']" "tinit s' = tinit s" "tcur s' = tcur s" "t_state p' = UNUSED" "t_parent p' = None"
      using join(3) Some fi(1) by (auto simp: sys_join_pass_def split: option.splits)
    thus ?thesis using calm_inv[OF assms(2) calm_upd[OF assms(2), of s' i p']] fi
      by (simp add: calm1_def awaits_def dead_thread_of_def)
  qed
next
  case (kill i)
  show ?thesis
  proof (cases "first_idx (\<lambda>p. t_pid p = i) (tprocs s)")
    case None
    thus ?thesis using kill assms(2) by (simp add: t_kill_def)
  next
    case (Some j)
    hence e: "s' = tupd s j (\<lambda>p. p\<lparr>t_killed := True, t_state := (if t_state p = SLEEPING then RUNNABLE else t_state p)\<rparr>)"
      using kill by (simp add: t_kill_def)
    show ?thesis unfolding e using assms(2) first_idx_SomeD(1)[OF Some]
      by (rule tupd_calm) (simp add: calm1_def awaits_def dead_thread_of_def)
  qed
next
  case (yield c)
  have "c < length (tprocs s)" using assms(2) yield by (simp add: thread_inv_def)
  thus ?thesis using tupd_calm[OF assms(2)] yield by (simp add: t_yield_def calm1_def awaits_def dead_thread_of_def)
next
  case (wakeup ch)
  thus ?thesis using calm_inv[OF assms(2) wakeup_calm[OF assms(2)]] by blast
next
  case (sleep c ch)
  have "c < length (tprocs s)" using assms(2) sleep by (simp add: thread_inv_def)
  thus ?thesis using tupd_calm[OF assms(2)] sleep by (simp add: t_sleep_def calm1_def awaits_def dead_thread_of_def)
next
  case (grow c n r)
  have "c < length (tprocs s)" using assms(2) grow by (simp add: thread_inv_def)
  thus ?thesis using calm_inv[OF assms(2) grow_calm[OF grow(3) _ assms(2)]] by blast
qed


text \<open>
  C18: no wakeup is lost.  In every state the kernel reaches from a sound one, by any interleaving of
  scheduling and system calls, a process that sleeps on its own address, that is in \<open>wait\<close> or \<open>join\<close>, has
  no dead thread to collect, so the sleep ends when the next one dies.
\<close>

theorem no_lost_wakeup:
  assumes "(t_step e)\<^sup>*\<^sup>* s s'" "thread_inv s" "p < length (tprocs s')" "t_state (tprocs s' ! p) = SLEEPING" "t_chan (tprocs s' ! p) = Some (ProcChan p)"
    "k < length (tprocs s')" "t_parent (tprocs s' ! k) = Some p" "is_thread (thread_info (tprocs s' ! k))"
  shows "t_state (tprocs s' ! k) \<noteq> ZOMBIE"
proof -
  have "thread_inv s'" using assms(1,2) by (induction rule: rtranclp_induct) (auto intro: t_step_inv)
  thus ?thesis using assms(3-) by (auto simp: thread_inv_def awaits_def dead_thread_of_def)
qed

text \<open>Witness for C18: the creator sleeps in \<open>join\<close> and its thread yields.\<close>

theorem no_lost_wakeup_witness:
  "(t_step demo_kenv)\<^sup>*\<^sup>* demo_joining demo_joining \<and> t_state (tprocs demo_joining ! 1) \<noteq> ZOMBIE"
proof -
  have t: "tprocs demo_joining = [idle_tproc\<lparr>t_state := SLEEPING, t_chan := Some (ProcChan 0), t_pid := 3, t_pgdir := 0x100000\<rparr>,
     idle_tproc\<lparr>t_state := RUNNING, t_pid := 4, t_parent := Some 0, t_kstack := 0x400000,
       thread_info := \<lparr>th_func = 0, th_arg = 0, th_stack = 0x5000, is_thread = True\<rparr>\<rparr>]" "tinit demo_joining = None" "tcur demo_joining = Some 0"
    by (simp_all add: demo_joining_def demo_tstate_def)
  have "thread_inv demo_joining"
    unfolding thread_inv_def t by (auto simp: less_Suc_eq awaits_def dead_thread_of_def idle_tproc_def)
  from no_lost_wakeup[OF rtranclp.rtrancl_refl[of "t_step demo_kenv"] this, of 0 1] show ?thesis by (simp add: t idle_tproc_def)
qed

text \<open>
  \<open>wait\<close> collects dead threads as well as dead processes, and releases the page directory of what it
  collects: for a thread that is the directory the caller itself runs on.
\<close>

lemma wait_frees_own_pgdir:
  assumes "first_idx (\<lambda>p. t_parent p = Some c \<and> t_state p = ZOMBIE) (tprocs s) = Some k" "t_pgdir (tprocs s ! k) = t_pgdir (tprocs s ! c)"
    "kfree (kend e) (tkm s) (t_kstack (tprocs s ! k)) = Some km1" "freevm (kend e) km1 (t_pgdir (tprocs s ! c)) = Some km2"
  shows "\<exists>s'. t_wait_pass e s c = Some (Reaped (t_pid (tprocs s ! k)), s') \<and> tkm s' = km2 \<and> t_pgdir (tprocs s' ! c) = t_pgdir (tprocs s ! c)"
proof -
  have "k < length (tprocs s)" using first_idx_SomeD[OF assms(1)] by simp
  thus ?thesis using assms by (cases "k = c") (simp_all add: t_wait_pass_def)
qed

text \<open>A slot that \<open>wait\<close> freed still says it is a thread, so a process created in it later does not close its files.\<close>

lemma stale_thread_keeps_files:
  "is_thread (thread_info p) \<Longrightarrow> exit_files e p f = Some (t_ofile p, f)"
  by (simp add: exit_files_def)

end
