(* ===== verification/Buffers.thy ===== *)
theory Buffers
  imports Prelude "HOL-Library.Multiset"
begin

text \<open>
  Bounded buffers between a producer and a consumer, as an interface: the kernel's pipes are a ring of
  bytes and the web server keeps accepted connections in an array of slots.  The interface speaks of the
  multiset of buffered items; an extension adds that they leave in the order they came.  What the two
  sides may rely on is proved once here and holds of both programs through their interpretations.
\<close>

text \<open>
  Runs of a buffer: its state, the items put so far and the items taken so far, each in the order of the
  operations.
\<close>

inductive buf_step :: "('a \<Rightarrow> 's \<Rightarrow> 's option) \<Rightarrow> ('s \<Rightarrow> ('a \<times> 's) option) \<Rightarrow>
    's \<times> 'a list \<times> 'a list \<Rightarrow> 's \<times> 'a list \<times> 'a list \<Rightarrow> bool"
  for put get where
  puts: "put x s = Some s' \<Longrightarrow> buf_step put get (s, ps, gs) (s', ps @ [x], gs)"
| gets: "get s = Some (x, s') \<Longrightarrow> buf_step put get (s, ps, gs) (s', ps, gs @ [x])"

inductive_cases buf_stepE: "buf_step put get (s, ps, gs) t"

locale bounded_buffer =
  fixes inv :: "'s \<Rightarrow> bool"
    and content :: "'s \<Rightarrow> 'a multiset"
    and cap :: nat
    and put :: "'a \<Rightarrow> 's \<Rightarrow> 's option"
    and get :: "'s \<Rightarrow> ('a \<times> 's) option"
  assumes put_law: "inv s \<Longrightarrow> put x s = Some s' \<Longrightarrow> inv s' \<and> content s' = add_mset x (content s)"
    and put_full: "inv s \<Longrightarrow> put x s = None \<longleftrightarrow> size (content s) = cap"
    and get_law: "inv s \<Longrightarrow> get s = Some (x, s') \<Longrightarrow> inv s' \<and> content s = add_mset x (content s')"
    and get_empty: "inv s \<Longrightarrow> get s = None \<longleftrightarrow> content s = {#}"
    and bound: "inv s \<Longrightarrow> size (content s) \<le> cap"
begin

lemma step_conserves:
  assumes "buf_step put get (s, ps, gs) (s', ps', gs')" "inv s" "mset ps = mset gs + content s"
  shows "inv s' \<and> mset ps' = mset gs' + content s'"
  using assms(1)
proof (rule buf_stepE)
  fix x t assume "(s', ps', gs') = (t, ps @ [x], gs)" "put x s = Some t"
  thus ?thesis using put_law[OF assms(2), of x t] assms(3) by simp
next
  fix x t assume "(s', ps', gs') = (t, ps, gs @ [x])" "get s = Some (x, t)"
  thus ?thesis using get_law[OF assms(2), of x t] assms(3) by simp
qed

lemma run_conserves:
  assumes "(buf_step put get)\<^sup>*\<^sup>* (s0, [], []) (s, ps, gs)" "inv s0" "content s0 = {#}"
  shows "inv s \<and> mset ps = mset gs + content s \<and> size (content s) \<le> cap"
proof -
  have "inv (fst t) \<and> mset (fst (snd t)) = mset (snd (snd t)) + content (fst t)"
    if "(buf_step put get)\<^sup>*\<^sup>* (s0, [], []) t" for t
    using that
  proof (induction rule: rtranclp_induct)
    case base
    show ?case using assms(2,3) by simp
  next
    case (step t u)
    thus ?case
      using step_conserves[of "fst t" "fst (snd t)" "snd (snd t)" "fst u" "fst (snd u)" "snd (snd u)"] by simp
  qed
  from this[OF assms(1)] show ?thesis using bound[of s] by simp
qed

end

locale fifo_buffer = bounded_buffer +
  fixes queue :: "'a \<Rightarrow> 'b list"
  assumes content_queue: "inv s \<Longrightarrow> content s = mset (queue s)"
    and put_last: "inv s \<Longrightarrow> put x s = Some s' \<Longrightarrow> queue s' = queue s @ [x]"
    and get_first: "inv s \<Longrightarrow> get s = Some (x, s') \<Longrightarrow> queue s = x # queue s'"
begin

lemma step_order:
  assumes "buf_step put get (s, ps, gs) (s', ps', gs')" "inv s" "ps = gs @ queue s"
  shows "inv s' \<and> ps' = gs' @ queue s'"
  using assms(1)
proof (rule buf_stepE)
  fix x t assume "(s', ps', gs') = (t, ps @ [x], gs)" "put x s = Some t"
  thus ?thesis using put_law[OF assms(2), of x t] put_last[OF assms(2), of x t] assms(3) by simp
next
  fix x t assume "(s', ps', gs') = (t, ps, gs @ [x])" "get s = Some (x, t)"
  thus ?thesis using get_law[OF assms(2), of x t] get_first[OF assms(2), of x t] assms(3) by simp
qed

lemma run_order:
  assumes "(buf_step put get)\<^sup>*\<^sup>* (s, ps, gs) (s', ps', gs')" "inv s" "ps = gs @ queue s"
  shows "inv s' \<and> ps' = gs' @ queue s' \<and> length (queue s') \<le> cap"
proof -
  have "inv (fst t) \<and> fst (snd t) = snd (snd t) @ queue (fst t)"
    if "(buf_step put get)\<^sup>*\<^sup>* (s, ps, gs) t" for t
    using that
  proof (induction rule: rtranclp_induct)
    case base
    show ?case using assms(2,3) by simp
  next
    case (step t u)
    have "buf_step put get (fst t, fst (snd t), snd (snd t)) (fst u, fst (snd u), snd (snd u))" using step(2) by simp
    from step_order[OF this] step(3) show ?case by blast
  qed
  from this[OF assms(1)] have "inv s'" "ps' = gs' @ queue s'" by simp_all
  thus ?thesis using bound[of s'] content_queue[of s'] by simp
qed

end

end
