(* ===== verification/Pipe.thy ===== *)
theory Pipe
  imports Buffers
begin

text \<open>
  Pipes (\<^verbatim>\<open>Project5b/xv6/kernel/pipe.c\<close>): a ring of 512 bytes with two free-running 32-bit
  counters.  \<open>pipewrite\<close> and \<open>piperead\<close> hold the lock of the pipe up to the point where they sleep,
  so a call is a sequence of passes, each one atomic: a pass ends with a return value, or asleep on the
  address of one of the counters.  The bytes to write are given as a list, what a pass of \<open>pipewrite\<close>
  leaves over is written by the pass that resumes it.
\<close>

subsection \<open>Operations\<close>

abbreviation PIPESIZE :: u32 where "PIPESIZE \<equiv> 512"

record pipe =
  pdata :: "u8 list"
  nread :: u32
  nwrite :: u32
  readopen :: bool
  writeopen :: bool

datatype pipe_result = PRet int | PSleep

text \<open>One iteration of the writing loop, when the pipe is not full, and of the reading loop, when it is not empty.\<close>

definition pipe_put :: "u8 \<Rightarrow> pipe \<Rightarrow> pipe option" where
  "pipe_put x p =
     (if nwrite p = nread p + PIPESIZE then None
      else Some (p\<lparr>pdata := (pdata p)[unat (nwrite p mod PIPESIZE) := x], nwrite := nwrite p + 1\<rparr>))"

definition pipe_get :: "pipe \<Rightarrow> (u8 \<times> pipe) option" where
  "pipe_get p =
     (if nread p = nwrite p then None
      else Some (pdata p ! unat (nread p mod PIPESIZE), p\<lparr>nread := nread p + 1\<rparr>))"

text \<open>
  The result of a pass: the value returned or sleep, whether the other side was woken, the bytes left to
  write or the bytes read, and the pipe.
\<close>

fun pipewrite_loop :: "bool \<Rightarrow> int \<Rightarrow> pipe \<Rightarrow> u8 list \<Rightarrow> pipe_result \<times> bool \<times> u8 list \<times> pipe" where
  "pipewrite_loop killed n p [] = (PRet n, True, [], p)"
| "pipewrite_loop killed n p (x # xs) =
     (case pipe_put x p of
        None \<Rightarrow> if \<not> readopen p \<or> killed then (PRet (-1), False, x # xs, p) else (PSleep, True, x # xs, p)
      | Some p1 \<Rightarrow> pipewrite_loop killed n p1 xs)"

definition pipewrite :: "bool \<Rightarrow> pipe \<Rightarrow> u8 list \<Rightarrow> int \<Rightarrow> pipe_result \<times> bool \<times> u8 list \<times> pipe" where
  "pipewrite killed p addr n = pipewrite_loop killed n p (take (nat n) addr)"

fun piperead_loop :: "pipe \<Rightarrow> nat \<Rightarrow> u8 list \<times> pipe" where
  "piperead_loop p 0 = ([], p)"
| "piperead_loop p (Suc n) =
     (case pipe_get p of
        None \<Rightarrow> ([], p)
      | Some (x, p1) \<Rightarrow> (case piperead_loop p1 n of (xs, p2) \<Rightarrow> (x # xs, p2)))"

definition piperead :: "bool \<Rightarrow> pipe \<Rightarrow> int \<Rightarrow> pipe_result \<times> bool \<times> u8 list \<times> pipe" where
  "piperead killed p n =
     (if nread p = nwrite p \<and> writeopen p then (if killed then PRet (-1) else PSleep, False, [], p)
      else case piperead_loop p (nat n) of (xs, p1) \<Rightarrow> (PRet (int (length xs)), True, xs, p1))"

text \<open>\<open>pipeclose\<close> returns whether the page of the pipe is to be freed.\<close>

definition pipeclose :: "pipe \<Rightarrow> bool \<Rightarrow> bool \<times> pipe" where
  "pipeclose p writable =
     (let p1 = (if writable then p\<lparr>writeopen := False\<rparr> else p\<lparr>readopen := False\<rparr>)
      in (\<not> readopen p1 \<and> \<not> writeopen p1, p1))"

subsection \<open>The ring as a queue\<close>

definition pipe_len :: "pipe \<Rightarrow> nat" where
  "pipe_len p = unat (nwrite p - nread p)"

definition pipe_inv :: "pipe \<Rightarrow> bool" where
  "pipe_inv p \<longleftrightarrow> length (pdata p) = 512 \<and> pipe_len p \<le> 512"

definition pipe_queue :: "pipe \<Rightarrow> u8 list" where
  "pipe_queue p = map (\<lambda>k. pdata p ! unat ((nread p + of_nat k) mod PIPESIZE)) [0..<pipe_len p]"

lemma unat_mod_512: "unat ((a :: u32) mod 512) = unat a mod 512"
  by (simp add: unat_mod_distrib)

lemma slot_bound: "unat ((a :: u32) mod 512) < 512"
  by (simp add: unat_mod_512)

lemma slot_add: "unat ((a + of_nat k :: u32) mod 512) = (unat a + k) mod 512"
proof -
  have "unat (a + of_nat k :: u32) mod 512 = ((unat a + k) mod 2 ^ 32) mod 512"
    by (simp add: unat_word_ariths unat_of_nat mod_add_right_eq)
  also have "\<dots> = (unat a + k) mod 512" by (rule mod_mod_cancel) simp
  finally show ?thesis by (simp add: unat_mod_512)
qed

lemma nwrite_len: "nwrite p = nread p + of_nat (pipe_len p)"
  by (simp add: pipe_len_def)

lemma full_len: "pipe_inv p \<Longrightarrow> nwrite p = nread p + PIPESIZE \<longleftrightarrow> pipe_len p = 512"
proof -
  have "nwrite p = nread p + PIPESIZE \<longleftrightarrow> nwrite p - nread p = (512 :: u32)" by (simp add: diff_eq_eq add.commute)
  also have "\<dots> \<longleftrightarrow> pipe_len p = 512" by (simp add: pipe_len_def word_unat_eq_iff)
  finally show ?thesis .
qed

lemma empty_len: "nread p = nwrite p \<longleftrightarrow> pipe_len p = 0"
  by (auto simp: pipe_len_def unat_eq_0)

lemma queue_length [simp]: "length (pipe_queue p) = pipe_len p"
  by (simp add: pipe_queue_def)

lemma slots_differ: "k < l \<Longrightarrow> l < 512 \<Longrightarrow> (a + k) mod 512 \<noteq> (a + l) mod (512 :: nat)"
proof
  assume h: "k < l" "l < 512" "(a + k) mod 512 = (a + l) mod 512"
  hence "512 dvd (a + l) - (a + k)" by (metis mod_eq_dvd_iff_nat add_left_mono less_imp_le)
  thus False using h by (auto dest: dvd_imp_le)
qed

lemma put_len: "pipe_inv p \<Longrightarrow> pipe_put x p = Some p' \<Longrightarrow> pipe_len p < 512 \<and> pipe_len p' = Suc (pipe_len p)"
proof -
  assume h: "pipe_inv p" "pipe_put x p = Some p'"
  have l: "pipe_len p < 512" using h full_len[OF h(1)] by (auto simp: pipe_put_def pipe_inv_def split: if_splits)
  have "nwrite p' - nread p' = of_nat (Suc (pipe_len p))"
    using h(2) nwrite_len[of p] by (auto simp: pipe_put_def algebra_simps split: if_splits)
  thus ?thesis using l by (simp add: pipe_len_def[of p'] unat_of_nat del: of_nat_Suc)
qed

lemma get_len: "pipe_get p = Some (x, p') \<Longrightarrow> pipe_len p = Suc (pipe_len p')"
proof -
  assume h: "pipe_get p = Some (x, p')"
  have l: "pipe_len p \<noteq> 0" using h empty_len[of p] by (auto simp: pipe_get_def split: if_splits)
  have b: "pipe_len p < 2 ^ 32" using unat_lt32 by (simp add: pipe_len_def)
  have "nwrite p' - nread p' = of_nat (pipe_len p) - 1"
    using h nwrite_len[of p] by (auto simp: pipe_get_def algebra_simps split: if_splits)
  also have "\<dots> = of_nat (pipe_len p - 1)" using l by simp
  finally have e: "nwrite p' - nread p' = of_nat (pipe_len p - 1)" .
  have "pipe_len p' = pipe_len p - 1" unfolding pipe_len_def[of p'] e by (rule unat_of_nat32) (use b in simp)
  thus ?thesis using l by simp
qed

lemma put_queue_end:
  assumes "pipe_inv p" "pipe_put x p = Some p'"
  shows "pipe_queue p' = pipe_queue p @ [x]"
proof -
  have l: "pipe_len p < 512" "pipe_len p' = Suc (pipe_len p)" using put_len[OF assms] by auto
  have p': "nread p' = nread p" "pdata p' = (pdata p)[unat (nwrite p mod PIPESIZE) := x]"
    using assms(2) by (auto simp: pipe_put_def split: if_splits)
  have w: "unat (nwrite p mod PIPESIZE) = (unat (nread p) + pipe_len p) mod 512"
    using slot_add[of "nread p" "pipe_len p"] nwrite_len[of p] by simp
  have len: "length (pdata p) = 512" using assms(1) by (simp add: pipe_inv_def)
  have "pdata p' ! ((unat (nread p) + k) mod 512) = pdata p ! ((unat (nread p) + k) mod 512)" if "k < pipe_len p" for k
    using slots_differ[of k "pipe_len p" "unat (nread p)"] that l(1) unfolding p'(2) w by simp
  hence old: "map (\<lambda>k. pdata p' ! ((unat (nread p) + k) mod 512)) [0..<pipe_len p] = map (\<lambda>k. pdata p ! ((unat (nread p) + k) mod 512)) [0..<pipe_len p]"
    by (intro map_cong) auto
  have new: "pdata p' ! ((unat (nread p) + pipe_len p) mod 512) = x" unfolding p'(2) w using len by simp
  show ?thesis unfolding pipe_queue_def l(2) p'(1) slot_add upt_Suc using old new by simp
qed

lemma get_queue_front:
  assumes "pipe_get p = Some (x, p')"
  shows "pipe_queue p = x # pipe_queue p'"
proof -
  have p': "nread p' = nread p + 1" "pdata p' = pdata p" "x = pdata p ! unat (nread p mod PIPESIZE)"
    using assms by (auto simp: pipe_get_def split: if_splits)
  have "[0..<Suc (pipe_len p')] = 0 # map Suc [0..<pipe_len p']" by (simp add: upt_conv_Cons map_Suc_upt del: upt_Suc)
  thus ?thesis unfolding pipe_queue_def get_len[OF assms] p' by (simp add: comp_def add.assoc del: upt_Suc)
qed

lemma put_inv: "pipe_inv p \<Longrightarrow> pipe_put x p = Some p' \<Longrightarrow> pipe_inv p'"
  using put_len[of p x p'] by (auto simp: pipe_inv_def pipe_put_def split: if_splits)

lemma get_inv: "pipe_inv p \<Longrightarrow> pipe_get p = Some (x, p') \<Longrightarrow> pipe_inv p'"
  using get_len[of p x p'] by (auto simp: pipe_inv_def pipe_get_def split: if_splits)

interpretation kpipe: fifo_buffer pipe_inv "\<lambda>p. mset (pipe_queue p)" 512 pipe_put pipe_get pipe_queue
proof (unfold_locales)
  fix p :: pipe assume i: "pipe_inv p"
  show "size (mset (pipe_queue p)) \<le> 512" using i by (simp add: pipe_inv_def)
  show "pipe_put x p = None \<longleftrightarrow> size (mset (pipe_queue p)) = 512" for x
    using full_len[OF i] by (simp add: pipe_put_def)
  show "pipe_get p = None \<longleftrightarrow> mset (pipe_queue p) = {#}"
    using empty_len[of p] by (simp add: pipe_get_def flip: length_0_conv)
  fix x p' assume a: "pipe_put x p = Some p'"
  show "pipe_inv p' \<and> mset (pipe_queue p') = add_mset x (mset (pipe_queue p))" "pipe_queue p' = pipe_queue p @ [x]"
    using put_inv[OF i a] put_queue_end[OF i a] by simp_all
next
  fix p x p' assume i: "pipe_inv p" and a: "pipe_get p = Some (x, p')"
  show "pipe_inv p' \<and> mset (pipe_queue p) = add_mset x (mset (pipe_queue p'))" "pipe_queue p = x # pipe_queue p'"
    using get_inv[OF i a] get_queue_front[OF a] by simp_all
qed simp

subsection \<open>Readers and writers\<close>

text \<open>
  A pipe with the processes asleep in \<open>piperead\<close> (on \<open>&p->nread\<close>) and in \<open>pipewrite\<close> (on \<open>&p->nwrite\<close>),
  and the bytes that were written to it and read from it.  A process that is not asleep may run any
  pass on an end it holds open, and an end is closed only by its last holder, when nobody sleeps on that
  side; the processes in \<open>K\<close> have been killed, which also ends their sleep.
\<close>

record pipesys =
  pp :: pipe
  rsleep :: "nat set"
  wsleep :: "nat set"
  sent :: "u8 list"
  got :: "u8 list"

inductive pipe_step :: "nat set \<Rightarrow> pipesys \<Rightarrow> pipesys \<Rightarrow> bool" for K where
  wr_pass: "c \<notin> rsleep s \<union> wsleep s \<Longrightarrow> writeopen (pp s) \<Longrightarrow> pipewrite_loop (c \<in> K) n (pp s) xs = (r, wake, rem, p') \<Longrightarrow>
    pipe_step K s (s\<lparr>pp := p', sent := sent s @ take (length xs - length rem) xs,
      rsleep := (if wake then {} else rsleep s), wsleep := (if r = PSleep then insert c (wsleep s) else wsleep s)\<rparr>)"
| rd_pass: "c \<notin> rsleep s \<union> wsleep s \<Longrightarrow> readopen (pp s) \<Longrightarrow> piperead (c \<in> K) (pp s) n = (r, wake, xs, p') \<Longrightarrow>
    pipe_step K s (s\<lparr>pp := p', got := got s @ xs,
      wsleep := (if wake then {} else wsleep s), rsleep := (if r = PSleep then insert c (rsleep s) else rsleep s)\<rparr>)"
| close_end: "(if w then wsleep s else rsleep s) = {} \<Longrightarrow> pipeclose (pp s) w = (fr, p') \<Longrightarrow>
    pipe_step K s (s\<lparr>pp := p', rsleep := (if w then {} else rsleep s), wsleep := (if w then wsleep s else {})\<rparr>)"
| killed: "c \<in> K \<Longrightarrow> pipe_step K s (s\<lparr>rsleep := rsleep s - {c}, wsleep := wsleep s - {c}\<rparr>)"

lemma put_ends [simp]: "pipe_put x p = Some p' \<Longrightarrow> readopen p' = readopen p \<and> writeopen p' = writeopen p"
  by (auto simp: pipe_put_def split: if_splits)

lemma get_ends [simp]: "pipe_get p = Some (x, p') \<Longrightarrow> readopen p' = readopen p \<and> writeopen p' = writeopen p"
  by (auto simp: pipe_get_def split: if_splits)

lemma pipewrite_loop_run:
  assumes "pipewrite_loop k n p xs = (r, wake, rem, p')"
  shows "(buf_step pipe_put pipe_get)\<^sup>*\<^sup>* (p, ps, gs) (p', ps @ take (length xs - length rem) xs, gs) \<and>
    length rem \<le> length xs \<and> (readopen p' = readopen p \<and> writeopen p' = writeopen p) \<and>
    (wake = (rem = [] \<or> r = PSleep)) \<and> (r = PSleep \<longrightarrow> readopen p \<and> \<not> k) \<and>
    (rem \<noteq> [] \<longrightarrow> nwrite p' = nread p' + PIPESIZE \<and> (r = PSleep \<or> \<not> readopen p \<or> k)) \<and> (rem = [] \<longrightarrow> r = PRet n)"
  using assms
proof (induction xs arbitrary: p ps)
  case Nil
  thus ?case by auto
next
  case (Cons x xs)
  show ?case
  proof (cases "pipe_put x p")
    case None
    thus ?thesis using Cons.prems by (auto simp: pipe_put_def split: if_splits)
  next
    case (Some q)
    have l: "pipewrite_loop k n q xs = (r, wake, rem, p')" using Cons.prems Some by simp
    note ih = Cons.IH[OF l, of "ps @ [x]"]
    have "buf_step pipe_put pipe_get (p, ps, gs) (q, ps @ [x], gs)" using Some by (rule buf_step.puts)
    moreover have "take (length (x # xs) - length rem) (x # xs) = x # take (length xs - length rem) xs"
      using ih by (simp add: Suc_diff_le)
    ultimately show ?thesis using ih put_ends[OF Some] by (auto intro: converse_rtranclp_into_rtranclp)
  qed
qed

lemma piperead_loop_run:
  assumes "piperead_loop p n = (xs, p')"
  shows "(buf_step pipe_put pipe_get)\<^sup>*\<^sup>* (p, ps, gs) (p', ps, gs @ xs) \<and> readopen p' = readopen p \<and> writeopen p' = writeopen p"
  using assms
proof (induction n arbitrary: p gs xs)
  case 0
  thus ?case by simp
next
  case (Suc n)
  show ?case
  proof (cases "pipe_get p")
    case None
    thus ?thesis using Suc.prems by simp
  next
    case (Some a)
    then obtain x q ys where g: "pipe_get p = Some (x, q)" "piperead_loop q n = (ys, p')" "xs = x # ys"
      using Suc.prems by (cases a) (auto split: prod.splits)
    have "buf_step pipe_put pipe_get (p, ps, gs) (q, ps, gs @ [x])" using g(1) by (rule buf_step.gets)
    thus ?thesis using Suc.IH[OF g(2), of "gs @ [x]"] get_ends[OF g(1)] g(3) by (auto intro: converse_rtranclp_into_rtranclp)
  qed
qed

lemma piperead_run:
  assumes "piperead k p n = (r, wake, xs, p')"
  shows "(buf_step pipe_put pipe_get)\<^sup>*\<^sup>* (p, ps, gs) (p', ps, gs @ xs) \<and> readopen p' = readopen p \<and> writeopen p' = writeopen p \<and>
    (\<not> wake \<longrightarrow> p' = p) \<and> (r = PSleep \<longrightarrow> nread p = nwrite p \<and> writeopen p \<and> \<not> wake)"
  using assms piperead_loop_run[of p "nat n" xs p' ps gs] by (auto simp: piperead_def split: if_splits prod.splits)

lemma pipeclose_ends:
  assumes "pipeclose p w = (fr, p')"
  shows "pipe_queue p' = pipe_queue p" "pipe_inv p' = pipe_inv p" "readopen p' = (readopen p \<and> w)" "writeopen p' = (writeopen p \<and> \<not> w)"
    "fr = (\<not> readopen p' \<and> \<not> writeopen p')"
  using assms by (auto simp: pipeclose_def pipe_queue_def pipe_inv_def pipe_len_def Let_def split: if_splits)

definition pipe_flow :: "pipesys \<Rightarrow> bool" where
  "pipe_flow s \<longleftrightarrow> pipe_inv (pp s) \<and> sent s = got s @ pipe_queue (pp s)"

lemma pipe_step_flow:
  assumes "pipe_step K s s'" "pipe_flow s"
  shows "pipe_flow s'"
  using assms(1)
proof cases
  case (wr_pass c n xs r wake rem p')
  from kpipe.run_order[OF conjunct1[OF pipewrite_loop_run[OF wr_pass(4), of "sent s" "got s"]]] assms(2) show ?thesis
    by (simp add: wr_pass(1) pipe_flow_def)
next
  case (rd_pass c n r wake xs p')
  from kpipe.run_order[OF conjunct1[OF piperead_run[OF rd_pass(4), of "sent s" "got s"]]] assms(2) show ?thesis
    by (simp add: rd_pass(1) pipe_flow_def)
next
  case (close_end w fr p')
  thus ?thesis using pipeclose_ends[OF close_end(3)] assms(2) by (simp add: pipe_flow_def)
next
  case (killed c)
  thus ?thesis using assms(2) by (simp add: pipe_flow_def)
qed

text \<open>
  C19: a pipe is a first-in first-out channel.  Whatever passes of writers, readers and closers interleave,
  killed ones included, the bytes read are the first bytes written, in order, and the rest, at
  most 512 bytes, is what the ring holds, also when the 32-bit counters have wrapped around.
\<close>

theorem pipe_fifo:
  assumes "(pipe_step K)\<^sup>*\<^sup>* s s'" "length (pdata (pp s)) = 512" "nread (pp s) = nwrite (pp s)" "sent s = []" "got s = []"
  shows "sent s' = got s' @ pipe_queue (pp s') \<and> length (pipe_queue (pp s')) \<le> 512"
proof -
  have "pipe_len (pp s) = 0" using assms(3) empty_len by blast
  hence "pipe_flow s" using assms by (simp add: pipe_flow_def pipe_inv_def pipe_queue_def)
  with assms(1) have "pipe_flow s'" by (induction rule: rtranclp_induct) (auto intro: pipe_step_flow)
  thus ?thesis by (simp add: pipe_flow_def pipe_inv_def)
qed

text \<open>Witness for C19: a writer sends four bytes and a reader takes three of them.\<close>

definition demo_pipe :: pipe where
  "demo_pipe = \<lparr>pdata = replicate 512 7, nread = 0, nwrite = 0, readopen = True, writeopen = True\<rparr>"

definition demo_pipesys :: pipesys where
  "demo_pipesys = \<lparr>pp = demo_pipe, rsleep = {}, wsleep = {}, sent = [], got = []\<rparr>"

lemma demo_pipe_run:
  "\<exists>s :: pipesys. (pipe_step {})\<^sup>*\<^sup>* demo_pipesys s \<and> sent s = [1, 2, 3, 4] \<and> got s = [1, 2, 3]"
proof -
  let ?p1 = "demo_pipe\<lparr>pdata := (replicate 512 7)[0 := 1, 1 := 2, 2 := 3, 3 := 4], nwrite := 4\<rparr>"
  let ?s1 = "demo_pipesys\<lparr>pp := ?p1, sent := [1, 2, 3, 4]\<rparr>"
  have three: "nat 3 = Suc (Suc (Suc 0))" by simp
  have w: "pipewrite_loop False 4 demo_pipe [1, 2, 3, 4] = (PRet 4, True, [], ?p1)"
    by (simp add: pipe_put_def demo_pipe_def unat_mod_512)
  have "pipe_step {} demo_pipesys ?s1"
    using pipe_step.wr_pass[of 0 demo_pipesys "{}" 4 "[1, 2, 3, 4]" "PRet 4" True "[]" ?p1] w
    by (simp add: demo_pipesys_def demo_pipe_def)
  moreover have r: "piperead False ?p1 3 = (PRet 3, True, [1, 2, 3], ?p1\<lparr>nread := 3\<rparr>)"
    unfolding piperead_def three by (simp add: pipe_get_def demo_pipe_def unat_mod_512)
  moreover have "pipe_step {} ?s1 (?s1\<lparr>pp := ?p1\<lparr>nread := 3\<rparr>, got := [1, 2, 3]\<rparr>)"
    using pipe_step.rd_pass[of 0 ?s1 "{}" 3 "PRet 3" True "[1, 2, 3]" "?p1\<lparr>nread := 3\<rparr>"] r
    by (simp add: demo_pipesys_def demo_pipe_def)
  ultimately have "(pipe_step {})\<^sup>*\<^sup>* demo_pipesys (?s1\<lparr>pp := ?p1\<lparr>nread := 3\<rparr>, got := [1, 2, 3]\<rparr>)" by simp
  thus ?thesis by (intro exI conjI) auto
qed

theorem pipe_fifo_witness: "\<exists>s :: pipesys. pipe_queue (pp s) = [4] \<and> got s = [1, 2, 3]"
proof -
  from demo_pipe_run obtain s where s: "(pipe_step {})\<^sup>*\<^sup>* demo_pipesys s" "sent s = [1, 2, 3, 4]" "got s = [1, 2, 3]" by blast
  from pipe_fifo[OF s(1)] s(2,3) have "pipe_queue (pp s) = [4]" by (simp add: demo_pipesys_def demo_pipe_def)
  with s(3) show ?thesis by blast
qed

definition pipe_calm :: "pipesys \<Rightarrow> bool" where
  "pipe_calm s \<longleftrightarrow> pipe_inv (pp s) \<and> (rsleep s \<noteq> {} \<longrightarrow> pipe_len (pp s) = 0 \<and> readopen (pp s) \<and> writeopen (pp s)) \<and>
     (wsleep s \<noteq> {} \<longrightarrow> pipe_len (pp s) = 512 \<and> readopen (pp s) \<and> writeopen (pp s))"

lemma run_pipe_inv: "(buf_step pipe_put pipe_get)\<^sup>*\<^sup>* (p, pipe_queue p, []) (p', ps', gs') \<Longrightarrow> pipe_inv p \<Longrightarrow> pipe_inv p'"
  using kpipe.run_order[of p "pipe_queue p" "[]" p' ps' gs'] by simp

lemma pipe_step_calm:
  assumes "pipe_step {} s s'" "pipe_calm s"
  shows "pipe_calm s'"
  using assms(1)
proof cases
  case (wr_pass c n xs r wake rem p')
  note run = pipewrite_loop_run[OF wr_pass(4), of "pipe_queue (pp s)" "[]"]
  have i: "pipe_inv p'" using run_pipe_inv conjunct1[OF run] assms(2) by (auto simp: pipe_calm_def)
  have "rem \<noteq> [] \<Longrightarrow> pipe_len p' = 512" using run full_len[OF i] by blast
  moreover have "rem = [] \<Longrightarrow> r \<noteq> PSleep" using run by auto
  moreover have "rem \<noteq> []" if ws: "wsleep s \<noteq> {}" and ne: "xs \<noteq> []"
  proof -
    obtain y ys where xs: "xs = y # ys" using ne by (cases xs) auto
    have "pipe_put y (pp s) = None" using ws assms(2) full_len[of "pp s"] by (simp add: pipe_calm_def pipe_put_def)
    thus ?thesis using wr_pass(4) unfolding xs by (auto split: if_splits)
  qed
  moreover have "xs = [] \<Longrightarrow> p' = pp s" using wr_pass(4) by auto
  moreover have "\<not> wake \<Longrightarrow> \<not> readopen (pp s)" using run by auto
  ultimately show ?thesis using run i assms(2) wr_pass(1,3) by (auto simp: pipe_calm_def split: if_splits)
next
  case (rd_pass c n r wake xs p')
  note run = piperead_run[OF rd_pass(4), of "pipe_queue (pp s)" "[]"]
  have i: "pipe_inv p'" using run_pipe_inv conjunct1[OF run] assms(2) by (auto simp: pipe_calm_def)
  have "r = PSleep \<Longrightarrow> pipe_len (pp s) = 0" using run empty_len[of "pp s"] by auto
  moreover have "p' = pp s" if rs: "rsleep s \<noteq> {}"
  proof -
    have "nread (pp s) = nwrite (pp s) \<and> writeopen (pp s)" using rs assms(2) empty_len[of "pp s"] by (simp add: pipe_calm_def)
    thus ?thesis using rd_pass(4) by (auto simp: piperead_def)
  qed
  ultimately show ?thesis using run i assms(2) rd_pass(1,3) by (auto simp: pipe_calm_def split: if_splits)
next
  case (close_end w fr p')
  have "pipe_len p' = pipe_len (pp s)" using arg_cong[OF pipeclose_ends(1)[OF close_end(3)], of length] by simp
  thus ?thesis using pipeclose_ends[OF close_end(3)] assms(2) close_end(1,2) by (auto simp: pipe_calm_def split: if_splits)
next
  case (killed c)
  thus ?thesis by simp
qed

text \<open>
  C20: no wakeup is lost on a pipe.  As long as no process is killed, a process that sleeps in
  \<open>piperead\<close> finds the pipe empty with the write end open, one that sleeps in \<open>pipewrite\<close> finds it full with the read
  end open, and the two sides never sleep at the same time.
\<close>

theorem pipe_no_lost_wakeup:
  assumes "(pipe_step {})\<^sup>*\<^sup>* s s'" "length (pdata (pp s)) = 512" "nread (pp s) = nwrite (pp s)" "rsleep s = {}" "wsleep s = {}"
  shows "(rsleep s' \<noteq> {} \<longrightarrow> pipe_queue (pp s') = [] \<and> writeopen (pp s')) \<and>
    (wsleep s' \<noteq> {} \<longrightarrow> length (pipe_queue (pp s')) = 512 \<and> readopen (pp s')) \<and> (rsleep s' = {} \<or> wsleep s' = {})"
proof -
  have "pipe_len (pp s) = 0" using assms(3) empty_len by blast
  hence "pipe_calm s" using assms by (simp add: pipe_calm_def pipe_inv_def)
  with assms(1) have "pipe_calm s'" by (induction rule: rtranclp_induct) (auto intro: pipe_step_calm)
  thus ?thesis by (auto simp: pipe_calm_def simp flip: length_0_conv)
qed

text \<open>Witness for C20: a reader falls asleep on the empty pipe.\<close>

theorem pipe_no_lost_wakeup_witness: "\<exists>s :: pipesys. rsleep s = {3} \<and> pipe_queue (pp s) = [] \<and> wsleep s = {}"
proof -
  have r: "piperead False demo_pipe 10 = (PSleep, False, [], demo_pipe)" by (simp add: piperead_def demo_pipe_def)
  have "pipe_step {} demo_pipesys (demo_pipesys\<lparr>rsleep := {3}\<rparr>)"
    using pipe_step.rd_pass[of 3 demo_pipesys "{}" 10 PSleep False "[]" demo_pipe] r
    by (simp add: demo_pipesys_def demo_pipe_def)
  hence run: "(pipe_step {})\<^sup>*\<^sup>* demo_pipesys (demo_pipesys\<lparr>rsleep := {3}\<rparr>)" by simp
  from pipe_no_lost_wakeup[OF run] show ?thesis
    by (intro exI[of _ "demo_pipesys\<lparr>rsleep := {3}\<rparr>"]) (auto simp: demo_pipesys_def demo_pipe_def)
qed

text \<open>
  With a killed writer a wakeup can be lost: it fills the pipe, finds it full, and returns without waking
  the readers, which stay asleep with 512 bytes to read.
\<close>

lemma killed_writer_wakes_nobody:
  assumes "pipe_inv p" "pipe_len p + length xs > 512" "pipewrite_loop True n p xs = (r, wake, rem, p')"
  shows "r = PRet (-1) \<and> \<not> wake \<and> pipe_len p' = 512"
proof -
  note run = pipewrite_loop_run[OF assms(3), of "pipe_queue p" "[]"]
  from kpipe.run_order[OF conjunct1[OF run] assms(1)]
  have i: "pipe_inv p'" and q: "pipe_queue p @ take (length xs - length rem) xs = pipe_queue p'" by simp_all
  have "length (pipe_queue p @ take (length xs - length rem) xs) = pipe_len p'" unfolding q by simp
  hence "rem \<noteq> []" using assms(2) i by (auto simp: pipe_inv_def)
  moreover have "r \<noteq> PSleep" using run by auto
  moreover have "rem \<noteq> [] \<Longrightarrow> r \<noteq> PSleep \<Longrightarrow> r = PRet (-1)" using assms(3)
    by (induction xs arbitrary: p) (auto split: option.splits if_splits)
  ultimately show ?thesis using run full_len[OF i] by auto
qed

end
