(* ===== verification/File.thy ===== *)
theory File
  imports Fs Pipe Kalloc Syscall
begin

text \<open>
  The table of open files (\<^verbatim>\<open>Project5b/xv6/kernel/file.c\<close>), the creation of pipes
  (\<open>pipealloc\<close> of \<^verbatim>\<open>pipe.c\<close>) and the system calls on descriptors and paths
  (\<^verbatim>\<open>sysfile.c\<close>).  The state is the file table, the pipes by the address of their page, the page
  allocator, the file system, and of each process its descriptors, current directory and \<open>killed\<close> flag.
  A pointer to an open file is its slot in the table.  The calls take the results of \<open>argint\<close>, \<open>argptr\<close>
  and \<open>argstr\<close> as arguments, with \<open>None\<close> for their -1.  An outer \<open>None\<close> is a panic.
\<close>

subsection \<open>State\<close>

datatype ftype = FD_NONE | FD_PIPE | FD_INODE

record kfile =
  f_type :: ftype
  f_ref :: int
  f_readable :: bool
  f_writable :: bool
  f_pipe :: u32
  f_ip :: nat
  f_off :: u32

record fproc =
  fds :: "nat option list"
  fcwd :: nat
  fkilled :: bool

record filest =
  ftable :: "kfile list"
  pipes :: "u32 \<Rightarrow> pipe option"
  fkm :: kmem
  ffs :: fsst
  fprocs :: "fproc list"

abbreviation NOFILE :: nat where "NOFILE \<equiv> 16"
abbreviation NFILE :: nat where "NFILE \<equiv> 100"

definition fupd :: "filest \<Rightarrow> nat \<Rightarrow> (kfile \<Rightarrow> kfile) \<Rightarrow> filest" where
  "fupd s i g = s\<lparr>ftable := (ftable s)[i := g (ftable s ! i)]\<rparr>"

definition set_fd :: "filest \<Rightarrow> nat \<Rightarrow> nat \<Rightarrow> nat option \<Rightarrow> filest" where
  "set_fd s c fd v = s\<lparr>fprocs := (fprocs s)[c := (fprocs s ! c)\<lparr>fds := (fds (fprocs s ! c))[fd := v]\<rparr>]\<rparr>"

subsection \<open>Open files\<close>

definition filealloc :: "filest \<Rightarrow> nat option \<times> filest" where
  "filealloc s =
     (case first_idx (\<lambda>f. f_ref f = 0) (ftable s) of
        None \<Rightarrow> (None, s)
      | Some i \<Rightarrow> (Some i, fupd s i (\<lambda>f. f\<lparr>f_ref := 1\<rparr>)))"

definition filedup :: "filest \<Rightarrow> nat \<Rightarrow> filest option" where
  "filedup s i = (if f_ref (ftable s ! i) < 1 then None else Some (fupd s i (\<lambda>f. f\<lparr>f_ref := f_ref f + 1\<rparr>)))"

definition close_pipe_end :: "u32 \<Rightarrow> filest \<Rightarrow> u32 \<Rightarrow> bool \<Rightarrow> filest option" where
  "close_pipe_end kend s q w =
     (case pipes s q of
        None \<Rightarrow> None
      | Some p \<Rightarrow>
          (case pipeclose p w of (fr, p1) \<Rightarrow>
             if fr then map_option (\<lambda>km. s\<lparr>pipes := (pipes s)(q := None), fkm := km\<rparr>) (kfree kend (fkm s) q)
             else Some (s\<lparr>pipes := (pipes s)(q := Some p1)\<rparr>)))"

definition fileclose :: "u32 \<Rightarrow> filest \<Rightarrow> nat \<Rightarrow> filest option" where
  "fileclose kend s i =
     (let ff = ftable s ! i
      in if f_ref ff < 1 then None
         else if f_ref ff - 1 > 0 then Some (fupd s i (\<lambda>f. f\<lparr>f_ref := f_ref f - 1\<rparr>))
         else let s1 = fupd s i (\<lambda>f. f\<lparr>f_ref := 0, f_type := FD_NONE\<rparr>)
              in case f_type ff of
                   FD_PIPE \<Rightarrow> close_pipe_end kend s1 (f_pipe ff) (f_writable ff)
                 | FD_INODE \<Rightarrow> map_option (\<lambda>x. s1\<lparr>ffs := x\<rparr>) (iput (ffs s1) (f_ip ff))
                 | FD_NONE \<Rightarrow> Some s1)"

definition filestat :: "filest \<Rightarrow> nat \<Rightarrow> stat \<Rightarrow> (int \<times> stat \<times> filest) option" where
  "filestat s i st =
     (let f = ftable s ! i
      in if f_type f = FD_INODE then do {
           x1 \<leftarrow> ilock (ffs s) (f_ip f);
           let st1 = stati x1 (f_ip f) st;
           x2 \<leftarrow> iunlock x1 (f_ip f);
           Some (0, st1, s\<lparr>ffs := x2\<rparr>)
         } else Some (-1, st, s))"

text \<open>
  Reading and writing return a result of the pipe layer, so that a sleep in a pipe shows; the bytes read
  are what is copied to the caller's buffer.
\<close>

definition fileread :: "devsw \<Rightarrow> bool \<Rightarrow> filest \<Rightarrow> nat \<Rightarrow> int \<Rightarrow> (pipe_result \<times> u8 list \<times> filest) option" where
  "fileread dv killed s i n =
     (let f = ftable s ! i
      in if \<not> f_readable f then Some (PRet (-1), [], s)
         else case f_type f of
                FD_PIPE \<Rightarrow>
                  (case pipes s (f_pipe f) of
                     None \<Rightarrow> None
                   | Some p \<Rightarrow> (case piperead killed p n of (r, w, xs, p1) \<Rightarrow> Some (r, xs, s\<lparr>pipes := (pipes s)(f_pipe f := Some p1)\<rparr>)))
              | FD_INODE \<Rightarrow> do {
                  x1 \<leftarrow> ilock (ffs s) (f_ip f);
                  (r, xs, x2) \<leftarrow> readi dv x1 (f_ip f) (f_off f) (word_of_int n);
                  x3 \<leftarrow> iunlock x2 (f_ip f);
                  Some (PRet r, xs, fupd (s\<lparr>ffs := x3\<rparr>) i (\<lambda>f. if r > 0 then f\<lparr>f_off := f_off f + word_of_int r\<rparr> else f))
                }
              | FD_NONE \<Rightarrow> None)"

definition filewrite :: "devsw \<Rightarrow> bool \<Rightarrow> filest \<Rightarrow> nat \<Rightarrow> u8 list \<Rightarrow> int \<Rightarrow> (pipe_result \<times> u8 list \<times> filest) option" where
  "filewrite dv killed s i src n =
     (let f = ftable s ! i
      in if \<not> f_writable f then Some (PRet (-1), [], s)
         else case f_type f of
                FD_PIPE \<Rightarrow>
                  (case pipes s (f_pipe f) of
                     None \<Rightarrow> None
                   | Some p \<Rightarrow> (case pipewrite killed p src n of (r, w, rest, p1) \<Rightarrow> Some (r, rest, s\<lparr>pipes := (pipes s)(f_pipe f := Some p1)\<rparr>)))
              | FD_INODE \<Rightarrow> do {
                  x1 \<leftarrow> ilock (ffs s) (f_ip f);
                  (r, x2) \<leftarrow> writei dv x1 (f_ip f) src (f_off f) (word_of_int n);
                  x3 \<leftarrow> iunlock x2 (f_ip f);
                  Some (PRet r, [], fupd (s\<lparr>ffs := x3\<rparr>) i (\<lambda>f. if r > 0 then f\<lparr>f_off := f_off f + word_of_int r\<rparr> else f))
                }
              | FD_NONE \<Rightarrow> None)"

text \<open>
  \<open>pipealloc\<close>: the result is the pair of files, \<open>Some None\<close> for -1.  The ring of the new pipe starts as the bytes
  of its page behind the lock (52 bytes).
\<close>

definition new_pipe :: "kmem \<Rightarrow> u32 \<Rightarrow> pipe" where
  "new_pipe km q = \<lparr>pdata = map (\<lambda>k. kbytes km (q + 52 + of_nat k)) [0..<512], nread = 0, nwrite = 0, readopen = True, writeopen = True\<rparr>"

definition pipealloc :: "u32 \<Rightarrow> filest \<Rightarrow> ((nat \<times> nat) option \<times> filest) option" where
  "pipealloc kend s =
     (case filealloc s of
        (None, s1) \<Rightarrow> Some (None, s1)
      | (Some f0, s1) \<Rightarrow>
          (case filealloc s1 of
             (None, s2) \<Rightarrow> map_option (Pair None) (fileclose kend s2 f0)
           | (Some f1, s2) \<Rightarrow>
               (case kalloc (fkm s2) of (q, km) \<Rightarrow>
                  if q = 0 then do {
                    s3 \<leftarrow> fileclose kend (s2\<lparr>fkm := km\<rparr>) f0;
                    s4 \<leftarrow> fileclose kend s3 f1;
                    Some (None, s4)
                  } else
                    let s3 = s2\<lparr>fkm := km, pipes := (pipes s2)(q := Some (new_pipe km q))\<rparr>;
                        s4 = fupd s3 f0 (\<lambda>f. f\<lparr>f_type := FD_PIPE, f_readable := True, f_writable := False, f_pipe := q\<rparr>)
                    in Some (Some (f0, f1), fupd s4 f1 (\<lambda>f. f\<lparr>f_type := FD_PIPE, f_readable := False, f_writable := True, f_pipe := q\<rparr>)))))"

subsection \<open>Descriptors\<close>

definition argfd :: "filest \<Rightarrow> nat \<Rightarrow> u32 option \<Rightarrow> (nat \<times> nat) option" where
  "argfd s c a =
     (case a of
        None \<Rightarrow> None
      | Some w \<Rightarrow>
          if sint w < 0 \<or> sint w \<ge> int NOFILE then None
          else map_option (Pair (nat (sint w))) (fds (fprocs s ! c) ! nat (sint w)))"

definition fdalloc :: "filest \<Rightarrow> nat \<Rightarrow> nat \<Rightarrow> nat option \<times> filest" where
  "fdalloc s c f =
     (case first_idx (\<lambda>x. x = None) (fds (fprocs s ! c)) of
        None \<Rightarrow> (None, s)
      | Some fd \<Rightarrow> (Some fd, set_fd s c fd (Some f)))"

definition sys_dup :: "filest \<Rightarrow> nat \<Rightarrow> u32 option \<Rightarrow> (int \<times> filest) option" where
  "sys_dup s c a =
     (case argfd s c a of
        None \<Rightarrow> Some (-1, s)
      | Some (_, f) \<Rightarrow>
          (case fdalloc s c f of
             (None, s1) \<Rightarrow> Some (-1, s1)
           | (Some fd, s1) \<Rightarrow> map_option (Pair (int fd)) (filedup s1 f)))"

definition sys_close :: "u32 \<Rightarrow> filest \<Rightarrow> nat \<Rightarrow> u32 option \<Rightarrow> (int \<times> filest) option" where
  "sys_close kend s c a =
     (case argfd s c a of
        None \<Rightarrow> Some (-1, s)
      | Some (fd, f) \<Rightarrow> map_option (Pair 0) (fileclose kend (set_fd s c fd None) f))"

definition sys_read :: "devsw \<Rightarrow> filest \<Rightarrow> nat \<Rightarrow> u32 option \<Rightarrow> u32 option \<Rightarrow> u32 option \<Rightarrow> (pipe_result \<times> u8 list \<times> filest) option" where
  "sys_read dv s c a n p =
     (case (argfd s c a, n, p) of
        (Some (_, f), Some n', Some _) \<Rightarrow> fileread dv (fkilled (fprocs s ! c)) s f (sint n')
      | _ \<Rightarrow> Some (PRet (-1), [], s))"

definition sys_write :: "devsw \<Rightarrow> filest \<Rightarrow> nat \<Rightarrow> u32 option \<Rightarrow> u32 option \<Rightarrow> u8 list option \<Rightarrow> (pipe_result \<times> u8 list \<times> filest) option" where
  "sys_write dv s c a n src =
     (case (argfd s c a, n, src) of
        (Some (_, f), Some n', Some xs) \<Rightarrow> filewrite dv (fkilled (fprocs s ! c)) s f xs (sint n')
      | _ \<Rightarrow> Some (PRet (-1), [], s))"

definition sys_fstat :: "filest \<Rightarrow> nat \<Rightarrow> u32 option \<Rightarrow> stat option \<Rightarrow> (int \<times> stat option \<times> filest) option" where
  "sys_fstat s c a st =
     (case (argfd s c a, st) of
        (Some (_, f), Some st') \<Rightarrow> map_option (\<lambda>(r, st1, s1). (r, Some st1, s1)) (filestat s f st')
      | _ \<Rightarrow> Some (-1, st, s))"

definition sys_pipe :: "u32 \<Rightarrow> filest \<Rightarrow> nat \<Rightarrow> u32 option \<Rightarrow> (int \<times> (nat \<times> nat) option \<times> filest) option" where
  "sys_pipe kend s c p =
     (if p = None then Some (-1, None, s)
      else case pipealloc kend s of
             None \<Rightarrow> None
           | Some (None, s1) \<Rightarrow> Some (-1, None, s1)
           | Some (Some (rdf, wrf), s1) \<Rightarrow>
               (case fdalloc s1 c rdf of
                  (None, s2) \<Rightarrow> do { s3 \<leftarrow> fileclose kend s2 rdf; s4 \<leftarrow> fileclose kend s3 wrf; Some (-1, None, s4) }
                | (Some fd0, s2) \<Rightarrow>
                    (case fdalloc s2 c wrf of
                       (None, s3) \<Rightarrow> do {
                         s4 \<leftarrow> fileclose kend (set_fd s3 c fd0 None) rdf;
                         s5 \<leftarrow> fileclose kend s4 wrf;
                         Some (-1, None, s5)
                       }
                     | (Some fd1, s3) \<Rightarrow> Some (0, Some (fd0, fd1), s3))))"

subsection \<open>Processes\<close>

text \<open>What \<open>fork\<close> and \<open>exit\<close> (\<^verbatim>\<open>proc.c\<close>) do to the descriptors and the current directory; \<open>np\<close> is the slot of the child.
  An exited process does not use its current directory again; the field is set when the slot is reused.\<close>

fun fork_fds :: "filest \<Rightarrow> nat \<Rightarrow> nat \<Rightarrow> nat list \<Rightarrow> filest option" where
  "fork_fds s c np [] = Some s"
| "fork_fds s c np (fd # rest) =
     (case fds (fprocs s ! c) ! fd of
        None \<Rightarrow> fork_fds s c np rest
      | Some f \<Rightarrow> (case filedup s f of None \<Rightarrow> None | Some s1 \<Rightarrow> fork_fds (set_fd s1 np fd (Some f)) c np rest))"

definition proc_fork_files :: "filest \<Rightarrow> nat \<Rightarrow> nat \<Rightarrow> filest option" where
  "proc_fork_files s c np = do {
     s1 \<leftarrow> fork_fds s c np [0..<NOFILE];
     Some (s1\<lparr>ffs := idup (ffs s1) (fcwd (fprocs s1 ! c)),
              fprocs := (fprocs s1)[np := (fprocs s1 ! np)\<lparr>fcwd := fcwd (fprocs s1 ! c)\<rparr>]\<rparr>)
   }"

fun exit_fds :: "u32 \<Rightarrow> filest \<Rightarrow> nat \<Rightarrow> nat list \<Rightarrow> filest option" where
  "exit_fds kend s c [] = Some s"
| "exit_fds kend s c (fd # rest) =
     (case fds (fprocs s ! c) ! fd of
        None \<Rightarrow> exit_fds kend s c rest
      | Some f \<Rightarrow> (case fileclose kend s f of None \<Rightarrow> None | Some s1 \<Rightarrow> exit_fds kend (set_fd s1 c fd None) c rest))"

definition proc_exit_files :: "u32 \<Rightarrow> filest \<Rightarrow> nat \<Rightarrow> filest option" where
  "proc_exit_files kend s c = do {
     s1 \<leftarrow> exit_fds kend s c [0..<NOFILE];
     x \<leftarrow> iput (ffs s1) (fcwd (fprocs s1 ! c));
     Some (s1\<lparr>ffs := x\<rparr>)
   }"

end
