(* ===== verification/Sysfile.thy ===== *)
theory Sysfile
  imports File
begin

text \<open>
  The system calls on path names (\<^verbatim>\<open>Project5b/xv6/kernel/sysfile.c\<close>) over the file system and the
  file table.  A path is the list of its bytes, \<open>None\<close> when \<open>argstr\<close> failed.
\<close>

subsection \<open>Links\<close>

abbreviation nlink_add :: "fsst \<Rightarrow> nat \<Rightarrow> u16 \<Rightarrow> fsst" where
  "nlink_add x i k \<equiv> iupdate (iupd x i (\<lambda>ip. ip\<lparr>inlink := inlink ip + k\<rparr>)) i"

text \<open>The label \<open>bad\<close> of \<open>sys_link\<close>.\<close>

definition link_bad :: "fsst \<Rightarrow> nat \<Rightarrow> (int \<times> fsst) option" where
  "link_bad x ip = do { x1 \<leftarrow> ilock x ip; x2 \<leftarrow> iunlockput (nlink_add x1 ip (-1)) ip; Some (-1, x2) }"

definition link_paths :: "devsw \<Rightarrow> fsst \<Rightarrow> nat \<Rightarrow> u8 list \<Rightarrow> u8 list \<Rightarrow> (int \<times> fsst) option" where
  "link_paths dv x cwd old new = do {
     (r, x1) \<leftarrow> namei x cwd old;
     (case r of
        None \<Rightarrow> Some (-1, x1)
      | Some ip \<Rightarrow> do {
          x2 \<leftarrow> ilock x1 ip;
          (if itype (icache x2 ! ip) = T_DIR then map_option (Pair (-1)) (iunlockput x2 ip)
           else do {
             x3 \<leftarrow> iunlock (nlink_add x2 ip 1) ip;
             (r2, nm, x4) \<leftarrow> nameiparent x3 cwd new;
             (case r2 of
                None \<Rightarrow> link_bad x4 ip
              | Some dp \<Rightarrow> do {
                  x5 \<leftarrow> ilock x4 dp;
                  (if idev (icache x5 ! dp) \<noteq> idev (icache x5 ! ip) then do { x6 \<leftarrow> iunlockput x5 dp; link_bad x6 ip }
                   else do {
                     (k, x6) \<leftarrow> dirlink dv x5 dp nm (inum (icache x5 ! ip));
                     x7 \<leftarrow> iunlockput x6 dp;
                     (if k < 0 then link_bad x7 ip else map_option (Pair 0) (iput x7 ip))
                   })
                })
           })
        })
   }"

definition sys_link :: "devsw \<Rightarrow> filest \<Rightarrow> nat \<Rightarrow> u8 list option \<Rightarrow> u8 list option \<Rightarrow> (int \<times> filest) option" where
  "sys_link dv s c old new =
     (case (old, new) of
        (Some o', Some n') \<Rightarrow> map_option (\<lambda>(r, x). (r, s\<lparr>ffs := x\<rparr>)) (link_paths dv (ffs s) (fcwd (fprocs s ! c)) o' n')
      | _ \<Rightarrow> Some (-1, s))"

text \<open>The loop of \<open>isdirempty\<close> over the offsets of the entries behind the first two.\<close>

fun isdirempty_loop :: "devsw \<Rightarrow> fsst \<Rightarrow> nat \<Rightarrow> nat list \<Rightarrow> (bool \<times> fsst) option" where
  "isdirempty_loop dv x dp [] = Some (True, x)"
| "isdirempty_loop dv x dp (off # offs) =
     (case readi dv x dp (of_nat off) 16 of
        None \<Rightarrow> None
      | Some (r, xs, x1) \<Rightarrow>
          if r \<noteq> 16 then None
          else if de_inum (dirent_of xs) \<noteq> 0 then Some (False, x1)
          else isdirempty_loop dv x1 dp offs)"

definition isdirempty :: "devsw \<Rightarrow> fsst \<Rightarrow> nat \<Rightarrow> (bool \<times> fsst) option" where
  "isdirempty dv x dp =
     isdirempty_loop dv x dp (map (\<lambda>k. 16 * k) [2..<(unat (isize (icache x ! dp)) + 15) div 16])"

abbreviation dot_name :: "u8 list" where "dot_name \<equiv> [46]"
abbreviation dotdot_name :: "u8 list" where "dotdot_name \<equiv> [46, 46]"

definition unlink_path :: "devsw \<Rightarrow> fsst \<Rightarrow> nat \<Rightarrow> u8 list \<Rightarrow> (int \<times> fsst) option" where
  "unlink_path dv x cwd path = do {
     (r, nm, x1) \<leftarrow> nameiparent x cwd path;
     (case r of
        None \<Rightarrow> Some (-1, x1)
      | Some dp \<Rightarrow> do {
          x2 \<leftarrow> ilock x1 dp;
          (if namecmp nm dot_name = 0 \<or> namecmp nm dotdot_name = 0 then map_option (Pair (-1)) (iunlockput x2 dp)
           else do {
             (e, x3) \<leftarrow> dirlookup x2 dp nm;
             (case e of
                None \<Rightarrow> map_option (Pair (-1)) (iunlockput x3 dp)
              | Some (ip, off) \<Rightarrow> do {
                  x4 \<leftarrow> ilock x3 ip;
                  (if sint (inlink (icache x4 ! ip)) < 1 then None
                   else do {
                     (emp, x5) \<leftarrow> (if itype (icache x4 ! ip) = T_DIR then isdirempty dv x4 ip else Some (True, x4));
                     (if \<not> emp then do { x6 \<leftarrow> iunlockput x5 ip; x7 \<leftarrow> iunlockput x6 dp; Some (-1, x7) }
                      else do {
                        (k, x6) \<leftarrow> writei dv x5 dp (replicate 16 0) (of_nat off) 16;
                        (if k \<noteq> 16 then None
                         else do {
                           x7 \<leftarrow> iunlockput (if itype (icache x6 ! ip) = T_DIR then nlink_add x6 dp (-1) else x6) dp;
                           x8 \<leftarrow> iunlockput (nlink_add x7 ip (-1)) ip;
                           Some (0, x8)
                         })
                      })
                   })
                })
           })
        })
   }"

definition sys_unlink :: "devsw \<Rightarrow> filest \<Rightarrow> nat \<Rightarrow> u8 list option \<Rightarrow> (int \<times> filest) option" where
  "sys_unlink dv s c path =
     (case path of
        None \<Rightarrow> Some (-1, s)
      | Some p \<Rightarrow> map_option (\<lambda>(r, x). (r, s\<lparr>ffs := x\<rparr>)) (unlink_path dv (ffs s) (fcwd (fprocs s ! c)) p))"

subsection \<open>Creating and opening\<close>

text \<open>\<open>create\<close> returns the locked inode, or NULL.\<close>

definition create :: "devsw \<Rightarrow> fsst \<Rightarrow> nat \<Rightarrow> u8 list \<Rightarrow> u16 \<Rightarrow> u16 \<Rightarrow> u16 \<Rightarrow> (nat option \<times> fsst) option" where
  "create dv x cwd path ty major minor = do {
     (r, nm, x1) \<leftarrow> nameiparent x cwd path;
     (case r of
        None \<Rightarrow> Some (None, x1)
      | Some dp \<Rightarrow> do {
          x2 \<leftarrow> ilock x1 dp;
          (e, x3) \<leftarrow> dirlookup x2 dp nm;
          (case e of
             Some (ip, off) \<Rightarrow> do {
               x4 \<leftarrow> iunlockput x3 dp;
               x5 \<leftarrow> ilock x4 ip;
               (if ty = T_FILE \<and> itype (icache x5 ! ip) = T_FILE \<or> ty = T_CHECKED \<and> itype (icache x5 ! ip) = T_CHECKED
                then Some (Some ip, x5)
                else map_option (Pair None) (iunlockput x5 ip))
             }
           | None \<Rightarrow> do {
               (ip, x4) \<leftarrow> ialloc x3 (idev (icache x3 ! dp)) ty;
               x5 \<leftarrow> ilock x4 ip;
               let x6 = iupdate (iupd x5 ip (\<lambda>i. i\<lparr>imajor := major, iminor := minor, inlink := 1\<rparr>)) ip;
               x7 \<leftarrow> (if ty = T_DIR then do {
                    let y = nlink_add x6 dp 1;
                    (k1, y1) \<leftarrow> dirlink dv y ip dot_name (inum (icache y ! ip));
                    (if k1 < 0 then None
                     else do {
                       (k2, y2) \<leftarrow> dirlink dv y1 ip dotdot_name (inum (icache y1 ! dp));
                       (if k2 < 0 then None else Some y2)
                     })
                  } else Some x6);
               (k, x8) \<leftarrow> dirlink dv x7 dp nm (inum (icache x7 ! ip));
               (if k < 0 then None else do { x9 \<leftarrow> iunlockput x8 dp; Some (Some ip, x9) })
             })
        })
   }"

abbreviation O_WRONLY :: u32 where "O_WRONLY \<equiv> 1"
abbreviation O_RDWR :: u32 where "O_RDWR \<equiv> 2"
abbreviation O_CREATE :: u32 where "O_CREATE \<equiv> 0x200"
abbreviation O_CHECKED :: u32 where "O_CHECKED \<equiv> 0x400"

text \<open>The first part of \<open>sys_open\<close>: the locked inode to open.\<close>

definition open_inode :: "devsw \<Rightarrow> fsst \<Rightarrow> nat \<Rightarrow> u8 list \<Rightarrow> u32 \<Rightarrow> (nat option \<times> fsst) option" where
  "open_inode dv x cwd path omode =
     (if omode AND O_CREATE \<noteq> 0 then create dv x cwd path (if omode AND O_CHECKED \<noteq> 0 then T_CHECKED else T_FILE) 0 0
      else do {
        (r, x1) \<leftarrow> namei x cwd path;
        (case r of
           None \<Rightarrow> Some (None, x1)
         | Some ip \<Rightarrow> do {
             x2 \<leftarrow> ilock x1 ip;
             (if itype (icache x2 ! ip) = T_DIR \<and> omode \<noteq> 0 then map_option (Pair None) (iunlockput x2 ip)
              else Some (Some ip, x2))
           })
      })"

definition sys_open :: "devsw \<Rightarrow> u32 \<Rightarrow> filest \<Rightarrow> nat \<Rightarrow> u8 list option \<Rightarrow> u32 option \<Rightarrow> (int \<times> filest) option" where
  "sys_open dv kend s c path omode =
     (case (path, omode) of
        (Some p, Some om) \<Rightarrow> do {
          (r, x) \<leftarrow> open_inode dv (ffs s) (fcwd (fprocs s ! c)) p om;
          (case r of
             None \<Rightarrow> Some (-1, s\<lparr>ffs := x\<rparr>)
           | Some ip \<Rightarrow>
               (case filealloc (s\<lparr>ffs := x\<rparr>) of
                  (None, s1) \<Rightarrow> map_option (\<lambda>y. (-1, s1\<lparr>ffs := y\<rparr>)) (iunlockput (ffs s1) ip)
                | (Some f, s1) \<Rightarrow>
                    (case fdalloc s1 c f of
                       (None, s2) \<Rightarrow> do {
                         s3 \<leftarrow> fileclose kend s2 f;
                         y \<leftarrow> iunlockput (ffs s3) ip;
                         Some (-1, s3\<lparr>ffs := y\<rparr>)
                       }
                     | (Some fd, s2) \<Rightarrow> do {
                         y \<leftarrow> iunlock (ffs s2) ip;
                         Some (int fd, fupd (s2\<lparr>ffs := y\<rparr>) f (\<lambda>fl. fl\<lparr>f_type := FD_INODE, f_ip := ip, f_off := 0,
                           f_readable := (om AND O_WRONLY = 0), f_writable := (om AND O_WRONLY \<noteq> 0 \<or> om AND O_RDWR \<noteq> 0)\<rparr>))
                       })))
        }
      | _ \<Rightarrow> Some (-1, s))"

definition sys_mkdir :: "devsw \<Rightarrow> filest \<Rightarrow> nat \<Rightarrow> u8 list option \<Rightarrow> (int \<times> filest) option" where
  "sys_mkdir dv s c path =
     (case path of
        None \<Rightarrow> Some (-1, s)
      | Some p \<Rightarrow> do {
          (r, x) \<leftarrow> create dv (ffs s) (fcwd (fprocs s ! c)) p T_DIR 0 0;
          (case r of
             None \<Rightarrow> Some (-1, s\<lparr>ffs := x\<rparr>)
           | Some ip \<Rightarrow> map_option (\<lambda>y. (0, s\<lparr>ffs := y\<rparr>)) (iunlockput x ip))
        })"

definition sys_mknod :: "devsw \<Rightarrow> filest \<Rightarrow> nat \<Rightarrow> u8 list option \<Rightarrow> u32 option \<Rightarrow> u32 option \<Rightarrow> (int \<times> filest) option" where
  "sys_mknod dv s c path major minor =
     (case (path, major, minor) of
        (Some p, Some ma, Some mi) \<Rightarrow> do {
          (r, x) \<leftarrow> create dv (ffs s) (fcwd (fprocs s ! c)) p T_DEV (ucast ma) (ucast mi);
          (case r of
             None \<Rightarrow> Some (-1, s\<lparr>ffs := x\<rparr>)
           | Some ip \<Rightarrow> map_option (\<lambda>y. (0, s\<lparr>ffs := y\<rparr>)) (iunlockput x ip))
        }
      | _ \<Rightarrow> Some (-1, s))"

definition sys_chdir :: "filest \<Rightarrow> nat \<Rightarrow> u8 list option \<Rightarrow> (int \<times> filest) option" where
  "sys_chdir s c path =
     (case path of
        None \<Rightarrow> Some (-1, s)
      | Some p \<Rightarrow> do {
          (r, x) \<leftarrow> namei (ffs s) (fcwd (fprocs s ! c)) p;
          (case r of
             None \<Rightarrow> Some (-1, s\<lparr>ffs := x\<rparr>)
           | Some ip \<Rightarrow> do {
               x1 \<leftarrow> ilock x ip;
               (if itype (icache x1 ! ip) \<noteq> T_DIR then map_option (\<lambda>y. (-1, s\<lparr>ffs := y\<rparr>)) (iunlockput x1 ip)
                else do {
                  x2 \<leftarrow> iunlock x1 ip;
                  x3 \<leftarrow> iput x2 (fcwd (fprocs s ! c));
                  Some (0, s\<lparr>ffs := x3, fprocs := (fprocs s)[c := (fprocs s ! c)\<lparr>fcwd := ip\<rparr>]\<rparr>)
                })
             })
        })"

text \<open>The loop of \<open>sys_exec\<close> that collects the addresses of the argument strings from \<open>uargv\<close> on.\<close>

fun exec_argv :: "mem \<Rightarrow> u32 \<Rightarrow> u32 \<Rightarrow> nat \<Rightarrow> u32 list option" where
  "exec_argv m sz a 0 = None"
| "exec_argv m sz a (Suc k) =
     (case fetchint m sz a of
        None \<Rightarrow> None
      | Some u \<Rightarrow>
          if u = 0 then Some []
          else case fetchstr m sz u of
                 None \<Rightarrow> None
               | Some _ \<Rightarrow> map_option (Cons u) (exec_argv m sz (a + 4) k))"

end
