(* ===== verification/FileProps.thy ===== *)
theory FileProps
  imports Sysfile
begin

text \<open>
  Reference counting of open files and pipes.  The count of an open file is the number of descriptors
  that hold it, in all processes; the ends of a pipe that are open are exactly those some open file
  stands for, so the page of a pipe is freed when its last descriptor is closed and not before.
\<close>

subsection \<open>Descriptors that hold a file\<close>

definition holders :: "nat option list list \<Rightarrow> nat \<Rightarrow> int" where
  "holders D i = int (sum_list (map (\<lambda>t. count_list t (Some i)) D))"

abbreviation fd_tables :: "filest \<Rightarrow> nat option list list" where
  "fd_tables s \<equiv> map fds (fprocs s)"

lemma holders_nonneg [simp]: "0 \<le> holders D i"
  by (simp add: holders_def)

lemma count_list_update:
  "k < length t \<Longrightarrow> int (count_list (t[k := v]) x) = int (count_list t x) - (if t ! k = x then 1 else 0) + (if v = x then 1 else 0)"
proof (induction t arbitrary: k)
  case (Cons a t)
  show ?case
  proof (cases k)
    case (Suc j)
    have "int (count_list (t[j := v]) x) = int (count_list t x) - (if t ! j = x then 1 else 0) + (if v = x then 1 else 0)"
      using Cons Suc by simp
    thus ?thesis using Suc by (cases "a = x") (simp_all only: list_update_code count_list.simps nth_Cons_Suc if_True if_False of_nat_add of_nat_1 add.assoc add.commute, simp_all)
  qed simp
qed simp

lemma sum_list_int_update:
  "c < length D \<Longrightarrow> int (sum_list (map f (D[c := y]))) = int (sum_list (map f D)) - int (f (D ! c)) + int (f y)"
  by (induction D arbitrary: c) (auto simp: nth_Cons split: nat.splits)

lemma holders_set:
  assumes "c < length D" "k < length (D ! c)"
  shows "holders (D[c := (D ! c)[k := v]]) i = holders D i - (if D ! c ! k = Some i then 1 else 0) + (if v = Some i then 1 else 0)"
  using sum_list_int_update[OF assms(1), of "\<lambda>t. count_list t (Some i)"] count_list_update[OF assms(2), of v "Some i"]
  by (simp add: holders_def)

lemma holders_pos:
  assumes "c < length D" "k < length (D ! c)" "D ! c ! k = Some i"
  shows "holders D i \<ge> 1"
  using holders_set[OF assms(1,2), of None i] holders_nonneg[of "D[c := (D ! c)[k := None]]" i] assms(3) by simp

subsection \<open>The invariant\<close>

text \<open>The ends of pipes that open files stand for; \<open>e\<close> counts references that a call in progress holds.\<close>

definition pend :: "kfile \<Rightarrow> (u32 \<times> bool) option" where
  "pend f = (if f_type f = FD_PIPE then Some (f_pipe f, f_writable f) else None)"

definition end_open :: "(u32 \<Rightarrow> pipe option) \<Rightarrow> u32 \<Rightarrow> bool \<Rightarrow> bool" where
  "end_open ps q w \<longleftrightarrow> (case ps q of None \<Rightarrow> False | Some p \<Rightarrow> if w then writeopen p else readopen p)"

definition refs_ok :: "(nat \<Rightarrow> int) \<Rightarrow> filest \<Rightarrow> bool" where
  "refs_ok e s \<longleftrightarrow>
     (\<forall>i < length (ftable s). f_ref (ftable s ! i) = holders (fd_tables s) i + e i \<and> (f_type (ftable s ! i) \<noteq> FD_NONE \<longrightarrow> f_ref (ftable s ! i) \<ge> 1)) \<and>
     (\<forall>t \<in> set (fd_tables s). length t = NOFILE \<and> (\<forall>x. Some x \<in> set t \<longrightarrow> x < length (ftable s)))"

lemma refs_ok_cong: "ftable s' = ftable s \<Longrightarrow> fprocs s' = fprocs s \<Longrightarrow> refs_ok e s' = refs_ok e s"
  unfolding refs_ok_def by (simp only:)

definition ends_ok :: "filest \<Rightarrow> bool" where
  "ends_ok s \<longleftrightarrow>
     (\<forall>i < length (ftable s). \<forall>j < length (ftable s). i \<noteq> j \<longrightarrow> pend (ftable s ! i) \<noteq> None \<longrightarrow> pend (ftable s ! i) \<noteq> pend (ftable s ! j)) \<and>
     (\<forall>q w. end_open (pipes s) q w \<longleftrightarrow> Some (q, w) \<in> pend ` set (ftable s)) \<and>
     (\<forall>q p. pipes s q = Some p \<longrightarrow> (readopen p \<or> writeopen p) \<and> pipe_inv p)"

definition pages_ok :: "u32 \<Rightarrow> filest \<Rightarrow> bool" where
  "pages_ok kend s \<longleftrightarrow> (\<exists>xs. kinv kend (fkm s) xs \<and> (\<forall>q. pipes s q \<noteq> None \<longrightarrow> kpage kend q \<and> q \<noteq> 0 \<and> q \<notin> set xs))"

definition file_inv :: "u32 \<Rightarrow> (nat \<Rightarrow> int) \<Rightarrow> filest \<Rightarrow> bool" where
  "file_inv kend e s \<longleftrightarrow> refs_ok e s \<and> ends_ok s \<and> pages_ok kend s"

lemma file_inv_cong:
  assumes "ftable s' = ftable s" "pipes s' = pipes s" "fkm s' = fkm s" "fd_tables s' = fd_tables s"
  shows "file_inv kend e s' = file_inv kend e s"
  using assms by (simp add: file_inv_def refs_ok_def ends_ok_def pages_ok_def)

lemma file_inv_ffs [simp]: "file_inv kend e (s\<lparr>ffs := x\<rparr>) = file_inv kend e s"
  by (rule file_inv_cong) simp_all

subsection \<open>Updates of one file\<close>

lemma fupd_simps [simp]:
  "pipes (fupd s i g) = pipes s" "fkm (fupd s i g) = fkm s" "ffs (fupd s i g) = ffs s" "fprocs (fupd s i g) = fprocs s"
  "length (ftable (fupd s i g)) = length (ftable s)" "ftable (fupd s i g) = (ftable s)[i := g (ftable s ! i)]"
  by (simp_all add: fupd_def)

lemma set_fd_simps [simp]:
  "pipes (set_fd s c fd v) = pipes s" "fkm (set_fd s c fd v) = fkm s" "ffs (set_fd s c fd v) = ffs s" "ftable (set_fd s c fd v) = ftable s"
  by (simp_all add: set_fd_def)

lemma set_fd_tables: "c < length (fprocs s) \<Longrightarrow> fd_tables (set_fd s c fd v) = (fd_tables s)[c := (fd_tables s ! c)[fd := v]]"
  by (simp add: set_fd_def map_update)

lemma refs_fupd:
  assumes "refs_ok e s" "i < length (ftable s)" "f_ref (g (ftable s ! i)) = f_ref (ftable s ! i) + d"
    "f_type (g (ftable s ! i)) \<noteq> FD_NONE \<Longrightarrow> f_ref (g (ftable s ! i)) \<ge> 1"
  shows "refs_ok (e(i := e i + d)) (fupd s i g)"
  using assms by (auto simp: refs_ok_def nth_list_update)

lemma refs_set_fd:
  assumes "refs_ok e s" "c < length (fprocs s)" "fd < NOFILE" "\<And>f. v = Some f \<Longrightarrow> f < length (ftable s)"
  shows "refs_ok (\<lambda>i. e i + (if fds (fprocs s ! c) ! fd = Some i then 1 else 0) - (if v = Some i then 1 else 0)) (set_fd s c fd v)"
proof -
  let ?D = "fd_tables s"
  have l: "c < length ?D" "length (?D ! c) = NOFILE" using assms(1,2) by (auto simp: refs_ok_def)
  have D: "?D ! c ! fd = fds (fprocs s ! c) ! fd" using assms(2) by simp
  have h: "holders (fd_tables (set_fd s c fd v)) i = holders ?D i - (if fds (fprocs s ! c) ! fd = Some i then 1 else 0) + (if v = Some i then 1 else 0)" for i
    unfolding set_fd_tables[OF assms(2)] using holders_set[OF l(1), of fd v i] l(2) assms(3) D by simp
  have "length t = NOFILE \<and> (\<forall>x. Some x \<in> set t \<longrightarrow> x < length (ftable s))" if t: "t \<in> set (fd_tables (set_fd s c fd v))" for t
  proof -
    have old: "\<And>u. u \<in> set ?D \<Longrightarrow> length u = NOFILE \<and> (\<forall>x. Some x \<in> set u \<longrightarrow> x < length (ftable s))" using assms(1) unfolding refs_ok_def by blast
    have "t = (?D ! c)[fd := v] \<or> t \<in> set ?D" using t set_update_subset_insert[of ?D c] unfolding set_fd_tables[OF assms(2)] by blast
    thus ?thesis
    proof
      assume u: "t = (?D ! c)[fd := v]"
      have "set t \<subseteq> insert v (set (?D ! c))" unfolding u by (rule set_update_subset_insert)
      thus ?thesis using old[OF nth_mem[OF l(1)]] assms(4) u by auto
    qed (rule old)
  qed
  thus ?thesis using assms(1) h by (auto simp: refs_ok_def)
qed

lemma ends_fupd:
  assumes "ends_ok s" "i < length (ftable s)" "pend (g (ftable s ! i)) = pend (ftable s ! i)"
  shows "ends_ok (fupd s i g)"
proof -
  have m: "map pend ((ftable s)[i := g (ftable s ! i)]) = map pend (ftable s)"
    using assms(2,3) by (simp add: map_update list_update_same_conv)
  hence n: "\<And>k. k < length (ftable s) \<Longrightarrow> pend ((ftable s)[i := g (ftable s ! i)] ! k) = pend (ftable s ! k)"
    by (metis length_list_update nth_map)
  have "pend ` set ((ftable s)[i := g (ftable s ! i)]) = pend ` set (ftable s)" using arg_cong[OF m, of set] by simp
  thus ?thesis using assms(1) n by (simp add: ends_ok_def)
qed

subsection \<open>Operations on the file table\<close>

lemma in_pend: "Some x \<in> pend ` set xs \<longleftrightarrow> (\<exists>k < length xs. pend (xs ! k) = Some x)"
  by (metis image_iff in_set_conv_nth)

lemma pend_cleared:
  assumes "i < length ts" "pend (ts ! i) = Some x" "pend g = None" "\<And>k. k < length ts \<Longrightarrow> k \<noteq> i \<Longrightarrow> pend (ts ! k) \<noteq> Some x"
  shows "Some y \<in> pend ` set (ts[i := g]) \<longleftrightarrow> Some y \<in> pend ` set ts \<and> y \<noteq> x"
proof -
  have "pend (ts[i := g] ! k) = Some y \<longleftrightarrow> k \<noteq> i \<and> pend (ts ! k) = Some y" if "k < length ts" for k
    using assms(1,3) that by (cases "k = i") simp_all
  hence "Some y \<in> pend ` set (ts[i := g]) \<longleftrightarrow> (\<exists>k < length ts. k \<noteq> i \<and> pend (ts ! k) = Some y)" unfolding in_pend by auto
  also have "\<dots> \<longleftrightarrow> Some y \<in> pend ` set ts \<and> y \<noteq> x" unfolding in_pend using assms by (metis option.inject)
  finally show ?thesis .
qed

lemma filealloc_Some:
  assumes "filealloc s = (Some i, s')" "file_inv kend e s" "\<And>k. e k \<ge> 0"
  shows "i < length (ftable s)" "f_type (ftable s ! i) = FD_NONE" "e i = 0" "s' = fupd s i (\<lambda>f. f\<lparr>f_ref := 1\<rparr>)" "file_inv kend (e(i := 1)) s'"
proof -
  have i: "first_idx (\<lambda>f. f_ref f = 0) (ftable s) = Some i" and s': "s' = fupd s i (\<lambda>f. f\<lparr>f_ref := 1\<rparr>)"
    using assms(1) by (auto simp: filealloc_def split: option.splits)
  have il: "i < length (ftable s)" "f_ref (ftable s ! i) = 0" using first_idx_SomeD[OF i] by simp_all
  have r: "refs_ok e s" using assms(2) by (simp add: file_inv_def)
  hence z: "holders (fd_tables s) i + e i = 0" and ty: "f_type (ftable s ! i) = FD_NONE" using il by (auto simp: refs_ok_def)
  have e0: "e i = 0" using z assms(3)[of i] holders_nonneg[of "fd_tables s" i] by linarith
  have "refs_ok (e(i := e i + 1)) s'" unfolding s' by (rule refs_fupd[OF r il(1)]) (simp_all add: il)
  moreover have "ends_ok s'" unfolding s' by (rule ends_fupd) (use assms(2) il in \<open>simp_all add: file_inv_def pend_def\<close>)
  moreover have "pages_ok kend s'" using assms(2) unfolding s' by (simp add: file_inv_def pages_ok_def)
  ultimately show "file_inv kend (e(i := 1)) s'" using e0 by (simp add: file_inv_def)
  show "i < length (ftable s)" "f_type (ftable s ! i) = FD_NONE" "e i = 0" "s' = fupd s i (\<lambda>f. f\<lparr>f_ref := 1\<rparr>)"
    using il ty e0 s' by simp_all
qed

lemma filealloc_None: "filealloc s = (None, s') \<Longrightarrow> s' = s"
  by (auto simp: filealloc_def split: option.splits)

lemma file_inv_set_fd:
  assumes "file_inv kend e s" "c < length (fprocs s)" "fd < NOFILE" "\<And>f. v = Some f \<Longrightarrow> f < length (ftable s)"
  shows "file_inv kend (\<lambda>i. e i + (if fds (fprocs s ! c) ! fd = Some i then 1 else 0) - (if v = Some i then 1 else 0)) (set_fd s c fd v)"
  using refs_set_fd[OF _ assms(2-4)] assms(1) by (simp add: file_inv_def ends_ok_def pages_ok_def)

lemma fds_length:
  assumes "file_inv kend e s" "c < length (fprocs s)"
  shows "length (fds (fprocs s ! c)) = NOFILE"
  using assms by (auto simp: file_inv_def refs_ok_def)

lemma fdalloc_Some:
  assumes "fdalloc s c f = (Some fd, s')" "file_inv kend e s" "c < length (fprocs s)" "f < length (ftable s)"
  shows "file_inv kend (e(f := e f - 1)) s'" "fd < NOFILE" "fds (fprocs s ! c) ! fd = None" "s' = set_fd s c fd (Some f)"
proof -
  have i: "first_idx (\<lambda>x. x = None) (fds (fprocs s ! c)) = Some fd" and s': "s' = set_fd s c fd (Some f)"
    using assms(1) by (auto simp: fdalloc_def split: option.splits)
  show fd: "fd < NOFILE" "fds (fprocs s ! c) ! fd = None" "s' = set_fd s c fd (Some f)"
    using first_idx_SomeD[OF i] fds_length[OF assms(2,3)] s' by simp_all
  have "(\<lambda>i. e i + (if fds (fprocs s ! c) ! fd = Some i then 1 else 0) - (if Some f = Some i then 1 else 0)) = e(f := e f - 1)"
    using fd(2) by auto
  thus "file_inv kend (e(f := e f - 1)) s'"
    using file_inv_set_fd[OF assms(2,3) fd(1), of "Some f"] assms(4) s' by simp
qed

lemma fdalloc_None: "fdalloc s c f = (None, s') \<Longrightarrow> s' = s"
  by (auto simp: fdalloc_def split: option.splits)

lemma clear_fd:
  assumes "file_inv kend e s" "c < length (fprocs s)" "fd < NOFILE" "fds (fprocs s ! c) ! fd = Some f"
  shows "file_inv kend (e(f := e f + 1)) (set_fd s c fd None)"
proof -
  have "(\<lambda>i. e i + (if fds (fprocs s ! c) ! fd = Some i then 1 else 0) - (if None = Some i then 1 else 0)) = e(f := e f + 1)"
    using assms(4) by auto
  thus ?thesis using file_inv_set_fd[OF assms(1-3), of None] by simp
qed

lemma filedup_Some:
  assumes "filedup s i = Some s'" "file_inv kend e s" "i < length (ftable s)"
  shows "file_inv kend (e(i := e i + 1)) s'"
proof -
  have s': "s' = fupd s i (\<lambda>f. f\<lparr>f_ref := f_ref f + 1\<rparr>)" and r: "f_ref (ftable s ! i) \<ge> 1"
    using assms(1) by (auto simp: filedup_def split: if_splits)
  have "refs_ok (e(i := e i + 1)) s'" unfolding s' by (rule refs_fupd) (use assms(2,3) r in \<open>simp_all add: file_inv_def\<close>)
  moreover have "ends_ok s'" unfolding s' by (rule ends_fupd) (use assms(2,3) in \<open>simp_all add: file_inv_def pend_def\<close>)
  ultimately show ?thesis using assms(2) s' by (simp add: file_inv_def pages_ok_def)
qed

lemma close_pipe_end_ok:
  assumes "ends_ok s" "pages_ok kend s" "i < length (ftable s)" "pend (ftable s ! i) = Some (q, w)" "pend (g (ftable s ! i)) = None"
  shows "\<exists>s'. close_pipe_end kend (fupd s i g) q w = Some s' \<and> ends_ok s' \<and> pages_ok kend s' \<and> ftable s' = ftable (fupd s i g) \<and> fprocs s' = fprocs s"
proof -
  let ?t = "(ftable s)[i := g (ftable s ! i)]"
  have eo: "end_open (pipes s) q w" using assms(1,3,4) in_pend[of "(q, w)" "ftable s"] unfolding ends_ok_def by blast
  then obtain p where p: "pipes s q = Some p" by (auto simp: end_open_def split: option.splits)
  obtain fr p1 where pc: "pipeclose p w = (fr, p1)" by fastforce
  note pe = pipeclose_ends[OF pc]
  obtain xs where k: "kinv kend (fkm s) xs" "kpage kend q" "q \<noteq> 0" "q \<notin> set xs"
     "\<And>r. pipes s r \<noteq> None \<Longrightarrow> kpage kend r \<and> r \<noteq> 0 \<and> r \<notin> set xs"
    using assms(2) p unfolding pages_ok_def by (metis option.distinct(1))
  have im: "Some (r, v) \<in> pend ` set ?t \<longleftrightarrow> Some (r, v) \<in> pend ` set (ftable s) \<and> (r, v) \<noteq> (q, w)" for r v
    by (rule pend_cleared[OF assms(3,4,5)]) (use assms(1,3,4) in \<open>metis ends_ok_def option.distinct(1)\<close>)
  have uniq: "pend (ftable s ! a) \<noteq> None \<Longrightarrow> pend (ftable s ! a) \<noteq> pend (ftable s ! b)"
    if "a < length (ftable s)" "b < length (ftable s)" "a \<noteq> b" for a b
    using assms(1) that unfolding ends_ok_def by blast
  have dis: "pend (?t ! a) \<noteq> None \<Longrightarrow> pend (?t ! a) \<noteq> pend (?t ! b)" if "a < length ?t" "b < length ?t" "a \<noteq> b" for a b
    using uniq[of a b] assms(3,5) that by (cases "a = i"; cases "b = i") auto
  have inv: "pipe_inv p" "\<And>r x. pipes s r = Some x \<Longrightarrow> (readopen x \<or> writeopen x) \<and> pipe_inv x" using assms(1) p by (auto simp: ends_ok_def)
  have all: "\<And>r v. end_open (pipes s) r v \<longleftrightarrow> Some (r, v) \<in> pend ` set (ftable s)" using assms(1) by (simp add: ends_ok_def)
  show ?thesis
  proof (cases fr)
    case True
    obtain km where km: "kfree kend (fkm s) q = Some km" "kinv kend km (q # xs)" using kfree_kinv[OF k(1-4)] by blast
    let ?s = "(fupd s i g)\<lparr>pipes := (pipes s)(q := None), fkm := km\<rparr>"
    have "end_open ((pipes s)(q := None)) r v \<longleftrightarrow> end_open (pipes s) r v \<and> (r, v) \<noteq> (q, w)" for r v
      using True pe p by (cases v; cases w) (auto simp: end_open_def)
    hence "ends_ok ?s" using im dis inv all unfolding ends_ok_def by auto
    moreover have "pages_ok kend ?s" using km(2) k(5) unfolding pages_ok_def by (intro exI[of _ "q # xs"]) auto
    ultimately show ?thesis using True pc p km(1) by (auto simp: close_pipe_end_def)
  next
    case False
    let ?s = "(fupd s i g)\<lparr>pipes := (pipes s)(q := Some p1)\<rparr>"
    have "end_open ((pipes s)(q := Some p1)) r v \<longleftrightarrow> end_open (pipes s) r v \<and> (r, v) \<noteq> (q, w)" for r v
      using pe p by (cases v; cases w) (auto simp: end_open_def)
    hence "ends_ok ?s" using im dis inv all pe False unfolding ends_ok_def by auto
    moreover have "pages_ok kend ?s" using k unfolding pages_ok_def by (intro exI[of _ xs]) auto
    ultimately show ?thesis using False pc p by (auto simp: close_pipe_end_def)
  qed
qed

lemma close_pipe_end_frame: "close_pipe_end kend s q w = Some s' \<Longrightarrow> ftable s' = ftable s \<and> fprocs s' = fprocs s"
  by (auto simp: close_pipe_end_def split: option.splits if_splits prod.splits)

text \<open>
  Closing gives back one reference; it can only fail where \<open>iput\<close> panics for the last reference to an inode.
\<close>

lemma fileclose_ok:
  assumes "file_inv kend e s" "i < length (ftable s)" "f_ref (ftable s ! i) \<ge> 1"
    "f_type (ftable s ! i) = FD_INODE \<Longrightarrow> f_ref (ftable s ! i) = 1 \<Longrightarrow> iput (ffs s) (f_ip (ftable s ! i)) \<noteq> None"
  shows "\<exists>s'. fileclose kend s i = Some s' \<and> file_inv kend (e(i := e i - 1)) s' \<and> length (ftable s') = length (ftable s) \<and> fprocs s' = fprocs s"
proof (cases "f_ref (ftable s ! i) = 1")
  case False
  let ?s = "fupd s i (\<lambda>f. f\<lparr>f_ref := f_ref f - 1\<rparr>)"
  have "refs_ok (e(i := e i + - 1)) ?s" by (rule refs_fupd) (use assms False in \<open>simp_all add: file_inv_def\<close>)
  moreover have "ends_ok ?s" by (rule ends_fupd) (use assms in \<open>simp_all add: file_inv_def pend_def\<close>)
  ultimately have "file_inv kend (e(i := e i - 1)) ?s" using assms(1) by (simp add: file_inv_def pages_ok_def)
  moreover have "fileclose kend s i = Some ?s" using assms(3) False by (simp add: fileclose_def)
  ultimately show ?thesis by simp
next
  case True
  let ?g = "\<lambda>f. f\<lparr>f_ref := 0, f_type := FD_NONE\<rparr>"
  let ?f = "ftable s ! i"
  have r: "refs_ok (e(i := e i + - 1)) (fupd s i ?g)" by (rule refs_fupd) (use assms True in \<open>simp_all add: file_inv_def\<close>)
  have pe: "ends_ok (fupd s i ?g)" if "f_type ?f \<noteq> FD_PIPE"
    by (rule ends_fupd) (use assms that in \<open>simp_all add: file_inv_def pend_def\<close>)
  show ?thesis
  proof (cases "f_type ?f")
    case FD_NONE
    have "file_inv kend (e(i := e i - 1)) (fupd s i ?g)" using r pe FD_NONE assms(1) by (simp add: file_inv_def pages_ok_def)
    thus ?thesis using True FD_NONE by (simp add: fileclose_def)
  next
    case FD_PIPE
    have "pend ?f = Some (f_pipe ?f, f_writable ?f)" using FD_PIPE by (simp add: pend_def)
    from close_pipe_end_ok[of s kend i "f_pipe ?f" "f_writable ?f" ?g, OF _ _ assms(2) this] assms(1)
    obtain s' where s': "close_pipe_end kend (fupd s i ?g) (f_pipe ?f) (f_writable ?f) = Some s'" "ends_ok s'" "pages_ok kend s'"
      "ftable s' = ftable (fupd s i ?g)" "fprocs s' = fprocs s" by (auto simp: file_inv_def pend_def)
    have "refs_ok (e(i := e i - 1)) s'" using r refs_ok_cong[OF s'(4), of "e(i := e i - 1)"] s'(5) by simp
    thus ?thesis using True FD_PIPE s' by (auto simp: fileclose_def file_inv_def)
  next
    case FD_INODE
    then obtain x where x: "iput (ffs s) (f_ip ?f) = Some x" using assms(4) True by auto
    have "file_inv kend (e(i := e i - 1)) (fupd s i ?g)" using r pe FD_INODE assms(1) by (simp add: file_inv_def pages_ok_def)
    thus ?thesis using True FD_INODE x by (simp add: fileclose_def)
  qed
qed

lemma fileclose_Some:
  assumes "fileclose kend s i = Some s'" "file_inv kend e s" "i < length (ftable s)"
  shows "file_inv kend (e(i := e i - 1)) s'" "length (ftable s') = length (ftable s)" "fprocs s' = fprocs s"
proof -
  have "f_ref (ftable s ! i) \<ge> 1" using assms(1) by (auto simp: fileclose_def Let_def split: if_splits)
  moreover have "iput (ffs s) (f_ip (ftable s ! i)) \<noteq> None" if "f_type (ftable s ! i) = FD_INODE" "f_ref (ftable s ! i) = 1"
    using assms(1) that by (auto simp: fileclose_def)
  ultimately show "file_inv kend (e(i := e i - 1)) s'" "length (ftable s') = length (ftable s)" "fprocs s' = fprocs s"
    using fileclose_ok[OF assms(2,3)] assms(1) by auto
qed

subsection \<open>Pipes\<close>

abbreviation pend_uniq :: "kfile list \<Rightarrow> bool" where
  "pend_uniq ts \<equiv> \<forall>i < length ts. \<forall>j < length ts. i \<noteq> j \<longrightarrow> pend (ts ! i) \<noteq> None \<longrightarrow> pend (ts ! i) \<noteq> pend (ts ! j)"

lemma pend_added:
  assumes "i < length ts" "pend (ts ! i) = None" "pend g = Some x"
  shows "Some y \<in> pend ` set (ts[i := g]) \<longleftrightarrow> Some y \<in> pend ` set ts \<or> y = x"
proof -
  have "pend (ts[i := g] ! k) = Some y \<longleftrightarrow> (if k = i then y = x else pend (ts ! k) = Some y)" if "k < length ts" for k
    using assms that by (cases "k = i") auto
  thus ?thesis unfolding in_pend length_list_update using assms by (metis option.distinct(1))
qed

lemma pend_uniq_added:
  assumes "pend_uniq ts" "i < length ts" "pend g = Some x" "Some x \<notin> pend ` set ts"
  shows "pend_uniq (ts[i := g])"
proof (intro allI impI)
  fix a b assume h: "a < length (ts[i := g])" "b < length (ts[i := g])" "a \<noteq> b" "pend (ts[i := g] ! a) \<noteq> None"
  have new: "pend (ts ! k) \<noteq> Some x" if "k < length ts" for k using assms(4) that unfolding in_pend by blast
  show "pend (ts[i := g] ! a) \<noteq> pend (ts[i := g] ! b)"
    using h assms(1-3) new[of a] new[of b] by (cases "a = i"; cases "b = i") auto
qed

lemma file_inv_new_pipe:
  assumes "file_inv kend e s" "f0 < length (ftable s)" "f1 < length (ftable s)" "f0 \<noteq> f1"
    "f_type (ftable s ! f0) = FD_NONE" "f_type (ftable s ! f1) = FD_NONE" "f_ref (ftable s ! f0) \<ge> 1" "f_ref (ftable s ! f1) \<ge> 1"
    "kalloc (fkm s) = (q, km)" "q \<noteq> 0" "pipe_inv p" "readopen p" "writeopen p"
  shows "file_inv kend e (fupd (fupd (s\<lparr>fkm := km, pipes := (pipes s)(q := Some p)\<rparr>) f0
      (\<lambda>f. f\<lparr>f_type := FD_PIPE, f_readable := True, f_writable := False, f_pipe := q\<rparr>)) f1
      (\<lambda>f. f\<lparr>f_type := FD_PIPE, f_readable := False, f_writable := True, f_pipe := q\<rparr>))" (is "file_inv _ _ ?s")
proof -
  let ?a = "(ftable s ! f0)\<lparr>f_type := FD_PIPE, f_readable := True, f_writable := False, f_pipe := q\<rparr>"
  let ?b = "(ftable s ! f1)\<lparr>f_type := FD_PIPE, f_readable := False, f_writable := True, f_pipe := q\<rparr>"
  let ?t1 = "(ftable s)[f0 := ?a]"
  let ?t2 = "?t1[f1 := ?b]"
  have t: "ftable ?s = ?t2" using assms(4) by simp
  obtain xs where k: "kinv kend (fkm s) xs" "\<And>r. pipes s r \<noteq> None \<Longrightarrow> kpage kend r \<and> r \<noteq> 0 \<and> r \<notin> set xs"
    using assms(1) unfolding file_inv_def pages_ok_def by blast
  obtain ys where ys: "xs = q # ys" using k(1) kpages.alloc_empty[of kend "fkm s"] kpages.alloc_cons[of kend "fkm s"] assms(9,10) by (cases xs) auto
  have km: "kinv kend km ys" using kpages.alloc_cons[of kend "fkm s" q ys] k(1) assms(9) ys by auto
  have pg: "kpage kend q \<and> q \<notin> set ys" using kpages.inv_pages[OF k(1)] ys by auto
  have qN: "pipes s q = None" using k(2)[of q] ys by (cases "pipes s q") auto
  have "refs_ok e s" using assms(1) by (simp add: file_inv_def)
  hence "refs_ok e ?s" unfolding refs_ok_def t using assms(2-8) by (auto simp: nth_list_update)
  moreover have "ends_ok ?s"
  proof -
    have e: "ends_ok s" using assms(1) by (simp add: file_inv_def)
    have p0: "pend (ftable s ! f0) = None" "pend (?t1 ! f1) = None" using assms(4-6) by (simp_all add: pend_def)
    have ab: "pend ?a = Some (q, False)" "pend ?b = Some (q, True)" by (simp_all add: pend_def)
    have im1: "Some y \<in> pend ` set ?t1 \<longleftrightarrow> Some y \<in> pend ` set (ftable s) \<or> y = (q, False)" for y by (rule pend_added[OF assms(2) p0(1) ab(1)])
    have im2: "Some y \<in> pend ` set ?t2 \<longleftrightarrow> Some y \<in> pend ` set ?t1 \<or> y = (q, True)" for y by (rule pend_added[OF _ p0(2) ab(2)]) (use assms(3) in simp)
    have nq: "Some (q, w) \<notin> pend ` set (ftable s)" for w using e qN unfolding ends_ok_def by (metis (mono_tags) end_open_def option.simps(4))
    have "pend_uniq ?t1" by (rule pend_uniq_added[OF _ assms(2) ab(1) nq]) (use e in \<open>simp add: ends_ok_def\<close>)
    hence "pend_uniq ?t2" by (rule pend_uniq_added[OF _ _ ab(2)]) (use assms(3) nq im1 in simp_all)
    moreover have "end_open ((pipes s)(q := Some p)) r w \<longleftrightarrow> Some (r, w) \<in> pend ` set ?t2" for r w
    proof -
      have "end_open (pipes s) r w \<longleftrightarrow> Some (r, w) \<in> pend ` set (ftable s)" using e by (simp add: ends_ok_def)
      thus ?thesis unfolding im2 im1 using assms(12,13) by (cases "r = q"; cases w) (auto simp: end_open_def)
    qed
    moreover have "(readopen x \<or> writeopen x) \<and> pipe_inv x" if "((pipes s)(q := Some p)) r = Some x" for r x
      using e assms(11,12) that by (auto simp: ends_ok_def split: if_splits)
    ultimately show ?thesis unfolding ends_ok_def t by simp
  qed
  moreover have "pages_ok kend ?s" unfolding pages_ok_def using km pg assms(10) k(2) ys by (intro exI[of _ ys]) auto
  ultimately show ?thesis by (simp add: file_inv_def)
qed

lemma new_pipe_ok: "pipe_inv (new_pipe km q)" "readopen (new_pipe km q)" "writeopen (new_pipe km q)"
  by (simp_all add: new_pipe_def pipe_inv_def pipe_len_def)

abbreviation quiet :: "nat \<Rightarrow> int" where "quiet \<equiv> \<lambda>_. 0"

lemma drop_two: "f0 \<noteq> f1 \<Longrightarrow> (quiet(f0 := 1, f1 := 1))(f0 := (quiet(f0 := 1, f1 := 1)) f0 - 1) = quiet(f1 := 1)"
  by auto

lemma drop_one: "(quiet(f := 1))(f := (quiet(f := 1)) f - 1) = quiet"
  by auto

lemma close_two:
  assumes "file_inv kend (quiet(f0 := 1, f1 := 1)) s" "f0 \<noteq> f1" "f0 < length (ftable s)" "f1 < length (ftable s)"
    "fileclose kend s f0 = Some s1" "fileclose kend s1 f1 = Some s2"
  shows "file_inv kend quiet s2 \<and> fprocs s2 = fprocs s \<and> length (ftable s2) = length (ftable s)"
proof -
  note c1 = fileclose_Some[OF assms(5,1,3)]
  have "file_inv kend (quiet(f1 := 1)) s1" using c1(1) drop_two[OF assms(2)] by simp
  from fileclose_Some[OF assms(6) this] show ?thesis using c1(2,3) assms(4) drop_one[of f1] by simp
qed

lemma pipealloc_inv:
  assumes "pipealloc kend s = Some (r, s')" "file_inv kend quiet s"
  shows "case r of None \<Rightarrow> file_inv kend quiet s' \<and> fprocs s' = fprocs s
    | Some (f0, f1) \<Rightarrow> file_inv kend (quiet(f0 := 1, f1 := 1)) s' \<and> fprocs s' = fprocs s \<and> f0 \<noteq> f1 \<and> f0 < length (ftable s') \<and> f1 < length (ftable s')"
proof -
  obtain a s1 where a: "filealloc s = (a, s1)" by fastforce
  show ?thesis
  proof (cases a)
    case None
    thus ?thesis using assms a filealloc_None[of s s1] by (auto simp: pipealloc_def)
  next
    case (Some f0)
    note i1 = filealloc_Some[OF a[unfolded Some] assms(2) order_refl]
    obtain b s2 where b: "filealloc s1 = (b, s2)" by fastforce
    have fp: "fprocs s1 = fprocs s" "length (ftable s1) = length (ftable s)" using i1(4) by simp_all
    show ?thesis
    proof (cases b)
      case None
      hence s2: "s2 = s1" using filealloc_None b by simp
      from assms(1) a b Some None s2 have r: "r = None" and fc: "fileclose kend s1 f0 = Some s'" by (auto simp: pipealloc_def)
      from fileclose_Some[OF fc i1(5)] i1(1) fp drop_one[of f0] r show ?thesis by simp
    next
      case (Some f1)
      have nn: "\<And>k. (quiet(f0 := 1)) k \<ge> 0" by simp
      note i2 = filealloc_Some[where e = "quiet(f0 := 1)", OF b[unfolded Some] i1(5) nn]
      have ne: "f0 \<noteq> f1" using i2(3) by (auto split: if_splits)
      have inv2: "file_inv kend (quiet(f0 := 1, f1 := 1)) s2" using i2(5) by simp
      have l: "f0 < length (ftable s2)" "f1 < length (ftable s2)" "fprocs s2 = fprocs s" using i1 i2 fp by simp_all
      obtain q km where k: "kalloc (fkm s2) = (q, km)" by fastforce
      show ?thesis
      proof (cases "q = 0")
        case True
        have "km = fkm s2" using k True by (auto simp: kalloc_def Let_def split: if_splits)
        hence "s2\<lparr>fkm := km\<rparr> = s2" by simp
        hence "Option.bind (fileclose kend s2 f0) (\<lambda>s3. Option.bind (fileclose kend s3 f1) (\<lambda>s4. Some (None, s4))) = Some (r, s')"
          using assms(1) a b \<open>a = Some f0\<close> \<open>b = Some f1\<close> k True by (simp add: pipealloc_def)
        then obtain s3 where x: "fileclose kend s2 f0 = Some s3" "fileclose kend s3 f1 = Some s'" "r = None"
          by (auto simp: bind_eq_Some_conv)
        from close_two[OF inv2 ne l(1,2) x(1,2)] l(3) x(3) show ?thesis by simp
      next
        case False
        have ty: "f_type (ftable s2 ! f0) = FD_NONE" "f_type (ftable s2 ! f1) = FD_NONE" "f_ref (ftable s2 ! f0) \<ge> 1" "f_ref (ftable s2 ! f1) \<ge> 1"
          using i1(1,2,4) i2(1,2,4) ne by simp_all
        have rr: "r = Some (f0, f1)" and s': "s' = fupd (fupd (s2\<lparr>fkm := km, pipes := (pipes s2)(q := Some (new_pipe km q))\<rparr>) f0
            (\<lambda>f. f\<lparr>f_type := FD_PIPE, f_readable := True, f_writable := False, f_pipe := q\<rparr>)) f1
            (\<lambda>f. f\<lparr>f_type := FD_PIPE, f_readable := False, f_writable := True, f_pipe := q\<rparr>)"
          using assms(1) a b \<open>a = Some f0\<close> \<open>b = Some f1\<close> k False by (simp_all add: pipealloc_def Let_def)
        show ?thesis unfolding s' rr option.case prod.case
          using file_inv_new_pipe[OF inv2 l(1,2) ne ty k False new_pipe_ok[of km q]] ne l by simp
      qed
    qed
  qed
qed

subsection \<open>System calls\<close>

lemma held_bound:
  assumes "file_inv kend e s" "c < length (fprocs s)" "fd < NOFILE" "fds (fprocs s ! c) ! fd = Some f"
  shows "f < length (ftable s)"
proof -
  have "Some f \<in> set (fds (fprocs s ! c))" using assms fds_length[OF assms(1,2)] by (metis nth_mem)
  moreover have "fds (fprocs s ! c) \<in> set (fd_tables s)" using assms(2) by simp
  ultimately show ?thesis using assms(1) unfolding file_inv_def refs_ok_def by blast
qed

lemma argfd_Some:
  assumes "argfd s c a = Some (fd, f)" "file_inv kend e s" "c < length (fprocs s)"
  shows "fd < NOFILE" "fds (fprocs s ! c) ! fd = Some f" "f < length (ftable s)"
proof -
  show f: "fd < NOFILE" "fds (fprocs s ! c) ! fd = Some f" using assms(1) by (auto simp: argfd_def split: option.splits if_splits)
  show "f < length (ftable s)" by (rule held_bound[OF assms(2,3) f])
qed

lemma set_fd_procs [simp]: "length (fprocs (set_fd s c fd v)) = length (fprocs s)"
  by (simp add: set_fd_def)

lemma filedup_frame: "filedup s f = Some s' \<Longrightarrow> fprocs s' = fprocs s \<and> length (ftable s') = length (ftable s)"
  by (auto simp: filedup_def split: if_splits)

lemma sys_dup_inv:
  assumes "sys_dup s c a = Some (r, s')" "file_inv kend quiet s" "c < length (fprocs s)"
  shows "file_inv kend quiet s' \<and> length (fprocs s') = length (fprocs s)"
proof (cases "argfd s c a")
  case None
  thus ?thesis using assms by (simp add: sys_dup_def)
next
  case (Some fdf)
  then obtain fd f where a: "argfd s c a = Some (fd, f)" by (cases fdf) auto
  note af = argfd_Some[OF a assms(2,3)]
  obtain x s1 where x: "fdalloc s c f = (x, s1)" by fastforce
  show ?thesis
  proof (cases x)
    case None
    thus ?thesis using assms a x fdalloc_None[of s c f s1] by (auto simp: sys_dup_def)
  next
    case (Some k)
    note al = fdalloc_Some[OF x[unfolded Some] assms(2,3) af(3)]
    have d: "filedup s1 f = Some s'" using assms(1) a x Some by (auto simp: sys_dup_def)
    have l: "f < length (ftable s1)" "length (fprocs s1) = length (fprocs s)" using al(4) af(3) by simp_all
    have "quiet(f := 0 - 1, f := (quiet(f := 0 - 1)) f + 1) = quiet" by auto
    thus ?thesis using filedup_Some[OF d al(1) l(1)] filedup_frame[OF d] l(2) by simp
  qed
qed

lemma close_held:
  assumes "fileclose kend (set_fd s c fd None) f = Some s'" "file_inv kend quiet s" "c < length (fprocs s)" "fd < NOFILE" "fds (fprocs s ! c) ! fd = Some f"
  shows "file_inv kend quiet s' \<and> length (fprocs s') = length (fprocs s)"
proof -
  have "file_inv kend (quiet(f := 1)) (set_fd s c fd None)" using clear_fd[OF assms(2-5)] by simp
  from fileclose_Some[OF assms(1) this] show ?thesis using held_bound[OF assms(2-5)] drop_one[of f] by simp
qed

lemma sys_close_inv:
  assumes "sys_close kend s c a = Some (r, s')" "file_inv kend quiet s" "c < length (fprocs s)"
  shows "file_inv kend quiet s' \<and> length (fprocs s') = length (fprocs s)"
proof (cases "argfd s c a")
  case None
  thus ?thesis using assms by (simp add: sys_close_def)
next
  case (Some fdf)
  then obtain fd f where a: "argfd s c a = Some (fd, f)" by (cases fdf) auto
  have "fileclose kend (set_fd s c fd None) f = Some s'" using assms(1) a by (auto simp: sys_close_def)
  thus ?thesis using close_held[OF _ assms(2,3)] argfd_Some[OF a assms(2,3)] by blast
qed

lemma file_inv_fupd_same:
  assumes "file_inv kend e s" "i < length (ftable s)" "f_ref (g (ftable s ! i)) = f_ref (ftable s ! i)" "pend (g (ftable s ! i)) = pend (ftable s ! i)"
    "f_type (g (ftable s ! i)) \<noteq> FD_NONE \<Longrightarrow> f_ref (ftable s ! i) \<ge> 1"
  shows "file_inv kend e (fupd s i g)"
proof -
  have "refs_ok (e(i := e i + 0)) (fupd s i g)" by (rule refs_fupd) (use assms in \<open>simp_all add: file_inv_def\<close>)
  moreover have "ends_ok (fupd s i g)" by (rule ends_fupd) (use assms in \<open>simp_all add: file_inv_def\<close>)
  ultimately show ?thesis using assms(1) by (simp add: file_inv_def pages_ok_def)
qed

lemma sys_open_inv:
  assumes "sys_open dv kend s c path omode = Some (r, s')" "file_inv kend quiet s" "c < length (fprocs s)"
  shows "file_inv kend quiet s' \<and> length (fprocs s') = length (fprocs s)"
proof (cases "path = None \<or> omode = None")
  case True
  thus ?thesis using assms by (auto simp: sys_open_def split: option.splits)
next
  case False
  then obtain p om where po: "path = Some p" "omode = Some om" by auto
  then obtain ro x where oi: "open_inode dv (ffs s) (fcwd (fprocs s ! c)) p om = Some (ro, x)"
    using assms(1) by (auto simp: sys_open_def bind_eq_Some_conv)
  show ?thesis
  proof (cases ro)
    case None
    thus ?thesis using assms po oi by (auto simp: sys_open_def)
  next
    case (Some ip)
    have i0: "file_inv kend quiet (s\<lparr>ffs := x\<rparr>)" using assms(2) by simp
    obtain a s1 where a: "filealloc (s\<lparr>ffs := x\<rparr>) = (a, s1)" by fastforce
    show ?thesis
    proof (cases a)
      case None
      hence "s1 = s\<lparr>ffs := x\<rparr>" using a filealloc_None by blast
      thus ?thesis using assms po oi \<open>ro = Some ip\<close> a None by (auto simp: sys_open_def)
    next
      case (Some f)
      note i1 = filealloc_Some[OF a[unfolded Some] i0 order_refl]
      have fp: "fprocs s1 = fprocs s" "f < length (ftable s1)" "c < length (fprocs s1)" using i1(1,4) assms(3) by simp_all
      obtain b s2 where b: "fdalloc s1 c f = (b, s2)" by fastforce
      show ?thesis
      proof (cases b)
        case None
        hence s2: "s2 = s1" using b fdalloc_None by blast
        obtain s3 y where c3: "fileclose kend s1 f = Some s3" "s' = s3\<lparr>ffs := y\<rparr>"
          using assms(1) po oi \<open>ro = Some ip\<close> a \<open>a = Some f\<close> b None s2 by (auto simp: sys_open_def bind_eq_Some_conv)
        from fileclose_Some[OF c3(1) i1(5) fp(2)] show ?thesis using c3(2) fp(1) drop_one[of f] by simp
      next
        case (Some fd)
        note al = fdalloc_Some[OF b[unfolded Some] i1(5) fp(3,2)]
        obtain y where y: "iunlock (ffs s2) ip = Some y" and s': "s' = fupd (s2\<lparr>ffs := y\<rparr>) f (\<lambda>fl. fl\<lparr>f_type := FD_INODE, f_ip := ip, f_off := 0,
             f_readable := (om AND O_WRONLY = 0), f_writable := (om AND O_WRONLY \<noteq> 0 \<or> om AND O_RDWR \<noteq> 0)\<rparr>)"
          using assms(1) po oi \<open>ro = Some ip\<close> a \<open>a = Some f\<close> b Some by (auto simp: sys_open_def bind_eq_Some_conv)
        have "file_inv kend quiet (s2\<lparr>ffs := y\<rparr>)" using al(1) drop_one[of f] by simp
        hence "file_inv kend quiet s'" unfolding s'
          by (rule file_inv_fupd_same) (use i1(1,2,4) al(4) in \<open>simp_all add: pend_def\<close>)
        thus ?thesis using s' al(4) fp(1) by simp
      qed
    qed
  qed
qed

lemma bind_close_two:
  assumes "Option.bind (fileclose kend s f0) (\<lambda>s3. Option.bind (fileclose kend s3 f1) (\<lambda>s4. Some (k s4))) = Some z"
    "file_inv kend (quiet(f0 := 1, f1 := 1)) s" "f0 \<noteq> f1" "f0 < length (ftable s)" "f1 < length (ftable s)"
  shows "\<exists>s4. z = k s4 \<and> file_inv kend quiet s4 \<and> fprocs s4 = fprocs s"
proof -
  obtain s3 s4 where "fileclose kend s f0 = Some s3" "fileclose kend s3 f1 = Some s4" "z = k s4"
    using assms(1) by (auto simp: bind_eq_Some_conv)
  thus ?thesis using close_two[OF assms(2-5)] by blast
qed

lemma sys_pipe_inv:
  assumes "sys_pipe kend s c a = Some (r, fdp, s')" "file_inv kend quiet s" "c < length (fprocs s)"
  shows "file_inv kend quiet s' \<and> length (fprocs s') = length (fprocs s)"
proof (cases "a = None")
  case True
  thus ?thesis using assms by (simp add: sys_pipe_def)
next
  case False
  then obtain ro s1 where pa: "pipealloc kend s = Some (ro, s1)"
    using assms(1) by (cases "pipealloc kend s") (auto simp: sys_pipe_def)
  note pi = pipealloc_inv[OF pa assms(2)]
  show ?thesis
  proof (cases ro)
    case None
    thus ?thesis using assms(1) False pa pi by (simp add: sys_pipe_def)
  next
    case (Some ff)
    then obtain f0 f1 where ro: "ro = Some (f0, f1)" by (cases ff) auto
    have i: "file_inv kend (quiet(f0 := 1, f1 := 1)) s1" "fprocs s1 = fprocs s" "f0 \<noteq> f1" "f0 < length (ftable s1)" "f1 < length (ftable s1)" "c < length (fprocs s1)"
      using pi ro assms(3) by simp_all
    obtain x s2 where x: "fdalloc s1 c f0 = (x, s2)" by fastforce
    show ?thesis
    proof (cases x)
      case None
      hence "s2 = s1" using x fdalloc_None by blast
      hence "Option.bind (fileclose kend s1 f0) (\<lambda>s3. Option.bind (fileclose kend s3 f1) (\<lambda>s4. Some (- 1, None, s4))) = Some (r, fdp, s')"
        using assms(1) False pa ro x None by (simp add: sys_pipe_def)
      from bind_close_two[OF this i(1,3,4,5)] i(2) show ?thesis by auto
    next
      case (Some fd0)
      note a1 = fdalloc_Some[OF x[unfolded Some] i(1,6,4)]
      have i2: "file_inv kend (quiet(f1 := 1)) s2" using a1(1) drop_two[OF i(3)] by simp
      have l2: "c < length (fprocs s2)" "f1 < length (ftable s2)" "f0 < length (ftable s2)" "length (fprocs s2) = length (fprocs s)" using a1(4) i by simp_all
      obtain y s3 where y: "fdalloc s2 c f1 = (y, s3)" by fastforce
      show ?thesis
      proof (cases y)
        case None
        hence s3: "s3 = s2" using y fdalloc_None by blast
        have "fds (fprocs s2 ! c) ! fd0 = Some f0" using a1 i(6) fds_length[OF i(1,6)] by (simp add: set_fd_def)
        from clear_fd[OF i2 l2(1) a1(2) this] have i3: "file_inv kend (quiet(f1 := 1, f0 := 1)) (set_fd s2 c fd0 None)" using i(3) by simp
        have i3': "file_inv kend (quiet(f0 := 1, f1 := 1)) (set_fd s2 c fd0 None)" using i3 fun_upd_twist[OF i(3), of quiet 1 1] by simp
        have "Option.bind (fileclose kend (set_fd s2 c fd0 None) f0) (\<lambda>s3. Option.bind (fileclose kend s3 f1) (\<lambda>s4. Some (- 1, None, s4))) = Some (r, fdp, s')"
          using assms(1) False pa ro x \<open>x = Some fd0\<close> y None s3 by (simp add: sys_pipe_def)
        from bind_close_two[OF this i3' i(3)] l2 show ?thesis by auto
      next
        case (Some fd1)
        note a2 = fdalloc_Some[OF y[unfolded Some] i2 l2(1,2)]
        have "s' = s3" using assms(1) False pa ro x \<open>x = Some fd0\<close> y Some by (simp add: sys_pipe_def)
        thus ?thesis using a2(1,4) l2(4) drop_one[of f1] by simp
      qed
    qed
  qed
qed

lemma file_inv_pipe_upd:
  assumes "file_inv kend e s" "pipes s q = Some p" "readopen p1 = readopen p" "writeopen p1 = writeopen p" "pipe_inv p1"
  shows "file_inv kend e (s\<lparr>pipes := (pipes s)(q := Some p1)\<rparr>)"
proof -
  have eo: "end_open ((pipes s)(q := Some p1)) r w = end_open (pipes s) r w" for r w
    using assms(2-4) by (simp add: end_open_def)
  have "ends_ok s" "pages_ok kend s" using assms(1) by (simp_all add: file_inv_def)
  hence "ends_ok (s\<lparr>pipes := (pipes s)(q := Some p1)\<rparr>)" using eo assms(2-5) by (auto simp: ends_ok_def)
  moreover obtain xs where "kinv kend (fkm s) xs" "\<And>r. pipes s r \<noteq> None \<Longrightarrow> kpage kend r \<and> r \<noteq> 0 \<and> r \<notin> set xs"
    using \<open>pages_ok kend s\<close> unfolding pages_ok_def by blast
  hence "pages_ok kend (s\<lparr>pipes := (pipes s)(q := Some p1)\<rparr>)" unfolding pages_ok_def using assms(2) by (intro exI[of _ xs]) auto
  moreover have "refs_ok e (s\<lparr>pipes := (pipes s)(q := Some p1)\<rparr>)"
    using assms(1) refs_ok_cong[of "s\<lparr>pipes := (pipes s)(q := Some p1)\<rparr>" s e] by (simp add: file_inv_def)
  ultimately show ?thesis by (simp add: file_inv_def)
qed

lemma typed_ref: "file_inv kend e s \<Longrightarrow> i < length (ftable s) \<Longrightarrow> f_type (ftable s ! i) \<noteq> FD_NONE \<Longrightarrow> 1 \<le> f_ref (ftable s ! i)"
  unfolding file_inv_def refs_ok_def by blast

lemma file_inv_offset:
  assumes "file_inv kend e s" "i < length (ftable s)"
  shows "file_inv kend e (fupd (s\<lparr>ffs := x\<rparr>) i (\<lambda>f. if b then f\<lparr>f_off := f_off f + k\<rparr> else f))"
proof (rule file_inv_fupd_same)
  assume "f_type (if b then (ftable (s\<lparr>ffs := x\<rparr>) ! i)\<lparr>f_off := f_off (ftable (s\<lparr>ffs := x\<rparr>) ! i) + k\<rparr> else ftable (s\<lparr>ffs := x\<rparr>) ! i) \<noteq> FD_NONE"
  hence "f_type (ftable s ! i) \<noteq> FD_NONE" by (simp split: if_splits)
  thus "1 \<le> f_ref (ftable (s\<lparr>ffs := x\<rparr>) ! i)" using typed_ref[OF assms] by simp
qed (use assms in \<open>simp_all add: pend_def\<close>)

lemma fileread_inv:
  assumes "fileread dv k s f n = Some (r, xs, s')" "file_inv kend e s" "f < length (ftable s)"
  shows "file_inv kend e s' \<and> fprocs s' = fprocs s"
proof (cases "f_readable (ftable s ! f)")
  case False
  thus ?thesis using assms by (simp add: fileread_def)
next
  case True
  show ?thesis
  proof (cases "f_type (ftable s ! f)")
    case FD_NONE
    thus ?thesis using assms(1) True by (simp add: fileread_def)
  next
    case FD_PIPE
    let ?q = "f_pipe (ftable s ! f)"
    obtain p where p: "pipes s ?q = Some p" using assms(1) True FD_PIPE by (cases "pipes s ?q") (auto simp: fileread_def)
    obtain r' w ys p1 where pr: "piperead k p n = (r', w, ys, p1)" by (metis prod_cases4)
    have s': "s' = s\<lparr>pipes := (pipes s)(?q := Some p1)\<rparr>" using assms(1) True FD_PIPE p pr by (simp add: fileread_def)
    have i: "pipe_inv p" using assms(2) p unfolding file_inv_def ends_ok_def by blast
    note run = piperead_run[OF pr, of "pipe_queue p" "[]"]
    have "pipe_inv p1" using run_pipe_inv[OF conjunct1[OF run] i] .
    thus ?thesis using file_inv_pipe_upd[OF assms(2) p] run s' by simp
  next
    case FD_INODE
    obtain x rr where s': "s' = fupd (s\<lparr>ffs := x\<rparr>) f (\<lambda>f. if rr > (0 :: int) then f\<lparr>f_off := f_off f + word_of_int rr\<rparr> else f)"
      using assms(1) True FD_INODE by (auto simp: fileread_def Let_def bind_eq_Some_conv)
    show ?thesis unfolding s' using file_inv_offset[OF assms(2,3)] by simp
  qed
qed

lemma filewrite_inv:
  assumes "filewrite dv k s f src n = Some (r, xs, s')" "file_inv kend e s" "f < length (ftable s)"
  shows "file_inv kend e s' \<and> fprocs s' = fprocs s"
proof (cases "f_writable (ftable s ! f)")
  case False
  thus ?thesis using assms by (simp add: filewrite_def)
next
  case True
  show ?thesis
  proof (cases "f_type (ftable s ! f)")
    case FD_NONE
    thus ?thesis using assms(1) True by (simp add: filewrite_def)
  next
    case FD_PIPE
    let ?q = "f_pipe (ftable s ! f)"
    obtain p where p: "pipes s ?q = Some p" using assms(1) True FD_PIPE by (cases "pipes s ?q") (auto simp: filewrite_def)
    obtain r' w ys p1 where pr: "pipewrite k p src n = (r', w, ys, p1)" by (metis prod_cases4)
    have s': "s' = s\<lparr>pipes := (pipes s)(?q := Some p1)\<rparr>" using assms(1) True FD_PIPE p pr by (simp add: filewrite_def)
    have i: "pipe_inv p" using assms(2) p unfolding file_inv_def ends_ok_def by blast
    note run = pipewrite_loop_run[OF pr[unfolded pipewrite_def], of "pipe_queue p" "[]"]
    have "pipe_inv p1" using run_pipe_inv[OF conjunct1[OF run] i] .
    thus ?thesis using file_inv_pipe_upd[OF assms(2) p] run s' by simp
  next
    case FD_INODE
    obtain x rr where s': "s' = fupd (s\<lparr>ffs := x\<rparr>) f (\<lambda>f. if rr > (0 :: int) then f\<lparr>f_off := f_off f + word_of_int rr\<rparr> else f)"
      using assms(1) True FD_INODE by (auto simp: filewrite_def Let_def bind_eq_Some_conv)
    show ?thesis unfolding s' using file_inv_offset[OF assms(2,3)] by simp
  qed
qed

subsection \<open>Fork and exit\<close>

lemma fork_fds_inv:
  assumes "fork_fds s c np rest = Some s'" "file_inv kend quiet s" "c < length (fprocs s)" "np < length (fprocs s)" "c \<noteq> np"
    "distinct rest" "\<And>fd. fd \<in> set rest \<Longrightarrow> fd < NOFILE \<and> fds (fprocs s ! np) ! fd = None"
  shows "file_inv kend quiet s' \<and> length (fprocs s') = length (fprocs s)"
  using assms
proof (induction rest arbitrary: s)
  case Nil
  thus ?case by simp
next
  case (Cons fd rest)
  have fd: "fd < NOFILE" "fds (fprocs s ! np) ! fd = None" using Cons.prems(7)[of fd] by simp_all
  show ?case
  proof (cases "fds (fprocs s ! c) ! fd")
    case None
    have "\<And>k. k \<in> set rest \<Longrightarrow> k < NOFILE \<and> fds (fprocs s ! np) ! k = None" using Cons.prems(7) by simp
    moreover have "fork_fds s c np rest = Some s'" using Cons.prems(1) None by simp
    moreover have "distinct rest" using Cons.prems(6) by simp
    ultimately show ?thesis using Cons.IH[OF _ Cons.prems(2-5)] by blast
  next
    case (Some f)
    then obtain s1 where d: "filedup s f = Some s1" using Cons.prems(1) by (cases "filedup s f") auto
    have b: "f < length (ftable s)" using held_bound[OF Cons.prems(2,3) fd(1) Some] .
    note fr = filedup_frame[OF d]
    have i1: "file_inv kend (quiet(f := 1)) s1" using filedup_Some[OF d Cons.prems(2) b] by simp
    have np: "np < length (fprocs s1)" "fds (fprocs s1 ! np) ! fd = None" using fr Cons.prems(4) fd(2) by simp_all
    have "(\<lambda>i. (quiet(f := 1)) i + (if fds (fprocs s1 ! np) ! fd = Some i then 1 else 0) - (if Some f = Some i then 1 else 0)) = quiet"
      using np(2) by auto
    hence i2: "file_inv kend quiet (set_fd s1 np fd (Some f))"
      using file_inv_set_fd[OF i1 np(1) fd(1), of "Some f"] fr b by simp
    have rest: "k < NOFILE \<and> fds (fprocs (set_fd s1 np fd (Some f)) ! np) ! k = None" if k: "k \<in> set rest" for k
    proof -
      have "k \<noteq> fd" using k Cons.prems(6) by auto
      thus ?thesis using Cons.prems(7)[of k] k np(1) fr by (simp add: set_fd_def)
    qed
    have "fork_fds (set_fd s1 np fd (Some f)) c np rest = Some s'" using Cons.prems(1) Some d by simp
    from Cons.IH[OF this i2 _ _ Cons.prems(5) _ rest] Cons.prems(3,4,6) fr show ?thesis by simp
  qed
qed

lemma file_inv_cwd: "np < length (fprocs s) \<Longrightarrow> file_inv kend e (s\<lparr>ffs := x, fprocs := (fprocs s)[np := (fprocs s ! np)\<lparr>fcwd := d\<rparr>]\<rparr>) = file_inv kend e s"
  by (rule file_inv_cong) (simp_all add: map_update list_update_same_conv)

lemma exit_fds_inv:
  assumes "exit_fds kend s c rest = Some s'" "file_inv kend quiet s" "c < length (fprocs s)" "\<And>fd. fd \<in> set rest \<Longrightarrow> fd < NOFILE"
  shows "file_inv kend quiet s' \<and> length (fprocs s') = length (fprocs s)"
  using assms
proof (induction rest arbitrary: s)
  case Nil
  thus ?case by simp
next
  case (Cons fd rest)
  have r: "\<And>k. k \<in> set rest \<Longrightarrow> k < NOFILE" using Cons.prems(4) by simp
  show ?case
  proof (cases "fds (fprocs s ! c) ! fd")
    case None
    have "exit_fds kend s c rest = Some s'" using Cons.prems(1) None by simp
    thus ?thesis using Cons.IH[OF _ Cons.prems(2,3) r] by blast
  next
    case (Some f)
    then obtain s1 where d: "fileclose kend s f = Some s1" using Cons.prems(1) by (cases "fileclose kend s f") auto
    have fd: "fd < NOFILE" using Cons.prems(4) by simp
    have b: "f < length (ftable s)" using held_bound[OF Cons.prems(2,3) fd Some] .
    note c1 = fileclose_Some[OF d Cons.prems(2) b]
    have "fds (fprocs s1 ! c) ! fd = Some f" "c < length (fprocs s1)" using Some c1(3) Cons.prems(3) by simp_all
    from clear_fd[OF c1(1) this(2) fd this(1)] have "file_inv kend (quiet(f := 0)) (set_fd s1 c fd None)" by simp
    moreover have "quiet(f := 0) = quiet" by auto
    ultimately have i2: "file_inv kend quiet (set_fd s1 c fd None)" by simp
    have "exit_fds kend (set_fd s1 c fd None) c rest = Some s'" using Cons.prems(1) Some d by simp
    from Cons.IH[OF this i2 _ r] c1(3) Cons.prems(3) show ?thesis by simp
  qed
qed

subsection \<open>Runs of the file layer\<close>

inductive file_step :: "devsw \<Rightarrow> u32 \<Rightarrow> filest \<Rightarrow> filest \<Rightarrow> bool" for dv kend where
  dup: "c < length (fprocs s) \<Longrightarrow> sys_dup s c a = Some (r, s') \<Longrightarrow> file_step dv kend s s'"
| close: "c < length (fprocs s) \<Longrightarrow> sys_close kend s c a = Some (r, s') \<Longrightarrow> file_step dv kend s s'"
| open_file: "c < length (fprocs s) \<Longrightarrow> sys_open dv kend s c path om = Some (r, s') \<Longrightarrow> file_step dv kend s s'"
| mkpipe: "c < length (fprocs s) \<Longrightarrow> sys_pipe kend s c a = Some (r, fdp, s') \<Longrightarrow> file_step dv kend s s'"
| rd: "c < length (fprocs s) \<Longrightarrow> sys_read dv s c a n p = Some (r, xs, s') \<Longrightarrow> file_step dv kend s s'"
| wr: "c < length (fprocs s) \<Longrightarrow> sys_write dv s c a n src = Some (r, xs, s') \<Longrightarrow> file_step dv kend s s'"
| fstat: "c < length (fprocs s) \<Longrightarrow> sys_fstat s c a st = Some (r, st', s') \<Longrightarrow> file_step dv kend s s'"
| link: "sys_link dv s c old new = Some (r, s') \<Longrightarrow> file_step dv kend s s'"
| unlink: "sys_unlink dv s c path = Some (r, s') \<Longrightarrow> file_step dv kend s s'"
| mkdir: "sys_mkdir dv s c path = Some (r, s') \<Longrightarrow> file_step dv kend s s'"
| mknod: "sys_mknod dv s c path ma mi = Some (r, s') \<Longrightarrow> file_step dv kend s s'"
| chdir: "c < length (fprocs s) \<Longrightarrow> sys_chdir s c path = Some (r, s') \<Longrightarrow> file_step dv kend s s'"
| fork: "c < length (fprocs s) \<Longrightarrow> np < length (fprocs s) \<Longrightarrow> c \<noteq> np \<Longrightarrow> fds (fprocs s ! np) = replicate NOFILE None \<Longrightarrow>
    proc_fork_files s c np = Some s' \<Longrightarrow> file_step dv kend s s'"
| exit: "c < length (fprocs s) \<Longrightarrow> proc_exit_files kend s c = Some s' \<Longrightarrow> file_step dv kend s s'"

lemma ffs_only:
  assumes "map_option (\<lambda>(r, x). (r, s\<lparr>ffs := x\<rparr>)) z = Some (r, s')"
  shows "\<exists>x. s' = s\<lparr>ffs := x\<rparr>"
  using assms by auto

lemma path_calls_ffs:
  "sys_link dv s c old new = Some (r, s') \<Longrightarrow> \<exists>x. s' = s\<lparr>ffs := x\<rparr>"
  "sys_unlink dv s c path = Some (r, s') \<Longrightarrow> \<exists>x. s' = s\<lparr>ffs := x\<rparr>"
  "sys_mkdir dv s c path = Some (r, s') \<Longrightarrow> \<exists>x. s' = s\<lparr>ffs := x\<rparr>"
  "sys_mknod dv s c path ma mi = Some (r, s') \<Longrightarrow> \<exists>x. s' = s\<lparr>ffs := x\<rparr>"
  "sys_fstat s c a st = Some (r', st', s') \<Longrightarrow> \<exists>x. s' = s\<lparr>ffs := x\<rparr>"
proof -
  have id: "\<exists>x. s = s\<lparr>ffs := x\<rparr>" by (rule exI[of _ "ffs s"]) simp
  show "sys_link dv s c old new = Some (r, s') \<Longrightarrow> \<exists>x. s' = s\<lparr>ffs := x\<rparr>"
    using id by (auto simp: sys_link_def split: option.splits)
  show "sys_unlink dv s c path = Some (r, s') \<Longrightarrow> \<exists>x. s' = s\<lparr>ffs := x\<rparr>"
    using id by (auto simp: sys_unlink_def split: option.splits)
  show "sys_mkdir dv s c path = Some (r, s') \<Longrightarrow> \<exists>x. s' = s\<lparr>ffs := x\<rparr>"
    using id by (auto simp: sys_mkdir_def bind_eq_Some_conv split: option.splits)
  show "sys_mknod dv s c path ma mi = Some (r, s') \<Longrightarrow> \<exists>x. s' = s\<lparr>ffs := x\<rparr>"
    using id by (auto simp: sys_mknod_def bind_eq_Some_conv split: option.splits)
  show "sys_fstat s c a st = Some (r', st', s') \<Longrightarrow> \<exists>x. s' = s\<lparr>ffs := x\<rparr>"
    using id by (auto simp: sys_fstat_def filestat_def Let_def bind_eq_Some_conv split: option.splits if_splits)
qed

lemma sys_rw_inv:
  assumes "file_inv kend quiet s" "c < length (fprocs s)"
  shows "sys_read dv s c a n p = Some (r, xs, s') \<Longrightarrow> file_inv kend quiet s'"
    "sys_write dv s c a n src = Some (r, xs, s') \<Longrightarrow> file_inv kend quiet s'"
proof -
  note b = argfd_Some(3)[OF _ assms]
  show "sys_read dv s c a n p = Some (r, xs, s') \<Longrightarrow> file_inv kend quiet s'"
    using assms(1) by (auto simp: sys_read_def split: option.splits dest!: b dest: fileread_inv)
  show "sys_write dv s c a n src = Some (r, xs, s') \<Longrightarrow> file_inv kend quiet s'"
    using assms(1) by (auto simp: sys_write_def split: option.splits dest!: b dest: filewrite_inv)
qed

lemma sys_chdir_inv:
  assumes "sys_chdir s c path = Some (r, s')" "file_inv kend quiet s" "c < length (fprocs s)"
  shows "file_inv kend quiet s'"
  using assms by (auto simp: sys_chdir_def bind_eq_Some_conv file_inv_cwd split: option.splits if_splits)

lemma file_step_inv:
  assumes "file_step dv kend s s'" "file_inv kend quiet s"
  shows "file_inv kend quiet s'"
  using assms(1)
proof cases
  case (fork c np)
  then obtain s1 where s1: "fork_fds s c np [0..<NOFILE] = Some s1"
    and s': "s' = s1\<lparr>ffs := idup (ffs s1) (fcwd (fprocs s1 ! c)), fprocs := (fprocs s1)[np := (fprocs s1 ! np)\<lparr>fcwd := fcwd (fprocs s1 ! c)\<rparr>]\<rparr>"
    by (auto simp: proc_fork_files_def bind_eq_Some_conv)
  have "file_inv kend quiet s1 \<and> length (fprocs s1) = length (fprocs s)"
    by (rule fork_fds_inv[OF s1 assms(2) fork(1,2,3)]) (use fork(4) in simp_all)
  thus ?thesis unfolding s' using fork(2) by (simp add: file_inv_cwd)
next
  case (exit c)
  then obtain s1 x where s1: "exit_fds kend s c [0..<NOFILE] = Some s1" and s': "s' = s1\<lparr>ffs := x\<rparr>"
    by (auto simp: proc_exit_files_def bind_eq_Some_conv)
  have "file_inv kend quiet s1 \<and> length (fprocs s1) = length (fprocs s)" by (rule exit_fds_inv[OF s1 assms(2) exit(1)]) simp
  thus ?thesis unfolding s' by simp
qed (use assms(2) sys_dup_inv sys_close_inv sys_open_inv sys_pipe_inv sys_rw_inv sys_chdir_inv path_calls_ffs file_inv_ffs in metis)+

lemma holders_Cons: "holders (t # D) i = int (count_list t (Some i)) + holders D i"
  by (simp add: holders_def)

lemma holders_ex:
  assumes "holders D i \<ge> 1"
  shows "\<exists>c k. c < length D \<and> k < length (D ! c) \<and> D ! c ! k = Some i"
proof -
  have "holders D i \<ge> 1 \<Longrightarrow> \<exists>t \<in> set D. Some i \<in> set t"
  proof (induction D)
    case Nil
    thus ?case by (simp add: holders_def)
  next
    case (Cons t D)
    show ?case
    proof (cases "Some i \<in> set t")
      case False
      hence "count_list t (Some i) = 0" by (simp add: count_list_0_iff)
      thus ?thesis using Cons by (auto simp: holders_Cons)
    qed simp
  qed
  with assms obtain t where "t \<in> set D" "Some i \<in> set t" by blast
  thus ?thesis by (metis in_set_conv_nth)
qed

lemma pipe_held:
  assumes "file_inv kend quiet s"
  shows "pipes s q \<noteq> None \<longleftrightarrow> (\<exists>c fd f. c < length (fprocs s) \<and> fd < NOFILE \<and> fds (fprocs s ! c) ! fd = Some f \<and>
    f_type (ftable s ! f) = FD_PIPE \<and> f_pipe (ftable s ! f) = q)"
proof
  assume "pipes s q \<noteq> None"
  then obtain p where p: "pipes s q = Some p" by auto
  hence "readopen p \<or> writeopen p" using assms unfolding file_inv_def ends_ok_def by blast
  hence "end_open (pipes s) q (writeopen p)" using p by (auto simp: end_open_def)
  then obtain w where "end_open (pipes s) q w" by blast
  hence "Some (q, w) \<in> pend ` set (ftable s)" using assms unfolding file_inv_def ends_ok_def by blast
  then obtain i where i: "i < length (ftable s)" "pend (ftable s ! i) = Some (q, w)" unfolding in_pend by blast
  hence ty: "f_type (ftable s ! i) = FD_PIPE" "f_pipe (ftable s ! i) = q" by (auto simp: pend_def split: if_splits)
  have "holders (fd_tables s) i \<ge> 1" using typed_ref[OF assms i(1)] ty(1) assms i(1) by (auto simp: file_inv_def refs_ok_def)
  from holders_ex[OF this] obtain c k where "c < length (fprocs s)" "k < length (fds (fprocs s ! c))" "fds (fprocs s ! c) ! k = Some i" by auto
  thus "\<exists>c fd f. c < length (fprocs s) \<and> fd < NOFILE \<and> fds (fprocs s ! c) ! fd = Some f \<and> f_type (ftable s ! f) = FD_PIPE \<and> f_pipe (ftable s ! f) = q"
    using ty fds_length[OF assms] by auto
next
  assume "\<exists>c fd f. c < length (fprocs s) \<and> fd < NOFILE \<and> fds (fprocs s ! c) ! fd = Some f \<and> f_type (ftable s ! f) = FD_PIPE \<and> f_pipe (ftable s ! f) = q"
  then obtain c fd f where h: "c < length (fprocs s)" "fd < NOFILE" "fds (fprocs s ! c) ! fd = Some f" "f_type (ftable s ! f) = FD_PIPE" "f_pipe (ftable s ! f) = q" by blast
  have "Some (q, f_writable (ftable s ! f)) \<in> pend ` set (ftable s)"
    unfolding in_pend using held_bound[OF assms h(1-3)] h(4,5) by (auto simp: pend_def)
  hence "end_open (pipes s) q (f_writable (ftable s ! f))" using assms unfolding file_inv_def ends_ok_def by blast
  thus "pipes s q \<noteq> None" by (auto simp: end_open_def split: option.splits)
qed

text \<open>
  C23: open files and pipes are counted correctly.  After any sequence of system calls of any processes, with
  forks and exits between them, the count of every open file is the number of descriptors that hold it, and the
  page of a pipe is allocated exactly as long as some process has a descriptor on the pipe: it is neither freed
  under a descriptor nor leaked.
\<close>

theorem descriptors_counted:
  assumes "(file_step dv kend)\<^sup>*\<^sup>* s s'" "file_inv kend quiet s"
  shows "(\<forall>i. i < length (ftable s') \<longrightarrow> f_ref (ftable s' ! i) = holders (fd_tables s') i) \<and>
    (\<forall>q. pipes s' q \<noteq> None \<longleftrightarrow> (\<exists>c fd f. c < length (fprocs s') \<and> fd < NOFILE \<and> fds (fprocs s' ! c) ! fd = Some f \<and>
      f_type (ftable s' ! f) = FD_PIPE \<and> f_pipe (ftable s' ! f) = q))"
proof -
  have i: "file_inv kend quiet s'" using assms by (induction rule: rtranclp_induct) (auto intro: file_step_inv)
  hence "\<forall>i. i < length (ftable s') \<longrightarrow> f_ref (ftable s' ! i) = holders (fd_tables s') i" by (simp add: file_inv_def refs_ok_def)
  thus ?thesis using pipe_held[OF i] by blast
qed

text \<open>Witness for C23: a process creates a pipe in a system with two file slots and one free page.\<close>

definition free_file :: kfile where
  "free_file = \<lparr>f_type = FD_NONE, f_ref = 0, f_readable = False, f_writable = False, f_pipe = 0, f_ip = 0, f_off = 0\<rparr>"

definition demo_files :: filest where
  "demo_files = \<lparr>ftable = [free_file, free_file], pipes = (\<lambda>_. None), fkm = \<lparr>kbytes = (\<lambda>_. 0), freelist = 0x5000\<rparr>,
     ffs = \<lparr>disk = (\<lambda>_ _ _. 0), icache = []\<rparr>, fprocs = [\<lparr>fds = None # None # replicate 14 None, fcwd = 0, fkilled = False\<rparr>]\<rparr>"

lemma demo_files_inv: "file_inv 0x1000 quiet demo_files"
proof -
  have "kinv 0x1000 \<lparr>kbytes = (\<lambda>_. 0), freelist = 0x5000\<rparr> [0x5000]"
    by (simp add: kinv_def kpage_def PGSIZE_def PHYSTOP_def load32_def le32_def)
  hence "pages_ok 0x1000 demo_files" by (auto simp: pages_ok_def demo_files_def)
  moreover have "refs_ok quiet demo_files"
    by (auto simp: refs_ok_def demo_files_def free_file_def holders_def less_Suc_eq count_list_0_iff)
  moreover have "ends_ok demo_files" by (auto simp: ends_ok_def demo_files_def free_file_def pend_def end_open_def less_Suc_eq)
  ultimately show ?thesis by (simp add: file_inv_def)
qed

lemma demo_pipe_call:
  "\<exists>s. sys_pipe 0x1000 demo_files 0 (Some 0) = Some (0, Some (0, 1), s) \<and> pipes s 0x5000 \<noteq> None \<and> 0 < length (ftable s)"
  by (simp add: sys_pipe_def pipealloc_def filealloc_def fdalloc_def demo_files_def free_file_def kalloc_def fupd_def set_fd_def)

theorem descriptors_counted_witness:
  "\<exists>s. f_ref (ftable s ! 0) = holders (fd_tables s) 0 \<and>
    (\<exists>c fd f. c < length (fprocs s) \<and> fd < NOFILE \<and> fds (fprocs s ! c) ! fd = Some f \<and>
      f_type (ftable s ! f) = FD_PIPE \<and> f_pipe (ftable s ! f) = 0x5000)"
proof -
  obtain s where s: "sys_pipe 0x1000 demo_files 0 (Some 0) = Some (0, Some (0, 1), s)" "pipes s 0x5000 \<noteq> None" "0 < length (ftable s)"
    using demo_pipe_call by blast
  have "file_step \<lparr>dread = (\<lambda>_. None), dwrite = (\<lambda>_. None)\<rparr> 0x1000 demo_files s"
    by (rule file_step.mkpipe[OF _ s(1)]) (simp add: demo_files_def)
  hence "(file_step \<lparr>dread = (\<lambda>_. None), dwrite = (\<lambda>_. None)\<rparr> 0x1000)\<^sup>*\<^sup>* demo_files s" by simp
  note d = descriptors_counted[OF this demo_files_inv]
  with d s(2,3) show ?thesis by blast
qed

end
