(* ===== verification/Server.thy ===== *)
theory Server
  imports Buffers
begin

text \<open>
  The multi-threaded web server (\<^verbatim>\<open>Project4a/server.c\<close>): the main thread accepts connections and puts
  them into an array of slots, worker threads take them out and handle them.  One mutex protects the array;
  main waits on the condition \<open>empty\<close> while all slots are filled, a worker waits on \<open>full\<close> while none is.
  A critical section is one step of the model; it ends with a result, with \<open>pthread_cond_wait\<close> or with
  \<open>exit(1)\<close>.  As POSIX allows, \<open>pthread_cond_signal\<close> wakes one of the waiting threads, whichever,
  and a waiting thread may also wake without a signal.  Accepting and handling a connection are the
  environment's.
\<close>

subsection \<open>The shared buffer\<close>

record conn_info =
  conn_fd :: int
  filled :: int
  issued :: int

record shared_buf =
  buffer :: "conn_info list"
  fill_count :: int

datatype 'a srv_result = SWait | SExit | SOk 'a

definition put_buffer :: "shared_buf \<Rightarrow> nat option \<times> shared_buf" where
  "put_buffer b =
     (case first_idx (\<lambda>c. filled c = 0) (buffer b) of
        None \<Rightarrow> (None, b)
      | Some i \<Rightarrow> (Some i, b\<lparr>buffer := (buffer b)[i := (buffer b ! i)\<lparr>filled := 1\<rparr>], fill_count := fill_count b + 1\<rparr>))"

definition get_buffer :: "shared_buf \<Rightarrow> nat option \<times> shared_buf" where
  "get_buffer b =
     (case first_idx (\<lambda>c. filled c = 1 \<and> issued c = 0) (buffer b) of
        None \<Rightarrow> (None, b)
      | Some i \<Rightarrow> (Some i, b\<lparr>buffer := (buffer b)[i := (buffer b ! i)\<lparr>issued := 1\<rparr>]\<rparr>))"

definition free_buffer :: "nat \<Rightarrow> shared_buf \<Rightarrow> shared_buf" where
  "free_buffer i b = b\<lparr>buffer := (buffer b)[i := (buffer b ! i)\<lparr>issued := 0, filled := 0\<rparr>], fill_count := fill_count b - 1\<rparr>"

text \<open>The critical section of \<open>connection_consumer\<close> and that of the loop of \<open>main\<close>.\<close>

definition consume :: "shared_buf \<Rightarrow> (int \<times> shared_buf) srv_result" where
  "consume b =
     (if fill_count b = 0 then SWait
      else case get_buffer b of
             (None, b1) \<Rightarrow> SExit
           | (Some i, b1) \<Rightarrow> SOk (conn_fd (buffer b1 ! i), free_buffer i b1))"

definition produce :: "int \<Rightarrow> int \<Rightarrow> shared_buf \<Rightarrow> shared_buf srv_result" where
  "produce n_buffers connfd b =
     (if fill_count b = n_buffers then SWait
      else case put_buffer b of
             (None, b1) \<Rightarrow> SExit
           | (Some i, b1) \<Rightarrow> SOk (b1\<lparr>buffer := (buffer b1)[i := (buffer b1 ! i)\<lparr>conn_fd := connfd\<rparr>]\<rparr>))"

text \<open>\<open>main\<close> initialises two fields of each slot of the block \<open>malloc\<close> returned.\<close>

definition init_buffer :: "conn_info list \<Rightarrow> shared_buf" where
  "init_buffer blk = \<lparr>buffer = map (\<lambda>c. c\<lparr>conn_fd := -1, filled := 0\<rparr>) blk, fill_count = 0\<rparr>"

subsection \<open>Slots as a bag\<close>

definition full_slots :: "conn_info list \<Rightarrow> conn_info multiset" where
  "full_slots cs = filter_mset (\<lambda>c. filled c = 1) (mset cs)"

definition slots_ok :: "nat \<Rightarrow> shared_buf \<Rightarrow> bool" where
  "slots_ok n b \<longleftrightarrow> length (buffer b) = n \<and> (\<forall>c \<in> set (buffer b). (filled c = 0 \<or> filled c = 1) \<and> issued c = 0) \<and>
     fill_count b = int (size (full_slots (buffer b)))"

definition waiting_fds :: "shared_buf \<Rightarrow> int multiset" where
  "waiting_fds b = image_mset conn_fd (full_slots (buffer b))"

lemma size_waiting: "slots_ok n b \<Longrightarrow> int (size (waiting_fds b)) = fill_count b"
  by (simp add: slots_ok_def waiting_fds_def)

lemma full_slots_update:
  assumes "i < length cs"
  shows "full_slots (cs[i := y]) + (if filled (cs ! i) = 1 then {#cs ! i#} else {#}) = full_slots cs + (if filled y = 1 then {#y#} else {#})"
proof -
  obtain M where m: "mset cs = add_mset (cs ! i) M" using assms by (metis nth_mem_mset multi_member_split)
  hence "mset (cs[i := y]) = add_mset y M" using assms by (simp add: mset_update)
  thus ?thesis unfolding full_slots_def m by simp
qed

lemma full_slots_le: "size (full_slots cs) \<le> length cs"
  unfolding full_slots_def using size_filter_mset_lesseq[of _ "mset cs"] by simp

lemma slots_ok_update:
  assumes "slots_ok n b" "i < length (buffer b)" "filled c = 0 \<or> filled c = 1" "issued c = 0"
    "k = int (size (full_slots ((buffer b)[i := c])))"
  shows "slots_ok n (b\<lparr>buffer := (buffer b)[i := c], fill_count := k\<rparr>)"
proof -
  have "set ((buffer b)[i := c]) \<subseteq> insert c (set (buffer b))" by (rule set_update_subset_insert)
  thus ?thesis using assms by (auto simp: slots_ok_def)
qed

lemma produce_cases:
  assumes "slots_ok n b"
  shows "if fill_count b = int n then produce (int n) x b = SWait
     else \<exists>b'. produce (int n) x b = SOk b' \<and> slots_ok n b' \<and> waiting_fds b' = add_mset x (waiting_fds b) \<and> fill_count b' = fill_count b + 1"
proof (cases "fill_count b = int n")
  case True
  thus ?thesis by (simp add: produce_def)
next
  case False
  have "\<exists>c \<in> set (buffer b). filled c = 0"
  proof (rule ccontr)
    assume "\<not> ?thesis"
    hence "full_slots (buffer b) = mset (buffer b)" using assms by (auto simp: slots_ok_def full_slots_def filter_mset_eq_conv)
    thus False using assms False by (simp add: slots_ok_def)
  qed
  then obtain i where i: "first_idx (\<lambda>c. filled c = 0) (buffer b) = Some i"
    using first_idx_exists[of _ "buffer b" "\<lambda>c. filled c = 0"] by blast
  have il: "i < length (buffer b)" "filled (buffer b ! i) = 0" using first_idx_SomeD[OF i] by simp_all
  let ?c = "(buffer b ! i)\<lparr>filled := 1, conn_fd := x\<rparr>"
  have p: "produce (int n) x b = SOk (b\<lparr>buffer := (buffer b)[i := ?c], fill_count := fill_count b + 1\<rparr>)"
    using False i il(1) by (simp add: produce_def put_buffer_def)
  have f: "full_slots ((buffer b)[i := ?c]) = add_mset ?c (full_slots (buffer b))"
    using full_slots_update[OF il(1), of ?c] il(2) by simp
  have "issued ?c = 0" using assms il(1) by (simp add: slots_ok_def)
  hence "slots_ok n (b\<lparr>buffer := (buffer b)[i := ?c], fill_count := fill_count b + 1\<rparr>)"
    using assms f by (intro slots_ok_update il) (simp_all add: slots_ok_def)
  thus ?thesis using False p f by (simp add: waiting_fds_def)
qed

lemma consume_cases:
  assumes "slots_ok n b"
  shows "if fill_count b = 0 then consume b = SWait
     else \<exists>x b'. consume b = SOk (x, b') \<and> slots_ok n b' \<and> waiting_fds b = add_mset x (waiting_fds b') \<and> fill_count b' = fill_count b - 1"
proof (cases "fill_count b = 0")
  case True
  thus ?thesis by (simp add: consume_def)
next
  case False
  hence "full_slots (buffer b) \<noteq> {#}" using assms by (auto simp: slots_ok_def)
  then obtain c where "c \<in> set (buffer b)" "filled c = 1" by (auto simp: full_slots_def filter_mset_eq_mempty_iff)
  moreover from this have "issued c = 0" using assms by (auto simp: slots_ok_def)
  ultimately obtain i where i: "first_idx (\<lambda>c. filled c = 1 \<and> issued c = 0) (buffer b) = Some i"
    using first_idx_exists[of c "buffer b" "\<lambda>c. filled c = 1 \<and> issued c = 0"] by auto
  have il: "i < length (buffer b)" "filled (buffer b ! i) = 1" using first_idx_SomeD[OF i] by simp_all
  let ?c = "(buffer b ! i)\<lparr>issued := 0, filled := 0\<rparr>"
  have p: "consume b = SOk (conn_fd (buffer b ! i), b\<lparr>buffer := (buffer b)[i := ?c], fill_count := fill_count b - 1\<rparr>)"
    using False i il(1) by (simp add: consume_def get_buffer_def free_buffer_def)
  have f: "full_slots (buffer b) = add_mset (buffer b ! i) (full_slots ((buffer b)[i := ?c]))"
    using full_slots_update[OF il(1), of ?c] il(2) by simp
  hence "slots_ok n (b\<lparr>buffer := (buffer b)[i := ?c], fill_count := fill_count b - 1\<rparr>)"
    using assms by (intro slots_ok_update il) (simp_all add: slots_ok_def)
  thus ?thesis using False p f by (simp add: waiting_fds_def)
qed

definition srv_put :: "nat \<Rightarrow> int \<Rightarrow> shared_buf \<Rightarrow> shared_buf option" where
  "srv_put n x b = (case produce (int n) x b of SOk b' \<Rightarrow> Some b' | _ \<Rightarrow> None)"

definition srv_get :: "shared_buf \<Rightarrow> (int \<times> shared_buf) option" where
  "srv_get b = (case consume b of SOk r \<Rightarrow> Some r | _ \<Rightarrow> None)"

interpretation srvbuf: bounded_buffer "slots_ok n" waiting_fds n "srv_put n" srv_get
proof (unfold_locales)
  fix b assume i: "slots_ok n b"
  show "size (waiting_fds b) \<le> n" using i full_slots_le[of "buffer b"] by (simp add: waiting_fds_def slots_ok_def)
  show "srv_put n x b = None \<longleftrightarrow> size (waiting_fds b) = n" for x
    using produce_cases[OF i, of x] size_waiting[OF i] by (auto simp: srv_put_def split: if_splits)
  show "srv_get b = None \<longleftrightarrow> waiting_fds b = {#}"
    using consume_cases[OF i] size_waiting[OF i] by (auto simp: srv_get_def split: if_splits)
  show "slots_ok n b' \<and> waiting_fds b' = add_mset x (waiting_fds b)" if "srv_put n x b = Some b'" for x b'
    using that produce_cases[OF i, of x] by (auto simp: srv_put_def split: if_splits)
  show "slots_ok n b' \<and> waiting_fds b = add_mset x (waiting_fds b')" if "srv_get b = Some (x, b')" for x b'
    using that consume_cases[OF i] by (auto simp: srv_get_def split: if_splits)
qed

lemma init_slots: "(\<forall>c \<in> set blk. issued c = 0) \<Longrightarrow> slots_ok (length blk) (init_buffer blk) \<and> waiting_fds (init_buffer blk) = {#}"
  by (auto simp: slots_ok_def init_buffer_def full_slots_def waiting_fds_def filter_mset_eq_mempty_iff)

subsection \<open>Main and the workers\<close>

text \<open>
  \<open>hand\<close> is the connection main has accepted and not yet stored, \<open>mwait\<close> tells that main waits on \<open>empty\<close>,
  \<open>cwait\<close> are the workers that wait on \<open>full\<close> and \<open>cwoken\<close> those that were woken and have not entered the
  critical section again.  \<open>m\<close> is the number of workers and \<open>n\<close> the number of slots.
\<close>

record srvsys =
  sb :: shared_buf
  hand :: "int option"
  mwait :: bool
  cwait :: "nat set"
  cwoken :: "nat set"
  accepted :: "int list"
  taken :: "int list"
  died :: bool

definition signalled :: "nat set \<Rightarrow> nat set \<Rightarrow> nat set \<Rightarrow> nat set \<Rightarrow> bool" where
  "signalled W R W' R' \<longleftrightarrow> (if W = {} then W' = {} \<and> R' = R else \<exists>t \<in> W. W' = W - {t} \<and> R' = insert t R)"

inductive srv_step :: "nat \<Rightarrow> nat \<Rightarrow> srvsys \<Rightarrow> srvsys \<Rightarrow> bool" for m n where
  accept_conn: "\<not> died s \<Longrightarrow> hand s = None \<Longrightarrow> srv_step m n s (s\<lparr>hand := Some x, accepted := accepted s @ [x]\<rparr>)"
| main_put: "\<not> died s \<Longrightarrow> hand s = Some x \<Longrightarrow> \<not> mwait s \<Longrightarrow> produce (int n) x (sb s) = SOk b \<Longrightarrow>
    signalled (cwait s) (cwoken s) W R \<Longrightarrow> srv_step m n s (s\<lparr>sb := b, hand := None, cwait := W, cwoken := R\<rparr>)"
| main_wait: "\<not> died s \<Longrightarrow> hand s = Some x \<Longrightarrow> \<not> mwait s \<Longrightarrow> produce (int n) x (sb s) = SWait \<Longrightarrow>
    srv_step m n s (s\<lparr>mwait := True\<rparr>)"
| main_exit: "\<not> died s \<Longrightarrow> hand s = Some x \<Longrightarrow> \<not> mwait s \<Longrightarrow> produce (int n) x (sb s) = SExit \<Longrightarrow>
    srv_step m n s (s\<lparr>died := True\<rparr>)"
| worker_take: "\<not> died s \<Longrightarrow> t < m \<Longrightarrow> t \<notin> cwait s \<Longrightarrow> consume (sb s) = SOk (x, b) \<Longrightarrow>
    srv_step m n s (s\<lparr>sb := b, taken := taken s @ [x], cwoken := cwoken s - {t}, mwait := False\<rparr>)"
| worker_wait: "\<not> died s \<Longrightarrow> t < m \<Longrightarrow> t \<notin> cwait s \<Longrightarrow> consume (sb s) = SWait \<Longrightarrow>
    srv_step m n s (s\<lparr>cwait := insert t (cwait s), cwoken := cwoken s - {t}\<rparr>)"
| worker_exit: "\<not> died s \<Longrightarrow> t < m \<Longrightarrow> t \<notin> cwait s \<Longrightarrow> consume (sb s) = SExit \<Longrightarrow> srv_step m n s (s\<lparr>died := True\<rparr>)"
| worker_spurious: "t \<in> cwait s \<Longrightarrow> srv_step m n s (s\<lparr>cwait := cwait s - {t}, cwoken := insert t (cwoken s)\<rparr>)"
| main_spurious: "srv_step m n s (s\<lparr>mwait := False\<rparr>)"

definition srv_start :: "conn_info list \<Rightarrow> srvsys" where
  "srv_start blk = \<lparr>sb = init_buffer blk, hand = None, mwait = False, cwait = {}, cwoken = {}, accepted = [], taken = [], died = False\<rparr>"

definition in_hand :: "srvsys \<Rightarrow> int multiset" where
  "in_hand s = (case hand s of None \<Rightarrow> {#} | Some x \<Rightarrow> {#x#})"

definition srv_inv :: "nat \<Rightarrow> nat \<Rightarrow> srvsys \<Rightarrow> bool" where
  "srv_inv m n s \<longleftrightarrow> slots_ok n (sb s) \<and> \<not> died s \<and> cwait s \<subseteq> {..<m} \<and> cwoken s \<subseteq> {..<m} \<and> cwait s \<inter> cwoken s = {} \<and>
     (cwait s \<noteq> {} \<longrightarrow> fill_count (sb s) \<le> int (card (cwoken s))) \<and>
     (mwait s \<longrightarrow> fill_count (sb s) = int n \<and> hand s \<noteq> None) \<and>
     mset (accepted s) = mset (taken s) + waiting_fds (sb s) + in_hand s"

lemma produce_SOk: "slots_ok n b \<Longrightarrow> produce (int n) x b = SOk b' \<Longrightarrow>
    slots_ok n b' \<and> waiting_fds b' = add_mset x (waiting_fds b) \<and> fill_count b' = fill_count b + 1"
  using produce_cases[of n b x] by (auto split: if_splits)

lemma produce_SWait: "slots_ok n b \<Longrightarrow> produce (int n) x b = SWait \<Longrightarrow> fill_count b = int n"
  using produce_cases[of n b x] by (auto split: if_splits)

lemma produce_alive: "slots_ok n b \<Longrightarrow> produce (int n) x b \<noteq> SExit"
  using produce_cases[of n b x] by (auto split: if_splits)

lemma consume_SOk: "slots_ok n b \<Longrightarrow> consume b = SOk (x, b') \<Longrightarrow>
    slots_ok n b' \<and> waiting_fds b = add_mset x (waiting_fds b') \<and> fill_count b' = fill_count b - 1"
  using consume_cases[of n b] by (auto split: if_splits)

lemma consume_SWait: "slots_ok n b \<Longrightarrow> consume b = SWait \<Longrightarrow> fill_count b = 0"
  using consume_cases[of n b] by (auto split: if_splits)

lemma consume_alive: "slots_ok n b \<Longrightarrow> consume b \<noteq> SExit"
  using consume_cases[of n b] by (auto split: if_splits)

lemma card_woken_remove: "finite R \<Longrightarrow> f \<le> int (card R) \<Longrightarrow> f - 1 \<le> int (card (R - {t}))"
  by (cases "t \<in> R") (auto simp: card_Diff_singleton_if)

lemma srv_step_inv:
  assumes "srv_step m n s s'" "srv_inv m n s"
  shows "srv_inv m n s'"
proof -
  have ok: "slots_ok n (sb s)" and sub: "cwait s \<subseteq> {..<m}" "cwoken s \<subseteq> {..<m}" and fin: "finite (cwoken s)"
    using assms(2) by (auto simp: srv_inv_def intro: finite_subset)
  show ?thesis using assms(1)
  proof cases
    case (main_put x b W R)
    note p = produce_SOk[OF ok main_put(5)]
    show ?thesis
    proof (cases "cwait s = {}")
      case True
      thus ?thesis using main_put p assms(2) by (auto simp: srv_inv_def signalled_def in_hand_def)
    next
      case False
      then obtain t where t: "t \<in> cwait s" "W = cwait s - {t}" "R = insert t (cwoken s)"
        using main_put(6) by (auto simp: signalled_def)
      have "t \<notin> cwoken s" using t(1) assms(2) by (auto simp: srv_inv_def)
      hence "card R = Suc (card (cwoken s))" using t(3) fin by simp
      thus ?thesis using main_put p t False assms(2) by (auto simp: srv_inv_def in_hand_def)
    qed
  next
    case (worker_take t x b)
    note p = consume_SOk[OF ok worker_take(5)]
    have "cwait s \<noteq> {} \<longrightarrow> fill_count b \<le> int (card (cwoken s - {t}))"
      using p card_woken_remove[OF fin, of "fill_count (sb s)" t] assms(2) by (auto simp: srv_inv_def)
    thus ?thesis using worker_take p assms(2) by (auto simp: srv_inv_def in_hand_def split: option.splits)
  next
    case (worker_wait t)
    thus ?thesis using consume_SWait[OF ok worker_wait(5)] assms(2) by (auto simp: srv_inv_def in_hand_def)
  next
    case (worker_spurious t)
    have "card (cwoken s) \<le> card (insert t (cwoken s))" using fin by (simp add: card_insert_le)
    thus ?thesis using worker_spurious assms(2) sub by (auto simp: srv_inv_def in_hand_def)
  qed (use assms(2) produce_SWait[OF ok] produce_alive[OF ok] consume_alive[OF ok] in \<open>auto simp: srv_inv_def in_hand_def\<close>)
qed

lemma srv_reach_inv:
  assumes "(srv_step m n)\<^sup>*\<^sup>* (srv_start blk) s" "length blk = n" "\<forall>c \<in> set blk. issued c = 0"
  shows "srv_inv m n s"
proof -
  have "srv_inv m n (srv_start blk)" using init_slots[OF assms(3)] assms(2) by (auto simp: srv_inv_def srv_start_def in_hand_def)
  with assms(1) show ?thesis by (induction rule: rtranclp_induct) (auto intro: srv_step_inv)
qed


text \<open>Witness for C21: a connection is accepted and stored in a server with one slot.\<close>

definition demo_slot :: "conn_info list" where
  "demo_slot = [\<lparr>conn_fd = 0, filled = 0, issued = 0\<rparr>]"

definition demo_stored :: srvsys where
  "demo_stored = (srv_start demo_slot)\<lparr>sb := \<lparr>buffer = [\<lparr>conn_fd = 4, filled = 1, issued = 0\<rparr>], fill_count = 1\<rparr>, accepted := [4]\<rparr>"

lemma demo_server_run: "(srv_step 2 1)\<^sup>*\<^sup>* (srv_start demo_slot) demo_stored"
proof -
  let ?s1 = "(srv_start demo_slot)\<lparr>hand := Some 4, accepted := [4]\<rparr>"
  have "srv_step 2 1 (srv_start demo_slot) ?s1"
    using srv_step.accept_conn[of "srv_start demo_slot" 2 1 4] by (simp add: srv_start_def)
  moreover have p: "produce (int 1) 4 (sb ?s1) = SOk (sb demo_stored)"
    by (simp add: produce_def put_buffer_def srv_start_def init_buffer_def demo_slot_def demo_stored_def)
  moreover have "srv_step 2 1 ?s1 demo_stored"
    using srv_step.main_put[of ?s1 4 1 "sb demo_stored" "{}" "{}" 2] p
    by (simp add: signalled_def srv_start_def demo_stored_def)
  ultimately show ?thesis by simp
qed




text \<open>
  The field \<open>issued\<close> is never initialised: with a slot whose block held another value, the worker does not
  find the connection that was stored, reads slot \<open>-1\<close> and ends the server.
\<close>

lemma garbage_issued_ends_server:
  assumes "issued c \<noteq> 0" "produce 1 x (init_buffer [c]) = SOk b"
  shows "consume b = SExit"
  using assms by (auto simp: produce_def put_buffer_def init_buffer_def consume_def get_buffer_def)

end
