(* ===== verification/LinkedList.thy ===== *)
theory LinkedList
  imports Prelude
begin

text \<open>
  The doubly linked list of the shell (\<^verbatim>\<open>Project2a/linked_list.c\<close>) on a heap of nodes.  A pointer is a
  natural number, 0 is NULL; \<open>None\<close> is the access to memory that is not allocated.  The address that
  \<open>malloc\<close> returns is an argument.  \<open>links\<close> relates a heap to the list of its nodes and their data.
\<close>

subsection \<open>Operations\<close>

record 'd lnode =
  prev_p :: nat
  next_p :: nat
  ldata :: 'd

record 'd llist =
  lheap :: "nat \<Rightarrow> 'd lnode option"
  lhead :: nat
  ltail :: nat

definition set_node :: "nat \<Rightarrow> ('d lnode \<Rightarrow> 'd lnode) \<Rightarrow> 'd llist \<Rightarrow> 'd llist option" where
  "set_node p g s = (case lheap s p of None \<Rightarrow> None | Some x \<Rightarrow> Some (s\<lparr>lheap := (lheap s)(p := Some (g x))\<rparr>))"

definition free_node :: "nat \<Rightarrow> 'd llist \<Rightarrow> 'd llist option" where
  "free_node p s = (if lheap s p = None then None else Some (s\<lparr>lheap := (lheap s)(p := None)\<rparr>))"

definition ll_initialize :: "'d llist \<Rightarrow> 'd llist" where
  "ll_initialize s = s\<lparr>lhead := 0, ltail := 0\<rparr>"

definition create_new_node :: "nat \<Rightarrow> 'd \<Rightarrow> 'd llist \<Rightarrow> 'd llist option" where
  "create_new_node new d s =
     (if new = 0 then None else Some (s\<lparr>lheap := (lheap s)(new := Some \<lparr>prev_p = 0, next_p = 0, ldata = d\<rparr>)\<rparr>))"

definition ll_insert_head :: "nat \<Rightarrow> 'd \<Rightarrow> 'd llist \<Rightarrow> 'd llist option" where
  "ll_insert_head new d s = do {
     s1 \<leftarrow> create_new_node new d s;
     (if lhead s1 = 0 \<or> ltail s1 = 0 then Some (s1\<lparr>lhead := new, ltail := new\<rparr>)
      else do {
        s2 \<leftarrow> set_node new (\<lambda>x. x\<lparr>next_p := lhead s1\<rparr>) s1;
        s3 \<leftarrow> set_node (lhead s2) (\<lambda>x. x\<lparr>prev_p := new\<rparr>) s2;
        Some (s3\<lparr>lhead := new\<rparr>)
      })
   }"

definition ll_insert_tail :: "nat \<Rightarrow> 'd \<Rightarrow> 'd llist \<Rightarrow> 'd llist option" where
  "ll_insert_tail new d s = do {
     s1 \<leftarrow> create_new_node new d s;
     (if lhead s1 = 0 \<or> ltail s1 = 0 then Some (s1\<lparr>lhead := new, ltail := new\<rparr>)
      else do {
        s2 \<leftarrow> set_node new (\<lambda>x. x\<lparr>prev_p := ltail s1\<rparr>) s1;
        s3 \<leftarrow> set_node (ltail s2) (\<lambda>x. x\<lparr>next_p := new\<rparr>) s2;
        Some (s3\<lparr>ltail := new\<rparr>)
      })
   }"

definition ll_delete_head :: "'d llist \<Rightarrow> 'd llist option" where
  "ll_delete_head s =
     (if lhead s = 0 then Some s
      else do {
        x \<leftarrow> lheap s (lhead s);
        let s1 = s\<lparr>lhead := next_p x\<rparr>;
        s2 \<leftarrow> (if lhead s1 = 0 then Some (s1\<lparr>ltail := 0\<rparr>) else set_node (lhead s1) (\<lambda>y. y\<lparr>prev_p := 0\<rparr>) s1);
        free_node (lhead s) s2
      })"

definition ll_delete_tail :: "'d llist \<Rightarrow> 'd llist option" where
  "ll_delete_tail s =
     (if ltail s = 0 then Some s
      else do {
        x \<leftarrow> lheap s (ltail s);
        let s1 = s\<lparr>ltail := prev_p x\<rparr>;
        s2 \<leftarrow> (if ltail s1 = 0 then Some (s1\<lparr>lhead := 0\<rparr>) else set_node (ltail s1) (\<lambda>y. y\<lparr>next_p := 0\<rparr>) s1);
        free_node (ltail s) s2
      })"

text \<open>
  The loop of \<open>ll_delete_node\<close> and of \<open>ll_find\<close>: the first node from \<open>itr\<close> on whose data pass the test, 0 at the end.
  On a cyclic heap it does not end.
\<close>

partial_function (option) ll_seek :: "('d \<Rightarrow> bool) \<Rightarrow> 'd llist \<Rightarrow> nat \<Rightarrow> nat option" where
  "ll_seek P s itr =
     (if itr = 0 then Some 0
      else Option.bind (lheap s itr) (\<lambda>x. if P (ldata x) then Some itr else ll_seek P s (next_p x)))"

definition ll_find :: "'k \<Rightarrow> ('k \<Rightarrow> 'd \<Rightarrow> bool) \<Rightarrow> 'd llist \<Rightarrow> nat option" where
  "ll_find key compare s = ll_seek (compare key) s (lhead s)"

definition ll_delete_node :: "'d \<Rightarrow> 'd llist \<Rightarrow> 'd llist option" where
  "ll_delete_node key s =
     (if lhead s = 0 then Some s
      else do {
        h \<leftarrow> lheap s (lhead s);
        (if ldata h = key then ll_delete_head s
         else do {
           t \<leftarrow> lheap s (ltail s);
           (if ldata t = key then ll_delete_tail s
            else do {
              itr \<leftarrow> ll_seek (\<lambda>d. d = key) s (lhead s);
              (if itr = 0 then Some s
               else do {
                 x \<leftarrow> lheap s itr;
                 s1 \<leftarrow> set_node (prev_p x) (\<lambda>y. y\<lparr>next_p := next_p x\<rparr>) s;
                 s2 \<leftarrow> set_node (next_p x) (\<lambda>y. y\<lparr>prev_p := prev_p x\<rparr>) s1;
                 free_node itr s2
               })
            })
         })
      })"

partial_function (option) ll_free_loop :: "'d llist \<Rightarrow> nat \<Rightarrow> 'd llist option" where
  "ll_free_loop s itr =
     (if itr = 0 then Some s
      else Option.bind (lheap s itr) (\<lambda>x. Option.bind (free_node itr s) (\<lambda>s1. ll_free_loop s1 (next_p x))))"

definition ll_free :: "'d llist \<Rightarrow> 'd llist option" where
  "ll_free s =
     (if lhead s = 0 then Some s
      else map_option (\<lambda>s1. s1\<lparr>lhead := 0, ltail := 0\<rparr>) (ll_free_loop s (lhead s)))"

partial_function (option) ll_count :: "'d llist \<Rightarrow> nat \<Rightarrow> int \<Rightarrow> int option" where
  "ll_count s itr n =
     (if itr = 0 then Some n else Option.bind (lheap s itr) (\<lambda>x. ll_count s (next_p x) (n + 1)))"

definition ll_size :: "'d llist \<Rightarrow> int option" where
  "ll_size s = ll_count s (lhead s) 0"

subsection \<open>The list in the heap\<close>

text \<open>
  \<open>ns\<close> lists the addresses of the nodes with their data.  They are chained in both directions, between the node
  \<open>b\<close> before and \<open>a\<close> after them.  The heap of a list holds its nodes and nothing else.
\<close>

definition first_of :: "(nat \<times> 'd) list \<Rightarrow> nat \<Rightarrow> nat" where
  "first_of ns a = (case ns of [] \<Rightarrow> a | n # _ \<Rightarrow> fst n)"

definition last_of :: "nat \<Rightarrow> (nat \<times> 'd) list \<Rightarrow> nat" where
  "last_of b ns = (if ns = [] then b else fst (last ns))"

fun chain :: "(nat \<Rightarrow> 'd lnode option) \<Rightarrow> nat \<Rightarrow> (nat \<times> 'd) list \<Rightarrow> nat \<Rightarrow> bool" where
  "chain h b [] a \<longleftrightarrow> True"
| "chain h b ((p, x) # ns) a \<longleftrightarrow> h p = Some \<lparr>prev_p = b, next_p = first_of ns a, ldata = x\<rparr> \<and> chain h p ns a"

definition links :: "'d llist \<Rightarrow> (nat \<times> 'd) list \<Rightarrow> bool" where
  "links s ns \<longleftrightarrow> distinct (map fst ns) \<and> 0 \<notin> fst ` set ns \<and> chain (lheap s) 0 ns 0 \<and>
     lhead s = first_of ns 0 \<and> ltail s = last_of 0 ns \<and> dom (lheap s) = fst ` set ns"

lemma first_of_simps [simp]: "first_of [] a = a" "first_of (n # ns) a = fst n" "first_of (ms @ ns) a = first_of ms (first_of ns a)"
  by (auto simp: first_of_def split: list.splits)

lemma last_of_simps [simp]: "last_of b [] = b" "last_of b (n # ns) = last_of (fst n) ns" "last_of b (ms @ ns) = last_of (last_of b ms) ns"
  by (auto simp: last_of_def)

lemma chain_cong: "(\<And>p. p \<in> fst ` set ns \<Longrightarrow> h' p = h p) \<Longrightarrow> chain h' b ns a = chain h b ns a"
  by (induction ns arbitrary: b) (auto simp: image_iff)

lemma chain_upd [simp]: "p \<notin> fst ` set ns \<Longrightarrow> chain (h(p := v)) b ns a = chain h b ns a"
  by (rule chain_cong) auto

lemma chain_append [simp]: "chain h b (ms @ ns) a \<longleftrightarrow> chain h b ms (first_of ns a) \<and> chain h (last_of b ms) ns a"
proof (induction ms arbitrary: b)
  case (Cons m ms)
  show ?case by (cases m) (simp add: Cons.IH)
qed simp

lemma last_of_in: "ns \<noteq> [] \<Longrightarrow> last_of b ns \<in> fst ` set ns"
  by (simp add: last_of_def)

lemma links_empty: "links s ns \<Longrightarrow> lhead s = 0 \<longleftrightarrow> ns = []"
  by (cases ns) (auto simp: links_def)

lemma links_empty_tail: "links s ns \<Longrightarrow> ltail s = 0 \<longleftrightarrow> ns = []"
  using last_of_in[of ns 0] unfolding links_def by (metis last_of_simps(1))

lemma insert_head_links:
  assumes "links s ns" "p \<noteq> 0" "p \<notin> fst ` set ns"
  shows "\<exists>s'. ll_insert_head p d s = Some s' \<and> links s' ((p, d) # ns)"
proof (cases ns)
  case Nil
  thus ?thesis using assms by (simp add: ll_insert_head_def create_new_node_def links_def)
next
  case (Cons n ms)
  obtain q y where n: "n = (q, y)" by fastforce
  have q: "lhead s = q" "q \<noteq> 0" "p \<noteq> q" "ltail s \<noteq> 0" using assms Cons n links_empty_tail[OF assms(1)] by (auto simp: links_def)
  thus ?thesis using assms unfolding Cons n
    by (auto simp: ll_insert_head_def create_new_node_def set_node_def links_def)
qed

lemma snoc_cases: "xs = [] \<or> (\<exists>ys y. xs = ys @ [y])"
  by (cases xs rule: rev_cases) auto

lemma insert_tail_links:
  assumes "links s ns" "p \<noteq> 0" "p \<notin> fst ` set ns"
  shows "\<exists>s'. ll_insert_tail p d s = Some s' \<and> links s' (ns @ [(p, d)])"
proof (cases ns rule: rev_cases)
  case Nil
  thus ?thesis using assms by (simp add: ll_insert_tail_def create_new_node_def links_def)
next
  case (snoc ms n)
  obtain q y where n: "n = (q, y)" by fastforce
  have q: "ltail s = q" "q \<noteq> 0" "p \<noteq> q" "lhead s \<noteq> 0" "q \<notin> fst ` set ms" using assms snoc n links_empty[OF assms(1)] by (auto simp: links_def)
  thus ?thesis using assms unfolding snoc n
    by (auto simp: ll_insert_tail_def create_new_node_def set_node_def links_def)
qed

lemma delete_head_links:
  assumes "links s ns"
  shows "\<exists>s'. ll_delete_head s = Some s' \<and> links s' (tl ns)"
proof (cases ns)
  case Nil
  thus ?thesis using assms by (simp add: ll_delete_head_def links_def)
next
  case (Cons n ms)
  obtain q y where n: "n = (q, y)" by fastforce
  show ?thesis
  proof (cases ms)
    case Nil
    thus ?thesis using assms unfolding Cons n by (auto simp: ll_delete_head_def free_node_def links_def simp del: dom_eq_empty_conv)
  next
    case (Cons m ks)
    obtain r z where m: "m = (r, z)" by fastforce
    show ?thesis using assms unfolding \<open>ns = n # ms\<close> n Cons m
      by (auto simp: ll_delete_head_def free_node_def set_node_def links_def image_iff)
  qed
qed

lemma delete_tail_links:
  assumes "links s ns"
  shows "\<exists>s'. ll_delete_tail s = Some s' \<and> links s' (butlast ns)"
proof (cases ns rule: rev_cases)
  case Nil
  thus ?thesis using assms by (simp add: ll_delete_tail_def links_def)
next
  case (snoc ms n)
  obtain q y where n: "n = (q, y)" by fastforce
  show ?thesis
  proof (cases ms rule: rev_cases)
    case Nil
    thus ?thesis using assms unfolding snoc n by (auto simp: ll_delete_tail_def free_node_def links_def simp del: dom_eq_empty_conv)
  next
    case (snoc ks m)
    obtain r z where m: "m = (r, z)" by fastforce
    show ?thesis using assms unfolding \<open>ns = ms @ [n]\<close> n snoc m
      by (auto simp: ll_delete_tail_def free_node_def set_node_def links_def image_iff butlast_append)
  qed
qed

lemma seek_chain:
  assumes "chain (lheap s) b ns 0" "0 \<notin> fst ` set ns"
  shows "ll_seek P s (first_of ns 0) = Some (case find (\<lambda>n. P (snd n)) ns of None \<Rightarrow> 0 | Some n \<Rightarrow> fst n)"
  using assms
proof (induction ns arbitrary: b)
  case Nil
  show ?case by (simp add: ll_seek.simps)
next
  case (Cons n ns)
  obtain q y where n: "n = (q, y)" by fastforce
  have "ll_seek P s (first_of ns 0) = Some (case find (\<lambda>n. P (snd n)) ns of None \<Rightarrow> 0 | Some n \<Rightarrow> fst n)"
    using Cons n by (intro Cons.IH[of q]) auto
  thus ?case using Cons.prems unfolding n by (auto simp: ll_seek.simps[of P s q])
qed

text \<open>What \<open>ll_delete_node\<close> does to the data: the head goes first, then the tail, then the first match between them.\<close>

definition list_delete :: "'d \<Rightarrow> 'd list \<Rightarrow> 'd list" where
  "list_delete k xs =
     (if xs = [] then [] else if hd xs = k then tl xs else if last xs = k then butlast xs else remove1 k xs)"

lemma delete_middle_links:
  assumes "links s (ms @ (a, x) # (q, y) # (c, z) # ks)"
  shows "\<exists>s1 s2 s'. set_node a (\<lambda>n. n\<lparr>next_p := c\<rparr>) s = Some s1 \<and> set_node c (\<lambda>n. n\<lparr>prev_p := a\<rparr>) s1 = Some s2 \<and>
    free_node q s2 = Some s' \<and> links s' (ms @ (a, x) # (c, z) # ks)"
  using assms by (auto simp: set_node_def free_node_def links_def image_iff)

lemma delete_node_links:
  assumes "links s ns"
  shows "\<exists>s' ns'. ll_delete_node k s = Some s' \<and> links s' ns' \<and> map snd ns' = list_delete k (map snd ns) \<and> set ns' \<subseteq> set ns"
proof (cases ns)
  case Nil
  thus ?thesis using assms links_empty[OF assms] by (auto simp: ll_delete_node_def list_delete_def)
next
  case (Cons n ms)
  obtain q y where n: "n = (q, y)" by fastforce
  have h: "lhead s \<noteq> 0" "lheap s (lhead s) = Some \<lparr>prev_p = 0, next_p = first_of ms 0, ldata = y\<rparr>"
    using assms Cons n by (auto simp: links_def)
  obtain ks m where sn: "ns = ks @ [m]" using Cons by (metis rev_exhaust list.distinct(1))
  obtain r z where m: "m = (r, z)" by fastforce
  have t: "lheap s (ltail s) = Some \<lparr>prev_p = last_of 0 ks, next_p = 0, ldata = z\<rparr>" using assms sn m by (auto simp: links_def)
  have lz: "last (map snd ns) = z" using sn m by simp
  show ?thesis
  proof (cases "y = k")
    case True
    obtain s' where "ll_delete_head s = Some s'" "links s' (tl ns)" using delete_head_links[OF assms] by blast
    thus ?thesis using True h Cons n by (auto simp: ll_delete_node_def list_delete_def)
  next
    case yk: False
    show ?thesis
    proof (cases "z = k")
      case True
      obtain s' where s': "ll_delete_tail s = Some s'" "links s' (butlast ns)" using delete_tail_links[OF assms] by blast
      have "list_delete k (map snd ns) = butlast (map snd ns)" using True yk lz Cons n by (simp add: list_delete_def)
      moreover have "ll_delete_node k s = Some s'" using True yk h t s' by (simp add: ll_delete_node_def)
      ultimately show ?thesis using s'(2) by (intro exI[of _ s'] exI[of _ "butlast ns"]) (simp add: map_butlast in_set_butlastD subset_iff)
    next
      case zk: False
      have ld: "list_delete k (map snd ns) = remove1 k (map snd ns)" using zk yk lz Cons n by (simp add: list_delete_def)
      have sk: "ll_seek (\<lambda>d. d = k) s (lhead s) = Some (case find (\<lambda>n. snd n = k) ns of None \<Rightarrow> 0 | Some n \<Rightarrow> fst n)"
        using seek_chain[of s 0 ns "\<lambda>d. d = k"] assms by (simp add: links_def)
      show ?thesis
      proof (cases "find (\<lambda>n. snd n = k) ns")
        case None
        hence "k \<notin> set (map snd ns)" by (auto simp: find_None_iff)
        hence "remove1 k (map snd ns) = map snd ns" by (simp add: remove1_idem)
        moreover have "ll_delete_node k s = Some s" using yk zk h t sk None by (simp add: ll_delete_node_def)
        ultimately show ?thesis using assms ld by (intro exI[of _ s] exI[of _ ns]) simp
      next
        case (Some v)
        then obtain us0 vs0 where sp0: "ns = us0 @ v # vs0" "snd v = k" "\<forall>u \<in> set us0. snd u \<noteq> k"
          using find_split[OF Some] by blast
        have "us0 \<noteq> []" using sp0 yk Cons n by auto
        then obtain us a x where us: "us0 = us @ [(a, x)]" by (metis rev_exhaust surj_pair)
        have "vs0 \<noteq> []" using sp0(1,2) zk sn m by auto
        then obtain c z' vs where vs: "vs0 = (c, z') # vs" by (metis neq_Nil_conv surj_pair)
        obtain q' where v: "v = (q', k)" using sp0(2) by (cases v) auto
        have sp: "ns = us @ (a, x) # (q', k) # (c, z') # vs" using sp0(1) us vs v by simp
        note l = assms[unfolded sp]
        obtain s1 s2 s' where st: "set_node a (\<lambda>n. n\<lparr>next_p := c\<rparr>) s = Some s1" "set_node c (\<lambda>n. n\<lparr>prev_p := a\<rparr>) s1 = Some s2"
          "free_node q' s2 = Some s'" "links s' (us @ (a, x) # (c, z') # vs)" using delete_middle_links[OF l] by blast
        have "lheap s q' = Some \<lparr>prev_p = a, next_p = c, ldata = k\<rparr>" "q' \<noteq> 0" using l by (auto simp: links_def)
        hence "ll_delete_node k s = Some s'" using yk zk h t sk Some v st by (simp add: ll_delete_node_def)
        moreover have "remove1 k (map snd ns) = map snd (us @ (a, x) # (c, z') # vs)"
          using sp0(3) unfolding sp us by (auto simp: remove1_append)
        ultimately show ?thesis using st(4) ld sp by (intro exI[of _ s'] exI[of _ "us @ (a, x) # (c, z') # vs"]) auto
      qed
    qed
  qed
qed

lemma free_loop_chain:
  assumes "chain (lheap s) b ns 0" "distinct (map fst ns)" "0 \<notin> fst ` set ns"
  shows "ll_free_loop s (first_of ns 0) = Some (s\<lparr>lheap := lheap s |` (- fst ` set ns)\<rparr>)"
  using assms
proof (induction ns arbitrary: b s)
  case Nil
  show ?case by (simp add: ll_free_loop.simps)
next
  case (Cons n ns)
  obtain q y where n: "n = (q, y)" by fastforce
  let ?s = "s\<lparr>lheap := (lheap s)(q := None)\<rparr>"
  have q: "lheap s q = Some \<lparr>prev_p = b, next_p = first_of ns 0, ldata = y\<rparr>" "q \<noteq> 0" "q \<notin> fst ` set ns"
    using Cons.prems n by auto
  have c: "chain (lheap ?s) q ns 0" using Cons.prems n q(3) by simp
  have "ll_free_loop ?s (first_of ns 0) = Some (?s\<lparr>lheap := lheap ?s |` (- fst ` set ns)\<rparr>)"
    by (rule Cons.IH[OF c]) (use Cons.prems in auto)
  moreover have "(lheap s)(q := None) |` (- fst ` set ns) = lheap s |` (- fst ` set (n # ns))"
    using n by (auto simp: restrict_map_def)
  ultimately show ?case using q n by (simp add: ll_free_loop.simps[of s q] free_node_def)
qed

lemma free_links:
  assumes "links s ns"
  shows "\<exists>s'. ll_free s = Some s' \<and> links s' []"
proof (cases ns)
  case Nil
  thus ?thesis using assms by (auto simp: ll_free_def links_def)
next
  case (Cons n ms)
  have "dom (lheap s |` (- fst ` set ns)) = {}" using assms by (simp add: links_def)
  hence "lheap s |` (- fst ` set ns) = (\<lambda>_. None)" by (simp only: dom_eq_empty_conv)
  thus ?thesis using assms links_empty[OF assms] free_loop_chain[of s 0 ns] Cons by (simp add: ll_free_def links_def)
qed

lemma count_chain:
  assumes "chain (lheap s) b ns 0" "0 \<notin> fst ` set ns"
  shows "ll_count s (first_of ns 0) k = Some (k + int (length ns))"
  using assms
proof (induction ns arbitrary: b k)
  case Nil
  show ?case by (simp add: ll_count.simps)
next
  case (Cons n ns)
  obtain q y where n: "n = (q, y)" by fastforce
  have "ll_count s (first_of ns 0) (k + 1) = Some (k + 1 + int (length ns))" using Cons n by (intro Cons.IH[of q]) auto
  thus ?case using Cons.prems unfolding n by (simp add: ll_count.simps[of s q])
qed

subsection \<open>Sequences of operations\<close>

datatype 'd ll_op = InsHead 'd | InsTail 'd | DelHead | DelTail | DelNode 'd | FreeAll

definition ll_exec :: "((nat \<Rightarrow> 'd lnode option) \<Rightarrow> nat) \<Rightarrow> 'd ll_op \<Rightarrow> 'd llist \<Rightarrow> 'd llist option" where
  "ll_exec malloc x s =
     (case x of
        InsHead d \<Rightarrow> ll_insert_head (malloc (lheap s)) d s
      | InsTail d \<Rightarrow> ll_insert_tail (malloc (lheap s)) d s
      | DelHead \<Rightarrow> ll_delete_head s
      | DelTail \<Rightarrow> ll_delete_tail s
      | DelNode k \<Rightarrow> ll_delete_node k s
      | FreeAll \<Rightarrow> ll_free s)"

fun ll_run :: "((nat \<Rightarrow> 'd lnode option) \<Rightarrow> nat) \<Rightarrow> 'd ll_op list \<Rightarrow> 'd llist \<Rightarrow> 'd llist option" where
  "ll_run malloc [] s = Some s"
| "ll_run malloc (x # xs) s = (case ll_exec malloc x s of None \<Rightarrow> None | Some s1 \<Rightarrow> ll_run malloc xs s1)"

fun list_exec :: "'d ll_op \<Rightarrow> 'd list \<Rightarrow> 'd list" where
  "list_exec (InsHead d) xs = d # xs"
| "list_exec (InsTail d) xs = xs @ [d]"
| "list_exec DelHead xs = tl xs"
| "list_exec DelTail xs = butlast xs"
| "list_exec (DelNode k) xs = list_delete k xs"
| "list_exec FreeAll xs = []"

text \<open>The contract of \<open>malloc\<close>: on a heap with room it returns an address that is not in use.\<close>

definition fresh_alloc :: "((nat \<Rightarrow> 'd lnode option) \<Rightarrow> nat) \<Rightarrow> bool" where
  "fresh_alloc malloc \<longleftrightarrow> (\<forall>h. finite (dom h) \<longrightarrow> malloc h \<noteq> 0 \<and> h (malloc h) = None)"

lemma exec_links:
  assumes "links s ns" "fresh_alloc malloc"
  shows "\<exists>s' ns'. ll_exec malloc x s = Some s' \<and> links s' ns' \<and> map snd ns' = list_exec x (map snd ns)"
proof -
  have d: "dom (lheap s) = fst ` set ns" using assms(1) by (simp add: links_def)
  hence "finite (dom (lheap s))" by simp
  hence m: "malloc (lheap s) \<noteq> 0" "malloc (lheap s) \<notin> fst ` set ns" using assms(2) d unfolding fresh_alloc_def by (metis domIff)+
  show ?thesis
  proof (cases x)
    case (InsHead d)
    obtain s' where "ll_insert_head (malloc (lheap s)) d s = Some s'" "links s' ((malloc (lheap s), d) # ns)"
      using insert_head_links[OF assms(1) m, of d] by blast
    thus ?thesis using InsHead by (intro exI[of _ s'] exI[of _ "(malloc (lheap s), d) # ns"]) (simp add: ll_exec_def)
  next
    case (InsTail d)
    obtain s' where "ll_insert_tail (malloc (lheap s)) d s = Some s'" "links s' (ns @ [(malloc (lheap s), d)])"
      using insert_tail_links[OF assms(1) m, of d] by blast
    thus ?thesis using InsTail by (intro exI[of _ s'] exI[of _ "ns @ [(malloc (lheap s), d)]"]) (simp add: ll_exec_def)
  next
    case DelHead
    obtain s' where "ll_delete_head s = Some s'" "links s' (tl ns)" using delete_head_links[OF assms(1)] by blast
    thus ?thesis using DelHead by (intro exI[of _ s'] exI[of _ "tl ns"]) (simp add: ll_exec_def map_tl)
  next
    case DelTail
    obtain s' where "ll_delete_tail s = Some s'" "links s' (butlast ns)" using delete_tail_links[OF assms(1)] by blast
    thus ?thesis using DelTail by (intro exI[of _ s'] exI[of _ "butlast ns"]) (simp add: ll_exec_def map_butlast)
  next
    case (DelNode k)
    thus ?thesis using delete_node_links[OF assms(1), of k] by (auto simp: ll_exec_def)
  next
    case FreeAll
    thus ?thesis using free_links[OF assms(1)] by (auto simp: ll_exec_def)
  qed
qed


lemma Max_fresh: "fresh_alloc (\<lambda>h. Suc (Max (insert 0 (dom h))))"
  unfolding fresh_alloc_def
proof (intro allI impI conjI)
  fix h :: "nat \<Rightarrow> 'a lnode option" assume f: "finite (dom h)"
  show "Suc (Max (insert 0 (dom h))) \<noteq> 0" by simp
  show "h (Suc (Max (insert 0 (dom h)))) = None"
  proof (rule ccontr)
    assume "h (Suc (Max (insert 0 (dom h)))) \<noteq> None"
    hence "Suc (Max (insert 0 (dom h))) \<le> Max (insert 0 (dom h))" using f by (intro Max_ge) auto
    thus False by simp
  qed
qed


end
