(* ===== verification/Shm.thy ===== *)
theory Shm
  imports Vm
begin

text \<open>
  Shared memory pages (\<^verbatim>\<open>Project3b/xv6/kernel/vm.c\<close>, from \<open>shminit\<close> to \<open>sys_shm_refcount\<close>, with the parts of
  \<open>fork\<close> and \<open>exit\<close> in \<^verbatim>\<open>proc.c\<close> that take part).  A key names up to four pages, mapped below
  \<open>USERTOP\<close> into each process that attaches them.  The state is the page allocator's memory with the page
  tables in it, the table of keys, and of each process its size, page directory and record of attached keys.
  \<open>None\<close> is a panic, or a fault at a page table entry that does not exist.
\<close>

subsection \<open>State and operations\<close>

abbreviation MAX_SHARED_PAGES_PER_KEY :: nat where "MAX_SHARED_PAGES_PER_KEY \<equiv> 4"
abbreviation MAX_SHARED_KEYS :: nat where "MAX_SHARED_KEYS \<equiv> 8"

record keys_pages =
  kaddr :: "u32 list"
  kN :: nat
  krefs :: int

record shmproc =
  sp_sz :: u32
  sp_pgdir :: u32
  current_top :: u32
  key_addresses :: "u32 list"

record shmst =
  shkm :: kmem
  spages :: "keys_pages list"
  sprocs :: "shmproc list"

definition kupd :: "shmst \<Rightarrow> nat \<Rightarrow> (keys_pages \<Rightarrow> keys_pages) \<Rightarrow> shmst" where
  "kupd s k g = s\<lparr>spages := (spages s)[k := g (spages s ! k)]\<rparr>"

definition pupd :: "shmst \<Rightarrow> nat \<Rightarrow> (shmproc \<Rightarrow> shmproc) \<Rightarrow> shmst" where
  "pupd s p g = s\<lparr>sprocs := (sprocs s)[p := g (sprocs s ! p)]\<rparr>"

definition shminit :: "shmst \<Rightarrow> shmst" where
  "shminit s = s\<lparr>spages := map (\<lambda>x. x\<lparr>kN := 0, krefs := 0, kaddr := replicate MAX_SHARED_PAGES_PER_KEY 0 @ drop MAX_SHARED_PAGES_PER_KEY (kaddr x)\<rparr>) (spages s)\<rparr>"

definition shm_inc_refcount :: "shmst \<Rightarrow> nat \<Rightarrow> shmst" where
  "shm_inc_refcount s k = kupd s k (\<lambda>x. x\<lparr>krefs := krefs x + 1\<rparr>)"

definition shm_dec_refcount :: "shmst \<Rightarrow> nat \<Rightarrow> shmst" where
  "shm_dec_refcount s k = kupd s k (\<lambda>x. x\<lparr>krefs := krefs x - 1\<rparr>)"

text \<open>The loop that allocates the pages of a key; the result tells whether \<open>kalloc\<close> always found a page.\<close>

fun shm_alloc :: "kmem \<Rightarrow> u32 list \<Rightarrow> nat list \<Rightarrow> bool \<times> kmem \<times> u32 list" where
  "shm_alloc km as [] = (True, km, as)"
| "shm_alloc km as (i # is) =
     (case kalloc km of (a, km1) \<Rightarrow>
        if a = 0 then (False, km1, as[i := a])
        else shm_alloc (km1\<lparr>kbytes := kmemset (kbytes km1) a 0 PGSIZE\<rparr>) (as[i := a]) is)"

fun shm_map :: "kmem \<Rightarrow> u32 \<Rightarrow> u32 \<Rightarrow> u32 list \<Rightarrow> nat list \<Rightarrow> kmem option" where
  "shm_map km pgdir loc as [] = Some km"
| "shm_map km pgdir loc as (i # is) =
     (case mappages km pgdir (loc + of_nat i * PGSIZE) PGSIZE (as ! i) (PTE_P OR PTE_W OR PTE_U) of
        None \<Rightarrow> None
      | Some (r, km1) \<Rightarrow> shm_map km1 pgdir loc as is)"

definition no_room :: "shmproc \<Rightarrow> nat \<Rightarrow> bool" where
  "no_room p npages \<longleftrightarrow> current_top p - sp_sz p < of_nat npages * PGSIZE"

text \<open>The second half of \<open>attach_pages_to_process\<close>: the pages of the key are there and are mapped.\<close>

definition attach_mapped :: "shmst \<Rightarrow> nat \<Rightarrow> nat \<Rightarrow> nat \<Rightarrow> (u32 \<times> shmst) option" where
  "attach_mapped s p key npages =
     (if no_room (sprocs s ! p) npages then Some (-1, s)
      else let loc = current_top (sprocs s ! p) - PGSIZE * of_nat npages
           in case shm_map (shkm s) (sp_pgdir (sprocs s ! p)) loc (kaddr (spages s ! key)) [0..<npages] of
                None \<Rightarrow> None
              | Some km \<Rightarrow>
                  let s1 = pupd (s\<lparr>shkm := km\<rparr>) p (\<lambda>q. q\<lparr>key_addresses := (key_addresses q)[key := loc], current_top := loc\<rparr>)
                  in Some (loc, shm_inc_refcount s1 key))"

definition attach_pages_to_process :: "shmst \<Rightarrow> nat \<Rightarrow> nat \<Rightarrow> nat \<Rightarrow> (u32 \<times> shmst) option" where
  "attach_pages_to_process s p key npages =
     (if krefs (spages s ! key) = 0 then
        let s1 = kupd s key (\<lambda>x. x\<lparr>kN := npages\<rparr>)
        in if no_room (sprocs s ! p) npages then Some (-1, s1)
           else case shm_alloc (shkm s1) (kaddr (spages s1 ! key)) [0..<npages] of
                  (ok, km, as) \<Rightarrow>
                    let s2 = (kupd s1 key (\<lambda>x. x\<lparr>kaddr := as\<rparr>))\<lparr>shkm := km\<rparr>
                    in if ok then attach_mapped s2 p key npages else Some (-1, s2)
      else if key_addresses (sprocs s ! p) ! key \<noteq> 0 then Some (key_addresses (sprocs s ! p) ! key, s)
      else attach_mapped s p key (kN (spages s ! key)))"

definition sys_shmgetat :: "shmst \<Rightarrow> nat \<Rightarrow> u32 option \<Rightarrow> u32 option \<Rightarrow> (u32 \<times> shmst) option" where
  "sys_shmgetat s p key npages =
     (case (key, npages) of
        (Some k, Some n) \<Rightarrow>
          if sint k < 0 \<or> sint k \<ge> int MAX_SHARED_KEYS \<or> sint n < 1 \<or> sint n > int MAX_SHARED_PAGES_PER_KEY then Some (-1, s)
          else attach_pages_to_process s p (nat (sint k)) (nat (sint n))
      | _ \<Rightarrow> Some (-1, s))"

text \<open>\<open>sys_shmdt\<close>: first the entries of the page table are cleared, then the keys are given back.\<close>

fun clear_ptes :: "kmem \<Rightarrow> u32 \<Rightarrow> u32 list \<Rightarrow> kmem option" where
  "clear_ptes km pgdir [] = Some km"
| "clear_ptes km pgdir (i # is) =
     (case walkpgdir km pgdir i False of (pte, km1) \<Rightarrow>
        if pte = 0 then None
        else clear_ptes (if load32 (kbytes km1) pte \<noteq> 0 then km1\<lparr>kbytes := store32 (kbytes km1) pte 0\<rparr> else km1) pgdir is)"

fun free_pages :: "u32 \<Rightarrow> kmem \<Rightarrow> u32 list \<Rightarrow> nat list \<Rightarrow> (kmem \<times> u32 list) option" where
  "free_pages kend km as [] = Some (km, as)"
| "free_pages kend km as (k # ks) =
     (case kfree kend km (as ! k) of None \<Rightarrow> None | Some km1 \<Rightarrow> free_pages kend km1 (as[k := 0]) ks)"

definition release_key :: "u32 \<Rightarrow> shmst \<Rightarrow> nat \<Rightarrow> nat \<Rightarrow> shmst option" where
  "release_key kend s p i =
     (let s1 = (if key_addresses (sprocs s ! p) ! i \<noteq> 0 then shm_dec_refcount s i else s);
          s2 = pupd s1 p (\<lambda>q. q\<lparr>key_addresses := (key_addresses q)[i := 0], current_top := USERTOP\<rparr>)
      in if krefs (spages s2 ! i) = 0 then
           (case free_pages kend (shkm s2) (kaddr (spages s2 ! i)) [0..<kN (spages s2 ! i)] of
              None \<Rightarrow> None
            | Some (km, as) \<Rightarrow> Some ((kupd s2 i (\<lambda>x. x\<lparr>kaddr := as, kN := 0\<rparr>))\<lparr>shkm := km\<rparr>))
         else Some s2)"

fun release_keys :: "u32 \<Rightarrow> shmst \<Rightarrow> nat \<Rightarrow> nat list \<Rightarrow> shmst option" where
  "release_keys kend s p [] = Some s"
| "release_keys kend s p (i # is) = (case release_key kend s p i of None \<Rightarrow> None | Some s1 \<Rightarrow> release_keys kend s1 p is)"

definition sys_shmdt :: "u32 \<Rightarrow> shmst \<Rightarrow> nat \<Rightarrow> shmst option" where
  "sys_shmdt kend s p =
     (let top = current_top (sprocs s ! p)
      in case clear_ptes (shkm s) (sp_pgdir (sprocs s ! p))
                (map (\<lambda>k. top + of_nat k * PGSIZE) [0..<(unat USERTOP - unat top + 4095) div 4096]) of
           None \<Rightarrow> None
         | Some km \<Rightarrow> release_keys kend (s\<lparr>shkm := km\<rparr>) p [0..<MAX_SHARED_KEYS])"

definition sys_shm_refcount :: "shmst \<Rightarrow> u32 option \<Rightarrow> int" where
  "sys_shm_refcount s key =
     (case key of
        None \<Rightarrow> -1
      | Some k \<Rightarrow> if sint k < 0 \<or> sint k \<ge> int MAX_SHARED_KEYS then -1 else krefs (spages s ! nat (sint k)))"

text \<open>\<open>fork\<close> hands the attached keys on to the child \<open>np\<close>.\<close>

fun inherit_keys :: "shmst \<Rightarrow> nat \<Rightarrow> nat \<Rightarrow> nat list \<Rightarrow> shmst" where
  "inherit_keys s p np [] = s"
| "inherit_keys s p np (i # is) =
     inherit_keys (if key_addresses (sprocs s ! p) ! i \<noteq> 0
        then shm_inc_refcount (pupd s np (\<lambda>q. q\<lparr>key_addresses := (key_addresses q)[i := key_addresses (sprocs s ! p) ! i]\<rparr>)) i
        else s) p np is"

definition fork_shm :: "shmst \<Rightarrow> nat \<Rightarrow> nat \<Rightarrow> shmst" where
  "fork_shm s p np =
     (let s1 = inherit_keys s p np [0..<MAX_SHARED_KEYS]
      in pupd s1 np (\<lambda>q. q\<lparr>current_top := current_top (sprocs s1 ! p)\<rparr>))"

subsection \<open>Reference counts\<close>

definition attached :: "shmst \<Rightarrow> nat \<Rightarrow> int" where
  "attached s k = int (length (filter (\<lambda>q. key_addresses q ! k \<noteq> 0) (sprocs s)))"

definition key_ok :: "shmst \<Rightarrow> nat \<Rightarrow> bool" where
  "key_ok s k \<longleftrightarrow> krefs (spages s ! k) = attached s k \<and>
     (krefs (spages s ! k) > 0 \<longrightarrow> 1 \<le> kN (spages s ! k) \<and> kN (spages s ! k) \<le> MAX_SHARED_PAGES_PER_KEY \<and>
        (\<forall>j < kN (spages s ! k). kaddr (spages s ! k) ! j \<noteq> 0))"

definition procs_ok :: "shmst \<Rightarrow> bool" where
  "procs_ok s \<longleftrightarrow> (\<forall>q \<in> set (sprocs s). length (key_addresses q) = MAX_SHARED_KEYS \<and> 0 < sp_sz q \<and> sp_sz q \<le> current_top q \<and> current_top q \<le> USERTOP)"

definition keys_shape :: "shmst \<Rightarrow> bool" where
  "keys_shape s \<longleftrightarrow> length (spages s) = MAX_SHARED_KEYS \<and> (\<forall>x \<in> set (spages s). length (kaddr x) = 5)"

definition shm_inv :: "shmst \<Rightarrow> bool" where
  "shm_inv s \<longleftrightarrow> keys_shape s \<and> procs_ok s \<and> (\<forall>k < MAX_SHARED_KEYS. key_ok s k)"

lemma length_filter_update:
  "i < length xs \<Longrightarrow> int (length (filter P (xs[i := y]))) = int (length (filter P xs)) - (if P (xs ! i) then 1 else 0) + (if P y then 1 else 0)"
proof (induction xs arbitrary: i)
  case (Cons x xs)
  show ?case
  proof (cases i)
    case (Suc j)
    thus ?thesis using Cons.IH[of j] Cons.prems by (simp split: if_splits)
  qed simp
qed simp

lemma attached_pupd:
  assumes "p < length (sprocs s)"
  shows "attached (pupd s p g) k = attached s k - (if key_addresses (sprocs s ! p) ! k \<noteq> 0 then 1 else 0) +
    (if key_addresses (g (sprocs s ! p)) ! k \<noteq> 0 then 1 else 0)"
  using length_filter_update[OF assms, of "\<lambda>q. key_addresses q ! k \<noteq> 0"] by (simp add: attached_def pupd_def)

lemma upd_simps [simp]:
  "spages (pupd s p g) = spages s" "sprocs (kupd s k h) = sprocs s" "attached (kupd s k h) j = attached s j" "shkm (kupd s k h) = shkm s"
  "shkm (pupd s p g) = shkm s" "length (sprocs (pupd s p g)) = length (sprocs s)" "length (spages (kupd s k h)) = length (spages s)"
  "attached (s\<lparr>shkm := km\<rparr>) j = attached s j" "sprocs (pupd s p g) = (sprocs s)[p := g (sprocs s ! p)]"
  "spages (kupd s k h) = (spages s)[k := h (spages s ! k)]"
  by (simp_all add: pupd_def kupd_def attached_def)

lemma attached_nonneg: "0 \<le> attached s k"
  by (simp add: attached_def)

lemma attached_pos: "p < length (sprocs s) \<Longrightarrow> key_addresses (sprocs s ! p) ! k \<noteq> 0 \<Longrightarrow> attached s k \<ge> 1"
proof -
  assume "p < length (sprocs s)" "key_addresses (sprocs s ! p) ! k \<noteq> 0"
  hence "sprocs s ! p \<in> set (filter (\<lambda>q. key_addresses q ! k \<noteq> 0) (sprocs s))" by simp
  hence "length (filter (\<lambda>q. key_addresses q ! k \<noteq> 0) (sprocs s)) > 0" by (rule length_pos_if_in_set)
  thus ?thesis unfolding attached_def by linarith
qed

lemma shape_simps [simp]: "procs_ok (kupd s k h) = procs_ok s" "procs_ok (s\<lparr>shkm := km\<rparr>) = procs_ok s"
  "keys_shape (s\<lparr>shkm := km\<rparr>) = keys_shape s" "keys_shape (pupd s p g) = keys_shape s" "key_ok (s\<lparr>shkm := km\<rparr>) k = key_ok s k"
  by (simp_all add: procs_ok_def keys_shape_def key_ok_def)

lemma procs_ok_pupd:
  assumes "procs_ok s" "p < length (sprocs s)" "length (key_addresses (g (sprocs s ! p))) = MAX_SHARED_KEYS" "0 < sp_sz (g (sprocs s ! p))"
    "sp_sz (g (sprocs s ! p)) \<le> current_top (g (sprocs s ! p))" "current_top (g (sprocs s ! p)) \<le> USERTOP"
  shows "procs_ok (pupd s p g)"
proof -
  have "set ((sprocs s)[p := g (sprocs s ! p)]) \<subseteq> insert (g (sprocs s ! p)) (set (sprocs s))" by (rule set_update_subset_insert)
  thus ?thesis using assms by (auto simp: procs_ok_def)
qed

lemma keys_shape_kupd:
  assumes "keys_shape s" "length (kaddr (h (spages s ! k))) = length (kaddr (spages s ! k))"
  shows "keys_shape (kupd s k h)"
proof (cases "k < length (spages s)")
  case True
  have "set ((spages s)[k := h (spages s ! k)]) \<subseteq> insert (h (spages s ! k)) (set (spages s))" by (rule set_update_subset_insert)
  moreover have "length (kaddr (spages s ! k)) = 5" using assms(1) True by (simp add: keys_shape_def)
  ultimately show ?thesis using assms by (auto simp: keys_shape_def)
next
  case False
  hence "(spages s)[k := h (spages s ! k)] = spages s" by (simp add: list_update_beyond)
  thus ?thesis using assms by (simp add: keys_shape_def)
qed

lemma room_bounds:
  assumes "\<not> no_room q n" "1 \<le> n" "n \<le> MAX_SHARED_PAGES_PER_KEY" "0 < sp_sz q" "sp_sz q \<le> current_top q"
  shows "sp_sz q \<le> current_top q - PGSIZE * of_nat n" "current_top q - PGSIZE * of_nat n \<noteq> 0" "current_top q - PGSIZE * of_nat n \<le> current_top q"
proof -
  have n: "unat (PGSIZE * of_nat n :: u32) = 4096 * n" using assms(3) by (simp add: PGSIZE_def unat_word_ariths unat_of_nat)
  have d: "unat (current_top q - sp_sz q) = unat (current_top q) - unat (sp_sz q)" using assms(5) by (simp add: unat_sub_cases)
  have "4096 * n \<le> unat (current_top q) - unat (sp_sz q)"
    using assms(1) d n by (simp add: no_room_def word_less_nat_alt mult.commute not_less)
  moreover have "0 < unat (sp_sz q)" "unat (sp_sz q) \<le> unat (current_top q)" using assms(4,5) by (simp_all add: word_less_nat_alt word_le_nat_alt)
  ultimately have le: "4096 * n + unat (sp_sz q) \<le> unat (current_top q)" by linarith
  have u: "unat (current_top q - PGSIZE * of_nat n) = unat (current_top q) - 4096 * n"
    using le n by (simp add: unat_sub_cases word_le_nat_alt)
  show "sp_sz q \<le> current_top q - PGSIZE * of_nat n" "current_top q - PGSIZE * of_nat n \<le> current_top q"
    using le u by (simp_all add: word_le_nat_alt)
  show "current_top q - PGSIZE * of_nat n \<noteq> 0" using u le \<open>0 < unat (sp_sz q)\<close> by (metis add_le_imp_le_diff diff_add_inverse2 le_zero_eq neq0_conv unat_0 add.commute)
qed

lemma attach_mapped_inv:
  assumes "attach_mapped s p key n = Some (r, s')" "keys_shape s" "procs_ok s" "p < length (sprocs s)" "key < MAX_SHARED_KEYS"
    "key_addresses (sprocs s ! p) ! key = 0" "krefs (spages s ! key) = attached s key" "\<And>k. k < MAX_SHARED_KEYS \<Longrightarrow> k \<noteq> key \<Longrightarrow> key_ok s k"
    "1 \<le> n" "n \<le> MAX_SHARED_PAGES_PER_KEY" "kN (spages s ! key) = n" "\<And>j. j < n \<Longrightarrow> kaddr (spages s ! key) ! j \<noteq> 0"
  shows "shm_inv s' \<and> length (sprocs s') = length (sprocs s)"
proof (cases "no_room (sprocs s ! p) n")
  case True
  hence "s' = s" using assms(1) by (simp add: attach_mapped_def)
  moreover have "key_ok s key" using assms(7,9-12) by (simp add: key_ok_def)
  ultimately show ?thesis using assms(2,3,8) by (auto simp: shm_inv_def)
next
  case False
  let ?q = "sprocs s ! p"
  let ?loc = "current_top ?q - PGSIZE * of_nat n"
  have q: "length (key_addresses ?q) = MAX_SHARED_KEYS" "0 < sp_sz ?q" "sp_sz ?q \<le> current_top ?q" "current_top ?q \<le> USERTOP"
    using assms(3,4) by (auto simp: procs_ok_def)
  note b = room_bounds[OF False assms(9,10) q(2,3)]
  let ?g = "\<lambda>q. q\<lparr>key_addresses := (key_addresses q)[key := ?loc], current_top := ?loc\<rparr>"
  obtain km where s': "s' = shm_inc_refcount (pupd (s\<lparr>shkm := km\<rparr>) p ?g) key"
    using assms(1) False by (auto simp: attach_mapped_def Let_def split: option.splits)
  have sl: "key < length (spages s)" using assms(2,5) by (simp add: keys_shape_def)
  have at: "attached (pupd (s\<lparr>shkm := km\<rparr>) p ?g) k = attached s k + (if k = key then 1 else 0)" if "k < MAX_SHARED_KEYS" for k
    using attached_pupd[of p "s\<lparr>shkm := km\<rparr>" ?g k] assms(4,6) b(2) q(1) that by (simp add: nth_list_update)
  have "key_ok s' k" if "k < MAX_SHARED_KEYS" for k
    using at[OF that] assms(7)  assms(8)[OF that] assms(9-12) sl unfolding s'
    by (cases "k = key") (simp_all add: key_ok_def shm_inc_refcount_def)
  moreover have "procs_ok (pupd (s\<lparr>shkm := km\<rparr>) p ?g)"
    by (rule procs_ok_pupd) (use assms(3,4) q b order_trans[OF b(3) q(4)] in simp_all)
  hence "procs_ok s'" unfolding s' shm_inc_refcount_def by (simp only: shape_simps)
  moreover have "keys_shape s'" unfolding s' shm_inc_refcount_def
    by (rule keys_shape_kupd) (use assms(2) in \<open>simp_all add: keys_shape_def\<close>)
  ultimately show ?thesis unfolding shm_inv_def by (simp add: s' shm_inc_refcount_def)
qed

lemma shm_alloc_result:
  assumes "shm_alloc km as is = (ok, km', as')" "distinct is" "\<forall>i \<in> set is. i < length as"
  shows "length as' = length as \<and> (ok \<longrightarrow> (\<forall>j \<in> set is. as' ! j \<noteq> 0)) \<and> (\<forall>j. j \<notin> set is \<longrightarrow> as' ! j = as ! j)"
  using assms
proof (induction "is" arbitrary: km as)
  case (Cons i "is")
  obtain a km1 where k: "kalloc km = (a, km1)" by fastforce
  show ?case
  proof (cases "a = 0")
    case True
    thus ?thesis using Cons.prems k by auto
  next
    case False
    let ?km = "km1\<lparr>kbytes := kmemset (kbytes km1) a 0 PGSIZE\<rparr>"
    have "shm_alloc ?km (as[i := a]) is = (ok, km', as')" using Cons.prems(1) k False by simp
    from Cons.IH[OF this] Cons.prems(2,3) have ih: "length as' = length as" "ok \<Longrightarrow> j \<in> set is \<Longrightarrow> as' ! j \<noteq> 0"
      "j \<notin> set is \<Longrightarrow> as' ! j = as[i := a] ! j" for j by auto
    have "as' ! i = a" using ih(3)[of i] Cons.prems(2,3) by simp
    thus ?thesis using ih False by auto
  qed
qed simp

lemma attach_inv:
  assumes "attach_pages_to_process s p key n = Some (r, s')" "shm_inv s" "p < length (sprocs s)" "key < MAX_SHARED_KEYS" "1 \<le> n" "n \<le> MAX_SHARED_PAGES_PER_KEY"
  shows "shm_inv s' \<and> length (sprocs s') = length (sprocs s)"
proof -
  have inv: "keys_shape s" "procs_ok s" "\<And>k. k < MAX_SHARED_KEYS \<Longrightarrow> key_ok s k" using assms(2) by (auto simp: shm_inv_def)
  have sl: "key < length (spages s)" using inv(1) assms(4) by (simp add: keys_shape_def)
  have rc: "krefs (spages s ! key) = attached s key" using inv(3)[OF assms(4)] by (simp add: key_ok_def)
  show ?thesis
  proof (cases "krefs (spages s ! key) = 0")
    case True
    have z: "key_addresses (sprocs s ! p) ! key = 0" using attached_pos[OF assms(3), of key] True rc by fastforce
    let ?s1 = "kupd s key (\<lambda>x. x\<lparr>kN := n\<rparr>)"
    have sh1: "keys_shape ?s1" by (rule keys_shape_kupd[OF inv(1)]) simp
    have ot1: "key_ok ?s1 k" if "k < MAX_SHARED_KEYS" "k \<noteq> key" for k using inv(3)[OF that(1)] that(2) by (simp add: key_ok_def)
    show ?thesis
    proof (cases "no_room (sprocs s ! p) n")
      case nr: True
      have "s' = ?s1" using assms(1) True nr by (simp add: attach_pages_to_process_def)
      moreover have "key_ok ?s1 key" using True rc sl by (simp add: key_ok_def)
      ultimately show ?thesis using sh1 ot1 inv(2) by (auto simp: shm_inv_def)
    next
      case False
      obtain ok km as where al: "shm_alloc (shkm ?s1) (kaddr (spages ?s1 ! key)) [0..<n] = (ok, km, as)" by (metis prod_cases3)
      have la: "length (kaddr (spages s ! key)) = 5" using inv(1) sl by (simp add: keys_shape_def)
      have ar: "length as = 5" "ok \<Longrightarrow> j < n \<Longrightarrow> as ! j \<noteq> 0" for j
        using shm_alloc_result[OF al] la sl assms(6) by auto
      let ?s2 = "(kupd ?s1 key (\<lambda>x. x\<lparr>kaddr := as\<rparr>))\<lparr>shkm := km\<rparr>"
      have sh2: "keys_shape ?s2" unfolding shape_simps by (rule keys_shape_kupd[OF sh1]) (use ar(1) la sl in simp)
      have ot2: "key_ok ?s2 k" if "k < MAX_SHARED_KEYS" "k \<noteq> key" for k using inv(3)[OF that(1)] that(2) by (simp add: key_ok_def)
      have pr2: "procs_ok ?s2" using inv(2) by simp
      show ?thesis
      proof (cases ok)
        case ok: True
        have "attach_mapped ?s2 p key n = Some (r, s')" using assms(1) True False al ok by (simp add: attach_pages_to_process_def Let_def)
        from attach_mapped_inv[OF this sh2 pr2 _ assms(4) _ _ ot2 assms(5,6)] show ?thesis using z rc sl ar(2) ok assms(3) by simp
      next
        case nok: False
        have "s' = ?s2" using assms(1) True False al nok by (simp add: attach_pages_to_process_def Let_def)
        moreover have "key_ok ?s2 key" using True rc sl by (simp add: key_ok_def)
        ultimately show ?thesis using sh2 pr2 ot2 by (auto simp: shm_inv_def)
      qed
    qed
  next
    case False
    hence pos: "krefs (spages s ! key) > 0" using rc attached_nonneg[of s key] by simp
    hence kn: "1 \<le> kN (spages s ! key)" "kN (spages s ! key) \<le> MAX_SHARED_PAGES_PER_KEY" "\<And>j. j < kN (spages s ! key) \<Longrightarrow> kaddr (spages s ! key) ! j \<noteq> 0"
      using inv(3)[OF assms(4)] by (auto simp: key_ok_def)
    show ?thesis
    proof (cases "key_addresses (sprocs s ! p) ! key = 0")
      case True
      hence "attach_mapped s p key (kN (spages s ! key)) = Some (r, s')" using assms(1) False by (simp add: attach_pages_to_process_def)
      from attach_mapped_inv[OF this inv(1,2) assms(3,4) True rc inv(3) kn(1,2) refl kn(3)] show ?thesis .
    next
      case at: False
      hence "s' = s" using assms(1) False by (simp add: attach_pages_to_process_def)
      thus ?thesis using assms(2) by simp
    qed
  qed
qed

lemma free_pages_length: "free_pages kend km as ks = Some (km', as') \<Longrightarrow> length as' = length as"
  by (induction ks arbitrary: km as) (auto split: option.splits)

lemma release_key_inv:
  assumes "release_key kend s p i = Some s'" "shm_inv s" "p < length (sprocs s)" "i < MAX_SHARED_KEYS"
  shows "shm_inv s' \<and> length (sprocs s') = length (sprocs s)"
proof -
  have inv: "keys_shape s" "procs_ok s" "\<And>k. k < MAX_SHARED_KEYS \<Longrightarrow> key_ok s k" using assms(2) by (auto simp: shm_inv_def)
  let ?q = "sprocs s ! p"
  let ?g = "\<lambda>q. q\<lparr>key_addresses := (key_addresses q)[i := 0], current_top := USERTOP\<rparr>"
  let ?d = "if key_addresses ?q ! i \<noteq> 0 then 1 else 0 :: int"
  let ?s2 = "pupd (kupd s i (\<lambda>x. x\<lparr>krefs := krefs x - ?d\<rparr>)) p ?g"
  have q: "length (key_addresses ?q) = MAX_SHARED_KEYS" "0 < sp_sz ?q" "sp_sz ?q \<le> current_top ?q" "current_top ?q \<le> USERTOP"
    using inv(2) assms(3) by (auto simp: procs_ok_def)
  have sl: "i < length (spages s)" using inv(1) assms(4) by (simp add: keys_shape_def)
  have s2: "(if key_addresses ?q ! i \<noteq> 0 then shm_dec_refcount s i else s) = kupd s i (\<lambda>x. x\<lparr>krefs := krefs x - ?d\<rparr>)"
    by (simp add: shm_dec_refcount_def kupd_def)
  have at: "attached ?s2 k = attached s k - (if k = i then ?d else 0)" if "k < MAX_SHARED_KEYS" for k
    using attached_pupd[of p "kupd s i (\<lambda>x. x\<lparr>krefs := krefs x - ?d\<rparr>)" ?g k] assms(3) q(1) that by (simp add: nth_list_update)
  have ok2: "key_ok ?s2 k" if "k < MAX_SHARED_KEYS" for k
    using inv(3)[OF that] at[OF that] sl by (cases "k = i") (auto simp: key_ok_def split: if_splits)
  have pr2: "procs_ok ?s2" by (rule procs_ok_pupd) (use inv(2) assms(3) q order_trans[OF q(3,4)] in simp_all)
  have sh2: "keys_shape ?s2" unfolding shape_simps by (rule keys_shape_kupd[OF inv(1)]) simp
  show ?thesis
  proof (cases "krefs (spages ?s2 ! i) = 0")
    case False
    hence "s' = ?s2" using assms(1) unfolding release_key_def Let_def s2 by simp
    thus ?thesis using ok2 pr2 sh2 by (simp add: shm_inv_def)
  next
    case True
    then obtain km as where fp: "free_pages kend (shkm ?s2) (kaddr (spages ?s2 ! i)) [0..<kN (spages ?s2 ! i)] = Some (km, as)"
      and s': "s' = (kupd ?s2 i (\<lambda>x. x\<lparr>kaddr := as, kN := 0\<rparr>))\<lparr>shkm := km\<rparr>"
      using assms(1) unfolding release_key_def Let_def s2 by (auto split: option.splits)
    have la: "length as = length (kaddr (spages ?s2 ! i))" by (rule free_pages_length[OF fp])
    have "keys_shape s'" unfolding s' shape_simps by (rule keys_shape_kupd[OF sh2]) (simp add: la)
    moreover have "procs_ok s'" unfolding s' using pr2 by simp
    moreover have "key_ok s' k" if "k < MAX_SHARED_KEYS" for k
    proof (cases "k = i")
      case True
      thus ?thesis using ok2[OF that] \<open>krefs (spages ?s2 ! i) = 0\<close> sl unfolding s' key_ok_def by simp
    next
      case False
      thus ?thesis using ok2[OF that] unfolding s' key_ok_def by simp
    qed
    ultimately show ?thesis unfolding shm_inv_def by (simp add: s')
  qed
qed

lemma release_keys_inv:
  "release_keys kend s p is = Some s' \<Longrightarrow> shm_inv s \<Longrightarrow> p < length (sprocs s) \<Longrightarrow> \<forall>i \<in> set is. i < MAX_SHARED_KEYS \<Longrightarrow> shm_inv s'"
  by (induction "is" arbitrary: s) (auto split: option.splits dest!: release_key_inv)

lemma shmdt_inv:
  assumes "sys_shmdt kend s p = Some s'" "shm_inv s" "p < length (sprocs s)"
  shows "shm_inv s'"
proof -
  obtain km where "release_keys kend (s\<lparr>shkm := km\<rparr>) p [0..<MAX_SHARED_KEYS] = Some s'"
    using assms(1) by (auto simp: sys_shmdt_def Let_def split: option.splits)
  thus ?thesis by (rule release_keys_inv) (use assms(2,3) in \<open>simp_all add: shm_inv_def\<close>)
qed

lemma inherit_keys_inv:
  assumes "shm_inv s" "p < length (sprocs s)" "np < length (sprocs s)" "p \<noteq> np" "distinct is"
    "\<forall>i \<in> set is. i < MAX_SHARED_KEYS \<and> key_addresses (sprocs s ! np) ! i = 0"
  shows "shm_inv (inherit_keys s p np is) \<and> length (sprocs (inherit_keys s p np is)) = length (sprocs s) \<and>
    sprocs (inherit_keys s p np is) ! p = sprocs s ! p \<and> sp_sz (sprocs (inherit_keys s p np is) ! np) = sp_sz (sprocs s ! np)"
  using assms
proof (induction "is" arbitrary: s)
  case (Cons i "is")
  have i: "i < MAX_SHARED_KEYS" "key_addresses (sprocs s ! np) ! i = 0" "i \<notin> set is" using Cons.prems by auto
  show ?case
  proof (cases "key_addresses (sprocs s ! p) ! i = 0")
    case True
    thus ?thesis using Cons by simp
  next
    case False
    let ?v = "key_addresses (sprocs s ! p) ! i"
    let ?g = "\<lambda>q. q\<lparr>key_addresses := (key_addresses q)[i := ?v]\<rparr>"
    let ?s = "shm_inc_refcount (pupd s np ?g) i"
    have inv: "keys_shape s" "procs_ok s" "\<And>k. k < MAX_SHARED_KEYS \<Longrightarrow> key_ok s k" using Cons.prems(1) by (auto simp: shm_inv_def)
    have q: "length (key_addresses (sprocs s ! np)) = MAX_SHARED_KEYS" using inv(2) Cons.prems(3) by (auto simp: procs_ok_def)
    have at: "attached (pupd s np ?g) k = attached s k + (if k = i then 1 else 0)" if "k < MAX_SHARED_KEYS" for k
      using attached_pupd[of np s ?g k] Cons.prems(3) i(2) False q that by (simp add: nth_list_update)
    have rf: "attached s i \<ge> 1" using attached_pos[OF Cons.prems(2) False] .
    have sl: "i < length (spages s)" using inv(1) i(1) by (simp add: keys_shape_def)
    have "key_ok ?s k" if "k < MAX_SHARED_KEYS" for k
      using inv(3)[OF that] at[OF that] rf sl by (cases "k = i") (simp_all add: key_ok_def shm_inc_refcount_def)
    moreover have "procs_ok (pupd s np ?g)"
      by (rule procs_ok_pupd) (use inv(2) Cons.prems(3) in \<open>auto simp: procs_ok_def\<close>)
    moreover have "keys_shape ?s" unfolding shm_inc_refcount_def by (rule keys_shape_kupd) (use inv(1) in simp_all)
    ultimately have i2: "shm_inv ?s" by (simp add: shm_inv_def shm_inc_refcount_def)
    have "\<forall>k \<in> set is. k < MAX_SHARED_KEYS \<and> key_addresses (sprocs ?s ! np) ! k = 0"
      using Cons.prems(3,6) i(3) q by (auto simp: shm_inc_refcount_def nth_list_update)
    from Cons.IH[OF i2 _ _ Cons.prems(4) _ this] Cons.prems(2-5) False
    show ?thesis by (simp add: shm_inc_refcount_def)
  qed
qed simp

text \<open>
  Runs of the shared memory system.  \<open>resize\<close> stands for everything else that changes a process's size
  (\<open>growproc\<close> and \<open>exec\<close> keep it between 1 and \<open>current_top\<close>), its page directory or the memory; \<open>fork\<close> starts
  from a slot as \<open>allocproc\<close> leaves it.
\<close>

definition fresh_child :: "shmst \<Rightarrow> nat \<Rightarrow> u32 \<Rightarrow> kmem \<Rightarrow> nat \<Rightarrow> shmst" where
  "fresh_child s p d km np =
     pupd (s\<lparr>shkm := km\<rparr>) np (\<lambda>q. q\<lparr>sp_sz := sp_sz (sprocs s ! p), sp_pgdir := d, current_top := USERTOP, key_addresses := replicate MAX_SHARED_KEYS 0\<rparr>)"

inductive shm_step :: "u32 \<Rightarrow> shmst \<Rightarrow> shmst \<Rightarrow> bool" for kend where
  getat: "p < length (sprocs s) \<Longrightarrow> sys_shmgetat s p k n = Some (r, s') \<Longrightarrow> shm_step kend s s'"
| detach: "p < length (sprocs s) \<Longrightarrow> sys_shmdt kend s p = Some s' \<Longrightarrow> shm_step kend s s'"
| fork: "p < length (sprocs s) \<Longrightarrow> np < length (sprocs s) \<Longrightarrow> p \<noteq> np \<Longrightarrow> (\<And>k. k < MAX_SHARED_KEYS \<Longrightarrow> key_addresses (sprocs s ! np) ! k = 0) \<Longrightarrow>
    shm_step kend s (fork_shm (fresh_child s p d km np) p np)"
| resize: "p < length (sprocs s) \<Longrightarrow> 0 < z \<Longrightarrow> z \<le> current_top (sprocs s ! p) \<Longrightarrow>
    shm_step kend s (pupd (s\<lparr>shkm := km\<rparr>) p (\<lambda>q. q\<lparr>sp_sz := z, sp_pgdir := d\<rparr>))"

lemma shm_step_inv:
  assumes "shm_step kend s s'" "shm_inv s"
  shows "shm_inv s'"
  using assms(1)
proof cases
  case (getat p k n r)
  show ?thesis
  proof (cases "s' = s")
    case False
    then obtain kw nw where "k = Some kw" "n = Some nw" "0 \<le> sint kw" "sint kw < 8" "1 \<le> sint nw" "sint nw \<le> 4"
      "attach_pages_to_process s p (nat (sint kw)) (nat (sint nw)) = Some (r, s')"
      using getat by (auto simp: sys_shmgetat_def split: option.splits if_splits)
    thus ?thesis using attach_inv[OF _ assms(2) getat(1), of "nat (sint kw)" "nat (sint nw)" r s'] by simp
  qed (use assms(2) in simp)
next
  case (detach p)
  thus ?thesis using shmdt_inv assms(2) by blast
next
  case (fork p np d km)
  have inv: "keys_shape s" "procs_ok s" "\<And>k. k < MAX_SHARED_KEYS \<Longrightarrow> key_ok s k" using assms(2) by (auto simp: shm_inv_def)
  let ?c = "fresh_child s p d km np"
  have pq: "0 < sp_sz (sprocs s ! p)" "sp_sz (sprocs s ! p) \<le> current_top (sprocs s ! p)" "current_top (sprocs s ! p) \<le> USERTOP"
    using inv(2) fork(2) by (auto simp: procs_ok_def)
  have at: "attached ?c k = attached s k" if "k < MAX_SHARED_KEYS" for k
    using fork(3,5) that unfolding fresh_child_def by (subst attached_pupd) simp_all
  have "procs_ok ?c" unfolding fresh_child_def
    by (rule procs_ok_pupd) (use inv(2) fork(3) pq order_trans[OF pq(2,3)] in simp_all)
  moreover have "keys_shape ?c" using inv(1) by (simp add: fresh_child_def)
  moreover have "key_ok ?c k" if "k < MAX_SHARED_KEYS" for k
    using inv(3)[OF that] at[OF that] unfolding key_ok_def by (simp add: fresh_child_def)
  ultimately have ci: "shm_inv ?c" by (simp add: shm_inv_def)
  have l: "length (sprocs ?c) = length (sprocs s)" "sprocs ?c ! p = sprocs s ! p" "sp_sz (sprocs ?c ! np) = sp_sz (sprocs s ! p)"
    "\<And>k. k < MAX_SHARED_KEYS \<Longrightarrow> key_addresses (sprocs ?c ! np) ! k = 0" using fork(3,4) by (simp_all add: fresh_child_def)
  let ?t = "inherit_keys ?c p np [0..<MAX_SHARED_KEYS]"
  have t: "shm_inv ?t" "length (sprocs ?t) = length (sprocs s)" "sprocs ?t ! p = sprocs s ! p" "sp_sz (sprocs ?t ! np) = sp_sz (sprocs s ! p)"
    using inherit_keys_inv[OF ci, of p np "[0..<MAX_SHARED_KEYS]"] fork(2-4) l by auto
  let ?g = "\<lambda>q. q\<lparr>current_top := current_top (sprocs s ! p)\<rparr>"
  have s': "s' = pupd ?t np ?g" using fork(1) t(3) by (simp add: fork_shm_def Let_def)
  have a2: "attached (pupd ?t np ?g) k = attached ?t k" for k using fork(3) t(2) by (subst attached_pupd) simp_all
  have ti: "keys_shape ?t" "procs_ok ?t" "\<And>k. k < MAX_SHARED_KEYS \<Longrightarrow> key_ok ?t k" using t(1) by (auto simp: shm_inv_def)
  have "length (key_addresses (sprocs ?t ! np)) = MAX_SHARED_KEYS" using ti(2) fork(3) t(2) by (auto simp: procs_ok_def)
  hence "procs_ok (pupd ?t np ?g)" by (intro procs_ok_pupd[OF ti(2)]) (use fork(3) t pq in simp_all)
  thus ?thesis unfolding s' shm_inv_def using ti a2 by (simp add: key_ok_def)
next
  case (resize p z km d)
  have inv: "keys_shape s" "procs_ok s" "\<And>k. k < MAX_SHARED_KEYS \<Longrightarrow> key_ok s k" using assms(2) by (auto simp: shm_inv_def)
  let ?g = "\<lambda>q. q\<lparr>sp_sz := z, sp_pgdir := d\<rparr>"
  have "attached (pupd (s\<lparr>shkm := km\<rparr>) p ?g) k = attached s k" for k using resize(2) by (subst attached_pupd) simp_all
  moreover have "procs_ok (pupd (s\<lparr>shkm := km\<rparr>) p ?g)"
    by (rule procs_ok_pupd) (use inv(2) resize in \<open>auto simp: procs_ok_def\<close>)
  ultimately show ?thesis unfolding resize(1) shm_inv_def using inv by (simp add: key_ok_def)
qed


text \<open>Witness for C25: a process attaches one page under key 2.\<close>

definition demo_shm :: shmst where
  "demo_shm = \<lparr>shkm = \<lparr>kbytes = (\<lambda>_. 0), freelist = 0x4000\<rparr>, spages = replicate 8 \<lparr>kaddr = [0, 0, 0, 0, 0], kN = 0, krefs = 0\<rparr>,
     sprocs = [\<lparr>sp_sz = 0x1000, sp_pgdir = 0x3000, current_top = USERTOP, key_addresses = replicate 8 0\<rparr>]\<rparr>"

lemma zero_memory: "kmemset (\<lambda>_. 0) a 0 n = (\<lambda>_. 0)" "load32 (\<lambda>_. 0) a = 0"
  by (simp_all add: kmemset_eq fun_eq_iff load32_def le32_def)

lemma demo_shm_attach: "\<exists>s. sys_shmgetat (shminit demo_shm) 0 (Some 2) (Some 1) = Some (0x9F000, s) \<and> attached s 2 = 1"
  by (simp add: sys_shmgetat_def attach_pages_to_process_def attach_mapped_def shminit_def demo_shm_def no_room_def USERTOP_def PGSIZE_def
      kalloc_def zero_memory mappages_def PGROUNDDOWN_def mappages_loop.simps walkpgdir_def shm_inc_refcount_def kupd_def pupd_def attached_def)


text \<open>
  A call of \<open>shmgetat\<close> that fails for lack of address space leaves the key with a page count and NULL pages.
  The next process that exits hands NULL to \<open>kfree\<close>, and the kernel panics.
\<close>

lemma failed_attach_panics_later:
  assumes "krefs (spages s ! key) = 0" "kaddr (spages s ! key) ! 0 = 0" "no_room (sprocs s ! p) n" "1 \<le> n" "key < length (spages s)"
    "key_addresses (sprocs s ! q) ! key = 0" "0 < kend"
  shows "\<exists>s1. attach_pages_to_process s p key n = Some (-1, s1) \<and> release_key kend s1 q key = None"
proof -
  have "kfree kend (shkm s) 0 = None" using assms(7) by (simp add: kfree_def)
  moreover have "[0..<n] = 0 # [1..<n]" using assms(4) by (simp add: upt_conv_Cons)
  ultimately show ?thesis using assms by (simp add: attach_pages_to_process_def release_key_def)
qed

end
