(* ===== verification/Shell.thy ===== *)
theory Shell
  imports Prelude
begin

text \<open>
  The command parser of the shell (\<^verbatim>\<open>Project5b/xv6/user/sh.c\<close>).  The pointer \<open>*ps\<close> into the line is the rest of
  the line; a token is its text, which is what the argument and file name strings are once \<open>nulterminate\<close> has cut
  the line at their ends.  A call of \<open>panic\<close> is the error with its message.  The mutual recursion of the parser
  carries fuel; \<open>parsecmd\<close> starts with four units more than four times the length of the line, which is shown to be
  enough.
\<close>

subsection \<open>Commands and tokens\<close>

datatype cmd =
    EXEC "string list"
  | REDIR cmd string u32 nat
  | PIPE cmd cmd
  | LIST cmd cmd
  | BACK cmd

datatype perr = Panic string | NoFuel

abbreviation MAXARGS :: nat where "MAXARGS \<equiv> 10"
abbreviation RD_MODE :: u32 where "RD_MODE \<equiv> 0"
abbreviation WR_MODE :: u32 where "WR_MODE \<equiv> 0x201"

definition whitespace :: string where
  "whitespace = [CHR '' '', CHR 0x09, CHR 0x0D, CHR 0x0A, CHR 0x0B]"

definition symbols :: string where
  "symbols = ''<|>&;()''"

definition skip_ws :: "string \<Rightarrow> string" where
  "skip_ws s = dropWhile (\<lambda>c. c \<in> set whitespace) s"

definition word_char :: "char \<Rightarrow> bool" where
  "word_char c \<longleftrightarrow> c \<notin> set whitespace \<and> c \<notin> set symbols"

text \<open>The kind of the token, its text and the rest of the line.\<close>

definition gettoken :: "string \<Rightarrow> char \<times> string \<times> string" where
  "gettoken s =
     (case skip_ws s of
        [] \<Rightarrow> (CHR 0x00, [], [])
      | c # t \<Rightarrow>
          if c = CHR 0x00 then (c, [], c # t)
          else if c \<in> set ''|();&<'' then (c, [c], skip_ws t)
          else if c = CHR ''>'' then
            (case t of
               d # t' \<Rightarrow> if d = CHR ''>'' then (CHR ''+'', [c, d], skip_ws t') else (c, [c], skip_ws t)
             | [] \<Rightarrow> (c, [c], []))
          else (CHR ''a'', takeWhile word_char (c # t), skip_ws (dropWhile word_char (c # t))))"

definition peek :: "string \<Rightarrow> string \<Rightarrow> bool" where
  "peek s toks \<longleftrightarrow> (case skip_ws s of [] \<Rightarrow> False | c # _ \<Rightarrow> c \<noteq> CHR 0x00 \<and> c \<in> set toks)"

lemma skip_ws_length: "length (skip_ws s) \<le> length s"
  by (simp add: skip_ws_def length_dropWhile_le)

lemma skip_ws_idem [simp]: "skip_ws (skip_ws s) = skip_ws s"
  by (induction s) (auto simp: skip_ws_def)

lemma skip_wsD: "skip_ws s = c # t \<Longrightarrow> c \<notin> set whitespace \<and> length t < length s"
proof
  assume s: "skip_ws s = c # t"
  thus "c \<notin> set whitespace" by (auto simp: skip_ws_def dropWhile_eq_Cons_conv)
  show "length t < length s" using skip_ws_length[of s] s by simp
qed

lemma gettoken_shorter:
  assumes "skip_ws s = c # t" "c \<noteq> CHR 0x00"
  shows "length (snd (snd (gettoken s))) < length s"
proof -
  have l: "length t < length s" and nw: "c \<notin> set whitespace" using skip_wsD[OF assms(1)] by auto
  have tl: "length (skip_ws t) < length s" using skip_ws_length[of t] l by simp
  have dw: "length (skip_ws (dropWhile word_char (c # t))) < length s" if "word_char c"
    using that skip_ws_length[of "dropWhile word_char t"] length_dropWhile_le[of word_char t] l by simp
  have wc: "word_char c" if "c \<notin> set ''|();&<''" "c \<noteq> CHR ''>''" using nw that by (simp add: word_char_def symbols_def)
  have gt: "length (skip_ws t') < length s" if "t = d # t'" for d t' using that l skip_ws_length[of t'] by simp
  show ?thesis using tl dw wc gt l assms(2) by (auto simp: gettoken_def assms(1) split: list.splits)
qed

lemma peek_shorter: "peek s toks \<Longrightarrow> length (snd (snd (gettoken s))) < length s"
  by (auto simp: peek_def intro: gettoken_shorter split: list.splits)

lemma gettoken_le: "length (snd (snd (gettoken s))) \<le> length s"
proof (cases "skip_ws s")
  case (Cons c t)
  thus ?thesis using gettoken_shorter[OF Cons] skip_ws_length[of s]
    by (cases "c = CHR 0x00") (simp_all add: gettoken_def)
qed (simp add: gettoken_def)

subsection \<open>The parser\<close>

function parseredirs :: "cmd \<Rightarrow> string \<Rightarrow> perr + cmd \<times> string" where
  "parseredirs c s =
     (if peek s ''<>'' then
        case gettoken s of (tok, _, s1) \<Rightarrow>
          (case gettoken s1 of (k, f, s2) \<Rightarrow>
             if k \<noteq> CHR ''a'' then Inl (Panic ''missing file for redirection'')
             else if tok = CHR ''<'' then parseredirs (REDIR c f RD_MODE 0) s2
             else parseredirs (REDIR c f WR_MODE 1) s2)
      else Inr (c, skip_ws s))"
  by pat_completeness auto

lemma redir_shorter:
  assumes "peek s toks" "gettoken s = (tok, q, s1)" "gettoken s1 = (k, f, s2)"
  shows "length s2 < length s"
  using peek_shorter[OF assms(1)] gettoken_le[of s1] assms(2,3) by simp

termination parseredirs
  by (relation "measure (\<lambda>(c, s). length s)") (auto dest: redir_shorter[OF _ sym sym])

declare parseredirs.simps [simp del]

text \<open>The while loop of \<open>parseline\<close>, and the pointer \<open>cmd\<close> to the innermost \<open>EXEC\<close> through which \<open>parseexec\<close> stores
  an argument.\<close>

function backs :: "cmd \<Rightarrow> string \<Rightarrow> cmd \<times> string" where
  "backs c s = (if peek s ''&'' then backs (BACK c) (snd (snd (gettoken s))) else (c, skip_ws s))"
  by pat_completeness auto
termination backs
  by (relation "measure (\<lambda>(c, s). length s)") (auto intro: peek_shorter)

declare backs.simps [simp del]

fun add_arg :: "cmd \<Rightarrow> string \<Rightarrow> cmd" where
  "add_arg (EXEC as) a = EXEC (as @ [a])"
| "add_arg (REDIR c f m d) a = REDIR (add_arg c a) f m d"
| "add_arg c a = c"

lemma parseredirs_le: "parseredirs c s = Inr (c', s') \<Longrightarrow> length s' \<le> length s"
proof (induction c s rule: parseredirs.induct)
  case (1 c s)
  obtain tok q s1 k f s2 where g: "gettoken s = (tok, q, s1)" "gettoken s1 = (k, f, s2)" by (metis prod_cases3)
  show ?case
  proof (cases "peek s ''<>''")
    case True
    have lt: "length s2 < length s" by (rule redir_shorter[OF True g])
    show ?thesis
      using 1(3) 1(1)[OF True g(1)[symmetric] refl g(2)[symmetric] refl]
        1(2)[OF True g(1)[symmetric] refl g(2)[symmetric] refl] lt
      by (subst (asm) parseredirs.simps) (auto simp: True g split: if_splits)
  next
    case False
    thus ?thesis using 1(3) skip_ws_length[of s] by (subst (asm) parseredirs.simps) auto
  qed
qed

function parse_args :: "cmd \<Rightarrow> nat \<Rightarrow> string \<Rightarrow> perr + cmd \<times> string" where
  "parse_args ret argc s =
     (if peek s ''|)&;'' then Inr (ret, skip_ws s)
      else case gettoken s of (tok, q, s1) \<Rightarrow>
        if tok = CHR 0x00 then Inr (ret, s1)
        else if tok \<noteq> CHR ''a'' then Inl (Panic ''syntax'')
        else if MAXARGS \<le> argc + 1 then Inl (Panic ''too many args'')
        else case parseredirs (add_arg ret q) s1 of
            Inl e \<Rightarrow> Inl e
          | Inr (ret', s2) \<Rightarrow> parse_args ret' (argc + 1) s2)"
  by pat_completeness auto
termination parse_args
  by (relation "measure (\<lambda>(c, n, s). MAXARGS - n)") auto

declare parse_args.simps [simp del]

fun parseline :: "nat \<Rightarrow> string \<Rightarrow> perr + cmd \<times> string"
  and parsepipe :: "nat \<Rightarrow> string \<Rightarrow> perr + cmd \<times> string"
  and parseblock :: "nat \<Rightarrow> string \<Rightarrow> perr + cmd \<times> string"
  and parseexec :: "nat \<Rightarrow> string \<Rightarrow> perr + cmd \<times> string" where
  "parseline 0 s = Inl NoFuel"
| "parseline (Suc n) s =
     (case parsepipe n s of
        Inl e \<Rightarrow> Inl e
      | Inr (c, s1) \<Rightarrow>
          (case backs c s1 of (c', s2) \<Rightarrow>
             if peek s2 '';'' then
               (case parseline n (snd (snd (gettoken s2))) of
                  Inl e \<Rightarrow> Inl e
                | Inr (r, s3) \<Rightarrow> Inr (LIST c' r, s3))
             else Inr (c', skip_ws s2)))"
| "parsepipe 0 s = Inl NoFuel"
| "parsepipe (Suc n) s =
     (case parseexec n s of
        Inl e \<Rightarrow> Inl e
      | Inr (c, s1) \<Rightarrow>
          if peek s1 ''|'' then
            (case parsepipe n (snd (snd (gettoken s1))) of
               Inl e \<Rightarrow> Inl e
             | Inr (r, s2) \<Rightarrow> Inr (PIPE c r, s2))
          else Inr (c, skip_ws s1))"
| "parseblock 0 s = Inl NoFuel"
| "parseblock (Suc n) s =
     (if \<not> peek s ''('' then Inl (Panic ''parseblock'')
      else case parseline n (snd (snd (gettoken s))) of
          Inl e \<Rightarrow> Inl e
        | Inr (c, s1) \<Rightarrow>
            if \<not> peek s1 '')'' then Inl (Panic ''syntax - missing )'')
            else parseredirs c (snd (snd (gettoken s1))))"
| "parseexec 0 s = Inl NoFuel"
| "parseexec (Suc n) s =
     (if peek s ''('' then parseblock n s
      else case parseredirs (EXEC []) s of
          Inl e \<Rightarrow> Inl e
        | Inr (ret, s1) \<Rightarrow> parse_args ret 0 s1)"

definition parsecmd :: "string \<Rightarrow> perr + cmd" where
  "parsecmd s =
     (case parseline (4 * length s + 4) s of
        Inl e \<Rightarrow> Inl e
      | Inr (c, s1) \<Rightarrow> if skip_ws s1 \<noteq> [] then Inl (Panic ''syntax'') else Inr c)"

subsection \<open>Well-formed commands and how they are written\<close>

definition shell_word :: "string \<Rightarrow> bool" where
  "shell_word a \<longleftrightarrow> a \<noteq> [] \<and> (\<forall>c \<in> set a. word_char c \<and> c \<noteq> CHR 0x00)"

fun wf_cmd :: "cmd \<Rightarrow> bool" where
  "wf_cmd (EXEC as) \<longleftrightarrow> length as < MAXARGS \<and> list_all shell_word as"
| "wf_cmd (REDIR c f m d) \<longleftrightarrow> wf_cmd c \<and> shell_word f \<and> (m, d) \<in> {(RD_MODE, 0), (WR_MODE, 1)}"
| "wf_cmd (PIPE l r) \<longleftrightarrow> wf_cmd l \<and> wf_cmd r"
| "wf_cmd (LIST l r) \<longleftrightarrow> wf_cmd l \<and> wf_cmd r"
| "wf_cmd (BACK c) \<longleftrightarrow> wf_cmd c"

fun unparse :: "cmd \<Rightarrow> string" where
  "unparse (EXEC as) = concat (map (\<lambda>a. a @ '' '') as)"
| "unparse (REDIR c f m d) = ''('' @ unparse c @ '')'' @ (if d = 0 then ''<'' else ''>'') @ f @ '' ''"
| "unparse (PIPE l r) = ''('' @ unparse l @ '')|('' @ unparse r @ '')''"
| "unparse (LIST l r) = ''('' @ unparse l @ '');('' @ unparse r @ '')''"
| "unparse (BACK c) = ''('' @ unparse c @ '')&''"

text \<open>The calls of the parser that a written command needs.\<close>

fun nesting :: "cmd \<Rightarrow> nat" where
  "nesting (EXEC as) = 3"
| "nesting (REDIR c f m d) = nesting c + 4"
| "nesting (PIPE l r) = max (nesting l) (nesting r + 1) + 4"
| "nesting (LIST l r) = max (nesting l) (nesting r + 1) + 4"
| "nesting (BACK c) = nesting c + 4"

lemma nesting_le: "nesting c \<le> 4 * length (unparse c) + 4"
  by (induction c) auto

text \<open>What may follow a written command: the end of the line or a closing parenthesis.\<close>

definition closed :: "string \<Rightarrow> bool" where
  "closed r \<longleftrightarrow> r = [] \<or> (\<exists>t. r = CHR '')'' # t)"

lemma closed_simps [simp]: "closed []" "closed (CHR '')'' # t)"
  by (simp_all add: closed_def)

lemma skip_ws_symbol [simp]: "c \<in> set symbols \<Longrightarrow> skip_ws (c # t) = c # t"
  by (auto simp: skip_ws_def whitespace_def symbols_def)

lemma skip_ws_blank [simp]: "skip_ws (CHR '' '' # t) = skip_ws t" and skip_ws_Nil [simp]: "skip_ws [] = []"
  by (auto simp: skip_ws_def whitespace_def)

lemma symbols_mem [simp]:
  "CHR ''('' \<in> set symbols" "CHR '')'' \<in> set symbols" "CHR ''<'' \<in> set symbols" "CHR ''>'' \<in> set symbols"
  "CHR ''|'' \<in> set symbols" "CHR '';'' \<in> set symbols" "CHR ''&'' \<in> set symbols"
  by (simp_all add: symbols_def)

lemma skip_ws_closed [simp]: "closed r \<Longrightarrow> skip_ws r = r"
  by (auto simp: closed_def)

lemma peek_symbol [simp]: "c \<in> set symbols \<Longrightarrow> peek (c # t) toks \<longleftrightarrow> c \<in> set toks"
  by (auto simp: peek_def symbols_def)

lemma peek_Nil [simp]: "\<not> peek [] toks" and peek_blank [simp]: "peek (CHR '' '' # t) toks = peek t toks"
  by (simp_all add: peek_def)

lemma gettoken_symbol [simp]:
  "c \<in> set ''|();&<'' \<Longrightarrow> gettoken (c # t) = (c, [c], skip_ws t)"
  by (auto simp: gettoken_def symbols_def)

lemma word_ConsD:
  assumes "shell_word a"
  obtains c a' where "a = c # a'" "c \<notin> set whitespace" "c \<notin> set symbols" "c \<noteq> CHR 0x00"
  using assms by (cases a) (auto simp: shell_word_def word_char_def)

lemma skip_ws_word [simp]: "shell_word a \<Longrightarrow> skip_ws (a @ t) = a @ t"
  by (auto simp: skip_ws_def elim!: word_ConsD)

lemma not_peek_word [simp]: "shell_word a \<Longrightarrow> set toks \<subseteq> set symbols \<Longrightarrow> \<not> peek (a @ t) toks"
  by (auto simp: peek_def skip_ws_def elim!: word_ConsD)

lemma symbols_sub [simp]: "set ''|)&;'' \<subseteq> set symbols" "set ''<>'' \<subseteq> set symbols" "set ''('' \<subseteq> set symbols"
  by (auto simp: symbols_def)

lemma gettoken_word [simp]:
  assumes "shell_word a"
  shows "gettoken (a @ CHR '' '' # t) = (CHR ''a'', a, skip_ws t)"
proof -
  have w: "\<forall>c \<in> set a. word_char c" using assms by (simp add: shell_word_def)
  have b: "\<not> word_char (CHR '' '')" by (simp add: word_char_def whitespace_def)
  have tk: "takeWhile word_char (a @ CHR '' '' # t) = a" "dropWhile word_char (a @ CHR '' '' # t) = CHR '' '' # t"
    using w b by (simp_all add: takeWhile_append dropWhile_append)
  obtain c a' where a: "a = c # a'" "c \<notin> set symbols" "c \<noteq> CHR 0x00" using assms by (rule word_ConsD) auto
  have s: "skip_ws (a @ CHR '' '' # t) = c # a' @ CHR '' '' # t" using skip_ws_word[OF assms, of "CHR '' '' # t"] a by simp
  have "c \<notin> set ''|();&<''" "c \<noteq> CHR ''>''" using a(2) by (auto simp: symbols_def)
  thus ?thesis using tk a(3) unfolding gettoken_def s by (simp add: a(1))
qed

lemma parseredirs_none: "\<not> peek s ''<>'' \<Longrightarrow> parseredirs c s = Inr (c, skip_ws s)"
  by (subst parseredirs.simps) simp

lemma closed_not_redir [simp]: "closed r \<Longrightarrow> \<not> peek r ''<>''"
  by (auto simp: closed_def)

lemma gettoken_gt_word [simp]:
  "shell_word f \<Longrightarrow> gettoken (CHR ''>'' # f @ t) = (CHR ''>'', ''>'', f @ t)"
  using skip_ws_word[of f t] by (cases f) (auto simp: gettoken_def shell_word_def word_char_def symbols_def)

lemma parseredirs_written:
  assumes "shell_word f" "closed r" "(m, d) \<in> {(RD_MODE, 0), (WR_MODE, 1)}"
  shows "parseredirs c ((if d = 0 then ''<'' else ''>'') @ f @ CHR '' '' # r) = Inr (REDIR c f m d, r)"
proof -
  have n: "parseredirs c' r = Inr (c', r)" for c' using assms(2) by (simp add: parseredirs_none)
  show ?thesis using assms n by (subst parseredirs.simps) auto
qed

lemma backs_none: "\<not> peek s ''&'' \<Longrightarrow> backs c s = (c, skip_ws s)"
  by (subst backs.simps) simp

lemma backs_one: "closed r \<Longrightarrow> backs c (CHR ''&'' # r) = (BACK c, r)"
  by (subst backs.simps) (auto simp: backs_none closed_def)

lemma parse_args_written:
  assumes "list_all shell_word as" "closed r" "n + length as < MAXARGS"
  shows "parse_args (EXEC bs) n (concat (map (\<lambda>a. a @ '' '') as) @ r) = Inr (EXEC (bs @ as), r)"
  using assms
proof (induction as arbitrary: bs n)
  case Nil
  have "gettoken [] = (CHR 0x00, [], [])" by (simp add: gettoken_def)
  thus ?case using Nil(2) by (subst parse_args.simps) (auto simp: closed_def)
next
  case (Cons a as)
  let ?t = "concat (map (\<lambda>a. a @ '' '') as) @ r"
  have w: "shell_word a" and n: "Suc n < MAXARGS" using Cons.prems by auto
  have sk: "skip_ws ?t = ?t" "\<not> peek ?t ''<>''" using Cons.prems by (cases as; simp)+
  show ?case
    using Cons.IH[where bs = "bs @ [a]" and n = "Suc n"] Cons.prems w n sk
    by (subst parse_args.simps) (simp add: parseredirs_none)
qed

text \<open>What \<open>parseblock\<close> does with a parenthesised command, and what the callers of \<open>parseexec\<close> see.\<close>

lemma skip_ws_unparse:
  assumes "wf_cmd c" "closed r"
  shows "skip_ws (unparse c @ r) = unparse c @ r"
proof (cases c)
  case (EXEC as)
  thus ?thesis using assms by (cases as) auto
qed simp_all

lemma parseline_pipe:
  assumes "parsepipe n s = Inr (c, r)" "closed r"
  shows "parseline (Suc n) s = Inr (c, r)"
  using assms by (auto simp: backs_none closed_def)

lemma parsepipe_exec:
  assumes "parseexec n s = Inr (c, r)" "closed r"
  shows "parsepipe (Suc n) s = Inr (c, r)"
  using assms by (auto simp: closed_def)

lemma block_written:
  assumes "wf_cmd c" "\<And>t. closed t \<Longrightarrow> parseline n (unparse c @ t) = Inr (c, t)"
  shows "parseexec (Suc (Suc n)) (CHR ''('' # unparse c @ CHR '')'' # r) = parseredirs c (skip_ws r)"
  using assms(2)[of "CHR '')'' # r"] skip_ws_unparse[OF assms(1), of "CHR '')'' # r"] by simp

lemma fuel4: "k + 4 \<le> n \<Longrightarrow> \<exists>m. n = Suc (Suc (Suc (Suc m))) \<and> k \<le> m"
  by presburger

lemma fuel5: "max j (k + 1) + 4 \<le> n \<Longrightarrow> \<exists>m. n = Suc (Suc (Suc (Suc (Suc m)))) \<and> j \<le> Suc m \<and> k \<le> m"
  by presburger

lemma parse_written:
  assumes "wf_cmd c" "closed r" "nesting c \<le> n"
  shows "parseline n (unparse c @ r) = Inr (c, r)"
  using assms
proof (induction c arbitrary: n r)
  case (EXEC as)
  obtain m where n: "n = Suc (Suc (Suc m))" using EXEC.prems(3) fuel4[of 0 "Suc n"] by auto
  have p: "\<not> peek (unparse (EXEC as) @ r) ''<>''" "\<not> peek (unparse (EXEC as) @ r) ''(''"
    using EXEC.prems by (cases as; auto simp: closed_def)+
  have a: "parse_args (EXEC []) 0 (unparse (EXEC as) @ r) = Inr (EXEC as, r)"
    using parse_args_written[of as r 0 "[]"] EXEC.prems by simp
  have "parseexec (Suc m) (unparse (EXEC as) @ r) = Inr (EXEC as, r)"
    unfolding parseexec.simps parseredirs_none[OF p(1)] skip_ws_unparse[OF EXEC.prems(1,2)] using p(2) a by (simp del: unparse.simps)
  thus ?case unfolding n by (rule parseline_pipe[OF parsepipe_exec]) (rule EXEC.prems(2))+
next
  case (REDIR c f m d)
  obtain k where n: "n = Suc (Suc (Suc (Suc k)))" "nesting c \<le> k" using REDIR.prems(3) fuel4 by (metis nesting.simps(2))
  have "parseexec (Suc (Suc k)) (unparse (REDIR c f m d) @ r) = Inr (REDIR c f m d, r)"
    using block_written[OF _ REDIR.IH[OF _ _ n(2)]] parseredirs_written[of f r m d c] REDIR.prems by auto
  thus ?case unfolding n by (rule parseline_pipe[OF parsepipe_exec]) (rule REDIR.prems(2))+
next
  case (PIPE l c)
  obtain k where n: "n = Suc (Suc (Suc (Suc (Suc k))))" "nesting l \<le> Suc k" "nesting c \<le> k"
    using PIPE.prems(3) fuel5 by (metis nesting.simps(3))
  have "parsepipe (Suc (Suc (Suc k))) (CHR ''('' # unparse c @ CHR '')'' # r) = Inr (c, r)"
    using block_written[OF _ PIPE.IH(2)[OF _ _ n(3)]] PIPE.prems by (intro parsepipe_exec) (auto simp: parseredirs_none)
  hence "parsepipe (Suc (Suc (Suc (Suc k)))) (unparse (PIPE l c) @ r) = Inr (PIPE l c, r)"
    using block_written[OF _ PIPE.IH(1)[OF _ _ n(2)], of "CHR ''|'' # CHR ''('' # unparse c @ CHR '')'' # r"] PIPE.prems
    by (subst parsepipe.simps) (auto simp: parseredirs_none)
  thus ?case unfolding n(1) by (rule parseline_pipe) (rule PIPE.prems(2))
next
  case (LIST l c)
  obtain k where n: "n = Suc (Suc (Suc (Suc (Suc k))))" "nesting l \<le> Suc k" "nesting c \<le> k"
    using LIST.prems(3) fuel5 by (metis nesting.simps(4))
  have c: "parseline (Suc (Suc (Suc (Suc k)))) (CHR ''('' # unparse c @ CHR '')'' # r) = Inr (c, r)"
    using block_written[OF _ LIST.IH(2)[OF _ _ n(3)]] LIST.prems
    by (intro parseline_pipe parsepipe_exec) (auto simp: parseredirs_none)
  have "parsepipe (Suc (Suc (Suc (Suc k)))) (unparse (LIST l c) @ r) = Inr (l, CHR '';'' # CHR ''('' # unparse c @ CHR '')'' # r)"
    using block_written[OF _ LIST.IH(1)[OF _ _ n(2)], of "CHR '';'' # CHR ''('' # unparse c @ CHR '')'' # r"] LIST.prems
    by (subst parsepipe.simps) (auto simp: parseredirs_none)
  thus ?case using c unfolding n(1) by (subst parseline.simps) (simp add: backs_none)
next
  case (BACK c)
  obtain k where n: "n = Suc (Suc (Suc (Suc k)))" "nesting c \<le> k" using BACK.prems(3) fuel4 by (metis nesting.simps(5))
  have "parsepipe (Suc (Suc (Suc k))) (unparse (BACK c) @ r) = Inr (c, CHR ''&'' # r)"
    using block_written[OF _ BACK.IH[OF _ _ n(2)], of "CHR ''&'' # r"] BACK.prems
    by (subst parsepipe.simps) (auto simp: parseredirs_none)
  thus ?case unfolding n(1) using BACK.prems(2) by (subst parseline.simps) (auto simp: backs_one closed_def)
qed

subsection \<open>What the parser returns\<close>

definition parse_panics :: "perr set" where
  "parse_panics = Panic ` {''syntax'', ''too many args'', ''missing file for redirection'', ''syntax - missing )''}"

text \<open>A result of a parsing function on the line \<open>s\<close>: one of the panics, or a well-formed command and a rest of the
  line that is no longer and holds no other characters.\<close>

definition parse_result :: "string \<Rightarrow> perr + cmd \<times> string \<Rightarrow> bool" where
  "parse_result s r = (case r of Inl e \<Rightarrow> e \<in> parse_panics
     | Inr (c, s') \<Rightarrow> wf_cmd c \<and> length s' \<le> length s \<and> set s' \<subseteq> set s)"

fun nargs :: "cmd \<Rightarrow> nat option" where
  "nargs (EXEC as) = Some (length as)"
| "nargs (REDIR c f m d) = nargs c"
| "nargs c = None"

lemma set_skip_ws: "set (skip_ws s) \<subseteq> set s"
  by (auto simp: skip_ws_def dest: set_dropWhileD)

lemma gettoken_set: "set (snd (snd (gettoken s))) \<subseteq> set s"
proof (cases "skip_ws s")
  case (Cons c t)
  have "set (c # t) \<subseteq> set s" using set_skip_ws[of s] Cons by simp
  moreover have "set (skip_ws (dropWhile word_char (c # t))) \<subseteq> set (c # t)"
    using set_skip_ws[of "dropWhile word_char (c # t)"] set_dropWhileD[of _ word_char "c # t"] by blast
  ultimately show ?thesis using set_skip_ws[of t] set_skip_ws[of "tl t"]
    by (auto simp: gettoken_def Cons simp del: dropWhile.simps split: list.splits; blast)
qed (simp add: gettoken_def)

lemma gettoken_shell_word:
  assumes "CHR 0x00 \<notin> set s" "gettoken s = (CHR ''a'', q, s1)"
  shows "shell_word q"
proof (cases "skip_ws s")
  case (Cons c t)
  have n: "CHR 0x00 \<notin> set (c # t)" using set_skip_ws[of s] Cons assms(1) by auto
  have q: "q = takeWhile word_char (c # t)" "c \<notin> set ''|();&<>''"
    using assms(2) n by (auto simp: gettoken_def Cons simp del: takeWhile.simps split: list.splits if_splits)
  have "word_char c" using q(2) skip_wsD[OF Cons] by (simp add: word_char_def symbols_def)
  thus ?thesis using q(1) n by (auto simp: shell_word_def dest: set_takeWhileD)
qed (use assms(2) in \<open>simp add: gettoken_def\<close>)

lemma parse_result_le:
  "parse_result s1 r \<Longrightarrow> length s1 \<le> length s \<Longrightarrow> set s1 \<subseteq> set s \<Longrightarrow> parse_result s r"
  by (auto simp: parse_result_def split: sum.splits)

lemma parse_panicsI [simp]:
  "Panic ''syntax'' \<in> parse_panics" "Panic ''too many args'' \<in> parse_panics"
  "Panic ''missing file for redirection'' \<in> parse_panics" "Panic ''syntax - missing )'' \<in> parse_panics"
  by (simp_all add: parse_panics_def)

lemma parseredirs_result:
  "wf_cmd c \<Longrightarrow> CHR 0x00 \<notin> set s \<Longrightarrow>
    parse_result s (parseredirs c s) \<and> (\<forall>c' s'. parseredirs c s = Inr (c', s') \<longrightarrow> nargs c' = nargs c)"
proof (induction c s rule: parseredirs.induct)
  case (1 c s)
  obtain tok q s1 k f s2 where g: "gettoken s = (tok, q, s1)" "gettoken s1 = (k, f, s2)" by (metis prod_cases3)
  have s1: "set s1 \<subseteq> set s" "set s2 \<subseteq> set s" "CHR 0x00 \<notin> set s1" "CHR 0x00 \<notin> set s2"
    using gettoken_set[of s] gettoken_set[of s1] g 1(4) by auto
  show ?case
  proof (cases "peek s ''<>'' \<and> k = CHR ''a''")
    case True
    hence p: "peek s ''<>''" and k: "k = CHR ''a''" by auto
    have l: "length s2 \<le> length s" using redir_shorter[OF p g] by simp
    have w: "wf_cmd (REDIR c f RD_MODE 0)" "wf_cmd (REDIR c f WR_MODE 1)"
      using 1(3) gettoken_shell_word[OF s1(3)] g(2) k by auto
    note IH = 1(1)[OF p g(1)[symmetric] refl g(2)[symmetric] refl _ _ w(1) s1(4)]
      1(2)[OF p g(1)[symmetric] refl g(2)[symmetric] refl _ _ w(2) s1(4)]
    show ?thesis
    proof (cases "tok = CHR ''<''")
      case True
      thus ?thesis using IH(1) k parse_result_le[OF _ l s1(2)] by (simp add: parseredirs.simps[of c s] p g)
    next
      case False
      thus ?thesis using IH(2) k parse_result_le[OF _ l s1(2)] by (simp add: parseredirs.simps[of c s] p g)
    qed
  next
    case False
    thus ?thesis using 1(3) skip_ws_length[of s] set_skip_ws[of s]
      by (auto simp: parseredirs.simps[of c s] g parse_result_def)
  qed
qed

lemma nargs_add_arg [simp]: "nargs (add_arg c a) = map_option Suc (nargs c)"
  by (induction c a rule: add_arg.induct) auto

lemma wf_add_arg: "wf_cmd c \<Longrightarrow> nargs c = Some n \<Longrightarrow> Suc n < MAXARGS \<Longrightarrow> shell_word a \<Longrightarrow> wf_cmd (add_arg c a)"
  by (induction c a rule: add_arg.induct) auto

lemma parse_args_result:
  "wf_cmd c \<Longrightarrow> nargs c = Some n \<Longrightarrow> CHR 0x00 \<notin> set s \<Longrightarrow> parse_result s (parse_args c n s)"
proof (induction c n s rule: parse_args.induct)
  case (1 c n s)
  obtain tok q s1 where g: "gettoken s = (tok, q, s1)" by (metis prod_cases3)
  have s1: "length s1 \<le> length s" "set s1 \<subseteq> set s" using gettoken_le[of s] gettoken_set[of s] g by auto
  show ?case
  proof (cases "\<not> peek s ''|)&;'' \<and> tok = CHR ''a'' \<and> n + 1 < MAXARGS")
    case True
    hence t: "\<not> peek s ''|)&;''" "tok \<noteq> CHR 0x00" "\<not> tok \<noteq> CHR ''a''" "\<not> MAXARGS \<le> n + 1" by auto
    have w: "wf_cmd (add_arg c q)" using wf_add_arg[OF 1(2,3)] gettoken_shell_word[OF 1(4)] g t by simp
    have n: "CHR 0x00 \<notin> set s1" using 1(4) s1 by auto
    note r = parseredirs_result[OF w n]
    have "parse_result s (case parseredirs (add_arg c q) s1 of Inl e \<Rightarrow> Inl e | Inr (c', s2) \<Rightarrow> parse_args c' (n + 1) s2)"
    proof (cases "parseredirs (add_arg c q) s1")
      case (Inl e)
      thus ?thesis using r by (simp add: parse_result_def)
    next
      case (Inr a)
      obtain c' s2 where a: "a = (c', s2)" by fastforce
      have c': "wf_cmd c'" "nargs c' = Some (n + 1)" "length s2 \<le> length s1" "set s2 \<subseteq> set s1"
        using r Inr a 1(3) by (auto simp: parse_result_def)
      have "parse_result s2 (parse_args c' (n + 1) s2)"
        using 1(1)[OF t(1) g[symmetric] refl t(2-4) Inr a[symmetric]] c' n by auto
      thus ?thesis using parse_result_le[of s2 _ s] c' s1 Inr a by simp
    qed
    thus ?thesis using t by (simp add: parse_args.simps[of c n s] g)
  next
    case False
    thus ?thesis using 1(2) skip_ws_length[of s] set_skip_ws[of s] s1
      by (auto simp: parse_args.simps[of c n s] g parse_result_def)
  qed
qed

lemma backs_result:
  "wf_cmd c \<Longrightarrow> wf_cmd (fst (backs c s)) \<and> length (snd (backs c s)) \<le> length s \<and> set (snd (backs c s)) \<subseteq> set s"
proof (induction c s rule: backs.induct)
  case (1 c s)
  show ?case
    using 1 gettoken_le[of s] gettoken_set[of s] skip_ws_length[of s] set_skip_ws[of s]
    by (cases "peek s ''&''") (auto simp: backs.simps[of c s])
qed

lemma peek_next:
  assumes "peek s toks" "length s \<le> length s0" "set s \<subseteq> set s0"
  shows "length (snd (snd (gettoken s))) < length s0" "set (snd (snd (gettoken s))) \<subseteq> set s0"
  using peek_shorter[OF assms(1)] gettoken_set[of s] assms(2,3) by auto

lemma parse_result_Inr:
  "parse_result s (Inr (c, s')) \<longleftrightarrow> wf_cmd c \<and> length s' \<le> length s \<and> set s' \<subseteq> set s"
  "parse_result s (Inl e) \<longleftrightarrow> e \<in> parse_panics"
  by (simp_all add: parse_result_def)

lemma parse_results:
  "CHR 0x00 \<notin> set s \<Longrightarrow> 4 * length s + 4 \<le> n \<Longrightarrow> parse_result s (parseline n s)"
  "CHR 0x00 \<notin> set s \<Longrightarrow> 4 * length s + 3 \<le> n \<Longrightarrow> parse_result s (parsepipe n s)"
  "CHR 0x00 \<notin> set s \<Longrightarrow> 4 * length s + 1 \<le> n \<Longrightarrow> peek s ''('' \<Longrightarrow> parse_result s (parseblock n s)"
  "CHR 0x00 \<notin> set s \<Longrightarrow> 4 * length s + 2 \<le> n \<Longrightarrow> parse_result s (parseexec n s)"
proof (induction n s and n s and n s and n s rule: parseline_parsepipe_parseblock_parseexec.induct)
  case (2 n s)
  have pp: "parse_result s (parsepipe n s)" using 2(1) 2(3,4) by simp
  show ?case
  proof (cases "parsepipe n s")
    case (Inr a)
    obtain c s1 where a: "a = (c, s1)" by fastforce
    obtain c' s2 where b: "backs c s1 = (c', s2)" by fastforce
    have l: "wf_cmd c'" "length s2 \<le> length s" "set s2 \<subseteq> set s"
      using pp Inr a backs_result[of c s1] b by (auto simp: parse_result_def)
    show ?thesis
    proof (cases "peek s2 '';''")
      case True
      let ?s3 = "snd (snd (gettoken s2))"
      have "parse_result ?s3 (parseline n ?s3)"
        using 2(2)[OF Inr a[symmetric] b[symmetric] True] peek_next[OF True l(2,3)] 2(3,4) by auto
      thus ?thesis using parse_result_le[of ?s3 _ s] peek_next[OF True l(2,3)] Inr a b True l(1)
        by (cases "parseline n ?s3") (auto simp: parse_result_def split: prod.splits)
    next
      case False
      thus ?thesis using Inr a b l skip_ws_length[of s2] set_skip_ws[of s2] by (auto simp: parse_result_def)
    qed
  qed (use pp in \<open>simp add: parse_result_def\<close>)
next
  case (4 n s)
  have pp: "parse_result s (parseexec n s)" using 4(1) 4(3,4) by simp
  show ?case
  proof (cases "parseexec n s")
    case (Inr a)
    obtain c s1 where a: "a = (c, s1)" by fastforce
    have l: "wf_cmd c" "length s1 \<le> length s" "set s1 \<subseteq> set s" using pp Inr a by (auto simp: parse_result_def)
    show ?thesis
    proof (cases "peek s1 ''|''")
      case True
      let ?s3 = "snd (snd (gettoken s1))"
      have "parse_result ?s3 (parsepipe n ?s3)"
        using 4(2)[OF Inr a[symmetric] True] peek_next[OF True l(2,3)] 4(3,4) by auto
      thus ?thesis using parse_result_le[of ?s3 _ s] peek_next[OF True l(2,3)] Inr a True l(1)
        by (cases "parsepipe n ?s3") (auto simp: parse_result_def split: prod.splits)
    next
      case False
      thus ?thesis using Inr a l skip_ws_length[of s1] set_skip_ws[of s1] by (auto simp: parse_result_def)
    qed
  qed (use pp in \<open>simp add: parse_result_def\<close>)
next
  case (6 n s)
  let ?s0 = "snd (snd (gettoken s))"
  note n0 = peek_next[OF 6(4) order_refl order_refl]
  have pl: "parse_result ?s0 (parseline n ?s0)" using 6(1) 6(2-4) n0 by auto
  show ?case
  proof (cases "parseline n ?s0")
    case (Inr a)
    obtain c s1 where a: "a = (c, s1)" by fastforce
    have l: "wf_cmd c" "length s1 \<le> length s" "set s1 \<subseteq> set s" using pl n0 Inr a by (auto simp: parse_result_def)
    show ?thesis
    proof (cases "peek s1 '')''")
      case True
      note n1 = peek_next[OF True l(2,3)]
      have "CHR 0x00 \<notin> set (snd (snd (gettoken s1)))" using n1 6(2) by auto
      from parseredirs_result[OF l(1) this] n1 show ?thesis using Inr a True 6(4) by (auto intro: parse_result_le)
    qed (use Inr a 6(4) in \<open>simp add: parse_result_def\<close>)
  qed (use pl 6(4) in \<open>simp add: parse_result_def\<close>)
next
  case (8 n s)
  show ?case
  proof (cases "peek s ''(''")
    case False
    have w: "wf_cmd (EXEC [])" by simp
    note r = parseredirs_result[OF w 8(2)]
    show ?thesis
    proof (cases "parseredirs (EXEC []) s")
      case (Inr a)
      obtain c s1 where a: "a = (c, s1)" by fastforce
      have l: "wf_cmd c" "nargs c = Some 0" "length s1 \<le> length s" "set s1 \<subseteq> set s" "CHR 0x00 \<notin> set s1"
        using r Inr a 8(2) by (auto simp: parse_result_def)
      thus ?thesis using parse_result_le[OF parse_args_result[OF l(1,2,5)] l(3,4)] False Inr a by simp
    qed (use r False in \<open>simp add: parse_result_def\<close>)
  qed (use 8 in simp)
qed auto

subsection \<open>The parser of the shell\<close>

text \<open>
  C26: every well-formed command, written with parentheses around the parts of a pipe, a list, a redirection or a
  background command, is read back by \<open>parsecmd\<close> as exactly that command: nothing of the line is left over, and no
  argument, file name or mode is lost.
\<close>
theorem parse_print_roundtrip:
  assumes "wf_cmd c"
  shows "parsecmd (unparse c) = Inr c"
  using parse_written[OF assms closed_simps(1) nesting_le] by (simp add: parsecmd_def)

text \<open>Witness for C26: a pipe in the background whose right side has its output redirected.\<close>
theorem parse_print_roundtrip_witness:
  "parsecmd ''(()|(()>out ))&'' = Inr (BACK (PIPE (EXEC []) (REDIR (EXEC []) ''out'' WR_MODE 1)))"
proof -
  let ?c = "BACK (PIPE (EXEC []) (REDIR (EXEC []) ''out'' WR_MODE 1))"
  have "wf_cmd ?c" by (simp add: shell_word_def word_char_def whitespace_def symbols_def)
  from parse_print_roundtrip[OF this] show ?thesis by simp
qed

text \<open>
  C27: on every line the parser returns: with a well-formed command, whose arguments fit \<open>argv\<close> with its final null
  pointer, or with one of four panics.  The fuel of \<open>parsecmd\<close> never runs out and the panic of \<open>parseblock\<close> is never
  reached.
\<close>
theorem parsecmd_total:
  assumes "CHR 0x00 \<notin> set s"
  shows "(\<exists>c. parsecmd s = Inr c \<and> wf_cmd c) \<or> (\<exists>e \<in> parse_panics. parsecmd s = Inl e)"
  using parse_results(1)[OF assms order_refl]
  by (auto simp: parsecmd_def parse_result_def split: sum.splits prod.splits)

text \<open>Witness for C27: a missing file name and an unclosed block.\<close>
theorem parsecmd_total_witness:
  "(\<exists>c. parsecmd ''ls >'' = Inr c \<and> wf_cmd c) \<or> (\<exists>e \<in> parse_panics. parsecmd ''ls >'' = Inl e)"
  using parsecmd_total[of "''ls >''"] by simp

text \<open>The redirection read last is the outermost, so \<open>runcmd\<close> opens it first and the file of the first redirection
  replaces it: \<^verbatim>\<open>ls > a > b\<close> writes to \<^verbatim>\<open>a\<close>.\<close>

lemma last_redirection_is_outermost:
  "parsecmd ''(ls )>a >b '' = Inr (REDIR (REDIR (EXEC [''ls'']) ''a'' WR_MODE 1) ''b'' WR_MODE 1)"
  by code_simp

end
