(* ===== verification/Umalloc.thy ===== *)
theory Umalloc
  imports Prelude
begin

text \<open>
  The allocator of user programs (\<^verbatim>\<open>Project5b/xv6/user/umalloc.c\<close>, after Kernighan and Ritchie).  A pointer to a header
  is its address in units of a header, eight bytes; \<open>base\<close> is the static header, which lies below the heap.  \<open>hptr\<close>
  and \<open>hsize\<close> are the two fields of a header; sizes stay below the number of headers under \<open>USERTOP\<close> and are numbers,
  while the number of units that a request needs is computed in 32 bits as in the code.  The loops of the code are
  partial: \<open>None\<close> is a loop that does not end.
\<close>

record umem =
  hptr :: "nat \<Rightarrow> nat"
  hsize :: "nat \<Rightarrow> nat"
  freep :: nat
  ubrk :: nat

abbreviation UTOP :: nat where "UTOP \<equiv> 0xA0000"

text \<open>
  \<open>sys_sbrk\<close> with \<open>growproc\<close>: the old break, or -1 (\<open>None\<close>).  \<open>avail\<close> tells whether the kernel finds the pages to grow
  from one break by a number of bytes.  A count of bytes that is negative as an \<open>int\<close> shrinks the process, unless the
  new size wraps around above the old one.
\<close>

definition sbrk :: "(nat \<Rightarrow> nat \<Rightarrow> bool) \<Rightarrow> umem \<Rightarrow> u32 \<Rightarrow> (nat \<times> umem) option" where
  "sbrk avail s n =
     (let sz = 8 * ubrk s; z = (of_nat sz :: u32) + n
      in if 0 <s n then
           (if sz + unat n \<le> UTOP \<and> avail (ubrk s) (unat n) then Some (ubrk s, s\<lparr>ubrk := unat z div 8\<rparr>) else None)
         else if n = 0 \<or> of_nat sz \<le> z then Some (ubrk s, s)
         else if z = 0 then None
         else Some (ubrk s, s\<lparr>ubrk := unat z div 8\<rparr>))"

text \<open>The loop of \<open>free\<close>: the free block after which \<open>bp\<close> belongs.\<close>

partial_function (option) free_pos :: "umem \<Rightarrow> nat \<Rightarrow> nat \<Rightarrow> nat option" where
  "free_pos s bp p =
     (if bp > p \<and> bp < hptr s p then Some p
      else if p \<ge> hptr s p \<and> (bp > p \<or> bp < hptr s p) then Some p
      else free_pos s bp (hptr s p))"

definition ufree :: "umem \<Rightarrow> nat \<Rightarrow> umem option" where
  "ufree s ap = do {
     let bp = ap - 1;
     p \<leftarrow> free_pos s bp (freep s);
     let q = hptr s p;
     let s1 = (if bp + hsize s bp = q
               then s\<lparr>hsize := (hsize s)(bp := hsize s bp + hsize s q), hptr := (hptr s)(bp := hptr s q)\<rparr>
               else s\<lparr>hptr := (hptr s)(bp := q)\<rparr>);
     let s2 = (if p + hsize s1 p = bp
               then s1\<lparr>hsize := (hsize s1)(p := hsize s1 p + hsize s1 bp), hptr := (hptr s1)(p := hptr s1 bp)\<rparr>
               else s1\<lparr>hptr := (hptr s1)(p := bp)\<rparr>);
     Some (s2\<lparr>freep := p\<rparr>)
   }"

definition morecore :: "(nat \<Rightarrow> nat \<Rightarrow> bool) \<Rightarrow> umem \<Rightarrow> u32 \<Rightarrow> (nat \<times> umem) option" where
  "morecore avail s nu0 =
     (let nu = (if nu0 < 4096 then 4096 else nu0)
      in case sbrk avail s (nu * 8) of
           None \<Rightarrow> Some (0, s)
         | Some (hp, s1) \<Rightarrow>
             (case ufree (s1\<lparr>hsize := (hsize s1)(hp := unat nu)\<rparr>) (hp + 1) of
                None \<Rightarrow> None
              | Some s2 \<Rightarrow> Some (freep s2, s2)))"

text \<open>A block that is large enough is taken whole or gives its tail.\<close>

definition take_block :: "umem \<Rightarrow> nat \<Rightarrow> nat \<Rightarrow> nat \<Rightarrow> nat \<times> umem" where
  "take_block s prevp p n =
     (if hsize s p = n then (p + 1, s\<lparr>hptr := (hptr s)(prevp := hptr s p), freep := prevp\<rparr>)
      else let k = hsize s p - n; p' = p + k
           in (p' + 1, s\<lparr>hsize := (hsize s)(p := k, p' := n), freep := prevp\<rparr>))"

partial_function (option) malloc_loop :: "(nat \<Rightarrow> nat \<Rightarrow> bool) \<Rightarrow> u32 \<Rightarrow> umem \<Rightarrow> nat \<Rightarrow> nat \<Rightarrow> (nat \<times> umem) option" where
  "malloc_loop avail n s prevp p =
     (if hsize s p \<ge> unat n then Some (take_block s prevp p (unat n))
      else if p = freep s then
        (case morecore avail s n of
           None \<Rightarrow> None
         | Some (p1, s1) \<Rightarrow> if p1 = 0 then Some (0, s1) else malloc_loop avail n s1 p1 (hptr s1 p1))
      else malloc_loop avail n s p (hptr s p))"

definition nunits :: "u32 \<Rightarrow> u32" where
  "nunits nbytes = (nbytes + 8 - 1) div 8 + 1"

definition umalloc :: "(nat \<Rightarrow> nat \<Rightarrow> bool) \<Rightarrow> nat \<Rightarrow> umem \<Rightarrow> u32 \<Rightarrow> (nat \<times> umem) option" where
  "umalloc avail base s nbytes =
     (let s0 = (if freep s = 0
                then s\<lparr>hptr := (hptr s)(base := base), freep := base, hsize := (hsize s)(base := 0)\<rparr> else s)
      in malloc_loop avail (nunits nbytes) s0 (freep s0) (hptr s0 (freep s0)))"

subsection \<open>Blocks that tile the heap\<close>

text \<open>The blocks with headers in \<open>S\<close> and sizes \<open>h\<close> do not overlap and fill the heap from \<open>lo\<close> to \<open>hi\<close>.\<close>

definition tiles :: "(nat \<Rightarrow> nat) \<Rightarrow> nat set \<Rightarrow> nat \<Rightarrow> nat \<Rightarrow> bool" where
  "tiles h S lo hi \<longleftrightarrow>
     (\<forall>a \<in> S. \<forall>b \<in> S. a \<noteq> b \<longrightarrow> a + h a \<le> b \<or> b + h b \<le> a) \<and> (\<Union>a \<in> S. {a..<a + h a}) = {lo..<hi}"

lemma tiles_disjoint:
  assumes "tiles h S lo hi" "a \<in> S" "b \<in> S" "a \<noteq> b"
  shows "a + h a \<le> b \<or> b + h b \<le> a"
proof -
  have "\<forall>a \<in> S. \<forall>b \<in> S. a \<noteq> b \<longrightarrow> a + h a \<le> b \<or> b + h b \<le> a"
    using assms(1) unfolding tiles_def by (rule conjunct1)
  thus ?thesis using assms(2-4) by simp
qed

lemma tiles_cover: "tiles h S lo hi \<Longrightarrow> (\<Union>a \<in> S. {a..<a + h a}) = {lo..<hi}"
  unfolding tiles_def by (rule conjunct2)

lemma tilesI:
  assumes "\<And>a b. a \<in> S \<Longrightarrow> b \<in> S \<Longrightarrow> a \<noteq> b \<Longrightarrow> a + h a \<le> b \<or> b + h b \<le> a"
    "(\<Union>a \<in> S. {a..<a + h a}) = {lo..<hi}"
  shows "tiles h S lo hi"
  unfolding tiles_def using assms by simp

lemma tiles_bounds:
  assumes "tiles h S lo hi" "a \<in> S" "0 < h a"
  shows "lo \<le> a \<and> a + h a \<le> hi"
proof -
  have "{a..<a + h a} \<subseteq> {lo..<hi}" using assms unfolding tiles_def by blast
  thus ?thesis using assms(3) by (simp add: atLeastLessThan_subset_iff)
qed

lemma tiles_apart:
  assumes "tiles h S lo hi" "a \<in> S" "b \<in> S" "a < b" "0 < h b"
  shows "a + h a \<le> b"
proof -
  have "a + h a \<le> b \<or> b + h b \<le> a" using assms(4) by (intro tiles_disjoint[OF assms(1-3)]) simp
  thus ?thesis using assms(4,5) by linarith
qed

lemma tiles_cong: "(\<And>a. a \<in> S \<Longrightarrow> h' a = h a) \<Longrightarrow> tiles h' S lo hi = tiles h S lo hi"
  unfolding tiles_def by simp

lemma tiles_join:
  assumes t: "tiles h S lo hi" and ab: "a \<in> S" "b \<in> S" "a + h a = b" "a \<noteq> b"
  shows "tiles (h(a := h a + h b)) (S - {b}) lo hi"
proof -
  let ?h = "h(a := h a + h b)"
  have o: "c + h c \<le> d \<or> d + h d \<le> c" if "c \<in> S" "d \<in> S" "c \<noteq> d" for c d
    using tiles_disjoint[OF t that] .
  have oa: "d + h d \<le> a \<or> a + (h a + h b) \<le> d" if "d \<in> S" "d \<noteq> a" "d \<noteq> b" for d
    using o[OF that(1) ab(1) that(2)] o[OF that(1) ab(2) that(3)] ab(3) that(3) by linarith
  have "c + ?h c \<le> d \<or> d + ?h d \<le> c" if "c \<in> S - {b}" "d \<in> S - {b}" "c \<noteq> d" for c d
    using that oa[of c] oa[of d] o[of c d] by (cases "c = a"; cases "d = a") auto
  moreover have "(\<Union>c \<in> S - {b}. {c..<c + ?h c}) = (\<Union>c \<in> S. {c..<c + h c})"
  proof -
    have j: "{a..<a + ?h a} = {a..<a + h a} \<union> {b..<b + h b}" using ab(3) by (auto simp: ivl_disj_un_two(3))
    have "(\<Union>c \<in> S - {b}. {c..<c + ?h c}) = {a..<a + ?h a} \<union> (\<Union>c \<in> S - {a, b}. {c..<c + h c})"
      using ab by (auto split: if_splits)
    also have "\<dots> = (\<Union>c \<in> S. {c..<c + h c})" unfolding j using ab by auto
    finally show ?thesis .
  qed
  ultimately show ?thesis unfolding tiles_cover[OF t] by (intro tilesI)
qed

lemma tiles_split:
  assumes t: "tiles h S lo hi" and a: "a \<in> S" "0 < k" "k < h a" and n: "a + k \<notin> S"
  shows "tiles (h(a := k, a + k := h a - k)) (insert (a + k) S) lo hi"
proof -
  let ?h = "h(a := k, a + k := h a - k)"
  have S: "?h c = h c" if "c \<in> S" "c \<noteq> a" for c using that n by auto
  have o: "c + h c \<le> a \<or> a + h a \<le> c" if "c \<in> S" "c \<noteq> a" for c by (rule tiles_disjoint[OF t that(1) a(1) that(2)])
  have "c + ?h c \<le> d \<or> d + ?h d \<le> c" if "c \<in> insert (a + k) S" "d \<in> insert (a + k) S" "c \<noteq> d" for c d
  proof -
    have ha: "?h a = k" "?h (a + k) = h a - k" using a by auto
    have x: "c + ?h c \<le> d \<or> d + ?h d \<le> c" if "c \<in> S" "c \<noteq> a" "d \<in> {a, a + k}" for c d
      using o[OF that(1,2)] S[OF that(1,2)] ha a that(3) by auto
    have y: "c + ?h c \<le> d \<or> d + ?h d \<le> c" if "c \<in> S" "c \<noteq> a" "d \<in> S" "d \<noteq> a" "c \<noteq> d" for c d
      using tiles_disjoint[OF t that(1,3,5)] S[OF that(1,2)] S[OF that(3,4)] by simp
    have z: "c \<in> {a, a + k} \<or> c \<in> S \<and> c \<noteq> a" "d \<in> {a, a + k} \<or> d \<in> S \<and> d \<noteq> a" using that by auto
    have w: "c + ?h c \<le> d \<or> d + ?h d \<le> c" if "c \<in> {a, a + k}" "d \<in> {a, a + k}" "c \<noteq> d" for c d
      using that ha a(2,3) by auto
    show ?thesis using z that(3) x[of c d] x[of d c] y[of c d] w[of c d] by blast
  qed
  moreover have "(\<Union>c \<in> insert (a + k) S. {c..<c + ?h c}) = (\<Union>c \<in> S. {c..<c + h c})"
  proof -
    have "(\<Union>c \<in> insert (a + k) S. {c..<c + ?h c}) = {a..<a + k} \<union> {a + k..<a + h a} \<union> (\<Union>c \<in> S - {a}. {c..<c + h c})"
      using a n by (auto split: if_splits)
    also have "{a..<a + k} \<union> {a + k..<a + h a} = {a..<a + h a}" using a by (intro ivl_disj_un_two(3)) auto
    also have "{a..<a + h a} \<union> (\<Union>c \<in> S - {a}. {c..<c + h c}) = (\<Union>c \<in> S. {c..<c + h c})" using a by auto
    finally show ?thesis .
  qed
  ultimately show ?thesis unfolding tiles_cover[OF t] by (intro tilesI)
qed

lemma tiles_extend:
  assumes t: "tiles h S lo hi" and "\<forall>a \<in> S. a + h a \<le> hi" "hi \<notin> S" "lo \<le> hi"
  shows "tiles (h(hi := k)) (insert hi S) lo (hi + k)"
proof -
  have "(\<Union>c \<in> insert hi S. {c..<c + (h(hi := k)) c}) = {hi..<hi + k} \<union> (\<Union>c \<in> S. {c..<c + h c})"
  proof -
    have "(\<Union>c \<in> S. {c..<c + (h(hi := k)) c}) = (\<Union>c \<in> S. {c..<c + h c})" using assms(3) by (intro SUP_cong) auto
    thus ?thesis by simp
  qed
  also have "\<dots> = {lo..<hi + k}" unfolding tiles_cover[OF t] using assms(4) by auto
  finally have u: "(\<Union>c \<in> insert hi S. {c..<c + (h(hi := k)) c}) = {lo..<hi + k}" .
  have "c + (h(hi := k)) c \<le> d \<or> d + (h(hi := k)) d \<le> c" if "c \<in> insert hi S" "d \<in> insert hi S" "c \<noteq> d" for c d
    using that tiles_disjoint[OF t, of c d] assms(2,3) by (cases "c = hi"; cases "d = hi") auto
  thus ?thesis using u by (intro tilesI)
qed

subsection \<open>The ring of free blocks\<close>

text \<open>\<open>useg l a xs b\<close>: following the links from \<open>a\<close> passes the blocks \<open>xs\<close> and reaches \<open>b\<close>.\<close>

fun useg :: "(nat \<Rightarrow> nat) \<Rightarrow> nat \<Rightarrow> nat list \<Rightarrow> nat \<Rightarrow> bool" where
  "useg l a [] b \<longleftrightarrow> a = b"
| "useg l a (x # xs) b \<longleftrightarrow> a = x \<and> useg l (l x) xs b"

lemma useg_append [simp]: "useg l a (xs @ ys) b \<longleftrightarrow> (\<exists>c. useg l a xs c \<and> useg l c ys b)"
  by (induction xs arbitrary: a) auto

lemma useg_upd [simp]: "x \<notin> set xs \<Longrightarrow> useg (l(x := y)) a xs b = useg l a xs b"
  by (induction xs arbitrary: a) auto

lemma useg_hd: "useg l a xs b \<Longrightarrow> xs \<noteq> [] \<Longrightarrow> a = hd xs"
  by (cases xs) auto

text \<open>
  The state of the allocator: \<open>fs\<close> are the free blocks from the static header \<open>base\<close> upwards, linked in a ring, no two of
  them adjacent; \<open>al\<close> are the blocks in use.  Together they tile the heap.
\<close>

definition heap_ok :: "nat \<Rightarrow> nat \<Rightarrow> umem \<Rightarrow> nat list \<Rightarrow> nat set \<Rightarrow> bool" where
  "heap_ok base lo s fs al \<longleftrightarrow>
     0 < base \<and> base < lo \<and> lo \<le> ubrk s \<and> 8 * ubrk s \<le> UTOP \<and> hsize s base = 0 \<and>
     fs \<noteq> [] \<and> hd fs = base \<and> useg (hptr s) base fs base \<and> freep s \<in> set fs \<and>
     sorted_wrt (\<lambda>a b. a + hsize s a < b) fs \<and> set fs \<inter> al = {} \<and>
     (\<forall>a \<in> set fs \<union> al. a \<noteq> base \<longrightarrow> 0 < hsize s a) \<and>
     tiles (hsize s) (set fs \<union> al) lo (ubrk s)"

lemma sorted_gap_less: "sorted_wrt (\<lambda>a b. a + h a < b) (fs :: nat list) \<Longrightarrow> sorted_wrt (<) fs"
  by (erule sorted_wrt_mono_rel[rotated]) simp

lemma free_pos_up:
  assumes "useg (hptr s) a (us @ [p]) q" "sorted_wrt (<) (us @ [p])" "\<forall>x \<in> set (us @ [p]). x < bp"
    "q > bp \<or> q \<le> p"
  shows "free_pos s bp a = Some p"
  using assms
proof (induction us arbitrary: a)
  case Nil
  thus ?case by (subst free_pos.simps) auto
next
  case (Cons u us)
  have a: "a = u" and n: "hptr s u = hd (us @ [p])" using Cons.prems(1) useg_hd[of "hptr s" "hptr s u" "us @ [p]"] by auto
  have "hd (us @ [p]) \<in> set (us @ [p])" by (rule hd_in_set) simp
  hence "u < hd (us @ [p])" "hd (us @ [p]) < bp" using Cons.prems(2,3) by auto
  moreover have "free_pos s bp (hptr s u) = Some p" using Cons by auto
  ultimately show ?case unfolding a by (subst free_pos.simps) (simp add: n)
qed

lemma free_pos_down:
  assumes "useg (hptr s) a vs base" "vs \<noteq> []" "sorted_wrt (<) vs" "\<forall>x \<in> set vs. bp < x" "base < bp"
  shows "free_pos s bp a = free_pos s bp base"
  using assms
proof (induction vs arbitrary: a)
  case (Cons v vs)
  have a: "a = v" using Cons.prems by simp
  show ?case
  proof (cases "vs = []")
    case True
    thus ?thesis using Cons.prems unfolding a by (subst free_pos.simps) auto
  next
    case False
    have n: "hptr s v = hd vs" "hd vs \<in> set vs" using Cons.prems(1) False useg_hd[of "hptr s" "hptr s v" vs] by auto
    hence "v < hptr s v" "bp < v" using Cons.prems(3,4) by auto
    moreover have "free_pos s bp (hptr s v) = free_pos s bp base" using Cons False by auto
    ultimately show ?thesis unfolding a by (subst free_pos.simps) simp
  qed
qed simp

text \<open>A block that is not free lies between two neighbours of the ring, and \<open>free\<close> finds the lower one.\<close>

lemma ring_place:
  assumes ok: "heap_ok base lo s fs al" and bp: "bp \<in> al"
  obtains xs p ys where "fs = xs @ p # ys" "\<forall>x \<in> set (xs @ [p]). x < bp \<and> x + hsize s x \<le> bp"
    "\<forall>y \<in> set ys. bp < y \<and> bp + hsize s bp \<le> y" "base < bp" "0 < hsize s bp"
    "free_pos s bp (freep s) = Some p" "base \<notin> set ys"
proof -
  have t: "tiles (hsize s) (set fs \<union> al) lo (ubrk s)" and pos: "\<forall>a \<in> set fs \<union> al. a \<noteq> base \<longrightarrow> 0 < hsize s a"
    and hd: "fs \<noteq> []" "hd fs = base" and dj: "set fs \<inter> al = {}" and sg: "useg (hptr s) base fs base" and fp: "freep s \<in> set fs"
    and lo: "base < lo" and gap: "sorted_wrt (\<lambda>a b. a + hsize s a < b) fs"
    using ok by (simp_all add: heap_ok_def)
  have nb: "bp \<noteq> base" using bp dj hd by (metis disjoint_iff hd_in_set)
  have sz: "0 < hsize s bp" using pos bp nb by auto
  have bb: "base < bp" using tiles_bounds[OF t _ sz] bp lo by auto
  have srt: "sorted_wrt (<) fs" using gap by (rule sorted_gap_less)
  define us ys where "us = takeWhile (\<lambda>x. x < bp) fs" and "ys = dropWhile (\<lambda>x. x < bp) fs"
  have split: "fs = us @ ys" by (simp add: us_def ys_def)
  have us: "\<forall>x \<in> set us. x < bp" by (auto simp: us_def dest: set_takeWhileD)
  have une: "us \<noteq> []" using hd bb by (cases fs) (auto simp: us_def)
  have ys: "\<forall>y \<in> set ys. bp < y"
  proof (cases ys)
    case (Cons y zs)
    have "\<not> y < bp" using Cons hd_dropWhile[of "\<lambda>x. x < bp" fs] by (simp add: ys_def)
    moreover have "y \<noteq> bp" using Cons split dj bp by auto
    moreover have "\<forall>z \<in> set zs. y < z" using srt split Cons by (simp add: sorted_wrt_append)
    ultimately show ?thesis using Cons by fastforce
  qed simp
  obtain xs p where x: "us = xs @ [p]" using une by (metis append_butlast_last_id)
  have fs: "fs = xs @ p # ys" using split x by simp
  have left: "\<forall>x \<in> set (xs @ [p]). x < bp \<and> x + hsize s x \<le> bp"
    using us x split tiles_apart[OF t _ _ _ sz] bp by auto
  have right: "\<forall>y \<in> set ys. bp < y \<and> bp + hsize s bp \<le> y"
    using ys split tiles_apart[OF t] pos bb bp by (metis UnCI Un_iff less_trans less_irrefl set_append)
  have by': "base \<notin> set ys" using ys bb by auto
  obtain q where q: "useg (hptr s) base (xs @ [p]) q" "useg (hptr s) q ys base" using sg fs by auto
  have qb: "q > bp \<or> q \<le> p"
  proof (cases ys)
    case Nil
    hence "q = base" using q(2) by simp
    moreover have "base \<le> p" using srt fs hd Nil by (cases xs) (auto simp: sorted_wrt_append)
    ultimately show ?thesis by simp
  qed (use q(2) ys in auto)
  have up: "free_pos s bp x = Some p" if "x \<in> set (xs @ [p])" for x
  proof -
    from that obtain as bs where ab: "xs @ [p] = as @ x # bs" by (meson split_list)
    obtain cs where cs: "x # bs = cs @ [p]" using ab by (metis append_butlast_last_id last_append last_snoc list.distinct(1))
    have sg': "useg (hptr s) x (cs @ [p]) q" using q(1) unfolding ab by (auto simp: cs[symmetric])
    have "sorted_wrt (<) (as @ x # bs)" using srt fs ab by (metis append.assoc append_Cons append_Nil sorted_wrt_append)
    hence "sorted_wrt (<) (cs @ [p])" unfolding cs[symmetric] by (simp add: sorted_wrt_append)
    moreover have "\<forall>y \<in> set (cs @ [p]). y < bp" using left ab cs by (metis UnCI set_append)
    ultimately show ?thesis using free_pos_up[OF sg' _ _ qb] by blast
  qed
  have "free_pos s bp (freep s) = Some p"
  proof (cases "freep s \<in> set ys")
    case True
    obtain as bs where ab: "ys = as @ freep s # bs" using True by (meson split_list)
    have "useg (hptr s) (freep s) (freep s # bs) base" using q(2) unfolding ab by auto
    moreover have "sorted_wrt (<) (freep s # bs)" using srt unfolding fs ab by (simp add: sorted_wrt_append)
    ultimately have "free_pos s bp (freep s) = free_pos s bp base" using free_pos_down[of s _ "freep s # bs" base bp] ys ab bb by auto
    thus ?thesis using up[of base] hd fs by (cases xs) auto
  next
    case False
    thus ?thesis using fp fs up by auto
  qed
  from that[OF fs left right bb sz this by'] show ?thesis .
qed

lemma sorted_wrt_upd:
  "p \<notin> set xs \<Longrightarrow> sorted_wrt (\<lambda>a b. a + (if a = p then k else h a) < b) xs = sorted_wrt (\<lambda>a b. a + h a < b) (xs :: nat list)"
  by (induction xs) auto

lemma heap_ok_relink:
  assumes ok: "heap_ok base lo s (xs @ p # ys) al"
    and kept: "ubrk s' = ubrk s" "freep s' = p" "\<forall>x \<in> set xs. hptr s' x = hptr s x \<and> hsize s' x = hsize s x"
    and ring: "useg (hptr s') p (p # zs) base"
    and gap: "sorted_wrt (\<lambda>a b. a + hsize s' a < b) (p # zs)" "\<forall>z \<in> set zs. p < z"
    and b0: "hsize s' base = 0"
    and sets: "set (xs @ p # zs) \<inter> al' = {}" "\<forall>a \<in> set (p # zs) \<union> al'. a \<noteq> base \<longrightarrow> 0 < hsize s' a"
    and t: "tiles (hsize s') (set (xs @ p # zs) \<union> al') lo (ubrk s)"
  shows "heap_ok base lo s' (xs @ p # zs) al'"
proof -
  note H = ok[unfolded heap_ok_def]
  have sg: "useg (hptr s) base xs p" using H by auto
  have xs: "useg (hptr s') a xs b = useg (hptr s) a xs b" for a b using kept(3) by (induction xs arbitrary: a) auto
  have "hd (xs @ p # ys) = base" using H by blast
  hence hdx: "hd (xs @ p # zs) = base" by (cases xs) auto
  have "sorted_wrt (\<lambda>a b. a + hsize s a < b) (xs @ p # ys)" using H by blast
  hence g: "sorted_wrt (\<lambda>a b. a + hsize s a < b) xs" "\<forall>x \<in> set xs. x + hsize s x < p" by (auto simp: sorted_wrt_append)
  have g1: "sorted_wrt (\<lambda>a b. a + hsize s' a < b) xs"
    using g(1) kept(3) by (induction xs) auto
  have g2: "sorted_wrt (\<lambda>a b. a + hsize s' a < b) (xs @ p # zs)"
    using g1 g(2) gap kept(3) unfolding sorted_wrt_append by fastforce
  have pos: "\<forall>a \<in> set xs. a \<noteq> base \<longrightarrow> 0 < hsize s' a" using H kept(3) by auto
  have sg': "useg (hptr s') base (xs @ p # zs) base" using ring sg xs by auto
  have pos': "\<forall>a \<in> set (xs @ p # zs) \<union> al'. a \<noteq> base \<longrightarrow> 0 < hsize s' a" using sets(2) pos by auto
  show ?thesis unfolding heap_ok_def
    using H kept(1,2) hdx b0 sg' g2 sets(1) t pos' by (metis Un_iff list.distinct(1) Nil_is_append_conv in_set_conv_decomp)
qed

text \<open>The four ways in which a block joins the ring between \<open>p\<close> and the next free block \<open>q\<close>.\<close>

lemma ufree_ok:
  assumes ok: "heap_ok base lo s fs al" and bp: "bp \<in> al"
  shows "\<exists>s' fs'. ufree s (bp + 1) = Some s' \<and> heap_ok base lo s' fs' (al - {bp}) \<and>
    (\<forall>a \<in> al - {bp}. hsize s' a = hsize s a) \<and> ubrk s' = ubrk s \<and> (\<exists>f \<in> set fs'. hsize s bp \<le> hsize s' f)"
proof -
  obtain xs p ys where fs: "fs = xs @ p # ys"
    and left: "\<forall>x \<in> set (xs @ [p]). x < bp \<and> x + hsize s x \<le> bp"
    and right: "\<forall>y \<in> set ys. bp < y \<and> bp + hsize s bp \<le> y"
    and bb: "base < bp" and sz: "0 < hsize s bp" and fp: "free_pos s bp (freep s) = Some p" and by': "base \<notin> set ys"
    using ring_place[OF assms] .
  note H = ok[unfolded heap_ok_def]
  have t: "tiles (hsize s) (set fs \<union> al) lo (ubrk s)" and sg: "useg (hptr s) base fs base"
    and gap: "sorted_wrt (\<lambda>a b. a + hsize s a < b) fs" and dj: "set fs \<inter> al = {}" and b0: "hsize s base = 0"
    and pos: "\<forall>a \<in> set fs \<union> al. a \<noteq> base \<longrightarrow> 0 < hsize s a" using H by auto
  have srt: "sorted_wrt (<) fs" using gap by (rule sorted_gap_less)
  have dis: "p \<notin> set xs" "p \<notin> set ys" "set xs \<inter> set ys = {}" "bp \<notin> set xs" "bp \<notin> set ys" "p \<noteq> bp" "p \<notin> al"
      "\<forall>z \<in> set ys. p < z" "set xs \<inter> al = {}" "set ys \<inter> al = {}"
    using srt dj bp unfolding fs by (auto simp: sorted_wrt_append)
  define q where "q = hptr s p"
  have q: "useg (hptr s) q ys base" using sg unfolding fs q_def by auto
  have pgap: "p \<noteq> base" if "p + hsize s p = bp" using that b0 bb by auto
  have gp: "sorted_wrt (\<lambda>a b. a + hsize s a < b) ys" "\<forall>y \<in> set ys. p + hsize s p < y" using gap unfolding fs by (auto simp: sorted_wrt_append)
  note ok' = ok[unfolded fs] and U = ufree_def Let_def q_def[symmetric]
  have S: "set fs \<union> al = set (xs @ p # bp # ys) \<union> (al - {bp})" using bp fs by auto
  show ?thesis
  proof (cases "bp + hsize s bp = q")
    case nq: False
    have ygap: "\<forall>y \<in> set ys. bp + hsize s bp < y"
    proof
      fix y assume y: "y \<in> set ys"
      then obtain z zs where ys: "ys = z # zs" by (cases ys) auto
      have "z = q" using q ys by simp
      hence "bp + hsize s bp < z" using right nq ys by fastforce
      moreover have "z \<le> y" using gp(1) y ys by fastforce
      ultimately show "bp + hsize s bp < y" by simp
    qed
    show ?thesis
    proof (cases "p + hsize s p = bp")
      case np: False
      let ?s = "s\<lparr>hptr := (hptr s)(bp := q, p := bp), freep := p\<rparr>"
      have u: "ufree s (bp + 1) = Some ?s" using fp nq np by (simp add: U)
      have g: "p + hsize s p < bp" using left np by fastforce
      have "heap_ok base lo ?s (xs @ p # bp # ys) (al - {bp})"
        by (rule heap_ok_relink[OF ok']; (insert t S)?) (use q dis gp ygap g b0 pos fs bp left right bb in \<open>auto simp: \<close>)
      thus ?thesis using u by (intro exI[of _ ?s] exI[of _ "xs @ p # bp # ys"]) auto
    next
      case np: True
      let ?s = "s\<lparr>hsize := (hsize s)(p := hsize s p + hsize s bp), hptr := (hptr s)(bp := q, p := q), freep := p\<rparr>"
      have u: "ufree s (bp + 1) = Some ?s" using fp nq np by (simp add: U)
      have T: "tiles ((hsize s)(p := hsize s p + hsize s bp)) (set (xs @ p # ys) \<union> (al - {bp})) lo (ubrk s)"
        using tiles_join[OF t _ _ np dis(6)] bp fs dis by (simp add: Un_Diff insert_Diff_if)
      have g: "\<forall>y \<in> set ys. p + (hsize s p + hsize s bp) < y" using ygap np by fastforce
      have "heap_ok base lo ?s (xs @ p # ys) (al - {bp})"
        by (rule heap_ok_relink[OF ok']; (insert T)?)
          (use q dis gp(1) g b0 pos fs pgap[OF np] bp in \<open>auto simp: sorted_wrt_upd\<close>)
      thus ?thesis using u dis by (intro exI[of _ ?s] exI[of _ "xs @ p # ys"]) auto
    qed
  next
    case nq: True
    have "ys \<noteq> []" using nq q bb by auto
    then obtain zs where ys: "ys = q # zs" using q by (cases ys) auto
    have qz: "q \<noteq> bp" "q \<noteq> p" "q \<noteq> base" "q \<notin> set zs" "q \<notin> set xs" "q \<notin> al"
      using ys dis by' srt by (auto simp: fs sorted_wrt_append)
    let ?l = "(hptr s)(bp := hptr s q)"
    have T1: "tiles ((hsize s)(bp := hsize s bp + hsize s q)) (set (xs @ p # zs) \<union> al) lo (ubrk s)"
      using tiles_join[OF t _ _ nq] bp fs ys dis qz by (simp add: Un_Diff insert_Diff_if insert_commute)
    have gz: "\<forall>z \<in> set zs. q + hsize s q < z" "sorted_wrt (\<lambda>a b. a + hsize s a < b) zs" using gp(1) ys by auto
    have qs: "useg (hptr s) (hptr s q) zs base" using q ys by simp
    have zb: "bp \<notin> set zs" "\<forall>z \<in> set zs. p < z" "\<forall>z \<in> set zs. bp < z" "p \<notin> set zs" "set zs \<inter> al = {}" "base \<notin> set zs"
      using dis ys right by' by auto
    have ps: "\<forall>a \<in> set zs \<union> al. a \<noteq> base \<longrightarrow> 0 < hsize s a" "p \<noteq> base \<longrightarrow> 0 < hsize s p" using pos fs ys by auto
    show ?thesis
    proof (cases "p + hsize s p = bp")
      case np: False
      let ?s = "s\<lparr>hsize := (hsize s)(bp := hsize s bp + hsize s q), hptr := (hptr s)(bp := hptr s q, p := bp), freep := p\<rparr>"
      have u: "ufree s (bp + 1) = Some ?s" using fp nq np dis(6) by (simp add: U)
      have g: "p + hsize s p < bp" using left np by fastforce
      have g2: "\<forall>z \<in> set zs. bp + (hsize s bp + hsize s q) < z" "\<forall>z \<in> set zs. p + hsize s p < z"
        using gz(1) nq gp(2) ys by fastforce+
      have "set (xs @ p # bp # zs) \<union> (al - {bp}) = set (xs @ p # zs) \<union> al" using bp by auto
      hence T: "tiles ((hsize s)(bp := hsize s bp + hsize s q)) (set (xs @ p # bp # zs) \<union> (al - {bp})) lo (ubrk s)" using T1 by simp
      have "heap_ok base lo ?s (xs @ p # bp # zs) (al - {bp})"

        apply (rule heap_ok_relink[OF ok'])
        subgoal by simp
        subgoal by simp
        subgoal using dis(1,4) by auto
        subgoal using qs dis(6) zb(1,4) by simp
        subgoal using g g2 gz(2) zb(1,3) dis(6) by (simp add: sorted_wrt_upd)
        subgoal using left zb(2) by auto
        subgoal using b0 bb by simp
        subgoal using dis(4,7,9) zb(5) by auto
        subgoal using ps bp bb sz by auto
        subgoal using T by simp
        done
      thus ?thesis using u dis by (intro exI[of _ ?s] exI[of _ "xs @ p # bp # zs"]) auto
    next
      case np: True
      let ?h = "(hsize s)(bp := hsize s bp + hsize s q, p := hsize s p + (hsize s bp + hsize s q))"
      let ?s = "s\<lparr>hsize := ?h, hptr := (hptr s)(bp := hptr s q, p := hptr s q), freep := p\<rparr>"
      have u: "ufree s (bp + 1) = Some ?s" using fp nq np dis(6) by (simp add: U)
      have T: "tiles ?h (set (xs @ p # zs) \<union> (al - {bp})) lo (ubrk s)"
        using tiles_join[OF T1, of p bp] bp fs ys np dis zb by (simp add: Un_Diff insert_Diff_if)
      have g: "\<forall>z \<in> set zs. p + (hsize s p + (hsize s bp + hsize s q)) < z" using gz(1) nq np by fastforce
      have "heap_ok base lo ?s (xs @ p # zs) (al - {bp})"
        apply (rule heap_ok_relink[OF ok'])
        subgoal by simp
        subgoal by simp
        subgoal using dis(1,4) by auto
        subgoal using qs dis(6) zb(1,4) by simp
        subgoal using g gz(2) zb(1,3,4) dis(6) by (simp add: sorted_wrt_upd)
        subgoal using zb(2) by auto
        subgoal using b0 bb pgap[OF np] by auto
        subgoal using dis(7,9) zb(5) by auto
        subgoal using ps bp bb sz by auto
        subgoal using T by simp
        done
      thus ?thesis using u dis by (intro exI[of _ ?s] exI[of _ "xs @ p # zs"]) auto
    qed
  qed
qed

subsection \<open>Growing the heap\<close>

lemma sbrk_grow:
  assumes n: "4096 \<le> unat nu" "unat nu < 2 ^ 28" and b: "8 * ubrk s \<le> UTOP"
  shows "sbrk avail s (nu * 8) =
    (if 8 * (ubrk s + unat nu) \<le> UTOP \<and> avail (ubrk s) (8 * unat nu)
     then Some (ubrk s, s\<lparr>ubrk := ubrk s + unat nu\<rparr>) else None)"
proof -
  have u: "unat (nu * 8) = 8 * unat nu" using n unat_mult32[of nu 8] by simp
  have "sint (nu * 8) = int (8 * unat nu)" using n(2) u sint_unat32[of "nu * 8"] by (simp only: u) simp
  moreover have "0 < 8 * unat nu" using n(1) by linarith
  ultimately have p: "0 <s nu * 8" unfolding word_sless_alt by (simp only: sint_0 of_nat_0_less_iff)
  have b': "unat (of_nat (8 * ubrk s) :: u32) = 8 * ubrk s" using b by (intro unat_of_nat32) simp
  have z: "unat ((of_nat (8 * ubrk s) :: u32) + nu * 8) = 8 * (ubrk s + unat nu)" if "8 * (ubrk s + unat nu) \<le> UTOP"
    using that b' u unat_plus32[of "of_nat (8 * ubrk s)" "nu * 8"] by simp
  show ?thesis
  proof (cases "8 * (ubrk s + unat nu) \<le> UTOP")
    case True
    thus ?thesis using p u unfolding sbrk_def Let_def z[OF True] by (simp add: algebra_simps)
  next
    case False
    thus ?thesis using p u unfolding sbrk_def Let_def by (simp add: algebra_simps)
  qed
qed

lemma heap_ok_extend:
  assumes ok: "heap_ok base lo s fs al" and k: "0 < k" "8 * (ubrk s + k) \<le> UTOP"
  shows "heap_ok base lo (s\<lparr>ubrk := ubrk s + k, hsize := (hsize s)(ubrk s := k)\<rparr>) fs (insert (ubrk s) al)"
    "ubrk s \<notin> set fs \<union> al"
proof -
  note H = ok[unfolded heap_ok_def]
  have t: "tiles (hsize s) (set fs \<union> al) lo (ubrk s)" and pos: "\<forall>a \<in> set fs \<union> al. a \<noteq> base \<longrightarrow> 0 < hsize s a"
    and b0: "hsize s base = 0" and lo: "base < lo" "lo \<le> ubrk s" using H by blast+
  have in': "\<forall>a \<in> set fs \<union> al. a + hsize s a \<le> ubrk s"
    using tiles_bounds[OF t] pos b0 lo by (metis add.right_neutral le_trans less_imp_le)
  show n: "ubrk s \<notin> set fs \<union> al"
  proof
    assume u: "ubrk s \<in> set fs \<union> al"
    hence z: "hsize s (ubrk s) = 0" using in' by force
    have "ubrk s \<noteq> base" using lo by simp
    hence "0 < hsize s (ubrk s)" using pos u by blast
    thus False using z by simp
  qed
  have g: "sorted_wrt (\<lambda>a b. a + ((hsize s)(ubrk s := k)) a < b) fs" using H n by (simp add: sorted_wrt_upd)
  have t': "tiles ((hsize s)(ubrk s := k)) (set fs \<union> insert (ubrk s) al) lo (ubrk s + k)"
    using tiles_extend[OF t in' n lo(2)] by simp
  show "heap_ok base lo (s\<lparr>ubrk := ubrk s + k, hsize := (hsize s)(ubrk s := k)\<rparr>) fs (insert (ubrk s) al)"
    unfolding heap_ok_def using H n g t' k lo pos by auto
qed

lemma morecore_ok:
  assumes ok: "heap_ok base lo s fs al" and n: "1 \<le> unat n" "unat n < 2 ^ 28"
  shows "morecore avail s n = Some (0, s) \<or>
    (\<exists>s1 fs1. morecore avail s n = Some (freep s1, s1) \<and> heap_ok base lo s1 fs1 al \<and>
       (\<forall>a \<in> al. hsize s1 a = hsize s a) \<and> (\<exists>f \<in> set fs1. unat n \<le> hsize s1 f))"
proof -
  define nu where "nu = (if n < 4096 then 4096 else n)"
  have nu: "4096 \<le> unat nu" "unat nu < 2 ^ 28" "unat n \<le> unat nu"
    using n by (auto simp: nu_def word_less_nat_alt)
  have b: "8 * ubrk s \<le> UTOP" using ok by (simp add: heap_ok_def)
  let ?s = "s\<lparr>ubrk := ubrk s + unat nu, hsize := (hsize s)(ubrk s := unat nu)\<rparr>"
  show ?thesis
  proof (cases "8 * (ubrk s + unat nu) \<le> UTOP \<and> avail (ubrk s) (8 * unat nu)")
    case True
    have m: "morecore avail s n = (case ufree ?s (ubrk s + 1) of None \<Rightarrow> None | Some s2 \<Rightarrow> Some (freep s2, s2))"
      unfolding morecore_def nu_def[symmetric] Let_def sbrk_grow[OF nu(1,2) b] using True by simp
    have x: "heap_ok base lo ?s fs (insert (ubrk s) al)" "ubrk s \<notin> set fs \<union> al"
      using heap_ok_extend[OF ok, of "unat nu"] nu(1) True by simp_all
    obtain s1 fs1 where f: "ufree ?s (ubrk s + 1) = Some s1" "heap_ok base lo s1 fs1 (insert (ubrk s) al - {ubrk s})"
      "\<forall>a \<in> insert (ubrk s) al - {ubrk s}. hsize s1 a = hsize ?s a" "\<exists>f \<in> set fs1. hsize ?s (ubrk s) \<le> hsize s1 f"
      using ufree_ok[OF x(1), of "ubrk s"] by blast
    have e: "insert (ubrk s) al - {ubrk s} = al" using x(2) by simp
    have h: "\<forall>a \<in> al. hsize s1 a = hsize s a" using f(3) x(2) unfolding e by auto
    have "\<exists>f \<in> set fs1. unat n \<le> hsize s1 f" using f(4) nu(3) by (fastforce intro: le_trans)
    thus ?thesis using f(1,2) h unfolding m e by (intro disjI2 exI[of _ s1] exI[of _ fs1]) simp
  next
    case False
    have "sbrk avail s (nu * 8) = None" by (subst sbrk_grow[OF nu(1,2) b]) (rule if_not_P[OF False])
    thus ?thesis unfolding morecore_def nu_def[symmetric] Let_def by simp
  qed
qed

subsection \<open>Taking a block\<close>

lemma ring_map: "useg l a fs b \<Longrightarrow> fs \<noteq> [] \<Longrightarrow> map l fs = tl fs @ [b]"
proof (induction fs arbitrary: a)
  case (Cons x xs)
  thus ?case by (cases xs) auto
qed simp

lemma ring_inj:
  assumes "useg l base fs base" "fs \<noteq> []" "hd fs = base" "distinct fs"
  shows "inj_on l (set fs)" "l ` set fs = set fs"
proof -
  have m: "map l fs = rotate1 fs" using ring_map[OF assms(1,2)] assms(2,3) by (cases fs) auto
  have "distinct (map l fs)" unfolding m using assms(4) by simp
  thus "inj_on l (set fs)" by (simp add: distinct_map)
  show "l ` set fs = set fs" using m by (metis set_map set_rotate1)
qed

lemma heap_ok_distinct: "heap_ok base lo s fs al \<Longrightarrow> distinct fs"
  by (auto simp: heap_ok_def strict_sorted_iff dest: sorted_gap_less)

lemma take_block_ok:
  assumes ok: "heap_ok base lo s fs al" and p: "prevp \<in> set fs" "p \<in> set fs" "hptr s prevp = p"
    and n: "1 \<le> n" "n \<le> hsize s p"
  shows "\<exists>a s' fs'. take_block s prevp p n = (a + 1, s') \<and> a \<notin> al \<and> heap_ok base lo s' fs' (insert a al) \<and> hsize s' a = n \<and>
    (\<forall>b \<in> al. hsize s' b = hsize s b)"
proof -
  note H = ok[unfolded heap_ok_def]
  have t: "tiles (hsize s) (set fs \<union> al) lo (ubrk s)" and sg: "useg (hptr s) base fs base" and fs0: "fs \<noteq> []" "hd fs = base"
    and gap: "sorted_wrt (\<lambda>a b. a + hsize s a < b) fs" and dj: "set fs \<inter> al = {}" and b0: "hsize s base = 0" and lo: "base < lo"
    and pos: "\<forall>a \<in> set fs \<union> al. a \<noteq> base \<longrightarrow> 0 < hsize s a" using H by blast+
  have dis: "distinct fs" by (rule heap_ok_distinct[OF ok])
  have pb: "p \<noteq> base" using n b0 by auto
  then obtain xs ys where sp: "tl fs = xs @ p # ys" using p(2) fs0 by (cases fs) (auto dest!: split_list)
  obtain us r where ur: "base # xs = us @ [r]" by (metis append_butlast_last_id list.distinct(1))
  have fs: "fs = us @ r # p # ys" using sp ur fs0 by (cases fs) auto
  have rp: "hptr s r = p" and sr: "useg (hptr s) base us r" "useg (hptr s) (hptr s p) ys base" using sg unfolding fs by auto
  have pr: "prevp = r" using ring_inj(1)[OF sg fs0 dis] p rp fs by (auto dest: inj_onD)
  show ?thesis
  proof (cases "hsize s p = n")
    case True
    let ?s = "s\<lparr>hptr := (hptr s)(prevp := hptr s p), freep := prevp\<rparr>"
    have "heap_ok base lo ?s (us @ r # ys) (insert p al)"
      apply (rule heap_ok_relink[OF ok[unfolded fs]])
      subgoal by simp
      subgoal by (simp add: pr)
      subgoal using dis unfolding fs pr by auto
      subgoal using sr dis unfolding fs pr by simp
      subgoal using gap unfolding fs by (auto simp: sorted_wrt_append)
      subgoal using sorted_gap_less[OF gap] unfolding fs by (auto simp: sorted_wrt_append)
      subgoal using b0 by simp
      subgoal using dis dj unfolding fs by auto
      subgoal using pos unfolding fs by auto
      subgoal using t unfolding fs by (simp add: insert_commute Un_commute)
      done
    moreover have "p \<notin> al" using p(2) dj by blast
    ultimately show ?thesis using True by (intro exI[of _ p] exI[of _ ?s] exI[of _ "us @ r # ys"]) (simp add: take_block_def)
  next
    case False
    define k where "k = hsize s p - n"
    have k: "0 < k" "k < hsize s p" "hsize s p - k = n" using False n by (auto simp: k_def)
    have np: "p + k \<notin> set fs \<union> al"
    proof
      assume m: "p + k \<in> set fs \<union> al"
      have "lo \<le> p" using tiles_bounds[OF t, of p] p(2) pos pb by auto
      hence "p + k \<noteq> base" using lo by simp
      hence "0 < hsize s (p + k)" using pos m by blast
      thus False using tiles_apart[OF t _ m, of p] p(2) k by auto
    qed
    let ?h = "(hsize s)(p := k, p + k := n)"
    let ?s = "s\<lparr>hsize := ?h, freep := prevp\<rparr>"
    have T: "tiles ?h (insert (p + k) (set fs \<union> al)) lo (ubrk s)"
      using tiles_split[OF t _ k(1,2) np] p(2) k(3) by simp
    have g: "sorted_wrt (\<lambda>a b. a + ?h a < b) fs"
    proof -
      have "sorted_wrt (\<lambda>a b. a + ((hsize s)(p := k)) a < b) fs"
        by (rule sorted_wrt_mono_rel[OF _ gap]) (use k(2) in \<open>auto split: if_splits\<close>)
      thus ?thesis using np by (simp add: sorted_wrt_upd)
    qed
    have m: "p + k \<noteq> base" using np fs0 by (metis UnI1 hd_in_set)
    have "heap_ok base lo ?s fs (insert (p + k) al)"
      unfolding heap_ok_def using H g T np k(1) n(1) b0 pb m p(1) pos by auto
    moreover have "p \<notin> al" using p(2) dj by blast
    ultimately show ?thesis using False np k
      by (intro exI[of _ "p + k"] exI[of _ ?s] exI[of _ fs]) (auto simp: take_block_def k_def[symmetric] Let_def)
  qed
qed

text \<open>One round of the loop of \<open>malloc\<close> from \<open>p\<close> up to \<open>freep\<close>.\<close>

lemma malloc_round:
  assumes "useg (hptr s) p (us @ [freep s]) z" "freep s \<notin> set us" "hptr s prevp = p"
  shows "(\<exists>q q'. malloc_loop avail n s prevp p = Some (take_block s q' q (unat n)) \<and> q \<in> set (us @ [freep s]) \<and>
      unat n \<le> hsize s q \<and> hptr s q' = q \<and> q' \<in> insert prevp (set us)) \<or>
    (\<forall>q \<in> set (us @ [freep s]). hsize s q < unat n) \<and>
      malloc_loop avail n s prevp p = (case morecore avail s n of None \<Rightarrow> None
        | Some (p1, s1) \<Rightarrow> if p1 = 0 then Some (0, s1) else malloc_loop avail n s1 p1 (hptr s1 p1))"
  using assms
proof (induction us arbitrary: p prevp)
  case Nil
  thus ?case by (subst (1 2) malloc_loop.simps) auto
next
  case (Cons u us)
  have p: "p = u" "u \<noteq> freep s" using Cons.prems by auto
  show ?case
  proof (cases "unat n \<le> hsize s u")
    case True
    hence "malloc_loop avail n s prevp p = Some (take_block s prevp u (unat n))" unfolding p by (subst malloc_loop.simps) simp
    thus ?thesis using True Cons.prems(3) p by auto
  next
    case False
    hence e: "malloc_loop avail n s prevp p = malloc_loop avail n s u (hptr s u)"
      unfolding p(1) using p(2) by (subst malloc_loop.simps) simp
    have "useg (hptr s) (hptr s u) (us @ [freep s]) z" using Cons.prems(1) by simp
    from Cons.IH[OF this _ refl] Cons.prems(2) show ?thesis unfolding e using False by auto
  qed
qed

lemma heap_ok_freep: "heap_ok base lo s fs al \<Longrightarrow> freep s \<noteq> 0"
proof -
  assume "heap_ok base lo s fs al"
  hence "freep s \<in> set fs" "hd fs = base" "0 < base" "fs \<noteq> []" "sorted_wrt (<) fs"
    unfolding heap_ok_def by (blast intro: sorted_gap_less)+
  thus ?thesis by (cases fs) auto
qed

lemma malloc_loop_ok:
  assumes ok: "heap_ok base lo s fs al" and n: "1 \<le> unat n" "unat n < 2 ^ 28"
  shows "malloc_loop avail n s (freep s) (hptr s (freep s)) = Some (0, s) \<or>
    (\<exists>a s' fs'. malloc_loop avail n s (freep s) (hptr s (freep s)) = Some (a + 1, s') \<and> a \<notin> al \<and>
       heap_ok base lo s' fs' (insert a al) \<and> hsize s' a = unat n \<and> (\<forall>b \<in> al. hsize s' b = hsize s b))"
proof -
  have ring: "\<exists>us. useg (hptr t) (hptr t (freep t)) (us @ [freep t]) (hptr t (freep t)) \<and> freep t \<notin> set us \<and>
      set gs = insert (freep t) (set us)" if g: "heap_ok base lo t gs al" for t gs
  proof -
    have m: "freep t \<in> set gs" and sg: "useg (hptr t) base gs base" and d: "distinct gs"
      using g heap_ok_distinct[OF g] unfolding heap_ok_def by blast+
    obtain xs ys where gs: "gs = xs @ freep t # ys" using m by (meson split_list)
    show ?thesis using sg d unfolding gs by (intro exI[of _ "ys @ xs"]) auto
  qed
  have found: "\<exists>a s' fs'. Some (take_block t q' q (unat n)) = Some (a + 1, s') \<and> a \<notin> al \<and>
       heap_ok base lo s' fs' (insert a al) \<and> hsize s' a = unat n \<and> (\<forall>b \<in> al. hsize s' b = hsize t b)"
    if g: "heap_ok base lo t gs al" "q \<in> set gs" "q' \<in> set gs" "hptr t q' = q" "unat n \<le> hsize t q" for t gs q q'
    using take_block_ok[OF g(1,3,2,4) n(1) g(5)] by auto
  obtain us where us: "useg (hptr s) (hptr s (freep s)) (us @ [freep s]) (hptr s (freep s))" "freep s \<notin> set us"
    "set fs = insert (freep s) (set us)" using ring[OF ok] by blast
  show ?thesis
  proof (cases "\<exists>q \<in> set fs. unat n \<le> hsize s q")
    case True
    hence "\<not> (\<forall>q \<in> set (us @ [freep s]). hsize s q < unat n)" using us(3) by (auto simp: not_less)
    then obtain q q' where q: "malloc_loop avail n s (freep s) (hptr s (freep s)) = Some (take_block s q' q (unat n))"
      "q \<in> set fs" "unat n \<le> hsize s q" "hptr s q' = q" "q' \<in> set fs"
      using malloc_round[OF us(1,2) refl, of avail n] us(3) by auto
    from found[OF ok q(2,5,4,3)] show ?thesis unfolding q(1) by blast
  next
    case False
    hence no: "\<not> unat n \<le> hsize s q" if "q \<in> set (us @ [freep s])" for q using that us(3) by auto
    have l: "malloc_loop avail n s (freep s) (hptr s (freep s)) = (case morecore avail s n of None \<Rightarrow> None
        | Some (p1, s1) \<Rightarrow> if p1 = 0 then Some (0, s1) else malloc_loop avail n s1 p1 (hptr s1 p1))"
      using malloc_round[OF us(1,2) refl, of avail n] no by blast
    from morecore_ok[OF ok n, of avail] show ?thesis
    proof
      assume "morecore avail s n = Some (0, s)"
      thus ?thesis using l by simp
    next
      assume "\<exists>s1 fs1. morecore avail s n = Some (freep s1, s1) \<and> heap_ok base lo s1 fs1 al \<and>
        (\<forall>a \<in> al. hsize s1 a = hsize s a) \<and> (\<exists>f \<in> set fs1. unat n \<le> hsize s1 f)"
      then obtain s1 fs1 where m: "morecore avail s n = Some (freep s1, s1)" "heap_ok base lo s1 fs1 al"
        "\<forall>a \<in> al. hsize s1 a = hsize s a" "\<exists>f \<in> set fs1. unat n \<le> hsize s1 f" by blast
      have nz: "freep s1 \<noteq> 0" by (rule heap_ok_freep[OF m(2)])
      obtain vs where vs: "useg (hptr s1) (hptr s1 (freep s1)) (vs @ [freep s1]) (hptr s1 (freep s1))" "freep s1 \<notin> set vs"
        "set fs1 = insert (freep s1) (set vs)" using ring[OF m(2)] by blast
      have "\<not> (\<forall>q \<in> set (vs @ [freep s1]). hsize s1 q < unat n)" using m(4) vs(3) by (auto simp: not_less)
      then obtain q q' where q: "malloc_loop avail n s1 (freep s1) (hptr s1 (freep s1)) = Some (take_block s1 q' q (unat n))"
        "q \<in> set fs1" "unat n \<le> hsize s1 q" "hptr s1 q' = q" "q' \<in> set fs1"
        using malloc_round[OF vs(1,2) refl, of avail n] vs(3) by auto
      have "malloc_loop avail n s (freep s) (hptr s (freep s)) = Some (take_block s1 q' q (unat n))"
        using l m(1) nz q(1) by simp
      thus ?thesis using found[OF m(2) q(2,5,4,3)] m(3) by force
    qed
  qed
qed

subsection \<open>Programs that allocate\<close>

text \<open>The allocator with the blocks in use, before the first call and later.\<close>

definition alloc_ok :: "nat \<Rightarrow> nat \<Rightarrow> umem \<Rightarrow> nat set \<Rightarrow> bool" where
  "alloc_ok base lo s al \<longleftrightarrow>
     (if freep s = 0 then al = {} \<and> 0 < base \<and> base < lo \<and> lo = ubrk s \<and> 8 * ubrk s \<le> UTOP
      else \<exists>fs. heap_ok base lo s fs al)"

text \<open>Requests whose number of bytes, with the header, is not negative as an \<open>int\<close>.\<close>

abbreviation sane :: "u32 \<Rightarrow> bool" where
  "sane nbytes \<equiv> unat nbytes < 2 ^ 31 - 16"

lemma nunits_sane:
  assumes "sane nbytes"
  shows "1 \<le> unat (nunits nbytes)" "unat (nunits nbytes) < 2 ^ 28" "unat nbytes + 8 \<le> 8 * unat (nunits nbytes)"
proof -
  have a: "unat (nbytes + 8 - 1) = unat nbytes + 7" using assms unat_plus32[of nbytes 7] by (simp add: add_diff_eq[symmetric])
  have "unat ((nbytes + 8 - 1) div 8) = (unat nbytes + 7) div 8" unfolding unat_div a by simp
  hence "unat (nunits nbytes) = (unat nbytes + 7) div 8 + 1"
    unfolding nunits_def using assms unat_plus32[of "(nbytes + 8 - 1) div 8" 1] by simp
  thus "1 \<le> unat (nunits nbytes)" "unat (nunits nbytes) < 2 ^ 28" "unat nbytes + 8 \<le> 8 * unat (nunits nbytes)"
    using assms by simp_all
qed

lemma umalloc_ok:
  assumes ok: "alloc_ok base lo s al" and n: "sane nbytes"
  shows "\<exists>r s'. umalloc avail base s nbytes = Some (r, s') \<and>
    (if r = 0 then alloc_ok base lo s' al \<and> (\<forall>b \<in> al. hsize s' b = hsize s b)
     else r - 1 \<notin> al \<and> alloc_ok base lo s' (insert (r - 1) al) \<and> unat nbytes + 8 \<le> 8 * hsize s' (r - 1) \<and>
       (\<forall>b \<in> al. hsize s' b = hsize s b))"
proof -
  define s0 where "s0 = (if freep s = 0
    then s\<lparr>hptr := (hptr s)(base := base), freep := base, hsize := (hsize s)(base := 0)\<rparr> else s)"
  have "\<exists>fs. heap_ok base lo s0 fs al \<and> (\<forall>b \<in> al. hsize s0 b = hsize s b)"
  proof (cases "freep s = 0")
    case True
    hence "heap_ok base lo s0 [base] al" using ok by (auto simp: alloc_ok_def heap_ok_def s0_def tiles_def)
    thus ?thesis using True ok by (auto simp: alloc_ok_def)
  qed (use ok in \<open>auto simp: alloc_ok_def s0_def\<close>)
  then obtain fs where h: "heap_ok base lo s0 fs al" and k: "\<forall>b \<in> al. hsize s0 b = hsize s b" by blast
  have u: "umalloc avail base s nbytes = malloc_loop avail (nunits nbytes) s0 (freep s0) (hptr s0 (freep s0))"
    by (simp add: umalloc_def s0_def Let_def)
  have ao: "alloc_ok base lo t bl" if "heap_ok base lo t gs bl" for t gs bl using heap_ok_freep[OF that] that by (auto simp: alloc_ok_def)
  from malloc_loop_ok[OF h nunits_sane(1,2)[OF n], of avail] show ?thesis
  proof
    assume "malloc_loop avail (nunits nbytes) s0 (freep s0) (hptr s0 (freep s0)) = Some (0, s0)"
    thus ?thesis unfolding u using ao[OF h] k by (intro exI[of _ 0] exI[of _ s0]) simp
  next
    assume "\<exists>a s' fs'. malloc_loop avail (nunits nbytes) s0 (freep s0) (hptr s0 (freep s0)) = Some (a + 1, s') \<and> a \<notin> al \<and>
      heap_ok base lo s' fs' (insert a al) \<and> hsize s' a = unat (nunits nbytes) \<and> (\<forall>b \<in> al. hsize s' b = hsize s0 b)"
    then obtain a s' fs' where a: "malloc_loop avail (nunits nbytes) s0 (freep s0) (hptr s0 (freep s0)) = Some (a + 1, s')"
      "a \<notin> al" "heap_ok base lo s' fs' (insert a al)" "hsize s' a = unat (nunits nbytes)" "\<forall>b \<in> al. hsize s' b = hsize s0 b" by blast
    thus ?thesis unfolding u using ao[OF a(3)] k nunits_sane(3)[OF n] by (intro exI[of _ "a + 1"] exI[of _ s']) simp
  qed
qed

lemma umalloc_free_ok:
  assumes ok: "alloc_ok base lo s al" and a: "a \<in> al"
  shows "\<exists>s'. ufree s (a + 1) = Some s' \<and> alloc_ok base lo s' (al - {a}) \<and> (\<forall>b \<in> al - {a}. hsize s' b = hsize s b)"
proof -
  have "freep s \<noteq> 0" using ok a by (auto simp: alloc_ok_def split: if_splits)
  then obtain fs where h: "heap_ok base lo s fs al" using ok by (auto simp: alloc_ok_def)
  then obtain s' fs' where f: "ufree s (a + 1) = Some s'" "heap_ok base lo s' fs' (al - {a})"
    "\<forall>b \<in> al - {a}. hsize s' b = hsize s b" using ufree_ok[OF h a] by blast
  thus ?thesis using heap_ok_freep[OF f(2)] by (auto simp: alloc_ok_def)
qed

text \<open>
  The states a program can reach with its blocks in use, by requests of a sane size and by releases of blocks it holds.
  It leaves the headers alone and moves the break only through the allocator.
\<close>

inductive uheap :: "(nat \<Rightarrow> nat \<Rightarrow> bool) \<Rightarrow> nat \<Rightarrow> umem \<Rightarrow> umem \<Rightarrow> nat set \<Rightarrow> bool" for avail base s0 where
  uheap_start: "uheap avail base s0 s0 {}"
| uheap_malloc: "uheap avail base s0 s al \<Longrightarrow> sane nbytes \<Longrightarrow> umalloc avail base s nbytes = Some (r, s') \<Longrightarrow>
     uheap avail base s0 s' (if r = 0 then al else insert (r - 1) al)"
| uheap_free: "uheap avail base s0 s al \<Longrightarrow> a \<in> al \<Longrightarrow> ufree s (a + 1) = Some s' \<Longrightarrow> uheap avail base s0 s' (al - {a})"

lemma uheap_ok:
  assumes "uheap avail base s0 s al" "freep s0 = 0" "0 < base" "base < ubrk s0" "8 * ubrk s0 \<le> UTOP"
  shows "alloc_ok base (ubrk s0) s al"
  using assms
proof (induction rule: uheap.induct)
  case uheap_start
  thus ?case by (simp add: alloc_ok_def)
next
  case (uheap_malloc s al nbytes r s')
  thus ?case using umalloc_ok[of base "ubrk s0" s al nbytes avail] by (auto split: if_splits)
next
  case (uheap_free s al a s')
  thus ?case using umalloc_free_ok[of base "ubrk s0" s al a] by auto
qed

text \<open>A program whose heap starts at the first header of the page 4, and its state after one request and its release.\<close>

definition demo_heap :: umem where
  "demo_heap = \<lparr>hptr = (\<lambda>_. 0), hsize = (\<lambda>_. 0), freep = 0, ubrk = 0x800\<rparr>"

definition demo_used :: umem where
  "demo_used = \<lparr>hptr = (\<lambda>a. if a = 0x800 then 0x200 else if a = 0x200 then 0x800 else 0),
     hsize = (\<lambda>a. if a = 0x800 then 4082 else if a = 6130 then 14 else 0), freep = 0x200, ubrk = 6144\<rparr>"

lemma demo_malloc: "umalloc (\<lambda>_ _. True) 0x200 demo_heap 100 = Some (6131, demo_used)"
proof -
  let ?s0 = "demo_heap\<lparr>hptr := (hptr demo_heap)(0x200 := 0x200), freep := 0x200, hsize := (hsize demo_heap)(0x200 := 0)\<rparr>"
  let ?s2 = "\<lparr>hptr = (\<lambda>a. if a = 0x800 then 0x200 else if a = 0x200 then 0x800 else 0),
     hsize = (\<lambda>a. if a = 0x800 then 4096 else 0), freep = 0x200, ubrk = 6144\<rparr>"
  have n: "nunits 100 = 14" by (simp add: nunits_def)
  have b: "sbrk (\<lambda>_ _. True) ?s0 (4096 * 8) = Some (0x800, ?s0\<lparr>ubrk := 6144\<rparr>)"
    by (subst sbrk_grow) (simp_all add: demo_heap_def)
  have f: "ufree (?s0\<lparr>ubrk := 6144, hsize := (hsize ?s0)(0x800 := 4096)\<rparr>) 0x801 = Some ?s2"
    by (simp add: ufree_def free_pos.simps[of _ "0x800" "0x200"] demo_heap_def fun_eq_iff)
  have m: "morecore (\<lambda>_ _. True) ?s0 14 = Some (0x200, ?s2)"
    using b f by (simp add: morecore_def Let_def)
  have "malloc_loop (\<lambda>_ _. True) 14 ?s2 0x200 0x800 = Some (6131, demo_used)"
    by (subst malloc_loop.simps) (simp add: take_block_def demo_used_def Let_def fun_eq_iff)
  hence "malloc_loop (\<lambda>_ _. True) 14 ?s0 0x200 0x200 = Some (6131, demo_used)"
    using m by (subst malloc_loop.simps) (simp add: demo_heap_def)
  thus ?thesis unfolding umalloc_def n by (simp add: demo_heap_def Let_def)
qed

text \<open>
  C28: a program that allocates and releases memory in any order.  The blocks it holds do not overlap, lie in the part of
  the heap it asked for and below the end of user memory; every further request returns, with a null pointer or a new
  block of at least the requested number of bytes beyond its header, and every release of a block in use returns;
  neither changes the size of another block in use.
\<close>
theorem umalloc_safe:
  assumes "uheap avail base s0 s al" "freep s0 = 0" "0 < base" "base < ubrk s0" "8 * ubrk s0 \<le> UTOP"
  shows "(\<forall>a \<in> al. ubrk s0 \<le> a \<and> a + hsize s a \<le> ubrk s \<and> 8 * ubrk s \<le> UTOP) \<and>
    (\<forall>a \<in> al. \<forall>b \<in> al. a \<noteq> b \<longrightarrow> a + hsize s a \<le> b \<or> b + hsize s b \<le> a) \<and>
    (\<forall>nbytes. sane nbytes \<longrightarrow> (\<exists>r s'. umalloc avail base s nbytes = Some (r, s') \<and> (\<forall>b \<in> al. hsize s' b = hsize s b) \<and>
       (r = 0 \<or> r - 1 \<notin> al \<and> unat nbytes + 8 \<le> 8 * hsize s' (r - 1)))) \<and>
    (\<forall>a \<in> al. \<exists>s'. ufree s (a + 1) = Some s' \<and> (\<forall>b \<in> al - {a}. hsize s' b = hsize s b))"
proof -
  have ok: "alloc_ok base (ubrk s0) s al" by (rule uheap_ok[OF assms])
  have fits: "\<forall>a \<in> al. ubrk s0 \<le> a \<and> a + hsize s a \<le> ubrk s \<and> 8 * ubrk s \<le> UTOP"
    and apart: "\<forall>a \<in> al. \<forall>b \<in> al. a \<noteq> b \<longrightarrow> a + hsize s a \<le> b \<or> b + hsize s b \<le> a"
  proof (atomize (full), cases "al = {}")
    case False
    hence "freep s \<noteq> 0" using ok by (auto simp: alloc_ok_def split: if_splits)
    then obtain fs where h: "heap_ok base (ubrk s0) s fs al" using ok by (auto simp: alloc_ok_def)
    have t: "tiles (hsize s) (set fs \<union> al) (ubrk s0) (ubrk s)" and p: "\<forall>a \<in> al. 0 < hsize s a" and u: "8 * ubrk s \<le> UTOP"
      using h unfolding heap_ok_def by (blast, metis UnCI disjoint_iff hd_in_set, blast)
    show "(\<forall>a \<in> al. ubrk s0 \<le> a \<and> a + hsize s a \<le> ubrk s \<and> 8 * ubrk s \<le> UTOP) \<and>
      (\<forall>a \<in> al. \<forall>b \<in> al. a \<noteq> b \<longrightarrow> a + hsize s a \<le> b \<or> b + hsize s b \<le> a)"
      using tiles_bounds[OF t] tiles_disjoint[OF t] p u by blast
  qed simp
  have "\<exists>r s'. umalloc avail base s nbytes = Some (r, s') \<and> (\<forall>b \<in> al. hsize s' b = hsize s b) \<and>
       (r = 0 \<or> r - 1 \<notin> al \<and> unat nbytes + 8 \<le> 8 * hsize s' (r - 1))" if "sane nbytes" for nbytes
    using umalloc_ok[OF ok that, of avail] by (auto split: if_splits)
  moreover have "\<exists>s'. ufree s (a + 1) = Some s' \<and> (\<forall>b \<in> al - {a}. hsize s' b = hsize s b)" if "a \<in> al" for a
    using umalloc_free_ok[OF ok that] by blast
  ultimately show ?thesis using fits apart by blast
qed

text \<open>An evaluation: a program that holds a block of 14 units.\<close>
theorem umalloc_safe_witness:
  "uheap (\<lambda>_ _. True) 0x200 demo_heap demo_used {6130} \<and> hsize demo_used 6130 = 14 \<and>
    (\<exists>s'. ufree demo_used 6131 = Some s') \<and>
    (\<exists>r s'. umalloc (\<lambda>_ _. True) 0x200 demo_used 5000 = Some (r, s') \<and> hsize s' 6130 = 14)"
proof -
  have u: "uheap (\<lambda>_ _. True) 0x200 demo_heap demo_used {6130}"
    using uheap_malloc[OF uheap_start _ demo_malloc] by simp
  have d: "freep demo_heap = 0" "(0::nat) < 0x200" "0x200 < ubrk demo_heap" "8 * ubrk demo_heap \<le> UTOP" "hsize demo_used 6130 = 14"
    by (simp_all add: demo_heap_def demo_used_def)
  note S = umalloc_safe[OF u d(1-4)]
  have n: "sane 5000" by simp
  obtain r s' where r: "umalloc (\<lambda>_ _. True) 0x200 demo_used 5000 = Some (r, s')" "hsize s' 6130 = 14"
    using S[THEN conjunct2, THEN conjunct2, THEN conjunct1, rule_format, OF n] d(5) by auto
  obtain t where "ufree demo_used (6130 + 1) = Some t"
    using S[THEN conjunct2, THEN conjunct2, THEN conjunct2, rule_format, of 6130] by auto
  thus ?thesis using u d(5) r by auto
qed

text \<open>
  No fragmentation is left behind.  When a program has released all its blocks, the free list is a single block that
  fills the whole heap.
\<close>
theorem umalloc_coalesces:
  assumes "uheap avail base s0 s {}" "freep s0 = 0" "0 < base" "base < ubrk s0" "8 * ubrk s0 \<le> UTOP" "freep s \<noteq> 0"
    "ubrk s0 < ubrk s"
  shows "hptr s base = ubrk s0 \<and> hptr s (ubrk s0) = base \<and> hsize s (ubrk s0) = ubrk s - ubrk s0"
proof -
  let ?lo = "ubrk s0"
  obtain fs where h: "heap_ok base ?lo s fs {}" using uheap_ok[OF assms(1-5)] assms(6) by (auto simp: alloc_ok_def)
  have t: "tiles (hsize s) (set fs) ?lo (ubrk s)" and pos: "\<forall>a \<in> set fs. a \<noteq> base \<longrightarrow> 0 < hsize s a" and b0: "hsize s base = 0"
    and sg: "useg (hptr s) base fs base" and gap: "sorted_wrt (\<lambda>a b. a + hsize s a < b) fs" and ne: "fs \<noteq> []" "hd fs = base"
    using h unfolding heap_ok_def by auto
  have cov: "\<exists>c \<in> set fs. c \<le> x \<and> x < c + hsize s c" if "?lo \<le> x" "x < ubrk s" for x
  proof -
    have "x \<in> {?lo..<ubrk s}" using that by simp
    thus ?thesis unfolding tiles_cover[OF t, symmetric] by auto
  qed
  obtain r where r: "fs = base # r" using ne by (cases fs) auto
  obtain a r' where r': "r = a # r'" using cov[of ?lo] assms(7) b0 r by (cases r) auto
  have ab: "a \<noteq> base" "\<forall>b \<in> set r'. a + hsize s a < b" using gap assms(3) b0 unfolding r r' by auto
  have up: "?lo \<le> a" "a + hsize s a \<le> ubrk s" using tiles_bounds[OF t, of a] pos ab r r' by auto
  have lo: "a = ?lo"
  proof -
    obtain c where c: "c \<in> set fs" "c \<le> ?lo" "?lo < c + hsize s c" using cov[of ?lo] assms(7) by auto
    have "c \<in> set r" using c b0 assms(4) r by auto
    thus ?thesis using c(2) up(1) ab(2) r' by auto
  qed
  have full: "a + hsize s a = ubrk s"
  proof (rule ccontr)
    assume "a + hsize s a \<noteq> ubrk s"
    then obtain c where c: "c \<in> set fs" "c \<le> a + hsize s a" "a + hsize s a < c + hsize s c" using cov[of "a + hsize s a"] up by auto
    thus False using ab(2) b0 r r' up(1) assms(4) by auto
  qed
  have "r' = []"
  proof (cases r')
    case (Cons b q)
    have "b + hsize s b \<le> ubrk s" using tiles_bounds[OF t, of b] pos ab r r' Cons assms(4) up by auto
    thus ?thesis using ab(2) full Cons by auto
  qed
  thus ?thesis using sg lo full unfolding r r' by auto
qed

text \<open>An evaluation: after the release of that block.\<close>
theorem umalloc_coalesces_witness:
  "\<exists>s. ufree demo_used 6131 = Some s \<and> uheap (\<lambda>_ _. True) 0x200 demo_heap s {} \<and> hptr s 0x200 = 0x800 \<and> hsize s 0x800 = 4096"
proof -
  have u: "uheap (\<lambda>_ _. True) 0x200 demo_heap demo_used {6130}"
    using uheap_malloc[OF uheap_start _ demo_malloc] by simp
  have "free_pos demo_used 6130 0x800 = Some 0x800" by (subst free_pos.simps) (simp add: demo_used_def)
  hence p: "free_pos demo_used 6130 0x200 = Some 0x800" by (subst free_pos.simps) (simp add: demo_used_def)
  have f: "freep demo_used = 0x200" "ubrk demo_used = 6144" by (simp_all add: demo_used_def)
  have "\<exists>s. ufree demo_used 6131 = Some s \<and> freep s \<noteq> 0 \<and> ubrk s = 6144"
    unfolding ufree_def Let_def f(1) using p f by simp
  then obtain s where s: "ufree demo_used 6131 = Some s" "freep s \<noteq> 0" "ubrk s = 6144" by blast
  have v: "uheap (\<lambda>_ _. True) 0x200 demo_heap s {}" using uheap_free[OF u, of 6130 s] s(1) by simp
  have d: "freep demo_heap = 0" "(0::nat) < 0x200" "0x200 < ubrk demo_heap" "8 * ubrk demo_heap \<le> UTOP" "ubrk demo_heap = 0x800"
    by (simp_all add: demo_heap_def)
  show ?thesis using umalloc_coalesces[OF v d(1-4) s(2)] s v d(5) by auto
qed

text \<open>
  A request of 2 GB or more is a negative number of bytes for \<open>sbrk\<close>, which then grants it without moving the break:
  the caller gets a block of memory that does not exist.
\<close>

lemma huge_request_unbacked:
  "\<exists>s. umalloc avail 0x200 demo_heap 0x90000000 = Some (0x801, s) \<and> ubrk s = ubrk demo_heap \<and> 8 * hsize s 0x800 > UTOP"
proof -
  let ?s0 = "demo_heap\<lparr>hptr := (hptr demo_heap)(0x200 := 0x200), freep := 0x200, hsize := (hsize demo_heap)(0x200 := 0)\<rparr>"
  let ?s2 = "\<lparr>hptr = (\<lambda>a. if a = 0x800 then 0x200 else if a = 0x200 then 0x800 else 0),
     hsize = (\<lambda>a. if a = 0x800 then 0x12000001 else 0), freep = 0x200, ubrk = 0x800\<rparr>"
  have n: "nunits 0x90000000 = 0x12000001" by (simp add: nunits_def)
  have b: "sbrk avail ?s0 (0x12000001 * 8) = Some (0x800, ?s0)" by (simp add: sbrk_def word_sless_alt demo_heap_def Let_def)
  have f: "ufree (?s0\<lparr>hsize := (hsize ?s0)(0x800 := 0x12000001)\<rparr>) 0x801 = Some ?s2"
    by (simp add: ufree_def free_pos.simps[of _ "0x800" "0x200"] demo_heap_def fun_eq_iff)
  have m: "morecore avail ?s0 0x12000001 = Some (0x200, ?s2)" using b f by (simp add: morecore_def Let_def)
  have "\<exists>s. malloc_loop avail 0x12000001 ?s2 0x200 0x800 = Some (0x801, s) \<and> ubrk s = 0x800 \<and> hsize s 0x800 = 0x12000001"
    by (subst malloc_loop.simps) (simp add: take_block_def)
  hence "\<exists>s. malloc_loop avail 0x12000001 ?s0 0x200 0x200 = Some (0x801, s) \<and> ubrk s = 0x800 \<and> hsize s 0x800 = 0x12000001"
    using m by (subst malloc_loop.simps) (simp add: demo_heap_def)
  thus ?thesis unfolding umalloc_def n by (auto simp: demo_heap_def Let_def)
qed

end
