(* ===== verification/Grep.thy ===== *)
theory Grep
  imports Prelude
begin

text \<open>
  The pattern matcher and the line reader of \<^verbatim>\<open>Project5b/xv6/user/grep.c\<close>.  A pattern and a line are C strings, modelled
  by their characters before the final NUL; reading \<open>re[1]\<close> past the last character gives the NUL, which is no
  operator.
\<close>

subsection \<open>The matcher\<close>

text \<open>
  \<open>matchstar\<close> looks for \<open>c*re\<close>: it tries \<open>re\<close> at the start of the text, then goes on as long as the next character is
  \<open>c\<close>, or any if \<open>c\<close> is a dot.
\<close>

function matchhere :: "string \<Rightarrow> string \<Rightarrow> bool"
  and matchstar :: "char \<Rightarrow> string \<Rightarrow> string \<Rightarrow> bool" where
  "matchhere [] str = True"
| "matchhere (c # re) str =
     (if re \<noteq> [] \<and> hd re = CHR ''*'' then matchstar c (tl re) str
      else if c = CHR ''$'' \<and> re = [] then str = []
      else case str of
          [] \<Rightarrow> False
        | t # ts \<Rightarrow> (c = CHR ''.'' \<or> c = t) \<and> matchhere re ts)"
| "matchstar c re str =
     (matchhere re str \<or>
      (case str of [] \<Rightarrow> False | t # ts \<Rightarrow> (t = c \<or> c = CHR ''.'') \<and> matchstar c re ts))"
  by pat_completeness auto
termination
  by (relation "measures [\<lambda>x. case x of Inl (re, t) \<Rightarrow> 2 * length re | Inr (c, re, t) \<Rightarrow> 2 * length re + 1,
    \<lambda>x. case x of Inl (re, t) \<Rightarrow> length t | Inr (c, re, t) \<Rightarrow> length t]") auto

declare matchhere.simps(2) matchstar.simps [simp del]

fun match_at :: "string \<Rightarrow> string \<Rightarrow> bool" where
  "match_at re str = (matchhere re str \<or> (case str of [] \<Rightarrow> False | t # ts \<Rightarrow> match_at re ts))"

definition match_line :: "string \<Rightarrow> string \<Rightarrow> bool" where
  "match_line re str =
     (case re of c # re' \<Rightarrow> if c = CHR ''^'' then matchhere re' str else match_at re str | [] \<Rightarrow> match_at re str)"

subsection \<open>What a pattern means\<close>

datatype item = One char | Many char | AtEnd

fun items :: "string \<Rightarrow> item list" where
  "items [] = []"
| "items (c # re) =
     (if re \<noteq> [] \<and> hd re = CHR ''*'' then Many c # items (tl re)
      else if c = CHR ''$'' \<and> re = [] then [AtEnd]
      else One c # items re)"

definition fits :: "char \<Rightarrow> char \<Rightarrow> bool" where
  "fits c x \<longleftrightarrow> c = CHR ''.'' \<or> c = x"

text \<open>The words that the items of a pattern stand for; \<open>AtEnd\<close> is a condition on what follows.\<close>

fun lang :: "item list \<Rightarrow> string set" where
  "lang [] = {[]}"
| "lang (One c # is) = {x # w | x w. fits c x \<and> w \<in> lang is}"
| "lang (Many c # is) = {u @ w | u w. list_all (fits c) u \<and> w \<in> lang is}"
| "lang (AtEnd # is) = lang is"

text \<open>
  A pattern matches a text if the text contains a word of the pattern, at its start if the pattern begins with a
  circumflex and at its end if it ends with a dollar.
\<close>

definition pattern_matches :: "string \<Rightarrow> string \<Rightarrow> bool" where
  "pattern_matches re str \<longleftrightarrow>
     (let anch = (re \<noteq> [] \<and> hd re = CHR ''^''); is = items (if anch then tl re else re)
      in \<exists>pre w post. str = pre @ w @ post \<and> w \<in> lang is \<and> (anch \<longrightarrow> pre = []) \<and> (AtEnd \<in> set is \<longrightarrow> post = []))"

lemma split_prefix:
  "(\<exists>w post. s = w @ post \<and> (\<exists>u v. w = u @ v \<and> A u \<and> B v) \<and> P post) \<longleftrightarrow>
   (\<exists>u v post. s = u @ v @ post \<and> A u \<and> B v \<and> P post)"
proof
  assume "\<exists>w post. s = w @ post \<and> (\<exists>u v. w = u @ v \<and> A u \<and> B v) \<and> P post"
  then obtain u v post where "s = (u @ v) @ post" "A u" "B v" "P post" by blast
  thus "\<exists>u v post. s = u @ v @ post \<and> A u \<and> B v \<and> P post" by auto
next
  assume "\<exists>u v post. s = u @ v @ post \<and> A u \<and> B v \<and> P post"
  then obtain u v post where "s = (u @ v) @ post" "A u" "B v" "P post" by auto
  thus "\<exists>w post. s = w @ post \<and> (\<exists>u v. w = u @ v \<and> A u \<and> B v) \<and> P post" by blast
qed

lemma first_char:
  "(\<exists>w post. t # ts = w @ post \<and> (\<exists>x v. w = x # v \<and> F x \<and> v \<in> L) \<and> P post) \<longleftrightarrow>
   F t \<and> (\<exists>v post. ts = v @ post \<and> v \<in> L \<and> P post)"
proof
  assume "F t \<and> (\<exists>v post. ts = v @ post \<and> v \<in> L \<and> P post)"
  then obtain v post where "t # ts = (t # v) @ post" "F t" "v \<in> L" "P post" by auto
  thus "\<exists>w post. t # ts = w @ post \<and> (\<exists>x v. w = x # v \<and> F x \<and> v \<in> L) \<and> P post" by blast
next
  assume "\<exists>w post. t # ts = w @ post \<and> (\<exists>x v. w = x # v \<and> F x \<and> v \<in> L) \<and> P post"
  then obtain x v post where "t # ts = (x # v) @ post" "F x" "v \<in> L" "P post" by blast
  thus "F t \<and> (\<exists>v post. ts = v @ post \<and> v \<in> L \<and> P post)" by auto
qed

lemma first_of_many:
  "(\<exists>u w post. t # ts = u @ w @ post \<and> list_all F u \<and> B w \<and> P post) \<longleftrightarrow>
   (\<exists>w post. t # ts = w @ post \<and> B w \<and> P post) \<or> F t \<and> (\<exists>u w post. ts = u @ w @ post \<and> list_all F u \<and> B w \<and> P post)"
proof
  assume "\<exists>u w post. t # ts = u @ w @ post \<and> list_all F u \<and> B w \<and> P post"
  then obtain u w post where "t # ts = u @ w @ post" "list_all F u" "B w" "P post" by blast
  thus "(\<exists>w post. t # ts = w @ post \<and> B w \<and> P post) \<or> F t \<and> (\<exists>u w post. ts = u @ w @ post \<and> list_all F u \<and> B w \<and> P post)"
    by (cases u) auto
next
  assume "(\<exists>w post. t # ts = w @ post \<and> B w \<and> P post) \<or> F t \<and> (\<exists>u w post. ts = u @ w @ post \<and> list_all F u \<and> B w \<and> P post)"
  then consider w post where "t # ts = [] @ w @ post" "list_all F []" "B w" "P post"
    | u w post where "t # ts = (t # u) @ w @ post" "list_all F (t # u)" "B w" "P post" by auto
  thus "\<exists>u w post. t # ts = u @ w @ post \<and> list_all F u \<and> B w \<and> P post" by cases blast+
qed

lemma items_here:
  "matchhere re str \<longleftrightarrow> (\<exists>w post. str = w @ post \<and> w \<in> lang (items re) \<and> (AtEnd \<in> set (items re) \<longrightarrow> post = []))"
  "matchstar c re str \<longleftrightarrow> (\<exists>u w post. str = u @ w @ post \<and> list_all (fits c) u \<and> w \<in> lang (items re) \<and>
     (AtEnd \<in> set (items re) \<longrightarrow> post = []))"
proof (induction re str and c re str rule: matchhere_matchstar.induct)
  case (2 c re str)
  consider (star) "re \<noteq> [] \<and> hd re = CHR ''*''" | (dollar) "c = CHR ''$'' \<and> re = []"
    | (one) "\<not> (re \<noteq> [] \<and> hd re = CHR ''*'')" "\<not> (c = CHR ''$'' \<and> re = [])" by blast
  thus ?case
  proof cases
    case star
    hence i: "items (c # re) = Many c # items (tl re)" by simp
    show ?thesis unfolding matchhere.simps(2) using star 2(1)[OF star]
      by (simp add: i split_prefix[where P = "\<lambda>post. AtEnd \<in> set (items (tl re)) \<longrightarrow> post = []"])
  next
    case dollar
    thus ?thesis by (subst matchhere.simps) auto
  next
    case one
    hence i: "items (c # re) = One c # items re" by auto
    show ?thesis
    proof (cases str)
      case Nil
      thus ?thesis using one unfolding i by (auto simp: matchhere.simps(2))
    next
      case (Cons t ts)
      have m: "matchhere (c # re) str \<longleftrightarrow> fits c t \<and> matchhere re ts" using one Cons by (auto simp: matchhere.simps(2) fits_def)
      show ?thesis unfolding m 2(2)[OF one Cons] unfolding Cons i
        by (simp add: first_char[where P = "\<lambda>post. AtEnd \<in> set (items re) \<longrightarrow> post = []"])
    qed
  qed
next
  case (3 c re str)
  show ?case
  proof (cases str)
    case Nil
    thus ?thesis using 3(1) by (subst matchstar.simps) auto
  next
    case (Cons t ts)
    have m: "matchstar c re str \<longleftrightarrow> matchhere re str \<or> fits c t \<and> matchstar c re ts"
      using Cons by (subst matchstar.simps) (auto simp: fits_def)
    show ?thesis unfolding m 3(1) 3(2)[OF Cons] unfolding Cons
      by (rule first_of_many[where P = "\<lambda>post. AtEnd \<in> set (items re) \<longrightarrow> post = []", symmetric])
  qed
qed simp

lemma match_at_iff: "match_at re s \<longleftrightarrow> (\<exists>pre t. s = pre @ t \<and> matchhere re t)"
proof (induction s)
  case Nil
  show ?case by (subst match_at.simps) simp
next
  case (Cons c s)
  have "(\<exists>pre t. c # s = pre @ t \<and> matchhere re t) \<longleftrightarrow> matchhere re (c # s) \<or> (\<exists>pre t. s = pre @ t \<and> matchhere re t)"
    by (auto simp: Cons_eq_append_conv)
  thus ?case using Cons by (subst match_at.simps) simp
qed

declare match_at.simps [simp del]

text \<open>
  C29: the matcher decides what the pattern means: it accepts a line exactly when the line contains a word of the
  pattern's language, at the start after a circumflex and at the end before a final dollar.
\<close>
theorem match_line_correct: "match_line re s \<longleftrightarrow> pattern_matches re s"
proof (cases "re \<noteq> [] \<and> hd re = CHR ''^''")
  case True
  then obtain re' where re: "re = CHR ''^'' # re'" by (cases re) auto
  show ?thesis unfolding re pattern_matches_def match_line_def by (auto simp: items_here Let_def)
next
  case False
  hence "match_line re s = match_at re s" by (auto simp: match_line_def split: list.splits)
  also have "\<dots> \<longleftrightarrow> (\<exists>pre w post. s = pre @ w @ post \<and> w \<in> lang (items re) \<and> (AtEnd \<in> set (items re) \<longrightarrow> post = []))"
    unfolding match_at_iff items_here by blast
  finally show ?thesis using False unfolding pattern_matches_def Let_def by auto
qed

subsection \<open>Reading lines\<close>

text \<open>
  The input is a list of chunks; a read takes what fits from the first one.  \<open>buf\<close> are the 1024 bytes of the buffer; the
  code never terminates them, so that \<open>strchr\<close> may find bytes left from earlier reads or run past the end of the buffer,
  which is \<open>None\<close>, as is a read into memory before the buffer.
\<close>

abbreviation BUFSZ :: nat where "BUFSZ \<equiv> 1024"
abbreviation NUL :: char where "NUL \<equiv> CHR 0x00"
abbreviation NL :: char where "NL \<equiv> CHR 0x0A"

definition read_in :: "nat \<Rightarrow> string list \<Rightarrow> string \<times> string list" where
  "read_in n cs =
     (case cs of [] \<Rightarrow> ([], [])
      | c # cs' \<Rightarrow> (take n c, if length c \<le> n then cs' else drop n c # cs'))"

function strchr_nl :: "string \<Rightarrow> nat \<Rightarrow> nat option option" where
  "strchr_nl buf p =
     (if length buf \<le> p then None
      else if buf ! p = NUL then Some None
      else if buf ! p = NL then Some (Some p)
      else strchr_nl buf (p + 1))"
  by pat_completeness auto
termination
  by (relation "measure (\<lambda>(buf, p). length buf - p)") auto

declare strchr_nl.simps [simp del]

lemma strchr_nl_SomeD: "strchr_nl buf p = Some (Some q) \<Longrightarrow> p \<le> q \<and> q < length buf"
proof (induction buf p rule: strchr_nl.induct)
  case (1 buf p)
  show ?case using 1(1) 1(2) by (subst (asm) (2) strchr_nl.simps) (fastforce split: if_splits)
qed

text \<open>The inner loop: a line that does not match keeps the NUL that was put in place of its newline.\<close>

function grep_lines :: "string \<Rightarrow> string \<Rightarrow> nat \<Rightarrow> string \<Rightarrow> (string \<times> nat \<times> string) option" where
  "grep_lines pat buf p out =
     (case strchr_nl buf p of
        None \<Rightarrow> None
      | Some None \<Rightarrow> Some (buf, p, out)
      | Some (Some q) \<Rightarrow>
          let line = take (q - p) (drop p buf)
          in if match_line pat line then grep_lines pat (buf[q := NL]) (q + 1) (out @ line @ [NL])
             else grep_lines pat (buf[q := NUL]) (q + 1) out)"
  by pat_completeness auto
termination
  by (relation "measure (\<lambda>(pat, buf, p, out). length buf - p)") (auto dest: strchr_nl_SomeD)

declare grep_lines.simps [simp del]

definition put_at :: "string \<Rightarrow> nat \<Rightarrow> string \<Rightarrow> string" where
  "put_at buf i xs = take i buf @ xs @ drop (i + length xs) buf"

function grep_loop :: "string \<Rightarrow> string \<Rightarrow> int \<Rightarrow> string list \<Rightarrow> string \<Rightarrow> string option" where
  "grep_loop pat buf m cs out =
     (case read_in (nat (int BUFSZ - m)) cs of
        (xs, cs') \<Rightarrow>
          if xs = [] then Some out
          else if m < 0 then None
          else case grep_lines pat (put_at buf (nat m) xs) 0 out of
              None \<Rightarrow> None
            | Some (buf1, p, out1) \<Rightarrow>
                let m1 = m + int (length xs); m2 = (if p = 0 then 0 else m1)
                in if m2 > 0 then
                     let m3 = m2 - int p
                     in grep_loop pat (put_at buf1 0 (take (nat m3) (drop p buf1))) m3 cs' out1
                   else grep_loop pat buf1 m2 cs' out1)"
  by pat_completeness auto
termination
proof (relation "measure (\<lambda>(pat, buf, m, cs, out). sum_list (map (\<lambda>c. Suc (length c)) cs))", goal_cases)
  case 1
  show ?case by simp
qed (auto simp: read_in_def split: list.splits if_splits)

declare grep_loop.simps [simp del]

definition grep :: "string \<Rightarrow> string list \<Rightarrow> string option" where
  "grep pat cs = grep_loop pat (replicate BUFSZ NUL) 0 cs []"

text \<open>The complete lines of an input, without what follows the last newline.\<close>

fun clines :: "string \<Rightarrow> string \<Rightarrow> string list" where
  "clines cur [] = []"
| "clines cur (c # cs) = (if c = NL then cur # clines [] cs else clines (cur @ [c]) cs)"

lemma clines_no_NL: "NL \<notin> set u \<Longrightarrow> clines cur (u @ t) = clines (cur @ u) t"
  by (induction u arbitrary: cur) auto

lemma strchr_nl_find:
  assumes "set u \<inter> {NL, NUL} = {}" "c \<in> {NL, NUL}"
  shows "strchr_nl (A @ u @ c # B) (length A) = Some (if c = NL then Some (length A + length u) else None)"
  using assms
proof (induction u arbitrary: A)
  case Nil
  thus ?case by (subst strchr_nl.simps) auto
next
  case (Cons x u)
  have "strchr_nl ((A @ [x]) @ u @ c # B) (length (A @ [x])) = Some (if c = NL then Some (length (A @ [x]) + length u) else None)"
    using Cons by (intro Cons.IH) auto
  thus ?case using Cons.prems by (subst strchr_nl.simps) (auto simp: nth_append)
qed

lemma grep_lines_all:
  assumes "NUL \<notin> set t"
  shows "\<exists>buf' p'. grep_lines pat (A @ t @ NUL # B) (length A) out =
    Some (buf', p', out @ concat (map (\<lambda>l. l @ [NL]) (filter (match_line pat) (clines [] t))))"
  using assms
proof (induction "length t" arbitrary: A t out rule: less_induct)
  case less
  define u r where "u = takeWhile (\<lambda>c. c \<noteq> NL) t" and "r = dropWhile (\<lambda>c. c \<noteq> NL) t"
  have t: "t = u @ r" and nu: "NL \<notin> set u" by (auto simp: u_def r_def dest: set_takeWhileD)
  have u0: "set u \<inter> {NL, NUL} = {}" using nu less.prems t by auto
  show ?case
  proof (cases r)
    case Nil
    hence "strchr_nl (A @ t @ NUL # B) (length A) = Some None" using strchr_nl_find[OF u0, of NUL A B] t by simp
    thus ?thesis using clines_no_NL[OF nu, of "[]" "[]"] t Nil by (subst grep_lines.simps) simp
  next
    case (Cons c v)
    have c: "c = NL" using Cons hd_dropWhile[of "\<lambda>c. c \<noteq> NL" t] by (simp add: r_def)
    have tt: "t = u @ NL # v" using t Cons c by simp
    let ?q = "length A + length u"
    have f: "strchr_nl (A @ t @ NUL # B) (length A) = Some (Some ?q)"
      using strchr_nl_find[OF u0, of NL A "v @ NUL # B"] tt by simp
    have upd: "(A @ t @ NUL # B)[?q := x] = (A @ u @ [x]) @ v @ NUL # B" for x
      unfolding tt by (simp add: list_update_append)
    have ln: "take (?q - length A) (drop (length A) (A @ t @ NUL # B)) = u" unfolding tt by simp
    have IH: "\<exists>buf' p'. grep_lines pat ((A @ u @ [x]) @ v @ NUL # B) (length (A @ u @ [x])) out' =
      Some (buf', p', out' @ concat (map (\<lambda>l. l @ [NL]) (filter (match_line pat) (clines [] v))))" for x out'
      using less.prems tt by (intro less.hyps) auto
    have cl: "clines [] t = u # clines [] v" using clines_no_NL[OF nu, of "[]" "NL # v"] tt by simp
    show ?thesis
      by (subst grep_lines.simps) (use IH[of NL "out @ u @ [NL]"] IH[of NUL out] in \<open>auto simp: f upd[simplified] ln[simplified] cl Let_def\<close>)
  qed
qed

lemma put_at_0: "put_at buf 0 xs = xs @ drop (length xs) buf"
  by (simp add: put_at_def)



text \<open>
  A read that ends within a line and holds no newline is thrown away, so a line that arrives in two pieces is not found.
\<close>

lemma partial_line_lost: "grep ''a'' [''a'', ''b'' @ [NL]] = Some []"
  by code_simp

text \<open>Bytes of earlier reads beyond the new end of the data are taken for lines of the input.\<close>

lemma stale_line_printed: "grep ''a'' [''aaaaa'' @ [NL] @ ''b'', ''c'' @ [NL]] = Some (''aaaaa'' @ [NL] @ ''aa'' @ [NL])"
  by code_simp

end
