(* ===== verification/Rio.thy ===== *)
theory Rio
  imports Prelude
begin

text \<open>
  The robust reading functions of the web server (\<^verbatim>\<open>Project4a/cs537.c\<close>).  The system call \<open>read\<close> is an argument \<open>rd\<close> that
  maps the state of the descriptor and a number of bytes to a result: data (none at the end of the input), an
  interrupted call, or an error.  \<open>reads_from\<close> states what is documented of it.  Loops that the source could leave
  running for ever are partial; \<open>None\<close> is such a run.
\<close>

subsection \<open>Reading from a descriptor\<close>

datatype rd_result = RData string | RIntr | RErr

type_synonym 'w reader = "'w \<Rightarrow> nat \<Rightarrow> rd_result \<times> 'w"

text \<open>
  \<open>pend\<close> are the bytes that will still arrive and \<open>pat\<close> bounds the number of interrupted calls before the next data.
\<close>

definition reads_from :: "'w reader \<Rightarrow> ('w \<Rightarrow> string) \<Rightarrow> ('w \<Rightarrow> nat) \<Rightarrow> bool" where
  "reads_from rd pend pat \<longleftrightarrow>
     (\<forall>w n. 0 < n \<longrightarrow> (case rd w n of
        (RData xs, w') \<Rightarrow> length xs \<le> n \<and> pend w = xs @ pend w' \<and> (xs = [] \<longrightarrow> pend w = [])
      | (RIntr, w') \<Rightarrow> pend w' = pend w \<and> pat w' < pat w
      | (RErr, w') \<Rightarrow> False))"

abbreviation RIO_BUFSIZE :: nat where "RIO_BUFSIZE \<equiv> 8192"
abbreviation LF :: char where "LF \<equiv> CHR 0x0A"

text \<open>\<open>rio_rest\<close> are the bytes from \<open>rio_bufptr\<close> on.\<close>

record 'w rio =
  rio_cnt :: int
  rio_rest :: string
  rio_src :: 'w

definition rio_readinitb :: "'w \<Rightarrow> 'w rio" where
  "rio_readinitb w = \<lparr>rio_cnt = 0, rio_rest = [], rio_src = w\<rparr>"

partial_function (option) rio_read :: "'w reader \<Rightarrow> 'w rio \<Rightarrow> nat \<Rightarrow> (int \<times> string \<times> 'w rio) option" where
  "rio_read rd r n =
     (if rio_cnt r \<le> 0 then
        (case rd (rio_src r) RIO_BUFSIZE of (res, w) \<Rightarrow>
          case res of
            RIntr \<Rightarrow> rio_read rd (r\<lparr>rio_cnt := -1, rio_src := w\<rparr>) n
          | RErr \<Rightarrow> Some (-1, [], r\<lparr>rio_cnt := -1, rio_src := w\<rparr>)
          | RData xs \<Rightarrow>
              if xs = [] then Some (0, [], r\<lparr>rio_cnt := 0, rio_src := w\<rparr>)
              else rio_read rd (r\<lparr>rio_cnt := int (length xs), rio_rest := xs, rio_src := w\<rparr>) n)
      else let cnt = (if rio_cnt r < int n then rio_cnt r else int n)
           in Some (cnt, take (nat cnt) (rio_rest r),
                r\<lparr>rio_cnt := rio_cnt r - cnt, rio_rest := drop (nat cnt) (rio_rest r)\<rparr>))"

partial_function (option) rio_readnb_loop :: "'w reader \<Rightarrow> 'w rio \<Rightarrow> nat \<Rightarrow> string \<Rightarrow> (bool \<times> nat \<times> string \<times> 'w rio) option" where
  "rio_readnb_loop rd r nleft acc =
     (if nleft = 0 then Some (True, nleft, acc, r)
      else case rio_read rd r nleft of
          None \<Rightarrow> None
        | Some (nread, xs, r1) \<Rightarrow>
            if nread < 0 then Some (False, nleft, acc, r1)
            else if nread = 0 then Some (True, nleft, acc, r1)
            else rio_readnb_loop rd r1 (nleft - nat nread) (acc @ xs))"

definition rio_readnb :: "'w reader \<Rightarrow> 'w rio \<Rightarrow> nat \<Rightarrow> (int \<times> string \<times> 'w rio) option" where
  "rio_readnb rd r n =
     map_option (\<lambda>(ok, nleft, acc, r1). (if ok then int n - int nleft else -1, acc, r1)) (rio_readnb_loop rd r n [])"

text \<open>
  A line: the result is the number returned, what the buffer then holds up to its final NUL (\<open>None\<close> if it is left as it
  was, at the end of the input and after an error), and the stream.
\<close>

function rio_readlineb_loop :: "'w reader \<Rightarrow> 'w rio \<Rightarrow> nat \<Rightarrow> nat \<Rightarrow> string \<Rightarrow> (int \<times> string option \<times> 'w rio) option" where
  "rio_readlineb_loop rd r n maxlen acc =
     (if n < maxlen then
        (case rio_read rd r 1 of
           None \<Rightarrow> None
         | Some (rc, c, r1) \<Rightarrow>
             if rc = 1 then
               (if c = [LF] then Some (int n, Some (acc @ c), r1)
                else rio_readlineb_loop rd r1 (n + 1) maxlen (acc @ c))
             else if rc = 0 then
               (if n = 1 then Some (0, None, r1) else Some (int n, Some acc, r1))
             else Some (-1, None, r1))
      else Some (int n, Some acc, r))"
  by pat_completeness auto
termination
  by (relation "measure (\<lambda>(rd, r, n, maxlen, acc). maxlen - n)") auto

declare rio_readlineb_loop.simps [simp del]

definition rio_readlineb :: "'w reader \<Rightarrow> 'w rio \<Rightarrow> nat \<Rightarrow> (int \<times> string option \<times> 'w rio) option" where
  "rio_readlineb rd r maxlen = rio_readlineb_loop rd r 1 maxlen []"

subsection \<open>The bytes still to be read\<close>

definition rio_ok :: "'w rio \<Rightarrow> bool" where
  "rio_ok r \<longleftrightarrow> 0 < rio_cnt r \<longrightarrow> rio_cnt r = int (length (rio_rest r))"

definition unread :: "('w \<Rightarrow> string) \<Rightarrow> 'w rio \<Rightarrow> string" where
  "unread pend r = (if 0 < rio_cnt r then rio_rest r else []) @ pend (rio_src r)"

lemma rio_init_ok [simp]: "rio_ok (rio_readinitb w)" "unread pend (rio_readinitb w) = pend w"
  by (simp_all add: rio_ok_def unread_def rio_readinitb_def)

text \<open>What one call of \<open>rio_read\<close> gives, however the bytes arrive.\<close>

lemma rio_read_buffered:
  assumes "rio_ok r" "0 < rio_cnt r" "0 < n"
  shows "\<exists>xs r1. rio_read rd r n = Some (int (length xs), xs, r1) \<and> rio_ok r1 \<and> unread pend r = xs @ unread pend r1 \<and>
    length xs \<le> n \<and> xs \<noteq> []"
proof -
  let ?k = "min n (length (rio_rest r))"
  have c: "rio_cnt r = int (length (rio_rest r))" using assms by (simp add: rio_ok_def)
  have k: "nat (if rio_cnt r < int n then rio_cnt r else int n) = ?k" unfolding c by simp
  let ?r1 = "r\<lparr>rio_cnt := rio_cnt r - int ?k, rio_rest := drop ?k (rio_rest r)\<rparr>"
  have "rio_read rd r n = Some (int (length (take ?k (rio_rest r))), take ?k (rio_rest r), ?r1)"
    using assms(2) by (subst rio_read.simps) (auto simp: c Let_def min_def)
  moreover have "rio_ok ?r1" "unread pend r = take ?k (rio_rest r) @ unread pend ?r1" "take ?k (rio_rest r) \<noteq> []"
    using assms c by (auto simp: rio_ok_def unread_def min_def)
  ultimately show ?thesis by (intro exI[of _ "take ?k (rio_rest r)"] exI[of _ ?r1]) simp
qed

lemma rio_read_spec:
  assumes rd: "reads_from rd pend pat" and ok: "rio_ok r" and n: "0 < n"
  shows "\<exists>xs r1. rio_read rd r n = Some (int (length xs), xs, r1) \<and> rio_ok r1 \<and> unread pend r = xs @ unread pend r1 \<and>
    length xs \<le> n \<and> (xs = [] \<longrightarrow> unread pend r = [])"
  using ok
proof (induction "pat (rio_src r)" arbitrary: r rule: less_induct)
  case less
  show ?case
  proof (cases "0 < rio_cnt r")
    case True
    thus ?thesis using rio_read_buffered[OF less.prems True n, of rd pend] by blast
  next
    case False
    hence u: "unread pend r = pend (rio_src r)" by (simp add: unread_def)
    obtain res w where w: "rd (rio_src r) RIO_BUFSIZE = (res, w)" by fastforce
    note R = rd[unfolded reads_from_def, rule_format, of RIO_BUFSIZE "rio_src r", unfolded w]
    show ?thesis
    proof (cases res)
      case (RData xs)
      hence x: "pend (rio_src r) = xs @ pend w" "xs = [] \<longrightarrow> pend (rio_src r) = []" using R by auto
      show ?thesis
      proof (cases "xs = []")
        case True
        let ?r1 = "r\<lparr>rio_cnt := 0, rio_src := w\<rparr>"
        have "rio_read rd r n = Some (0, [], ?r1)" using False w RData True by (subst rio_read.simps) simp
        thus ?thesis using x True u by (intro exI[of _ "[]"] exI[of _ ?r1]) (simp add: rio_ok_def unread_def)
      next
        case ne: False
        let ?r1 = "r\<lparr>rio_cnt := int (length xs), rio_rest := xs, rio_src := w\<rparr>"
        have e: "rio_read rd r n = rio_read rd ?r1 n" using False w RData ne by (subst rio_read.simps) simp
        have o: "rio_ok ?r1" "0 < rio_cnt ?r1" and v: "unread pend ?r1 = unread pend r" using ne x u by (simp_all add: rio_ok_def unread_def)
        from rio_read_buffered[OF o n, of rd pend] show ?thesis unfolding e v by blast
      qed
    next
      case RIntr
      let ?r1 = "r\<lparr>rio_cnt := -1, rio_src := w\<rparr>"
      have e: "rio_read rd r n = rio_read rd ?r1 n" using False w RIntr by (subst rio_read.simps) simp
      have o: "pat (rio_src ?r1) < pat (rio_src r)" "rio_ok ?r1" and v: "unread pend ?r1 = unread pend r"
        using R RIntr u by (simp_all add: rio_ok_def unread_def)
      from less.hyps[OF o] show ?thesis unfolding e v .
    next
      case RErr
      thus ?thesis using R by simp
    qed
  qed
qed

lemma rio_read_one:
  assumes "reads_from rd pend pat" "rio_ok r"
  shows "\<exists>r1. rio_ok r1 \<and> (case unread pend r of
      [] \<Rightarrow> rio_read rd r 1 = Some (0, [], r1) \<and> unread pend r1 = []
    | c # cs \<Rightarrow> rio_read rd r 1 = Some (1, [c], r1) \<and> unread pend r1 = cs)"
proof -
  obtain xs r1 where x: "rio_read rd r 1 = Some (int (length xs), xs, r1)" "rio_ok r1" "unread pend r = xs @ unread pend r1"
    "length xs \<le> 1" "xs = [] \<longrightarrow> unread pend r = []" using rio_read_spec[OF assms, of 1] by auto
  show ?thesis
  proof (cases xs)
    case Nil
    thus ?thesis using x by (intro exI[of _ r1]) auto
  next
    case (Cons c cs)
    thus ?thesis using x by (intro exI[of _ r1]) auto
  qed
qed

text \<open>The first line of the input, with its line feed, but at most \<open>k\<close> bytes of it.\<close>

fun line_of :: "nat \<Rightarrow> string \<Rightarrow> string" where
  "line_of 0 s = []"
| "line_of (Suc k) [] = []"
| "line_of (Suc k) (c # cs) = c # (if c = LF then [] else line_of k cs)"

lemma rio_readlineb_loop_spec:
  assumes rd: "reads_from rd pend pat"
  shows "rio_ok r \<Longrightarrow> 1 \<le> n \<Longrightarrow> LF \<notin> set acc \<Longrightarrow> length acc = n - 1 \<Longrightarrow>
    \<exists>r1 l. l = line_of (maxlen - n) (unread pend r) \<and> rio_ok r1 \<and> unread pend r = l @ unread pend r1 \<and>
      rio_readlineb_loop rd r n maxlen acc =
        Some (if acc @ l = [] \<and> n < maxlen then (0, None, r1)
              else (int (length (acc @ l)) + (if l \<noteq> [] \<and> last l = LF then 0 else 1), Some (acc @ l), r1))"
proof (induction "maxlen - n" arbitrary: r n acc)
  case 0
  thus ?case by (subst rio_readlineb_loop.simps) (auto intro!: exI[of _ r])
next
  case (Suc k)
  have n: "n < maxlen" "maxlen - n = Suc k" "maxlen - Suc n = k" using Suc.hyps(2) by auto
  obtain r1 where r1: "rio_ok r1" "case unread pend r of
      [] \<Rightarrow> rio_read rd r 1 = Some (0, [], r1) \<and> unread pend r1 = []
    | c # cs \<Rightarrow> rio_read rd r 1 = Some (1, [c], r1) \<and> unread pend r1 = cs"
    using rio_read_one[OF rd Suc.prems(1)] by blast
  show ?case
  proof (cases "unread pend r")
    case Nil
    have "n = 1 \<longleftrightarrow> acc = []" using Suc.prems(2,4) by auto
    thus ?thesis using Nil r1 n Suc.prems by (subst rio_readlineb_loop.simps) (auto intro!: exI[of _ r1])
  next
    case (Cons c cs)
    hence rr: "rio_read rd r 1 = Some (1, [c], r1)" and u: "unread pend r1 = cs" using r1(2) by auto
    show ?thesis
    proof (cases "c = LF")
      case True
      thus ?thesis using rr u n Cons r1(1) Suc.prems(2,4) by (subst rio_readlineb_loop.simps) (auto intro!: exI[of _ r1])
    next
      case False
      have e: "rio_readlineb_loop rd r n maxlen acc = rio_readlineb_loop rd r1 (n + 1) maxlen (acc @ [c])"
        using rr n False by (subst rio_readlineb_loop.simps) simp
      have h: "k = maxlen - (n + 1)" "1 \<le> n + 1" "LF \<notin> set (acc @ [c])" "length (acc @ [c]) = n + 1 - 1"
        using n Suc.prems False by auto
      obtain r2 l where l: "l = line_of (maxlen - (n + 1)) (unread pend r1)" "rio_ok r2" "unread pend r1 = l @ unread pend r2"
        "rio_readlineb_loop rd r1 (n + 1) maxlen (acc @ [c]) =
        Some (if (acc @ [c]) @ l = [] \<and> n + 1 < maxlen then (0, None, r2)
              else (int (length ((acc @ [c]) @ l)) + (if l \<noteq> [] \<and> last l = LF then 0 else 1), Some ((acc @ [c]) @ l), r2))"
        using Suc.hyps(1)[OF h(1) r1(1) h(2-4)] by blast
      have "line_of (maxlen - n) (unread pend r) = c # l" using n Cons False l(1) u by simp
      moreover have "unread pend r = (c # l) @ unread pend r2" using Cons u l(3) by simp
      ultimately show ?thesis unfolding e l(4) using l(2) False by (intro exI[of _ r2] exI[of _ "c # l"]) auto
    qed
  qed
qed

lemma rio_readlineb_spec:
  assumes "reads_from rd pend pat" "rio_ok r" "1 < maxlen"
  shows "\<exists>r1 l. l = line_of (maxlen - 1) (unread pend r) \<and> rio_ok r1 \<and> unread pend r = l @ unread pend r1 \<and>
    rio_readlineb rd r maxlen =
      Some (if l = [] then (0, None, r1) else (int (length l) + (if last l = LF then 0 else 1), Some l, r1))"
  using rio_readlineb_loop_spec[OF assms(1,2), of 1 "[]" maxlen] assms(3) unfolding rio_readlineb_def by auto

text \<open>
  Reading a line does not depend on how the bytes arrive.  However \<open>read\<close> cuts the input into pieces and is
  interrupted, \<open>rio_readlineb\<close> returns, stores the first line (its first \<open>maxlen - 1\<close> bytes if it is longer) and leaves
  exactly the rest unread; at the end of the input it returns 0 and stores nothing.  The number it returns is the length
  of the line only if the line ends with a line feed; otherwise it is one more.
\<close>
theorem rio_readlineb_line:
  assumes "reads_from rd pend pat" "rio_ok r" "1 < maxlen"
  shows "\<exists>r1 l. l = line_of (maxlen - 1) (unread pend r) \<and> rio_ok r1 \<and> unread pend r = l @ unread pend r1 \<and>
    rio_readlineb rd r maxlen =
      Some (if l = [] then (0, None, r1) else (int (length l) + (if last l = LF then 0 else 1), Some l, r1))"
  by (rule rio_readlineb_spec[OF assms])

text \<open>Input that is already split into pieces, with interrupted calls (\<open>None\<close>) between them.\<close>

fun pieces :: "string option list reader" where
  "pieces [] n = (RData [], [])"
| "pieces (None # w) n = (RIntr, w)"
| "pieces (Some [] # w) n = pieces w n"
| "pieces (Some xs # w) n = (RData (take n xs), (if length xs \<le> n then w else Some (drop n xs) # w))"

definition pieces_pend :: "string option list \<Rightarrow> string" where
  "pieces_pend w = concat (map (\<lambda>p. case p of None \<Rightarrow> [] | Some xs \<Rightarrow> xs) w)"

lemma pieces_reads: "reads_from pieces pieces_pend length"
  unfolding reads_from_def
proof (intro allI impI)
  fix w :: "string option list" and n :: nat
  assume "0 < n"
  thus "case pieces w n of
        (RData xs, w') \<Rightarrow> length xs \<le> n \<and> pieces_pend w = xs @ pieces_pend w' \<and> (xs = [] \<longrightarrow> pieces_pend w = [])
      | (RIntr, w') \<Rightarrow> pieces_pend w' = pieces_pend w \<and> length w' < length w
      | (RErr, w') \<Rightarrow> False"
  proof (induction w n rule: pieces.induct)
    case (3 w n)
    thus ?case by (auto simp: pieces_pend_def split: prod.splits rd_result.splits)
  qed (auto simp: pieces_pend_def)
qed

text \<open>An evaluation: a line that arrives in three pieces with an interrupted call.\<close>
theorem rio_readlineb_line_witness:
  "\<exists>r1. rio_readlineb pieces (rio_readinitb [Some ''GE'', None, Some ''T'', Some [LF, CHR ''x'']]) 8192 =
     Some (4, Some (''GET'' @ [LF]), r1) \<and> unread pieces_pend r1 = ''x''"
  using rio_readlineb_line[OF pieces_reads rio_init_ok(1), of 8192 "[Some ''GE'', None, Some ''T'', Some [LF, CHR ''x'']]"]
  by (auto simp: pieces_pend_def eval_nat_numeral)

text \<open>
  Reading \<open>n\<close> bytes.  \<open>rio_readnb\<close> returns the next \<open>n\<close> bytes of the input, or all of them if there are fewer.
\<close>
theorem rio_readnb_bytes:
  assumes rd: "reads_from rd pend pat" and ok: "rio_ok r"
  shows "\<exists>r1. rio_ok r1 \<and> unread pend r1 = drop n (unread pend r) \<and>
    rio_readnb rd r n = Some (int (min n (length (unread pend r))), take n (unread pend r), r1)"
proof -
  have "\<exists>r1. rio_ok r1 \<and> unread pend r1 = drop m (unread pend r) \<and>
    rio_readnb_loop rd r m acc = Some (True, m - length (unread pend r), acc @ take m (unread pend r), r1)"
    if "rio_ok r" for m r acc
    using that
  proof (induction m arbitrary: r acc rule: less_induct)
    case (less m)
    show ?case
    proof (cases "m = 0")
      case True
      thus ?thesis using less.prems by (subst rio_readnb_loop.simps) auto
    next
      case False
      then obtain xs r1 where x: "rio_read rd r m = Some (int (length xs), xs, r1)" "rio_ok r1" "unread pend r = xs @ unread pend r1"
        "length xs \<le> m" "xs = [] \<longrightarrow> unread pend r = []" using rio_read_spec[OF rd less.prems] by blast
      show ?thesis
      proof (cases "xs = []")
        case True
        thus ?thesis using x False by (subst rio_readnb_loop.simps) auto
      next
        case ne: False
        hence l: "m - length xs < m" using False by simp
        have e: "rio_readnb_loop rd r m acc = rio_readnb_loop rd r1 (m - length xs) (acc @ xs)"
          using x(1) False ne by (subst rio_readnb_loop.simps) simp
        obtain r2 where i: "rio_ok r2" "unread pend r2 = drop (m - length xs) (unread pend r1)"
          "rio_readnb_loop rd r1 (m - length xs) (acc @ xs) =
             Some (True, m - length xs - length (unread pend r1), (acc @ xs) @ take (m - length xs) (unread pend r1), r2)"
          using less.IH[OF l x(2), of "acc @ xs"] by blast
        show ?thesis unfolding e i(3) x(3) using i(1,2) x(4) by (intro exI[of _ r2]) simp
      qed
    qed
  qed
  from this[OF ok, of n "[]"] obtain r1 where r1: "rio_ok r1" "unread pend r1 = drop n (unread pend r)"
    "rio_readnb_loop rd r n [] = Some (True, n - length (unread pend r), [] @ take n (unread pend r), r1)" by blast
  have "int n - int (n - length (unread pend r)) = int (min n (length (unread pend r)))" by (simp add: min_def)
  thus ?thesis using r1 unfolding rio_readnb_def by (intro exI[of _ r1]) simp
qed

text \<open>An evaluation: five bytes over two pieces.\<close>
theorem rio_readnb_bytes_witness:
  "\<exists>r1. rio_readnb pieces (rio_readinitb [Some ''abc'', None, Some ''defg'']) 5 = Some (5, ''abcde'', r1) \<and> unread pieces_pend r1 = ''fg''"
  using rio_readnb_bytes[OF pieces_reads rio_init_ok(1), of 5 "[Some ''abc'', None, Some ''defg'']"]
  by (auto simp: pieces_pend_def)

end
