(* ===== verification/Request.thy ===== *)
theory Request
  imports Rio
begin

text \<open>
  HTTP requests of the web server (\<^verbatim>\<open>Project4a/request.c\<close>): reading the request, parsing the URI, and the decision what
  to answer.  \<open>st\<close> is the system call \<open>stat\<close>; what is then written to the socket is not modelled, nor is the CGI program.
  The local arrays of \<open>requestHandle\<close> are not initialised; their contents are the arguments \<open>junk\<close>.
\<close>

subsection \<open>Parsing\<close>

abbreviation MAXLINE :: nat where "MAXLINE \<equiv> 8192"

definition CRLF :: string where
  "CRLF = [CHR 0x0D, LF]"

text \<open>\<open>strstr\<close> as a test.\<close>

fun has_sub :: "string \<Rightarrow> string \<Rightarrow> bool" where
  "has_sub k s = (take (length k) s = k \<or> (case s of [] \<Rightarrow> False | _ # t \<Rightarrow> has_sub k t))"

declare has_sub.simps [simp del]

text \<open>
  Static content or not, the file name and the CGI arguments; \<open>None\<close> is an access outside an array: the character before
  an empty URI, or a file name that does not fit its \<open>MAXLINE\<close> bytes.
\<close>

definition requestParseURI :: "string \<Rightarrow> (bool \<times> string \<times> string) option" where
  "requestParseURI uri =
     (let r = (if \<not> has_sub ''cgi'' uri then
                 if uri = [] then None
                 else Some (True, CHR ''.'' # uri @ (if last uri = CHR ''/'' then ''home.html'' else []), [])
               else let p = takeWhile (\<lambda>c. c \<noteq> CHR ''?'') uri
                    in Some (False, CHR ''.'' # p, drop (length p + 1) uri))
      in case r of None \<Rightarrow> None | Some (b, f, a) \<Rightarrow> if MAXLINE \<le> length f then None else r)"

definition requestGetFiletype :: "string \<Rightarrow> string" where
  "requestGetFiletype f =
     (if has_sub ''.html'' f then ''text/html'' else if has_sub ''.gif'' f then ''image/gif''
      else if has_sub ''.jpg'' f then ''image/jpeg'' else ''text/plain'')"

text \<open>\<open>sscanf\<close> with three times \<^verbatim>\<open>%s\<close>: the words of the line, up to a NUL.\<close>

definition is_space :: "char \<Rightarrow> bool" where
  "is_space c \<longleftrightarrow> c \<in> {CHR '' '', CHR 0x09, CHR 0x0A, CHR 0x0B, CHR 0x0C, CHR 0x0D}"

fun scan_words :: "nat \<Rightarrow> string \<Rightarrow> string list" where
  "scan_words 0 s = []"
| "scan_words (Suc k) s =
     (let t = dropWhile is_space s
      in if t = [] then [] else takeWhile (\<lambda>c. \<not> is_space c) t # scan_words k (dropWhile (\<lambda>c. \<not> is_space c) t))"

definition lower :: "char \<Rightarrow> char" where
  "lower c = (let n = (of_char c :: nat) in if 65 \<le> n \<and> n \<le> 90 then char_of (n + 32) else c)"

subsection \<open>Handling\<close>

record fstat =
  regular :: bool
  owner_read :: bool
  owner_exec :: bool
  file_size :: nat

datatype action = ReqError string string | ServeStatic string string nat | ServeDynamic string string

text \<open>How a call ends: it returns, the program exits after an error of \<open>read\<close>, or it leaves an array.\<close>

datatype 'a run = Done 'a | Exited | Crashed

partial_function (option) readhdrs_loop :: "'w reader \<Rightarrow> string \<Rightarrow> 'w rio \<Rightarrow> 'w rio run option" where
  "readhdrs_loop rd buf r =
     (if buf = CRLF then Some (Done r)
      else case rio_readlineb rd r MAXLINE of
          None \<Rightarrow> None
        | Some (rc, b, r1) \<Rightarrow>
            if rc < 0 then Some Exited
            else readhdrs_loop rd (case b of None \<Rightarrow> buf | Some l \<Rightarrow> l) r1)"

definition requestReadhdrs :: "'w reader \<Rightarrow> string \<Rightarrow> 'w rio \<Rightarrow> 'w rio run option" where
  "requestReadhdrs rd junk r =
     (case rio_readlineb rd r MAXLINE of
        None \<Rightarrow> None
      | Some (rc, b, r1) \<Rightarrow>
          if rc < 0 then Some Exited
          else readhdrs_loop rd (case b of None \<Rightarrow> junk | Some l \<Rightarrow> l) r1)"

text \<open>The part of \<open>requestHandle\<close> after the headers.\<close>

definition respond :: "(string \<Rightarrow> fstat option) \<Rightarrow> string \<Rightarrow> action option" where
  "respond st uri =
     (case requestParseURI uri of
        None \<Rightarrow> None
      | Some (is_static, f, cgiargs) \<Rightarrow>
          Some (case st f of
              None \<Rightarrow> ReqError ''404'' f
            | Some sb \<Rightarrow>
                if is_static then
                  if \<not> regular sb \<or> \<not> owner_read sb then ReqError ''403'' f
                  else ServeStatic f (requestGetFiletype f) (file_size sb)
                else
                  if \<not> regular sb \<or> \<not> owner_exec sb then ReqError ''403'' f
                  else ServeDynamic f cgiargs))"

definition nth_or :: "string list \<Rightarrow> nat \<Rightarrow> string \<Rightarrow> string" where
  "nth_or ws i junk = (if i < length ws then ws ! i else junk)"

definition requestHandle :: "'w reader \<Rightarrow> (string \<Rightarrow> fstat option) \<Rightarrow> string \<Rightarrow> 'w rio \<Rightarrow> (action \<times> 'w rio) run option" where
  "requestHandle rd st junk r =
     (case rio_readlineb rd r MAXLINE of
        None \<Rightarrow> None
      | Some (rc, b, r1) \<Rightarrow>
          if rc < 0 then Some Exited
          else
            let buf = takeWhile (\<lambda>c. c \<noteq> CHR 0x00) (case b of None \<Rightarrow> junk | Some l \<Rightarrow> l);
                ws = scan_words 3 buf;
                meth = nth_or ws 0 junk; uri = nth_or ws 1 junk
            in if map lower meth \<noteq> map lower ''GET'' then Some (Done (ReqError ''501'' meth, r1))
               else case requestReadhdrs rd junk r1 of
                   None \<Rightarrow> None
                 | Some Exited \<Rightarrow> Some Exited
                 | Some Crashed \<Rightarrow> Some Crashed
                 | Some (Done r2) \<Rightarrow> Some (case respond st uri of None \<Rightarrow> Crashed | Some a \<Rightarrow> Done (a, r2)))"

subsection \<open>Complete requests and requests that are cut short\<close>

definition is_line :: "string \<Rightarrow> bool" where
  "is_line l \<longleftrightarrow> l \<noteq> [] \<and> last l = LF \<and> LF \<notin> set (butlast l) \<and> length l < MAXLINE"

lemma CRLF_line: "is_line CRLF"
  by (simp add: is_line_def CRLF_def)

lemma line_of_line:
  assumes "is_line l" "length l \<le> k"
  shows "line_of k (l @ rest) = l"
proof -
  obtain u where l: "l = u @ [LF]" and u: "LF \<notin> set u" using assms(1) unfolding is_line_def by (metis append_butlast_last_id)
  have "length u < k \<Longrightarrow> line_of k (u @ LF # rest) = u @ [LF]" using u
  proof (induction u arbitrary: k)
    case Nil
    thus ?case by (cases k) auto
  next
    case (Cons c u)
    thus ?case by (cases k) auto
  qed
  thus ?thesis using assms(2) l by simp
qed

lemma readlineb_line:
  assumes "reads_from rd pend pat" "rio_ok r" "unread pend r = l @ rest" "is_line l"
  shows "\<exists>r1. rio_readlineb rd r MAXLINE = Some (int (length l), Some l, r1) \<and> rio_ok r1 \<and> unread pend r1 = rest"
proof -
  obtain r1 where r1: "rio_ok r1" "unread pend r = line_of (MAXLINE - 1) (unread pend r) @ unread pend r1"
    "rio_readlineb rd r MAXLINE = Some (if line_of (MAXLINE - 1) (unread pend r) = [] then (0, None, r1)
      else (int (length (line_of (MAXLINE - 1) (unread pend r))) + (if last (line_of (MAXLINE - 1) (unread pend r)) = LF then 0 else 1),
        Some (line_of (MAXLINE - 1) (unread pend r)), r1))"
    using rio_readlineb_spec[OF assms(1,2), of MAXLINE] by auto
  have "line_of (MAXLINE - 1) (unread pend r) = l"
    unfolding assms(3) using assms(4) by (intro line_of_line) (auto simp: is_line_def)
  thus ?thesis using r1 assms(3,4) by (auto simp: is_line_def)
qed

lemma readlineb_eof:
  assumes "reads_from rd pend pat" "rio_ok r" "unread pend r = []"
  shows "\<exists>r1. rio_readlineb rd r MAXLINE = Some (0, None, r1) \<and> rio_ok r1 \<and> unread pend r1 = []"
proof -
  have "line_of (MAXLINE - 1) [] = []" by (simp add: eval_nat_numeral)
  thus ?thesis using rio_readlineb_spec[OF assms(1,2), of MAXLINE] assms(3) by auto
qed

lemma readhdrs_loop_headers:
  assumes rd: "reads_from rd pend pat"
  shows "list_all (\<lambda>h. is_line h \<and> h \<noteq> CRLF) hs \<Longrightarrow> rio_ok r \<Longrightarrow> unread pend r = concat hs @ CRLF @ rest \<Longrightarrow> buf \<noteq> CRLF \<Longrightarrow>
    \<exists>r1. readhdrs_loop rd buf r = Some (Done r1) \<and> rio_ok r1 \<and> unread pend r1 = rest"
proof (induction hs arbitrary: r buf)
  case Nil
  obtain r1 where r1: "rio_readlineb rd r MAXLINE = Some (int (length CRLF), Some CRLF, r1)" "rio_ok r1" "unread pend r1 = rest"
    using readlineb_line[OF rd Nil.prems(2) _ CRLF_line, of rest] Nil.prems(3) by auto
  have "readhdrs_loop rd CRLF r1 = Some (Done r1)" by (subst readhdrs_loop.simps) simp
  thus ?case using r1 Nil.prems(4) by (subst readhdrs_loop.simps) simp
next
  case (Cons h hs)
  obtain r1 where r1: "rio_readlineb rd r MAXLINE = Some (int (length h), Some h, r1)" "rio_ok r1"
    "unread pend r1 = concat hs @ CRLF @ rest"
    using readlineb_line[OF rd Cons.prems(2), of h "concat hs @ CRLF @ rest"] Cons.prems(1,3) by auto
  have "h \<noteq> CRLF" "list_all (\<lambda>h. is_line h \<and> h \<noteq> CRLF) hs" using Cons.prems(1) by auto
  from Cons.IH[OF this(2) r1(2,3) this(1)] show ?case
    using r1(1) Cons.prems(4) by (subst readhdrs_loop.simps) simp
qed

text \<open>At the end of the input the buffer keeps its line, and the loop never ends.\<close>

lemma readhdrs_loop_eof:
  assumes rd: "reads_from rd pend pat" and ok: "rio_ok r" "unread pend r = []" and b: "buf \<noteq> CRLF"
  shows "readhdrs_loop rd buf r = None"
proof (rule ccontr)
  assume "readhdrs_loop rd buf r \<noteq> None"
  then obtain y where y: "readhdrs_loop rd buf r = Some y" by blast
  have "\<not> (rio_ok r \<and> unread pend r = [] \<and> buf \<noteq> CRLF)"
  proof (rule readhdrs_loop.raw_induct[of "\<lambda>rd' buf r y. rd' = rd \<longrightarrow> \<not> (rio_ok r \<and> unread pend r = [] \<and> buf \<noteq> CRLF)",
        THEN mp, OF _ y refl])
    fix f rd' buf r y
    assume IH: "\<And>rd' buf r y. f rd' buf r = Some y \<Longrightarrow> rd' = rd \<longrightarrow> \<not> (rio_ok r \<and> unread pend r = [] \<and> buf \<noteq> CRLF)"
      and f: "(if buf = CRLF then Some (Done r)
      else case rio_readlineb rd' r MAXLINE of
          None \<Rightarrow> None
        | Some (rc, b, r1) \<Rightarrow>
            if rc < 0 then Some Exited
            else f rd' (case b of None \<Rightarrow> buf | Some l \<Rightarrow> l) r1) = Some y"
    show "rd' = rd \<longrightarrow> \<not> (rio_ok r \<and> unread pend r = [] \<and> buf \<noteq> CRLF)"
    proof (intro impI notI)
      assume e: "rd' = rd" and o: "rio_ok r \<and> unread pend r = [] \<and> buf \<noteq> CRLF"
      obtain r1 where "rio_readlineb rd r MAXLINE = Some (0, None, r1)" "rio_ok r1" "unread pend r1 = []"
        using readlineb_eof[OF rd] o by blast
      thus False using f IH[of rd buf r1 y] e o by simp
    qed
  qed
  thus False using ok b by blast
qed

lemma readhdrs_loop_cut:
  assumes rd: "reads_from rd pend pat"
  shows "list_all (\<lambda>h. is_line h \<and> h \<noteq> CRLF) hs \<Longrightarrow> rio_ok r \<Longrightarrow> unread pend r = concat hs \<Longrightarrow> buf \<noteq> CRLF \<Longrightarrow>
    readhdrs_loop rd buf r = None"
proof (induction hs arbitrary: r buf)
  case Nil
  thus ?case using readhdrs_loop_eof[OF rd, of r buf] by simp
next
  case (Cons h hs)
  obtain r1 where r1: "rio_readlineb rd r MAXLINE = Some (int (length h), Some h, r1)" "rio_ok r1" "unread pend r1 = concat hs"
    using readlineb_line[OF rd Cons.prems(2), of h "concat hs"] Cons.prems(1,3) by auto
  have "h \<noteq> CRLF" "list_all (\<lambda>h. is_line h \<and> h \<noteq> CRLF) hs" using Cons.prems(1) by auto
  from Cons.IH[OF this(2) r1(2,3) this(1)] show ?case
    using r1(1) Cons.prems(4) by (subst readhdrs_loop.simps) simp
qed

lemma scan_words_nonempty: "w \<in> set (scan_words k s) \<Longrightarrow> w \<noteq> []"
proof (induction k s rule: scan_words.induct)
  case (2 k s)
  show ?case
  proof (cases "dropWhile is_space s")
    case (Cons c t)
    hence "\<not> is_space c" by (metis dropWhile_eq_Cons_conv)
    thus ?thesis using 2 Cons by (auto simp: Let_def)
  qed (use 2 in simp)
qed simp

lemma parseURI_fits:
  assumes "uri \<noteq> []" "length uri + 10 < MAXLINE"
  shows "requestParseURI uri \<noteq> None"
  using assms length_takeWhile_le[of "\<lambda>c. c \<noteq> CHR ''?''" uri] by (auto simp: requestParseURI_def Let_def)

text \<open>The first line of a request: its method and URI.\<close>

definition get_line :: "string \<Rightarrow> string \<Rightarrow> bool" where
  "get_line l uri \<longleftrightarrow> is_line l \<and> CHR 0x00 \<notin> set l \<and>
     (\<exists>m ws. scan_words 3 l = m # uri # ws \<and> map lower m = map lower ''GET'')"

lemma requestHandle_get:
  assumes rd: "reads_from rd pend pat" and r: "rio_ok r" "unread pend r = l @ rest" and l: "get_line l uri"
  shows "\<exists>r1. rio_ok r1 \<and> unread pend r1 = rest \<and> requestHandle rd st junk r =
    (case requestReadhdrs rd junk r1 of None \<Rightarrow> None | Some Exited \<Rightarrow> Some Exited | Some Crashed \<Rightarrow> Some Crashed
     | Some (Done r2) \<Rightarrow> Some (case respond st uri of None \<Rightarrow> Crashed | Some a \<Rightarrow> Done (a, r2)))"
proof -
  obtain r1 where r1: "rio_readlineb rd r MAXLINE = Some (int (length l), Some l, r1)" "rio_ok r1" "unread pend r1 = rest"
    using readlineb_line[OF rd r] l by (auto simp: get_line_def)
  have n: "takeWhile (\<lambda>c. c \<noteq> CHR 0x00) l = l" using l by (auto simp: get_line_def takeWhile_eq_all_conv)
  obtain m ws where w: "scan_words 3 l = m # uri # ws" "map lower m = map lower ''GET''" using l by (auto simp: get_line_def)
  have "requestHandle rd st junk r = (case requestReadhdrs rd junk r1 of None \<Rightarrow> None | Some Exited \<Rightarrow> Some Exited | Some Crashed \<Rightarrow> Some Crashed
     | Some (Done r2) \<Rightarrow> Some (case respond st uri of None \<Rightarrow> Crashed | Some a \<Rightarrow> Done (a, r2)))"
    unfolding requestHandle_def r1(1) option.case prod.case n Let_def w(1) nth_or_def nth_Cons_0 One_nat_def nth_Cons_Suc using w(2) by simp
  thus ?thesis using r1(2,3) by blast
qed

text \<open>
  C31: a complete GET request is answered.  When the input holds the request line, any header lines and the empty line,
  each shorter than \<open>MAXLINE\<close>, then however the bytes arrive the handler returns with the answer for the URI, and has
  read exactly the request.  The answer is 404 for a file that does not exist and 403 for one that is not regular or
  lacks the permission; only files that have it are served.
\<close>
theorem request_answered:
  assumes "reads_from rd pend pat" "rio_ok r" "unread pend r = l @ concat hs @ CRLF @ rest" "get_line l uri"
    "list_all (\<lambda>h. is_line h \<and> h \<noteq> CRLF) hs" "junk \<noteq> CRLF" "length uri + 10 < MAXLINE"
  shows "\<exists>a r2 f. requestHandle rd st junk r = Some (Done (a, r2)) \<and> unread pend r2 = rest \<and> respond st uri = Some a \<and>
    (case a of ReqError c x \<Rightarrow> x = f \<and> (if st f = None then c = ''404'' else c = ''403'')
     | ServeStatic x t n \<Rightarrow> x = f \<and> (\<exists>sb. st f = Some sb \<and> regular sb \<and> owner_read sb \<and> n = file_size sb)
     | ServeDynamic x args \<Rightarrow> x = f \<and> (\<exists>sb. st f = Some sb \<and> regular sb \<and> owner_exec sb))"
proof -
  obtain r1 where r1: "rio_ok r1" "unread pend r1 = concat hs @ CRLF @ rest" "requestHandle rd st junk r =
    (case requestReadhdrs rd junk r1 of None \<Rightarrow> None | Some Exited \<Rightarrow> Some Exited | Some Crashed \<Rightarrow> Some Crashed
     | Some (Done r2) \<Rightarrow> Some (case respond st uri of None \<Rightarrow> Crashed | Some a \<Rightarrow> Done (a, r2)))"
    using requestHandle_get[OF assms(1-4)] by blast
  have "requestReadhdrs rd junk r1 = readhdrs_loop rd junk r1"
    unfolding requestReadhdrs_def using assms(6) by (subst (2) readhdrs_loop.simps) simp
  then obtain r2 where r2: "requestReadhdrs rd junk r1 = Some (Done r2)" "unread pend r2 = rest"
    using readhdrs_loop_headers[OF assms(1,5) r1(1,2) assms(6)] by auto
  have "uri \<noteq> []" using assms(4) scan_words_nonempty[of uri 3 l] by (auto simp: get_line_def)
  then obtain b f args where p: "requestParseURI uri = Some (b, f, args)" using parseURI_fits[of uri] assms(7) by auto
  then obtain a where a: "respond st uri = Some a" by (simp add: respond_def)
  have "case a of ReqError c x \<Rightarrow> x = f \<and> (if st f = None then c = ''404'' else c = ''403'')
     | ServeStatic x t n \<Rightarrow> x = f \<and> (\<exists>sb. st f = Some sb \<and> regular sb \<and> owner_read sb \<and> n = file_size sb)
     | ServeDynamic x args \<Rightarrow> x = f \<and> (\<exists>sb. st f = Some sb \<and> regular sb \<and> owner_exec sb)"
    using a p by (auto simp: respond_def split: option.splits if_splits)
  thus ?thesis using r1(3) r2 a by auto
qed

text \<open>
  A request that is cut short is never finished.  When the input ends before the empty line, for example because the
  client closed the connection, the handler does not return: its thread reads the end of the input for ever.
\<close>
theorem cut_request_hangs:
  assumes "reads_from rd pend pat" "rio_ok r" "unread pend r = l @ concat hs" "get_line l uri"
    "list_all (\<lambda>h. is_line h \<and> h \<noteq> CRLF) hs" "junk \<noteq> CRLF"
  shows "requestHandle rd st junk r = None"
proof -
  obtain r1 where r1: "rio_ok r1" "unread pend r1 = concat hs" "requestHandle rd st junk r =
    (case requestReadhdrs rd junk r1 of None \<Rightarrow> None | Some Exited \<Rightarrow> Some Exited | Some Crashed \<Rightarrow> Some Crashed
     | Some (Done r2) \<Rightarrow> Some (case respond st uri of None \<Rightarrow> Crashed | Some a \<Rightarrow> Done (a, r2)))"
    using requestHandle_get[OF assms(1-4)] by blast
  have "requestReadhdrs rd junk r1 = readhdrs_loop rd junk r1"
    unfolding requestReadhdrs_def using assms(6) by (subst (2) readhdrs_loop.simps) simp
  thus ?thesis using r1(3) readhdrs_loop_cut[OF assms(1,5) r1(1,2) assms(6)] by simp
qed

text \<open>A request and its evaluation; \<open>demo_st\<close> knows one readable file.\<close>

definition demo_get :: string where
  "demo_get = ''GET / HTTP/1.0'' @ CRLF"

definition demo_st :: "string \<Rightarrow> fstat option" where
  "demo_st f = (if f = ''./home.html'' then Some \<lparr>regular = True, owner_read = True, owner_exec = False, file_size = 7\<rparr> else None)"

lemma demo_get_line: "get_line demo_get ''/''"
  unfolding get_line_def is_line_def by (intro conjI exI[of _ "''GET''"] exI[of _ "[''HTTP/1.0'']"]) code_simp+

text \<open>Witness for C39.\<close>
theorem request_answered_witness:
  "\<exists>r2. requestHandle pieces demo_st [] (rio_readinitb [Some demo_get, None, Some CRLF]) =
     Some (Done (ServeStatic ''./home.html'' ''text/html'' 7, r2)) \<and> unread pieces_pend r2 = []"
proof -
  have u: "unread pieces_pend (rio_readinitb [Some demo_get, None, Some CRLF]) = demo_get @ concat [] @ CRLF @ []"
    by (simp add: pieces_pend_def)
  have a: "respond demo_st ''/'' = Some (ServeStatic ''./home.html'' ''text/html'' 7)" by code_simp
  show ?thesis using request_answered[OF pieces_reads rio_init_ok(1) u demo_get_line, of "[]" demo_st] a by (auto simp: CRLF_def)
qed

text \<open>Witness for C40.\<close>
theorem cut_request_hangs_witness:
  "requestHandle pieces demo_st [] (rio_readinitb [Some demo_get, Some (''Host: a'' @ CRLF)]) = None"
proof -
  have u: "unread pieces_pend (rio_readinitb [Some demo_get, Some (''Host: a'' @ CRLF)]) = demo_get @ concat [''Host: a'' @ CRLF]"
    by (simp add: pieces_pend_def)
  have h: "list_all (\<lambda>h. is_line h \<and> h \<noteq> CRLF) [''Host: a'' @ CRLF]" by code_simp
  show ?thesis using cut_request_hangs[OF pieces_reads rio_init_ok(1) u demo_get_line h] by (simp add: CRLF_def)
qed

text \<open>A path may leave the directory of the server, and a long URI that ends with a slash overruns the file name.\<close>

lemma dotdot_is_served: "requestParseURI ''/../secret'' = Some (True, ''./../secret'', [])"
  by code_simp

lemma long_uri_overruns:
  assumes "\<not> has_sub ''cgi'' uri" "uri \<noteq> []" "last uri = CHR ''/''" "8182 \<le> length uri"
  shows "requestParseURI uri = None"
  using assms by (simp add: requestParseURI_def)

end
