(* ===== verification/Console.thy ===== *)
theory Console
  imports Prelude
begin

text \<open>
  Console input (\<^verbatim>\<open>Project5b/xv6/kernel/console.c\<close>): the ring of 128 bytes between the keyboard interrupt and the readers,
  with three free-running indices.  Bytes from \<open>ir\<close> to \<open>iw\<close> are complete lines, those from \<open>iw\<close> to \<open>ie\<close> the line that is
  being edited.  \<open>consoleintr\<close> gets the characters that \<open>getc\<close> returns until it is negative; what is echoed is the list of
  arguments of \<open>consputc\<close>.  A pass of \<open>consoleread\<close> ends when it returns or sleeps.
\<close>

subsection \<open>The code\<close>

record input =
  ibuf :: "u8 list"
  ir :: u32
  iw :: u32
  ie :: u32

abbreviation INPUT_BUF :: u32 where "INPUT_BUF \<equiv> 128"
abbreviation BACKSPACE :: int where "BACKSPACE \<equiv> 0x100"

definition ctl :: "int \<Rightarrow> int" where
  "ctl x = x - 64"

definition slot :: "u32 \<Rightarrow> nat" where
  "slot i = unat (i mod INPUT_BUF)"

function kill_line :: "input \<Rightarrow> int list \<Rightarrow> input \<times> int list" where
  "kill_line s out =
     (if ie s \<noteq> iw s \<and> ibuf s ! slot (ie s - 1) \<noteq> 10
      then kill_line (s\<lparr>ie := ie s - 1\<rparr>) (out @ [BACKSPACE]) else (s, out))"
  by pat_completeness auto
termination
proof (relation "measure (\<lambda>(s, out). unat (ie s - iw s))", goal_cases)
  case (2 s out)
  hence "ie s - iw s \<noteq> 0" by simp
  hence "unat (ie s - iw s - 1) < unat (ie s - iw s)" by (simp add: measure_unat)
  thus ?case by (simp add: algebra_simps)
qed simp

declare kill_line.simps [simp del]

text \<open>One character; the last component tells whether the readers are woken.\<close>

definition console_key :: "int \<Rightarrow> input \<Rightarrow> input \<times> int list \<times> bool" where
  "console_key c s =
     (if c = ctl 80 then (s, [], False)
      else if c = ctl 85 then (case kill_line s [] of (s1, out) \<Rightarrow> (s1, out, False))
      else if c = ctl 72 \<or> c = 0x7f then
        (if ie s \<noteq> iw s then (s\<lparr>ie := ie s - 1\<rparr>, [BACKSPACE], False) else (s, [], False))
      else if c \<noteq> 0 \<and> ie s - ir s < INPUT_BUF then
        let c1 = (if c = 13 then 10 else c);
            s1 = s\<lparr>ibuf := (ibuf s)[slot (ie s) := word_of_int c1], ie := ie s + 1\<rparr>
        in if c1 = 10 \<or> c1 = ctl 68 \<or> ie s1 = ir s1 + INPUT_BUF then (s1\<lparr>iw := ie s1\<rparr>, [c1], True)
           else (s1, [c1], False)
      else (s, [], False))"

fun consoleintr :: "int list \<Rightarrow> input \<Rightarrow> int list \<Rightarrow> bool \<Rightarrow> input \<times> int list \<times> bool" where
  "consoleintr [] s out wake = (s, out, wake)"
| "consoleintr (c # cs) s out wake =
     (if c < 0 then (s, out, wake)
      else case console_key c s of (s1, out1, w) \<Rightarrow> consoleintr cs s1 (out @ out1) (wake \<or> w))"

datatype cread = CDone "u8 list" | CKilled | CAsleep nat "u8 list"

text \<open>\<open>target\<close> bytes were asked for and \<open>n\<close> of them are still missing.\<close>

fun consoleread :: "bool \<Rightarrow> nat \<Rightarrow> nat \<Rightarrow> u8 list \<Rightarrow> input \<Rightarrow> cread \<times> input" where
  "consoleread killed target 0 acc s = (CDone acc, s)"
| "consoleread killed target (Suc n) acc s =
     (if ir s = iw s then (if killed then (CKilled, s) else (CAsleep (Suc n) acc, s))
      else let c = ibuf s ! slot (ir s); s1 = s\<lparr>ir := ir s + 1\<rparr>
           in if c = 4 then (CDone acc, if Suc n < target then s1\<lparr>ir := ir s1 - 1\<rparr> else s1)
              else if c = 10 then (CDone (acc @ [c]), s1)
              else consoleread killed target n (acc @ [c]) s1)"

subsection \<open>The line editor it implements\<close>

text \<open>Complete input that no one has read yet, and the line being typed.\<close>

type_synonym lines = "u8 list \<times> u8 list"

definition edit_key :: "int \<Rightarrow> lines \<Rightarrow> lines \<times> int list \<times> bool" where
  "edit_key c l =
     (case l of (cm, line) \<Rightarrow>
        if c = ctl 80 then ((cm, line), [], False)
        else if c = ctl 85 then ((cm, []), replicate (length line) BACKSPACE, False)
        else if c = ctl 72 \<or> c = 0x7f then ((cm, butlast line), if line = [] then [] else [BACKSPACE], False)
        else if c \<noteq> 0 \<and> length cm + length line < 128 then
          let c1 = (if c = 13 then 10 else c); line1 = line @ [word_of_int c1]
          in if c1 = 10 \<or> c1 = ctl 68 \<or> length cm + length line1 = 128 then ((cm @ line1, []), [c1], True)
             else ((cm, line1), [c1], False)
        else ((cm, line), [], False))"

fun edit_keys :: "int list \<Rightarrow> lines \<Rightarrow> int list \<Rightarrow> bool \<Rightarrow> lines \<times> int list \<times> bool" where
  "edit_keys [] l out wake = (l, out, wake)"
| "edit_keys (c # cs) l out wake =
     (if c < 0 then (l, out, wake)
      else case edit_key c l of (l1, out1, w) \<Rightarrow> edit_keys cs l1 (out @ out1) (wake \<or> w))"

fun take_line :: "bool \<Rightarrow> nat \<Rightarrow> nat \<Rightarrow> u8 list \<Rightarrow> u8 list \<Rightarrow> cread \<times> u8 list" where
  "take_line killed target 0 acc cm = (CDone acc, cm)"
| "take_line killed target (Suc n) acc [] = (if killed then CKilled else CAsleep (Suc n) acc, [])"
| "take_line killed target (Suc n) acc (c # cm) =
     (if c = 4 then (CDone acc, if Suc n < target then c # cm else cm)
      else if c = 10 then (CDone (acc @ [c]), cm)
      else take_line killed target n (acc @ [c]) cm)"

subsection \<open>Refinement\<close>

text \<open>The \<open>n\<close> bytes from index \<open>a\<close> on.\<close>

definition ring_bytes :: "u8 list \<Rightarrow> u32 \<Rightarrow> nat \<Rightarrow> u8 list" where
  "ring_bytes b a n = map (\<lambda>k. b ! slot (a + of_nat k)) [0..<n]"

definition con_lines :: "input \<Rightarrow> lines" where
  "con_lines s = (ring_bytes (ibuf s) (ir s) (unat (iw s - ir s)), ring_bytes (ibuf s) (iw s) (unat (ie s - iw s)))"

definition con_ok :: "input \<Rightarrow> bool" where
  "con_ok s \<longleftrightarrow> length (ibuf s) = 128 \<and> unat (iw s - ir s) + unat (ie s - iw s) \<le> 128 \<and> 10 \<notin> set (snd (con_lines s))"

lemma cslot_add: "slot (a + of_nat k) = (slot a + k) mod 128"
proof -
  have "unat (a + of_nat k) mod 128 = ((unat a + k) mod 2 ^ 32) mod 128"
    by (simp add: unat_word_ariths unat_of_nat mod_simps)
  also have "\<dots> = (unat a + k) mod 128" by (rule mod_mod_cancel) simp
  finally show ?thesis by (simp add: slot_def unat_mod mod_simps)
qed

lemma cslot_lt [simp]: "slot a < 128"
  by (simp add: slot_def unat_mod)

lemma length_ring [simp]: "length (ring_bytes b a n) = n"
  by (simp add: ring_bytes_def)

lemma ring_bytes_Suc: "ring_bytes b a (Suc n) = ring_bytes b a n @ [b ! slot (a + of_nat n)]"
  by (simp add: ring_bytes_def)

lemma ring_bytes_Cons: "ring_bytes b a (Suc n) = b ! slot a # ring_bytes b (a + 1) n"
  by (simp add: ring_bytes_def map_upt_Suc algebra_simps del: upt_Suc)

lemma ring_bytes_append: "ring_bytes b a (m + n) = ring_bytes b a m @ ring_bytes b (a + of_nat m) n"
  by (induction n) (simp_all add: ring_bytes_Suc algebra_simps, simp add: ring_bytes_def)

lemma ring_bytes_upd:
  assumes "n \<le> k" "k < 128"
  shows "ring_bytes (b[slot (a + of_nat k) := x]) a n = ring_bytes b a n"
proof -
  have "slot (a + of_nat i) \<noteq> slot (a + of_nat k)" if "i < n" for i
  proof
    assume "slot (a + of_nat i) = slot (a + of_nat k)"
    hence "(slot a + i) mod 128 = (slot a + k) mod 128" by (simp only: cslot_add)
    hence "(k - i) mod 128 = 0" using that assms by (metis add_diff_cancel_left le_trans less_imp_le mod_eq_dvd_iff_nat nat_add_left_cancel_le dvd_imp_mod_0)
    thus False using that assms by simp
  qed
  thus ?thesis by (auto simp: ring_bytes_def) (metis nth_list_update_neq)
qed

lemma unat_index_pred:
  fixes e w :: u32
  assumes "e \<noteq> w"
  shows "unat (e - w) = Suc (unat (e - 1 - w))"
proof -
  have "e - w \<noteq> 0" using assms by simp
  hence "unat (e - w) = Suc (unat (e - w - 1))" by (metis Suc_pred' measure_unat unat_gt_0 unat_minus_one)
  thus ?thesis by (simp add: algebra_simps)
qed

lemma unat_index_suc:
  fixes e w :: u32
  assumes "unat (e - w) < 128"
  shows "unat (e + 1 - w) = Suc (unat (e - w))"
proof -
  have "unat (e - w + 1) = Suc (unat (e - w))" using assms by (simp add: unat_plus32)
  thus ?thesis by (simp add: algebra_simps)
qed

lemma index_plus: "w + word_of_nat (unat (e - w)) = e" for e w :: u32
  by simp

lemma unat_full:
  assumes "con_ok s"
  shows "unat (ie s - ir s) = unat (iw s - ir s) + unat (ie s - iw s)"
proof -
  have "unat (ie s - ir s) = unat ((iw s - ir s) + (ie s - iw s))" by simp
  also have "\<dots> = unat (iw s - ir s) + unat (ie s - iw s)"
    using assms by (intro unat_plus32) (simp add: con_ok_def)
  finally show ?thesis .
qed

lemma ring_line_pred:
  assumes "e \<noteq> w"
  shows "ring_bytes b w (unat (e - w)) = ring_bytes b w (unat (e - 1 - w)) @ [b ! slot (e - 1)]"
proof -
  have "ring_bytes b w (unat (e - w)) = ring_bytes b w (unat (e - 1 - w)) @ [b ! slot (w + of_nat (unat (e - 1 - w)))]"
    by (simp only: unat_index_pred [OF assms] ring_bytes_Suc)
  thus ?thesis by (simp only: index_plus)
qed

lemma back_one:
  assumes "con_ok s" "ie s \<noteq> iw s"
  shows "con_ok (s\<lparr>ie := ie s - 1\<rparr>)"
    and "con_lines (s\<lparr>ie := ie s - 1\<rparr>) = (fst (con_lines s), butlast (snd (con_lines s)))"
    and "snd (con_lines s) \<noteq> []" and "ibuf s ! slot (ie s - 1) \<noteq> 10"
  using assms ring_line_pred [OF assms(2), of "ibuf s"] unat_index_pred [OF assms(2)]
  by (auto simp: con_ok_def con_lines_def)

lemma kill_line_kills:
  assumes "con_ok s"
  shows "kill_line s out = (s\<lparr>ie := iw s\<rparr>, out @ replicate (unat (ie s - iw s)) BACKSPACE)"
  using assms
proof (induction s out rule: kill_line.induct)
  case (1 s out)
  show ?case
  proof (cases "ie s = iw s")
    case True
    hence "kill_line s out = (s, out)" by (simp add: kill_line.simps)
    thus ?thesis using True by simp
  next
    case False
    note b = back_one [OF "1.prems" False]
    have "kill_line s out = kill_line (s\<lparr>ie := ie s - 1\<rparr>) (out @ [BACKSPACE])"
      using False b(4) by (subst kill_line.simps) simp
    also have "\<dots> = (s\<lparr>ie := iw s\<rparr>, out @ [BACKSPACE] @ replicate (unat (ie s - 1 - iw s)) BACKSPACE)"
      using "1.IH" False b(1,4) by simp
    finally show ?thesis by (simp add: unat_index_pred [OF False])
  qed
qed

lemma con_ok_kill: "con_ok s \<Longrightarrow> con_ok (s\<lparr>ie := iw s\<rparr>) \<and> con_lines (s\<lparr>ie := iw s\<rparr>) = (fst (con_lines s), [])"
  by (simp add: con_ok_def con_lines_def ring_bytes_def)

text \<open>Storing a byte at the edit index.\<close>

definition store_key :: "u8 \<Rightarrow> input \<Rightarrow> input" where
  "store_key x s = s\<lparr>ibuf := (ibuf s)[slot (ie s) := x], ie := ie s + 1\<rparr>"

lemma store_key_lines:
  assumes "con_ok s" "unat (ie s - ir s) < 128"
  shows "con_lines (store_key x s) = (fst (con_lines s), snd (con_lines s) @ [x])"
    and "unat (iw s - ir s) + unat (ie (store_key x s) - iw s) \<le> 128"
    and "length (ibuf (store_key x s)) = 128"
proof -
  let ?R = "unat (iw s - ir s)" and ?D = "unat (ie s - iw s)"
  have full: "?R + ?D < 128" using unat_full [OF assms(1)] assms(2) by simp
  have D: "unat (ie s + 1 - iw s) = Suc ?D" using full by (intro unat_index_suc) simp
  have ends: "ie s = ir s + of_nat (?R + ?D)" by (metis index_plus unat_full [OF assms(1)])
  have r: "ring_bytes ((ibuf s)[slot (ie s) := x]) (ir s) ?R = ring_bytes (ibuf s) (ir s) ?R"
    by (subst ends, rule ring_bytes_upd) (use full in simp_all)
  have endw: "ie s = iw s + of_nat ?D" by (simp only: index_plus)
  have w: "ring_bytes ((ibuf s)[slot (ie s) := x]) (iw s) ?D = ring_bytes (ibuf s) (iw s) ?D"
    by (subst endw, rule ring_bytes_upd) (use full in simp_all)
  have len: "length (ibuf s) = 128" using assms(1) by (simp add: con_ok_def)
  have last: "(ibuf s)[slot (ie s) := x] ! slot (ie s) = x"
    by (rule nth_list_update_eq) (simp only: len cslot_lt)
  show "con_lines (store_key x s) = (fst (con_lines s), snd (con_lines s) @ [x])"
    by (simp add: con_lines_def store_key_def r D ring_bytes_Suc w last)
  show "?R + unat (ie (store_key x s) - iw s) \<le> 128"
    using full by (simp add: store_key_def D)
  show "length (ibuf (store_key x s)) = 128" by (simp add: store_key_def len)
qed


lemma store_key_ok:
  assumes "con_ok s" "unat (ie s - ir s) < 128" "x \<noteq> 10"
  shows "con_ok (store_key x s)"
proof -
  note l = store_key_lines [OF assms(1,2), of x]
  have "iw (store_key x s) = iw s" "ir (store_key x s) = ir s" by (simp_all add: store_key_def)
  thus ?thesis using l assms by (simp add: con_ok_def)
qed

text \<open>Making the line readable.\<close>

lemma publish_lines:
  assumes "unat (iw s - ir s) + unat (ie s - iw s) \<le> 128" "length (ibuf s) = 128"
  shows "con_lines (s\<lparr>iw := ie s\<rparr>) = (fst (con_lines s) @ snd (con_lines s), []) \<and> con_ok (s\<lparr>iw := ie s\<rparr>)"
proof -
  have "unat (ie s - ir s) = unat ((iw s - ir s) + (ie s - iw s))" by simp
  also have "\<dots> = unat (iw s - ir s) + unat (ie s - iw s)"
    using assms by (intro unat_plus32) simp
  finally have f: "unat (ie s - ir s) = unat (iw s - ir s) + unat (ie s - iw s)" .
  have "ring_bytes (ibuf s) (ir s) (unat (ie s - ir s)) = fst (con_lines s) @ snd (con_lines s)"
    by (simp only: f ring_bytes_append con_lines_def fst_conv snd_conv) (simp only: index_plus)
  thus ?thesis using assms f by (simp add: con_ok_def con_lines_def ring_bytes_def)
qed

lemma lines_len:
  assumes "con_ok s"
  shows "length (fst (con_lines s)) + length (snd (con_lines s)) = unat (ie s - ir s)"
  by (simp add: con_lines_def unat_full [OF assms])

text \<open>The test \<open>input.e == input.r + INPUT_BUF\<close>.\<close>

lemma full_test: "e = r + 128 \<longleftrightarrow> unat (e - r) = 128" for e r :: u32
proof
  assume "unat (e - r) = 128"
  hence "e - r = 128" by (simp add: word_unat_eq_iff)
  thus "e = r + 128" by (simp add: algebra_simps)
qed simp

lemma console_key_refines:
  assumes ok: "con_ok s" and c: "0 \<le> c" "c < 256"
  shows "\<exists>s1 out w. console_key c s = (s1, out, w) \<and> edit_key c (con_lines s) = (con_lines s1, out, w) \<and> con_ok s1"
proof -
  obtain cm line where l: "con_lines s = (cm, line)" by fastforce
  have len: "length cm + length line = unat (ie s - ir s)" using lines_len [OF ok] l by simp
  have line: "length line = unat (ie s - iw s)" using l by (auto simp: con_lines_def)
  show ?thesis
  proof (cases "c = ctl 80 \<or> c = ctl 85 \<or> c = ctl 72 \<or> c = 0x7f")
    case True
    have empty: "line = [] \<longleftrightarrow> ie s = iw s" using line by (auto simp: unat_eq_0)
    consider (P) "c = ctl 80" | (U) "c = ctl 85" | (H) "c = ctl 72 \<or> c = 0x7f" using True by blast
    thus ?thesis
    proof cases
      case P
      thus ?thesis using ok by (auto simp: console_key_def edit_key_def l)
    next
      case U
      hence "console_key c s = (s\<lparr>ie := iw s\<rparr>, replicate (length line) BACKSPACE, False)"
        by (simp add: console_key_def ctl_def kill_line_kills [OF ok] line)
      moreover have "edit_key c (con_lines s) = ((cm, []), replicate (length line) BACKSPACE, False)"
        using U by (simp add: edit_key_def l ctl_def)
      ultimately show ?thesis using con_ok_kill [OF ok] l by auto
    next
      case H
      show ?thesis
      proof (cases "ie s = iw s")
        case True
        thus ?thesis using H ok empty l by (auto simp: console_key_def edit_key_def ctl_def)
      next
        case False
        have "console_key c s = (s\<lparr>ie := ie s - 1\<rparr>, [BACKSPACE], False)"
          using H False by (auto simp: console_key_def ctl_def)
        moreover have "edit_key c (con_lines s) = ((cm, butlast line), [BACKSPACE], False)"
          using H False empty by (auto simp: edit_key_def ctl_def l)
        ultimately show ?thesis using back_one(1,2) [OF ok False] l by auto
      qed
    qed
  next
    case False
    note keys = False
    define c1 where "c1 = (if c = 13 then 10 else c)"
    define s1 where "s1 = store_key (word_of_int c1) s"
    show ?thesis
    proof (cases "c \<noteq> 0 \<and> unat (ie s - ir s) < 128")
      case False
      hence "\<not> (c \<noteq> 0 \<and> ie s - ir s < INPUT_BUF)" by (simp add: word_less_nat_alt)
      hence "console_key c s = (s, [], False)" using keys by (simp only: console_key_def de_Morgan_disj simp_thms if_False)
      moreover have "edit_key c (con_lines s) = ((cm, line), [], False)"
        using False keys len by (simp only: edit_key_def de_Morgan_disj simp_thms if_False l prod.case)
      ultimately show ?thesis using ok l by auto
    next
      case True
      note st = store_key_lines [OF ok conjunct2 [OF True], of "word_of_int c1"]
      have frame: "iw s1 = iw s" "ir s1 = ir s" by (simp_all add: s1_def store_key_def)
      have k: "console_key c s = (if c1 = 10 \<or> c1 = ctl 68 \<or> ie s1 = ir s1 + INPUT_BUF then (s1\<lparr>iw := ie s1\<rparr>, [c1], True)
                                  else (s1, [c1], False))"
        using True keys by (simp only: console_key_def Let_def c1_def s1_def store_key_def word_less_nat_alt de_Morgan_disj simp_thms if_False) simp
      have e: "edit_key c (con_lines s) = (if c1 = 10 \<or> c1 = ctl 68 \<or> length cm + Suc (length line) = 128
          then ((cm @ line @ [word_of_int c1], []), [c1], True) else ((cm, line @ [word_of_int c1]), [c1], False))"
        using True keys len by (simp add: edit_key_def Let_def c1_def l)
      have l1: "con_lines s1 = (cm, line @ [word_of_int c1])" using st(1) l by (simp add: s1_def)
      have "unat (ie s + 1 - ir s) = Suc (unat (ie s - ir s))" using True by (intro unat_index_suc) simp
      hence f: "ie s1 = ir s1 + INPUT_BUF \<longleftrightarrow> length cm + Suc (length line) = 128"
        using len by (simp only: full_test frame) (simp add: s1_def store_key_def)
      show ?thesis
      proof (cases "c1 = 10 \<or> c1 = ctl 68 \<or> length cm + Suc (length line) = 128")
        case True
        have "con_lines (s1\<lparr>iw := ie s1\<rparr>) = (fst (con_lines s1) @ snd (con_lines s1), []) \<and> con_ok (s1\<lparr>iw := ie s1\<rparr>)"
          using st(2,3) frame by (intro publish_lines) (simp_all add: s1_def)
        thus ?thesis using k e l1 True f by auto
      next
        case False
        have "(word_of_int c1 :: u8) \<noteq> 10"
        proof
          assume "(word_of_int c1 :: u8) = 10"
          hence "uint (word_of_int c1 :: u8) = 10" by simp
          moreover have "uint (word_of_int c1 :: u8) = c1"
            using c by (simp add: unsigned_of_int take_bit_int_eq_self c1_def)
          ultimately show False using False by simp
        qed
        hence "con_ok s1" using ok True unfolding s1_def by (intro store_key_ok) simp_all
        thus ?thesis using k e l1 False f by auto
      qed
    qed
  qed
qed

lemma consoleintr_refines:
  assumes "con_ok s" "\<forall>c \<in> set cs. c < 256"
  shows "\<exists>s1 out1 w1. consoleintr cs s out w = (s1, out1, w1) \<and> edit_keys cs (con_lines s) out w = (con_lines s1, out1, w1) \<and> con_ok s1"
  using assms
proof (induction cs arbitrary: s out w)
  case (Cons c cs)
  show ?case
  proof (cases "c < 0")
    case False
    then obtain s1 out1 w1 where k: "console_key c s = (s1, out1, w1)"
      "edit_key c (con_lines s) = (con_lines s1, out1, w1)" "con_ok s1"
      using console_key_refines [OF Cons.prems(1), of c] Cons.prems(2) by auto
    show ?thesis using Cons.IH [OF k(3), of "out @ out1" "w \<or> w1"] Cons.prems(2) k False by simp
  qed (use Cons.prems in simp)
qed simp

lemma take_byte:
  assumes "con_ok s" "ir s \<noteq> iw s"
  shows "con_ok (s\<lparr>ir := ir s + 1\<rparr>)"
    and "con_lines s = (ibuf s ! slot (ir s) # fst (con_lines (s\<lparr>ir := ir s + 1\<rparr>)), snd (con_lines (s\<lparr>ir := ir s + 1\<rparr>)))"
proof -
  have n: "unat (iw s - ir s) = Suc (unat (iw s - (ir s + 1)))"
    using unat_index_pred [of "iw s" "ir s"] assms(2) by (simp add: algebra_simps)
  show l: "con_lines s = (ibuf s ! slot (ir s) # fst (con_lines (s\<lparr>ir := ir s + 1\<rparr>)), snd (con_lines (s\<lparr>ir := ir s + 1\<rparr>)))"
    by (simp add: con_lines_def n ring_bytes_Cons)
  have "unat (iw s - (ir s + 1)) + unat (ie s - iw s) \<le> 128" using assms(1) n by (simp add: con_ok_def)
  thus "con_ok (s\<lparr>ir := ir s + 1\<rparr>)" using assms(1) by (simp add: con_ok_def con_lines_def)
qed

lemma consoleread_refines:
  assumes "con_ok s"
  shows "\<exists>r s1. consoleread killed target n acc s = (r, s1) \<and> con_ok s1 \<and> snd (con_lines s1) = snd (con_lines s)
    \<and> take_line killed target n acc (fst (con_lines s)) = (r, fst (con_lines s1))"
  using assms
proof (induction n arbitrary: s acc)
  case (Suc n)
  show ?case
  proof (cases "ir s = iw s")
    case True
    hence "fst (con_lines s) = []" by (simp add: con_lines_def ring_bytes_def)
    thus ?thesis using True Suc.prems by simp
  next
    case False
    define c where "c = ibuf s ! slot (ir s)"
    define s1 where "s1 = s\<lparr>ir := ir s + 1\<rparr>"
    have s: "con_ok s1" "con_lines s = (c # fst (con_lines s1), snd (con_lines s1))"
      using take_byte [OF Suc.prems False] by (simp_all add: s1_def c_def)
    have unread: "s1\<lparr>ir := ir s1 - 1\<rparr> = s" by (simp add: s1_def)
    have r: "consoleread killed target (Suc n) acc s =
        (if c = 4 then (CDone acc, if Suc n < target then s else s1)
         else if c = 10 then (CDone (acc @ [c]), s1) else consoleread killed target n (acc @ [c]) s1)"
      using False by (simp only: consoleread.simps Let_def if_False c_def [symmetric] s1_def [symmetric] unread)
    have t: "take_line killed target (Suc n) acc (fst (con_lines s)) =
        (if c = 4 then (CDone acc, if Suc n < target then fst (con_lines s) else fst (con_lines s1))
         else if c = 10 then (CDone (acc @ [c]), fst (con_lines s1)) else take_line killed target n (acc @ [c]) (fst (con_lines s1)))"
      using s(2) by simp
    have same: "snd (con_lines s1) = snd (con_lines s)" using s(2) by simp
    consider "c = 4" | "c \<noteq> 4" "c = 10" | "c \<noteq> 4" "c \<noteq> 10" by blast
    thus ?thesis
    proof cases
      case 3
      thus ?thesis using Suc.IH [OF s(1), of "acc @ [c]"] r t same by simp
    qed (use r t same s(1) Suc.prems in auto)
  qed
qed simp

subsection \<open>Any sequence of interrupts and reads\<close>

datatype con_event = Typed "int list" | Reader bool nat nat "u8 list"

datatype con_answer = Echo "int list" bool | Got cread

fun console_run :: "con_event list \<Rightarrow> input \<Rightarrow> con_answer list \<times> input" where
  "console_run [] s = ([], s)"
| "console_run (Typed cs # es) s =
     (case consoleintr cs s [] False of (s1, out, w) \<Rightarrow>
        case console_run es s1 of (as, s2) \<Rightarrow> (Echo out w # as, s2))"
| "console_run (Reader k t n acc # es) s =
     (case consoleread k t n acc s of (r, s1) \<Rightarrow>
        case console_run es s1 of (as, s2) \<Rightarrow> (Got r # as, s2))"

fun edit_run :: "con_event list \<Rightarrow> lines \<Rightarrow> con_answer list \<times> lines" where
  "edit_run [] l = ([], l)"
| "edit_run (Typed cs # es) l =
     (case edit_keys cs l [] False of (l1, out, w) \<Rightarrow>
        case edit_run es l1 of (as, l2) \<Rightarrow> (Echo out w # as, l2))"
| "edit_run (Reader k t n acc # es) (cm, line) =
     (case take_line k t n acc cm of (r, cm1) \<Rightarrow>
        case edit_run es (cm1, line) of (as, l2) \<Rightarrow> (Got r # as, l2))"

fun bytes_typed :: "con_event \<Rightarrow> bool" where
  "bytes_typed (Typed cs) = list_all (\<lambda>c. c < 256) cs"
| "bytes_typed (Reader k t n acc) = True"

text \<open>The static variable \<open>input\<close> at boot.\<close>

definition input0 :: input where
  "input0 = \<lparr>ibuf = replicate 128 0, ir = 0, iw = 0, ie = 0\<rparr>"

text \<open>C32: Whatever the keyboard and the readers do, in any order, the ring of 128 bytes behaves like the line editor on a list of
  complete bytes and a line being typed: the same echo, the same wake-ups, the same bytes handed to each reader, with the three
  indices wrapping around.\<close>

theorem console_refines:
  assumes "con_ok s" "list_all bytes_typed es"
  shows "edit_run es (con_lines s) = (fst (console_run es s), con_lines (snd (console_run es s))) \<and> con_ok (snd (console_run es s))"
  using assms
proof (induction es arbitrary: s)
  case (Cons e es)
  show ?case
  proof (cases e)
    case (Typed cs)
    have "\<forall>c \<in> set cs. c < 256" using Cons.prems(2) Typed by (simp add: list_all_iff)
    then obtain s1 out w where "consoleintr cs s [] False = (s1, out, w)"
      "edit_keys cs (con_lines s) [] False = (con_lines s1, out, w)" "con_ok s1"
      using consoleintr_refines [OF Cons.prems(1)] by metis
    thus ?thesis using Cons.IH [of s1] Cons.prems(2) Typed by (auto split: prod.split)
  next
    case (Reader k t n acc)
    obtain cm line where l: "con_lines s = (cm, line)" by fastforce
    obtain r s1 where "consoleread k t n acc s = (r, s1)" "con_ok s1" "snd (con_lines s1) = line"
      "take_line k t n acc cm = (r, fst (con_lines s1))"
      using consoleread_refines [OF Cons.prems(1), of k t n acc] l by auto
    thus ?thesis using Cons.IH [of s1] Cons.prems(2) Reader l by (cases "con_lines s1") (auto split: prod.split)
  qed
qed simp

lemma console_refines_witness:
  "edit_run [Typed [97, 98, 8, 99, 13], Reader False 4 4 []] ([], []) =
     ([Echo [97, 98, 0x100, 99, 10] True, Got (CDone [97, 99, 10])], ([], []))
   \<and> con_ok (snd (console_run [Typed [97, 98, 8, 99, 13], Reader False 4 4 []] input0))"
proof -
  let ?es = "[Typed [97, 98, 8, 99, 13], Reader False 4 4 []]"
  have "con_ok input0" by (simp add: con_ok_def input0_def con_lines_def ring_bytes_def)
  from console_refines [OF this, of ?es]
  have "con_ok (snd (console_run ?es input0))" by simp
  moreover have "edit_run ?es ([], []) = ([Echo [97, 98, 0x100, 99, 10] True, Got (CDone [97, 99, 10])], ([], []))"
    by code_simp
  ultimately show ?thesis by simp
qed

end
