(* ===== verification/VmUser.thy ===== *)
theory VmUser
  imports Vm
begin

text \<open>
  The memory of a process as the process sees it.  \<open>uspace\<close> relates a page directory to the physical pages behind the
  user addresses below \<open>USERTOP\<close>, and \<open>umem\<close> is the partial map from user addresses to bytes they hold.  Growing, shrinking,
  copying and releasing an address space (\<^verbatim>\<open>allocuvm\<close>, \<^verbatim>\<open>deallocuvm\<close>, \<^verbatim>\<open>copyuvm\<close>, \<^verbatim>\<open>freevm\<close>, \<^verbatim>\<open>copyout\<close>) are shown to be
  the expected operations on that map, to touch no other page, and to neither lose nor duplicate a page.
\<close>

subsection \<open>Page numbers\<close>

abbreviation pg :: "nat \<Rightarrow> u32" where "pg k \<equiv> of_nat k * PGSIZE"

lemma pg_unat: "k < 1048576 \<Longrightarrow> unat (pg k) = k * 4096"
  by (simp add: PGSIZE_def unat_word_ariths unat_of_nat)

lemma pg_Suc: "pg (Suc k) = pg k + PGSIZE"
  by (simp add: algebra_simps)

lemma pg_add: "pg j + pg k = pg (j + k)"
  by (simp add: algebra_simps)

lemma pg_aligned: "k < 1048576 \<Longrightarrow> aligned 4096 (pg k)"
  by (simp add: aligned_def pg_unat)

lemma pg_drop: "k < 1048576 \<Longrightarrow> drop_bit 12 (pg k) = of_nat k"
  by (simp only: word_unat_eq_iff unat_drop_bit_eq) (simp add: drop_bit_eq_div pg_unat unat_of_nat)

lemma pg_drop_eq: "k < 1048576 \<Longrightarrow> j < 1048576 \<Longrightarrow> drop_bit 12 (pg k) = drop_bit 12 (pg j) \<longleftrightarrow> k = j"
  by (simp add: pg_drop word_unat_eq_iff unat_of_nat)

lemma pg_PDX: "k < 1024 \<Longrightarrow> PDX (pg k) = 0"
proof -
  assume k: "k < 1024"
  have "drop_bit 22 (pg k) = (0 :: u32)"
    using k by (simp only: word_unat_eq_iff unat_drop_bit_eq) (simp add: drop_bit_eq_div pg_unat)
  thus ?thesis by (simp add: PDX_def)
qed

lemma pg_PTX: "k < 1024 \<Longrightarrow> PTX (pg k) = of_nat k"
proof -
  assume k: "k < 1024"
  have "(0x3FF :: u32) = mask 10" by (simp add: mask_eq_exp_minus_1)
  hence "PTX (pg k) = take_bit 10 (of_nat k)" using k by (simp only: PTX_def pg_drop take_bit_eq_mask)
  also have "\<dots> = of_nat k" using k by (simp add: word_unat_eq_iff unsigned_take_bit_eq unat_of_nat take_bit_nat_eq_self)
  finally show ?thesis .
qed

definition pages :: "u32 \<Rightarrow> nat" where
  "pages sz = (unat sz + 4095) div 4096"

lemma PGROUNDUP_pg:
  assumes "sz \<le> PHYSTOP"
  shows "PGROUNDUP sz = pg (pages sz)"
proof -
  have "pages sz < 1048576" using assms by (simp add: pages_def PHYSTOP_def word_le_nat_alt)
  thus ?thesis by (simp add: word_unat_eq_iff PGROUNDUP_unat [OF assms] pg_unat) (simp add: pages_def)
qed

lemma pg_less:
  assumes "k < 1048576"
  shows "pg k < sz \<longleftrightarrow> k < pages sz"
  unfolding word_less_nat_alt pg_unat [OF assms] pages_def by linarith

lemma pages_utop: "sz \<le> USERTOP \<Longrightarrow> pages sz \<le> 160"
  by (simp add: pages_def USERTOP_def word_le_nat_alt)

lemma utop_phys: "sz \<le> USERTOP \<Longrightarrow> sz \<le> PHYSTOP"
  by (simp add: USERTOP_def PHYSTOP_def word_le_nat_alt)

subsection \<open>Address spaces\<close>

text \<open>\<open>up k\<close> is the physical page behind user page \<open>k\<close>.\<close>

type_synonym upages = "nat \<rightharpoonup> u32"

definition user_entry :: "u32 option \<Rightarrow> u32 \<Rightarrow> bool" where
  "user_entry r e \<longleftrightarrow> (case r of None \<Rightarrow> e AND PTE_P = 0 | Some u \<Rightarrow> e = u OR (PTE_W OR PTE_U) OR PTE_P)"

definition uspace :: "u32 \<Rightarrow> kmem \<Rightarrow> u32 list \<Rightarrow> u32 \<Rightarrow> upages \<Rightarrow> bool" where
  "uspace kend s xs d up \<longleftrightarrow>
     vminv kend s xs d \<and> present (kbytes s) d 0 \<and> dom up \<subseteq> {..<160} \<and> inj_on up (dom up) \<and>
     (\<forall>u \<in> ran up. kpage kend u \<and> u \<noteq> 0 \<and> u \<notin> set xs \<and> u \<noteq> d \<and> u \<notin> tabs (kbytes s) d) \<and>
     (\<forall>k < 160. user_entry (up k) (entry (kbytes s) d (pg k)))"

definition owned_pages :: "kmem \<Rightarrow> u32 \<Rightarrow> upages \<Rightarrow> u32 set" where
  "owned_pages s d up = insert d (tabs (kbytes s) d \<union> ran up)"

definition umem :: "mem \<Rightarrow> upages \<Rightarrow> nat \<rightharpoonup> u8" where
  "umem m up = (\<lambda>a. map_option (\<lambda>p. m (p + of_nat (a mod 4096))) (up (a div 4096)))"

lemma user_entry_simps [simp]:
  "user_entry None e \<longleftrightarrow> e AND PTE_P = 0"
  "user_entry (Some u) e \<longleftrightarrow> e = u OR (PTE_W OR PTE_U) OR PTE_P"
  by (simp_all add: user_entry_def)

lemma tabs_props:
  assumes "vminv kend s xs d" "t \<in> tabs (kbytes s) d"
  shows "kpage kend t" "t \<noteq> 0" "t \<noteq> d" "t \<notin> set xs"
  using assms by (auto simp: tabs_def vminv_def dir_ok_def)

lemma table0_tabs: "present m d 0 \<Longrightarrow> table m d 0 \<in> tabs m d"
  by (auto simp: tabs_def)

lemma page_untouched:
  assumes "same_outside P m m'" "\<forall>q \<in> P. aligned 4096 q" "aligned 4096 p" "p \<notin> P" "in_page a p"
  shows "m' a = m a"
  using assms page_disjoint [OF assms(3)] unfolding same_outside_def by blast

lemma entry_untouched:
  assumes "same_outside P m m'" "\<forall>q \<in> P. aligned 4096 q" "aligned 4096 p" "p \<notin> P" "unat i < 1024"
  shows "load32 m' (p + 4 * i) = load32 m (p + 4 * i)"
  using page_untouched [OF assms(1-4)] by (rule entry_load_page [OF assms(3,5)])

text \<open>A change of memory elsewhere leaves a page directory alone.\<close>

lemma vminv_frame:
  assumes v: "vminv kend s xs d" and k: "kinv kend s' xs'"
    and x: "set xs' \<inter> insert d (tabs (kbytes s) d) = {}"
    and so: "same_outside P (kbytes s) (kbytes s')" and al: "\<forall>q \<in> P. aligned 4096 q"
    and P: "P \<inter> insert d (tabs (kbytes s) d) = {}"
  shows "vminv kend s' xs' d" and "tabs (kbytes s') d = tabs (kbytes s) d"
    and "entry (kbytes s') d va = entry (kbytes s) d va"
    and "\<And>i. unat i < 1024 \<Longrightarrow> present (kbytes s') d i = present (kbytes s) d i"
    and "\<And>i. unat i < 1024 \<Longrightarrow> table (kbytes s') d i = table (kbytes s) d i"
proof -
  have dP: "d \<notin> P" using P by blast
  have e: "load32 (kbytes s') (d + 4 * i) = load32 (kbytes s) (d + 4 * i)" if "unat i < 1024" for i
    by (rule entry_untouched [OF so al vminv_dir [OF v] dP that])
  show pr: "\<And>i. unat i < 1024 \<Longrightarrow> present (kbytes s') d i = present (kbytes s) d i"
    and tb: "\<And>i. unat i < 1024 \<Longrightarrow> table (kbytes s') d i = table (kbytes s) d i"
    using e by (simp_all add: present_def table_def)
  show t: "tabs (kbytes s') d = tabs (kbytes s) d" by (rule tabs_cong [OF pr tb])
  have mem: "table (kbytes s) d i \<in> tabs (kbytes s) d" if "unat i < 1024" "present (kbytes s) d i" for i
    using that by (auto simp: tabs_def)
  show "entry (kbytes s') d va = entry (kbytes s) d va"
  proof (cases "present (kbytes s) d (PDX va)")
    case True
    note tm = mem [OF PDX_lt True]
    have "load32 (kbytes s') (table (kbytes s) d (PDX va) + 4 * PTX va) = load32 (kbytes s) (table (kbytes s) d (PDX va) + 4 * PTX va)"
      using tm P kpage_aligned [OF tabs_props(1) [OF v tm]] by (intro entry_untouched [OF so al _ _ PTX_lt]) blast+
    thus ?thesis using True pr [OF PDX_lt] tb [OF PDX_lt] by (simp add: entry_eq)
  qed (simp add: entry_eq pr [OF PDX_lt])
  have "dir_ok kend xs' d (kbytes s)"
    using v x mem unfolding vminv_def dir_ok_def by blast
  hence "dir_ok kend xs' d (kbytes s')" using dir_ok_cong [OF pr tb] by simp
  thus "vminv kend s' xs' d" using v k x by (simp add: vminv_def)
qed


lemma uspace_props:
  assumes "uspace kend s xs d up"
  shows "vminv kend s xs d" "present (kbytes s) d 0" "dom up \<subseteq> {..<160}" "inj_on up (dom up)"
    "up k = Some u \<Longrightarrow> kpage kend u \<and> aligned 4096 u \<and> u \<noteq> 0 \<and> u \<notin> set xs \<and> u \<noteq> d \<and> u \<notin> tabs (kbytes s) d"
    "k < 160 \<Longrightarrow> user_entry (up k) (entry (kbytes s) d (pg k))"
  using assms kpage_aligned by (auto simp: uspace_def ran_def)

lemma owned_aligned:
  assumes "uspace kend s xs d up"
  shows "\<forall>p \<in> owned_pages s d up. aligned 4096 p"
  using vminv_dir [OF uspace_props(1) [OF assms]] kpage_aligned [OF tabs_props(1) [OF uspace_props(1) [OF assms]]]
    uspace_props(5) [OF assms] by (auto simp: owned_pages_def ran_def)

lemma owned_not_free:
  assumes "uspace kend s xs d up" "p \<in> owned_pages s d up"
  shows "p \<notin> set xs" "kpage kend p" "p \<noteq> 0"
proof -
  note v = uspace_props(1) [OF assms(1)]
  have "d \<notin> set xs" "kpage kend d" "d \<noteq> 0" using v by (simp_all add: vminv_def)
  moreover have "t \<notin> set xs \<and> kpage kend t \<and> t \<noteq> 0" if "t \<in> tabs (kbytes s) d" for t
    using tabs_props [OF v that] by blast
  moreover have "u \<notin> set xs \<and> kpage kend u \<and> u \<noteq> 0" if "u \<in> ran up" for u
    using that assms(1) by (simp add: uspace_def)
  ultimately show "p \<notin> set xs" "kpage kend p" "p \<noteq> 0" using assms(2) unfolding owned_pages_def by blast+
qed

lemma umem_cong:
  assumes "\<And>k u a. up k = Some u \<Longrightarrow> in_page a u \<Longrightarrow> m' a = m a" "\<And>k u. up k = Some u \<Longrightarrow> aligned 4096 u"
  shows "umem m' up = umem m up"
proof
  fix a
  have "in_page (u + of_nat (a mod 4096)) u" for u :: u32
    by (simp add: within_def unat_of_nat)
  thus "umem m' up a = umem m up a"
    using assms by (cases "up (a div 4096)") (auto simp: umem_def)
qed

text \<open>Isolation: work on other pages keeps an address space and its bytes.\<close>

lemma uspace_frame:
  assumes u: "uspace kend s xs d up" and k: "kinv kend s' xs'"
    and x: "set xs' \<inter> owned_pages s d up = {}"
    and so: "same_outside P (kbytes s) (kbytes s')" and al: "\<forall>q \<in> P. aligned 4096 q"
    and P: "P \<inter> owned_pages s d up = {}"
  shows "uspace kend s' xs' d up" and "umem (kbytes s') up = umem (kbytes s) up"
    and "owned_pages s' d up = owned_pages s d up" and "tabs (kbytes s') d = tabs (kbytes s) d"
proof -
  note p = uspace_props [OF u]
  have sub: "insert d (tabs (kbytes s) d) \<subseteq> owned_pages s d up" by (auto simp: owned_pages_def)
  have "set xs' \<inter> insert d (tabs (kbytes s) d) = {}" "P \<inter> insert d (tabs (kbytes s) d) = {}"
    using x P sub by blast+
  note f = vminv_frame [OF p(1) k this(1) so al this(2)]
  have "\<forall>u \<in> ran up. u \<notin> set xs'" using x by (auto simp: owned_pages_def)
  moreover have "present (kbytes s') d 0" using f(4) [of 0] p(2) by simp
  ultimately show "uspace kend s' xs' d up" using u f by (simp add: uspace_def)
  show "tabs (kbytes s') d = tabs (kbytes s) d" by (rule f(2))
  show "owned_pages s' d up = owned_pages s d up" using f(2) by (simp add: owned_pages_def)
  show "umem (kbytes s') up = umem (kbytes s) up"
  proof (rule umem_cong)
    fix k u a assume "up k = Some u" "in_page a u"
    moreover from this have "u \<notin> P" using P ranI [of up k u] by (auto simp: owned_pages_def)
    ultimately show "kbytes s' a = kbytes s a" using page_untouched [OF so al] p(5) by blast
  qed (use p(5) in blast)
qed

text \<open>The page table entry of a user page.\<close>

lemma walk_user:
  assumes "vminv kend s xs d" "present (kbytes s) d 0" "k < 160"
  shows "walkpgdir s d (pg k) c = (table (kbytes s) d 0 + 4 * of_nat k, s)"
    and "table (kbytes s) d 0 + 4 * of_nat k \<noteq> 0"
    and "load32 (kbytes s) (table (kbytes s) d 0 + 4 * of_nat k) = entry (kbytes s) d (pg k)"
  using walkpgdir_found [OF assms(1), of "pg k"] assms(2,3) by (simp_all add: entry_eq pg_PDX pg_PTX)

lemma set_user_entry:
  fixes v :: u32
  assumes "vminv kend s xs d" "present (kbytes s) d 0" "k < 160"
  defines "m' \<equiv> store32 (kbytes s) (table (kbytes s) d 0 + 4 * of_nat k) v"
  shows "vminv kend (s\<lparr>kbytes := m'\<rparr>) xs d" "tabs m' d = tabs (kbytes s) d"
    "same_outside {table (kbytes s) d 0} (kbytes s) m'" "present m' d 0" "table m' d 0 = table (kbytes s) d 0"
    "\<And>j. j < 160 \<Longrightarrow> entry m' d (pg j) = (if j = k then v else entry (kbytes s) d (pg j))"
proof -
  have pr: "present (kbytes s) d (PDX (pg k))" using assms(2,3) by (simp add: pg_PDX)
  have m: "store32 (kbytes s) (table (kbytes s) d (PDX (pg k)) + 4 * PTX (pg k)) v = m'"
    using assms(3) by (simp add: m'_def pg_PDX pg_PTX)
  note e = store_entry_effect [OF assms(1) pr, where v = v, unfolded m]
  show "vminv kend (s\<lparr>kbytes := m'\<rparr>) xs d" "tabs m' d = tabs (kbytes s) d" by (rule e)+
  show "same_outside {table (kbytes s) d 0} (kbytes s) m'" using e(4) assms(3) by (simp add: pg_PDX)
  show "present m' d 0" "table m' d 0 = table (kbytes s) d 0" using e(5,6) [of 0] assms(2) by simp_all
  fix j :: nat assume "j < 160"
  thus "entry m' d (pg j) = (if j = k then v else entry (kbytes s) d (pg j))"
    using e(2) [of "pg j"] assms(3) by (simp add: same_page pg_drop_eq)
qed


lemma insert_ran_drop: "up k = Some v \<Longrightarrow> insert v (ran (up(k := None))) = ran up"
proof (intro set_eqI iffI)
  fix z assume k: "up k = Some v" and "z \<in> ran up"
  then obtain a where "up a = Some z" by (auto simp: ran_def)
  thus "z \<in> insert v (ran (up(k := None)))" using k by (cases "a = k") (auto simp: ran_def)
qed (auto simp: ran_def split: if_splits)

lemma umem_upd: "umem m (up(k \<mapsto> x)) = (\<lambda>a. if a div 4096 = k then Some (m (x + of_nat (a mod 4096))) else umem m up a)"
  by (auto simp: umem_def)

lemma umem_drop: "umem m (up(k := None)) = (\<lambda>a. if a div 4096 = k then None else umem m up a)"
  by (auto simp: umem_def)

subsection \<open>Taking and giving back one page\<close>

text \<open>The page just allocated is not part of any address space yet, so writing to it is invisible.\<close>

lemma take_page:
  assumes u: "uspace kend s (x # xs) d up" and so: "same_outside {x} (kbytes s) m'"
  defines "s' \<equiv> s\<lparr>freelist := load32 (kbytes s) x, kbytes := m'\<rparr>"
  shows "kalloc s = (x, s\<lparr>freelist := load32 (kbytes s) x\<rparr>)" "kpage kend x" "x \<noteq> 0" "aligned 4096 x" "x \<notin> set xs"
    "x \<notin> owned_pages s d up" "uspace kend s' xs d up" "umem (kbytes s') up = umem (kbytes s) up"
    "owned_pages s' d up = owned_pages s d up" "tabs (kbytes s') d = tabs (kbytes s) d"
proof -
  have k: "kinv kend s (x # xs)" using uspace_props(1) [OF u] by (simp add: vminv_def)
  note a = kalloc_kinv [OF k]
  show "kalloc s = (x, s\<lparr>freelist := load32 (kbytes s) x\<rparr>)" "kpage kend x" "x \<noteq> 0" "x \<notin> set xs" by (rule a)+
  show al: "aligned 4096 x" by (rule kpage_aligned [OF a(4)])
  show xo: "x \<notin> owned_pages s d up" using owned_not_free(1) [OF u, of x] by auto
  have "flist m' (load32 (kbytes s) x) xs = flist (kbytes s) (load32 (kbytes s) x) xs"
    using so a(5) al kinv_aligned [OF k] by (intro flist_frame [of x]) (auto simp: same_outside_def)
  hence k': "kinv kend s' xs" using a(2) by (simp add: kinv_def s'_def)
  have x': "set xs \<inter> owned_pages s d up = {}" using owned_not_free(1) [OF u] by auto
  have so': "same_outside {x} (kbytes s) (kbytes s')" using so by (simp add: s'_def)
  note f = uspace_frame [OF u k' x' so']
  show "uspace kend s' xs d up" "umem (kbytes s') up = umem (kbytes s) up"
    "owned_pages s' d up = owned_pages s d up" "tabs (kbytes s') d = tabs (kbytes s) d"
    using f al xo by simp_all
qed

lemma map_user_page:
  assumes u: "uspace kend s xs d up" and k: "k < 160" "up k = None"
    and x: "kpage kend x" "x \<noteq> 0" "x \<notin> set xs" "x \<notin> owned_pages s d up"
  shows "\<exists>s'. mappages s d (pg k) PGSIZE x (PTE_W OR PTE_U) = Some (0, s') \<and> uspace kend s' xs d (up(k \<mapsto> x)) \<and>
    tabs (kbytes s') d = tabs (kbytes s) d \<and> same_outside (tabs (kbytes s) d) (kbytes s) (kbytes s') \<and>
    umem (kbytes s') (up(k \<mapsto> x)) =
      (\<lambda>a. if a div 4096 = k then Some (kbytes s (x + of_nat (a mod 4096))) else umem (kbytes s) up a)"
proof -
  note p = uspace_props [OF u]
  let ?e = "x OR (PTE_W OR PTE_U) OR PTE_P"
  let ?pte = "table (kbytes s) d 0 + 4 * of_nat k"
  define s' where "s' = s\<lparr>kbytes := store32 (kbytes s) ?pte ?e\<rparr>"
  note w = walk_user [OF p(1,2) k(1)]
  note e = set_user_entry [OF p(1,2) k(1), where v = ?e]
  have T: "table (kbytes s) d 0 \<in> tabs (kbytes s) d" by (rule table0_tabs [OF p(2)])
  have "entry (kbytes s) d (pg k) AND PTE_P = 0" using p(6) [OF k(1)] k(2) by simp
  hence free: "load32 (kbytes s) ?pte AND PTE_P = 0" by (simp only: w(3))
  have al: "aligned 4096 (pg k)" using k(1) by (intro pg_aligned) simp
  have "PGROUNDDOWN (pg k + 0) = pg k" "PGROUNDDOWN (pg k + 4095) = pg k"
    by (rule PGROUNDDOWN_offset [OF al], simp)+
  moreover have "pg k + PGSIZE - 1 = pg k + 4095" by (simp add: PGSIZE_def)
  ultimately have "mappages s d (pg k) PGSIZE x (PTE_W OR PTE_U) = mappages_loop s d (pg k) (pg k) x (PTE_W OR PTE_U)"
    by (simp only: mappages_def add_0_right)
  also have "\<dots> = Some (0, s')"
    using w(1,2) free by (subst mappages_loop.simps) (simp add: Let_def s'_def)
  finally have m: "mappages s d (pg k) PGSIZE x (PTE_W OR PTE_U) = Some (0, s')" .
  have xo: "x \<noteq> d" "x \<notin> tabs (kbytes s) d" "x \<notin> ran up" using x(4) by (auto simp: owned_pages_def)
  have ran: "ran (up(k \<mapsto> x)) = insert x (ran up)" using k(2) by (rule ran_map_upd)
  have "inj_on (up(k \<mapsto> x)) (dom (up(k \<mapsto> x)))"
    using p(4) xo(3) unfolding inj_on_def by (auto simp: ran_def)
  moreover have "\<forall>j < 160. user_entry ((up(k \<mapsto> x)) j) (entry (kbytes s') d (pg j))"
    using e(6) p(6) by (simp add: s'_def)
  ultimately have us: "uspace kend s' xs d (up(k \<mapsto> x))"
    using u e(1,2,4) x xo k(1) unfolding uspace_def ran by (simp add: s'_def)
  have so: "same_outside (tabs (kbytes s) d) (kbytes s) (kbytes s')"
    using T same_outside_mono [OF e(3)] by (simp add: s'_def)
  have ta: "\<forall>t \<in> tabs (kbytes s) d. aligned 4096 t" using tabs_props(1) [OF p(1)] kpage_aligned by blast
  have "umem (kbytes s') (up(k \<mapsto> x)) = umem (kbytes s) (up(k \<mapsto> x))"
  proof (rule umem_cong)
    fix j v a assume j: "(up(k \<mapsto> x)) j = Some v" "in_page a v"
    have "v \<in> ran (up(k \<mapsto> x))" using j(1) by (rule ranI)
    hence "v \<in> insert x (ran up)" using ran by simp
    hence "aligned 4096 v \<and> v \<notin> tabs (kbytes s) d" using xo kpage_aligned [OF x(1)] p(5) by (auto simp: ran_def)
    thus "kbytes s' a = kbytes s a" using page_untouched [OF so ta] j(2) by blast
  next
    fix j v assume "(up(k \<mapsto> x)) j = Some v"
    hence "v \<in> ran (up(k \<mapsto> x))" by (rule ranI)
    hence "v \<in> insert x (ran up)" using ran by simp
    thus "aligned 4096 v" using kpage_aligned [OF x(1)] p(5) by (auto simp: ran_def)
  qed
  hence "umem (kbytes s') (up(k \<mapsto> x)) =
      (\<lambda>a. if a div 4096 = k then Some (kbytes s (x + of_nat (a mod 4096))) else umem (kbytes s) up a)"
    by (simp only: umem_upd)
  moreover have "tabs (kbytes s') d = tabs (kbytes s) d" using e(2) by (simp add: s'_def)
  ultimately show ?thesis using m us so by blast
qed

lemma free_user_page:
  assumes u: "uspace kend s xs d up" and k: "k < 160" "up k = Some v"
  shows "\<exists>s2 s'. kfree kend s v = Some s2 \<and> s' = s2\<lparr>kbytes := store32 (kbytes s2) (table (kbytes s) d 0 + 4 * of_nat k) 0\<rparr> \<and>
    uspace kend s' (v # xs) d (up(k := None)) \<and> tabs (kbytes s') d = tabs (kbytes s) d \<and>
    same_outside (insert v (tabs (kbytes s) d)) (kbytes s) (kbytes s') \<and>
    umem (kbytes s') (up(k := None)) = umem (kbytes s) (up(k := None))"
proof -
  note p = uspace_props [OF u]
  have v: "kpage kend v" "aligned 4096 v" "v \<noteq> 0" "v \<notin> set xs" "v \<noteq> d" "v \<notin> tabs (kbytes s) d"
    using p(5) [OF k(2)] by simp_all
  have "kinv kend s xs" using p(1) by (simp add: vminv_def)
  then obtain s2 where s2: "kfree kend s v = Some s2" "kinv kend s2 (v # xs)"
    using kfree_kinv [OF _ v(1,3,4)] by blast
  have so2: "same_outside {v} (kbytes s) (kbytes s2)" using kfree_bytes [OF s2(1)] by (simp add: same_outside_def)
  let ?up = "up(k := None)"
  have "v \<notin> ran ?up" using p(4) k(2) by (auto simp: ran_def inj_on_def domI split: if_splits)
  hence ran: "ran ?up = ran up - {v}" using insert_ran_drop [of up k, OF k(2)] by auto
  have u0: "vminv kend s2 (v # xs) d" "tabs (kbytes s2) d = tabs (kbytes s) d" "\<And>va. entry (kbytes s2) d va = entry (kbytes s) d va"
    "present (kbytes s2) d 0" "table (kbytes s2) d 0 = table (kbytes s) d 0"
  proof -
    have "set (v # xs) \<inter> insert d (tabs (kbytes s) d) = {}" "{v} \<inter> insert d (tabs (kbytes s) d) = {}"
      using v tabs_props(4) [OF p(1)] p(1) by (auto simp: vminv_def)
    note f = vminv_frame [OF p(1) s2(2) this(1) so2 _ this(2)]
    show "vminv kend s2 (v # xs) d" "tabs (kbytes s2) d = tabs (kbytes s) d" "\<And>va. entry (kbytes s2) d va = entry (kbytes s) d va"
      "present (kbytes s2) d 0" "table (kbytes s2) d 0 = table (kbytes s) d 0"
      using f(1-3) f(4,5) [of 0] v(2) p(2) by simp_all
  qed
  define s' where "s' = s2\<lparr>kbytes := store32 (kbytes s2) (table (kbytes s) d 0 + 4 * of_nat k) 0\<rparr>"
  note e = set_user_entry [OF u0(1,4) k(1), where v = 0, unfolded u0(5)]
  have "inj_on ?up (dom ?up)" using p(4) unfolding inj_on_def by auto
  moreover have "\<forall>j < 160. user_entry (?up j) (entry (kbytes s') d (pg j))"
    using e(6) p(6) u0(3) by (simp add: s'_def)
  ultimately have us: "uspace kend s' (v # xs) d ?up"
    using u e(1,2,4) u0 unfolding uspace_def ran by (auto simp: s'_def)
  have T: "table (kbytes s) d 0 \<in> tabs (kbytes s) d" by (rule table0_tabs [OF p(2)])
  have so: "same_outside (insert v (tabs (kbytes s) d)) (kbytes s) (kbytes s')"
  proof (rule same_outside_trans)
    show "same_outside (insert v (tabs (kbytes s) d)) (kbytes s) (kbytes s2)" by (rule same_outside_mono [OF so2]) simp
    have "same_outside {table (kbytes s) d 0} (kbytes s2) (kbytes s')" using e(3) by (simp add: s'_def)
    thus "same_outside (insert v (tabs (kbytes s) d)) (kbytes s2) (kbytes s')" by (rule same_outside_mono) (use T in simp)
  qed
  have ta: "\<forall>t \<in> insert v (tabs (kbytes s) d). aligned 4096 t" using tabs_props(1) [OF p(1)] kpage_aligned v(2) by blast
  have "umem (kbytes s') ?up = umem (kbytes s) ?up"
  proof (rule umem_cong)
    fix j w a assume j: "?up j = Some w" "in_page a w"
    have "w \<in> ran ?up" using j(1) by (rule ranI)
    hence "w \<in> ran up - {v}" using ran by simp
    hence "aligned 4096 w \<and> w \<notin> insert v (tabs (kbytes s) d)" using p(5) by (auto simp: ran_def)
    thus "kbytes s' a = kbytes s a" using page_untouched [OF so ta] j(2) by blast
  qed (use p(5) in \<open>auto split: if_splits\<close>)
  moreover have "tabs (kbytes s') d = tabs (kbytes s) d" using e(2) u0(2) by (simp add: s'_def)
  ultimately show ?thesis using s2(1) us so s'_def by blast
qed


subsection \<open>Growing and shrinking\<close>

text \<open>What every operation on one address space does to the pages of the machine: none is lost or made up, and no page is
  touched that is neither free nor part of this address space.\<close>

definition moves :: "u32 \<Rightarrow> kmem \<Rightarrow> u32 list \<Rightarrow> u32 \<Rightarrow> upages \<Rightarrow> kmem \<Rightarrow> u32 list \<Rightarrow> upages \<Rightarrow> bool" where
  "moves kend s xs d up s' xs' up' \<longleftrightarrow>
     uspace kend s' xs' d up' \<and> tabs (kbytes s') d = tabs (kbytes s) d \<and>
     set xs' \<union> owned_pages s' d up' = set xs \<union> owned_pages s d up \<and>
     same_outside (set xs \<union> owned_pages s d up) (kbytes s) (kbytes s')"

lemma moves_refl: "uspace kend s xs d up \<Longrightarrow> moves kend s xs d up s xs up"
  by (simp add: moves_def)

lemma moves_trans:
  assumes "moves kend s xs d up s1 xs1 up1" "moves kend s1 xs1 d up1 s2 xs2 up2"
  shows "moves kend s xs d up s2 xs2 up2"
proof -
  have "set xs1 \<union> owned_pages s1 d up1 = set xs \<union> owned_pages s d up" using assms(1) by (simp add: moves_def)
  thus ?thesis using assms same_outside_trans [of "set xs \<union> owned_pages s d up" "kbytes s" "kbytes s1" "kbytes s2"]
    by (simp add: moves_def)
qed

text \<open>Counting pages.\<close>

lemma uspace_card:
  assumes u: "uspace kend s xs d up"
  shows "card (set xs \<union> owned_pages s d up) = length xs + 1 + card (tabs (kbytes s) d) + card (dom up)"
proof -
  note p = uspace_props [OF u]
  have "distinct xs" using p(1) by (simp add: vminv_def kinv_def)
  hence x: "card (set xs) = length xs" by (rule distinct_card)
  have "inj_on (\<lambda>k. the (up k)) (dom up)" by (rule inj_onI) (metis domIff inj_onD option.expand p(4))
  hence "card ((\<lambda>k. the (up k)) ` dom up) = card (dom up)" by (rule card_image)
  moreover have "ran up = (\<lambda>k. the (up k)) ` dom up" by (auto simp: ran_def image_iff dom_def intro!: exI)
  ultimately have r: "card (ran up) = card (dom up)" by simp
  have "tabs (kbytes s) d \<inter> ran up = {}" "d \<notin> tabs (kbytes s) d \<union> ran up"
    using u tabs_props(3) [OF p(1)] by (auto simp: uspace_def)
  hence o: "card (owned_pages s d up) = 1 + card (tabs (kbytes s) d) + card (ran up)"
    unfolding owned_pages_def by (simp add: card_Un_disjoint)
  have "set xs \<inter> owned_pages s d up = {}" using owned_not_free(1) [OF u] by blast
  thus ?thesis using x o r by (simp add: card_Un_disjoint)
qed

lemma moves_count:
  assumes "uspace kend s xs d up" "moves kend s xs d up s' xs' up'"
  shows "length xs' + card (dom up') = length xs + card (dom up)"
  using uspace_card [OF assms(1)] uspace_card [of kend s' xs' d up'] assms(2) by (simp add: moves_def)

lemma moves_uspace: "moves kend s xs d up s' xs' up' \<Longrightarrow> uspace kend s' xs' d up'"
  by (simp add: moves_def)

lemma fill_user_page:
  assumes u: "uspace kend s (x # xs) d up" and so: "same_outside {x} (kbytes s) m'" and k: "k < 160" "up k = None"
  shows "\<exists>s'. mappages (s\<lparr>freelist := load32 (kbytes s) x, kbytes := m'\<rparr>) d (pg k) PGSIZE x (PTE_W OR PTE_U) = Some (0, s') \<and>
    moves kend s (x # xs) d up s' xs (up(k \<mapsto> x)) \<and>
    umem (kbytes s') (up(k \<mapsto> x)) = (\<lambda>a. if a div 4096 = k then Some (m' (x + of_nat (a mod 4096))) else umem (kbytes s) up a)"
proof -
  let ?s1 = "s\<lparr>freelist := load32 (kbytes s) x, kbytes := m'\<rparr>"
  note t = take_page [OF u so]
  have xo: "x \<notin> owned_pages ?s1 d up" using t(6,9) by simp
  obtain s' where m: "mappages ?s1 d (pg k) PGSIZE x (PTE_W OR PTE_U) = Some (0, s')" "uspace kend s' xs d (up(k \<mapsto> x))"
    "tabs (kbytes s') d = tabs (kbytes ?s1) d" "same_outside (tabs (kbytes ?s1) d) (kbytes ?s1) (kbytes s')"
    "umem (kbytes s') (up(k \<mapsto> x)) =
      (\<lambda>a. if a div 4096 = k then Some (kbytes ?s1 (x + of_nat (a mod 4096))) else umem (kbytes ?s1) up a)"
    using map_user_page [OF t(7) k t(2,3,5) xo] by blast
  have tb: "tabs (kbytes s') d = tabs (kbytes s) d"
    using m(3) t(10) by simp
  have so1: "same_outside (set (x # xs) \<union> owned_pages s d up) (kbytes s) (kbytes ?s1)"
    by (rule same_outside_mono [of "{x}"]) (use so in simp_all)
  have "same_outside (set (x # xs) \<union> owned_pages s d up) (kbytes ?s1) (kbytes s')"
    using m(4) [unfolded t(10)] by (rule same_outside_mono) (auto simp: owned_pages_def)
  hence "same_outside (set (x # xs) \<union> owned_pages s d up) (kbytes s) (kbytes s')" by (rule same_outside_trans [OF so1])
  moreover have "owned_pages s' d (up(k \<mapsto> x)) = insert x (owned_pages s d up)"
    using k(2) by (auto simp: owned_pages_def tb)
  ultimately have "moves kend s (x # xs) d up s' xs (up(k \<mapsto> x))" using m(2) tb by (simp add: moves_def)
  moreover have "kbytes ?s1 = m'" by simp
  note m(5) [unfolded t(8), unfolded this]
  ultimately show ?thesis using m(1) by blast
qed

lemma release_user_page:
  assumes u: "uspace kend s xs d up" and k: "k < 160" "up k = Some v"
  shows "\<exists>s2 s'. kfree kend s v = Some s2 \<and> s' = s2\<lparr>kbytes := store32 (kbytes s2) (table (kbytes s) d 0 + 4 * of_nat k) 0\<rparr> \<and>
    moves kend s xs d up s' (v # xs) (up(k := None)) \<and> umem (kbytes s') (up(k := None)) = umem (kbytes s) (up(k := None))"
proof -
  obtain s2 s' where f: "kfree kend s v = Some s2" "s' = s2\<lparr>kbytes := store32 (kbytes s2) (table (kbytes s) d 0 + 4 * of_nat k) 0\<rparr>"
    "uspace kend s' (v # xs) d (up(k := None))" "tabs (kbytes s') d = tabs (kbytes s) d"
    "same_outside (insert v (tabs (kbytes s) d)) (kbytes s) (kbytes s')"
    "umem (kbytes s') (up(k := None)) = umem (kbytes s) (up(k := None))"
    using free_user_page [OF u k] by blast
  have v: "v \<in> ran up" using k(2) by (rule ranI)
  have "insert v (ran (up(k := None))) = ran up" by (rule insert_ran_drop [of up k, OF k(2)])
  hence "set (v # xs) \<union> owned_pages s' d (up(k := None)) = set xs \<union> owned_pages s d up"
    unfolding owned_pages_def f(4) by auto
  moreover have "same_outside (set xs \<union> owned_pages s d up) (kbytes s) (kbytes s')"
    by (rule same_outside_mono [OF f(5)]) (use v in \<open>auto simp: owned_pages_def\<close>)
  ultimately have "moves kend s xs d up s' (v # xs) (up(k := None))" using f(3,4) by (simp add: moves_def)
  thus ?thesis using f(1,2,6) by blast
qed

lemma umem_restrict: "umem m (up |` A) = umem m up |` {a. a div 4096 \<in> A}"
  by (auto simp: umem_def restrict_map_def)

lemma user_entry_decode:
  assumes "aligned 4096 v"
  shows "(v OR (PTE_W OR PTE_U) OR PTE_P) AND PTE_P \<noteq> 0" "PTE_ADDR (v OR (PTE_W OR PTE_U) OR PTE_P) = v"
    "(v OR (PTE_W OR PTE_U) OR PTE_P) AND PTE_U \<noteq> 0"
proof -
  have e: "v OR (PTE_W OR PTE_U) OR PTE_P = v OR 7" by (simp add: PTE_P_def PTE_W_def PTE_U_def or.assoc)
  show "(v OR (PTE_W OR PTE_U) OR PTE_P) AND PTE_P \<noteq> 0" by (simp only: e present_bit) (simp add: bit_simps)
  show "PTE_ADDR (v OR (PTE_W OR PTE_U) OR PTE_P) = v" unfolding e by (rule PTE_ADDR_or_flags [OF assms]) simp
  have "bit ((v OR 7) AND PTE_U) 2" by (simp add: bit_simps PTE_U_def)
  thus "(v OR (PTE_W OR PTE_U) OR PTE_P) AND PTE_U \<noteq> 0" unfolding e by (metis bit_0_eq bot_apply bot_bool_def)
qed

lemma deallocuvm_loop_frees:
  assumes "uspace kend s xs d up" "hi \<le> USERTOP" "pages hi - k = n" "k \<le> 160"
  shows "\<exists>s' xs'. deallocuvm_loop kend s d (pg k) hi = Some s' \<and>
    moves kend s xs d up s' xs' (up |` {j. j < k \<or> pages hi \<le> j}) \<and>
    umem (kbytes s') (up |` {j. j < k \<or> pages hi \<le> j}) = umem (kbytes s) (up |` {j. j < k \<or> pages hi \<le> j})"
  using assms
proof (induction n arbitrary: s xs up k)
  case 0
  hence "{j. j < k \<or> pages hi \<le> j} = UNIV" by auto
  hence r: "up |` {j. j < k \<or> pages hi \<le> j} = up" by (simp add: restrict_map_def)
  have "\<not> pg k < hi" using 0 pg_less [of k hi] by simp
  hence "deallocuvm_loop kend s d (pg k) hi = Some s" by (subst deallocuvm_loop.simps) simp
  thus ?case unfolding r using moves_refl [OF "0.prems"(1)] by blast
next
  case (Suc n)
  let ?A = "\<lambda>k. {j. j < k \<or> pages hi \<le> j}"
  have k: "k < pages hi" "k < 160" using Suc.prems pages_utop [of hi] by simp_all
  have lt: "pg k < hi" using k pg_less [of k hi] by simp
  note p = uspace_props [OF Suc.prems(1)]
  note w = walk_user [OF p(1,2) k(2)]
  have nxt: "pages hi - Suc k = n" "Suc k \<le> 160" using Suc.prems k by simp_all
  show ?case
  proof (cases "up k")
    case None
    hence "load32 (kbytes s) (table (kbytes s) d 0 + 4 * of_nat k) AND PTE_P = 0" using p(6) [OF k(2)] w(3) by simp
    hence "deallocuvm_loop kend s d (pg k) hi = deallocuvm_loop kend s d (pg (Suc k)) hi"
      using lt w(1,2) by (subst deallocuvm_loop.simps) (simp add: algebra_simps)
    moreover have "up |` ?A k = up |` ?A (Suc k)" using None by (auto simp: restrict_map_def less_Suc_eq fun_eq_iff)
    ultimately show ?thesis using Suc.IH [OF Suc.prems(1,2) nxt] by simp
  next
    case (Some v)
    have v: "aligned 4096 v" "v \<noteq> 0" using p(5) [OF Some] by simp_all
    have e: "load32 (kbytes s) (table (kbytes s) d 0 + 4 * of_nat k) = v OR (PTE_W OR PTE_U) OR PTE_P"
      using p(6) [OF k(2)] w(3) Some by simp
    obtain s2 s1 where f: "kfree kend s v = Some s2" "s1 = s2\<lparr>kbytes := store32 (kbytes s2) (table (kbytes s) d 0 + 4 * of_nat k) 0\<rparr>"
      "moves kend s xs d up s1 (v # xs) (up(k := None))" "umem (kbytes s1) (up(k := None)) = umem (kbytes s) (up(k := None))"
      using release_user_page [OF Suc.prems(1) k(2) Some] by blast
    have step: "deallocuvm_loop kend s d (pg k) hi = deallocuvm_loop kend s1 d (pg (Suc k)) hi"
      using lt w(1,2) e user_entry_decode [OF v(1)] v(2) f(1,2)
      by (subst deallocuvm_loop.simps) (simp add: Let_def algebra_simps)
    have r: "up |` ?A k = (up(k := None)) |` ?A (Suc k)" using k(1) by (auto simp: restrict_map_def less_Suc_eq fun_eq_iff)
    obtain s' xs' where ih: "deallocuvm_loop kend s1 d (pg (Suc k)) hi = Some s'"
      "moves kend s1 (v # xs) d (up(k := None)) s' xs' ((up(k := None)) |` ?A (Suc k))"
      "umem (kbytes s') ((up(k := None)) |` ?A (Suc k)) = umem (kbytes s1) ((up(k := None)) |` ?A (Suc k))"
      using Suc.IH [OF moves_uspace [OF f(3)] Suc.prems(2) nxt] by blast
    have "umem (kbytes s1) ((up(k := None)) |` ?A (Suc k)) = umem (kbytes s) ((up(k := None)) |` ?A (Suc k))"
      using f(4) by (simp only: umem_restrict)
    hence "umem (kbytes s') (up |` ?A k) = umem (kbytes s) (up |` ?A k)" using ih(3) by (simp only: r)
    moreover have "moves kend s xs d up s' xs' (up |` ?A k)" using moves_trans [OF f(3) ih(2)] by (simp only: r)
    ultimately show ?thesis using trans [OF step ih(1)] by blast
  qed
qed


lemma above_dom:
  fixes up :: upages
  assumes "dom up \<subseteq> {..<m}" "m \<le> j"
  shows "up j = None"
proof -
  have "j \<notin> dom up" using assms by (metis lessThan_iff not_le subsetD)
  thus ?thesis by (simp only: domIff not_not)
qed

lemma restrict_below: "dom (up :: upages) \<subseteq> {..<m} \<Longrightarrow> up |` {j. j < k \<or> m \<le> j} = up |` {..<k}"
  using above_dom [of up m] by (simp add: restrict_map_def fun_eq_iff)

lemma deallocuvm_shrinks:
  assumes "uspace kend s xs d up" "oldsz \<le> USERTOP" "dom up \<subseteq> {..<pages oldsz}" "newsz < oldsz"
  shows "\<exists>s' xs'. deallocuvm kend s d oldsz newsz = Some (newsz, s') \<and>
    moves kend s xs d up s' xs' (up |` {..<pages newsz}) \<and>
    umem (kbytes s') (up |` {..<pages newsz}) = umem (kbytes s) (up |` {..<pages newsz})"
proof -
  have n: "newsz \<le> USERTOP" using assms(2,4) by (simp add: order.strict_implies_order order.strict_trans2)
  note r = restrict_below [OF assms(3), of "pages newsz"]
  obtain s' xs' where "deallocuvm_loop kend s d (pg (pages newsz)) oldsz = Some s'"
    "moves kend s xs d up s' xs' (up |` {..<pages newsz})"
    "umem (kbytes s') (up |` {..<pages newsz}) = umem (kbytes s) (up |` {..<pages newsz})"
    using deallocuvm_loop_frees [OF assms(1,2) refl pages_utop [OF n]] unfolding r by blast
  moreover have "\<not> oldsz \<le> newsz" using assms(4) by (simp only: not_le)
  with calculation(1) have "deallocuvm kend s d oldsz newsz = Some (newsz, s')"
    unfolding deallocuvm_def PGROUNDUP_pg [OF utop_phys [OF n]] by simp
  ultimately show ?thesis by blast
qed

lemma umem_beyond: "dom up \<subseteq> {..<k} \<Longrightarrow> k \<le> a div 4096 \<Longrightarrow> umem m up a = None"
  by (simp add: umem_def above_dom)

text \<open>The bytes after an address space was extended with zeroes from page \<open>k\<close> up to page \<open>n\<close>.\<close>

definition zero_fill :: "(nat \<rightharpoonup> u8) \<Rightarrow> nat \<Rightarrow> nat \<Rightarrow> (nat \<rightharpoonup> u8)" where
  "zero_fill M k n = (\<lambda>a. if k \<le> a div 4096 \<and> a div 4096 < n then Some 0 else M a)"

lemma zero_fill_none [simp]: "n \<le> k \<Longrightarrow> zero_fill M k n = M"
  by (rule ext) (auto simp: zero_fill_def)

lemma cleared_byte: "j < 4096 \<Longrightarrow> kmemset m x 0 PGSIZE (x + of_nat j) = 0"
  by (simp add: kmemset_eq PGSIZE_def unat_of_nat)

lemma allocuvm_loop_grows:
  assumes "uspace kend s xs d up" "newsz \<le> USERTOP" "dom up \<subseteq> {..<k}" "pages oldsz \<le> k" "pages newsz - k = n" "k \<le> 160"
  shows "\<exists>r s' xs' up'. allocuvm_loop kend s d oldsz newsz (pg k) = Some (r, s') \<and> moves kend s xs d up s' xs' up' \<and>
    (r = newsz \<and> n \<le> length xs \<and> dom up' = dom up \<union> {k..<pages newsz} \<and>
       umem (kbytes s') up' = zero_fill (umem (kbytes s) up) k (pages newsz)
     \<or> r = 0 \<and> length xs < n \<and> up' = up |` {..<pages oldsz} \<and> umem (kbytes s') up' = umem (kbytes s) up')"
  using assms
proof (induction n arbitrary: s xs up k)
  case 0
  have "\<not> pg k < newsz" using 0 pg_less [of k newsz] by simp
  hence "allocuvm_loop kend s d oldsz newsz (pg k) = Some (newsz, s)" by (subst allocuvm_loop.simps) simp
  moreover have "dom up \<union> {k..<pages newsz} = dom up" "zero_fill (umem (kbytes s) up) k (pages newsz) = umem (kbytes s) up"
    using "0.prems"(5) by simp_all
  ultimately show ?case using moves_refl [OF "0.prems"(1)] by (metis le0)
next
  case (Suc n)
  have k: "k < pages newsz" "k < 160" using Suc.prems pages_utop [of newsz] by simp_all
  have lt: "pg k < newsz" using k pg_less [of k newsz] by simp
  have free: "up k = None" using above_dom [OF Suc.prems(3)] by simp
  show ?case
  proof (cases xs)
    case Nil
    hence a: "kalloc s = (0, s)" using uspace_props(1) [OF Suc.prems(1)] by (simp add: vminv_def kinv_def kalloc_def)
    have "pages oldsz < pages newsz" using k Suc.prems(4) by simp
    hence old: "oldsz < newsz" by (auto simp: pages_def word_less_nat_alt)
    have "dom up \<subseteq> {..<pages newsz}" using Suc.prems(3) k(1) by auto
    then obtain s' xs' where "deallocuvm kend s d newsz oldsz = Some (oldsz, s')"
      "moves kend s xs d up s' xs' (up |` {..<pages oldsz})"
      "umem (kbytes s') (up |` {..<pages oldsz}) = umem (kbytes s) (up |` {..<pages oldsz})"
      using deallocuvm_shrinks [OF Suc.prems(1,2) _ old] by blast
    moreover from this have "allocuvm_loop kend s d oldsz newsz (pg k) = Some (0, s')"
      using lt a by (subst allocuvm_loop.simps) simp
    ultimately show ?thesis using Nil by auto
  next
    case (Cons x xs1)
    let ?m = "kmemset (kbytes s) x 0 PGSIZE"
    have u: "uspace kend s (x # xs1) d up" using Suc.prems(1) Cons by simp
    have so: "same_outside {x} (kbytes s) ?m" by (simp add: same_outside_def kmemset_eq PGSIZE_def within_def)
    note a = take_page(1) [OF u so]
    obtain s1 where f: "mappages (s\<lparr>freelist := load32 (kbytes s) x, kbytes := ?m\<rparr>) d (pg k) PGSIZE x (PTE_W OR PTE_U) = Some (0, s1)"
      "moves kend s (x # xs1) d up s1 xs1 (up(k \<mapsto> x))"
      "umem (kbytes s1) (up(k \<mapsto> x)) = (\<lambda>a. if a div 4096 = k then Some (?m (x + of_nat (a mod 4096))) else umem (kbytes s) up a)"
      using fill_user_page [OF u so k(2) free] by blast
    have x0: "x \<noteq> 0" by (rule take_page(3) [OF u so])
    have step: "allocuvm_loop kend s d oldsz newsz (pg k) = allocuvm_loop kend s1 d oldsz newsz (pg (Suc k))"
      using lt a f(1) x0 by (subst allocuvm_loop.simps) (simp add: algebra_simps)
    have dom: "dom (up(k \<mapsto> x)) \<subseteq> {..<Suc k}" using Suc.prems(3) by (auto simp: lessThan_Suc)
    have z: "zero_fill (umem (kbytes s1) (up(k \<mapsto> x))) (Suc k) (pages newsz) = zero_fill (umem (kbytes s) up) k (pages newsz)"
      unfolding f(3) using k(1) by (auto simp: zero_fill_def fun_eq_iff cleared_byte)
    have r: "(up(k \<mapsto> x)) |` {..<pages oldsz} = up |` {..<pages oldsz}" using Suc.prems(4) by (auto simp: restrict_map_def)
    have m0: "umem (kbytes s1) (up |` {..<pages oldsz}) = umem (kbytes s) (up |` {..<pages oldsz})"
    proof -
      have "umem (kbytes s1) ((up(k \<mapsto> x)) |` {..<pages oldsz}) = umem (kbytes s) (up |` {..<pages oldsz})"
        unfolding umem_restrict f(3) using Suc.prems(4) by (auto simp: restrict_map_def fun_eq_iff)
      thus ?thesis by (simp only: r)
    qed
    have nx: "pages oldsz \<le> Suc k" "pages newsz - Suc k = n" "Suc k \<le> 160" using Suc.prems(4,5) k by simp_all
    obtain q s' xs' up' where ih: "allocuvm_loop kend s1 d oldsz newsz (pg (Suc k)) = Some (q, s')"
      "moves kend s1 xs1 d (up(k \<mapsto> x)) s' xs' up'"
      "q = newsz \<and> n \<le> length xs1 \<and> dom up' = dom (up(k \<mapsto> x)) \<union> {Suc k..<pages newsz} \<and>
         umem (kbytes s') up' = zero_fill (umem (kbytes s1) (up(k \<mapsto> x))) (Suc k) (pages newsz)
       \<or> q = 0 \<and> length xs1 < n \<and> up' = (up(k \<mapsto> x)) |` {..<pages oldsz} \<and> umem (kbytes s') up' = umem (kbytes s1) up'"
      using Suc.IH [OF moves_uspace [OF f(2)] Suc.prems(2) dom nx] by blast
    have mx: "dom (up(k \<mapsto> x)) \<union> {Suc k..<pages newsz} = dom up \<union> {k..<pages newsz}" using k(1) by auto
    have mv: "moves kend s xs d up s' xs' up'" using moves_trans [OF f(2) ih(2)] Cons by simp
    from ih(3) have "q = newsz \<and> Suc n \<le> length xs \<and> dom up' = dom up \<union> {k..<pages newsz} \<and>
         umem (kbytes s') up' = zero_fill (umem (kbytes s) up) k (pages newsz)
       \<or> q = 0 \<and> length xs < Suc n \<and> up' = up |` {..<pages oldsz} \<and> umem (kbytes s') up' = umem (kbytes s) up'"
      unfolding z mx r using m0 Cons by auto
    thus ?thesis using trans [OF step ih(1)] mv by blast
  qed
qed


lemma allocuvm_grows:
  assumes "uspace kend s xs d up" "oldsz \<le> USERTOP" "utop \<le> USERTOP" "dom up \<subseteq> {..<pages oldsz}"
  shows "\<exists>r s' xs' up'. allocuvm utop kend s d oldsz newsz = Some (r, s') \<and> moves kend s xs d up s' xs' up' \<and>
    (if newsz > utop then r = 0 \<and> up' = up \<and> umem (kbytes s') up' = umem (kbytes s) up
     else if newsz < oldsz then r = oldsz \<and> up' = up \<and> umem (kbytes s') up' = umem (kbytes s) up
     else if pages newsz - pages oldsz \<le> length xs then r = newsz \<and> dom up' = dom up \<union> {pages oldsz..<pages newsz} \<and>
       umem (kbytes s') up' = zero_fill (umem (kbytes s) up) (pages oldsz) (pages newsz)
     else r = 0 \<and> up' = up \<and> umem (kbytes s') up' = umem (kbytes s) up)"
proof (cases "newsz > utop \<or> newsz < oldsz")
  case True
  thus ?thesis using moves_refl [OF assms(1)] unfolding allocuvm_def by (cases "newsz > utop") auto
next
  case False
  hence n1: "newsz \<le> utop" and n2: "oldsz \<le> newsz" by (simp_all add: not_less)
  have n: "newsz \<le> USERTOP" using n1 assms(3) by (rule order_trans)
  have le: "pages oldsz \<le> pages newsz" using n2 unfolding pages_def word_le_nat_alt by (intro div_le_mono) simp
  have up: "up |` {..<pages oldsz} = up" using above_dom [OF assms(4)] by (auto simp: restrict_map_def fun_eq_iff)
  have ru: "PGROUNDUP oldsz = pg (pages oldsz)" by (rule PGROUNDUP_pg [OF utop_phys [OF assms(2)]])
  have a: "allocuvm utop kend s d oldsz newsz = allocuvm_loop kend s d oldsz newsz (pg (pages oldsz))"
    using False by (simp only: allocuvm_def ru de_Morgan_disj if_False simp_thms)
  show ?thesis
    using allocuvm_loop_grows [OF assms(1) n assms(4) order_refl refl pages_utop [OF assms(2)]] False
    unfolding a up by (simp only: de_Morgan_disj if_False simp_thms) (metis not_le)
qed

subsection \<open>Releasing a whole address space\<close>

lemma freevm_loop_frees:
  assumes "kinv kend s xs" "aligned 4096 d" "d \<notin> set xs" "unat i + n = 1024"
    and "\<forall>j. unat i \<le> unat j \<and> unat j < 1024 \<and> present (kbytes s) d j \<longrightarrow>
      kpage kend (table (kbytes s) d j) \<and> table (kbytes s) d j \<noteq> 0 \<and> table (kbytes s) d j \<noteq> d \<and> table (kbytes s) d j \<notin> set xs"
    and "inj_on (table (kbytes s) d) {j. unat i \<le> unat j \<and> unat j < 1024 \<and> present (kbytes s) d j}"
  shows "\<exists>s' xs'. freevm_loop kend s d i n = Some s' \<and> kinv kend s' xs' \<and> d \<notin> set xs' \<and>
    set xs' = set xs \<union> table (kbytes s) d ` {j. unat i \<le> unat j \<and> unat j < 1024 \<and> present (kbytes s) d j} \<and>
    same_outside (set xs') (kbytes s) (kbytes s')"
  using assms
proof (induction n arbitrary: s xs i)
  case 0
  hence "{j :: u32. unat i \<le> unat j \<and> unat j < 1024 \<and> present (kbytes s) d j} = {}" by auto
  thus ?case using 0 by auto
next
  case (Suc n)
  let ?J = "\<lambda>i s. {j :: u32. unat i \<le> unat j \<and> unat j < 1024 \<and> present (kbytes s) d j}"
  have i: "unat i < 1024" "unat (i + 1) = Suc (unat i)" using Suc.prems(4) by (simp_all add: unat_word_ariths)
  have J: "?J i s = (if present (kbytes s) d i then {i} else {}) \<union> ?J (i + 1) s"
  proof -
    have "unat i \<le> unat j \<longleftrightarrow> j = i \<or> unat (i + 1) \<le> unat j" for j
      using i(2) by (metis Suc_leD Suc_leI le_less word_unat_eq_iff)
    thus ?thesis using i(1) by auto
  qed
  show ?case
  proof (cases "present (kbytes s) d i")
    case False
    hence e: "?J i s = ?J (i + 1) s" using J by simp
    have "freevm_loop kend s d i (Suc n) = freevm_loop kend s d (i + 1) n" using False by (simp add: present_def)
    moreover have "\<forall>j. unat (i + 1) \<le> unat j \<and> unat j < 1024 \<and> present (kbytes s) d j \<longrightarrow>
      kpage kend (table (kbytes s) d j) \<and> table (kbytes s) d j \<noteq> 0 \<and> table (kbytes s) d j \<noteq> d \<and> table (kbytes s) d j \<notin> set xs"
      using Suc.prems(5) i by auto
    ultimately show ?thesis
      using Suc.IH [OF Suc.prems(1-3), of "i + 1"] Suc.prems(4,6) i unfolding e by simp
  next
    case True
    let ?t = "table (kbytes s) d i"
    have t: "kpage kend ?t" "?t \<noteq> 0" "?t \<noteq> d" "?t \<notin> set xs" using Suc.prems(5) i(1) True by auto
    obtain s1 where s1: "kfree kend s ?t = Some s1" "kinv kend s1 (?t # xs)"
      using kfree_kinv [OF Suc.prems(1) t(1,2,4)] by blast
    have so: "same_outside {?t} (kbytes s) (kbytes s1)" using kfree_bytes [OF s1(1)] by (simp add: same_outside_def)
    have "load32 (kbytes s1) (d + 4 * j) = load32 (kbytes s) (d + 4 * j)" if "unat j < 1024" for j
      using entry_untouched [OF so _ Suc.prems(2) _ that] t(3) kpage_aligned [OF t(1)] by simp
    hence same: "present (kbytes s1) d j = present (kbytes s) d j" "table (kbytes s1) d j = table (kbytes s) d j"
      if "unat j < 1024" for j using that by (simp_all add: present_def table_def)
    have J1: "?J (i + 1) s1 = ?J (i + 1) s" using same by auto
    have img: "table (kbytes s1) d ` ?J (i + 1) s = table (kbytes s) d ` ?J (i + 1) s"
      using same by (intro image_cong) auto
    have ne: "table (kbytes s) d j \<noteq> ?t" if "j \<in> ?J (i + 1) s" for j
    proof
      assume "table (kbytes s) d j = ?t"
      hence "j = i" using inj_onD [OF Suc.prems(6)] that True i by auto
      thus False using that i(2) by auto
    qed
    have step: "freevm_loop kend s d i (Suc n) = freevm_loop kend s1 d (i + 1) n"
      using True s1(1) by (simp add: present_def table_def Let_def)
    have "inj_on (table (kbytes s1) d) (?J (i + 1) s1)"
      unfolding J1 using Suc.prems(6) same i by (auto simp: inj_on_def)
    moreover have "\<forall>j. unat (i + 1) \<le> unat j \<and> unat j < 1024 \<and> present (kbytes s1) d j \<longrightarrow>
      kpage kend (table (kbytes s1) d j) \<and> table (kbytes s1) d j \<noteq> 0 \<and> table (kbytes s1) d j \<noteq> d \<and> table (kbytes s1) d j \<notin> set (?t # xs)"
      using Suc.prems(5) same ne i by auto
    moreover have "d \<notin> set (?t # xs)" "unat (i + 1) + n = 1024" using Suc.prems(3,4) t(3) i by auto
    ultimately obtain s' xs' where ih: "freevm_loop kend s1 d (i + 1) n = Some s'" "kinv kend s' xs'" "d \<notin> set xs'"
      "set xs' = set (?t # xs) \<union> table (kbytes s1) d ` ?J (i + 1) s1" "same_outside (set xs') (kbytes s1) (kbytes s')"
      using Suc.IH [OF s1(2) Suc.prems(2), of "i + 1"] by blast
    have "set xs' = set xs \<union> table (kbytes s) d ` ?J i s" using ih(4) img J True unfolding J1 by auto
    moreover have "same_outside (set xs') (kbytes s) (kbytes s')"
    proof (rule same_outside_trans)
      show "same_outside (set xs') (kbytes s) (kbytes s1)" by (rule same_outside_mono [OF so]) (simp add: ih(4))
    qed (rule ih(5))
    ultimately show ?thesis using trans [OF step ih(1)] ih(2,3) by blast
  qed
qed


lemma freevm_frees:
  assumes "uspace kend s xs d up"
  shows "\<exists>s' xs'. freevm kend s d = Some s' \<and> kinv kend s' xs' \<and> set xs' = set xs \<union> owned_pages s d up \<and>
    same_outside (set xs') (kbytes s) (kbytes s')"
proof -
  have utop: "(0 :: u32) < USERTOP" "pages USERTOP = 160" by (simp_all add: USERTOP_def pages_def)
  have dom: "dom up \<subseteq> {..<pages USERTOP}" using uspace_props(3) [OF assms] utop(2) by simp
  have p0: "up |` {..<pages 0} = Map.empty" by (simp add: pages_def restrict_map_def fun_eq_iff)
  obtain s1 xs1 where d: "deallocuvm kend s d USERTOP 0 = Some (0, s1)" "moves kend s xs d up s1 xs1 Map.empty"
    using deallocuvm_shrinks [OF assms order_refl dom utop(1)] unfolding p0 by blast
  have v: "vminv kend s1 xs1 d" using uspace_props(1) [OF moves_uspace [OF d(2)]] .
  hence k: "kinv kend s1 xs1" "d \<notin> set xs1" "kpage kend d" "d \<noteq> 0" by (simp_all add: vminv_def)
  have dok: "\<forall>j. unat 0 \<le> unat j \<and> unat j < 1024 \<and> present (kbytes s1) d j \<longrightarrow>
      kpage kend (table (kbytes s1) d j) \<and> table (kbytes s1) d j \<noteq> 0 \<and> table (kbytes s1) d j \<noteq> d \<and> table (kbytes s1) d j \<notin> set xs1"
    "inj_on (table (kbytes s1) d) {j. unat 0 \<le> unat j \<and> unat j < 1024 \<and> present (kbytes s1) d j}"
    using v by (auto simp: vminv_def dir_ok_def inj_on_def)
  have t: "table (kbytes s1) d ` {j. unat 0 \<le> unat j \<and> unat j < 1024 \<and> present (kbytes s1) d j} = tabs (kbytes s1) d"
    by (simp add: tabs_def)
  have "unat 0 + 1024 = 1024" by simp
  then obtain s2 xs2 where l: "freevm_loop kend s1 d 0 1024 = Some s2" "kinv kend s2 xs2" "d \<notin> set xs2"
    "set xs2 = set xs1 \<union> tabs (kbytes s1) d" "same_outside (set xs2) (kbytes s1) (kbytes s2)"
    using freevm_loop_frees [OF k(1) vminv_dir [OF v] k(2) _ dok] unfolding t by blast
  obtain s3 where f: "kfree kend s2 d = Some s3" "kinv kend s3 (d # xs2)"
    using kfree_kinv [OF l(2) k(3,4) l(3)] by blast
  have set: "set (d # xs2) = set xs \<union> owned_pages s d up"
    using d(2) l(4) by (auto simp: moves_def owned_pages_def)
  have "same_outside (set (d # xs2)) (kbytes s) (kbytes s3)"
  proof (rule same_outside_trans, unfold set)
    show "same_outside (set xs \<union> owned_pages s d up) (kbytes s) (kbytes s1)" using d(2) by (simp add: moves_def)
    have "same_outside (set xs \<union> owned_pages s d up) (kbytes s1) (kbytes s2)"
      by (rule same_outside_mono [OF l(5)]) (use set in auto)
    moreover have "same_outside {d} (kbytes s2) (kbytes s3)" using kfree_bytes [OF f(1)] by (simp add: same_outside_def)
    hence "same_outside (set xs \<union> owned_pages s d up) (kbytes s2) (kbytes s3)"
      by (rule same_outside_mono) (use set in auto)
    ultimately show "same_outside (set xs \<union> owned_pages s d up) (kbytes s1) (kbytes s3)" by (rule same_outside_trans)
  qed
  moreover have "freevm kend s d = Some s3" using d(1) l(1) f(1) k(4) by (simp add: freevm_def)
  ultimately show ?thesis using f(2) set by blast
qed

subsection \<open>The kernel part of an address space\<close>

text \<open>The entry of each page of the kernel map when its data starts at page \<open>kd\<close>.\<close>

definition kernel_entry :: "nat \<Rightarrow> nat \<Rightarrow> u32" where
  "kernel_entry kd q =
     (if 160 \<le> q \<and> q < 256 \<or> kd \<le> q \<and> q < 4096 \<or> 0xFE000 \<le> q \<and> q < 1048576 then pg q OR PTE_W OR PTE_P
      else if 256 \<le> q \<and> q < kd then pg q OR 0 OR PTE_P else 0)"

text \<open>The parts of the page directory that the kernel map needs, at most 12.\<close>

definition kdirs :: "u32 set" where
  "kdirs = set [0, 1, 2, 3, 1016, 1017, 1018, 1019, 1020, 1021, 1022, 1023]"

lemma card_kdirs: "card kdirs \<le> 12"
  unfolding kdirs_def by (rule order_trans [OF card_length]) simp

lemma pg_kdirs:
  assumes "q < 4096 \<or> 0xFE000 \<le> q" "q < 1048576"
  shows "PDX (pg q) \<in> kdirs"
proof -
  have "drop_bit 22 (pg q) = (of_nat (q div 1024) :: u32)"
    using assms(2) by (simp only: word_unat_eq_iff unat_drop_bit_eq pg_unat) (simp add: drop_bit_eq_div unat_of_nat)
  moreover have "(0x3FF :: u32) = mask 10" by (simp add: mask_eq_exp_minus_1)
  ultimately have "PDX (pg q) = take_bit 10 (of_nat (q div 1024))" by (simp only: PDX_def take_bit_eq_mask)
  also have "\<dots> = of_nat (q div 1024)" using assms(2)
    by (simp add: word_unat_eq_iff unsigned_take_bit_eq unat_of_nat take_bit_nat_eq_self)
  finally have e: "PDX (pg q) = of_nat (q div 1024)" .
  have "(of_nat n :: u32) \<in> kdirs" if "n < 4 \<or> 1016 \<le> n \<and> n < 1024" for n
  proof -
    from that have "n = 0 \<or> n = 1 \<or> n = 2 \<or> n = 3 \<or> n = 1016 \<or> n = 1017 \<or> n = 1018 \<or> n = 1019 \<or>
        n = 1020 \<or> n = 1021 \<or> n = 1022 \<or> n = 1023" by arith
    thus ?thesis unfolding kdirs_def by (elim disjE) simp_all
  qed
  moreover have "q div 1024 < 4 \<or> 1016 \<le> q div 1024 \<and> q div 1024 < 1024" using assms by auto
  ultimately show ?thesis unfolding e by blast
qed

lemma tabs_few:
  assumes "dirs m d \<subseteq> kdirs"
  shows "card (tabs m d) \<le> 12"
proof -
  have "card (tabs m d) \<le> card (dirs m d)" unfolding tabs_def dirs_def by (rule card_image_le) simp
  also have "\<dots> \<le> card kdirs" using assms by (intro card_mono) (simp_all add: kdirs_def)
  also note card_kdirs
  finally show ?thesis .
qed

definition kstage :: "u32 \<Rightarrow> u32 set \<Rightarrow> mem \<Rightarrow> u32 \<Rightarrow> kmem \<Rightarrow> u32 list \<Rightarrow> (nat \<Rightarrow> u32) \<Rightarrow> bool" where
  "kstage kend A m0 d s xs f \<longleftrightarrow>
     vminv kend s xs d \<and> insert d (set xs \<union> tabs (kbytes s) d) = A \<and> same_outside A m0 (kbytes s) \<and> dirs (kbytes s) d \<subseteq> kdirs \<and>
     (\<forall>q < 1048576. entry (kbytes s) d (pg q) = f q)"

lemma kstage_map:
  assumes k: "kstage kend A m0 d s xs f" and ab: "a < b" "b \<le> 1048576" "b - a < 1048575" and f: "\<forall>q. a \<le> q \<and> q < b \<longrightarrow> f q = 0 \<and> (q < 4096 \<or> 0xFE000 \<le> q)"
  shows "\<exists>r s' xs'. mappages s d (pg a) (pg b - pg a) (pg a) perm = Some (r, s') \<and> same_outside A m0 (kbytes s') \<and>
    (r = 0 \<and> kstage kend A m0 d s' xs' (\<lambda>q. if a \<le> q \<and> q < b then pg q OR perm OR PTE_P else f q) \<or>
     r = -1 \<and> kinv kend s' [] \<and> card A \<le> 13)"
proof -
  obtain n where n: "b = a + Suc n" using ab(1) less_imp_Suc_add by auto
  have sz: "pg b - pg a = of_nat (Suc n) * PGSIZE" unfolding n by (simp add: algebra_simps)
  have v: "vminv kend s xs d" using k by (simp add: kstage_def)
  have al: "aligned 4096 (pg a)" using ab by (intro pg_aligned) simp
  have n1: "n < 1048575" using n ab by simp
  have "\<forall>j \<le> n. entry (kbytes s) d (pg a + of_nat j * PGSIZE) AND PTE_P = 0"
  proof (intro allI impI)
    fix j assume j: "j \<le> n"
    have "a + j < 1048576" "a \<le> a + j \<and> a + j < b" using j n ab by simp_all
    hence "entry (kbytes s) d (pg (a + j)) = f (a + j)" "f (a + j) = 0" using k f unfolding kstage_def by blast+
    thus "entry (kbytes s) d (pg a + of_nat j * PGSIZE) AND PTE_P = 0" by (simp only: pg_add) simp
  qed
  then obtain r s' xs' where m: "mappages s d (pg a) (pg b - pg a) (pg a) perm = Some (r, s')" "vminv kend s' xs' d"
    "set xs' \<union> tabs (kbytes s') d = set xs \<union> tabs (kbytes s) d"
    "same_outside (insert d (set xs \<union> tabs (kbytes s) d)) (kbytes s) (kbytes s')"
    "dirs (kbytes s') d \<subseteq> dirs (kbytes s) d \<union> (\<lambda>k. PDX (pg a + of_nat k * PGSIZE)) ` {..n}"
    "r = 0 \<and> entry (kbytes s') d = map_pages (entry (kbytes s) d) (pg a) n (pg a) perm \<or> r = -1 \<and> xs' = []"
    using mappages_effect [OF v al n1, of "pg a" perm] unfolding sz by blast
  have D: "dirs (kbytes s') d \<subseteq> kdirs"
  proof -
    have "PDX (pg a + of_nat j * PGSIZE) \<in> kdirs" if "j \<le> n" for j
    proof -
      have "a + j < 4096 \<or> 0xFE000 \<le> a + j" "a + j < 1048576" using that n f ab by auto
      thus ?thesis unfolding pg_add by (rule pg_kdirs)
    qed
    thus ?thesis using m(5) k by (auto simp: kstage_def)
  qed
  have A: "insert d (set xs' \<union> tabs (kbytes s') d) = A" using k m(3) by (simp add: kstage_def)
  have so: "same_outside A m0 (kbytes s')"
    using k m(4) unfolding kstage_def by (metis same_outside_trans)
  have "kstage kend A m0 d s' xs' (\<lambda>q. if a \<le> q \<and> q < b then pg q OR perm OR PTE_P else f q)"
    if e: "entry (kbytes s') d = map_pages (entry (kbytes s) d) (pg a) n (pg a) perm"
  proof -
    have "entry (kbytes s') d (pg q) = (if a \<le> q \<and> q < b then pg q OR perm OR PTE_P else f q)" if q: "q < 1048576" for q
    proof (cases "a \<le> q \<and> q < b")
      case True
      then obtain j where j: "q = a + j" "j \<le> n" using n le_Suc_ex by fastforce
      have "map_pages (entry (kbytes s) d) (pg a) n (pg a) perm (pg q) = (pg a + of_nat j * PGSIZE) OR perm OR PTE_P"
        using j n1 by (intro map_pages_in) (simp_all add: pg_add)
      thus ?thesis using True j e by (simp add: pg_add)
    next
      case False
      have "map_pages (entry (kbytes s) d) (pg a) n (pg a) perm (pg q) = entry (kbytes s) d (pg q)"
      proof (rule map_pages_other, intro allI impI)
        fix j assume "j \<le> n"
        hence "a + j < 1048576" "q \<noteq> a + j" using False n ab by auto
        thus "drop_bit 12 (pg q) \<noteq> drop_bit 12 (pg a + of_nat j * PGSIZE)" unfolding pg_add using pg_drop_eq [OF q, of "a + j"] by blast
      qed
      thus ?thesis using False e k q by (auto simp: kstage_def)
    qed
    thus ?thesis using m(2) A D so by (simp add: kstage_def)
  qed
  moreover have "card A \<le> 13" if "xs' = []"
  proof -
    have "card (insert d (tabs (kbytes s') d)) \<le> Suc (card (tabs (kbytes s') d))" by (rule card_insert_le_m1) simp_all
    thus ?thesis using tabs_few [OF D] A that by simp
  qed
  ultimately show ?thesis using m(1,2,6) so by (auto simp: vminv_def)
qed


fun region_map :: "(nat \<Rightarrow> u32) \<Rightarrow> (nat \<times> nat \<times> u32) list \<Rightarrow> nat \<Rightarrow> u32" where
  "region_map f [] = f"
| "region_map f ((a, b, perm) # rs) = region_map (\<lambda>q. if a \<le> q \<and> q < b then pg q OR perm OR PTE_P else f q) rs"

fun regions_ok :: "(nat \<Rightarrow> u32) \<Rightarrow> (nat \<times> nat \<times> u32) list \<Rightarrow> bool" where
  "regions_ok f [] = True"
| "regions_ok f ((a, b, perm) # rs) =
     (a < b \<and> b \<le> 1048576 \<and> b - a < 1048575 \<and> (\<forall>q. a \<le> q \<and> q < b \<longrightarrow> f q = 0 \<and> (q < 4096 \<or> 0xFE000 \<le> q)) \<and>
      regions_ok (\<lambda>q. if a \<le> q \<and> q < b then pg q OR perm OR PTE_P else f q) rs)"

lemma setupkvm_loop_maps:
  assumes "kstage kend A m0 d s xs f" "regions_ok f rs"
  shows "\<exists>r s' xs'. setupkvm_loop s d (map (\<lambda>(a, b, perm). (pg a, pg b, perm)) rs) = Some (r, s') \<and> same_outside A m0 (kbytes s') \<and>
    (r = d \<and> kstage kend A m0 d s' xs' (region_map f rs) \<or> r = 0 \<and> kinv kend s' [] \<and> card A \<le> 13)"
  using assms
proof (induction rs arbitrary: s xs f)
  case Nil
  thus ?case by (auto simp: kstage_def)
next
  case (Cons x rs)
  obtain a b perm where x: "x = (a, b, perm)" by (cases x)
  let ?f = "\<lambda>q. if a \<le> q \<and> q < b then pg q OR perm OR PTE_P else f q"
  have ok: "a < b" "b \<le> 1048576" "b - a < 1048575" "\<forall>q. a \<le> q \<and> q < b \<longrightarrow> f q = 0 \<and> (q < 4096 \<or> 0xFE000 \<le> q)" "regions_ok ?f rs"
    using Cons.prems(2) x by simp_all
  obtain r s' xs' where m: "mappages s d (pg a) (pg b - pg a) (pg a) perm = Some (r, s')" "same_outside A m0 (kbytes s')"
    "r = 0 \<and> kstage kend A m0 d s' xs' ?f \<or> r = -1 \<and> kinv kend s' [] \<and> card A \<le> 13"
    using kstage_map [OF Cons.prems(1) ok(1-4), of perm] by blast
  have l: "setupkvm_loop s d (map (\<lambda>(a, b, perm). (pg a, pg b, perm)) (x # rs)) =
      (if r < 0 then Some (0, s') else setupkvm_loop s' d (map (\<lambda>(a, b, perm). (pg a, pg b, perm)) rs))"
    by (simp only: x list.map setupkvm_loop.simps m(1) option.case prod.case)
  from m(3) show ?case
  proof
    assume r: "r = 0 \<and> kstage kend A m0 d s' xs' ?f"
    have "region_map f (x # rs) = region_map ?f rs" by (simp only: x region_map.simps)
    thus ?thesis using Cons.IH [of s' xs' ?f] r ok(5) l by (simp del: region_map.simps)
  next
    assume "r = -1 \<and> kinv kend s' [] \<and> card A \<le> 13"
    thus ?thesis using l m(2) by auto
  qed
qed

definition kregions :: "nat \<Rightarrow> (nat \<times> nat \<times> u32) list" where
  "kregions kd = [(160, 256, PTE_W), (256, kd, 0), (kd, 4096, PTE_W), (0xFE000, 1048576, PTE_W)]"

lemma kmap_pages:
  assumes "256 < kd" "kd < 4096"
  shows "kmap (pg kd) = map (\<lambda>(a, b, perm). (pg a, pg b, perm)) (kregions kd)"
    and "regions_ok (\<lambda>q. 0) (kregions kd)" and "region_map (\<lambda>q. 0) (kregions kd) = kernel_entry kd"
proof -
  have "(of_nat 1048576 :: u32) * PGSIZE = 0" by (simp add: PGSIZE_def)
  moreover have "pg 160 = USERTOP" "pg 256 = 0x100000" "pg 4096 = PHYSTOP" "pg 0xFE000 = 0xFE000000"
    by (simp_all add: PGSIZE_def USERTOP_def PHYSTOP_def)
  ultimately show "kmap (pg kd) = map (\<lambda>(a, b, perm). (pg a, pg b, perm)) (kregions kd)"
    by (simp only: kmap_def kregions_def list.map prod.case)
  show "regions_ok (\<lambda>q. 0) (kregions kd)" using assms by (simp add: kregions_def) arith
  show "region_map (\<lambda>q. 0) (kregions kd) = kernel_entry kd" using assms by (auto simp: kregions_def kernel_entry_def)
qed

lemma kernel_space:
  assumes k: "kstage kend A m0 d s xs (kernel_entry kd)" and kd: "256 < kd" "kd < 4096"
  shows "uspace kend s xs d Map.empty"
proof -
  have e: "entry (kbytes s) d (pg q) = kernel_entry kd q" if "q < 1048576" for q using k that by (simp add: kstage_def)
  have "entry (kbytes s) d (pg 160) = pg 160 OR PTE_W OR PTE_P" using e [of 160] by (simp add: kernel_entry_def)
  moreover have "pg 160 OR PTE_W OR PTE_P \<noteq> 0"
  proof -
    have "bit (pg 160 OR PTE_W OR PTE_P) 0" by (simp add: bit_simps PTE_P_def)
    thus ?thesis by (metis bit_0_eq bot_apply bot_bool_def)
  qed
  ultimately have "present (kbytes s) d (PDX (pg 160))" unfolding entry_eq by (metis (full_types))
  hence "present (kbytes s) d 0" by (simp add: pg_PDX del: of_nat_numeral)
  moreover have "\<forall>q < 160. entry (kbytes s) d (pg q) = 0" using e kd by (simp add: kernel_entry_def)
  ultimately show ?thesis using k by (simp add: uspace_def kstage_def)
qed

lemma setupkvm_maps:
  assumes k: "kinv kend s (d # xs)" and kd: "256 < kd" "kd < 4096"
  shows "\<exists>r s' xs'. setupkvm (pg kd) s = Some (r, s') \<and> same_outside (set (d # xs)) (kbytes s) (kbytes s') \<and>
    (r = d \<and> uspace kend s' xs' d Map.empty \<and> set xs' \<union> owned_pages s' d Map.empty = set (d # xs) \<and>
       (\<forall>q < 1048576. entry (kbytes s') d (pg q) = kernel_entry kd q) \<and> length (d # xs) \<le> length xs' + 13
     \<or> r = 0 \<and> kinv kend s' [] \<and> length (d # xs) \<le> 13)"
proof -
  note a = kalloc_kinv [OF k]
  let ?A = "set (d # xs)" and ?m0 = "kmemset (kbytes s) d 0 PGSIZE"
  define s0 where "s0 = s\<lparr>freelist := load32 (kbytes s) d, kbytes := ?m0\<rparr>"
  have al: "aligned 4096 d" by (rule kpage_aligned [OF a(4)])
  have zero: "load32 ?m0 (d + 4 * i) = 0" if "unat i < 1024" for i by (rule entry_load_cleared [OF al that])
  have np: "\<not> present (kbytes s0) d i" if "unat i < 1024" for i using zero [OF that] by (simp add: s0_def present_def)
  have so0: "same_outside {d} (kbytes s) ?m0" by (simp add: same_outside_def kmemset_eq PGSIZE_def within_def)
  have "flist ?m0 (load32 (kbytes s) d) xs = flist (kbytes s) (load32 (kbytes s) d) xs"
    using so0 a(5) al kinv_aligned [OF k] by (intro flist_frame [of d]) (auto simp: same_outside_def)
  hence "kinv kend s0 xs" using a(2) by (simp add: kinv_def s0_def)
  moreover have "tabs (kbytes s0) d = {}" "dirs (kbytes s0) d = {}" using np by (auto simp: tabs_def dirs_def)
  moreover have "entry (kbytes s0) d va = 0" for va using np [OF PDX_lt] by (simp add: entry_eq)
  moreover have "same_outside ?A (kbytes s) (kbytes s0)" by (rule same_outside_mono [of "{d}"]) (use so0 in \<open>simp_all add: s0_def\<close>)
  ultimately have k0: "kstage kend ?A (kbytes s) d s0 xs (\<lambda>q. 0)"
    using a np by (simp add: kstage_def vminv_def dir_ok_def)
  have "\<exists>r s' xs'. setupkvm_loop s0 d (kmap (pg kd)) = Some (r, s') \<and> same_outside ?A (kbytes s) (kbytes s') \<and>
    (r = d \<and> kstage kend ?A (kbytes s) d s' xs' (kernel_entry kd) \<or> r = 0 \<and> kinv kend s' [] \<and> card ?A \<le> 13)"
    unfolding kmap_pages(1) [OF kd]
    using setupkvm_loop_maps [OF k0 kmap_pages(2) [OF kd]] unfolding kmap_pages(3) [OF kd] .
  then obtain r s' xs' where l: "setupkvm_loop s0 d (kmap (pg kd)) = Some (r, s')" "same_outside ?A (kbytes s) (kbytes s')"
    "r = d \<and> kstage kend ?A (kbytes s) d s' xs' (kernel_entry kd) \<or> r = 0 \<and> kinv kend s' [] \<and> card ?A \<le> 13"
    by blast
  have "distinct (d # xs)" using k by (simp add: kinv_def)
  hence cA: "card ?A = length xs + 1" using distinct_card by fastforce
  have "setupkvm (pg kd) s = Some (r, s')" using a(1,3) l(1) by (simp add: setupkvm_def s0_def)
  moreover have "uspace kend s' xs' d Map.empty \<and> set xs' \<union> owned_pages s' d Map.empty = set (d # xs) \<and>
      (\<forall>q < 1048576. entry (kbytes s') d (pg q) = kernel_entry kd q) \<and> length (d # xs) \<le> length xs' + 13"
    if "kstage kend ?A (kbytes s) d s' xs' (kernel_entry kd)"
  proof -
    note ks = kernel_space [OF that kd]
    have "set xs' \<union> owned_pages s' d Map.empty = ?A" using that by (auto simp: kstage_def owned_pages_def)
    moreover have "card (tabs (kbytes s') d) \<le> 12" using that tabs_few by (simp add: kstage_def)
    ultimately show ?thesis using uspace_card [OF ks] ks that cA by (simp add: kstage_def)
  qed
  moreover have "card ?A \<le> 13 \<Longrightarrow> length (d # xs) \<le> 13" using cA by simp
  ultimately show ?thesis using l(2,3) by blast
qed


subsection \<open>Copying an address space\<close>

text \<open>Two address spaces side by side: what one does is invisible to the other.\<close>

lemma moves_isolated:
  assumes m: "moves kend s xs d up s' xs' up'" and u: "uspace kend s xs d up" and u0: "uspace kend s xs d0 up0"
    and dis: "owned_pages s d0 up0 \<inter> owned_pages s d up = {}"
  shows "uspace kend s' xs' d0 up0" "umem (kbytes s') up0 = umem (kbytes s) up0" "owned_pages s' d0 up0 = owned_pages s d0 up0"
    "owned_pages s' d0 up0 \<inter> owned_pages s' d up' = {}"
proof -
  have so: "same_outside (set xs \<union> owned_pages s d up) (kbytes s) (kbytes s')"
    and eq: "set xs' \<union> owned_pages s' d up' = set xs \<union> owned_pages s d up" using m by (simp_all add: moves_def)
  have k': "kinv kend s' xs'" using uspace_props(1) [OF moves_uspace [OF m]] by (simp add: vminv_def)
  have k: "kinv kend s xs" using uspace_props(1) [OF u] by (simp add: vminv_def)
  have P: "(set xs \<union> owned_pages s d up) \<inter> owned_pages s d0 up0 = {}" using owned_not_free(1) [OF u0] dis by blast
  hence x': "set xs' \<inter> owned_pages s d0 up0 = {}" using eq by blast
  have al: "\<forall>q \<in> set xs \<union> owned_pages s d up. aligned 4096 q" using kinv_aligned [OF k] owned_aligned [OF u] by blast
  note f = uspace_frame [OF u0 k' x' so al P]
  show "uspace kend s' xs' d0 up0" "umem (kbytes s') up0 = umem (kbytes s) up0" "owned_pages s' d0 up0 = owned_pages s d0 up0"
    by (rule f)+
  show "owned_pages s' d0 up0 \<inter> owned_pages s' d up' = {}" unfolding f(3) using P eq by blast
qed

lemma copyuvm_pages_copies:
  assumes "uspace kend s xs d0 up0" "uspace kend s xs d up" "owned_pages s d0 up0 \<inter> owned_pages s d up = {}"
    and "dom up0 \<subseteq> {..<pages sz}" "sz \<le> USERTOP" "dom up = {..<k}" "{..<k} \<subseteq> dom up0" "k \<le> pages sz" "pages sz - k = n"
    and "umem (kbytes s) up = umem (kbytes s) up0 |` {a. a div 4096 < k}"
  shows "copyuvm_pages s d0 d (pg k) sz = None \<and> dom up0 \<noteq> {..<pages sz} \<or>
    (\<exists>ok s' xs' up'. copyuvm_pages s d0 d (pg k) sz = Some (ok, s') \<and> moves kend s xs d up s' xs' up' \<and>
    (if ok then dom up' = dom up0 \<and> umem (kbytes s') up' = umem (kbytes s) up0 else xs' = [] \<and> dom up' \<subseteq> dom up0))"
  using assms
proof (induction n arbitrary: s xs up k)
  case 0
  have k: "k = pages sz" using 0 by simp
  have "\<not> pg k < sz" using 0 pg_less [of k sz] pages_utop [of sz] by simp
  hence "copyuvm_pages s d0 d (pg k) sz = Some (True, s)" by (subst copyuvm_pages.simps) simp
  moreover have "umem (kbytes s) up0 |` {a. a div 4096 < k} = umem (kbytes s) up0"
    using umem_beyond [of up0 k] 0 k by (auto simp: restrict_map_def fun_eq_iff not_less)
  moreover have "dom up0 = {..<k}" using "0.prems"(4,7) k by auto
  ultimately show ?case using moves_refl [OF "0.prems"(2)] "0.prems"(6,10) k by auto
next
  case (Suc n)
  have k: "k < pages sz" "k < 160" using Suc.prems pages_utop [of sz] by simp_all
  have lt: "pg k < sz" using k pg_less [of k sz] by simp
  note p0 = uspace_props [OF Suc.prems(1)]
  note w = walk_user [OF p0(1,2) k(2)]
  show ?case
  proof (cases "up0 k")
    case None
    hence "load32 (kbytes s) (table (kbytes s) d0 0 + 4 * of_nat k) AND PTE_P = 0" using p0(6) [OF k(2)] w(3) by simp
    hence "copyuvm_pages s d0 d (pg k) sz = None"
      using lt w(1,2) by (subst copyuvm_pages.simps) (simp add: Let_def)
    moreover have "k \<notin> dom up0" using None by (simp add: domIff)
    ultimately show ?thesis using k(1) by auto
  next
    case u: (Some u)
  have e: "load32 (kbytes s) (table (kbytes s) d0 0 + 4 * of_nat k) = u OR (PTE_W OR PTE_U) OR PTE_P"
    using p0(6) [OF k(2)] w(3) u by simp
  have ua: "aligned 4096 u" "kpage kend u" using p0(5) [OF u] by simp_all
  show ?thesis
  proof (cases xs)
    case Nil
    hence a: "kalloc s = (0, s)" using p0(1) by (simp add: vminv_def kinv_def kalloc_def)
    have "copyuvm_pages s d0 d (pg k) sz = Some (False, s)"
      using lt w(1,2) e user_entry_decode(1) [OF ua(1)] a by (subst copyuvm_pages.simps) (simp add: Let_def)
    moreover have "dom up \<subseteq> dom up0" using Suc.prems(6,7) by simp
    ultimately show ?thesis using moves_refl [OF Suc.prems(2)] Nil by auto
  next
    case (Cons x xs1)
    have c: "uspace kend s (x # xs1) d up" using Suc.prems(2) Cons by simp
    let ?m = "memmove (kbytes s) x u PGSIZE"
    have kx: "kpage kend x" using owned_not_free uspace_props(1) [OF c] by (simp add: vminv_def kinv_def)
    have mm: "?m = (\<lambda>a. if unat (a - x) < 4096 then kbytes s (u + (a - x)) else kbytes s a)"
      using kx ua(2) by (subst memmove_eq) (simp_all add: PGSIZE_def kpage_def PHYSTOP_def word_less_nat_alt)
    have so: "same_outside {x} (kbytes s) ?m" by (simp add: same_outside_def mm within_def)
    have free: "up k = None" using Suc.prems(6) by (metis domIff lessThan_iff less_irrefl)
    note a = take_page [OF c so]
    obtain s1 where f: "mappages (s\<lparr>freelist := load32 (kbytes s) x, kbytes := ?m\<rparr>) d (pg k) PGSIZE x (PTE_W OR PTE_U) = Some (0, s1)"
      "moves kend s (x # xs1) d up s1 xs1 (up(k \<mapsto> x))"
      "umem (kbytes s1) (up(k \<mapsto> x)) = (\<lambda>a. if a div 4096 = k then Some (?m (x + of_nat (a mod 4096))) else umem (kbytes s) up a)"
      using fill_user_page [OF c so k(2) free] by blast
    have step: "copyuvm_pages s d0 d (pg k) sz = copyuvm_pages s1 d0 d (pg (Suc k)) sz"
      using lt w(1,2) e user_entry_decode(1,2) [OF ua(1)] a(1,3) f(1) by (subst copyuvm_pages.simps) (simp add: Let_def algebra_simps)
    have pr: "uspace kend s (x # xs1) d0 up0" using Suc.prems(1) Cons by simp
    note iso = moves_isolated [OF f(2) c pr Suc.prems(3)]
    have dom: "dom (up(k \<mapsto> x)) = {..<Suc k}" using Suc.prems(6) by (auto simp: lessThan_Suc)
    have byte: "?m (x + of_nat (a mod 4096)) = kbytes s (u + of_nat (a mod 4096))" for a
      by (simp add: mm unat_of_nat)
    have "umem (kbytes s) up0 a = Some (kbytes s (u + of_nat (a mod 4096)))" if "a div 4096 = k" for a
      using that u by (simp add: umem_def)
    hence um: "umem (kbytes s1) (up(k \<mapsto> x)) = umem (kbytes s1) up0 |` {a. a div 4096 < Suc k}"
      unfolding f(3) iso(2) byte Suc.prems(10) by (auto simp: restrict_map_def fun_eq_iff)
    have nx: "Suc k \<le> pages sz" "pages sz - Suc k = n" using k Suc.prems(9) by simp_all
    have sub: "{..<Suc k} \<subseteq> dom up0" using Suc.prems(7) u by (auto simp: lessThan_Suc)
    note IH = Suc.IH [OF iso(1) moves_uspace [OF f(2)] iso(4) Suc.prems(4,5) dom sub nx um]
    show ?thesis
    proof (cases "copyuvm_pages s1 d0 d (pg (Suc k)) sz")
      case None
      thus ?thesis using IH step by simp
    next
      case (Some res)
    then obtain ok s' xs' up' where ih: "copyuvm_pages s1 d0 d (pg (Suc k)) sz = Some (ok, s')"
      "moves kend s1 xs1 d (up(k \<mapsto> x)) s' xs' up'"
      "if ok then dom up' = dom up0 \<and> umem (kbytes s') up' = umem (kbytes s1) up0 else xs' = [] \<and> dom up' \<subseteq> dom up0"
      using IH by (auto simp del: fun_upd_apply of_nat_Suc)
    have "moves kend s xs d up s' xs' up'" using moves_trans [OF f(2) ih(2)] Cons by simp
    thus ?thesis using trans [OF step ih(1)] ih(3) unfolding iso(2) by blast
    qed
  qed
  qed
qed


lemma copyuvm_forks:
  assumes u0: "uspace kend s xs d0 up0" and dom: "dom up0 \<subseteq> {..<pages sz}" and sz: "sz \<le> USERTOP" and kd: "256 < kd" "kd < 4096"
  shows "copyuvm (pg kd) kend USERTOP s d0 sz = None \<and> dom up0 \<noteq> {..<pages sz} \<or>
    (\<exists>r s' xs'. copyuvm (pg kd) kend USERTOP s d0 sz = Some (r, s') \<and> kinv kend s' xs' \<and>
    uspace kend s' xs' d0 up0 \<and> umem (kbytes s') up0 = umem (kbytes s) up0 \<and> owned_pages s' d0 up0 = owned_pages s d0 up0 \<and>
    same_outside (set xs) (kbytes s) (kbytes s') \<and>
    (r \<noteq> 0 \<and> (\<exists>up. uspace kend s' xs' r up \<and> dom up = dom up0 \<and> umem (kbytes s') up = umem (kbytes s) up0 \<and>
        owned_pages s' d0 up0 \<inter> owned_pages s' r up = {} \<and> set xs' \<union> owned_pages s' r up = set xs)
     \<or> r = 0 \<and> set xs' \<subseteq> set xs \<and> length xs < 14 + card (dom up0)))"
proof (cases xs)
  case Nil
  have k: "kinv kend s xs" using uspace_props(1) [OF u0] by (simp add: vminv_def)
  hence "setupkvm (pg kd) s = Some (0, s)" using Nil by (simp add: setupkvm_def kinv_def kalloc_def)
  hence "copyuvm (pg kd) kend USERTOP s d0 sz = Some (0, s)" by (simp add: copyuvm_def)
  thus ?thesis using u0 k Nil by (intro disjI2 exI [of _ 0] exI [of _ s] exI [of _ xs]) simp
next
  case (Cons d xs1)
  have k: "kinv kend s (d # xs1)" using uspace_props(1) [OF u0] Cons by (simp add: vminv_def)
  have d0: "d \<noteq> 0" using kalloc_kinv(3) [OF k] .
  have al: "\<forall>q \<in> set xs. aligned 4096 q" using kinv_aligned [OF k] Cons by simp
  have P: "set xs \<inter> owned_pages s d0 up0 = {}" using owned_not_free(1) [OF u0] by blast
  have frame: "uspace kend s' xs' d0 up0 \<and> umem (kbytes s') up0 = umem (kbytes s) up0 \<and> owned_pages s' d0 up0 = owned_pages s d0 up0"
    if "kinv kend s' xs'" "set xs' \<subseteq> set xs" "same_outside (set xs) (kbytes s) (kbytes s')" for s' xs'
    using uspace_frame [OF u0 that(1) _ that(3) al P] P that(2) by blast
  obtain r s1 ys where st: "setupkvm (pg kd) s = Some (r, s1)" "same_outside (set xs) (kbytes s) (kbytes s1)"
    "r = d \<and> uspace kend s1 ys d Map.empty \<and> set ys \<union> owned_pages s1 d Map.empty = set xs \<and> length xs \<le> length ys + 13 \<or>
     r = 0 \<and> kinv kend s1 [] \<and> length xs \<le> 13"
    using setupkvm_maps [OF k kd] unfolding Cons by blast
  from st(3) show ?thesis
  proof
    assume r: "r = 0 \<and> kinv kend s1 [] \<and> length xs \<le> 13"
    hence "copyuvm (pg kd) kend USERTOP s d0 sz = Some (0, s1)" using st(1) by (simp add: copyuvm_def)
    thus ?thesis using frame [of s1 "[]"] r st(2) by auto
  next
    assume r: "r = d \<and> uspace kend s1 ys d Map.empty \<and> set ys \<union> owned_pages s1 d Map.empty = set xs \<and> length xs \<le> length ys + 13"
    have ky: "kinv kend s1 ys" using r uspace_props(1) by (simp add: uspace_def vminv_def)
    have "set ys \<subseteq> set xs" using r by blast
    note fr1 = frame [OF ky this st(2)]
    have dis: "owned_pages s1 d0 up0 \<inter> owned_pages s1 d Map.empty = {}" using fr1 P r by blast
    have em: "umem (kbytes s1) Map.empty = umem (kbytes s1) up0 |` {a. a div 4096 < 0}" by (simp add: umem_def restrict_map_def fun_eq_iff)
    note CP = copyuvm_pages_copies [OF conjunct1 [OF fr1] conjunct1 [OF conjunct2 [OF r]] dis dom sz _ _ le0 _ em]
    show ?thesis
    proof (cases "copyuvm_pages s1 d0 d (pg 0) sz")
      case None
      hence "copyuvm (pg kd) kend USERTOP s d0 sz = None" using st(1) r d0 by (simp add: copyuvm_def)
      thus ?thesis using None CP by simp
    next
      case (Some res)
    then obtain ok s2 xs2 up where cp: "copyuvm_pages s1 d0 d (pg 0) sz = Some (ok, s2)" "moves kend s1 ys d Map.empty s2 xs2 up"
      "if ok then dom up = dom up0 \<and> umem (kbytes s2) up = umem (kbytes s1) up0 else xs2 = [] \<and> dom up \<subseteq> dom up0"
      using CP by auto
    note u2 = moves_uspace [OF cp(2)]
    note iso = moves_isolated [OF cp(2) conjunct1 [OF conjunct2 [OF r]] conjunct1 [OF fr1] dis]
    have all: "set xs2 \<union> owned_pages s2 d up = set xs" using cp(2) r by (simp add: moves_def)
    have "same_outside (set xs) (kbytes s1) (kbytes s2)" using cp(2) r by (simp add: moves_def)
    hence so2: "same_outside (set xs) (kbytes s) (kbytes s2)" by (rule same_outside_trans [OF st(2)])
    have k2: "kinv kend s2 xs2" using uspace_props(1) [OF u2] by (simp add: vminv_def)
    show ?thesis
    proof (cases ok)
      case True
      have sh: "copyuvm_shared s2 d0 d (USERTOP - PGSIZE) USERTOP = Some s2"
        by (subst copyuvm_shared.simps) (simp add: USERTOP_def PGSIZE_def)
      have "copyuvm (pg kd) kend USERTOP s d0 sz = Some (d, s2)"
        using st(1) r d0 cp(1) sh True by (simp add: copyuvm_def)
      moreover have "umem (kbytes s2) up = umem (kbytes s) up0" "dom up = dom up0" using cp(3) True fr1 by simp_all
      moreover have "set xs2 \<subseteq> set xs" using all by blast
      ultimately show ?thesis using frame [OF k2 _ so2] k2 so2 u2 iso(4) all d0 by blast
    next
      case False
      obtain s3 xs3 where f: "freevm kend s2 d = Some s3" "kinv kend s3 xs3" "set xs3 = set xs2 \<union> owned_pages s2 d up"
        "same_outside (set xs3) (kbytes s2) (kbytes s3)"
        using freevm_frees [OF u2] by blast
      have "copyuvm (pg kd) kend USERTOP s d0 sz = Some (0, s3)"
        using st(1) r d0 cp(1) f(1) False by (simp add: copyuvm_def)
      moreover have "length xs < 14 + card (dom up0)"
      proof -
        have "xs2 = []" "dom up \<subseteq> dom up0" using cp(3) False by simp_all
        hence "length ys \<le> card (dom up0)"
          using moves_count [OF conjunct1 [OF conjunct2 [OF r]] cp(2)] card_mono [of "dom up0" "dom up"]
            finite_subset [OF dom] by simp
        thus ?thesis using r by simp
      qed
      moreover have "set xs3 = set xs" using f(3) all by simp
      moreover from this have "same_outside (set xs) (kbytes s) (kbytes s3)" using same_outside_trans [OF so2] f(4) by simp
      ultimately show ?thesis using frame [OF f(2)] f(2) by blast
    qed
    qed
  qed
qed


subsection \<open>Writing to user memory\<close>

text \<open>The bytes \<open>f 0 \<dots> f (n - 1)\<close> stored from user address \<open>va\<close> on.\<close>

definition poke :: "(nat \<rightharpoonup> u8) \<Rightarrow> nat \<Rightarrow> nat \<Rightarrow> (nat \<Rightarrow> u8) \<Rightarrow> (nat \<rightharpoonup> u8)" where
  "poke M va n f = (\<lambda>a. if va \<le> a \<and> a < va + n then Some (f (a - va)) else M a)"

lemma poke_0 [simp]: "poke M va 0 f = M"
  by (auto simp: poke_def fun_eq_iff)

lemma poke_poke: "poke (poke M va n f) (va + n) m (\<lambda>i. f (n + i)) = poke M va (n + m) f"
  by (rule ext) (auto simp: poke_def)

text \<open>A write inside one user page is seen at exactly that user address.\<close>

lemma write_user_page:
  assumes u: "uspace kend s xs d up" and q: "up q = Some p" and r: "off + n \<le> 4096"
    and m': "m' = (\<lambda>a. if unat (a - (p + of_nat off)) < n then f (unat (a - (p + of_nat off))) else kbytes s a)"
  shows "uspace kend (s\<lparr>kbytes := m'\<rparr>) xs d up" "tabs m' d = tabs (kbytes s) d"
    "umem m' up = poke (umem (kbytes s) up) (q * 4096 + off) n f" "same_outside (ran up) (kbytes s) m'"
proof -
  note pr = uspace_props [OF u]
  note p = pr(5) [OF q]
  have inp: "unat (a - (p + of_nat off)) < n \<Longrightarrow> in_page a p" for a
  proof -
    assume a: "unat (a - (p + of_nat off)) < n"
    have "unat (x + of_nat off) \<le> unat x + off" for x :: u32
      by (simp only: unat_word_ariths unat_of_nat) (meson add_left_mono le_trans mod_less_eq_dividend)
    from this [of "a - (p + of_nat off)"] have "unat (a - p) \<le> unat (a - (p + of_nat off)) + off" by simp
    thus "in_page a p" using a r by (simp add: within_def)
  qed
  have so: "same_outside {p} (kbytes s) m'" unfolding same_outside_def m' using inp by auto
  have al: "\<forall>t \<in> {p}. aligned 4096 t" using p by simp
  have P: "{p} \<inter> insert d (tabs (kbytes s) d) = {}" using p by simp
  have k: "kinv kend (s\<lparr>kbytes := m'\<rparr>) xs"
  proof -
    have "kinv kend s xs" using pr(1) by (simp add: vminv_def)
    moreover have "flist m' (freelist s) xs = flist (kbytes s) (freelist s) xs"
      using so p kinv_aligned [OF calculation] by (intro flist_frame [of p]) (auto simp: same_outside_def)
    ultimately show ?thesis by (simp add: kinv_def)
  qed
  have x: "set xs \<inter> insert d (tabs (kbytes s) d) = {}" using pr(1) tabs_props(4) [OF pr(1)] by (auto simp: vminv_def)
  have so': "same_outside {p} (kbytes s) (kbytes (s\<lparr>kbytes := m'\<rparr>))" using so by simp
  note f = vminv_frame [OF pr(1) k x so' al P]
  have "present m' d 0" using f(4) [of 0] pr(2) by simp
  thus "uspace kend (s\<lparr>kbytes := m'\<rparr>) xs d up" using u f(1-3) by (simp add: uspace_def)
  show "tabs m' d = tabs (kbytes s) d" using f(2) by simp
  show "same_outside (ran up) (kbytes s) m'" by (rule same_outside_mono [OF so]) (use q in \<open>auto simp: ran_def\<close>)
  show "umem m' up = poke (umem (kbytes s) up) (q * 4096 + off) n f"
  proof
    fix a
    show "umem m' up a = poke (umem (kbytes s) up) (q * 4096 + off) n f a"
    proof (cases "a div 4096 = q")
      case True
      let ?j = "a mod 4096"
      have a: "a = q * 4096 + ?j" using True by (metis div_mult_mod_eq)
      have "unat ((p + of_nat ?j) - (p + of_nat off)) < n \<longleftrightarrow> off \<le> ?j \<and> ?j < off + n"
        and "off \<le> ?j \<Longrightarrow> unat ((p + of_nat ?j) - (p + of_nat off)) = ?j - off"
        using r by (simp_all add: unat_sub_cases unat_of_nat word_le_nat_alt) arith
      hence "m' (p + of_nat ?j) = (if off \<le> ?j \<and> ?j < off + n then f (?j - off) else kbytes s (p + of_nat ?j))"
        unfolding m' by simp
      moreover have "q * 4096 + off \<le> a \<and> a < q * 4096 + off + n \<longleftrightarrow> off \<le> ?j \<and> ?j < off + n" "a - (q * 4096 + off) = ?j - off"
        using a by linarith+
      ultimately show ?thesis using True q by (simp add: umem_def poke_def)
    next
      case False
      have "\<not> (q * 4096 + off \<le> a \<and> a < q * 4096 + off + n)"
      proof
        assume h: "q * 4096 + off \<le> a \<and> a < q * 4096 + off + n"
        hence "q * 4096 \<le> a" "a < (q + 1) * 4096" using r by auto
        hence "a div 4096 = q" by (metis Suc_eq_plus1 div_nat_eqI mult.commute)
        thus False using False by simp
      qed
      moreover have "umem m' up a = umem (kbytes s) up a"
      proof (cases "up (a div 4096)")
        case (Some v)
        have "v \<noteq> p" using inj_onD [OF pr(4), of "a div 4096" q] Some q False by auto
        moreover have "in_page (v + of_nat (a mod 4096)) v" by (simp add: within_def unat_of_nat)
        ultimately have "m' (v + of_nat (a mod 4096)) = kbytes s (v + of_nat (a mod 4096))"
          using page_untouched [OF so al] pr(5) [OF Some] by blast
        thus ?thesis using Some by (simp add: umem_def)
      qed (simp add: umem_def)
      ultimately show ?thesis unfolding poke_def by auto
    qed
  qed
qed


lemma copyout_pokes:
  assumes "uspace kend s xs d up" "unat len = n" "unat va + n \<le> 655360" "unat buf + n < 2 ^ 32"
    and "\<forall>i < n. \<forall>p \<in> ran up. \<not> in_page (buf + of_nat i) p"
    and "\<forall>a. unat va \<le> a \<and> a < unat va + n \<longrightarrow> a div 4096 \<in> dom up"
  shows "\<exists>s'. copyout s d va buf len = Some (0, s') \<and> uspace kend s' xs d up \<and> tabs (kbytes s') d = tabs (kbytes s) d \<and>
    same_outside (ran up) (kbytes s) (kbytes s') \<and>
    umem (kbytes s') up = poke (umem (kbytes s) up) (unat va) n (\<lambda>i. kbytes s (buf + of_nat i))"
  using assms
proof (induction n arbitrary: s va buf len rule: less_induct)
  case (less n)
  show ?case
  proof (cases "n = 0")
    case True
    hence "copyout s d va buf len = Some (0, s)" using less.prems(2) by (subst copyout.simps) (simp add: unat_eq_0)
    thus ?thesis using less.prems(1) True by simp
  next
    case False
    let ?q = "unat va div 4096" and ?off = "unat va mod 4096"
    have len: "len > 0" using False less.prems(2) by (simp add: word_less_nat_alt)
    have q: "?q < 160" "unat va = ?q * 4096 + ?off" "?off < 4096" using less.prems(3) False by (simp_all add: div_mult_mod_eq)
    have "unat (pg ?q + of_nat ?off) = ?q * 4096 + ?off"
      using q(1,3) pg_unat [of ?q] by (subst unat_plus32) (simp_all add: unat_of_nat)
    hence va: "va = pg ?q + of_nat ?off" using q(2) by (simp only: word_unat_eq_iff)
    have va0: "PGROUNDDOWN va = pg ?q" using PGROUNDDOWN_offset [of "pg ?q" "of_nat ?off"] pg_aligned [of ?q] q va
      by (simp add: unat_of_nat)
    have "?q \<in> dom up" using less.prems(6) False by simp
    then obtain p where p: "up ?q = Some p" by blast
    note pr = uspace_props [OF less.prems(1)]
    note pp = pr(5) [OF p]
    have e: "entry (kbytes s) d (pg ?q) = p OR (PTE_W OR PTE_U) OR PTE_P" using pr(6) [OF q(1)] p by simp
    have al: "aligned 4096 p" using pp by simp
    have ka: "uva2ka s d (pg ?q) = Some p"
      using walk_user [OF pr(1,2) q(1)] e user_entry_decode [OF al] by (simp add: uva2ka_def Let_def)
    define m where "m = min n (4096 - ?off)"
    define nn :: u32 where "nn = of_nat m"
    have m: "0 < m" "m \<le> n" "?off + m \<le> 4096" "unat nn = m"
      using False q(3) by (auto simp: m_def nn_def unat_of_nat)
    have off: "va - pg ?q = of_nat ?off" using va by (metis add_diff_cancel_left')
    have n0: "(if PGSIZE - (va - pg ?q) > len then len else PGSIZE - (va - pg ?q)) = nn"
    proof -
      have "unat (PGSIZE - of_nat ?off) = 4096 - ?off"
        using q(3) by (simp add: unat_sub_cases PGSIZE_def word_le_nat_alt unat_of_nat)
      thus ?thesis unfolding off word_unat_eq_iff word_less_nat_alt m(4) using less.prems(2) by (auto simp: m_def)
    qed
    let ?m' = "memmove (kbytes s) (p + of_nat ?off) buf nn"
    have pb: "unat p + 4096 \<le> 2 ^ 32" using pp by (auto simp: kpage_def PHYSTOP_def word_less_nat_alt)
    have dst: "unat (p + of_nat ?off) = unat p + ?off" using pb q(3) by (simp add: unat_word_ariths unat_of_nat)
    have mm: "?m' = (\<lambda>a. if unat (a - (p + of_nat ?off)) < m then kbytes s (buf + of_nat (unat (a - (p + of_nat ?off)))) else kbytes s a)"
      using less.prems(4) m dst pb by (subst memmove_eq) (simp_all add: fun_eq_iff)
    note w = write_user_page [OF less.prems(1) p m(3) mm]
    let ?s1 = "s\<lparr>kbytes := ?m'\<rparr>"
    have step: "copyout s d va buf len = copyout ?s1 d (pg ?q + PGSIZE) (buf + nn) (len - nn)"
      using len ka pp by (subst copyout.simps) (simp only: Let_def va0 option.case if_True if_False n0 [unfolded off] simp_thms off)
    have rest: "unat (len - nn) = n - m" using m less.prems(2) by (simp add: unat_sub_cases word_le_nat_alt)
    have buf: "unat (buf + nn) = unat buf + m" using m less.prems(4) by (simp add: unat_word_ariths)
    have nx: "unat (pg ?q + PGSIZE) = (?q + 1) * 4096" using q(1) by (simp add: pg_Suc [symmetric] pg_unat del: of_nat_Suc)
    show ?thesis
    proof (cases "n = m")
      case True
      hence "copyout ?s1 d (pg ?q + PGSIZE) (buf + nn) (len - nn) = Some (0, ?s1)"
        using rest by (subst copyout.simps) (simp add: unat_eq_0)
      thus ?thesis using step w q(2) True by simp
    next
      case False
      hence "m = 4096 - ?off" using m(2) by (auto simp: m_def)
      moreover have gen: "(c + 1) * 4096 = v + (4096 - r)" if "v = c * 4096 + r" "r < 4096" for v c r :: nat using that by simp
      ultimately have adj: "unat (pg ?q + PGSIZE) = unat va + m"
        using gen [OF q(2,3)] by (simp only: nx)
      have src: "kbytes ?s1 (buf + nn + of_nat i) = kbytes s (buf + of_nat (m + i))" if "i < n - m" for i
      proof -
        have "m + i < n" using that by simp
        hence "\<forall>v \<in> ran up. \<not> in_page (buf + of_nat (m + i)) v" using less.prems(5) by blast
        hence "?m' (buf + of_nat (m + i)) = kbytes s (buf + of_nat (m + i))" using w(4) unfolding same_outside_def by blast
        thus ?thesis by (simp add: nn_def add.assoc)
      qed
      have bo: "\<forall>i < n - m. \<forall>p \<in> ran up. \<not> in_page (buf + nn + of_nat i) p"
      proof (intro allI impI)
        fix i assume "i < n - m"
        hence "m + i < n" by simp
        hence "\<forall>v \<in> ran up. \<not> in_page (buf + of_nat (m + i)) v" using less.prems(5) by blast
        thus "\<forall>v \<in> ran up. \<not> in_page (buf + nn + of_nat i) v" by (simp add: nn_def add.assoc)
      qed
      obtain s' where ih: "copyout ?s1 d (pg ?q + PGSIZE) (buf + nn) (len - nn) = Some (0, s')" "uspace kend s' xs d up"
        "tabs (kbytes s') d = tabs (kbytes ?s1) d" "same_outside (ran up) (kbytes ?s1) (kbytes s')"
        "umem (kbytes s') up = poke (umem (kbytes ?s1) up) (unat (pg ?q + PGSIZE)) (n - m) (\<lambda>i. kbytes ?s1 (buf + nn + of_nat i))"
        using less.IH [of "n - m" ?s1 "len - nn" "pg ?q + PGSIZE" "buf + nn"] w(1) rest adj buf bo m less.prems(3,4,6) by auto
      have "umem (kbytes s') up = poke (umem (kbytes s) up) (unat va) n (\<lambda>i. kbytes s (buf + of_nat i))"
      proof
        fix a
        show "umem (kbytes s') up a = poke (umem (kbytes s) up) (unat va) n (\<lambda>i. kbytes s (buf + of_nat i)) a"
          unfolding ih(5) adj using w(3) q(2) src [of "a - (unat va + m)"] m(2) by (auto simp: poke_def)
      qed
      moreover have "same_outside (ran up) (kbytes s) (kbytes s')" using same_outside_trans [OF w(4)] ih(4) by simp
      ultimately show ?thesis using trans [OF step ih(1)] ih(2,3) w(2) by simp
    qed
  qed
qed


subsection \<open>A concrete address space\<close>

text \<open>
  A page directory at \<open>0x3000\<close> with one page table at \<open>0x4000\<close> and no user page, and one free page at \<open>0x5000\<close>.
\<close>

definition small_km :: kmem where
  "small_km = \<lparr>kbytes = store32 (\<lambda>_. 0) 0x3000 0x4007, freelist = 0x5000\<rparr>"

lemma small_load:
  assumes "aligned 4096 p" "unat i < 1024"
  shows "load32 (kbytes small_km) (p + 4 * i) = (if p = 0x3000 \<and> i = 0 then 0x4007 else 0)"
proof -
  have "load32 (store32 (\<lambda>_. 0) (0x3000 + 4 * 0) 0x4007) (p + 4 * i) = (if p = 0x3000 \<and> i = 0 then 0x4007 else load32 (\<lambda>_. 0) (p + 4 * i))"
    by (rule entry_load_store) (use assms in \<open>simp_all add: aligned_def\<close>)
  moreover have "load32 (\<lambda>_. 0) (p + 4 * i) = 0" by (simp add: load32_zero)
  ultimately show ?thesis by (simp add: small_km_def)
qed

lemma small_page: "kpage 0x1000 0x3000" "kpage 0x1000 0x4000" "kpage 0x1000 0x5000"
  "aligned 4096 0x3000" "aligned 4096 0x4000" "aligned 4096 0x5000"
  by (simp_all add: kpage_def PGSIZE_def PHYSTOP_def aligned_def)

lemma small_free: "kinv 0x1000 small_km [0x5000]" "load32 (kbytes small_km) 0x5000 = 0"
proof -
  show "load32 (kbytes small_km) 0x5000 = 0" using small_load [OF small_page(6), of 0] by simp
  thus "kinv 0x1000 small_km [0x5000]" using small_page(3) by (simp add: kinv_def small_km_def)
qed

lemma small_present:
  assumes "unat i < 1024"
  shows "present (kbytes small_km) 0x3000 i = (i = 0)" "table (kbytes small_km) 0x3000 0 = 0x4000"
  using small_load [OF small_page(4) assms] small_load [OF small_page(4), of 0]
  by (simp_all add: present_def table_def PTE_P_def PTE_ADDR_def)

lemma small_tabs: "tabs (kbytes small_km) 0x3000 = {0x4000}"
  using small_present(1) small_present(2) [of 0] by (auto simp: tabs_def intro!: image_eqI [of _ _ 0])

lemma small_uspace: "uspace 0x1000 small_km [0x5000] 0x3000 Map.empty"
proof -
  have "entry (kbytes small_km) 0x3000 (pg k) = 0" if "k < 160" for k
  proof -
    have "PDX (pg k) = 0" by (rule pg_PDX) (use that in simp)
    thus ?thesis using small_present [of 0] small_load [OF small_page(5) PTX_lt [of "pg k"]] by (simp add: entry_eq)
  qed
  moreover have "dir_ok 0x1000 [0x5000] 0x3000 (kbytes small_km)"
    using small_present small_page(2) by (auto simp: dir_ok_def)
  ultimately show ?thesis using small_free(1) small_page(1) small_present(1) [of 0] by (simp add: uspace_def vminv_def)
qed


text \<open>The same with more free pages: every other page of the machine can be released first.\<close>

lemma add_free:
  assumes "uspace kend s xs d up" "distinct ys" "\<forall>y \<in> set ys. kpage kend y \<and> y \<noteq> 0 \<and> y \<notin> set xs \<and> y \<notin> owned_pages s d up"
  shows "\<exists>s'. uspace kend s' (rev ys @ xs) d up \<and> owned_pages s' d up = owned_pages s d up"
  using assms
proof (induction ys arbitrary: s xs)
  case (Cons y ys)
  note u = Cons.prems(1)
  have y: "kpage kend y" "y \<noteq> 0" "y \<notin> set xs" "y \<notin> owned_pages s d up" using Cons.prems(3) by simp_all
  have "kinv kend s xs" using uspace_props(1) [OF u] by (simp add: vminv_def)
  then obtain s1 where s1: "kfree kend s y = Some s1" "kinv kend s1 (y # xs)" using kfree_kinv [OF _ y(1-3)] by blast
  have so: "same_outside {y} (kbytes s) (kbytes s1)" using kfree_bytes [OF s1(1)] by (simp add: same_outside_def)
  have d: "set (y # xs) \<inter> owned_pages s d up = {}" "{y} \<inter> owned_pages s d up = {}" using y(4) owned_not_free(1) [OF u] by auto
  have al: "\<forall>q \<in> {y}. aligned 4096 q" using kpage_aligned [OF y(1)] by simp
  note f = uspace_frame [OF u s1(2) d(1) so al d(2)]
  have "distinct ys" "\<forall>z \<in> set ys. kpage kend z \<and> z \<noteq> 0 \<and> z \<notin> set (y # xs) \<and> z \<notin> owned_pages s1 d up"
    using Cons.prems(2,3) unfolding f(3) by auto
  from Cons.IH [OF f(1) this] show ?case unfolding f(3) by simp
qed auto

definition roomy :: "kmem \<Rightarrow> u32 list \<Rightarrow> bool" where
  "roomy m xs \<longleftrightarrow> uspace 0x1000 m xs 0x3000 Map.empty \<and> owned_pages m 0x3000 Map.empty = {0x3000, 0x4000} \<and>
     0x6000 \<notin> set xs \<and> 32 \<le> length xs"

lemma roomy_exists: "\<exists>m xs. roomy m xs"
proof -
  define ys :: "u32 list" where "ys = map pg [16..<64]"
  have "inj_on pg {16..<64}"
  proof (rule inj_onI)
    fix j k :: nat assume "j \<in> {16..<64}" "k \<in> {16..<64}" "(pg j :: u32) = pg k"
    thus "j = k" using pg_drop_eq [of j k] by simp
  qed
  hence "distinct ys" by (simp only: ys_def distinct_map distinct_upt set_upt simp_thms)
  moreover have y: "kpage 0x1000 y \<and> 0x10000 \<le> unat y" if "y \<in> set ys" for y
  proof -
    obtain k where k: "y = pg k" "16 \<le> k" "k < 64" using \<open>y \<in> set ys\<close> unfolding ys_def set_map set_upt by auto
    have "unat y = k * 4096" unfolding k(1) using k(3) by (intro pg_unat) simp
    moreover have "aligned 4096 y" unfolding k(1) using k(3) by (intro pg_aligned) simp
    ultimately show ?thesis using k(2,3) by (simp add: kpage_def page_aligned word_le_nat_alt word_less_nat_alt PHYSTOP_def)
  qed
  moreover have o: "owned_pages small_km 0x3000 Map.empty = {0x3000, 0x4000}" by (simp add: owned_pages_def small_tabs)
  moreover have low: "y \<notin> {0, 0x3000, 0x4000, 0x5000, 0x6000}" if "y \<in> set ys" for y using y [OF that] by auto
  ultimately obtain m where m: "uspace 0x1000 m (rev ys @ [0x5000]) 0x3000 Map.empty" "owned_pages m 0x3000 Map.empty = {0x3000, 0x4000}"
    using add_free [OF small_uspace, of ys] by auto
  have "length ys = 48" by (simp only: ys_def length_map length_upt)
  hence "0x6000 \<notin> set (rev ys @ [0x5000])" "32 \<le> length (rev ys @ [0x5000])" using low by auto
  thus ?thesis using m unfolding roomy_def by blast
qed

subsection \<open>Properties\<close>

text \<open>
  \<open>allocuvm\<close> extends an address space by pages of zeros.  A request beyond the limit returns 0 and a smaller size returns
  the old one, both without a change.  Otherwise, if the free list has enough pages, the user pages from the old to the new
  size are mapped and read as 0, and nothing else that the process sees changes; if it has too few, the pages taken so far
  are given back and the process is as before.  In every case the result is again an address space, no page is lost or
  gained, and no byte outside its own pages and the free pages changes.
\<close>

theorem allocuvm_extends:
  assumes "uspace kend s xs d up" "oldsz \<le> USERTOP" "dom up \<subseteq> {..<pages oldsz}"
  shows "\<exists>r s' xs' up'. allocuvm USERTOP kend s d oldsz newsz = Some (r, s') \<and> uspace kend s' xs' d up' \<and>
    set xs' \<union> owned_pages s' d up' = set xs \<union> owned_pages s d up \<and>
    same_outside (set xs \<union> owned_pages s d up) (kbytes s) (kbytes s') \<and>
    (if newsz > USERTOP then r = 0 \<and> umem (kbytes s') up' = umem (kbytes s) up
     else if newsz < oldsz then r = oldsz \<and> umem (kbytes s') up' = umem (kbytes s) up
     else if pages newsz - pages oldsz \<le> length xs then r = newsz \<and> dom up' = dom up \<union> {pages oldsz..<pages newsz} \<and>
       umem (kbytes s') up' = zero_fill (umem (kbytes s) up) (pages oldsz) (pages newsz)
     else r = 0 \<and> umem (kbytes s') up' = umem (kbytes s) up)"
  using allocuvm_grows [OF assms(1,2) order_refl assms(3), of newsz]
  by (elim exE conjE) (auto simp: moves_def split: if_splits)

text \<open>An evaluation: the empty address space takes the last free page.\<close>

theorem allocuvm_extends_witness:
  "\<exists>s' xs up. allocuvm USERTOP 0x1000 small_km 0x3000 0 4096 = Some (4096, s') \<and> uspace 0x1000 s' xs 0x3000 up \<and>
     umem (kbytes s') up 17 = Some 0"
proof -
  have f: "pages 4096 - pages 0 \<le> length [0x5000 :: u32]" "\<not> (4096 :: u32) > USERTOP" "\<not> (4096 :: u32) < 0" "(0 :: u32) \<le> USERTOP"
    "pages 0 = 0" "pages 4096 = 1" by (simp_all add: pages_def USERTOP_def)
  obtain r s' xs up where a: "allocuvm USERTOP 0x1000 small_km 0x3000 0 4096 = Some (r, s')" "uspace 0x1000 s' xs 0x3000 up"
    "r = 4096" "umem (kbytes s') up = zero_fill (umem (kbytes small_km) Map.empty) (pages 0) (pages 4096)"
    using allocuvm_extends [OF small_uspace f(4), of 4096] f(1-3) by (simp only: dom_empty empty_subsetI if_False if_True) blast
  have "umem (kbytes s') up 17 = Some 0" unfolding a(4) f(5,6) by (simp add: zero_fill_def)
  thus ?thesis using a(1-3) by blast
qed

text \<open>
  C36: \<open>freevm\<close> returns everything.  It never panics on an address space: the pages of the user, all page tables and the
  directory go to the free list, which afterwards holds exactly these and the pages that were free before, and the bytes of
  all other pages are untouched.
\<close>

theorem freevm_returns_pages:
  assumes "uspace kend s xs d up"
  shows "\<exists>s' xs'. freevm kend s d = Some s' \<and> kinv kend s' xs' \<and> set xs' = set xs \<union> owned_pages s d up \<and>
    same_outside (set xs') (kbytes s) (kbytes s')"
  by (rule freevm_frees [OF assms])

text \<open>Witness for C36: the directory, the table and the page that was free.\<close>

theorem freevm_returns_pages_witness:
  "\<exists>s' xs'. freevm 0x1000 small_km 0x3000 = Some s' \<and> kinv 0x1000 s' xs' \<and> set xs' = {0x5000, 0x3000, 0x4000}"
  using freevm_returns_pages [OF small_uspace] by (auto simp: owned_pages_def small_tabs)

end
