(* ===== verification/MlfqMem.thy ===== *)
theory MlfqMem
  imports MlfqProps VmUser
begin

text \<open>
  The memory of all processes of the scheduler component (\<^verbatim>\<open>Project2b/xv6/kernel/proc.c\<close>) over the page tables and the
  allocator: every process in the table has a kernel stack and an address space of its own, no page belongs to two of them or
  is free at the same time, and a step of one process does not change a byte of another.
\<close>

subsection \<open>The pages of a process\<close>

definition in_use :: "'f kstate \<Rightarrow> nat \<Rightarrow> bool" where
  "in_use s i \<longleftrightarrow> i < length (procs s) \<and> pstate (procs s ! i) \<noteq> UNUSED"

definition proc_pages :: "kmem \<Rightarrow> proc \<Rightarrow> upages \<Rightarrow> u32 set" where
  "proc_pages m p up = insert (kstack p) (owned_pages m (pgdir p) up)"

definition proc_mem :: "u32 \<Rightarrow> kmem \<Rightarrow> u32 list \<Rightarrow> proc \<Rightarrow> upages \<Rightarrow> bool" where
  "proc_mem ke m xs p up \<longleftrightarrow>
     kpage ke (kstack p) \<and> kstack p \<noteq> 0 \<and> kstack p \<notin> set xs \<and> kstack p \<notin> owned_pages m (pgdir p) up \<and>
     uspace ke m xs (pgdir p) up \<and> psz p \<le> USERTOP \<and> dom up \<subseteq> {..<pages (psz p)}"

definition mem_inv :: "u32 \<Rightarrow> 'f kstate \<Rightarrow> u32 list \<Rightarrow> (nat \<Rightarrow> upages) \<Rightarrow> bool" where
  "mem_inv ke s xs U \<longleftrightarrow>
     kinv ke (km s) xs \<and> (\<forall>i. in_use s i \<longrightarrow> proc_mem ke (km s) xs (procs s ! i) (U i)) \<and>
     (\<forall>i j. in_use s i \<and> in_use s j \<and> i \<noteq> j \<longrightarrow>
        proc_pages (km s) (procs s ! i) (U i) \<inter> proc_pages (km s) (procs s ! j) (U j) = {})"

definition all_pages :: "'f kstate \<Rightarrow> u32 list \<Rightarrow> (nat \<Rightarrow> upages) \<Rightarrow> u32 set" where
  "all_pages s xs U = set xs \<union> (\<Union>i \<in> {i. in_use s i}. proc_pages (km s) (procs s ! i) (U i))"

text \<open>The bytes process \<open>i\<close> sees.\<close>

definition pmem :: "'f kstate \<Rightarrow> (nat \<Rightarrow> upages) \<Rightarrow> nat \<Rightarrow> nat \<rightharpoonup> u8" where
  "pmem s U i = umem (kbytes (km s)) (U i)"

definition layout :: "proc \<Rightarrow> bool \<times> u32 \<times> u32 \<times> u32" where
  "layout p = (pstate p = UNUSED, kstack p, pgdir p, psz p)"

lemma layout_eq: "layout p = layout q \<longleftrightarrow> (pstate p = UNUSED \<longleftrightarrow> pstate q = UNUSED) \<and> kstack p = kstack q \<and> pgdir p = pgdir q \<and> psz p = psz q"
  by (auto simp: layout_def)

lemma layout_proc:
  assumes "layout q = layout p"
  shows "proc_pages m q up = proc_pages m p up" "proc_mem ke m xs q up = proc_mem ke m xs p up"
  using assms by (auto simp: layout_eq proc_pages_def proc_mem_def)

lemma proc_mem_page:
  assumes "proc_mem ke m xs p up" "v \<in> proc_pages m p up"
  shows "v \<notin> set xs" "kpage ke v" "v \<noteq> 0" "aligned 4096 v"
proof -
  have u: "uspace ke m xs (pgdir p) up" using assms(1) by (simp add: proc_mem_def)
  show 1: "v \<notin> set xs" "kpage ke v" "v \<noteq> 0"
    using assms owned_not_free [OF u] by (auto simp: proc_mem_def proc_pages_def)
  show "aligned 4096 v" by (rule kpage_aligned [OF 1(2)])
qed

text \<open>A process whose pages are left alone keeps its memory.\<close>

lemma proc_frame:
  assumes p: "proc_mem ke m xs p up" and k: "kinv ke m' xs'" and so: "same_outside Q (kbytes m) (kbytes m')"
    and al: "\<forall>q \<in> Q. aligned 4096 q" and Q: "Q \<inter> proc_pages m p up = {}" and x: "set xs' \<subseteq> Q"
  shows "proc_mem ke m' xs' p up" "proc_pages m' p up = proc_pages m p up" "umem (kbytes m') up = umem (kbytes m) up"
proof -
  have u: "uspace ke m xs (pgdir p) up" using p by (simp add: proc_mem_def)
  have sub: "owned_pages m (pgdir p) up \<subseteq> proc_pages m p up" by (auto simp: proc_pages_def)
  have 1: "set xs' \<inter> owned_pages m (pgdir p) up = {}" "Q \<inter> owned_pages m (pgdir p) up = {}" using Q x sub by blast+
  note f = uspace_frame [OF u k 1(1) so al 1(2)]
  have "kstack p \<notin> set xs'" using Q x by (auto simp: proc_pages_def)
  thus "proc_mem ke m' xs' p up" using p f(1,3) by (simp add: proc_mem_def)
  show "proc_pages m' p up = proc_pages m p up" using f(3) by (simp add: proc_pages_def)
  show "umem (kbytes m') up = umem (kbytes m) up" by (rule f(2))
qed

text \<open>
  The general step: slot \<open>i\<close> and the free list change, using only pages that were free or belonged to slot \<open>i\<close>.
\<close>

lemma slot_change:
  assumes inv: "mem_inv ke s xs U" and k: "kinv ke (km s') xs'"
    and len: "length (procs s') = length (procs s)"
    and oth: "\<And>j. j < length (procs s) \<Longrightarrow> j \<noteq> i \<Longrightarrow> layout (procs s' ! j) = layout (procs s ! j)"
    and Q: "Q = set xs \<union> (if in_use s i then proc_pages (km s) (procs s ! i) (U i) else {})"
    and so: "same_outside Q (kbytes (km s)) (kbytes (km s'))" and x: "set xs' \<subseteq> Q"
    and new: "in_use s' i \<Longrightarrow> proc_mem ke (km s') xs' (procs s' ! i) up \<and> proc_pages (km s') (procs s' ! i) up \<subseteq> Q"
  shows "mem_inv ke s' xs' (U(i := up))" "all_pages s' xs' (U(i := up)) \<subseteq> all_pages s xs U"
    "\<And>j. in_use s j \<Longrightarrow> j \<noteq> i \<Longrightarrow> pmem s' (U(i := up)) j = pmem s U j"
proof -
  have use: "in_use s' j = in_use s j" if "j \<noteq> i" for j using oth [of j] that len by (auto simp: in_use_def layout_eq)
  have al: "\<forall>q \<in> Q. aligned 4096 q"
    using inv kinv_aligned proc_mem_page(4) unfolding Q mem_inv_def by (cases "in_use s i") auto
  have dis: "Q \<inter> proc_pages (km s) (procs s ! j) (U j) = {}" if "in_use s j" "j \<noteq> i" for j
  proof -
    have "proc_mem ke (km s) xs (procs s ! j) (U j)" using inv that by (simp add: mem_inv_def)
    from proc_mem_page(1) [OF this] have "set xs \<inter> proc_pages (km s) (procs s ! j) (U j) = {}" by blast
    moreover have "in_use s i \<Longrightarrow> proc_pages (km s) (procs s ! i) (U i) \<inter> proc_pages (km s) (procs s ! j) (U j) = {}"
      using inv that unfolding mem_inv_def by blast
    ultimately show ?thesis unfolding Q by (cases "in_use s i") (simp_all add: Int_Un_distrib2)
  qed
  have fr: "proc_mem ke (km s') xs' (procs s' ! j) (U j) \<and> proc_pages (km s') (procs s' ! j) (U j) = proc_pages (km s) (procs s ! j) (U j) \<and>
      umem (kbytes (km s')) (U j) = umem (kbytes (km s)) (U j)" if j: "in_use s j" "j \<noteq> i" for j
  proof -
    have p: "proc_mem ke (km s) xs (procs s ! j) (U j)" using inv j by (simp add: mem_inv_def)
    have l: "layout (procs s' ! j) = layout (procs s ! j)" using oth j by (simp add: in_use_def)
    show ?thesis using proc_frame [OF p k so al dis [OF j] x] unfolding layout_proc [OF l] by blast
  qed
  have "proc_mem ke (km s') xs' (procs s' ! j) ((U(i := up)) j)" if "in_use s' j" for j
    using that new fr [of j] use [of j] by (cases "j = i") auto
  moreover have "proc_pages (km s') (procs s' ! a) ((U(i := up)) a) \<inter> proc_pages (km s') (procs s' ! b) ((U(i := up)) b) = {}"
    if ab: "in_use s' a" "in_use s' b" "a \<noteq> b" for a b
  proof -
    have *: "proc_pages (km s') (procs s' ! i) up \<inter> proc_pages (km s') (procs s' ! j) (U j) = {}"
      if "in_use s' i" "in_use s' j" "j \<noteq> i" for j
      using new [OF that(1)] fr [of j] dis [of j] use [of j] that(2,3) by blast
    consider "a = i" | "b = i" | "a \<noteq> i" "b \<noteq> i" by blast
    thus ?thesis
    proof cases
      case 3
      thus ?thesis using fr [of a] fr [of b] use [of a] use [of b] ab inv by (auto simp: mem_inv_def)
    qed (use * [of a] * [of b] ab in auto)
  qed
  ultimately show "mem_inv ke s' xs' (U(i := up))" using k unfolding mem_inv_def by blast
  have "proc_pages (km s') (procs s' ! j) ((U(i := up)) j) \<subseteq> all_pages s xs U" if "in_use s' j" for j
  proof (cases "j = i")
    case True
    have "Q \<subseteq> all_pages s xs U" unfolding Q all_pages_def by auto
    thus ?thesis using True new that by auto
  next
    case False
    hence "in_use s j" "proc_pages (km s') (procs s' ! j) (U j) = proc_pages (km s) (procs s ! j) (U j)"
      using use [of j] that fr [of j] by auto
    thus ?thesis using False unfolding all_pages_def by auto
  qed
  moreover have "set xs' \<subseteq> all_pages s xs U" using x unfolding Q all_pages_def by (auto split: if_splits)
  ultimately show "all_pages s' xs' (U(i := up)) \<subseteq> all_pages s xs U" unfolding all_pages_def [of s'] by blast
  show "pmem s' (U(i := up)) j = pmem s U j" if "in_use s j" "j \<noteq> i" for j
    using fr [OF that] that(2) by (simp add: pmem_def)
qed


text \<open>Steps that leave memory and the layout of all slots alone.\<close>

definition keeps_layout :: "'f kstate \<Rightarrow> 'f kstate \<Rightarrow> bool" where
  "keeps_layout s s' \<longleftrightarrow> km s' = km s \<and> map layout (procs s') = map layout (procs s)"

lemma keeps_layout_refl [simp]: "keeps_layout s s"
  by (simp add: keeps_layout_def)

lemma keeps_layout_trans: "keeps_layout s s' \<Longrightarrow> keeps_layout s' s'' \<Longrightarrow> keeps_layout s s''"
  by (simp add: keeps_layout_def)

lemma keeps_layout_nth:
  assumes "keeps_layout s s'"
  shows "length (procs s') = length (procs s)" "j < length (procs s) \<Longrightarrow> layout (procs s' ! j) = layout (procs s ! j)"
    "in_use s' j = in_use s j"
proof -
  have m: "map layout (procs s') = map layout (procs s)" using assms by (simp add: keeps_layout_def)
  show l: "length (procs s') = length (procs s)" using map_eq_imp_length_eq [OF m] .
  show n: "layout (procs s' ! j) = layout (procs s ! j)" if "j < length (procs s)" for j
    using arg_cong [OF m, of "\<lambda>xs. xs ! j"] that l by simp
  show "in_use s' j = in_use s j" using n [of j] l by (auto simp: in_use_def layout_eq)
qed

lemma keeps_layout_mem:
  assumes "keeps_layout s s'"
  shows "mem_inv ke s' xs U = mem_inv ke s xs U" "all_pages s' xs U = all_pages s xs U" "pmem s' U = pmem s U"
proof -
  have k: "km s' = km s" using assms by (simp add: keeps_layout_def)
  note n = keeps_layout_nth [OF assms]
  have pp: "proc_pages m (procs s' ! i) up = proc_pages m (procs s ! i) up" "proc_mem ke m xs (procs s' ! i) up = proc_mem ke m xs (procs s ! i) up"
    if "in_use s i" for i m up
  proof -
    have "layout (procs s' ! i) = layout (procs s ! i)" using n(2) that by (simp add: in_use_def)
    from layout_proc [OF this] show "proc_pages m (procs s' ! i) up = proc_pages m (procs s ! i) up"
      "proc_mem ke m xs (procs s' ! i) up = proc_mem ke m xs (procs s ! i) up" by blast+
  qed
  show "mem_inv ke s' xs U = mem_inv ke s xs U" unfolding mem_inv_def k n(3) using pp by auto
  show "all_pages s' xs U = all_pages s xs U" unfolding all_pages_def k n(3) using pp by auto
  show "pmem s' U = pmem s U" by (simp add: pmem_def k fun_eq_iff)
qed

lemma layout_upd:
  assumes "layout (f (procs s ! i)) = layout (procs s ! i)"
  shows "keeps_layout s (upd s i f)"
  using assms by (cases "i < length (procs s)") (simp_all add: keeps_layout_def upd_def map_update list_update_same_conv list_update_beyond)

lemma layout_wakeup1: "map layout (wakeup1 ps ch) = map layout ps"
  by (simp add: wakeup1_def layout_eq)

lemma layout_wakeup: "keeps_layout s (wakeup s ch)"
  by (simp add: keeps_layout_def wakeup_def layout_wakeup1)

lemma layout_kill: "keeps_layout s (snd (kill s i))"
  by (auto simp: kill_def split: option.split intro!: layout_upd simp: layout_eq)

lemma layout_reparent: "map layout (reparent ps c ini is) = map layout ps"
proof (induction "is" arbitrary: ps)
  case (Cons i "is")
  have 1: "map layout (ps[i := (ps ! i)\<lparr>parent := ini\<rparr>]) = map layout ps"
    by (cases "i < length ps") (simp_all add: map_update list_update_same_conv layout_eq list_update_beyond)
  show ?case using Cons 1 by (simp add: Let_def layout_wakeup1)
qed simp

lemma layout_sleep:
  assumes "pstate (procs s ! c) \<noteq> UNUSED"
  shows "keeps_layout s (sleep s c ch)" "keeps_layout s (yield s c)"
  unfolding sleep_def yield_def by (rule layout_upd, use assms in \<open>simp add: layout_eq\<close>)+

lemma layout_exit:
  assumes "exit_proc e s c = Some s'" "c < length (procs s)" "pstate (procs s ! c) \<noteq> UNUSED"
  shows "keeps_layout s s'"
proof -
  define s1 where "s1 = upd s c (\<lambda>p. p\<lparr>ofile := map (\<lambda>_. None) (ofile p), cwd := None\<rparr>)"
  have 1: "keeps_layout s s1" unfolding s1_def by (rule layout_upd) (simp add: layout_eq)
  obtain f2 ch where s': "s' = upd (s1\<lparr>fs := f2, procs := reparent (wakeup1 (procs s1) ch) c (initproc s) [0..<length (wakeup1 (procs s1) ch)]\<rparr>) c
      (\<lambda>p. p\<lparr>pstate := ZOMBIE, pcontext := InSched\<rparr>)"
    using assms(1) by (auto simp: exit_proc_def Let_def s1_def split: if_splits option.splits)
  define s2 where "s2 = s1\<lparr>fs := f2, procs := reparent (wakeup1 (procs s1) ch) c (initproc s) [0..<length (wakeup1 (procs s1) ch)]\<rparr>"
  have 2: "keeps_layout s1 s2" by (simp add: s2_def keeps_layout_def layout_reparent layout_wakeup1)
  note 12 = keeps_layout_trans [OF 1 2]
  have "pstate (procs s2 ! c) \<noteq> UNUSED" using keeps_layout_nth(2) [OF 12 assms(2)] assms(3) by (simp add: layout_eq)
  hence "keeps_layout s2 s'" unfolding s' s2_def [symmetric] by (intro layout_upd) (simp add: layout_eq)
  thus ?thesis by (rule keeps_layout_trans [OF 12])
qed

lemma layout_fields [simp]:
  "keeps_layout s (t\<lparr>queues := q\<rparr>) = keeps_layout s t" "keeps_layout s (t\<lparr>cur := c\<rparr>) = keeps_layout s t"
  "keeps_layout s (t\<lparr>running := r\<rparr>) = keeps_layout s t" "keeps_layout s (t\<lparr>lastRR := l\<rparr>) = keeps_layout s t"
  "keeps_layout s (t\<lparr>cr3 := x\<rparr>) = keeps_layout s t" "keeps_layout s (t\<lparr>ticks := x\<rparr>) = keeps_layout s t"
  "keeps_layout s (t\<lparr>starvTicks := x\<rparr>) = keeps_layout s t" "keeps_layout s (enqueue t k p) = keeps_layout s t"
  "keeps_layout s (switchkvm t) = keeps_layout s t" "keeps_layout s (t\<lparr>fs := f\<rparr>) = keeps_layout s t"
  by (simp_all add: keeps_layout_def enqueue_def switchkvm_def)

lemma layout_upd_trans [simp]:
  "keeps_layout s t \<Longrightarrow> (\<And>p. layout (f p) = layout p) \<Longrightarrow> keeps_layout s (upd t i f)"
  using keeps_layout_trans layout_upd by metis

lemma layout_sched_after: "keeps_layout s (sched_after s)"
  by (auto simp: sched_after_def Let_def layout_eq split: option.split prod.split)

lemma layout_boost: "keeps_layout s t \<Longrightarrow> keeps_layout s (boost now t is)"
  by (induction "is" arbitrary: t) (simp_all add: Let_def layout_eq)

lemma layout_timer_charge:
  assumes "pstate (procs s ! c) \<noteq> UNUSED" "c < length (procs s)"
  shows "keeps_layout s (timer_charge s c)"
proof -
  define s2 where "s2 = (upd s c (\<lambda>r. r\<lparr>pticks := (pticks r)[priority r := pticks r ! priority r + 1],
      accumulatedTicks := (accumulatedTicks r)[priority r := accumulatedTicks r ! priority r + 1]\<rparr>))\<lparr>starvTicks := starvTicks s + 1\<rparr>"
  define s3 where "s3 = (if starvTicks s2 = 100 then boost (ticks s) (s2\<lparr>starvTicks := 0\<rparr>) [0..<NPROC] else s2)"
  have "keeps_layout s s2" by (simp add: s2_def layout_eq)
  hence 3: "keeps_layout s s3" by (simp add: s3_def layout_boost)
  have "pstate (procs s3 ! c) \<noteq> UNUSED" using keeps_layout_nth(2) [OF 3 assms(2)] assms(1) by (simp add: layout_eq)
  hence "keeps_layout s3 (yield s3 c)" by (rule layout_sleep(2))
  moreover have "timer_charge s c = yield s3 c" by (simp add: timer_charge_def Let_def s2_def s3_def)
  ultimately show ?thesis using keeps_layout_trans [OF 3] by simp
qed

lemma layout_sched_pick:
  assumes "mlfq_inv s" "sched_pick s = Some s'"
  shows "keeps_layout s s'"
proof -
  have core: "queues_ok (queues s)" "rr_ok (lastRR s)" using inv_core [OF assms(1)] by (auto simp: mlfq_core_def)
  obtain r qs where sc: "scan_levels (procs s) (lastRR s) 0 (queues s) = (r, qs)" by fastforce
  show ?thesis
  proof (cases r)
    case None
    thus ?thesis using assms(2) sc by (auto simp: sched_pick_def)
  next
    case (Some kip)
    obtain k i p where r: "r = Some (k, i, p)" using Some by (cases kip) auto
    have "fst (scan_levels (procs s) (lastRR s) 0 (queues s)) = Some (k, i, p)" using sc r by simp
    from scan_levels_Some [OF core(2) _ this] queues_ok_len [OF core(1)] have "pstate (procs s ! p) = RUNNABLE"
      using core(1) by (auto simp: queues_ok_def first_runnable_def)
    hence "keeps_layout s (upd s p (\<lambda>r. r\<lparr>pstate := RUNNING, lastTick := ticks s\<rparr>))"
      by (intro layout_upd) (simp add: layout_eq)
    thus ?thesis using assms(2) sc r by (auto simp: sched_pick_def switchuvm_def upd_def keeps_layout_def split: if_splits)
  qed
qed


subsection \<open>Growing and shrinking a process\<close>

lemma proc_memD:
  assumes "mem_inv ke s xs U" "in_use s c"
  shows "proc_mem ke (km s) xs (procs s ! c) (U c)" "uspace ke (km s) xs (pgdir (procs s ! c)) (U c)"
    "psz (procs s ! c) \<le> USERTOP" "dom (U c) \<subseteq> {..<pages (psz (procs s ! c))}" "pgdir (procs s ! c) \<noteq> 0" "c < length (procs s)"
proof -
  show p: "proc_mem ke (km s) xs (procs s ! c) (U c)" using assms by (simp add: mem_inv_def)
  thus u: "uspace ke (km s) xs (pgdir (procs s ! c)) (U c)" "psz (procs s ! c) \<le> USERTOP" "dom (U c) \<subseteq> {..<pages (psz (procs s ! c))}"
    by (simp_all add: proc_mem_def)
  show "pgdir (procs s ! c) \<noteq> 0" using uspace_props(1) [OF u(1)] by (simp add: vminv_def)
  show "c < length (procs s)" using assms(2) by (simp add: in_use_def)
qed

lemma resize_moves:
  assumes u: "uspace ke m xs d up" and sz: "sz \<le> USERTOP" and dom: "dom up \<subseteq> {..<pages sz}"
  shows "\<exists>z m' xs' up'. (if n > 0 then allocuvm USERTOP ke m d sz (sz + of_int n)
                 else if n < 0 then deallocuvm ke m d sz (sz + of_int n) else Some (sz, m)) = Some (z, m') \<and>
    moves ke m xs d up m' xs' up' \<and> (z \<noteq> 0 \<longrightarrow> z \<le> USERTOP \<and> dom up' \<subseteq> {..<pages z}) \<and> (z = 0 \<longrightarrow> dom up' \<subseteq> {..<pages sz})"
proof -
  let ?z = "sz + of_int n"
  note refl = moves_refl [OF u]
  consider "n > 0" | "n < 0" "sz \<le> ?z" | "n < 0" "?z < sz" | "n = 0" by fastforce
  thus ?thesis
  proof cases
    case 1
    obtain r m' xs' up' where a: "allocuvm USERTOP ke m d sz ?z = Some (r, m')" "moves ke m xs d up m' xs' up'"
      "(if ?z > USERTOP then r = 0 \<and> up' = up \<and> umem (kbytes m') up' = umem (kbytes m) up
       else if ?z < sz then r = sz \<and> up' = up \<and> umem (kbytes m') up' = umem (kbytes m) up
       else if pages ?z - pages sz \<le> length xs then r = ?z \<and> dom up' = dom up \<union> {pages sz..<pages ?z} \<and>
         umem (kbytes m') up' = zero_fill (umem (kbytes m) up) (pages sz) (pages ?z)
       else r = 0 \<and> up' = up \<and> umem (kbytes m') up' = umem (kbytes m) up)"
      using allocuvm_grows [OF u sz order_refl dom] by blast
    have "(r \<noteq> 0 \<longrightarrow> r \<le> USERTOP \<and> dom up' \<subseteq> {..<pages r}) \<and> (r = 0 \<longrightarrow> dom up' \<subseteq> {..<pages sz})"
    proof (cases "?z > USERTOP \<or> ?z < sz \<or> \<not> pages ?z - pages sz \<le> length xs")
      case True
      thus ?thesis using a(3) dom sz by (auto split: if_splits)
    next
      case False
      hence r: "r = ?z" "dom up' = dom up \<union> {pages sz..<pages ?z}" using a(3) by simp_all
      have le: "pages sz \<le> pages ?z" using False by (auto simp: pages_def not_less word_le_nat_alt intro: div_le_mono)
      have z: "?z \<le> USERTOP" using False by (simp add: not_less)
      have "dom up' \<subseteq> {..<pages ?z}" using dom le unfolding r(2) by auto
      moreover have "pages ?z \<le> pages sz" if "?z = 0" using that by (simp add: pages_def)
      ultimately show ?thesis using r(1) z by (auto dest: less_le_trans)
    qed
    thus ?thesis using 1 a(1,2) by (simp only: if_True) blast
  next
    case 2
    hence "deallocuvm ke m d sz ?z = Some (sz, m)" by (simp add: deallocuvm_def)
    thus ?thesis using 2 refl sz dom by auto
  next
    case 3
    obtain m' xs' where a: "deallocuvm ke m d sz ?z = Some (?z, m')" "moves ke m xs d up m' xs' (up |` {..<pages ?z})"
      using deallocuvm_shrinks [OF u sz dom 3(2)] by blast
    have "?z \<le> USERTOP" using 3(2) sz by (simp add: order.strict_implies_order order.strict_trans2)
    moreover have "dom (up |` {..<pages ?z}) \<subseteq> {..<pages ?z}" "dom (up |` {..<pages ?z}) \<subseteq> {..<pages sz}" using dom by auto
    moreover have "\<not> n > 0" using 3 by simp
    ultimately show ?thesis using 3(1) a by (simp only: if_False if_True) blast
  next
    case 4
    thus ?thesis using refl sz dom by auto
  qed
qed

text \<open>What a call may do to the memory of the processes: \<open>i\<close> is the slot it works on.\<close>

definition mem_step :: "u32 \<Rightarrow> 'f kstate \<Rightarrow> u32 list \<Rightarrow> (nat \<Rightarrow> upages) \<Rightarrow> nat \<Rightarrow> 'f kstate \<Rightarrow> u32 list \<Rightarrow> upages \<Rightarrow> bool" where
  "mem_step ke s xs U i s' xs' up \<longleftrightarrow>
     mem_inv ke s' xs' (U(i := up)) \<and> all_pages s' xs' (U(i := up)) \<subseteq> all_pages s xs U \<and>
     (\<forall>j. in_use s j \<and> j \<noteq> i \<longrightarrow> pmem s' (U(i := up)) j = pmem s U j)"

lemma slot_step:
  assumes "mem_inv ke s xs U" "kinv ke (km s') xs'" "length (procs s') = length (procs s)"
    and "\<And>j. j < length (procs s) \<Longrightarrow> j \<noteq> i \<Longrightarrow> layout (procs s' ! j) = layout (procs s ! j)"
    and "Q = set xs \<union> (if in_use s i then proc_pages (km s) (procs s ! i) (U i) else {})"
    and "same_outside Q (kbytes (km s)) (kbytes (km s'))" "set xs' \<subseteq> Q"
    and "in_use s' i \<Longrightarrow> proc_mem ke (km s') xs' (procs s' ! i) up \<and> proc_pages (km s') (procs s' ! i) up \<subseteq> Q"
  shows "mem_step ke s xs U i s' xs' up"
proof -
  note sc = slot_change [where i = i and up = up, OF assms]
  show ?thesis unfolding mem_step_def using sc(1,2) sc(3) by blast
qed

lemma mem_step_same: "mem_inv ke s xs U \<Longrightarrow> mem_step ke s xs U i s xs (U i)"
  by (simp add: mem_step_def)

lemma mem_step_layout:
  assumes "mem_step ke s xs U i s1 xs1 up" "keeps_layout s1 s'"
  shows "mem_step ke s xs U i s' xs1 up"
  using assms(1) keeps_layout_mem [OF assms(2)] by (simp add: mem_step_def)

lemma growproc_mem:
  assumes inv: "mem_inv (kend e) s xs U" and c: "in_use s c" and g: "growproc e s c n = Some (r, s')"
  shows "\<exists>xs' up. mem_step (kend e) s xs U c s' xs' up"
proof -
  let ?p = "procs s ! c"
  note p = proc_memD [OF inv c]
  obtain z m' xs' up' where a: "(if n > 0 then allocuvm USERTOP (kend e) (km s) (pgdir ?p) (psz ?p) (psz ?p + of_int n)
       else if n < 0 then deallocuvm (kend e) (km s) (pgdir ?p) (psz ?p) (psz ?p + of_int n) else Some (psz ?p, km s)) = Some (z, m')"
    "moves (kend e) (km s) xs (pgdir ?p) (U c) m' xs' up'"
    "z \<noteq> 0 \<longrightarrow> z \<le> USERTOP \<and> dom up' \<subseteq> {..<pages z}" "z = 0 \<longrightarrow> dom up' \<subseteq> {..<pages (psz ?p)}"
    using resize_moves [OF p(2-4)] by blast
  define sz where "sz = (if n \<noteq> 0 \<and> z = 0 then psz ?p else z)"
  define s1 where "s1 = (upd s c (\<lambda>r. r\<lparr>psz := sz\<rparr>))\<lparr>km := m'\<rparr>"
  have sz: "sz \<le> USERTOP" "dom up' \<subseteq> {..<pages sz}" 
  proof -
    have "z = 0 \<Longrightarrow> sz = psz ?p" using a(1) by (cases "n = 0") (simp_all add: sz_def)
    moreover have "z \<noteq> 0 \<Longrightarrow> sz = z" by (simp add: sz_def)
    ultimately show "sz \<le> USERTOP" "dom up' \<subseteq> {..<pages sz}" using a(3,4) p(3) by (cases "z = 0"; simp)+
  qed
  have same: "(procs s)[c := (procs s ! c)\<lparr>psz := psz (procs s ! c)\<rparr>] = procs s" by (simp add: list_update_same_conv p(6))
  have s': "keeps_layout s1 s'"
    using g a(1) same by (auto simp: growproc_def Let_def s1_def sz_def upd_def keeps_layout_def switchuvm_def split: if_splits)
  have Q: "set xs \<union> owned_pages (km s) (pgdir ?p) (U c) \<subseteq> set xs \<union> proc_pages (km s) ?p (U c)" by (auto simp: proc_pages_def)
  have kst: "kstack ?p \<notin> set xs \<union> owned_pages (km s) (pgdir ?p) (U c)" using p(1) by (simp add: proc_mem_def)
  have mv: "uspace (kend e) m' xs' (pgdir ?p) up'" "set xs' \<union> owned_pages m' (pgdir ?p) up' = set xs \<union> owned_pages (km s) (pgdir ?p) (U c)"
    "same_outside (set xs \<union> owned_pages (km s) (pgdir ?p) (U c)) (kbytes (km s)) (kbytes m')"
    using a(2) by (simp_all add: moves_def)
  have pc: "procs s1 ! c = ?p\<lparr>psz := sz\<rparr>" using p(6) by (simp add: s1_def upd_def)
  have step: "mem_step (kend e) s xs U c s1 xs' up'"
  proof (rule slot_step [OF inv])
    show "kinv (kend e) (km s1) xs'" using uspace_props(1) [OF mv(1)] by (simp add: vminv_def s1_def)
    show "length (procs s1) = length (procs s)" by (simp add: s1_def)
    show "\<And>j. j < length (procs s) \<Longrightarrow> j \<noteq> c \<Longrightarrow> layout (procs s1 ! j) = layout (procs s ! j)" by (simp add: s1_def upd_def)
    show "set xs \<union> proc_pages (km s) ?p (U c) = set xs \<union> (if in_use s c then proc_pages (km s) (procs s ! c) (U c) else {})"
      using c by simp
    show "same_outside (set xs \<union> proc_pages (km s) ?p (U c)) (kbytes (km s)) (kbytes (km s1))"
      using same_outside_mono [OF mv(3) Q] by (simp add: s1_def)
    show "set xs' \<subseteq> set xs \<union> proc_pages (km s) ?p (U c)" using mv(2) Q by blast
    have "kstack ?p \<notin> set xs' \<union> owned_pages m' (pgdir ?p) up'" using kst unfolding mv(2) .
    hence "proc_mem (kend e) (km s1) xs' (procs s1 ! c) up'" unfolding pc using p(1) mv(1) sz by (simp add: proc_mem_def s1_def)
    moreover have "proc_pages (km s1) (procs s1 ! c) up' \<subseteq> set xs \<union> proc_pages (km s) ?p (U c)"
      unfolding pc using mv(2) by (auto simp: proc_pages_def s1_def)
    ultimately show "proc_mem (kend e) (km s1) xs' (procs s1 ! c) up' \<and> proc_pages (km s1) (procs s1 ! c) up' \<subseteq> set xs \<union> proc_pages (km s) ?p (U c)" ..
  qed
  show ?thesis using mem_step_layout [OF step s'] by blast
qed


text \<open>
  sbrk with the negative of the whole size frees every page of the process, but \<open>deallocuvm\<close> then returns the new size 0, which
  \<open>growproc\<close> takes for an error: it reports -1 and keeps the old size of a process that has no memory any more.
\<close>

lemma sbrk_to_zero_fails:
  assumes "mem_inv (kend e) s xs U" "in_use s c" "psz (procs s ! c) > 0"
  shows "\<exists>s' xs'. growproc e s c (- uint (psz (procs s ! c))) = Some (-1, s') \<and> psz (procs s' ! c) = psz (procs s ! c) \<and>
    uspace (kend e) (km s') xs' (pgdir (procs s' ! c)) Map.empty"
proof -
  let ?p = "procs s ! c"
  note p = proc_memD [OF assms(1,2)]
  have z: "psz ?p + of_int (- uint (psz ?p)) = 0" "- uint (psz ?p) < 0" using assms(3) by (simp_all add: word_less_def)
  have e: "U c |` {..<pages 0} = Map.empty" by (simp add: pages_def restrict_map_def fun_eq_iff)
  obtain m xs' where d: "deallocuvm (kend e) (km s) (pgdir ?p) (psz ?p) 0 = Some (0, m)" "uspace (kend e) m xs' (pgdir ?p) Map.empty"
    using deallocuvm_shrinks [OF p(2-4) assms(3)] moves_uspace unfolding e by blast
  have "growproc e s c (- uint (psz ?p)) = Some (-1, s\<lparr>km := m\<rparr>)"
    unfolding growproc_def Let_def z(1) using z(2) d(1) by simp
  thus ?thesis using d(2) by auto
qed

subsection \<open>Reaping and forking\<close>

lemma wait_mem:
  assumes inv: "mem_inv (kend e) s xs U" and c: "in_use s c" and w: "wait_pass e s c = Some (w, s')"
  shows "\<exists>i xs' up. mem_step (kend e) s xs U i s' xs' up \<and> (in_use s i \<and> in_use s' i \<longrightarrow> up = U i \<and> pmem s' U i = pmem s U i)"
proof (cases "first_idx (\<lambda>p. parent p = Some c \<and> pstate p = ZOMBIE) (procs s)")
  case None
  have "keeps_layout s s'" using w None layout_sleep(1) [of s c] c by (auto simp: wait_pass_def in_use_def split: if_splits)
  from mem_step_layout [OF mem_step_same [OF inv, of c] this] keeps_layout_mem(3) [OF this, of U]
  show ?thesis by metis
next
  case (Some i)
  hence i: "in_use s i" "i < length (procs s)" using first_idx_SomeD [OF Some] by (auto simp: in_use_def)
  let ?p = "procs s ! i"
  let ?k = "kstack ?p"
  note p = proc_memD [OF inv i(1)]
  have k: "kpage (kend e) ?k" "?k \<noteq> 0" "?k \<notin> set xs" "?k \<notin> owned_pages (km s) (pgdir ?p) (U i)" using p(1) by (simp_all add: proc_mem_def)
  have kx: "kinv (kend e) (km s) xs" using inv by (simp add: mem_inv_def)
  obtain m1 where m1: "kfree (kend e) (km s) ?k = Some m1" "kinv (kend e) m1 (?k # xs)"
    using kfree_kinv [OF kx k(1-3)] by blast
  have so1: "same_outside {?k} (kbytes (km s)) (kbytes m1)" using kfree_bytes [OF m1(1)] by (simp add: same_outside_def)
  have d1: "set (?k # xs) \<inter> owned_pages (km s) (pgdir ?p) (U i) = {}" "{?k} \<inter> owned_pages (km s) (pgdir ?p) (U i) = {}"
    using k(4) owned_not_free(1) [OF p(2)] by auto
  have a1: "\<forall>q \<in> {?k}. aligned 4096 q" using kpage_aligned [OF k(1)] by simp
  note u1 = uspace_frame [OF p(2) m1(2) d1(1) so1 a1 d1(2)]
  obtain m2 xs2 where m2: "freevm (kend e) m1 (pgdir ?p) = Some m2" "kinv (kend e) m2 xs2"
    "set xs2 = set (?k # xs) \<union> owned_pages m1 (pgdir ?p) (U i)" "same_outside (set xs2) (kbytes m1) (kbytes m2)"
    using freevm_frees [OF u1(1)] by blast
  have s': "s' = (upd s i (\<lambda>p. p\<lparr>kstack := 0, pstate := UNUSED, pid := 0, parent := None, pname := [], killed := False\<rparr>))\<lparr>km := m2\<rparr>"
    using w Some m1(1) m2(1) by (simp add: wait_pass_def)
  have Q: "set xs2 = set xs \<union> proc_pages (km s) ?p (U i)" using m2(3) u1(3) by (auto simp: proc_pages_def)
  have "mem_step (kend e) s xs U i s' xs2 Map.empty"
  proof (rule slot_step [OF inv])
    show "kinv (kend e) (km s') xs2" using m2(2) by (simp add: s')
    show "length (procs s') = length (procs s)" by (simp add: s')
    show "\<And>j. j < length (procs s) \<Longrightarrow> j \<noteq> i \<Longrightarrow> layout (procs s' ! j) = layout (procs s ! j)" by (simp add: s' upd_def)
    show "set xs2 = set xs \<union> (if in_use s i then proc_pages (km s) (procs s ! i) (U i) else {})" using Q i(1) by simp
    have "same_outside (set xs2) (kbytes (km s)) (kbytes m1)" by (rule same_outside_mono [OF so1]) (simp add: m2(3))
    thus "same_outside (set xs2) (kbytes (km s)) (kbytes (km s'))" using same_outside_trans m2(4) by (simp add: s')
    show "in_use s' i \<Longrightarrow> proc_mem (kend e) (km s') xs2 (procs s' ! i) Map.empty \<and> proc_pages (km s') (procs s' ! i) Map.empty \<subseteq> set xs2"
      using i(2) by (simp add: s' in_use_def upd_def)
  qed simp
  moreover have "\<not> in_use s' i" using i(2) by (simp add: s' in_use_def upd_def)
  ultimately show ?thesis by blast
qed

text \<open>Filling a free slot \<open>i\<close> with pages that were free.\<close>

lemma new_slot_step:
  assumes "mem_inv ke s xs U" "\<not> in_use s i" "kinv ke (km s') xs'" "length (procs s') = length (procs s)"
    and "\<And>j. j < length (procs s) \<Longrightarrow> j \<noteq> i \<Longrightarrow> layout (procs s' ! j) = layout (procs s ! j)"
    and "same_outside (set xs) (kbytes (km s)) (kbytes (km s'))" "set xs' \<subseteq> set xs"
    and "in_use s' i \<Longrightarrow> proc_mem ke (km s') xs' (procs s' ! i) up \<and> proc_pages (km s') (procs s' ! i) up \<subseteq> set xs"
  shows "mem_step ke s xs U i s' xs' up"
  by (rule slot_step [where Q = "set xs"]) (use assms in simp_all)

lemma fork_mem:
  assumes inv: "mem_inv (kend e) s xs U" and c: "in_use s c" and f: "fork e s c = Some (r, s')"
    and kd: "kdata e = pg kd" "256 < kd" "kd < 4096"
  shows "\<exists>i xs' up. \<not> in_use s i \<and> mem_step (kend e) s xs U i s' xs' up \<and> (r \<noteq> -1 \<longrightarrow> in_use s' i) \<and>
    ((\<exists>p \<in> set (procs s). pstate p = UNUSED) \<and> 15 + card (dom (U c)) \<le> length xs \<longrightarrow> in_use s' i) \<and>
    (in_use s' i \<longrightarrow> pid (procs s' ! i) = r \<and> psz (procs s' ! i) = psz (procs s ! c) \<and> pmem s' (U(i := up)) i = pmem s U c)"
proof (cases "first_idx (\<lambda>p. pstate p = UNUSED) (procs s)")
  case None
  have "allocproc s = (None, s)" using None by (simp add: allocproc_def)
  hence s': "s' = s" "r = -1" using f by (simp_all add: fork_def)
  have "\<not> in_use s (length (procs s))" by (simp add: in_use_def)
  moreover have "\<forall>p \<in> set (procs s). pstate p \<noteq> UNUSED" using None by (simp add: first_idx_None)
  ultimately show ?thesis using mem_step_same [OF inv] s' by blast
next
  case (Some i)
  note fi = first_idx_SomeD [OF Some]
  have i: "i < length (procs s)" "\<not> in_use s i" using fi by (auto simp: in_use_def)
  have ci: "c \<noteq> i" using c i(2) by auto
  have kx: "kinv (kend e) (km s) xs" using inv by (simp add: mem_inv_def)
  note p = proc_memD [OF inv c]
  have len: "length ((procs s)[i := q]) = length (procs s)" for q by simp
  have oth: "layout ((procs s)[i := q] ! j) = layout (procs s ! j)" if "j \<noteq> i" for q j using that by simp
  show ?thesis
  proof (cases xs)
    case Nil
    hence "kalloc (km s) = (0, km s)" using kx by (simp add: kinv_def kalloc_def)
    then obtain q where s': "km s' = km s" "procs s' = (procs s)[i := q]" "pstate q = UNUSED" "r = -1"
      using f Some by (auto simp: fork_def allocproc_def Let_def upd_def)
    have nu: "\<not> in_use s' i" using s'(2,3) i(1) by (simp add: in_use_def)
    have "mem_step (kend e) s xs U i s' xs (U i)"
      by (rule new_slot_step [OF inv i(2)]) (use kx s' len oth nu in simp_all)
    thus ?thesis using i(2) nu s'(4) Nil by auto
  next
    case (Cons k xs1)
    have kk: "kinv (kend e) (km s) (k # xs1)" using kx Cons by simp
    note a = kalloc_kinv [OF kk]
    define m1 where "m1 = (km s)\<lparr>freelist := load32 (kbytes (km s)) k\<rparr>"
    have km1: "kbytes m1 = kbytes (km s)" by (simp add: m1_def)
    let ?p = "procs s ! c"
    have k1: "kinv (kend e) m1 xs1" using a(2) by (simp add: m1_def)
    have dj: "set xs1 \<inter> owned_pages (km s) (pgdir ?p) (U c) = {}" "{} \<inter> owned_pages (km s) (pgdir ?p) (U c) = {}"
      using owned_not_free(1) [OF p(2)] Cons by auto
    have so1: "same_outside {} (kbytes (km s)) (kbytes m1)" by (simp add: km1)
    have al: "\<forall>q \<in> {}. aligned 4096 q" by simp
    note u1 = uspace_frame [OF p(2) k1 dj(1) so1 al dj(2)]
    have "copyuvm (kdata e) (kend e) USERTOP m1 (pgdir ?p) (psz ?p) \<noteq> None"
    proof
      assume "copyuvm (kdata e) (kend e) USERTOP m1 (pgdir ?p) (psz ?p) = None"
      hence "fork e s c = None" using Some a(1,3) ci i(1) by (simp add: fork_def allocproc_def Let_def upd_def m1_def)
      thus False using f by simp
    qed
    then obtain d m2 xs2 where cp: "copyuvm (kdata e) (kend e) USERTOP m1 (pgdir ?p) (psz ?p) = Some (d, m2)" "kinv (kend e) m2 xs2"
      "same_outside (set xs1) (kbytes m1) (kbytes m2)"
      "d \<noteq> 0 \<and> (\<exists>up. uspace (kend e) m2 xs2 d up \<and> dom up = dom (U c) \<and> umem (kbytes m2) up = umem (kbytes m1) (U c) \<and>
          set xs2 \<union> owned_pages m2 d up = set xs1)
       \<or> d = 0 \<and> set xs2 \<subseteq> set xs1 \<and> length xs1 < 14 + card (dom (U c))"
      using copyuvm_forks [OF u1(1) p(4,3) kd(2,3), folded kd(1)] by (elim disjE exE conjE) (blast, metis, metis)
    have so2: "same_outside (set xs) (kbytes (km s)) (kbytes m2)"
      using cp(3) unfolding km1 by (rule same_outside_mono) (auto simp: Cons)
    from cp(4) show ?thesis
    proof (elim disjE conjE exE)
      fix up
      assume h: "d \<noteq> 0" "uspace (kend e) m2 xs2 d up" "dom up = dom (U c)" "umem (kbytes m2) up = umem (kbytes m1) (U c)"
        "set xs2 \<union> owned_pages m2 d up = set xs1"
      obtain q where s': "km s' = m2" "procs s' = (procs s)[i := q]" "pstate q = RUNNABLE" "kstack q = k" "pgdir q = d"
        "psz q = psz ?p" "pid q = r"
        using f Some a(1,3) ci i(1) cp(1) h(1)
        by (auto simp: fork_def allocproc_def Let_def upd_def enqueue_def m1_def split: option.splits)
      have iu: "in_use s' i" "procs s' ! i = q" using s'(2,3) i(1) by (simp_all add: in_use_def)
      have kn: "k \<notin> set xs2 \<union> owned_pages m2 d up" using a(5) unfolding h(5) .
      have "proc_mem (kend e) m2 xs2 q up" using a(3,4) kn h(2,3) p(3,4) s' by (simp add: proc_mem_def)
      moreover have "proc_pages m2 q up \<subseteq> set xs" using h(5) s' Cons by (auto simp: proc_pages_def)
      ultimately have new: "proc_mem (kend e) (km s') xs2 (procs s' ! i) up \<and> proc_pages (km s') (procs s' ! i) up \<subseteq> set xs"
        using iu(2) s'(1) by simp
      have x2: "set xs2 \<subseteq> set xs" using h(5) Cons by auto
      have "mem_step (kend e) s xs U i s' xs2 up"
        by (rule new_slot_step [OF inv i(2)]) (use cp(2) s'(1,2) len oth so2 x2 new in simp_all)
      moreover have "pmem s' (U(i := up)) i = pmem s U c" using h(4) s'(1) km1 by (simp add: pmem_def)
      ultimately show ?thesis using i(2) iu s'(6,7) by blast
    next
      assume h: "d = 0" "set xs2 \<subseteq> set xs1" "length xs1 < 14 + card (dom (U c))"
      obtain m3 q where s': "kfree (kend e) m2 k = Some m3" "km s' = m3" "procs s' = (procs s)[i := q]" "pstate q = UNUSED" "r = -1"
        using f Some a(1,3) ci i(1) cp(1) h(1)
        by (auto simp: fork_def allocproc_def Let_def upd_def m1_def split: option.splits)
      have "k \<notin> set xs2" using h(2) a(5) by blast
      hence k3: "kinv (kend e) m3 (k # xs2)" using kfree_kinv [OF cp(2) a(4,3)] s'(1) by auto
      have nu: "\<not> in_use s' i" using s'(3,4) i(1) by (simp add: in_use_def)
      have "same_outside {k} (kbytes m2) (kbytes m3)" using kfree_bytes [OF s'(1)] by (simp add: same_outside_def)
      hence "same_outside (set xs) (kbytes m2) (kbytes m3)" by (rule same_outside_mono) (simp add: Cons)
      hence so3: "same_outside (set xs) (kbytes (km s)) (kbytes m3)" by (rule same_outside_trans [OF so2])
      have x3: "set (k # xs2) \<subseteq> set xs" using h(2) Cons by auto
      have "mem_step (kend e) s xs U i s' (k # xs2) (U i)"
        by (rule new_slot_step [OF inv i(2)]) (use k3 s'(2,3) len oth so3 x3 nu in simp_all)
      moreover have "\<not> 15 + card (dom (U c)) \<le> length xs" using h(3) Cons by simp
      ultimately show ?thesis using i(2) nu s'(5) by blast
    qed
  qed
qed


subsection \<open>Steps of the kernel\<close>

lemma exit_layout:
  assumes "mlfq_inv s" "cur s = Some c" "exit_proc e s c = Some s'"
  shows "keeps_layout s (sched_after s')"
  using on_cpu_running [OF assms(1,2)] keeps_layout_trans [OF layout_exit [OF assms(3)] layout_sched_after] by simp

lemma timer_layout:
  assumes inv: "mlfq_inv s" and t: "trap_timer e s user = Some s'"
  shows "keeps_layout s s'"
proof -
  define s1 where "s1 = wakeup (s\<lparr>ticks := ticks s + 1\<rparr>) (Some TicksChan)"
  have inv1: "mlfq_inv s1" unfolding s1_def using wakeup_inv(1) [OF tick_inv [OF inv]] .
  have "keeps_layout (s\<lparr>ticks := ticks s + 1\<rparr>) s1" unfolding s1_def by (rule layout_wakeup)
  hence 1: "keeps_layout s s1" by (simp add: keeps_layout_def)
  show ?thesis
  proof (cases "cur s1")
    case None
    thus ?thesis using t 1 by (simp add: trap_timer_def Let_def s1_def [symmetric])
  next
    case (Some c)
    note c = on_cpu_running [OF inv1 Some]
    have u: "pstate (procs s1 ! c) \<noteq> UNUSED" "c < length (procs s1)" using c by simp_all
    have "exit_proc e s1 c = Some s' \<or> s' = timer_charge s1 c \<or> s' = s1"
      using t Some by (auto simp: trap_timer_def Let_def s1_def [symmetric] split: if_splits)
    hence "keeps_layout s1 s'" using layout_exit [of e s1 c s'] layout_timer_charge u by auto
    thus ?thesis by (rule keeps_layout_trans [OF 1])
  qed
qed

lemma mlfq_step_mem:
  assumes step: "mlfq_step e s s'" and inv: "mlfq_inv s" and mem: "mem_inv (kend e) s xs U"
    and kd: "kdata e = pg kd" "256 < kd" "kd < 4096"
  shows "\<exists>i xs' up. mem_step (kend e) s xs U i s' xs' up \<and> (in_use s i \<and> in_use s' i \<longrightarrow> cur s = Some i \<or> up = U i \<and> pmem s' U i = pmem s U i)"
proof -
  have same: ?thesis if "keeps_layout s s'"
  proof -
    have "mem_step (kend e) s xs U i s' xs (U i)" for i by (rule mem_step_layout [OF mem_step_same [OF mem] that])
    moreover have "pmem s' U = pmem s U" using keeps_layout_mem(3) [OF that] .
    ultimately show ?thesis by metis
  qed
  have use: "in_use s c" if "cur s = Some c" for c using on_cpu_running [OF inv that] by (simp add: in_use_def)
  from step show ?thesis
  proof cases
    case step_pick
    thus ?thesis using same layout_sched_pick [OF inv] by blast
  next
    case (step_tick_idle user)
    thus ?thesis using same timer_layout [OF inv] by blast
  next
    case (step_tick c user t)
    thus ?thesis using same keeps_layout_trans [OF timer_layout [OF inv] layout_sched_after] by blast
  next
    case (step_fault c user t)
    have 1: "keeps_layout s (upd s c (\<lambda>p. p\<lparr>killed := True\<rparr>))" by (rule layout_upd) (simp add: layout_eq)
    have "mlfq_inv (upd s c (\<lambda>p. p\<lparr>killed := True\<rparr>))"
      by (rule upd_quiet_inv [OF inv step_fault(2)]) (simp_all add: same_sched_def)
    moreover have "cur (upd s c (\<lambda>p. p\<lparr>killed := True\<rparr>)) = Some c" using step_fault(2) by simp
    moreover have "exit_proc e (upd s c (\<lambda>p. p\<lparr>killed := True\<rparr>)) c = Some t"
      using step_fault(2,3) by (simp add: trap_fault_def split: if_splits)
    ultimately have "keeps_layout (upd s c (\<lambda>p. p\<lparr>killed := True\<rparr>)) (sched_after t)" by (rule exit_layout)
    thus ?thesis using same keeps_layout_trans [OF 1] step_fault(1) by blast
  next
    case (step_wakeup ch)
    thus ?thesis using same layout_wakeup by blast
  next
    case (step_sleep c ch)
    have "pstate (procs s ! c) \<noteq> UNUSED" using use [OF step_sleep(2)] by (simp add: in_use_def)
    thus ?thesis using same keeps_layout_trans [OF layout_sleep(1) layout_sched_after] step_sleep(1) by blast
  next
    case (step_resume c)
    have "keeps_layout s (sleep_resume s c)" unfolding sleep_resume_def by (rule layout_upd) (simp add: layout_eq)
    thus ?thesis using same step_resume(1) by blast
  next
    case (step_kill c i)
    thus ?thesis using same layout_kill by blast
  next
    case (step_exit c t)
    thus ?thesis using same exit_layout [OF inv] by blast
  next
    case (step_wait c w t)
    obtain i xs' up where m: "mem_step (kend e) s xs U i t xs' up" "in_use s i \<and> in_use t i \<longrightarrow> up = U i \<and> pmem t U i = pmem s U i"
      using wait_mem [OF mem use [OF step_wait(2)] step_wait(3)] by blast
    have l: "keeps_layout t s'" using step_wait(1) layout_sched_after [of t] by simp
    show ?thesis using mem_step_layout [OF m(1) l] m(2) keeps_layout_nth(3) [OF l] keeps_layout_mem(3) [OF l] by metis
  next
    case (step_sbrk c n r)
    thus ?thesis using growproc_mem [OF mem use [OF step_sbrk(1)] step_sbrk(2)] by blast
  next
    case (step_fork c r)
    thus ?thesis using fork_mem [OF mem use [OF step_fork(1)] step_fork(3) kd] by blast
  qed
qed


subsection \<open>Properties\<close>


text \<open>
  C34: one step changes the memory of the running process only.  Every other process that is in the table before and
  after the step keeps its pages, and every byte it can see keeps its value.
\<close>

theorem step_keeps_other_memory:
  assumes "mlfq_inv s" "mem_inv (kend e) s xs U" "kdata e = pg kd" "256 < kd" "kd < 4096" "mlfq_step e s s'"
  shows "\<exists>xs' U'. mem_inv (kend e) s' xs' U' \<and>
    (\<forall>j. in_use s j \<and> in_use s' j \<and> cur s \<noteq> Some j \<longrightarrow> U' j = U j \<and> pmem s' U' j = pmem s U j)"
proof -
  obtain i xs' up where m: "mem_step (kend e) s xs U i s' xs' up"
    "in_use s i \<and> in_use s' i \<longrightarrow> cur s = Some i \<or> up = U i \<and> pmem s' U i = pmem s U i"
    using mlfq_step_mem [OF assms(6,1-5)] by blast
  have "(U(i := up)) j = U j \<and> pmem s' (U(i := up)) j = pmem s U j" if "in_use s j" "in_use s' j" "cur s \<noteq> Some j" for j
    using that m by (cases "j = i") (auto simp: mem_step_def pmem_def)
  thus ?thesis using m(1) unfolding mem_step_def by blast
qed

text \<open>
  C35: fork gives the child a copy.  If it succeeds, a slot that was free holds a process with the returned pid and the
  size of the parent that sees the same bytes at the same addresses, in pages of its own taken from the free list; the parent
  and all other processes keep theirs.  It does succeed when there is a free slot and at least 15 pages more are free than the
  parent has (kernel stack, page directory and the tables of the kernel map); if it fails, the memory of all processes is as before.
\<close>

theorem fork_copies_memory:
  assumes "mem_inv (kend e) s xs U" "in_use s c" "kdata e = pg kd" "256 < kd" "kd < 4096" "fork e s c = Some (r, s')"
  shows "\<exists>xs' U'. mem_inv (kend e) s' xs' U' \<and> all_pages s' xs' U' \<subseteq> all_pages s xs U \<and>
    (\<forall>j. in_use s j \<longrightarrow> U' j = U j \<and> pmem s' U' j = pmem s U j) \<and>
    (r \<noteq> -1 \<or> (\<exists>p \<in> set (procs s). pstate p = UNUSED) \<and> 15 + card (dom (U c)) \<le> length xs \<longrightarrow>
      (\<exists>i. \<not> in_use s i \<and> in_use s' i \<and> pid (procs s' ! i) = r \<and> psz (procs s' ! i) = psz (procs s ! c) \<and>
        pmem s' U' i = pmem s U c))"
proof -
  obtain i xs' up where m: "\<not> in_use s i" "mem_step (kend e) s xs U i s' xs' up"
    "r \<noteq> -1 \<or> (\<exists>p \<in> set (procs s). pstate p = UNUSED) \<and> 15 + card (dom (U c)) \<le> length xs \<longrightarrow> in_use s' i"
    "in_use s' i \<longrightarrow> pid (procs s' ! i) = r \<and> psz (procs s' ! i) = psz (procs s ! c) \<and> pmem s' (U(i := up)) i = pmem s U c"
    using fork_mem [OF assms(1,2,6,3-5)] by blast
  have "(U(i := up)) j = U j \<and> pmem s' (U(i := up)) j = pmem s U j" if "in_use s j" for j
    using that m(1,2) by (cases "j = i") (auto simp: mem_step_def)
  moreover have "mem_inv (kend e) s' xs' (U(i := up))" "all_pages s' xs' (U(i := up)) \<subseteq> all_pages s xs U"
    using m(2) by (simp_all add: mem_step_def)
  ultimately show ?thesis using m(1,3,4) by blast
qed


subsection \<open>A concrete kernel\<close>

text \<open>The first process in a memory with free pages, with its kernel stack at \<open>0x6000\<close>.\<close>

definition small_state :: "kmem \<Rightarrow> unit kstate" where
  "small_state m = (upd boot_state 0 (\<lambda>p. p\<lparr>kstack := 0x6000, pgdir := 0x3000, cwd := Some 0\<rparr>))\<lparr>km := m\<rparr>"

definition small_env :: "unit kenv" where
  "small_env = unit_env\<lparr>kdata := 0x200000, kend := 0x1000\<rparr>"

lemma small_procs: "in_use (small_state m) i \<longleftrightarrow> i = 0"
  "procs (small_state m) ! 0 = init_proc\<lparr>kstack := 0x6000, pgdir := 0x3000, cwd := Some 0\<rparr>" "km (small_state m) = m"
  by (auto simp: small_state_def upd_def in_use_def boot_at_def init_proc_def unused_proc_def nth_Cons')

lemma small_mem:
  assumes "roomy m xs"
  shows "mem_inv (kend small_env) (small_state m) xs (\<lambda>_. Map.empty)"
proof -
  have u: "uspace 0x1000 m xs 0x3000 Map.empty" using assms by (simp add: roomy_def)
  have "kpage 0x1000 0x6000" by (simp add: kpage_def PGSIZE_def PHYSTOP_def)
  hence "proc_mem 0x1000 m xs (init_proc\<lparr>kstack := 0x6000, pgdir := 0x3000, cwd := Some 0\<rparr>) Map.empty"
    using assms by (simp add: proc_mem_def init_proc_def unused_proc_def roomy_def)
  moreover have "kinv 0x1000 m xs" using uspace_props(1) [OF u] by (simp add: vminv_def)
  ultimately show ?thesis using small_procs by (simp add: mem_inv_def small_env_def)
qed

lemma small_inv: "mlfq_inv (small_state m)" "cur (small_state m) = None"
proof -
  have "quiet boot_state (small_state m)" unfolding small_state_def quiet_mem by (rule quiet_upd) (simp add: same_sched_def)
  thus "mlfq_inv (small_state m)" by (rule quiet_inv [OF boot_inv0]) (simp add: boot_at_def)
  show "cur (small_state m) = None" by (simp add: small_state_def boot_at_def)
qed

lemma small_env_kdata: "kdata small_env = pg 512" "kend small_env = 0x1000" "(256 :: nat) < 512" "(512 :: nat) < 4096"
  by (simp_all add: small_env_def PGSIZE_def)

lemma small_pick:
  "\<exists>s. sched_pick (small_state m) = Some s \<and> cur s = Some 0 \<and> km s = m \<and> nextpid s = 2 \<and>
     procs s = init_proc\<lparr>kstack := 0x6000, pgdir := 0x3000, cwd := Some 0, pstate := RUNNING, lastTick := 0\<rparr> # replicate 63 unused_proc"
  by (simp add: sched_pick_def small_state_def boot_at_def init_proc_def unused_proc_def switchuvm_def upd_def replicate_4)

lemma small_sbrk:
  assumes "roomy m xs" "sched_pick (small_state m) = Some s"
  shows "\<exists>s'. growproc small_env s 0 4096 = Some (0, s') \<and> psz (procs s' ! 0) = 4096"
proof -
  have u: "uspace 0x1000 m xs 0x3000 Map.empty" "pages 4096 - pages 0 \<le> length xs" using assms(1) by (simp_all add: roomy_def pages_def)
  have "\<not> (4096 :: u32) > USERTOP" "\<not> (4096 :: u32) < 0" "USERTOP \<le> USERTOP" "(0 :: u32) \<le> USERTOP"
    by (simp_all add: USERTOP_def)
  then obtain m' where "allocuvm USERTOP 0x1000 m 0x3000 0 4096 = Some (4096, m')"
    using allocuvm_grows [OF u(1), of 0 USERTOP 4096] u(2) by (simp only: dom_empty empty_subsetI if_True if_False) blast
  thus ?thesis using assms(2) small_pick [of m]
    by (auto simp: growproc_def small_env_def Let_def switchuvm_def upd_def init_proc_def unused_proc_def)
qed

lemma small_fork:
  assumes "roomy m xs" "sched_pick (small_state m) = Some s"
  shows "\<exists>s'. fork small_env s 0 = Some (2, s')"
proof -
  have u: "uspace 0x1000 m xs 0x3000 Map.empty" "32 \<le> length xs" using assms(1) by (simp_all add: roomy_def)
  then obtain x xs1 where xs: "xs = x # xs1" by (cases xs) simp_all
  have k: "kinv 0x1000 m (x # xs1)" using uspace_props(1) [OF u(1)] xs by (simp add: vminv_def)
  note a = kalloc_kinv [OF k]
  let ?m1 = "m\<lparr>freelist := load32 (kbytes m) x\<rparr>"
  have "kinv 0x1000 ?m1 xs1" using a(2) by simp
  hence u1: "uspace 0x1000 ?m1 xs1 0x3000 Map.empty"
    using uspace_frame(1) [OF u(1), of ?m1 xs1 "{}"] owned_not_free(1) [OF u(1)] xs by auto
  have z: "(0 :: u32) \<le> USERTOP" "dom (Map.empty :: upages) = {..<pages 0}" by (simp_all add: pages_def)
  obtain d m2 where c: "copyuvm (pg 512) 0x1000 USERTOP ?m1 0x3000 0 = Some (d, m2)" "d \<noteq> 0"
    using copyuvm_forks [OF u1 _ z(1) small_env_kdata(3,4)] z(2) u(2) xs by auto
  obtain t where t: "procs s = init_proc\<lparr>kstack := 0x6000, pgdir := 0x3000, cwd := Some 0, pstate := RUNNING, lastTick := 0\<rparr> # replicate 63 unused_proc"
    "km s = m" "nextpid s = 2" using small_pick [of m] assms(2) by auto
  have i: "first_idx (\<lambda>p. pstate p = UNUSED) (procs s) = Some 1"
    using t by (simp add: first_idx_Some init_proc_def unused_proc_def)
  have du: "dup_files dd (replicate n None) (replicate n None) f = Some (replicate n None, f)" for dd n and f :: unit by (induction n) simp_all
  have p: "ofile (procs s ! Suc 0) = replicate 16 None" "ofile (procs s ! 0) = replicate 16 None" "cwd (procs s ! 0) = Some 0"
    "psz (procs s ! 0) = 0" "pgdir (procs s ! 0) = 0x3000" "length (procs s) = 64"
    using t(1) by (simp_all add: init_proc_def unused_proc_def)
  have e: "filedup small_env = (\<lambda>_ _. Some ())" "idup small_env = (\<lambda>_ _. Some ())" by (simp_all add: small_env_def unit_env_def)
  have "copyuvm (kdata small_env) (kend small_env) USERTOP ?m1 0x3000 0 = Some (d, m2)" unfolding small_env_kdata(1,2) by (rule c(1))
  thus ?thesis using i a(1,3) c(2) t(2,3) p du e by (simp add: fork_def allocproc_def Let_def upd_def enqueue_def)
qed


text \<open>Witness for C34: waking the sleepers on the clock.\<close>

theorem step_keeps_other_memory_witness:
  "\<exists>m xs U. mem_inv (kend small_env) (wakeup (small_state m) (Some TicksChan)) xs U \<and> U 0 = Map.empty"
proof -
  obtain m xs where m: "roomy m xs" using roomy_exists by blast
  have "in_use (wakeup (small_state m) (Some TicksChan)) 0" using keeps_layout_nth(3) [OF layout_wakeup] small_procs(1) by blast
  thus ?thesis
    using step_keeps_other_memory [OF small_inv(1) small_mem [OF m] small_env_kdata(1,3,4) step_wakeup, of "Some TicksChan"]
      small_procs(1) small_inv(2) by auto
qed

text \<open>Witness for C35: the first process forks; its child has pid 2.\<close>

theorem fork_copies_memory_witness:
  "\<exists>m s s' xs U i. sched_pick (small_state m) = Some s \<and> fork small_env s 0 = Some (2, s') \<and> mem_inv (kend small_env) s' xs U \<and>
     in_use s' i \<and> i \<noteq> 0 \<and> pid (procs s' ! i) = 2 \<and> pmem s' U i = pmem s' U 0"
proof -
  obtain m xs where m: "roomy m xs" using roomy_exists by blast
  obtain s where s: "sched_pick (small_state m) = Some s" using small_pick by blast
  have l: "keeps_layout (small_state m) s" by (rule layout_sched_pick [OF small_inv(1) s])
  have inv: "mem_inv (kend small_env) s xs (\<lambda>_. Map.empty)" using small_mem [OF m] keeps_layout_mem(1) [OF l] by blast
  have c: "in_use s 0" using keeps_layout_nth(3) [OF l] small_procs(1) by blast
  obtain s' where f: "fork small_env s 0 = Some (2, s')" using small_fork [OF m s] by blast
  obtain xs' U' where u: "mem_inv (kend small_env) s' xs' U'" "\<forall>j. in_use s j \<longrightarrow> U' j = Map.empty \<and> pmem s' U' j = pmem s (\<lambda>_. Map.empty) j"
    "\<exists>i. \<not> in_use s i \<and> in_use s' i \<and> pid (procs s' ! i) = 2 \<and> psz (procs s' ! i) = psz (procs s ! 0) \<and>
        pmem s' U' i = pmem s (\<lambda>_. Map.empty) 0"
    using fork_copies_memory [OF inv c small_env_kdata(1,3,4) f] by auto
  then obtain i where i: "\<not> in_use s i" "in_use s' i" "pid (procs s' ! i) = 2" "pmem s' U' i = pmem s (\<lambda>_. Map.empty) 0" by blast
  have "pmem s' U' i = pmem s' U' 0" using i(4) u(2) c by simp
  moreover have "i \<noteq> 0" using i(1) c by metis
  ultimately show ?thesis using s f u(1) i(2,3) by blast
qed

end
