(* ===== verification/Exec.thy ===== *)
theory Exec
  imports VmUser FsProps
begin

text \<open>
  Program execution (\<^verbatim>\<open>Project5b/xv6/kernel/exec.c\<close>, \<^verbatim>\<open>include/elf.h\<close> and \<open>loaduvm\<close> of \<^verbatim>\<open>vm.c\<close>), which brings the file
  system and the page tables together: a new address space is filled from the file and the argument strings, and only
  when nothing can fail any more does it replace the old one.  The argument strings, which the code reads through the
  old page tables, are lists of bytes without the final NUL.
\<close>

subsection \<open>The format of a program file\<close>

record elfhdr =
  e_magic :: u32
  e_elf :: "u8 list"
  e_type :: u16
  e_machine :: u16
  e_version :: u32
  e_entry :: u32
  e_phoff :: u32
  e_shoff :: u32
  e_flags :: u32
  e_ehsize :: u16
  e_phentsize :: u16
  e_phnum :: u16
  e_shentsize :: u16
  e_shnum :: u16
  e_shstrndx :: u16

record proghdr =
  ph_type :: u32
  ph_offset :: u32
  ph_va :: u32
  ph_pa :: u32
  ph_filesz :: u32
  ph_memsz :: u32
  ph_flags :: u32
  ph_align :: u32

definition ELF_MAGIC :: u32 where
  "ELF_MAGIC = 0x464C457F"

definition ELF_PROG_LOAD :: u32 where
  "ELF_PROG_LOAD = 1"

definition MAXARG :: nat where
  "MAXARG = 32"

text \<open>The two structs as \<open>readi\<close> fills them, byte by byte.\<close>

definition elf_of :: "u8 list \<Rightarrow> elfhdr" where
  "elf_of bs =
     \<lparr>e_magic = rd32 (nth bs) 0, e_elf = map (nth bs) [4..<16], e_type = rd16 (nth bs) 16, e_machine = rd16 (nth bs) 18,
      e_version = rd32 (nth bs) 20, e_entry = rd32 (nth bs) 24, e_phoff = rd32 (nth bs) 28, e_shoff = rd32 (nth bs) 32,
      e_flags = rd32 (nth bs) 36, e_ehsize = rd16 (nth bs) 40, e_phentsize = rd16 (nth bs) 42, e_phnum = rd16 (nth bs) 44,
      e_shentsize = rd16 (nth bs) 46, e_shnum = rd16 (nth bs) 48, e_shstrndx = rd16 (nth bs) 50\<rparr>"

definition proghdr_of :: "u8 list \<Rightarrow> proghdr" where
  "proghdr_of bs =
     \<lparr>ph_type = rd32 (nth bs) 0, ph_offset = rd32 (nth bs) 4, ph_va = rd32 (nth bs) 8, ph_pa = rd32 (nth bs) 12,
      ph_filesz = rd32 (nth bs) 16, ph_memsz = rd32 (nth bs) 20, ph_flags = rd32 (nth bs) 24, ph_align = rd32 (nth bs) 28\<rparr>"

subsection \<open>Loading a segment\<close>

definition store_bytes :: "mem \<Rightarrow> u32 \<Rightarrow> u8 list \<Rightarrow> mem" where
  "store_bytes m a bs = (\<lambda>x. if unat (x - a) < length bs then bs ! unat (x - a) else m x)"

partial_function (option) loaduvm_loop ::
    "devsw \<Rightarrow> kmem \<Rightarrow> fsst \<Rightarrow> u32 \<Rightarrow> u32 \<Rightarrow> nat \<Rightarrow> u32 \<Rightarrow> u32 \<Rightarrow> u32 \<Rightarrow> (int \<times> kmem \<times> fsst) option" where
  "loaduvm_loop dv s f pgdir addr ip offset sz i =
     (if i < sz then
        (case walkpgdir s pgdir (addr + i) False of (pte, s1) \<Rightarrow>
           if pte = 0 then None
           else let pa = PTE_ADDR (load32 (kbytes s1) pte); n = (if sz - i < PGSIZE then sz - i else PGSIZE)
                in case readi dv f ip (offset + i) n of
                     None \<Rightarrow> None
                   | Some (r, bs, f1) \<Rightarrow>
                       let s2 = s1\<lparr>kbytes := store_bytes (kbytes s1) pa bs\<rparr>
                       in if (of_int r :: u32) \<noteq> n then Some (-1, s2, f1)
                          else loaduvm_loop dv s2 f1 pgdir addr ip offset sz (i + PGSIZE))
      else Some (0, s, f))"

definition loaduvm ::
    "devsw \<Rightarrow> kmem \<Rightarrow> fsst \<Rightarrow> u32 \<Rightarrow> u32 \<Rightarrow> nat \<Rightarrow> u32 \<Rightarrow> u32 \<Rightarrow> (int \<times> kmem \<times> fsst) option" where
  "loaduvm dv s f pgdir addr ip offset sz =
     (if addr mod PGSIZE \<noteq> 0 then None else loaduvm_loop dv s f pgdir addr ip offset sz 0)"

text \<open>
  The loop over the program headers, \<open>n\<close> of which are left; \<open>Some None\<close> is the jump to \<open>bad\<close>.
\<close>

fun exec_load ::
    "u32 \<Rightarrow> devsw \<Rightarrow> kmem \<Rightarrow> fsst \<Rightarrow> u32 \<Rightarrow> nat \<Rightarrow> u32 \<Rightarrow> nat \<Rightarrow> u32 \<Rightarrow> (u32 option \<times> kmem \<times> fsst) option" where
  "exec_load ke dv s f pgdir ip off 0 sz = Some (Some sz, s, f)"
| "exec_load ke dv s f pgdir ip off (Suc n) sz =
     (case readi dv f ip off 32 of
        None \<Rightarrow> None
      | Some (r, bs, f1) \<Rightarrow>
          if (of_int r :: u32) \<noteq> 32 then Some (None, s, f1)
          else let ph = proghdr_of bs
               in if ph_type ph \<noteq> ELF_PROG_LOAD then exec_load ke dv s f1 pgdir ip (off + 32) n sz
                  else if ph_memsz ph < ph_filesz ph then Some (None, s, f1)
                  else case allocuvm USERTOP ke s pgdir sz (ph_va ph + ph_memsz ph) of
                         None \<Rightarrow> None
                       | Some (sz1, s1) \<Rightarrow>
                           if sz1 = 0 then Some (None, s1, f1)
                           else case loaduvm dv s1 f1 pgdir (ph_va ph) ip (ph_offset ph) (ph_filesz ph) of
                                  None \<Rightarrow> None
                                | Some (q, s2, f2) \<Rightarrow>
                                    if q < 0 then Some (None, s2, f2)
                                    else exec_load ke dv s2 f2 pgdir ip (off + 32) n sz1)"

subsection \<open>The stack\<close>

text \<open>\<open>copyout\<close> of \<^verbatim>\<open>vm.c\<close> for a source that is given by its bytes.\<close>

partial_function (option) copyout_list :: "kmem \<Rightarrow> u32 \<Rightarrow> u32 \<Rightarrow> u8 list \<Rightarrow> (int \<times> kmem) option" where
  "copyout_list s pgdir va bs =
     (if bs \<noteq> [] then
        (let va0 = PGROUNDDOWN va
         in case uva2ka s pgdir va0 of
              None \<Rightarrow> None
            | Some pa0 \<Rightarrow>
                if pa0 = 0 then Some (-1, s)
                else let n = min (unat (PGSIZE - (va - va0))) (length bs)
                     in copyout_list (s\<lparr>kbytes := store_bytes (kbytes s) (pa0 + (va - va0)) (take n bs)\<rparr>) pgdir
                          (va0 + PGSIZE) (drop n bs))
      else Some (0, s))"

text \<open>The strings pushed so far have the addresses \<open>us\<close>, from \<open>ustack[3]\<close> on.\<close>

fun push_args ::
    "kmem \<Rightarrow> u32 \<Rightarrow> u32 \<Rightarrow> u8 list list \<Rightarrow> u32 list \<Rightarrow> ((u32 \<times> u32 list) option \<times> kmem) option" where
  "push_args s pgdir sp [] us = Some (Some (sp, us), s)"
| "push_args s pgdir sp (a # as) us =
     (if length us \<ge> MAXARG then Some (None, s)
      else let sp1 = (sp - (of_nat (length a) + 1)) AND NOT 3
           in case copyout_list s pgdir sp1 (a @ [0]) of
                None \<Rightarrow> None
              | Some (r, s1) \<Rightarrow> if r < 0 then Some (None, s1) else push_args s1 pgdir sp1 as (us @ [sp1]))"

definition word_bytes :: "u32 \<Rightarrow> u8 list" where
  "word_bytes w = map (byte_of w) [0..<4]"

definition arg_frame :: "u32 \<Rightarrow> u32 list \<Rightarrow> u32 list" where
  "arg_frame sp us = [0xFFFFFFFF, of_nat (length us), sp - (of_nat (length us) + 1) * 4] @ us @ [0]"

subsection \<open>The call\<close>

record xproc =
  xpgdir :: u32
  xsz :: u32
  xeip :: u32
  xesp :: u32
  xname :: "u8 list"

record xkernel =
  xkm :: kmem
  xfs :: fsst
  xp :: xproc
  xcr3 :: u32

text \<open>The part of the path after its last slash, and its copy by \<open>safestrcpy\<close> into the 16 bytes of the name.\<close>

fun exec_name :: "u8 list \<Rightarrow> u8 list \<Rightarrow> u8 list" where
  "exec_name nm [] = nm"
| "exec_name nm (c # s) = exec_name (if c = slash then s else nm) s"

definition set_name :: "u8 list \<Rightarrow> u8 list \<Rightarrow> u8 list" where
  "set_name old nm = take 15 nm @ [0] @ drop (length (take 15 nm) + 1) old"

definition exec_bad :: "u32 \<Rightarrow> xkernel \<Rightarrow> kmem \<Rightarrow> fsst \<Rightarrow> u32 \<Rightarrow> nat option \<Rightarrow> (int \<times> xkernel) option" where
  "exec_bad ke k m f pgdir ipo =
     (case (if pgdir \<noteq> 0 then freevm ke m pgdir else Some m) of
        None \<Rightarrow> None
      | Some m1 \<Rightarrow>
          (case (case ipo of None \<Rightarrow> Some f | Some ip \<Rightarrow> iunlockput f ip) of
             None \<Rightarrow> None
           | Some f1 \<Rightarrow> Some (-1, k\<lparr>xkm := m1, xfs := f1\<rparr>)))"

text \<open>From the release of the inode on: the stack, the arguments, and the switch to the new image.\<close>

definition exec_stack ::
    "u32 \<Rightarrow> xkernel \<Rightarrow> kmem \<Rightarrow> fsst \<Rightarrow> u32 \<Rightarrow> u32 \<Rightarrow> u32 \<Rightarrow> u8 list \<Rightarrow> u8 list list \<Rightarrow> (int \<times> xkernel) option" where
  "exec_stack ke k m f d sz0 ent path argv =
     (let sz1 = PGROUNDUP sz0
      in case allocuvm USERTOP ke m d sz1 (sz1 + PGSIZE) of
           None \<Rightarrow> None
         | Some (sz, m1) \<Rightarrow>
             if sz = 0 then exec_bad ke k m1 f d None
             else case push_args m1 d sz argv [] of
                    None \<Rightarrow> None
                  | Some (None, m2) \<Rightarrow> exec_bad ke k m2 f d None
                  | Some (Some (sp, us), m2) \<Rightarrow>
                      let sp1 = sp - (3 + of_nat (length us) + 1) * 4
                      in case copyout_list m2 d sp1 (concat (map word_bytes (arg_frame sp us))) of
                           None \<Rightarrow> None
                         | Some (r, m3) \<Rightarrow>
                             if r < 0 then exec_bad ke k m3 f d None
                             else case freevm ke m3 (xpgdir (xp k)) of
                                    None \<Rightarrow> None
                                  | Some m4 \<Rightarrow>
                                      Some (0, k\<lparr>xkm := m4, xfs := f, xcr3 := d,
                                        xp := (xp k)\<lparr>xname := set_name (xname (xp k)) (exec_name path path),
                                                     xpgdir := d, xsz := sz, xeip := ent, xesp := sp1\<rparr>\<rparr>))"

text \<open>
  \<open>elf0\<close> are the 52 bytes of the uninitialised variable \<open>elf\<close>: a failed read leaves the bytes it did not reach, and its
  result -1 passes the unsigned comparison with the size.
\<close>

definition exec ::
    "u32 \<Rightarrow> u32 \<Rightarrow> devsw \<Rightarrow> u8 list \<Rightarrow> nat \<Rightarrow> xkernel \<Rightarrow> u8 list \<Rightarrow> u8 list list \<Rightarrow> (int \<times> xkernel) option" where
  "exec kd ke dv elf0 cwd k path argv =
     (case namei (xfs k) cwd path of
        None \<Rightarrow> None
      | Some (None, f0) \<Rightarrow> Some (-1, k\<lparr>xfs := f0\<rparr>)
      | Some (Some ip, f0) \<Rightarrow>
          (case ilock f0 ip of
             None \<Rightarrow> None
           | Some f1 \<Rightarrow>
               (case readi dv f1 ip 0 52 of
                  None \<Rightarrow> None
                | Some (r, bs, f2) \<Rightarrow>
                    let elf = elf_of (bs @ drop (length bs) elf0)
                    in if (of_int r :: u32) < 52 \<or> e_magic elf \<noteq> ELF_MAGIC then exec_bad ke k (xkm k) f2 0 (Some ip)
                       else case setupkvm kd (xkm k) of
                              None \<Rightarrow> None
                            | Some (d, m1) \<Rightarrow>
                                if d = 0 then exec_bad ke k m1 f2 0 (Some ip)
                                else case exec_load ke dv m1 f2 d ip (e_phoff elf) (unat (e_phnum elf)) 0 of
                                       None \<Rightarrow> None
                                     | Some (None, m2, f3) \<Rightarrow> exec_bad ke k m2 f3 d (Some ip)
                                     | Some (Some sz, m2, f3) \<Rightarrow>
                                         (case iunlockput f3 ip of
                                            None \<Rightarrow> None
                                          | Some f4 \<Rightarrow> exec_stack ke k m2 f4 d sz (e_entry elf) path argv))))"


subsection \<open>Reading a whole file\<close>

text \<open>A file without holes whose blocks all match their checksums, if it has any.\<close>

definition whole_file :: "fsst \<Rightarrow> nat \<Rightarrow> bool" where
  "whole_file f i \<longleftrightarrow> itype (icache f ! i) \<noteq> T_DEV \<and>
     (\<forall>bn. bn * BSIZE < unat (isize (icache f ! i)) \<longrightarrow> mapped f i bn \<and> (itype (icache f ! i) = T_CHECKED \<longrightarrow> intact f i bn))"

lemma whole_size:
  assumes "whole_file f i"
  shows "unat (isize (icache f ! i)) \<le> 71680"
proof (rule ccontr)
  assume "\<not> ?thesis"
  hence "mapped f i 140" using assms unfolding whole_file_def by simp
  thus False by (simp add: mapped_def)
qed

lemma readi_whole:
  assumes w: "whole_file f i" and n: "0 < n" "unat n \<le> 4096"
  shows "\<exists>r bs. readi dv f i off n = Some (r, bs, f) \<and> length bs \<le> unat n \<and>
    ((of_int r :: u32) = n \<longrightarrow> unat off + unat n \<le> unat (isize (icache f ! i)) \<and> bs = map (fbyte f i) [unat off..<unat off + unat n]) \<and>
    (off \<le> isize (icache f ! i) \<longrightarrow> (of_int r :: u32) \<le> n) \<and>
    (unat off + unat n \<le> unat (isize (icache f ! i)) \<longrightarrow> (of_int r :: u32) = n)"
proof (cases "off \<le> isize (icache f ! i)")
  case False
  hence "readi dv f i off n = Some (-1, [], f)" using w by (simp add: readi_def Let_def whole_file_def not_le)
  moreover have "unat (-1 :: u32) = 4294967295" by (simp add: unsigned_minus_1_eq_mask mask_eq_exp_minus_1)
  hence "(of_int (-1) :: u32) \<noteq> n" using n(2) by auto
  ultimately show ?thesis using False by (simp add: word_le_nat_alt)
next
  case True
  let ?sz = "unat (isize (icache f ! i))"
  have o: "unat off \<le> ?sz" "?sz \<le> 71680" using True whole_size [OF w] by (simp_all add: word_le_nat_alt)
  define m where "m = min (unat n) (?sz - unat off)"
  have t: "mapped f i bn \<and> (itype (icache f ! i) = T_CHECKED \<longrightarrow> intact f i bn)" if "touches (unat off) m bn" for bn
    using w that o unfolding whole_file_def touches_def m_def by auto
  have "unat off + unat n < 2 ^ 32" using o n(2) by simp
  moreover have "itype (icache f ! i) \<noteq> T_DEV" using w by (simp add: whole_file_def)
  ultimately have rd: "readi dv f i off n = Some (int m, map (fbyte f i) [unat off..<unat off + m], f)"
    using readi_file [OF _ True _ m_def, of dv] t by (auto split: if_splits)
  have un: "unat (of_nat m :: u32) = m" using n(2) by (simp add: unat_of_nat m_def)
  have mn: "m \<le> unat n" by (simp add: m_def)
  show ?thesis
  proof (intro exI conjI impI)
    show "readi dv f i off n = Some (int m, map (fbyte f i) [unat off..<unat off + m], f)" by (rule rd)
    show "length (map (fbyte f i) [unat off..<unat off + m]) \<le> unat n" using mn by simp
    show "(of_int (int m) :: u32) \<le> n" using mn un by (simp add: word_le_nat_alt)
    {
      assume "(of_int (int m) :: u32) = n"
      hence e: "m = unat n" using un by simp
      show "unat off + unat n \<le> ?sz" using e o(1) by (simp add: m_def)
      show "map (fbyte f i) [unat off..<unat off + m] = map (fbyte f i) [unat off..<unat off + unat n]" by (simp only: e)
    }
    show "(of_int (int m) :: u32) = n" if "unat off + unat n \<le> ?sz"
    proof -
      have "m = unat n" using that by (simp add: m_def)
      thus ?thesis by simp
    qed
  qed
qed

subsection \<open>An address space under construction\<close>

text \<open>
  The address space of the directory \<open>d\<close>, made of pages in \<open>A\<close> and filled up to \<open>sz\<close>, while nothing outside \<open>A\<close> has
  changed since the memory \<open>m0\<close>.
\<close>

definition ustage :: "u32 \<Rightarrow> u32 set \<Rightarrow> mem \<Rightarrow> u32 \<Rightarrow> kmem \<Rightarrow> u32 list \<Rightarrow> upages \<Rightarrow> u32 \<Rightarrow> bool" where
  "ustage ke A m0 d m xs up sz \<longleftrightarrow>
     uspace ke m xs d up \<and> dom up = {..<pages sz} \<and> sz \<le> USERTOP \<and> card (tabs (kbytes m) d) \<le> 12 \<and> set xs \<union> owned_pages m d up = A \<and> same_outside A m0 (kbytes m)"

lemma ustageD:
  assumes "ustage ke A m0 d m xs up sz"
  shows "uspace ke m xs d up" "dom up = {..<pages sz}" "sz \<le> USERTOP" "set xs \<union> owned_pages m d up = A"
    "same_outside A m0 (kbytes m)" "pages sz \<le> 160" "card A \<le> length xs + pages sz + 13"
proof -
  show u: "uspace ke m xs d up" "dom up = {..<pages sz}" "sz \<le> USERTOP" "set xs \<union> owned_pages m d up = A"
    "same_outside A m0 (kbytes m)" "pages sz \<le> 160" using assms pages_utop by (simp_all add: ustage_def)
  show "card A \<le> length xs + pages sz + 13" using uspace_card [OF u(1)] u(2,4) assms by (simp add: ustage_def)
qed

lemma ustage_moves:
  assumes "ustage ke A m0 d m xs up sz" "moves ke m xs d up m' xs' up'" "dom up' = {..<pages z}" "z \<le> USERTOP"
  shows "ustage ke A m0 d m' xs' up' z"
  using assms same_outside_trans by (auto simp: ustage_def moves_def)

lemma ustage_grow:
  assumes s: "ustage ke A m0 d m xs up sz"
  shows "\<exists>r m' xs' up'. allocuvm USERTOP ke m d sz z = Some (r, m') \<and>
    (if r = 0 then (\<exists>sz'. ustage ke A m0 d m' xs' up' sz') \<and> (max sz z = 0 \<or> z > USERTOP \<or> card A < pages z + 13)
     else ustage ke A m0 d m' xs' up' r \<and> r = (if z < sz then sz else z) \<and>
       umem (kbytes m') up' = zero_fill (umem (kbytes m) up) (pages sz) (pages r))"
proof -
  note u = ustageD [OF s]
  have "dom up \<subseteq> {..<pages sz}" using u(2) by simp
  then obtain r m' xs' up' where a: "allocuvm USERTOP ke m d sz z = Some (r, m')" "moves ke m xs d up m' xs' up'"
    "(if z > USERTOP then r = 0 \<and> up' = up \<and> umem (kbytes m') up' = umem (kbytes m) up
     else if z < sz then r = sz \<and> up' = up \<and> umem (kbytes m') up' = umem (kbytes m) up
     else if pages z - pages sz \<le> length xs then r = z \<and> dom up' = dom up \<union> {pages sz..<pages z} \<and>
       umem (kbytes m') up' = zero_fill (umem (kbytes m) up) (pages sz) (pages z)
     else r = 0 \<and> up' = up \<and> umem (kbytes m') up' = umem (kbytes m) up)"
    using allocuvm_grows [OF u(1,3) order_refl, of z] by blast
  consider (keep) "up' = up" "umem (kbytes m') up' = umem (kbytes m) up"
        "r = 0 \<and> (z > USERTOP \<or> length xs < pages z - pages sz) \<or> r = sz \<and> z < sz"
    | (grow) "sz \<le> z" "z \<le> USERTOP" "r = z" "dom up' = dom up \<union> {pages sz..<pages z}"
        "umem (kbytes m') up' = zero_fill (umem (kbytes m) up) (pages sz) (pages z)"
    using a(3) by (auto simp: not_less split: if_splits)
  thus ?thesis
  proof cases
    case keep
    hence "ustage ke A m0 d m' xs' up' sz" using ustage_moves [OF s a(2)] u(2,3) by simp
    moreover have "card A < pages z + 13" if "length xs < pages z - pages sz" using that u(7) by linarith
    ultimately show ?thesis using a(1) keep by (intro exI [of _ r] exI [of _ m'] exI [of _ xs'] exI [of _ up']) auto
  next
    case grow
    have "pages sz \<le> pages z" using grow(1) unfolding pages_def word_le_nat_alt by (intro div_le_mono) simp
    hence "dom up' = {..<pages z}" using u(2) grow(4) by auto
    hence "ustage ke A m0 d m' xs' up' z" using ustage_moves [OF s a(2)] grow(2) by simp
    thus ?thesis using a(1) grow(1,3,5) by (intro exI [of _ r] exI [of _ m'] exI [of _ xs'] exI [of _ up']) (auto simp: not_less max_def)
  qed
qed

lemma ustage_store:
  assumes s: "ustage ke A m0 d m xs up sz" and q: "up q = Some p" and r: "off + length bs \<le> 4096"
  shows "ustage ke A m0 d (m\<lparr>kbytes := store_bytes (kbytes m) (p + of_nat off) bs\<rparr>) xs up sz"
    "umem (store_bytes (kbytes m) (p + of_nat off) bs) up = poke (umem (kbytes m) up) (q * 4096 + off) (length bs) ((!) bs)"
proof -
  note u = ustageD [OF s]
  note w = write_user_page [OF u(1) q r store_bytes_def]
  have "ran up \<subseteq> A" using u(4) by (auto simp: owned_pages_def)
  hence "same_outside A (kbytes m) (store_bytes (kbytes m) (p + of_nat off) bs)" by (rule same_outside_mono [OF w(4)])
  thus "ustage ke A m0 d (m\<lparr>kbytes := store_bytes (kbytes m) (p + of_nat off) bs\<rparr>) xs up sz"
    using s w(1,2) same_outside_trans by (auto simp: ustage_def owned_pages_def)
  show "umem (store_bytes (kbytes m) (p + of_nat off) bs) up = poke (umem (kbytes m) up) (q * 4096 + off) (length bs) ((!) bs)"
    by (rule w(3))
qed

lemma uspace_page:
  assumes u: "uspace ke m xs d up" and p: "up q = Some p"
  shows "p \<noteq> 0 \<and> fst (walkpgdir m d (pg q) False) \<noteq> 0 \<and> snd (walkpgdir m d (pg q) False) = m \<and>
    PTE_ADDR (load32 (kbytes m) (fst (walkpgdir m d (pg q) False))) = p \<and> uva2ka m d (pg q) = Some p"
proof -
  note pr = uspace_props [OF u]
  have q: "q < 160" using uspace_props(3) [OF u] p by auto
  have e: "entry (kbytes m) d (pg q) = p OR (PTE_W OR PTE_U) OR PTE_P" using pr(6) [OF q] p by simp
  have al: "aligned 4096 p" using pr(5) [OF p] by simp
  show ?thesis using walk_user [OF pr(1,2) q] e user_entry_decode [OF al] p pr(5) [OF p] by (simp add: uva2ka_def Let_def)
qed

lemma page_split:
  fixes va :: u32
  assumes "unat va < 160 * 4096"
  shows "va = pg (unat va div 4096) + of_nat (unat va mod 4096)" "PGROUNDDOWN va = pg (unat va div 4096)"
    "va - pg (unat va div 4096) = of_nat (unat va mod 4096)"
proof -
  let ?q = "unat va div 4096" and ?off = "unat va mod 4096"
  have q: "?q < 160" "unat va = ?q * 4096 + ?off" "?off < 4096" using assms less_mult_imp_div_less [of "unat va" 160 4096] by simp_all
  have "unat (pg ?q + of_nat ?off) = ?q * 4096 + ?off"
    using q(1,3) pg_unat [of ?q] by (subst unat_plus32) (simp_all add: unat_of_nat)
  thus va: "va = pg ?q + of_nat ?off" using q(2) by (simp only: word_unat_eq_iff)
  show "PGROUNDDOWN va = pg ?q" using PGROUNDDOWN_offset [of "pg ?q" "of_nat ?off"] pg_aligned [of ?q] q va
    by (simp add: unat_of_nat)
  show "va - pg ?q = of_nat ?off" using va by (metis add_diff_cancel_left')
qed

lemma ustage_page:
  assumes "ustage ke A m0 d m xs up sz" "q < pages sz"
  shows "\<exists>p. up q = Some p \<and> p \<noteq> 0 \<and> fst (walkpgdir m d (pg q) False) \<noteq> 0 \<and> snd (walkpgdir m d (pg q) False) = m \<and>
    PTE_ADDR (load32 (kbytes m) (fst (walkpgdir m d (pg q) False))) = p \<and> uva2ka m d (pg q) = Some p"
proof -
  obtain p where "up q = Some p" using ustageD(2) [OF assms(1)] assms(2) by blast
  with uspace_page [OF ustageD(1) [OF assms(1)] this] show ?thesis by blast
qed


subsection \<open>Loading the segments\<close>

lemma poke_step:
  assumes "\<And>i. i < n \<Longrightarrow> f i = g i" "\<And>i. i < k \<Longrightarrow> h i = g (n + i)"
  shows "poke (poke M a n f) (a + n) k h = poke M a (n + k) g"
  using assms by (intro ext) (auto simp: poke_def)

lemma poke_cong: "(\<And>i. i < n \<Longrightarrow> f i = g i) \<Longrightarrow> poke M a n f = poke M a n g"
  by (auto simp: poke_def fun_eq_iff)

text \<open>One round of the loop of \<open>loaduvm\<close>, on page \<open>q\<close> of the process.\<close>

lemma loaduvm_round:
  assumes s: "ustage ke A m0 d m xs up sz" and w: "whole_file f ip" and i: "i < fsz" and va: "va + i = pg q" "q < pages sz"
    and n: "n = (if fsz - i < PGSIZE then fsz - i else PGSIZE)"
  shows "\<exists>m'. ustage ke A m0 d m' xs up sz \<and>
    (loaduvm_loop dv m f d va ip off fsz i = Some (-1, m', f) \<and> unat (isize (icache f ! ip)) < unat (off + i) + unat n \<or>
     loaduvm_loop dv m f d va ip off fsz i = loaduvm_loop dv m' f d va ip off fsz (i + PGSIZE) \<and>
       unat (off + i) + unat n \<le> 71680 \<and>
       umem (kbytes m') up = poke (umem (kbytes m) up) (q * 4096) (unat n) (\<lambda>k. fbyte f ip (unat (off + i) + k)))"
proof -
  have n0: "0 < n" "unat n \<le> 4096"
  proof -
    have "fsz - i \<noteq> 0" using i by auto
    thus "0 < n" using n by (auto simp: PGSIZE_def word_gt_0)
    show "unat n \<le> 4096" using n by (auto simp: PGSIZE_def word_less_nat_alt not_less word_le_nat_alt)
  qed
  obtain p where p: "up q = Some p" "fst (walkpgdir m d (pg q) False) \<noteq> 0"
    "snd (walkpgdir m d (pg q) False) = m"
    "PTE_ADDR (load32 (kbytes m) (fst (walkpgdir m d (pg q) False))) = p" using ustage_page [OF s va(2)] by blast
  obtain pte where pte: "walkpgdir m d (pg q) False = (pte, m)" "pte \<noteq> 0" "PTE_ADDR (load32 (kbytes m) pte) = p"
    using p(2-4) by (cases "walkpgdir m d (pg q) False") auto
  obtain r bs where rd: "readi dv f ip (off + i) n = Some (r, bs, f)" "length bs \<le> unat n"
    "(of_int r :: u32) = n \<longrightarrow> unat (off + i) + unat n \<le> unat (isize (icache f ! ip)) \<and>
       bs = map (fbyte f ip) [unat (off + i)..<unat (off + i) + unat n]"
    "unat (off + i) + unat n \<le> unat (isize (icache f ! ip)) \<longrightarrow> (of_int r :: u32) = n"
    using readi_whole [OF w n0] by blast
  let ?m' = "m\<lparr>kbytes := store_bytes (kbytes m) p bs\<rparr>"
  have len: "0 + length bs \<le> 4096" using rd(2) n0(2) by simp
  note st = ustage_store [OF s p(1) len, simplified]
  have u: "loaduvm_loop dv m f d va ip off fsz i =
      (if (of_int r :: u32) \<noteq> n then Some (-1, ?m', f) else loaduvm_loop dv ?m' f d va ip off fsz (i + PGSIZE))"
    using i pte rd(1) by (subst loaduvm_loop.simps) (simp only: Let_def va(1) n [symmetric] if_True prod.case if_False option.case simp_thms)
  show ?thesis
  proof (cases "(of_int r :: u32) = n")
    case False
    hence "loaduvm_loop dv m f d va ip off fsz i = Some (-1, ?m', f)" unfolding u by simp
    thus ?thesis using False rd(4) st(1) by (auto simp: not_le)
  next
    case True
    hence bs: "bs = map (fbyte f ip) [unat (off + i)..<unat (off + i) + unat n]" "unat (off + i) + unat n \<le> 71680"
      using rd(3) whole_size [OF w] by auto
    have "umem (kbytes ?m') up = poke (umem (kbytes m) up) (q * 4096) (unat n) (\<lambda>k. fbyte f ip (unat (off + i) + k))"
      using st(2) poke_cong [of "unat n" "(!) bs"] bs(1) len by simp
    moreover have "loaduvm_loop dv m f d va ip off fsz i = loaduvm_loop dv ?m' f d va ip off fsz (i + PGSIZE)"
      by (subst u) (simp only: True simp_thms if_False)
    ultimately show ?thesis using st(1) bs(2) by blast
  qed
qed

lemma loaduvm_loop_pokes:
  assumes s: "ustage ke A m0 d m xs up sz" and w: "whole_file f ip" and va: "va = pg v" "v * 4096 + unat fsz \<le> pages sz * 4096"
    and j: "j * 4096 < unat fsz + 4096" "unat off + j * 4096 < 2 ^ 32"
  shows "\<exists>q m'. loaduvm_loop dv m f d va ip off fsz (pg j) = Some (q, m', f) \<and> ustage ke A m0 d m' xs up sz \<and>
    (if 0 \<le> q then umem (kbytes m') up =
       poke (umem (kbytes m) up) ((v + j) * 4096) (unat fsz - j * 4096) (\<lambda>i. fbyte f ip (unat off + j * 4096 + i))
     else unat (isize (icache f ! ip)) < unat off + unat fsz)"
  using s j
proof (induction "unat fsz - j * 4096" arbitrary: m j rule: less_induct)
  case less
  note u = ustageD [OF less.prems(1)]
  have jb: "j < 1048576" using less.prems(2) va(2) u(6) by linarith
  have pj: "unat (pg j :: u32) = j * 4096" using pg_unat [OF jb] by (simp add: mult.commute)
  show ?case
  proof (cases "pg j < fsz")
    case False
    hence "unat fsz - j * 4096 = 0" by (simp add: word_less_nat_alt pj)
    moreover have "loaduvm_loop dv m f d va ip off fsz (pg j) = Some (0, m, f)" using False by (subst loaduvm_loop.simps) simp
    ultimately show ?thesis using less.prems(1) by simp
  next
    case True
    hence lt: "j * 4096 < unat fsz" by (simp add: word_less_nat_alt pj)
    define n where "n = (if fsz - pg j < PGSIZE then fsz - pg j else PGSIZE)"
    have sub: "unat (fsz - pg j) = unat fsz - j * 4096" using True by (simp add: unat_sub_cases word_le_nat_alt word_less_nat_alt pj)
    have n: "unat n = min (unat fsz - j * 4096) 4096"
      unfolding n_def if_distrib [of unat] word_less_nat_alt sub by (simp add: PGSIZE_def)
    have q: "va + pg j = pg (v + j)" "v + j < pages sz" using va lt by (simp_all only: pg_add)
    have oj: "unat (off + pg j) = unat off + j * 4096" using less.prems(3) by (subst unat_plus32) (simp_all add: pj)
    obtain m' where m': "ustage ke A m0 d m' xs up sz"
      "loaduvm_loop dv m f d va ip off fsz (pg j) = Some (-1, m', f) \<and> unat (isize (icache f ! ip)) < unat (off + pg j) + unat n \<or>
       loaduvm_loop dv m f d va ip off fsz (pg j) = loaduvm_loop dv m' f d va ip off fsz (pg j + PGSIZE) \<and>
         unat (off + pg j) + unat n \<le> 71680 \<and>
         umem (kbytes m') up = poke (umem (kbytes m) up) ((v + j) * 4096) (unat n) (\<lambda>k. fbyte f ip (unat (off + pg j) + k))"
      using loaduvm_round [OF less.prems(1) w True q n_def] by blast
    from m'(2) show ?thesis
    proof (elim disjE conjE)
      assume h: "loaduvm_loop dv m f d va ip off fsz (pg j) = Some (-1, m', f)" "unat (isize (icache f ! ip)) < unat (off + pg j) + unat n"
      have "unat (off + pg j) + unat n \<le> unat off + unat fsz" unfolding oj n using lt by simp
      thus ?thesis using m'(1) h by auto
    next
      assume h: "loaduvm_loop dv m f d va ip off fsz (pg j) = loaduvm_loop dv m' f d va ip off fsz (pg j + PGSIZE)"
        "unat (off + pg j) + unat n \<le> 71680"
        "umem (kbytes m') up = poke (umem (kbytes m) up) ((v + j) * 4096) (unat n) (\<lambda>k. fbyte f ip (unat (off + pg j) + k))"
      have nx: "loaduvm_loop dv m f d va ip off fsz (pg j) = loaduvm_loop dv m' f d va ip off fsz (pg (Suc j))"
        unfolding h(1) pg_Suc ..
      have "unat fsz - Suc j * 4096 < unat fsz - j * 4096" "Suc j * 4096 < unat fsz + 4096" "unat off + Suc j * 4096 < 2 ^ 32"
        using lt h(2) oj less.prems(3) by simp_all
      from less.hyps [OF this(1) m'(1) this(2,3)] obtain q m'' where
        r: "loaduvm_loop dv m' f d va ip off fsz (pg (Suc j)) = Some (q, m'', f)" "ustage ke A m0 d m'' xs up sz"
        "if 0 \<le> q then umem (kbytes m'') up =
           poke (umem (kbytes m') up) ((v + Suc j) * 4096) (unat fsz - Suc j * 4096) (\<lambda>i. fbyte f ip (unat off + Suc j * 4096 + i))
         else unat (isize (icache f ! ip)) < unat off + unat fsz"
        by blast
      have "poke (umem (kbytes m') up) ((v + Suc j) * 4096) (unat fsz - Suc j * 4096) (\<lambda>i. fbyte f ip (unat off + Suc j * 4096 + i)) =
          poke (umem (kbytes m) up) ((v + j) * 4096) (unat fsz - j * 4096) (\<lambda>i. fbyte f ip (unat off + j * 4096 + i))"
      proof (cases "unat fsz - j * 4096 \<le> 4096")
        case True
        hence "unat fsz - Suc j * 4096 = 0" "unat n = unat fsz - j * 4096" using n by simp_all
        thus ?thesis unfolding h(3) by (simp add: oj)
      next
        case False
        hence n4: "unat n = 4096" "(v + Suc j) * 4096 = (v + j) * 4096 + 4096" "unat fsz - j * 4096 = 4096 + (unat fsz - Suc j * 4096)"
          using n by simp_all
        show ?thesis unfolding h(3) n4(1,2) oj unfolding n4(3) by (rule poke_step) (simp_all add: ac_simps)
      qed
      thus ?thesis using nx r by (intro exI [of _ q] exI [of _ m'']) simp
    qed
  qed
qed

lemma loaduvm_pokes:
  assumes "ustage ke A m0 d m xs up sz" "whole_file f ip" "va mod PGSIZE = 0" "unat va + unat fsz \<le> pages sz * 4096"
  shows "\<exists>q m'. loaduvm dv m f d va ip off fsz = Some (q, m', f) \<and> ustage ke A m0 d m' xs up sz \<and>
    (if 0 \<le> q then umem (kbytes m') up = poke (umem (kbytes m) up) (unat va) (unat fsz) (\<lambda>i. fbyte f ip (unat off + i))
     else unat (isize (icache f ! ip)) < unat off + unat fsz)"
proof -
  obtain v where v: "unat va = v * 4096" using assms(3) unfolding page_aligned aligned_def by (metis dvdE mult.commute)
  have "v < 1048576" using v unat_lt32 [of va] by simp
  hence va: "va = pg v" using v by (simp add: word_unat_eq_iff pg_unat)
  have "\<exists>q m'. loaduvm_loop dv m f d va ip off fsz (pg 0) = Some (q, m', f) \<and> ustage ke A m0 d m' xs up sz \<and>
    (if 0 \<le> q then umem (kbytes m') up =
       poke (umem (kbytes m) up) ((v + 0) * 4096) (unat fsz - 0 * 4096) (\<lambda>i. fbyte f ip (unat off + 0 * 4096 + i))
     else unat (isize (icache f ! ip)) < unat off + unat fsz)"
    by (rule loaduvm_loop_pokes [OF assms(1,2) va]) (use assms(4) v unat_lt32 [of off] in simp_all)
  then obtain q m' where "loaduvm_loop dv m f d va ip off fsz 0 = Some (q, m', f)" "ustage ke A m0 d m' xs up sz"
    "if 0 \<le> q then umem (kbytes m') up = poke (umem (kbytes m) up) (unat va) (unat fsz) (\<lambda>i. fbyte f ip (unat off + i))
     else unat (isize (icache f ! ip)) < unat off + unat fsz" using v by auto
  thus ?thesis using assms(3) by (intro exI [of _ q] exI [of _ m']) (simp add: loaduvm_def)
qed


text \<open>What the program headers ask for: zeroes up to the end of each segment, and the bytes of the file at its start.\<close>

fun headers :: "(nat \<Rightarrow> u8) \<Rightarrow> nat \<Rightarrow> nat \<Rightarrow> proghdr list" where
  "headers c off 0 = []"
| "headers c off (Suc n) = proghdr_of (map c [off..<off + 32]) # headers c (off + 32) n"

fun load_image :: "(nat \<Rightarrow> u8) \<Rightarrow> proghdr list \<Rightarrow> u32 \<Rightarrow> (nat \<rightharpoonup> u8) \<Rightarrow> u32 \<times> (nat \<rightharpoonup> u8)" where
  "load_image c [] sz M = (sz, M)"
| "load_image c (ph # phs) sz M =
     (if ph_type ph \<noteq> ELF_PROG_LOAD then load_image c phs sz M
      else let z = max sz (ph_va ph + ph_memsz ph)
           in load_image c phs z
                (poke (zero_fill M (pages sz) (pages z)) (unat (ph_va ph)) (unat (ph_filesz ph)) (\<lambda>i. c (unat (ph_offset ph) + i))))"

definition good_header :: "proghdr \<Rightarrow> bool" where
  "good_header ph \<longleftrightarrow> (ph_type ph = ELF_PROG_LOAD \<longrightarrow> ph_va ph mod PGSIZE = 0 \<and> unat (ph_va ph) + unat (ph_memsz ph) < 2 ^ 32)"

lemma pages_pg: "k \<le> 161 \<Longrightarrow> pages (pg k) = k"
  unfolding pages_def by (subst pg_unat) simp_all

text \<open>When that can be done with a file of \<open>n\<close> bytes and headers from \<open>off\<close> on, given enough memory.\<close>

fun loadable :: "nat \<Rightarrow> nat \<Rightarrow> proghdr list \<Rightarrow> u32 \<Rightarrow> bool" where
  "loadable n off [] sz = True"
| "loadable n off (ph # phs) sz =
     (off + 32 \<le> n \<and>
      (if ph_type ph \<noteq> ELF_PROG_LOAD then loadable n (off + 32) phs sz
       else let z = max sz (ph_va ph + ph_memsz ph)
            in ph_filesz ph \<le> ph_memsz ph \<and> z \<noteq> 0 \<and> z \<le> USERTOP \<and> unat (ph_offset ph) + unat (ph_filesz ph) \<le> n \<and>
               loadable n (off + 32) phs z))"

lemma load_image_mono: "sz \<le> fst (load_image c phs sz M)"
proof (induction c phs sz M rule: load_image.induct)
  case (2 c ph phs sz M)
  thus ?case by (auto simp: Let_def intro: order_trans [OF max.cobounded1])
qed simp

lemma pages_mono: "a \<le> b \<Longrightarrow> pages a \<le> pages b"
  unfolding pages_def word_le_nat_alt by (intro div_le_mono) simp

lemma pages_bound: "unat sz \<le> pages sz * 4096"
  unfolding pages_def by linarith

lemma exec_load_image:
  assumes "ustage ke A m0 d m xs up sz" "whole_file f ip" "\<forall>ph \<in> set (headers (fbyte f ip) (unat off) n). good_header ph"
  shows "\<exists>r m' xs' up' sz'. exec_load ke dv m f d ip off n sz = Some (r, m', f) \<and> ustage ke A m0 d m' xs' up' sz' \<and>
    (\<forall>z. r = Some z \<longrightarrow> z = sz' \<and> load_image (fbyte f ip) (headers (fbyte f ip) (unat off) n) sz (umem (kbytes m) up) = (z, umem (kbytes m') up')) \<and>
    (loadable (unat (isize (icache f ! ip))) (unat off) (headers (fbyte f ip) (unat off) n) sz \<and>
       pages (fst (load_image (fbyte f ip) (headers (fbyte f ip) (unat off) n) sz (umem (kbytes m) up))) + 13 \<le> card A \<longrightarrow> r \<noteq> None)"
  using assms(1,3)
proof (induction n arbitrary: off m xs up sz)
  case 0
  thus ?case by (intro exI [of _ "Some sz"] exI [of _ m] exI [of _ xs] exI [of _ up] exI [of _ sz]) simp
next
  case (Suc n)
  let ?c = "fbyte f ip"
  let ?ph = "proghdr_of (map ?c [unat off..<unat off + 32])"
  have n32: "(0 :: u32) < 32" "unat (32 :: u32) \<le> 4096" by simp_all
  obtain r bs where rd: "readi dv f ip off 32 = Some (r, bs, f)"
    "(of_int r :: u32) = 32 \<longrightarrow> unat off + 32 \<le> unat (isize (icache f ! ip)) \<and> bs = map ?c [unat off..<unat off + 32]"
    "unat off + 32 \<le> unat (isize (icache f ! ip)) \<longrightarrow> (of_int r :: u32) = 32"
    using readi_whole [OF assms(2) n32, of dv off] by auto
  let ?hs = "headers ?c (unat off) (Suc n)" and ?fs = "unat (isize (icache f ! ip))"
  let ?img = "load_image ?c ?hs sz (umem (kbytes m) up)"
  have bad: ?case if "exec_load ke dv m f d ip off (Suc n) sz = Some (None, m', f)" "ustage ke A m0 d m' xs' up' sz'"
    "\<not> (loadable ?fs (unat off) ?hs sz \<and> pages (fst ?img) + 13 \<le> card A)" for m' xs' up' sz'
    using that by blast
  show ?case
  proof (cases "(of_int r :: u32) = 32")
    case False
    hence "exec_load ke dv m f d ip off (Suc n) sz = Some (None, m, f)" using rd(1) by simp
    thus ?thesis by (rule bad [OF _ Suc.prems(1)]) (use rd(3) False in simp)
  next
    case True
    hence bs: "bs = map ?c [unat off..<unat off + 32]" "unat off + 32 \<le> 71680" using rd(2) whole_size [OF assms(2)] by auto
    have off: "unat (off + 32) = unat off + 32" using bs(2) by (subst unat_plus32) simp_all
    have good: "good_header ?ph" "\<forall>ph \<in> set (headers ?c (unat (off + 32)) n). good_header ph"
      using Suc.prems(2) unfolding off by simp_all
    have step: "exec_load ke dv m f d ip off (Suc n) sz =
      (if ph_type ?ph \<noteq> ELF_PROG_LOAD then exec_load ke dv m f d ip (off + 32) n sz
       else if ph_memsz ?ph < ph_filesz ?ph then Some (None, m, f)
       else case allocuvm USERTOP ke m d sz (ph_va ?ph + ph_memsz ?ph) of
              None \<Rightarrow> None
            | Some (sz1, s1) \<Rightarrow>
                if sz1 = 0 then Some (None, s1, f)
                else case loaduvm dv s1 f d (ph_va ?ph) ip (ph_offset ?ph) (ph_filesz ?ph) of
                       None \<Rightarrow> None
                     | Some (q, s2, f2) \<Rightarrow> if q < 0 then Some (None, s2, f2) else exec_load ke dv s2 f2 d ip (off + 32) n sz1)"
      using rd(1) True bs(1) by (simp only: exec_load.simps option.case prod.case Let_def simp_thms if_False)
    show ?thesis
    proof (cases "ph_type ?ph = ELF_PROG_LOAD")
      case False
      hence e: "exec_load ke dv m f d ip off (Suc n) sz = exec_load ke dv m f d ip (off + 32) n sz" unfolding step by simp
      have i: "?img = load_image ?c (headers ?c (unat off + 32) n) sz (umem (kbytes m) up)" using False by simp
      have ld: "loadable ?fs (unat off) ?hs sz \<Longrightarrow> loadable ?fs (unat off + 32) (headers ?c (unat off + 32) n) sz"
        using False by simp
      show ?thesis unfolding e i using Suc.IH [OF Suc.prems(1) good(2)] ld unfolding off by blast
    next
      case load: True
      show ?thesis
      proof (cases "ph_memsz ?ph < ph_filesz ?ph")
        case True
        hence "exec_load ke dv m f d ip off (Suc n) sz = Some (None, m, f)" unfolding step using load by simp
        thus ?thesis by (rule bad [OF _ Suc.prems(1)]) (use True load in \<open>simp add: Let_def not_le\<close>)
      next
        case False
        let ?z = "ph_va ?ph + ph_memsz ?ph"
        obtain r1 m1 xs1 up1 where a: "allocuvm USERTOP ke m d sz ?z = Some (r1, m1)"
          "if r1 = 0 then (\<exists>sz'. ustage ke A m0 d m1 xs1 up1 sz') \<and> (max sz ?z = 0 \<or> ?z > USERTOP \<or> card A < pages ?z + 13)
           else ustage ke A m0 d m1 xs1 up1 r1 \<and> r1 = (if ?z < sz then sz else ?z) \<and>
             umem (kbytes m1) up1 = zero_fill (umem (kbytes m) up) (pages sz) (pages r1)"
          using ustage_grow [OF Suc.prems(1)] by blast
        show ?thesis
        proof (cases "r1 = 0")
          case True
          hence "exec_load ke dv m f d ip off (Suc n) sz = Some (None, m1, f)" unfolding step using load False a(1) by simp
          moreover have "\<not> (loadable ?fs (unat off) ?hs sz \<and> pages (fst ?img) + 13 \<le> card A)"
          proof
            assume ok: "loadable ?fs (unat off) ?hs sz \<and> pages (fst ?img) + 13 \<le> card A"
            hence ok1: "max sz ?z \<noteq> 0" "max sz ?z \<le> USERTOP" using load by (simp_all add: Let_def)
            have "max sz ?z \<le> fst ?img" using load load_image_mono by (simp add: Let_def del: max.bounded_iff)
            hence "pages ?z \<le> pages (fst ?img)" by (intro pages_mono) (rule order_trans [OF max.cobounded2])
            moreover have "?z \<le> USERTOP" using ok1(2) by simp
            ultimately show False using a(2) True ok ok1(1) by auto
          qed
          ultimately show ?thesis using a(2) True bad by auto
        next
          case r1: False
          hence s1: "ustage ke A m0 d m1 xs1 up1 r1" "r1 = max sz ?z"
            "umem (kbytes m1) up1 = zero_fill (umem (kbytes m) up) (pages sz) (pages r1)"
            using a(2) by (auto simp: max_def)
          have va: "ph_va ?ph mod PGSIZE = 0" "unat ?z = unat (ph_va ?ph) + unat (ph_memsz ?ph)"
            using good(1) load by (simp_all add: good_header_def unat_plus32)
          have "unat ?z \<le> unat r1" unfolding s1(2) by (simp add: word_le_nat_alt [symmetric])
          hence fits: "unat (ph_va ?ph) + unat (ph_filesz ?ph) \<le> pages r1 * 4096"
            using va(2) False pages_bound [of r1] by (simp add: word_less_nat_alt)
          obtain q m2 where l: "loaduvm dv m1 f d (ph_va ?ph) ip (ph_offset ?ph) (ph_filesz ?ph) = Some (q, m2, f)"
            "ustage ke A m0 d m2 xs1 up1 r1"
            "if 0 \<le> q then umem (kbytes m2) up1 = poke (umem (kbytes m1) up1) (unat (ph_va ?ph)) (unat (ph_filesz ?ph)) (\<lambda>i. ?c (unat (ph_offset ?ph) + i))
             else ?fs < unat (ph_offset ?ph) + unat (ph_filesz ?ph)"
            using loaduvm_pokes [OF s1(1) assms(2) va(1) fits] by blast
          show ?thesis
          proof (cases "q < 0")
            case True
            hence "exec_load ke dv m f d ip off (Suc n) sz = Some (None, m2, f)" unfolding step using load False a(1) r1 l(1) by simp
            thus ?thesis by (rule bad [OF _ l(2)]) (use True load l(3) in \<open>simp add: Let_def\<close>)
          next
            case q: False
            have e: "exec_load ke dv m f d ip off (Suc n) sz = exec_load ke dv m2 f d ip (off + 32) n r1"
              unfolding step using load False a(1) r1 l(1) q by simp
            have i: "?img = load_image ?c (headers ?c (unat off + 32) n) r1 (umem (kbytes m2) up1)"
              using load q l(3) s1(2,3) by (simp add: Let_def)
            have ld: "loadable ?fs (unat off) ?hs sz \<Longrightarrow> loadable ?fs (unat off + 32) (headers ?c (unat off + 32) n) r1"
              using load s1(2) by (simp add: Let_def)
            show ?thesis unfolding e i using Suc.IH [OF l(2) good(2)] ld unfolding off by blast
          qed
        qed
      qed
    qed
  qed
qed

subsection \<open>Arguments\<close>

lemma copyout_list_pokes:
  assumes "ustage ke A m0 d m xs up sz" "unat va + length bs \<le> pages sz * 4096"
  shows "\<exists>m'. copyout_list m d va bs = Some (0, m') \<and> ustage ke A m0 d m' xs up sz \<and>
    umem (kbytes m') up = poke (umem (kbytes m) up) (unat va) (length bs) ((!) bs)"
  using assms
proof (induction "length bs" arbitrary: bs va m rule: less_induct)
  case less
  show ?case
  proof (cases "bs = []")
    case True
    thus ?thesis using less.prems(1) by (subst copyout_list.simps) simp
  next
    case False
    let ?q = "unat va div 4096" and ?off = "unat va mod 4096"
    note u6 = ustageD(6) [OF less.prems(1)]
    have "unat va < pages sz * 4096" using less.prems(2) False by (cases bs) simp_all
    hence q: "?q < pages sz" "?q < 160" "unat va = ?q * 4096 + ?off" "?off < 4096"
      using u6 less_mult_imp_div_less [of "unat va" "pages sz" 4096] by (simp_all add: div_mult_mod_eq)
    have "unat va < 160 * 4096" using q(2-4) by linarith
    note off = page_split(3) [OF this] and va0 = page_split(2) [OF this] and va = page_split(1) [OF this]
    obtain p where p: "up ?q = Some p" "p \<noteq> 0" "uva2ka m d (pg ?q) = Some p" using ustage_page [OF less.prems(1) q(1)] by blast
    define n where "n = min (4096 - ?off) (length bs)"
    have n: "0 < n" "n \<le> length bs" "?off + length (take n bs) \<le> 4096" using False q(4) by (auto simp: n_def)
    have "unat (PGSIZE - of_nat ?off) = 4096 - ?off"
      using q(4) by (simp add: unat_sub_cases PGSIZE_def word_le_nat_alt unat_of_nat)
    hence nn: "min (unat (PGSIZE - of_nat ?off)) (length bs) = n" by (simp add: n_def)
    let ?m1 = "m\<lparr>kbytes := store_bytes (kbytes m) (p + of_nat ?off) (take n bs)\<rparr>"
    note st = ustage_store [OF less.prems(1) p(1) n(3)]
    have step: "copyout_list m d va bs = copyout_list ?m1 d (pg ?q + PGSIZE) (drop n bs)"
      using False p(2,3) by (subst copyout_list.simps) (simp only: Let_def va0 option.case if_True if_False off nn simp_thms)
    have nx: "unat (pg ?q + PGSIZE) = (?q + 1) * 4096" using q(2) by (simp add: pg_Suc [symmetric] pg_unat del: of_nat_Suc)
    show ?thesis
    proof (cases "n = length bs")
      case True
      hence "copyout_list ?m1 d (pg ?q + PGSIZE) (drop n bs) = Some (0, ?m1)" by (subst copyout_list.simps) simp
      thus ?thesis using step st q(3) True by simp
    next
      case False
      hence n4: "n = 4096 - ?off" by (auto simp: n_def)
      have gen: "(c + 1) * 4096 = v + (4096 - r)" if "v = c * 4096 + r" "r < 4096" for v c r :: nat using that by simp
      have adj: "unat (pg ?q + PGSIZE) = unat va + n" unfolding nx n4 by (rule gen [OF q(3,4)])
      have l: "length (drop n bs) < length bs" "unat (pg ?q + PGSIZE) + length (drop n bs) \<le> pages sz * 4096"
        using n less.prems(2) unfolding adj by simp_all
      obtain m' where m': "copyout_list ?m1 d (pg ?q + PGSIZE) (drop n bs) = Some (0, m')" "ustage ke A m0 d m' xs up sz"
        "umem (kbytes m') up = poke (umem (kbytes ?m1) up) (unat (pg ?q + PGSIZE)) (length (drop n bs)) ((!) (drop n bs))"
        using less.hyps [OF l(1) st(1) l(2)] by blast
      have "umem (kbytes m') up = poke (poke (umem (kbytes m) up) (unat va) n ((!) (take n bs))) (unat va + n) (length bs - n) ((!) (drop n bs))"
        using m'(3) st(2) q(3) n(2) unfolding adj by simp
      also have "\<dots> = poke (umem (kbytes m) up) (unat va) (n + (length bs - n)) ((!) bs)" by (rule poke_step) (use n(2) in simp_all)
      finally show ?thesis using step m'(1,2) n(2) by simp
    qed
  qed
qed


definition has_bytes :: "(nat \<rightharpoonup> u8) \<Rightarrow> nat \<Rightarrow> u8 list \<Rightarrow> bool" where
  "has_bytes M a bs \<longleftrightarrow> (\<forall>k < length bs. M (a + k) = Some (bs ! k))"

text \<open>An upper bound of the space that the argument strings take.\<close>

definition args_size :: "u8 list list \<Rightarrow> nat" where
  "args_size argv = sum_list (map (\<lambda>a. length a + 4) argv)"

lemma has_bytes_poke: "has_bytes (poke M a (length bs) ((!) bs)) a bs"
  by (simp add: has_bytes_def poke_def)

lemma has_bytes_mono: "has_bytes M a bs \<Longrightarrow> (\<And>x. a \<le> x \<Longrightarrow> x < a + length bs \<Longrightarrow> M' x = M x) \<Longrightarrow> has_bytes M' a bs"
  by (simp add: has_bytes_def)

lemma align_down:
  fixes x :: u32
  shows "unat (x AND NOT 3) \<le> unat x" "unat x \<le> unat (x AND NOT 3) + 3"
proof -
  have "(x AND NOT 3) AND (x AND 3) = 0" by (rule bit_eqI) (auto simp: bit_simps)
  hence "(x AND NOT 3) + (x AND 3) = (x AND NOT 3) OR (x AND 3)" by (rule disjunctive_add_eq_or)
  also have "\<dots> = x" by (rule bit_eqI) (auto simp: bit_simps)
  finally have e: "(x AND NOT 3) + (x AND 3) = x" .
  have le: "unat (x AND 3) \<le> 3" using word_and_le1 [of x 3] by (simp add: word_le_nat_alt)
  show a: "unat (x AND NOT 3) \<le> unat x" using word_and_le2 [of x "NOT 3"] by (simp add: word_le_nat_alt)
  have "unat x \<le> unat (x AND NOT 3) + unat (x AND 3)" 
    by (subst e [symmetric]) (simp only: unat_word_ariths mod_less_eq_dividend)
  thus "unat x \<le> unat (x AND NOT 3) + 3" using le by simp
qed

lemma push_args_spec:
  assumes "ustage ke A m0 d m xs up sz" "unat sp \<le> pages sz * 4096" "args_size argv \<le> unat sp" "length us0 \<le> MAXARG"
  shows "if length us0 + length argv \<le> MAXARG
    then \<exists>sp' us m'. push_args m d sp argv us0 = Some (Some (sp', us0 @ us), m') \<and> ustage ke A m0 d m' xs up sz \<and>
      length us = length argv \<and> unat sp' \<le> unat sp \<and> unat sp \<le> unat sp' + args_size argv \<and>
      (\<forall>a. a < unat sp' \<or> unat sp \<le> a \<longrightarrow> umem (kbytes m') up a = umem (kbytes m) up a) \<and>
      (\<forall>i < length argv. unat sp' \<le> unat (us ! i) \<and> unat (us ! i) + length (argv ! i) < unat sp \<and>
         has_bytes (umem (kbytes m') up) (unat (us ! i)) (argv ! i @ [0]))
    else \<exists>m'. push_args m d sp argv us0 = Some (None, m') \<and> ustage ke A m0 d m' xs up sz"
  using assms
proof (induction argv arbitrary: m sp us0)
  case Nil
  thus ?case by (simp add: args_size_def)
next
  case (Cons a as)
  show ?case
  proof (cases "length us0 < MAXARG")
    case False
    hence "push_args m d sp (a # as) us0 = Some (None, m)" by simp
    thus ?thesis using False Cons.prems(1) by auto
  next
    case True
    let ?x = "sp - (of_nat (length a) + 1)"
    let ?sp = "?x AND NOT 3"
    have len: "length a + 4 + args_size as \<le> unat sp" using Cons.prems(3) by (simp add: args_size_def)
    have "unat (of_nat (length a) + 1 :: u32) = length a + 1"
      using len unat_lt32 [of sp] by (subst unat_plus32) (simp_all add: unat_of_nat)
    hence x: "unat ?x = unat sp - (length a + 1)" using len by (simp add: unat_sub_cases word_le_nat_alt)
    have sp: "unat ?sp + length a < unat sp" "unat sp \<le> unat ?sp + (length a + 4)"
      using align_down [of ?x] x len by simp_all
    have "unat ?sp + length (a @ [0]) \<le> pages sz * 4096" using sp(1) Cons.prems(2) by simp
    from copyout_list_pokes [OF Cons.prems(1) this] obtain m1 where m1: "copyout_list m d ?sp (a @ [0]) = Some (0, m1)"
      "ustage ke A m0 d m1 xs up sz" "umem (kbytes m1) up = poke (umem (kbytes m) up) (unat ?sp) (length (a @ [0])) ((!) (a @ [0]))"
      by blast
    have step: "push_args m d sp (a # as) us0 = push_args m1 d ?sp as (us0 @ [?sp])"
      using True m1(1) by (simp add: Let_def)
    have pre: "unat ?sp \<le> pages sz * 4096" "args_size as \<le> unat ?sp" "length (us0 @ [?sp]) \<le> MAXARG"
      using sp len Cons.prems(2) True by simp_all
    note ih = Cons.IH [OF m1(2) pre]
    show ?thesis
    proof (cases "length us0 + length (a # as) \<le> MAXARG")
      case False
      thus ?thesis using ih unfolding step by simp
    next
      case ok: True
      hence "length (us0 @ [?sp]) + length as \<le> MAXARG" by simp
      with ih obtain sp' us m' where r: "push_args m1 d ?sp as (us0 @ [?sp]) = Some (Some (sp', (us0 @ [?sp]) @ us), m')"
        "ustage ke A m0 d m' xs up sz" "length us = length as" "unat sp' \<le> unat ?sp" "unat ?sp \<le> unat sp' + args_size as"
        "\<forall>b. b < unat sp' \<or> unat ?sp \<le> b \<longrightarrow> umem (kbytes m') up b = umem (kbytes m1) up b"
        "\<forall>i < length as. unat sp' \<le> unat (us ! i) \<and> unat (us ! i) + length (as ! i) < unat ?sp \<and>
           has_bytes (umem (kbytes m') up) (unat (us ! i)) (as ! i @ [0])"
        unfolding if_P [OF \<open>length (us0 @ [?sp]) + length as \<le> MAXARG\<close>] by blast
      have here: "has_bytes (umem (kbytes m') up) (unat ?sp) (a @ [0])"
      proof (rule has_bytes_mono)
        show "has_bytes (umem (kbytes m1) up) (unat ?sp) (a @ [0])" unfolding m1(3) by (rule has_bytes_poke)
        show "umem (kbytes m') up x = umem (kbytes m1) up x" if "unat ?sp \<le> x" for x using r(6) that by blast
      qed
      have keep: "umem (kbytes m') up b = umem (kbytes m) up b" if "b < unat sp' \<or> unat sp \<le> b" for b
      proof -
        have "\<not> (unat ?sp \<le> b \<and> b < unat ?sp + length (a @ [0]))" using that r(4) sp(1) by auto
        hence "umem (kbytes m1) up b = umem (kbytes m) up b" unfolding m1(3) poke_def by auto
        moreover have "b < unat sp' \<or> unat ?sp \<le> b" using that sp(1) by auto
        hence "umem (kbytes m') up b = umem (kbytes m1) up b" using r(6) by blast
        ultimately show ?thesis by simp
      qed
      have args: "unat sp' \<le> unat ((?sp # us) ! i) \<and> unat ((?sp # us) ! i) + length ((a # as) ! i) < unat sp \<and>
           has_bytes (umem (kbytes m') up) (unat ((?sp # us) ! i)) ((a # as) ! i @ [0])" if "i < length (a # as)" for i
      proof (cases i)
        case 0
        thus ?thesis using r(4) sp(1) here by simp
      next
        case (Suc j)
        hence "j < length as" using that by simp
        from r(7) [rule_format, OF this] show ?thesis using Suc sp(1) by simp
      qed
      have "push_args m d sp (a # as) us0 = Some (Some (sp', us0 @ (?sp # us)), m')" using r(1) step by simp
      moreover have "unat sp \<le> unat sp' + args_size (a # as)" using r(5) sp(2) by (simp add: args_size_def)
      moreover have "unat sp' \<le> unat sp" "length (?sp # us) = length (a # as)" using r(3,4) sp(1) by simp_all
      ultimately show ?thesis using ok r(2) keep args by (simp only: if_True) blast
    qed
  qed
qed


subsection \<open>The frame of arguments\<close>

lemma length_word_bytes [simp]: "length (word_bytes w) = 4"
  by (simp add: word_bytes_def)

lemma length_frame [simp]: "length (concat (map word_bytes ws)) = 4 * length ws"
  by (induction ws) simp_all

lemma frame_nth: "i < length ws \<Longrightarrow> k < 4 \<Longrightarrow> concat (map word_bytes ws) ! (4 * i + k) = word_bytes (ws ! i) ! k"
proof (induction ws arbitrary: i)
  case (Cons w ws)
  thus ?case by (cases i) (simp_all add: nth_append)
qed simp

definition has_word :: "(nat \<rightharpoonup> u8) \<Rightarrow> nat \<Rightarrow> u32 \<Rightarrow> bool" where
  "has_word M a w \<longleftrightarrow> has_bytes M a (word_bytes w)"

lemma frame_words: "has_bytes M a (concat (map word_bytes ws)) \<Longrightarrow> i < length ws \<Longrightarrow> has_word M (a + 4 * i) (ws ! i)"
  using frame_nth [of i ws] by (simp add: has_word_def has_bytes_def add.assoc)

text \<open>
  The stack a C program finds at its start: a return address, the number of arguments, the address of the vector, and the
  vector itself, whose entries are the addresses of the strings and a final 0.
\<close>

definition arg_stack :: "(nat \<rightharpoonup> u8) \<Rightarrow> u32 \<Rightarrow> u8 list list \<Rightarrow> bool" where
  "arg_stack M esp argv \<longleftrightarrow>
     has_word M (unat esp) 0xFFFFFFFF \<and> has_word M (unat esp + 4) (of_nat (length argv)) \<and> has_word M (unat esp + 8) (esp + 12) \<and>
     (\<forall>i < length argv. \<exists>a. has_word M (unat esp + 12 + 4 * i) a \<and> has_bytes M (unat a) (argv ! i @ [0])) \<and>
     has_word M (unat esp + 12 + 4 * length argv) 0"

lemma arg_stackI:
  assumes f: "has_bytes M (unat esp) (concat (map word_bytes (arg_frame sp us)))" and l: "length us = length argv"
    and e: "esp = sp - (3 + of_nat (length us) + 1) * 4"
    and s: "\<And>i. i < length argv \<Longrightarrow> has_bytes M (unat (us ! i)) (argv ! i @ [0])"
  shows "arg_stack M esp argv"
proof -
  have n: "length (arg_frame sp us) = length argv + 4" using l by (simp add: arg_frame_def)
  note w = frame_words [OF f]
  have v: "arg_frame sp us ! 2 = esp + 12" by (simp add: arg_frame_def e algebra_simps)
  have u: "arg_frame sp us ! (3 + i) = us ! i" if "i < length argv" for i using that l by (simp add: arg_frame_def nth_append)
  have z: "arg_frame sp us ! (3 + length argv) = 0" using l by (simp add: arg_frame_def nth_append)
  have h: "has_word M (unat esp) 0xFFFFFFFF" "has_word M (unat esp + 4) (of_nat (length argv))"
    using w [of 0] w [of 1] l by (simp_all add: n) (simp_all add: arg_frame_def)
  have h2: "has_word M (unat esp + 8) (esp + 12)" using w [of 2] v by (simp add: n)
  have h3: "has_word M (unat esp + 12 + 4 * i) (us ! i)" if "i < length argv" for i
    using w [of "3 + i"] u [OF that] that n by (simp add: add.assoc)
  have h4: "has_word M (unat esp + 12 + 4 * length argv) 0" using w [of "3 + length argv"] z n by (simp add: add.assoc)
  show ?thesis unfolding arg_stack_def using h h2 h3 h4 s by blast
qed

subsection \<open>A segment that wraps around\<close>

text \<open>
  The headers are checked only for \<open>memsz < filesz\<close>: a segment that starts in the kernel text (which every page directory maps
  to itself) and is so long that its end wraps around to 4096 passes every test, and \<open>loaduvm\<close> writes the bytes of
  the file over the kernel.
\<close>

lemma wrapped_segment_overwrites_kernel:
  assumes u: "uspace ke m xs d up" and q: "256 \<le> q" "q < kd" "q < 1024" and e: "entry (kbytes m) d (pg q) = kernel_entry kd q"
    and w: "whole_file f ip" and n: "0 < n" "unat n \<le> 4096" "unat off + unat n \<le> unat (isize (icache f ! ip))"
  shows "\<exists>ph :: proghdr. ph_va ph = pg q \<and> ph_va ph + ph_memsz ph = 4096 \<and> \<not> ph_memsz ph < ph_filesz ph \<and> ph_filesz ph = n \<and>
    loaduvm dv m f d (ph_va ph) ip off (ph_filesz ph) =
      Some (0, m\<lparr>kbytes := store_bytes (kbytes m) (pg q) (map (fbyte f ip) [unat off..<unat off + unat n])\<rparr>, f)"
proof -
  have uq: "unat (pg q) = q * 4096" using q(3) by (intro pg_unat) simp
  have al: "aligned 4096 (pg q)" using q(3) by (intro pg_aligned) simp
  have k: "entry (kbytes m) d (pg q) = pg q OR 1" using e q by (simp add: kernel_entry_def PTE_P_def)
  have P: "PTE_ADDR (pg q OR 1) = pg q" by (rule PTE_ADDR_or_flags [OF al]) simp
  have pr: "present (kbytes m) d (PDX (pg q))" using uspace_props(2) [OF u] pg_PDX [OF q(3)] by simp
  note wk = walkpgdir_found(1) [OF uspace_props(1) [OF u] pr, of False] walkpgdir_found(2) [OF uspace_props(1) [OF u] pr]
  let ?pte = "table (kbytes m) d (PDX (pg q)) + 4 * PTX (pg q)"
  have ld: "load32 (kbytes m) ?pte = pg q OR 1" using k pr by (simp only: entry_eq if_True)
  obtain r bs where rd: "readi dv f ip off n = Some (r, bs, f)" "(of_int r :: u32) = n" "bs = map (fbyte f ip) [unat off..<unat off + unat n]"
    using readi_whole [OF w n(1,2), of dv off] n(3) by blast
  have nn: "(if n < PGSIZE then n else PGSIZE) = n" using n(2) by (auto simp: PGSIZE_def word_less_nat_alt not_less word_le_nat_alt intro: word_unat_eq_iff [THEN iffD2])
  have stop: "\<not> (0 + PGSIZE < n)" using n(2) by (simp add: PGSIZE_def word_less_nat_alt)
  let ?m = "m\<lparr>kbytes := store_bytes (kbytes m) (pg q) bs\<rparr>"
  have fin: "loaduvm_loop dv ?m f d (pg q) ip off n (0 + PGSIZE) = Some (0, ?m, f)"
    by (subst loaduvm_loop.simps) (simp only: stop if_False)
  have "loaduvm_loop dv m f d (pg q) ip off n 0 = Some (0, ?m, f)"
    using n(1) wk(2) rd(1,2) fin
    by (subst loaduvm_loop.simps) (simp only: add_0_right diff_0_right wk(1) prod.case ld P Let_def nn option.case if_True if_False simp_thms)
  moreover have "pg q mod PGSIZE = 0" using al by (simp add: aligned_def PGSIZE_def word_unat_eq_iff unat_mod)
  ultimately have l: "loaduvm dv m f d (pg q) ip off n = Some (0, ?m, f)" by (simp only: loaduvm_def simp_thms if_False)
  have "unat (4096 - pg q) = 2 ^ 32 + 4096 - q * 4096"
    using q uq by (simp add: unat_sub_cases word_le_nat_alt)
  hence "\<not> 4096 - pg q < n" using n(2) q(3) by (simp add: word_less_nat_alt)
  thus ?thesis using l rd(3) by (intro exI [of _ "\<lparr>ph_type = 1, ph_offset = off, ph_va = pg q, ph_pa = 0, ph_filesz = n,
      ph_memsz = 4096 - pg q, ph_flags = 0, ph_align = 0\<rparr>"]) simp
qed

end
