(* ===== verification/ExecProps.thy ===== *)
theory ExecProps
  imports Exec Sysfile
begin

text \<open>
  What \<open>exec\<close> guarantees: it either replaces the whole image of the process by the one the program file describes, or leaves the
  process and its memory as they were.  The page accounting shows that neither path loses a page.
\<close>

subsection \<open>The old image\<close>

text \<open>The process that calls \<open>exec\<close> and its memory.\<close>

definition caller :: "u32 \<Rightarrow> xkernel \<Rightarrow> kmem \<Rightarrow> u32 list \<Rightarrow> upages \<Rightarrow> bool" where
  "caller ke k m xs up \<longleftrightarrow> uspace ke m xs (xpgdir (xp k)) up \<and> umem (kbytes m) up = umem (kbytes (xkm k)) up \<and>
     owned_pages m (xpgdir (xp k)) up = owned_pages (xkm k) (xpgdir (xp k)) up"

lemma caller_refl: "uspace ke (xkm k) xs (xpgdir (xp k)) up \<Longrightarrow> caller ke k (xkm k) xs up"
  by (simp add: caller_def)

lemma caller_frame:
  assumes u: "uspace ke (xkm k) xs0 (xpgdir (xp k)) up0" and so: "same_outside (set xs0) (kbytes (xkm k)) (kbytes m)"
    and k: "kinv ke m xs" and x: "set xs \<subseteq> set xs0"
  shows "caller ke k m xs up0"
proof -
  have 1: "set xs0 \<inter> owned_pages (xkm k) (xpgdir (xp k)) up0 = {}" using owned_not_free(1) [OF u] by blast
  have 2: "set xs \<inter> owned_pages (xkm k) (xpgdir (xp k)) up0 = {}" using 1 x by blast
  have "kinv ke (xkm k) xs0" using uspace_props(1) [OF u] by (simp add: vminv_def)
  hence al: "\<forall>q \<in> set xs0. aligned 4096 q" by (rule kinv_aligned)
  note f = uspace_frame [OF u k 2 so al 1]
  show ?thesis unfolding caller_def using f(1-3) by blast
qed

lemma ustage_caller:
  assumes u: "uspace ke (xkm k) xs0 (xpgdir (xp k)) up0" and s: "ustage ke (set xs0) (kbytes (xkm k)) d m xs up sz"
  shows "caller ke k m xs up0"
  using caller_frame [OF u ustageD(5) [OF s]] uspace_props(1) [OF ustageD(1) [OF s]] ustageD(4) [OF s] by (auto simp: vminv_def)

lemma exec_bad_keeps:
  assumes u: "uspace ke (xkm k) xs0 (xpgdir (xp k)) up0" and s: "ustage ke (set xs0) (kbytes (xkm k)) d m xs up sz"
    and f: "(case ipo of None \<Rightarrow> Some f | Some ip \<Rightarrow> iunlockput f ip) = Some f1"
  shows "\<exists>k' xs'. exec_bad ke k m f d ipo = Some (-1, k') \<and> xp k' = xp k \<and> xcr3 k' = xcr3 k \<and> xfs k' = f1 \<and>
    caller ke k (xkm k') xs' up0 \<and> set xs' = set xs0"
proof -
  note t = ustageD [OF s]
  obtain m1 xs1 where m1: "freevm ke m d = Some m1" "kinv ke m1 xs1" "set xs1 = set xs \<union> owned_pages m d up" "same_outside (set xs1) (kbytes m) (kbytes m1)"
    using freevm_frees [OF t(1)] by blast
  have x: "set xs1 = set xs0" using m1(3) t(4) by simp
  have "same_outside (set xs0) (kbytes (xkm k)) (kbytes m1)" using same_outside_trans [OF t(5)] m1(4) x by simp
  hence "caller ke k m1 xs1 up0" using caller_frame [OF u _ m1(2)] x by simp
  moreover have "d \<noteq> 0" using uspace_props(1) [OF t(1)] by (simp add: vminv_def)
  ultimately show ?thesis using m1(1) x f by (simp add: exec_bad_def) blast
qed


subsection \<open>Installing the new image\<close>

text \<open>
  The new process: \<open>M\<close> below the stack page number \<open>P\<close>, the argument frame in that page, zeroes below it, and all pages of
  the old process free.
\<close>

definition new_image ::
    "u32 \<Rightarrow> xkernel \<Rightarrow> u32 list \<Rightarrow> upages \<Rightarrow> xkernel \<Rightarrow> (nat \<rightharpoonup> u8) \<Rightarrow> nat \<Rightarrow> u8 list list \<Rightarrow> bool" where
  "new_image ke k xs0 up0 k' M P argv \<longleftrightarrow>
     (\<exists>xs up. uspace ke (xkm k') xs (xpgdir (xp k')) up \<and> dom up = {..P} \<and>
        set xs \<union> owned_pages (xkm k') (xpgdir (xp k')) up = set xs0 \<union> owned_pages (xkm k) (xpgdir (xp k)) up0 \<and>
        (\<forall>a < P * 4096. umem (kbytes (xkm k')) up a = M a) \<and>
        (\<forall>a. P * 4096 \<le> a \<and> a < unat (xesp (xp k')) \<longrightarrow> umem (kbytes (xkm k')) up a = Some 0) \<and>
        P * 4096 \<le> unat (xesp (xp k')) \<and> arg_stack (umem (kbytes (xkm k')) up) (xesp (xp k')) argv) \<and>
     xsz (xp k') = pg (P + 1) \<and> xcr3 k' = xpgdir (xp k')"

text \<open>The last step, which releases the old image, leaves the new one alone.\<close>

lemma release_old:
  fixes k :: xkernel
  assumes u: "uspace ke (xkm k) xs0 (xpgdir (xp k)) up0" and s: "ustage ke (set xs0) (kbytes (xkm k)) d m xs up sz"
  shows "\<exists>m' xs'. freevm ke m (xpgdir (xp k)) = Some m' \<and> uspace ke m' xs' d up \<and> umem (kbytes m') up = umem (kbytes m) up \<and>
    set xs' \<union> owned_pages m' d up = set xs0 \<union> owned_pages (xkm k) (xpgdir (xp k)) up0"
proof -
  note t = ustageD [OF s]
  let ?o = "owned_pages (xkm k) (xpgdir (xp k)) up0"
  have c: "uspace ke m xs (xpgdir (xp k)) up0" "owned_pages m (xpgdir (xp k)) up0 = ?o"
    using ustage_caller [OF u s] by (simp_all add: caller_def)
  obtain m' xs' where m': "freevm ke m (xpgdir (xp k)) = Some m'" "kinv ke m' xs'" "set xs' = set xs \<union> ?o"
    "same_outside (set xs') (kbytes m) (kbytes m')" using freevm_frees [OF c(1)] unfolding c(2) by blast
  have "set xs0 \<inter> ?o = {}" using owned_not_free(1) [OF u] by blast
  hence x: "set xs' \<inter> owned_pages m d up = {}" using t(4) m'(3) owned_not_free(1) [OF t(1)] by blast
  have al: "\<forall>q \<in> set xs'. aligned 4096 q" by (rule kinv_aligned [OF m'(2)])
  note f = uspace_frame [OF t(1) m'(2) x m'(4) al x]
  show ?thesis using m'(1,3) f(1-3) t(4) by blast
qed

lemma exec_stack_installs:
  fixes k :: xkernel
  assumes u: "uspace ke (xkm k) xs0 (xpgdir (xp k)) up0" and s: "ustage ke (set xs0) (kbytes (xkm k)) d m xs up sz0"
    and fits: "args_size argv + 4 * (length argv + 4) \<le> 4096"
  shows "\<exists>r k'. exec_stack ke k m f d sz0 ent path argv = Some (r, k') \<and> xfs k' = f \<and>
    (r = -1 \<and> xp k' = xp k \<and> xcr3 k' = xcr3 k \<and> (\<exists>xs'. caller ke k (xkm k') xs' up0 \<and> set xs' = set xs0) \<or>
     r = 0 \<and> xpgdir (xp k') = d \<and> xeip (xp k') = ent \<and> xname (xp k') = set_name (xname (xp k)) (exec_name path path) \<and>
     new_image ke k xs0 up0 k' (umem (kbytes m) up) (pages sz0) argv) \<and>
    (length argv \<le> MAXARG \<and> pages sz0 < 160 \<and> pages sz0 + 14 \<le> card (set xs0) \<longrightarrow> r = 0)"
proof -
  let ?P = "pages sz0"
  let ?ok = "length argv \<le> MAXARG \<and> ?P < 160 \<and> ?P + 14 \<le> card (set xs0)"
  let ?z = "pg (?P + 1)"
  note t = ustageD [OF s]
  have bad: ?thesis if "ustage ke (set xs0) (kbytes (xkm k)) d m' xs' up' z'"
    "exec_stack ke k m f d sz0 ent path argv = exec_bad ke k m' f d None" "\<not> ?ok" for m' xs' up' z'
    using exec_bad_keeps [where ipo = None and f = f and ?f1.0 = f, OF u that(1)] that(2,3) by auto
  have ru: "PGROUNDUP sz0 = pg ?P" by (rule PGROUNDUP_pg [OF utop_phys [OF t(3)]])
  have P: "unat (pg ?P) = ?P * 4096" "unat ?z = (?P + 1) * 4096" using t(6) by (simp_all add: pg_unat del: of_nat_Suc of_nat_add)
  have pp: "pages (pg ?P) = ?P" "pages ?z = ?P + 1" using t(6) pages_pg [of ?P] pages_pg [of "?P + 1"] by (simp_all del: of_nat_add)
  have "pg ?P \<le> USERTOP" using t(6) by (simp add: word_le_nat_alt P USERTOP_def)
  hence s1: "ustage ke (set xs0) (kbytes (xkm k)) d m xs up (pg ?P)" using s by (simp add: ustage_def pp)
  have zz: "pg ?P + PGSIZE = ?z" using pg_Suc [of ?P] by (simp only: Suc_eq_plus1)
  obtain z m1 xs1 up1 where a: "allocuvm USERTOP ke m d (pg ?P) ?z = Some (z, m1)"
    "if z = 0 then (\<exists>sz'. ustage ke (set xs0) (kbytes (xkm k)) d m1 xs1 up1 sz') \<and>
         (max (pg ?P) ?z = 0 \<or> ?z > USERTOP \<or> card (set xs0) < pages ?z + 13)
     else ustage ke (set xs0) (kbytes (xkm k)) d m1 xs1 up1 z \<and> z = (if ?z < pg ?P then pg ?P else ?z) \<and>
       umem (kbytes m1) up1 = zero_fill (umem (kbytes m) up) (pages (pg ?P)) (pages z)"
    using ustage_grow [OF s1] by blast
  have es: "exec_stack ke k m f d sz0 ent path argv =
    (if z = 0 then exec_bad ke k m1 f d None
     else case push_args m1 d z argv [] of
            None \<Rightarrow> None
          | Some (None, m2) \<Rightarrow> exec_bad ke k m2 f d None
          | Some (Some (sp, us), m2) \<Rightarrow>
              let sp1 = sp - (3 + of_nat (length us) + 1) * 4
              in case copyout_list m2 d sp1 (concat (map word_bytes (arg_frame sp us))) of
                   None \<Rightarrow> None
                 | Some (r, m3) \<Rightarrow>
                     if r < 0 then exec_bad ke k m3 f d None
                     else case freevm ke m3 (xpgdir (xp k)) of
                            None \<Rightarrow> None
                          | Some m4 \<Rightarrow>
                              Some (0, k\<lparr>xkm := m4, xfs := f, xcr3 := d,
                                xp := (xp k)\<lparr>xname := set_name (xname (xp k)) (exec_name path path),
                                             xpgdir := d, xsz := z, xeip := ent, xesp := sp1\<rparr>\<rparr>))"
    unfolding exec_stack_def Let_def ru zz a(1) by simp
  show ?thesis
  proof (cases "z = 0")
    case True
    have "\<not> ?ok"
    proof
      assume ok: ?ok
      have "unat ?z \<le> unat (max (pg ?P) ?z)" unfolding word_le_nat_alt [symmetric] by (rule max.cobounded2)
      hence "max (pg ?P) ?z \<noteq> 0" unfolding P by (intro notI) simp
      moreover have "?z \<le> USERTOP" using ok unfolding word_le_nat_alt P by (simp add: USERTOP_def)
      ultimately show False using a(2) True ok pp(2) by auto
    qed
    thus ?thesis using a(2) True bad es by auto
  next
    case False
    have "\<not> ?z < pg ?P" unfolding word_less_nat_alt P by simp
    hence "(if ?z < pg ?P then pg ?P else ?z) = ?z" by (rule if_not_P)
    with a(2) [unfolded if_not_P [OF False]] have h: "ustage ke (set xs0) (kbytes (xkm k)) d m1 xs1 up1 z" "z = ?z"
      "umem (kbytes m1) up1 = zero_fill (umem (kbytes m) up) (pages (pg ?P)) (pages z)" by metis+
    note z = h(1,2) h(3) [unfolded h(2) pp]
    have zb: "unat z \<le> pages z * 4096" "args_size argv \<le> unat z" "length ([] :: u32 list) \<le> MAXARG"
      using fits unfolding z(2) P pp by simp_all
    note pa = push_args_spec [OF z(1) zb, simplified]
    show ?thesis
    proof (cases "length argv \<le> MAXARG")
      case False
      then obtain m2 where "push_args m1 d z argv [] = Some (None, m2)" "ustage ke (set xs0) (kbytes (xkm k)) d m2 xs1 up1 z"
        using pa by auto
      moreover have "\<not> ?ok" using False by simp
      ultimately show ?thesis using bad es \<open>z \<noteq> 0\<close> by simp
    next
      case True
      then obtain sp us m2 where p: "push_args m1 d z argv [] = Some (Some (sp, us), m2)"
        "ustage ke (set xs0) (kbytes (xkm k)) d m2 xs1 up1 z" "length us = length argv" "unat sp \<le> unat z" "unat z \<le> unat sp + args_size argv"
        "\<forall>a. a < unat sp \<or> unat z \<le> a \<longrightarrow> umem (kbytes m2) up1 a = umem (kbytes m1) up1 a"
        "\<forall>i < length argv. unat sp \<le> unat (us ! i) \<and> unat (us ! i) + length (argv ! i) < unat z \<and>
           has_bytes (umem (kbytes m2) up1) (unat (us ! i)) (argv ! i @ [0])"
        using pa by auto
      define esp where "esp = sp - (3 + of_nat (length us) + 1) * 4"
      have "unat ((3 + of_nat (length us) + 1) * 4 :: u32) = 4 * (length us + 4)"
      proof -
        have "(3 + of_nat (length us) + 1) * 4 = (of_nat (4 * (length us + 4)) :: u32)" by simp
        moreover have "4 * (length us + 4) < 2 ^ 32" using fits p(3) by simp
        ultimately show ?thesis by (simp only: unat_of_nat32)
      qed
      hence esp: "unat esp + 4 * (length us + 4) = unat sp" "?P * 4096 \<le> unat esp"
        using p(3,5) fits unfolding esp_def z(2) P by (simp_all add: unat_sub_cases word_le_nat_alt)
      let ?fr = "concat (map word_bytes (arg_frame sp us))"
      have lf: "length ?fr = 4 * (length us + 4)" by (simp add: arg_frame_def)
      have "unat esp + length ?fr \<le> pages z * 4096" using lf esp(1) p(4) zb(1) by simp
      from copyout_list_pokes [OF p(2) this] obtain m3 where m3: "copyout_list m2 d esp ?fr = Some (0, m3)"
        "ustage ke (set xs0) (kbytes (xkm k)) d m3 xs1 up1 z" "umem (kbytes m3) up1 = poke (umem (kbytes m2) up1) (unat esp) (length ?fr) ((!) ?fr)"
        by blast
      obtain m4 xs4 where m4: "freevm ke m3 (xpgdir (xp k)) = Some m4" "uspace ke m4 xs4 d up1" "umem (kbytes m4) up1 = umem (kbytes m3) up1"
        "set xs4 \<union> owned_pages m4 d up1 = set xs0 \<union> owned_pages (xkm k) (xpgdir (xp k)) up0"
        using release_old [OF u m3(2)] by blast
      let ?k = "k\<lparr>xkm := m4, xfs := f, xcr3 := d, xp := (xp k)\<lparr>xname := set_name (xname (xp k)) (exec_name path path),
          xpgdir := d, xsz := z, xeip := ent, xesp := esp\<rparr>\<rparr>"
      have res: "exec_stack ke k m f d sz0 ent path argv = Some (0, ?k)"
        unfolding es using \<open>z \<noteq> 0\<close> p(1) m3(1) m4(1) by (simp add: Let_def esp_def)
      let ?M = "umem (kbytes m4) up1"
      have "has_bytes ?M (unat esp) ?fr" unfolding m4(3) m3(3) by (rule has_bytes_poke)
      moreover have "has_bytes ?M (unat (us ! i)) (argv ! i @ [0])" if "i < length argv" for i
      proof (rule has_bytes_mono)
        show "has_bytes (umem (kbytes m2) up1) (unat (us ! i)) (argv ! i @ [0])" using p(7) that by blast
        have b: "unat sp \<le> unat (us ! i)" using p(7) that by blast
        show "?M x = umem (kbytes m2) up1 x" if "unat (us ! i) \<le> x" for x
          unfolding m4(3) m3(3) poke_def lf using that b esp(1) by simp
      qed
      ultimately have st: "arg_stack ?M esp argv" by (rule arg_stackI [OF _ p(3) esp_def])
      have low: "?M a = zero_fill (umem (kbytes m) up) ?P (?P + 1) a" if "a < unat esp" for a
        unfolding m4(3) m3(3) poke_def using that p(6) esp(1) z(3) by simp
      have "?M a = umem (kbytes m) up a" if "a < ?P * 4096" for a
        using low [of a] that esp(2) less_mult_imp_div_less [OF that] by (simp add: zero_fill_def not_le)
      moreover have "?M a = Some 0" if "?P * 4096 \<le> a" "a < unat esp" for a
      proof -
        have "a < (?P + 1) * 4096" using that(2) esp(1) p(4) unfolding z(2) P by simp
        hence "a div 4096 = ?P" using that(1) by (intro div_nat_eqI) simp_all
        thus ?thesis using low [OF that(2)] by (simp add: zero_fill_def)
      qed
      moreover have "dom up1 = {..?P}" using ustageD(2) [OF z(1)] unfolding z(2) pp by auto
      ultimately have "new_image ke k xs0 up0 ?k (umem (kbytes m) up) ?P argv"
        unfolding new_image_def using m4(2,4) st esp(2) z(2) by auto
      thus ?thesis using res by auto
    qed
  qed
qed


lemma elf_of_append: "length bs = 52 \<Longrightarrow> elf_of (bs @ ys) = elf_of bs"
  by (simp add: elf_of_def rd32_def rd16_def nth_append)

lemma setupkvm_ustage:
  fixes k :: xkernel
  assumes u: "uspace ke (xkm k) xs0 (xpgdir (xp k)) up0" and kd: "256 < kd" "kd < 4096"
  shows "\<exists>d m. setupkvm (pg kd) (xkm k) = Some (d, m) \<and>
    (d = 0 \<and> card (set xs0) < 14 \<and> (\<exists>xs. caller ke k m xs up0 \<and> set xs \<subseteq> set xs0) \<or>
     d \<noteq> 0 \<and> (\<exists>xs. ustage ke (set xs0) (kbytes (xkm k)) d m xs Map.empty 0))"
proof -
  have k0: "kinv ke (xkm k) xs0" using uspace_props(1) [OF u] by (simp add: vminv_def)
  show ?thesis
  proof (cases xs0)
    case Nil
    hence "kalloc (xkm k) = (0, xkm k)" using k0 by (simp add: kinv_def kalloc_def)
    hence "setupkvm (pg kd) (xkm k) = Some (0, xkm k)" by (simp add: setupkvm_def)
    thus ?thesis using caller_refl [OF u] Nil by auto
  next
    case (Cons d xs)
    have k1: "kinv ke (xkm k) (d # xs)" using k0 Cons by simp
    obtain r m xs' where r: "setupkvm (pg kd) (xkm k) = Some (r, m)" "same_outside (set (d # xs)) (kbytes (xkm k)) (kbytes m)"
      "r = d \<and> uspace ke m xs' d Map.empty \<and> set xs' \<union> owned_pages m d Map.empty = set (d # xs) \<and> length (d # xs) \<le> length xs' + 13 \<or>
       r = 0 \<and> kinv ke m [] \<and> length (d # xs) \<le> 13"
      using setupkvm_maps [OF k1 kd] by blast
    have "distinct xs0" using k0 by (simp add: kinv_def)
    hence c: "card (set xs0) = length (d # xs)" using distinct_card [of xs0] Cons by simp
    from r(3) show ?thesis
    proof (elim disjE conjE)
      assume h: "r = d" "uspace ke m xs' d Map.empty" "set xs' \<union> owned_pages m d Map.empty = set (d # xs)"
        "length (d # xs) \<le> length xs' + 13"
      have "d \<noteq> 0" using uspace_props(1) [OF h(2)] by (simp add: vminv_def)
      moreover have "card (tabs (kbytes m) d) \<le> 12" using uspace_card [OF h(2)] h(3,4) c Cons by simp
      then have "ustage ke (set xs0) (kbytes (xkm k)) d m xs' Map.empty 0"
        using h r(2) Cons by (simp add: ustage_def pages_def)
      ultimately show ?thesis using r(1) h(1) by blast
    next
      assume h: "r = 0" "kinv ke m []" "length (d # xs) \<le> 13"
      have "caller ke k m [] up0" using caller_frame [OF u _ h(2)] r(2) Cons by simp
      thus ?thesis using r(1) h(1,3) c by auto
    qed
  qed
qed

text \<open>
  C37: \<open>exec\<close> replaces the image or changes nothing.  For a file without holes or corrupt blocks whose loadable segments
  start on page boundaries and do not wrap around, and arguments that fit into the stack page, the call returns, with the
  inode released.  Either the result is -1 and the process keeps its registers, its address space and every byte of it; or the
  result is 0 and the process has a new address space that holds exactly what the program headers ask for (the bytes of the
  file, and zeroes up to the memory size), one more page with the argument vector laid out as C programs expect it,
  the entry point of the header, and no page of the old image, all of which are free.  The call succeeds when the file is
  long enough, has the magic number, its segments lie in the file and below the top of user memory, there are at most 32
  arguments, and enough pages are free.
\<close>

theorem exec_replaces_image:
  fixes k :: xkernel
  assumes u: "uspace ke (xkm k) xs0 (xpgdir (xp k)) up0" and kd: "256 < kd" "kd < 4096"
    and fs: "namei (xfs k) cwd path = Some (Some ip, f0)" "ilock f0 ip = Some f1" "whole_file f1 ip" "iunlockput f1 ip = Some f2"
    and elf: "elf = elf_of (map (fbyte f1 ip) [0..<52])"
    and phs: "phs = headers (fbyte f1 ip) (unat (e_phoff elf)) (unat (e_phnum elf))" "\<forall>ph \<in> set phs. good_header ph"
    and img: "load_image (fbyte f1 ip) phs 0 Map.empty = (sz, M)"
    and fits: "args_size argv + 4 * (length argv + 4) \<le> 4096"
  shows "\<exists>r k'. exec (pg kd) ke dv elf0 cwd k path argv = Some (r, k') \<and> xfs k' = f2 \<and>
    (r = -1 \<and> xp k' = xp k \<and> xcr3 k' = xcr3 k \<and> (\<exists>xs'. caller ke k (xkm k') xs' up0 \<and> set xs' \<subseteq> set xs0) \<or>
     r = 0 \<and> e_magic elf = ELF_MAGIC \<and> xeip (xp k') = e_entry elf \<and>
     xname (xp k') = set_name (xname (xp k)) (exec_name path path) \<and> new_image ke k xs0 up0 k' M (pages sz) argv) \<and>
    (52 \<le> unat (isize (icache f1 ! ip)) \<and> e_magic elf = ELF_MAGIC \<and>
     loadable (unat (isize (icache f1 ! ip))) (unat (e_phoff elf)) phs 0 \<and> length argv \<le> MAXARG \<and>
     pages sz < 160 \<and> pages sz + 14 \<le> card (set xs0) \<longrightarrow> r = 0)"
proof -
  have n52: "(0 :: u32) < 52" "unat (52 :: u32) \<le> 4096" by simp_all
  let ?fs = "unat (isize (icache f1 ! ip))"
  let ?ok = "52 \<le> ?fs \<and> e_magic elf = ELF_MAGIC \<and> loadable ?fs (unat (e_phoff elf)) phs 0 \<and> length argv \<le> MAXARG \<and>
     pages sz < 160 \<and> pages sz + 14 \<le> card (set xs0)"
  obtain r bs where rd: "readi dv f1 ip 0 52 = Some (r, bs, f1)"
    "(of_int r :: u32) = 52 \<longrightarrow> bs = map (fbyte f1 ip) [0..<52]" "(of_int r :: u32) \<le> 52" "52 \<le> ?fs \<longrightarrow> (of_int r :: u32) = 52"
    using readi_whole [OF fs(3) n52, of dv 0] by auto
  have bad0: ?thesis if "exec (pg kd) ke dv elf0 cwd k path argv = exec_bad ke k m f1 0 (Some ip)" "caller ke k m xs' up0"
    "set xs' \<subseteq> set xs0" "\<not> ?ok" for m xs' using that fs(4) by (auto simp: exec_bad_def)
  show ?thesis
  proof (cases "(of_int r :: u32) < 52 \<or> e_magic (elf_of (bs @ drop (length bs) elf0)) \<noteq> ELF_MAGIC")
    case True
    hence "exec (pg kd) ke dv elf0 cwd k path argv = exec_bad ke k (xkm k) f1 0 (Some ip)" by (simp add: exec_def fs(1,2) rd(1) Let_def)
    moreover have "\<not> ?ok"
    proof
      assume ok: ?ok
      hence bs: "(of_int r :: u32) = 52" "bs = map (fbyte f1 ip) [0..<52]" using rd(2,4) by simp_all
      have "elf_of (bs @ drop (length bs) elf0) = elf" unfolding bs(2) elf by (rule elf_of_append) simp
      thus False using True ok bs(1) by simp
    qed
    ultimately show ?thesis using bad0 [OF _ caller_refl [OF u]] by simp
  next
    case False
    hence r52: "(of_int r :: u32) = 52" using rd(3) by (simp add: not_less)
    hence bs: "bs = map (fbyte f1 ip) [0..<52]" using rd(2) by simp
    have el: "elf_of (bs @ drop (length bs) elf0) = elf" unfolding bs elf by (rule elf_of_append) simp
    have mg: "e_magic elf = ELF_MAGIC" using False el by simp
    obtain d m where sk: "setupkvm (pg kd) (xkm k) = Some (d, m)"
      "d = 0 \<and> card (set xs0) < 14 \<and> (\<exists>xs. caller ke k m xs up0 \<and> set xs \<subseteq> set xs0) \<or>
       d \<noteq> 0 \<and> (\<exists>xs. ustage ke (set xs0) (kbytes (xkm k)) d m xs Map.empty 0)"
      using setupkvm_ustage [OF u kd] by blast
    show ?thesis
    proof (cases "d = 0")
      case True
      hence "exec (pg kd) ke dv elf0 cwd k path argv = exec_bad ke k m f1 0 (Some ip)"
        using False sk(1) by (simp add: exec_def fs(1,2) rd(1) Let_def)
      moreover have "\<not> ?ok" using sk(2) True by auto
      ultimately show ?thesis using sk(2) True bad0 by blast
    next
      case d: False
      then obtain xs where s0: "ustage ke (set xs0) (kbytes (xkm k)) d m xs Map.empty 0" using sk(2) by blast
      have g: "\<forall>ph \<in> set (headers (fbyte f1 ip) (unat (e_phoff elf)) (unat (e_phnum elf))). good_header ph" using phs by simp
      obtain q m1 xs1 up1 sz1 where l: "exec_load ke dv m f1 d ip (e_phoff elf) (unat (e_phnum elf)) 0 = Some (q, m1, f1)"
        "ustage ke (set xs0) (kbytes (xkm k)) d m1 xs1 up1 sz1"
        "\<forall>z. q = Some z \<longrightarrow> z = sz1 \<and> load_image (fbyte f1 ip) phs 0 (umem (kbytes m) Map.empty) = (z, umem (kbytes m1) up1)"
        "loadable ?fs (unat (e_phoff elf)) phs 0 \<and>
           pages (fst (load_image (fbyte f1 ip) phs 0 (umem (kbytes m) Map.empty))) + 13 \<le> card (set xs0) \<longrightarrow> q \<noteq> None"
        using exec_load_image [OF s0 fs(3) g, of dv, folded phs(1)] by (elim exE conjE) (rule that)
      have em: "umem (kbytes m) Map.empty = Map.empty" by (simp add: umem_def fun_eq_iff)
      show ?thesis
      proof (cases q)
        case None
        have nok: "\<not> ?ok" using l(4) None unfolding em img by auto
        from None have e: "exec (pg kd) ke dv elf0 cwd k path argv = exec_bad ke k m1 f1 d (Some ip)"
          using False d sk(1) el l(1) by (simp add: exec_def fs(1,2) rd(1) Let_def)
        have "(case Some ip of None \<Rightarrow> Some f1 | Some ip \<Rightarrow> iunlockput f1 ip) = Some f2" using fs(4) by simp
        from exec_bad_keeps [OF u l(2) this] show ?thesis unfolding e using nok by auto
      next
        case (Some z)
        hence e: "exec (pg kd) ke dv elf0 cwd k path argv = exec_stack ke k m1 f2 d sz1 (e_entry elf) path argv"
          using False d sk(1) el l(1,3) fs(4) by (simp add: exec_def fs(1,2) rd(1) Let_def)
        have "sz1 = sz" "umem (kbytes m1) up1 = M" using l(3) Some img em by simp_all
        note z = this
        obtain q1 k' where I: "exec_stack ke k m1 f2 d sz1 (e_entry elf) path argv = Some (q1, k')" "xfs k' = f2"
          "q1 = -1 \<and> xp k' = xp k \<and> xcr3 k' = xcr3 k \<and> (\<exists>xs'. caller ke k (xkm k') xs' up0 \<and> set xs' = set xs0) \<or>
           q1 = 0 \<and> xpgdir (xp k') = d \<and> xeip (xp k') = e_entry elf \<and> xname (xp k') = set_name (xname (xp k)) (exec_name path path) \<and>
           new_image ke k xs0 up0 k' (umem (kbytes m1) up1) (pages sz1) argv"
          "length argv \<le> MAXARG \<and> pages sz1 < 160 \<and> pages sz1 + 14 \<le> card (set xs0) \<longrightarrow> q1 = 0"
          using exec_stack_installs [OF u l(2) fits, of f2 "e_entry elf" path] by (elim exE conjE) (rule that)
        have "q1 = -1 \<and> xp k' = xp k \<and> xcr3 k' = xcr3 k \<and> (\<exists>xs'. caller ke k (xkm k') xs' up0 \<and> set xs' \<subseteq> set xs0) \<or>
          q1 = 0 \<and> e_magic elf = ELF_MAGIC \<and> xeip (xp k') = e_entry elf \<and>
          xname (xp k') = set_name (xname (xp k)) (exec_name path path) \<and> new_image ke k xs0 up0 k' M (pages sz) argv"
          using I(3) mg unfolding z by blast
        moreover have "?ok \<longrightarrow> q1 = 0" using I(4) unfolding z by blast
        ultimately show ?thesis unfolding e using I(1,2) by blast
      qed
    qed
  qed
qed

subsection \<open>A program file\<close>

text \<open>A file of 87 bytes: the header, one program header for a segment of eight bytes at 0, and three bytes of code.\<close>

definition prog_byte :: "nat \<Rightarrow> u8" where
  "prog_byte k = (if k = 0 then 0x7F else if k = 1 then 0x45 else if k = 2 then 0x4C else if k = 3 then 0x46
     else if k = 28 then 52 else if k = 44 then 1 else if k = 52 then 1 else if k = 56 then 84 else if k = 68 then 3
     else if k = 72 then 8 else if k = 84 then 0xEB else if k = 85 then 0xFE else if k = 86 then 0x90 else 0)"

definition prog_inode :: inode where
  "prog_inode = \<lparr>idev = 1, inum = 7, iref = 1, ibusy = False, ivalid = True, itype = T_FILE, imajor = 0, iminor = 0,
     inlink = 1, isize = 87, addrs = 100 # replicate 12 0\<rparr>"

definition prog_fs :: fsst where
  "prog_fs = \<lparr>disk = (\<lambda>_ b k. if b = 100 then prog_byte k else 0), icache = [prog_inode]\<rparr>"

definition prog_kernel :: "kmem \<Rightarrow> xkernel" where
  "prog_kernel m = \<lparr>xkm = m, xfs = prog_fs, xp = \<lparr>xpgdir = 0x3000, xsz = 0, xeip = 0, xesp = 0, xname = replicate 16 0\<rparr>, xcr3 = 0x3000\<rparr>"

definition prog_open :: "nat \<Rightarrow> bool \<Rightarrow> fsst" where
  "prog_open n b = prog_fs\<lparr>icache := [prog_inode\<lparr>iref := of_nat n, ibusy := b\<rparr>]\<rparr>"

lemma prog_namei: "namei prog_fs 0 [] = Some (Some 0, prog_open 2 False)"
  by (simp add: namei_def namex_def idup_def iupd_def prog_open_def prog_fs_def prog_inode_def namex_loop.simps skipelem_def
      chr_at_def)

lemma prog_lock: "ilock (prog_open 2 False) 0 = Some (prog_open 2 True)" "iunlockput (prog_open 2 True) 0 = Some (prog_open 1 False)"
  by (simp_all add: ilock_def iunlockput_def iunlock_def iput_def iupd_def prog_open_def prog_fs_def prog_inode_def)

lemma prog_mapped: "mapped (prog_open 2 True) 0 0"
  by (simp add: mapped_def baddr_def ptr_def prog_open_def prog_fs_def prog_inode_def small_addr)

lemma prog_whole: "whole_file (prog_open 2 True) 0"
proof -
  have "bn = 0" if "bn * BSIZE < unat (isize (icache (prog_open 2 True) ! 0))" for bn
    using that by (simp add: prog_open_def prog_inode_def)
  moreover have "itype (icache (prog_open 2 True) ! 0) = T_FILE" by (simp add: prog_open_def prog_inode_def)
  ultimately show ?thesis using prog_mapped by (auto simp: whole_file_def)
qed

lemma prog_fbyte: "k < 512 \<Longrightarrow> fbyte (prog_open 2 True) 0 k = prog_byte k"
  by (simp add: fbyte_def fblk_def baddr_def ptr_def prog_open_def prog_fs_def prog_inode_def small_addr bread_def)

definition prog_elfhdr :: elfhdr where
  "prog_elfhdr = elf_of (map (fbyte (prog_open 2 True) 0) [0..<52])"

lemma prog_elf: "e_magic prog_elfhdr = ELF_MAGIC" "e_entry prog_elfhdr = 0" "e_phoff prog_elfhdr = 52" "e_phnum prog_elfhdr = 1"
  by (simp_all add: prog_elfhdr_def elf_of_def prog_fbyte ELF_MAGIC_def rd32_def rd16_def prog_byte_def le32_def)

lemma prog_headers:
  "headers (fbyte (prog_open 2 True) 0) 52 1 = [\<lparr>ph_type = ELF_PROG_LOAD, ph_offset = 84, ph_va = 0,
     ph_pa = 0, ph_filesz = 3, ph_memsz = 8, ph_flags = 0, ph_align = 0\<rparr>]"
  by (simp add: proghdr_of_def prog_fbyte ELF_PROG_LOAD_def rd32_def rd16_def prog_byte_def le32_def)

definition prog_image :: "nat \<rightharpoonup> u8" where
  "prog_image = poke (zero_fill Map.empty 0 1) 0 3 (\<lambda>i. prog_byte (84 + i))"

lemma prog_load:
  "load_image (fbyte (prog_open 2 True) 0) (headers (fbyte (prog_open 2 True) 0) 52 1) 0 Map.empty = (8, prog_image)"
proof -
  have "poke M 0 3 (\<lambda>i. fbyte (prog_open 2 True) 0 (84 + i)) = poke M 0 3 (\<lambda>i. prog_byte (84 + i))" for M
    by (rule ext) (simp add: poke_def prog_fbyte)
  moreover have "pages 0 = 0" "pages 8 = 1" by (simp_all add: pages_def)
  ultimately show ?thesis unfolding prog_headers by (simp add: prog_image_def Let_def)
qed

text \<open>Witness for C37: the new image of this program; \<open>exec\<close> succeeds and the code is in place.\<close>

theorem exec_replaces_image_witness:
  "\<exists>m xs k'. roomy m xs \<and> exec (pg 512) 0x1000 no_devices [] 0 (prog_kernel m) [] [[104, 105]] = Some (0, k') \<and>
     xfs k' = prog_open 1 False \<and> new_image 0x1000 (prog_kernel m) xs Map.empty k' prog_image 1 [[104, 105]] \<and>
     map prog_image [0..<4] = [Some 0xEB, Some 0xFE, Some 0x90, Some 0]"
proof -
  obtain m xs where m: "roomy m xs" using roomy_exists by blast
  hence u: "uspace 0x1000 (xkm (prog_kernel m)) xs (xpgdir (xp (prog_kernel m))) Map.empty" and len: "32 \<le> length xs"
    by (simp_all add: roomy_def prog_kernel_def)
  have "distinct xs" using uspace_props(1) [OF u] by (simp add: vminv_def kinv_def)
  hence card: "32 \<le> card (set xs)" using len by (simp add: distinct_card)
  have ni: "namei (xfs (prog_kernel m)) 0 [] = Some (Some 0, prog_open 2 False)" using prog_namei by (simp add: prog_kernel_def)
  let ?c = "fbyte (prog_open 2 True) 0"
  have ph: "headers ?c 52 1 = headers ?c (unat (e_phoff prog_elfhdr)) (unat (e_phnum prog_elfhdr))"
    by (simp add: prog_elf del: headers.simps)
  have g: "\<forall>ph \<in> set (headers ?c 52 1). good_header ph" unfolding prog_headers by (simp add: good_header_def)
  have sz: "unat (isize (icache (prog_open 2 True) ! 0)) = 87" by (simp add: prog_open_def prog_inode_def)
  have ld: "loadable 87 52 (headers ?c 52 1) 0" unfolding prog_headers by (simp add: Let_def USERTOP_def max_def)
  have p8: "pages 8 = 1" by (simp add: pages_def)
  have k: "(256 :: nat) < 512" "(512 :: nat) < 4096" by simp_all
  have fit: "args_size [[104, 105]] + 4 * (length [[104, 105 :: u8]] + 4) \<le> 4096" by (simp add: args_size_def)
  note x = exec_replaces_image [OF u k ni prog_lock(1) prog_whole prog_lock(2) prog_elfhdr_def ph g prog_load fit,
      of no_devices "[]", unfolded sz]
  then obtain r k' where e: "exec (pg 512) 0x1000 no_devices [] 0 (prog_kernel m) [] [[104, 105]] = Some (r, k')" "xfs k' = prog_open 1 False"
    "r = -1 \<or> new_image 0x1000 (prog_kernel m) xs Map.empty k' prog_image (pages 8) [[104, 105]]"
    "52 \<le> (87 :: nat) \<and> e_magic prog_elfhdr = ELF_MAGIC \<and> loadable 87 (unat (e_phoff prog_elfhdr)) (headers ?c 52 1) 0 \<and> length [[104, 105 :: u8]] \<le> MAXARG \<and>
       pages 8 < 160 \<and> pages 8 + 14 \<le> card (set xs) \<longrightarrow> r = 0" by blast
  have "r = 0" using e(4) ld card by (simp add: p8 MAXARG_def prog_elf del: headers.simps)
  hence "new_image 0x1000 (prog_kernel m) xs Map.empty k' prog_image 1 [[104, 105]]" using e(3) p8 by auto
  moreover have "exec (pg 512) 0x1000 no_devices [] 0 (prog_kernel m) [] [[104, 105]] = Some (0, k')" using e(1) \<open>r = 0\<close> by simp
  moreover have "map prog_image [0..<4] = [Some 0xEB, Some 0xFE, Some 0x90, Some 0]"
    by (simp add: prog_image_def poke_def zero_fill_def prog_byte_def upt_rec)
  ultimately show ?thesis using m e(2) by (intro exI [of _ m] exI [of _ xs] exI [of _ k'] conjI)
qed

subsection \<open>The system call\<close>

text \<open>
  The memory of the process as the kernel reads it through the page tables (addresses without a page read as 0 here; the
  checks keep the call below the process size), a string of it without its NUL, and \<open>sys_exec\<close> on them.
\<close>

definition user_view :: "kmem \<Rightarrow> u32 \<Rightarrow> mem" where
  "user_view s pgdir va =
     (case uva2ka s pgdir (PGROUNDDOWN va) of
        None \<Rightarrow> 0
      | Some pa \<Rightarrow> kbytes s (pa + (va - PGROUNDDOWN va)))"

definition cstring :: "mem \<Rightarrow> u32 \<Rightarrow> u32 \<Rightarrow> u8 list" where
  "cstring m a n = map (\<lambda>i. m (a + of_nat i)) [0..<unat n]"

definition arg_strings :: "mem \<Rightarrow> u32 \<Rightarrow> u32 list \<Rightarrow> u8 list list" where
  "arg_strings m sz us = map (\<lambda>u. case fetchstr m sz u of None \<Rightarrow> [] | Some n \<Rightarrow> cstring m u n) us"

definition sys_exec :: "u32 \<Rightarrow> u32 \<Rightarrow> devsw \<Rightarrow> u8 list \<Rightarrow> nat \<Rightarrow> xkernel \<Rightarrow> (int \<times> xkernel) option" where
  "sys_exec kd ke dv elf0 cwd k =
     (let m = user_view (xkm k) (xpgdir (xp k)); sz = xsz (xp k); esp = xesp (xp k)
      in case argstr m sz esp 0 of
           None \<Rightarrow> Some (-1, k)
         | Some (path, n) \<Rightarrow>
             (case argint m sz esp 1 of
                None \<Rightarrow> Some (-1, k)
              | Some uargv \<Rightarrow>
                  (case exec_argv m sz uargv MAXARG of
                     None \<Rightarrow> Some (-1, k)
                   | Some us \<Rightarrow> exec kd ke dv elf0 cwd k (cstring m path n) (arg_strings m sz us))))"

lemma user_view_umem:
  assumes u: "uspace ke m xs d up" and d: "{..<pages sz} \<subseteq> dom up" and a: "a < sz"
  shows "umem (kbytes m) up (unat a) = Some (user_view m d a)"
proof -
  have l: "unat a < pages sz * 4096" using a pages_bound [of sz] by (simp add: word_less_nat_alt)
  hence "unat a div 4096 < pages sz" by (rule less_mult_imp_div_less)
  then obtain p where p: "up (unat a div 4096) = Some p" using d by blast
  hence "unat a div 4096 < 160" using uspace_props(3) [OF u] by auto
  hence "unat a < 160 * 4096" by linarith
  note s = page_split [OF this]
  have "uva2ka m d (pg (unat a div 4096)) = Some p" using uspace_page [OF u p] by blast
  thus ?thesis by (simp add: user_view_def umem_def p s(2,3))
qed

lemma fetchstr_cstring:
  assumes "unat sz < 2 ^ 31" "fetchstr m sz a = Some n"
  shows "unat a + unat n < unat sz" "0 \<notin> set (cstring m a n)" "\<And>i. i < length (cstring m a n @ [0]) \<Longrightarrow> (cstring m a n @ [0]) ! i = m (a + of_nat i)"
proof -
  have f: "unat a \<le> unat a + unat n \<and> unat a + unat n < unat sz \<and> m (a + n) = 0 \<and>
      (\<forall>k. unat a \<le> k \<longrightarrow> k < unat a + unat n \<longrightarrow> m (of_nat k) \<noteq> 0)"
    using fetchstr_loop_spec [of sz a "unat sz" a m] assms(2) by (auto simp: fetchstr_def split: if_splits)
  thus "unat a + unat n < unat sz" by blast
  have "m (a + of_nat i) \<noteq> 0" if "i < unat n" for i
    using f that by (metis le_add1 nat_add_left_cancel_less of_nat_add of_nat_unat ucast_id)
  thus "0 \<notin> set (cstring m a n)" by (auto simp: cstring_def)
  show "(cstring m a n @ [0]) ! i = m (a + of_nat i)" if "i < length (cstring m a n @ [0])" for i
    using that f by (cases "i = unat n") (simp_all add: cstring_def nth_append)
qed

lemma exec_argv_strings:
  assumes "unat sz < 2 ^ 31" "exec_argv m sz a k = Some us"
  shows "length us < k \<and> (\<forall>u \<in> set us. fetchstr m sz u \<noteq> None) \<and>
    (\<forall>i < length us. fetchint m sz (a + of_nat (4 * i)) = Some (us ! i))"
  using assms(2)
proof (induction m sz a k arbitrary: us rule: exec_argv.induct)
  case (2 m sz a k)
  show ?case
  proof (cases "fetchint m sz a")
    case (Some u)
    show ?thesis
    proof (cases "u = 0")
      case False
      with 2(2) Some obtain n vs where v: "fetchstr m sz u = Some n" "exec_argv m sz (a + 4) k = Some vs" "us = u # vs"
        by (auto split: option.splits)
      note ih = 2(1) [OF Some False v(1,2)]
      have "fetchint m sz (a + of_nat (4 * i)) = Some (us ! i)" if "i < length us" for i
      proof (cases i)
        case (Suc j)
        have "a + of_nat (4 * i) = a + 4 + of_nat (4 * j)" by (simp add: Suc add.assoc)
        thus ?thesis using ih that v(3) Suc by (simp add: add.assoc)
      qed (use Some v(3) in simp)
      thus ?thesis using ih v by simp
    qed (use 2(2) Some in simp)
  qed (use 2(2) in simp)
qed simp

lemma word_bytes_load: "word_bytes (load32 m a) = map (\<lambda>i. m (a + of_nat i)) [0..<4]"
proof -
  have "byte_of (le32 (m a) (m (a + 1)) (m (a + 2)) (m (a + 3))) i = m (a + of_nat i)" if "i \<in> {0, 1, 2, 3}" for i
    using that byte_of_le32 [unfolded One_nat_def] by auto
  thus ?thesis by (simp add: word_bytes_def load32_def upt_rec)
qed

text \<open>What a process has at the addresses of a string and of a word that the checks accept.\<close>

lemma view_has_bytes:
  assumes u: "uspace ke m xs d up" and d: "{..<pages sz} \<subseteq> dom up" and z: "unat sz < 2 ^ 31"
    and f: "unat a + length bs \<le> unat sz" "\<And>i. i < length bs \<Longrightarrow> bs ! i = user_view m d (a + of_nat i)"
  shows "has_bytes (umem (kbytes m) up) (unat a) bs"
  unfolding has_bytes_def
proof (intro allI impI)
  fix i assume i: "i < length bs"
  hence n: "unat (a + of_nat i) = unat a + i" using f(1) z by (simp add: unat_word_ariths unat_of_nat)
  hence "a + of_nat i < sz" using i f(1) by (simp add: word_less_nat_alt)
  from user_view_umem [OF u d this] show "umem (kbytes m) up (unat a + i) = Some (bs ! i)" unfolding n f(2) [OF i] .
qed

text \<open>
  C38: whatever a process passes to the \<open>exec\<close> system call, the kernel either refuses it and changes nothing, or enters \<open>exec\<close>
  with arguments of the right form: a path and at most 31 strings without NUL bytes.  The path and the strings, each with
  its NUL, and the pointers to them stand in the memory of the process as the call finds it.
\<close>

theorem sys_exec_arguments:
  fixes k :: xkernel
  defines "M \<equiv> \<lambda>up. umem (kbytes (xkm k)) up"
  assumes u: "uspace ke (xkm k) xs (xpgdir (xp k)) up" and d: "{..<pages (xsz (xp k))} \<subseteq> dom up" and z: "xsz (xp k) \<le> USERTOP"
  shows "sys_exec kd ke dv elf0 cwd k = Some (-1, k) \<or>
    (\<exists>path argv (a :: u32) (v :: u32) us. sys_exec kd ke dv elf0 cwd k = exec kd ke dv elf0 cwd k path argv \<and>
       0 \<notin> set path \<and> has_bytes (M up) (unat a) (path @ [0]) \<and> length argv < MAXARG \<and> length us = length argv \<and>
       (\<forall>i < length argv. 0 \<notin> set (argv ! i) \<and> has_word (M up) (unat (v + of_nat (4 * i))) (us ! i) \<and>
          has_bytes (M up) (unat (us ! i)) (argv ! i @ [0])))"
proof -
  let ?m = "user_view (xkm k) (xpgdir (xp k))" and ?sz = "xsz (xp k)"
  have "unat ?sz \<le> unat USERTOP" using z by (simp only: word_le_nat_alt)
  hence z31: "unat ?sz < 2 ^ 31" by (simp add: USERTOP_def)
  note hb = view_has_bytes [OF u d z31]
  have str: "0 \<notin> set (cstring ?m a n) \<and> has_bytes (M up) (unat a) (cstring ?m a n @ [0])" if "fetchstr ?m ?sz a = Some n" for a n
    using fetchstr_cstring [OF z31 that] unfolding M_def by (auto intro!: hb simp: cstring_def)
  have word: "has_word (M up) (unat a) w" if "fetchint ?m ?sz a = Some w" for a w
  proof -
    have f: "a < ?sz" "a + 4 \<le> ?sz" "w = load32 ?m a" using that by (auto simp: fetchint_def split: if_splits)
    hence "unat a + 4 \<le> unat ?sz" using z31 by (simp add: word_less_nat_alt word_le_nat_alt unat_word_ariths)
    thus ?thesis unfolding has_word_def M_def f(3) by (intro hb) (auto simp: word_bytes_load)
  qed
  show ?thesis
  proof (cases "argstr ?m ?sz (xesp (xp k)) 0")
    case (Some an)
    obtain a n where an: "an = (a, n)" by fastforce
    hence p: "fetchstr ?m ?sz a = Some n" using Some by (auto simp: argstr_def split: option.splits)
    show ?thesis
    proof (cases "argint ?m ?sz (xesp (xp k)) 1")
      case v: (Some v)
      show ?thesis
      proof (cases "exec_argv ?m ?sz v MAXARG")
        case us: (Some us)
        note x = exec_argv_strings [OF z31 us]
        let ?argv = "arg_strings ?m ?sz us"
        have e: "sys_exec kd ke dv elf0 cwd k = exec kd ke dv elf0 cwd k (cstring ?m a n) ?argv"
          using Some an v us by (simp add: sys_exec_def Let_def)
        have l: "length ?argv = length us" by (simp add: arg_strings_def)
        have "0 \<notin> set (?argv ! i) \<and> has_bytes (M up) (unat (us ! i)) (?argv ! i @ [0])" if i: "i < length us" for i
        proof -
          obtain n where "fetchstr ?m ?sz (us ! i) = Some n" using x nth_mem [OF i] by blast
          thus ?thesis using str i by (simp add: arg_strings_def)
        qed
        hence "\<forall>i < length ?argv. 0 \<notin> set (?argv ! i) \<and> has_word (M up) (unat (v + of_nat (4 * i))) (us ! i) \<and>
            has_bytes (M up) (unat (us ! i)) (?argv ! i @ [0])" using x word l by metis
        moreover have "length ?argv < MAXARG" "length us = length ?argv" using x l by simp_all
        ultimately show ?thesis using e str [OF p]
          by (intro disjI2 exI [of _ "cstring ?m a n"] exI [of _ ?argv] exI [of _ a] exI [of _ v] exI [of _ us] conjI) simp_all
      qed (use Some an v in \<open>simp add: sys_exec_def Let_def\<close>)
    qed (use Some an in \<open>simp add: sys_exec_def Let_def\<close>)
  qed (simp add: sys_exec_def Let_def)
qed

text \<open>Witness for C38: a process with one page of zeroes; its arguments are the empty path and the empty vector.\<close>

theorem sys_exec_arguments_witness:
  "\<exists>k xs up. uspace 0x1000 (xkm k) xs (xpgdir (xp k)) up \<and> xsz (xp k) = 4096 \<and>
     sys_exec (pg 512) 0x1000 no_devices [] 0 k = exec (pg 512) 0x1000 no_devices [] 0 k [] [] \<and>
     (sys_exec (pg 512) 0x1000 no_devices [] 0 k = Some (-1, k) \<or>
      (\<exists>path argv. sys_exec (pg 512) 0x1000 no_devices [] 0 k = exec (pg 512) 0x1000 no_devices [] 0 k path argv \<and>
         0 \<notin> set path \<and> length argv < MAXARG))"
proof -
  obtain m xs where m: "roomy m xs" using roomy_exists by blast
  hence u: "uspace 0x1000 m xs 0x3000 Map.empty" and len: "32 \<le> length xs" by (simp_all add: roomy_def)
  have p: "pages 0 = 0" "pages 4096 = 1" by (simp_all add: pages_def)
  have "(0 :: u32) \<le> USERTOP" "dom (Map.empty :: upages) \<subseteq> {..<pages 0}" "\<not> (4096 :: u32) > USERTOP" by (simp_all add: USERTOP_def)
  with allocuvm_grows [OF u this(1) order_refl this(2), of 4096] len obtain m' xs' up' where
    g: "moves 0x1000 m xs 0x3000 Map.empty m' xs' up'" "dom up' = {0..<1}" "umem (kbytes m') up' = zero_fill (umem (kbytes m) Map.empty) 0 1"
    by (auto simp: p)
  define k where "k = prog_kernel m'\<lparr>xp := (xp (prog_kernel m'))\<lparr>xsz := 4096\<rparr>\<rparr>"
  have k: "xkm k = m'" "xpgdir (xp k) = 0x3000" "xsz (xp k) = 4096" "xesp (xp k) = 0" by (simp_all add: k_def prog_kernel_def)
  have u': "uspace 0x1000 (xkm k) xs' (xpgdir (xp k)) up'" using g(1) by (simp add: k moves_def)
  have d: "{..<pages (xsz (xp k))} \<subseteq> dom up'" by (simp add: k p g(2) lessThan_atLeast0)
  have z: "xsz (xp k) \<le> USERTOP" by (simp add: k USERTOP_def)
  have v: "user_view (xkm k) (xpgdir (xp k)) a = 0" if "a < xsz (xp k)" for a
    using user_view_umem [OF u' d that] that g(3) by (simp add: k zero_fill_def word_less_nat_alt)
  note v' = v [unfolded k(1-3)]
  have ld: "load32 (user_view m' 0x3000) a = 0" if "a \<in> {0, 4, 8}" for a
    using that by (auto simp: load32_def v' le32_def)
  have mx: "MAXARG = Suc 31" by (simp add: MAXARG_def)
  have ea: "exec_argv (user_view m' 0x3000) 4096 0 MAXARG = Some []"
    unfolding mx by (subst exec_argv.simps(2)) (simp add: fetchint_def ld)
  have "sys_exec (pg 512) 0x1000 no_devices [] 0 k = exec (pg 512) 0x1000 no_devices [] 0 k [] []"
    by (simp add: sys_exec_def Let_def argstr_def argint_def fetchint_def fetchstr_def fetchstr_loop.simps v' k ld cstring_def
        ea arg_strings_def)
  thus ?thesis using u' k(3) sys_exec_arguments [OF u' d z, of "pg 512" no_devices "[]" 0] by blast
qed

end
