(* ===== verification/Mkfs.thy ===== *)
theory Mkfs
  imports FsFile
begin

text \<open>
  The image builder (\<^verbatim>\<open>Project5b/xv6/tools/mkfs.c\<close>), which writes a directory tree of the host into a fresh image of 1024
  blocks.  The image file is a function from block numbers to blocks with the length of the file in blocks.  The
  host tree is a value: a regular file is the list of pieces that successive calls of \<open>read\<close> return, a directory the
  list of its entries in the order of \<open>readdir_r\<close>.  \<open>None\<close> is an exit with an error or a failed assertion.  The counters are
  numbers, since reading a block beyond the end of the image ends the program before they can overflow; the
  conversions to Intel byte order are the accesses of the theory \<open>Fs\<close>.
\<close>

subsection \<open>State\<close>

record mkst =
  mk_disk :: "nat \<Rightarrow> block"
  mk_len :: nat
  mk_free :: nat
  mk_used :: nat
  mk_inode :: nat

datatype hnode = Reg "u8 list list" | Dir "(u8 list \<times> hnode) list"

abbreviation mk_size :: nat where "mk_size \<equiv> 1024"
abbreviation mk_nblocks :: nat where "mk_nblocks \<equiv> 995"
abbreviation mk_ninodes :: nat where "mk_ninodes \<equiv> 200"

subsection \<open>Blocks and inodes\<close>

definition mk_wsect :: "mkst \<Rightarrow> nat \<Rightarrow> block \<Rightarrow> mkst" where
  "mk_wsect s sec b = s\<lparr>mk_disk := (mk_disk s)(sec := b), mk_len := max (mk_len s) (Suc sec)\<rparr>"

definition mk_rsect :: "mkst \<Rightarrow> nat \<Rightarrow> block option" where
  "mk_rsect s sec = (if sec < mk_len s then Some (mk_disk s sec) else None)"

definition mk_i2b :: "nat \<Rightarrow> nat" where
  "mk_i2b n = n div IPB + 2"

definition mk_winode :: "mkst \<Rightarrow> nat \<Rightarrow> dinode \<Rightarrow> mkst option" where
  "mk_winode s n ip =
     (case mk_rsect s (mk_i2b n) of
        None \<Rightarrow> None
      | Some buf \<Rightarrow> Some (mk_wsect s (mk_i2b n) (wr_dinode buf (64 * (n mod IPB)) ip)))"

definition mk_rinode :: "mkst \<Rightarrow> nat \<Rightarrow> dinode option" where
  "mk_rinode s n = map_option (\<lambda>buf. rd_dinode buf (64 * (n mod IPB))) (mk_rsect s (mk_i2b n))"

definition mk_ialloc :: "mkst \<Rightarrow> u16 \<Rightarrow> (nat \<times> mkst) option" where
  "mk_ialloc s ty =
     (let n = mk_inode s
      in map_option (Pair n) (mk_winode (s\<lparr>mk_inode := n + 1\<rparr>) n
           \<lparr>d_type = ty, d_major = 0, d_minor = 0, d_nlink = 1, d_size = 0, d_addrs = replicate 13 0\<rparr>))"

text \<open>\<open>mkfs\<close>: an image of zeroes with its superblock.\<close>

definition mk_mkfs :: "mkst option" where
  "mk_mkfs =
     (let bitblocks = mk_size div (512 * 8) + 1;
          ub = mk_ninodes div IPB + 3 + bitblocks;
          s0 = \<lparr>mk_disk = (\<lambda>_ _. 0), mk_len = 0, mk_free = ub, mk_used = ub, mk_inode = 1\<rparr>
      in if mk_nblocks + ub \<noteq> mk_size then None
         else let s1 = fold (\<lambda>i s. mk_wsect s i (\<lambda>_. 0)) [0..<mk_nblocks + ub] s0
              in Some (mk_wsect s1 1 (wr32 (wr32 (wr32 (\<lambda>_. 0) 0 (of_nat mk_size)) 4 (of_nat mk_nblocks)) 8 (of_nat mk_ninodes))))"

subsection \<open>Appending to a file\<close>

text \<open>The choice of the block number for the file block \<open>fbn\<close>, allocating it when it is missing.\<close>

definition mk_bmap :: "mkst \<Rightarrow> dinode \<Rightarrow> nat \<Rightarrow> (nat \<times> mkst \<times> dinode) option" where
  "mk_bmap s din fbn =
     (if fbn < NDIRECT then
        (case (if d_addrs din ! fbn = 0
               then (s\<lparr>mk_free := mk_free s + 1, mk_used := mk_used s + 1\<rparr>, din\<lparr>d_addrs := (d_addrs din)[fbn := of_nat (mk_free s)]\<rparr>)
               else (s, din)) of
           (s1, din1) \<Rightarrow> Some (unat (d_addrs din1 ! fbn), s1, din1))
      else
        (case (if d_addrs din ! NDIRECT = 0
               then (s\<lparr>mk_free := mk_free s + 1, mk_used := mk_used s + 1\<rparr>, din\<lparr>d_addrs := (d_addrs din)[NDIRECT := of_nat (mk_free s)]\<rparr>)
               else (s, din)) of
           (s1, din1) \<Rightarrow>
             let ia = unat (d_addrs din1 ! NDIRECT)
             in case mk_rsect s1 ia of
                  None \<Rightarrow> None
                | Some indirect \<Rightarrow>
                    if rd32 indirect (4 * (fbn - NDIRECT)) = 0 then
                      let a = of_nat (mk_free s1)
                      in Some (unat (a :: u32),
                           mk_wsect (s1\<lparr>mk_free := mk_free s1 + 1, mk_used := mk_used s1 + 1\<rparr>) ia (wr32 indirect (4 * (fbn - NDIRECT)) a), din1)
                    else Some (unat (rd32 indirect (4 * (fbn - NDIRECT))), s1, din1)))"

function mk_iappend_loop :: "mkst \<Rightarrow> dinode \<Rightarrow> nat \<Rightarrow> u8 list \<Rightarrow> (mkst \<times> dinode \<times> nat) option" where
  "mk_iappend_loop s din off p =
     (if p = [] then Some (s, din, off)
      else let fbn = off div BSIZE
           in if fbn \<ge> MAXFILE then None
              else case mk_bmap s din fbn of
                     None \<Rightarrow> None
                   | Some (x, s1, din1) \<Rightarrow>
                       let n1 = min (length p) ((fbn + 1) * BSIZE - off)
                       in case mk_rsect s1 x of
                            None \<Rightarrow> None
                          | Some buf \<Rightarrow>
                              mk_iappend_loop (mk_wsect s1 x (put_bytes buf (off - fbn * BSIZE) (take n1 p))) din1 (off + n1) (drop n1 p))"
  by pat_completeness auto
termination
proof (relation "measure (\<lambda>(s, din, off, p). length p)", goal_cases)
  case (2 s din off p fbn x z s1 din1 n1 buf)
  have "off < (off div BSIZE + 1) * BSIZE" by simp
  hence "0 < (fbn + 1) * BSIZE - off" using 2 by simp
  thus ?case using 2 by simp
qed simp

declare mk_iappend_loop.simps [simp del]

definition mk_iappend :: "mkst \<Rightarrow> nat \<Rightarrow> u8 list \<Rightarrow> mkst option" where
  "mk_iappend s n p =
     (case mk_rinode s n of
        None \<Rightarrow> None
      | Some din \<Rightarrow>
          (case mk_iappend_loop s din (unat (d_size din)) p of
             None \<Rightarrow> None
           | Some (s1, din1, off) \<Rightarrow> mk_winode s1 n (din1\<lparr>d_size := of_nat off\<rparr>)))"

subsection \<open>The tree\<close>

text \<open>The 16 bytes of a directory entry; \<open>strncpy\<close> fills the name with zeroes.\<close>

definition mk_dirent :: "nat \<Rightarrow> u8 list \<Rightarrow> u8 list" where
  "mk_dirent n nm = [of_nat n, of_nat (n div 256)] @ take DIRSIZ (nm @ replicate DIRSIZ 0)"

definition mk_dots :: "mkst \<Rightarrow> nat \<Rightarrow> nat \<Rightarrow> mkst option" where
  "mk_dots s cur par =
     (case mk_iappend s cur (mk_dirent cur [46]) of
        None \<Rightarrow> None
      | Some s1 \<Rightarrow> mk_iappend s1 cur (mk_dirent par [46, 46]))"

text \<open>The loop that copies a file.\<close>

fun mk_copy :: "mkst \<Rightarrow> nat \<Rightarrow> u8 list list \<Rightarrow> mkst option" where
  "mk_copy s n [] = Some s"
| "mk_copy s n (p # ps) = (if p = [] then Some s else case mk_iappend s n p of None \<Rightarrow> None | Some s1 \<Rightarrow> mk_copy s1 n ps)"

text \<open>The size of a directory is rounded up, to the next block even when it fills its last one.\<close>

definition mk_fixsize :: "mkst \<Rightarrow> nat \<Rightarrow> mkst option" where
  "mk_fixsize s n =
     (case mk_rinode s n of
        None \<Rightarrow> None
      | Some din \<Rightarrow> mk_winode s n (din\<lparr>d_size := of_nat ((unat (d_size din) div BSIZE + 1) * BSIZE)\<rparr>))"

text \<open>
  \<open>mk_node\<close> creates the inode of one entry of the directory \<open>cur\<close> and fills it; for a directory this is the recursive
  call of \<open>add_dir\<close>, whose loop over the entries is \<open>mk_entries\<close>.
\<close>

fun mk_node :: "hnode \<Rightarrow> nat \<Rightarrow> mkst \<Rightarrow> (nat \<times> mkst) option"
  and mk_entries :: "(u8 list \<times> hnode) list \<Rightarrow> nat \<Rightarrow> mkst \<Rightarrow> mkst option" where
  "mk_node (Reg ps) cur s =
     (case mk_ialloc s T_FILE of
        None \<Rightarrow> None
      | Some (n, s1) \<Rightarrow> map_option (Pair n) (mk_copy s1 n ps))"
| "mk_node (Dir es) cur s =
     (case mk_ialloc s T_DIR of
        None \<Rightarrow> None
      | Some (n, s1) \<Rightarrow>
          (case mk_dots s1 n cur of
             None \<Rightarrow> None
           | Some s2 \<Rightarrow>
               (case mk_entries es n s2 of
                  None \<Rightarrow> None
                | Some s3 \<Rightarrow> map_option (Pair n) (mk_fixsize s3 n))))"
| "mk_entries [] cur s = Some s"
| "mk_entries ((nm, h) # es) cur s =
     (if nm = [46] \<or> nm = [46, 46] then mk_entries es cur s
      else case mk_node h cur s of
             None \<Rightarrow> None
           | Some (n, s1) \<Rightarrow>
               (case mk_iappend s1 cur (mk_dirent n nm) of
                  None \<Rightarrow> None
                | Some s2 \<Rightarrow> mk_entries es cur s2))"

definition mk_balloc :: "mkst \<Rightarrow> nat \<Rightarrow> mkst option" where
  "mk_balloc s ub =
     (if \<not> ub < 512 * 8 then None
      else Some (mk_wsect s (mk_ninodes div IPB + 3) (fold (\<lambda>i buf. set_map_bit buf i True) [0..<ub] (\<lambda>_. 0))))"

text \<open>\<open>main\<close>: the root directory is its own parent.\<close>

definition mk_main :: "(u8 list \<times> hnode) list \<Rightarrow> mkst option" where
  "mk_main es =
     (case mk_mkfs of
        None \<Rightarrow> None
      | Some s0 \<Rightarrow>
          (case mk_node (Dir es) 1 s0 of
             None \<Rightarrow> None
           | Some (n, s1) \<Rightarrow> if n \<noteq> 1 then None else mk_balloc s1 (mk_used s1)))"

end
