(* ===== verification/MkfsFile.thy ===== *)
theory MkfsFile
  imports Mkfs
begin

text \<open>
  Single files of an image under construction: allocating a block, appending, and writing the inode.  The invariant \<open>img_ok\<close>
  states that every block below the first free one belongs to exactly one file and that the rest is zero.
\<close>

subsection \<open>Files in an image\<close>

text \<open>A file: its type and bytes, the numbers of its data blocks and of its indirect block, and the size in its inode.\<close>

record gfile =
  g_type :: u16
  g_data :: "u8 list"
  g_blocks :: "nat list"
  g_ind :: "nat option"
  g_size :: nat

definition byte_at :: "u8 list \<Rightarrow> nat \<Rightarrow> u8" where
  "byte_at c n = (if n < length c then c ! n else 0)"

definition blocks_of :: "gfile \<Rightarrow> nat list" where
  "blocks_of g = g_blocks g @ (case g_ind g of None \<Rightarrow> [] | Some b \<Rightarrow> [b])"

definition addrs_of :: "gfile \<Rightarrow> u32 list" where
  "addrs_of g = map (\<lambda>k. if k < length (g_blocks g) then of_nat (g_blocks g ! k) else 0) [0..<12] @
     [case g_ind g of None \<Rightarrow> 0 | Some b \<Rightarrow> of_nat b]"

definition gfile_ok :: "(nat \<Rightarrow> block) \<Rightarrow> gfile \<Rightarrow> bool" where
  "gfile_ok d g \<longleftrightarrow>
     length (g_data g) \<le> 512 * length (g_blocks g) \<and> 512 * length (g_blocks g) \<le> length (g_data g) + 512 \<and>
     length (g_blocks g) \<le> 140 \<and> (g_ind g \<noteq> None \<longleftrightarrow> 12 < length (g_blocks g)) \<and>
     (\<forall>k < length (g_blocks g). \<forall>j < 512. d (g_blocks g ! k) j = byte_at (g_data g) (512 * k + j)) \<and>
     (\<forall>b k. g_ind g = Some b \<longrightarrow> k < 128 \<longrightarrow>
        rd32 (d b) (4 * k) = (if 12 + k < length (g_blocks g) then of_nat (g_blocks g ! (12 + k)) else 0))"

lemma g_size_only [simp]:
  "blocks_of (g\<lparr>g_size := n\<rparr>) = blocks_of g" "addrs_of (g\<lparr>g_size := n\<rparr>) = addrs_of g" "gfile_ok d (g\<lparr>g_size := n\<rparr>) = gfile_ok d g"
  by (simp_all add: blocks_of_def addrs_of_def gfile_ok_def)

lemma small_word:
  assumes "b < 1024"
  shows "unat (of_nat b :: u32) = b" "(of_nat b :: u32) = 0 \<longleftrightarrow> b = 0"
proof -
  show u: "unat (of_nat b :: u32) = b" using assms by (simp add: unat_of_nat)
  show "(of_nat b :: u32) = 0 \<longleftrightarrow> b = 0" using u unat_eq_zero [of "of_nat b :: u32"] by auto
qed

lemma length_addrs_of [simp]: "length (addrs_of g) = 13"
  by (simp add: addrs_of_def)

lemma addrs_direct: "k < 12 \<Longrightarrow> addrs_of g ! k = (if k < length (g_blocks g) then of_nat (g_blocks g ! k) else 0)"
  by (simp add: addrs_of_def nth_append)

lemma addrs_ind: "addrs_of g ! 12 = (case g_ind g of None \<Rightarrow> 0 | Some b \<Rightarrow> of_nat b)"
  by (simp add: addrs_of_def nth_append)

lemma rd32_wr32_slot: "rd32 (wr32 d (4 * i) v) (4 * k) = (if k = i then v else rd32 d (4 * k))"
proof (cases "k = i")
  case False
  hence "4 * i + 4 \<le> 4 * k \<or> 4 * k + 4 \<le> 4 * i" by linarith
  thus ?thesis using False by (simp add: rd32_wr32_other)
qed simp

lemma rd32_zeroes: "rd32 (\<lambda>_. 0) k = 0"
  by (simp add: rd32_def le32_def)

lemma byte_beyond [simp]: "length c \<le> n \<Longrightarrow> byte_at c n = 0"
  by (simp add: byte_at_def)

lemma addrs_add_direct:
  assumes "length (g_blocks g) < 12"
  shows "(addrs_of g)[length (g_blocks g) := of_nat b] = addrs_of (g\<lparr>g_blocks := g_blocks g @ [b]\<rparr>)"
  using assms by (intro nth_equalityI) (auto simp: addrs_of_def nth_append nth_list_update less_Suc_eq)

lemma addrs_set_ind: "(addrs_of g)[12 := of_nat b] = addrs_of (g\<lparr>g_ind := Some b\<rparr>)"
  by (simp add: addrs_of_def list_update_append)

lemma g_blocks_range:
  assumes "set (blocks_of g) \<subseteq> {29..<f}" "f \<le> 1024"
  shows "k < length (g_blocks g) \<Longrightarrow> 29 \<le> g_blocks g ! k \<and> g_blocks g ! k < 1024" "g_ind g = Some b \<Longrightarrow> 29 \<le> b \<and> b < 1024"
proof -
  show "29 \<le> g_blocks g ! k \<and> g_blocks g ! k < 1024" if "k < length (g_blocks g)"
  proof -
    have "g_blocks g ! k \<in> set (blocks_of g)" using that by (simp add: blocks_of_def)
    thus ?thesis using assms by fastforce
  qed
  show "29 \<le> b \<and> b < 1024" if "g_ind g = Some b"
  proof -
    have "b \<in> set (blocks_of g)" using that by (simp add: blocks_of_def)
    thus ?thesis using assms by fastforce
  qed
qed

text \<open>Adding a fresh block to a file, with a fresh indirect block when it is the first that needs one.\<close>

lemma gfile_add_block:
  assumes g: "gfile_ok d g" "distinct (blocks_of g)" and n: "length (g_blocks g) = length (g_data g) div 512" "length (g_blocks g) < 140"
    and r: "set (blocks_of g) \<subseteq> {29..<f}" and b: "f \<le> b" "d b = (\<lambda>_. 0)"
    and ib: "ib = (if length (g_blocks g) = 12 then Some f else g_ind g)" "length (g_blocks g) = 12 \<longrightarrow> d f = (\<lambda>_. 0) \<and> f < b"
    and d1: "d1 = (if length (g_blocks g) < 12 then d
      else d(the ib := wr32 (d (the ib)) (4 * (length (g_blocks g) - 12)) (of_nat b)))"
  defines "g1 \<equiv> g\<lparr>g_blocks := g_blocks g @ [b], g_ind := ib\<rparr>"
  shows "gfile_ok d1 g1"
proof -
  let ?n = "length (g_blocks g)"
  note gd = g(1) [unfolded gfile_ok_def]
  have old: "g_blocks g ! k < f" if "k < ?n" for k
    using r nth_mem [OF that] unfolding blocks_of_def by fastforce
  have ind: "b0 < f" "b0 \<notin> set (g_blocks g)" if "g_ind g = Some b0" for b0 using r g(2) that unfolding blocks_of_def by auto
  have some: "\<exists>b0. g_ind g = Some b0" if "12 < ?n" using gd that by blast
  have keep: "d1 (g_blocks g1 ! k) = d (g_blocks g1 ! k)" if k: "k \<le> ?n" for k
  proof -
    have "12 \<le> ?n \<Longrightarrow> g_blocks g1 ! k \<noteq> the ib"
    proof (cases "?n = 12")
      case True
      thus "g_blocks g1 ! k \<noteq> the ib" using k old [of k] ib by (cases "k = ?n") (auto simp: g1_def nth_append)
    next
      case False
      assume "12 \<le> ?n"
      then obtain b0 where b0: "g_ind g = Some b0" using some False by auto
      show "g_blocks g1 ! k \<noteq> the ib"
        using k ind [OF b0] b(1) b0 False ib(1) nth_mem [of k "g_blocks g"] by (cases "k = ?n") (auto simp: g1_def nth_append)
    qed
    thus ?thesis by (auto simp: d1)
  qed
  have len: "length (g_data g) < 512 * (?n + 1)" "512 * ?n \<le> length (g_data g)" unfolding n(1) by simp_all
  have new: "d1 (g_blocks g1 ! k) j = byte_at (g_data g1) (512 * k + j)" if "k < length (g_blocks g1)" "j < 512" for k j
  proof (cases "k < ?n")
    case True
    thus ?thesis using keep [of k] gd that(2) by (simp add: g1_def nth_append)
  next
    case False
    hence "k = ?n" using that(1) by (simp add: g1_def)
    moreover have "length (g_data g) \<le> 512 * ?n" using gd by blast
    ultimately show ?thesis using keep [of k] b(2) by (simp add: g1_def)
  qed
  have slots: "rd32 (d1 b') (4 * k) = (if 12 + k < length (g_blocks g1) then of_nat (g_blocks g1 ! (12 + k)) else 0)"
    if h: "g_ind g1 = Some b'" "k < 128" for b' k
  proof -
    have b': "ib = Some b'" using h(1) by (simp add: g1_def)
    show ?thesis
    proof (cases "?n < 12")
      case True
      thus ?thesis using b' ib(1) gd by auto
    next
      case False
      have e: "d1 b' = wr32 (d b') (4 * (?n - 12)) (of_nat b)" using False b' by (simp add: d1)
      show ?thesis
      proof (cases "?n = 12")
        case True
        hence "d b' = (\<lambda>_. 0)" using b' ib by simp
        thus ?thesis unfolding e rd32_wr32_slot using True by (auto simp: g1_def nth_append rd32_zeroes)
      next
        case False
        hence n12: "12 < ?n" using \<open>\<not> ?n < 12\<close> by simp
        hence "g_ind g = Some b'" using b' ib(1) by simp
        hence "rd32 (d b') (4 * k) = (if 12 + k < ?n then of_nat (g_blocks g ! (12 + k)) else 0)" using gd h(2) by blast
        thus ?thesis unfolding e using n12 by (auto simp: rd32_wr32_slot g1_def nth_append)
      qed
    qed
  qed
  have "g_ind g1 \<noteq> None \<longleftrightarrow> 12 < length (g_blocks g1)" using gd ib(1) by (auto simp: g1_def)
  moreover have "length (g_data g1) \<le> 512 * length (g_blocks g1)" "512 * length (g_blocks g1) \<le> length (g_data g1) + 512"
    "length (g_blocks g1) \<le> 140" using len n(2) by (simp_all add: g1_def)
  ultimately show ?thesis using new slots unfolding gfile_ok_def by blast
qed

text \<open>The number of blocks that the next file block takes.\<close>

definition mk_need :: "gfile \<Rightarrow> nat" where
  "mk_need g = (let k = length (g_data g) div 512 in if k < length (g_blocks g) then 0 else if k = 12 then 2 else 1)"

lemma blocks_count:
  assumes "gfile_ok d g" "length (g_data g) div 512 < 140"
  shows "\<not> length (g_data g) div 512 < length (g_blocks g) \<Longrightarrow> length (g_blocks g) = length (g_data g) div 512"
    and "length (g_data g) div 512 < length (g_blocks g) \<Longrightarrow> length (g_blocks g) = length (g_data g) div 512 + 1"
proof -
  note gd = assms(1) [unfolded gfile_ok_def]
  have a: "length (g_data g) \<le> 512 * length (g_blocks g)" and b: "512 * length (g_blocks g) \<le> length (g_data g) + 512" using gd by blast+
  show "length (g_blocks g) = length (g_data g) div 512" if "\<not> length (g_data g) div 512 < length (g_blocks g)"
    using a that div_le_mono [OF a, of 512] by simp
  show "length (g_blocks g) = length (g_data g) div 512 + 1" if "length (g_data g) div 512 < length (g_blocks g)"
    using that div_le_mono [OF b, of 512] by simp
qed

lemma mk_bmap_spec:
  assumes g: "gfile_ok (mk_disk s) g" "distinct (blocks_of g)" and r: "set (blocks_of g) \<subseteq> {29..<mk_free s}"
    and z: "\<forall>b \<ge> mk_free s. mk_disk s b = (\<lambda>_. 0)" and l: "mk_len s = 1024" and a: "d_addrs din = addrs_of g"
    and k: "length (g_data g) div 512 < 140" and f: "29 \<le> mk_free s" "mk_free s + mk_need g \<le> 1024"
  shows "\<exists>s1 g1. mk_bmap s din (length (g_data g) div 512) = Some (g_blocks g1 ! (length (g_data g) div 512), s1, din\<lparr>d_addrs := addrs_of g1\<rparr>) \<and>
    mk_free s1 = mk_free s + mk_need g \<and> mk_used s1 = mk_used s + mk_need g \<and> mk_len s1 = 1024 \<and> mk_inode s1 = mk_inode s \<and>
    gfile_ok (mk_disk s1) g1 \<and> distinct (blocks_of g1) \<and> set (blocks_of g1) = set (blocks_of g) \<union> {mk_free s..<mk_free s + mk_need g} \<and>
    length (g_blocks g1) = length (g_data g) div 512 + 1 \<and> g_data g1 = g_data g \<and> g_type g1 = g_type g \<and>
    (\<forall>b. b \<notin> set (blocks_of g1) \<longrightarrow> mk_disk s1 b = mk_disk s b)"
proof -
  let ?k = "length (g_data g) div 512" and ?n = "length (g_blocks g)" and ?f = "mk_free s"
  note gd = g(1) [unfolded gfile_ok_def]
  have gi: "g_ind g \<noteq> None \<longleftrightarrow> 12 < ?n" using gd by blast
  have gs: "\<And>b k. g_ind g = Some b \<Longrightarrow> k < 128 \<Longrightarrow>
      rd32 (mk_disk s b) (4 * k) = (if 12 + k < ?n then of_nat (g_blocks g ! (12 + k)) else 0)" using gd by blast
  have f1024: "?f \<le> 1024" using f(2) by simp
  note range = g_blocks_range [OF r f1024]
  show ?thesis
  proof (cases "?k < ?n")
    case True
    have n: "?n = ?k + 1" using blocks_count(2) [OF g(1) k True] .
    have w: "unat (of_nat (g_blocks g ! ?k) :: u32) = g_blocks g ! ?k" "(of_nat (g_blocks g ! ?k) :: u32) \<noteq> 0"
      using small_word [of "g_blocks g ! ?k"] range(1) [OF True] by auto
    have "mk_bmap s din ?k = Some (g_blocks g ! ?k, s, din)"
    proof (cases "?k < 12")
      case True
      thus ?thesis using w \<open>?k < ?n\<close> by (simp add: mk_bmap_def a addrs_direct)
    next
      case False
      then obtain b where b: "g_ind g = Some b" using gi n by auto
      have bw: "unat (of_nat b :: u32) = b" "(of_nat b :: u32) \<noteq> 0" "b < mk_len s"
        using small_word [of b] range(2) [OF b] l by auto
      have "rd32 (mk_disk s b) (4 * (?k - 12)) = of_nat (g_blocks g ! (12 + (?k - 12)))" using gs [OF b, of "?k - 12"] True False k by simp
      thus ?thesis using False bw w by (simp add: mk_bmap_def a addrs_ind b Let_def mk_rsect_def)
    qed
    moreover have "mk_need g = 0" using True by (simp add: mk_need_def Let_def)
    moreover have "din\<lparr>d_addrs := addrs_of g\<rparr> = din" using a by (cases din) simp
    ultimately show ?thesis using g n l by (intro exI [of _ s] exI [of _ g]) simp
  next
    case False
    have n: "?n = ?k" using blocks_count(1) [OF g(1) k False] .
    define b where "b = (if ?k = 12 then ?f + 1 else ?f)"
    define ib where "ib = (if ?n = 12 then Some ?f else g_ind g)"
    define g1 where "g1 = g\<lparr>g_blocks := g_blocks g @ [b], g_ind := ib\<rparr>"
    define d1 where "d1 = (if ?n < 12 then mk_disk s else (mk_disk s)(the ib := wr32 (mk_disk s (the ib)) (4 * (?n - 12)) (of_nat b)))"
    define s1 where "s1 = s\<lparr>mk_disk := d1, mk_free := ?f + mk_need g, mk_used := mk_used s + mk_need g\<rparr>"
    have need: "mk_need g = (if ?k = 12 then 2 else 1)" using False by (simp add: mk_need_def Let_def)
    have b: "?f \<le> b" "b < 1024" "mk_disk s b = (\<lambda>_. 0)" using f(2) z need by (auto simp: b_def)
    have ibz: "?n = 12 \<longrightarrow> mk_disk s ?f = (\<lambda>_. 0) \<and> ?f < b" using z n by (simp add: b_def)
    have ok: "gfile_ok d1 g1"
      unfolding g1_def using gfile_add_block [OF g n _ r b(1,3) ib_def ibz d1_def] n k by simp
    have ind: "\<exists>i. ib = Some i \<and> 29 \<le> i \<and> i < 1024 \<and> (i = ?f \<or> i < ?f)" if i12: "12 \<le> ?n"
    proof (cases "?n = 12")
      case True
      thus ?thesis using f b by (simp add: ib_def b_def need n)
    next
      case False
      then obtain i where i: "g_ind g = Some i" using gi i12 False by auto
      hence "i \<in> set (blocks_of g)" by (simp add: blocks_of_def)
      hence "i < ?f" using r by fastforce
      thus ?thesis using False i range(2) [OF i] by (simp add: ib_def)
    qed
    have fresh: "\<forall>x \<in> set (blocks_of g). x < ?f" using r by fastforce
    have bl: "blocks_of g1 = g_blocks g @ [b] @ (case ib of None \<Rightarrow> [] | Some i \<Rightarrow> [i])" by (simp add: blocks_of_def g1_def)
    have g12: "?n = 12 \<Longrightarrow> g_ind g = None" using gi by auto
    have "blocks_of g1 = g_blocks g @ [?f + 1, ?f] \<and> blocks_of g = g_blocks g" if "?k = 12"
      using that g12 n unfolding bl by (simp add: blocks_of_def ib_def b_def)
    moreover have "blocks_of g1 = g_blocks g @ [?f] @ (case g_ind g of None \<Rightarrow> [] | Some i \<Rightarrow> [i])" if "?k \<noteq> 12"
      using that n unfolding bl by (simp add: ib_def b_def)
    ultimately have ds: "distinct (blocks_of g1)" and st: "set (blocks_of g1) = set (blocks_of g) \<union> {?f..<?f + mk_need g}"
      using g(2) fresh unfolding need by (cases "?k = 12"; cases "g_ind g"; force simp: blocks_of_def)+
    have ind_in: "the ib \<in> set (blocks_of g1)" if "\<not> ?n < 12" using ind that unfolding bl by auto
    have same: "\<forall>x. x \<notin> set (blocks_of g1) \<longrightarrow> d1 x = mk_disk s x"
      using ind_in unfolding d1_def by (auto split: if_splits)
    have bw: "unat (of_nat b :: u32) = b" "(of_nat b :: u32) \<noteq> 0" using small_word [OF b(2)] b(1) f(1) by auto
    have last: "g_blocks g1 ! ?k = b" by (simp add: g1_def nth_append n)
    have "mk_bmap s din ?k = Some (b, s1, din\<lparr>d_addrs := addrs_of g1\<rparr>)"
    proof (cases "?k < 12")
      case True
      hence "ib = g_ind g" by (simp add: ib_def n)
      hence "addrs_of g1 = (addrs_of g)[?k := of_nat b]"
        using addrs_add_direct [of g b] True n by (simp add: g1_def)
      moreover have "b = ?f" "mk_need g = 1" using True by (simp_all add: b_def need)
      ultimately show ?thesis using True bw n by (simp add: mk_bmap_def a addrs_direct s1_def d1_def)
    next
      case False
      then obtain i where i: "ib = Some i" "29 \<le> i" "i < 1024" using ind n by auto
      have iw: "unat (of_nat i :: u32) = i" "(of_nat i :: u32) \<noteq> 0" using small_word [OF i(3)] i(2) by auto
      have "rd32 (mk_disk s i) (4 * (?k - 12)) = 0"
      proof (cases "?k = 12")
        case True
        hence "i = ?f" using i(1) by (simp add: ib_def n)
        thus ?thesis using z by (simp add: rd32_zeroes)
      next
        case F: False
        hence "g_ind g = Some i" using i(1) by (simp add: ib_def n)
        thus ?thesis using gs [of i "?k - 12"] F False n k by simp
      qed
      moreover have "addrs_of g1 = addrs_of (g\<lparr>g_ind := ib\<rparr>)"
        using False n by (auto simp: addrs_of_def g1_def nth_append)
      moreover have "addrs_of (g\<lparr>g_ind := ib\<rparr>) = (if ?k = 12 then (addrs_of g)[12 := of_nat ?f] else addrs_of g)"
        using addrs_set_ind [of g ?f] n by (cases g) (auto simp: ib_def)
      moreover have "din\<lparr>d_addrs := addrs_of g\<rparr> = din" using a by (cases din) simp
      moreover have "?k = 12 \<Longrightarrow> i = ?f" "?k \<noteq> 12 \<Longrightarrow> g_ind g = Some i" using i(1) by (simp_all add: ib_def n)
      ultimately show ?thesis
        using False bw iw i l n g12
        by (cases "?k = 12") (auto simp: mk_bmap_def a addrs_ind Let_def mk_rsect_def mk_wsect_def s1_def d1_def need b_def nth_list_update)
    qed
    thus ?thesis using ok ds st same last l n unfolding s1_def by (intro exI [of _ s1] exI [of _ g1]) (simp add: g1_def s1_def)
  qed
qed

subsection \<open>Appending\<close>

lemma split512:
  obtains k r :: nat where "n = 512 * k + r" "r < 512" "n div 512 = k"
proof
  show "n = 512 * (n div 512) + n mod 512" "n mod 512 < 512" "n div 512 = n div 512" by simp_all
qed

lemma gfile_write:
  assumes g: "gfile_ok d g" "distinct (blocks_of g)" and k: "length (g_blocks g) = length (g_data g) div 512 + 1"
    and q: "length q \<le> (length (g_data g) div 512 + 1) * 512 - length (g_data g)"
    and x: "x = g_blocks g ! (length (g_data g) div 512)"
  shows "gfile_ok (d(x := put_bytes (d x) (length (g_data g) - length (g_data g) div 512 * 512) q)) (g\<lparr>g_data := g_data g @ q\<rparr>)"
proof -
  let ?c = "g_data g"
  obtain k r where l: "length ?c = 512 * k + r" "r < 512" "length ?c div 512 = k" by (rule split512)
  have o: "length ?c - k * 512 = r" using l(1) by simp
  have n: "length (g_blocks g) = k + 1" using k by (simp only: l(3))
  have q512: "r + length q \<le> 512" using q l(2) by (simp only: l(3)) (simp add: l(1))
  have xk: "x = g_blocks g ! k" using x by (simp only: l(3))
  note gd = g(1) [unfolded gfile_ok_def]
  have dg: "distinct (g_blocks g)" "set (g_blocks g) \<inter> set (case g_ind g of None \<Rightarrow> [] | Some b \<Rightarrow> [b]) = {}"
    using g(2) by (simp_all add: blocks_of_def)
  have xin: "x \<in> set (g_blocks g)" unfolding xk using n by simp
  let ?d = "d(x := put_bytes (d x) r q)"
  have "?d (g_blocks g ! i) j = byte_at (?c @ q) (512 * i + j)" if "i < length (g_blocks g)" "j < 512" for i j
  proof (cases "i = k")
    case True
    have b: "d x j = byte_at ?c (512 * k + j)" using gd that n True unfolding xk by blast
    show ?thesis using True xk b that(2) l(1) q512 by (auto simp: put_bytes_def byte_at_def nth_append)
  next
    case False
    hence "i < k" using that(1) n by simp
    hence "512 * i + j < length ?c" using that(2) l(1) by linarith
    moreover have "g_blocks g ! i \<noteq> x" using False that(1) n dg(1) by (simp add: xk nth_eq_iff_index_eq)
    ultimately show ?thesis using gd that by (simp add: byte_at_def nth_append)
  qed
  moreover have "rd32 (?d b) (4 * i) = rd32 (d b) (4 * i)" if "g_ind g = Some b" for b i
    using dg(2) xin that by auto
  moreover have "length (?c @ q) \<le> 512 * length (g_blocks g)" "512 * length (g_blocks g) \<le> length (?c @ q) + 512"
    using l(1,2) q512 n by simp_all
  ultimately show ?thesis using gd unfolding gfile_ok_def l(3) o by simp
qed

text \<open>The blocks of a file of \<open>n\<close> bytes.\<close>

definition nblk :: "nat \<Rightarrow> nat" where
  "nblk n = (n + 511) div 512 + (if 6144 < n then 1 else 0)"

definition tight :: "gfile \<Rightarrow> bool" where
  "tight g \<longleftrightarrow> 512 * length (g_blocks g) < length (g_data g) + 512"

lemma nblk_mono: "m \<le> n \<Longrightarrow> nblk m \<le> nblk n"
  by (auto simp: nblk_def intro: add_mono div_le_mono)

lemma nblk_step:
  assumes "gfile_ok d g" "tight g" "length (g_data g) div 512 < 140" "0 < n" "n \<le> (length (g_data g) div 512 + 1) * 512 - length (g_data g)"
  shows "nblk (length (g_data g) + n) = nblk (length (g_data g)) + mk_need g"
proof -
  obtain k r where l: "length (g_data g) = 512 * k + r" "r < 512" "length (g_data g) div 512 = k" by (rule split512)
  have n: "r + n \<le> 512" using assms(5) l(2) by (simp only: l(3)) (simp add: l(1))
  have iff: "k < length (g_blocks g) \<longleftrightarrow> r \<noteq> 0"
  proof -
    have "512 * length (g_blocks g) < 512 * k + r + 512" "512 * k + r \<le> 512 * length (g_blocks g)"
      using assms(1,2) l(1) unfolding gfile_ok_def tight_def by simp_all
    thus ?thesis using l(2) by linarith
  qed
  have 1: "(512 * k + r + n + 511) div 512 = k + 1" using l(2) n assms(4) by (intro div_nat_eqI) simp_all
  have 2: "(512 * k + r + 511) div 512 = (if r = 0 then k else k + 1)"
  proof (cases "r = 0")
    case True
    have "(512 * k + 511) div 512 = k" by (intro div_nat_eqI) simp_all
    thus ?thesis using True by simp
  next
    case False
    hence "(512 * k + r + 511) div 512 = k + 1" using l(2) by (intro div_nat_eqI) simp_all
    thus ?thesis using False by simp
  qed
  have 3: "6144 < 512 * k + r + n \<longleftrightarrow> 12 \<le> k" using n assms(4) by linarith
  have 4: "6144 < 512 * k + r \<longleftrightarrow> 12 < k \<or> k = 12 \<and> r \<noteq> 0" using l(2) by linarith
  show ?thesis unfolding nblk_def mk_need_def Let_def l(3) iff unfolding l(1) 1 2 3 4 by auto
qed

lemma mk_iappend_loop_spec:
  assumes "gfile_ok (mk_disk s) g" "distinct (blocks_of g)" "set (blocks_of g) \<subseteq> {29..<mk_free s}"
    "\<forall>b \<ge> mk_free s. mk_disk s b = (\<lambda>_. 0)" "mk_len s = 1024" "d_addrs din = addrs_of g" "tight g" "29 \<le> mk_free s"
    "length (g_data g) + length p \<le> 71680" "mk_free s + nblk (length (g_data g) + length p) \<le> 1024 + nblk (length (g_data g))"
    "mk_free s \<le> 1024"
  shows "\<exists>s1 g1. mk_iappend_loop s din (length (g_data g)) p = Some (s1, din\<lparr>d_addrs := addrs_of g1\<rparr>, length (g_data g) + length p) \<and>
    mk_free s1 + nblk (length (g_data g)) = mk_free s + nblk (length (g_data g) + length p) \<and>
    mk_used s1 + mk_free s = mk_used s + mk_free s1 \<and> mk_len s1 = 1024 \<and> mk_inode s1 = mk_inode s \<and> mk_free s \<le> mk_free s1 \<and>
    gfile_ok (mk_disk s1) g1 \<and> distinct (blocks_of g1) \<and> set (blocks_of g1) = set (blocks_of g) \<union> {mk_free s..<mk_free s1} \<and>
    tight g1 \<and> g_data g1 = g_data g @ p \<and> g_type g1 = g_type g \<and>
    (\<forall>b. b \<notin> set (blocks_of g1) \<longrightarrow> mk_disk s1 b = mk_disk s b)"
  using assms
proof (induction "length p" arbitrary: p s din g rule: less_induct)
  case less
  let ?l = "length (g_data g)"
  let ?k = "?l div 512"
  show ?case
  proof (cases "p = []")
    case True
    have "din\<lparr>d_addrs := addrs_of g\<rparr> = din" using less.prems(6) by (cases din) simp
    moreover have "mk_iappend_loop s din ?l [] = Some (s, din, ?l)" by (simp add: mk_iappend_loop.simps)
    ultimately show ?thesis using True less.prems by (intro exI [of _ s] exI [of _ g]) simp
  next
    case False
    define n where "n = min (length p) ((?k + 1) * 512 - ?l)"
    have lk: "?l < (?k + 1) * 512" by simp
    hence n: "0 < n" "n \<le> length p" "n \<le> (?k + 1) * 512 - ?l" using False by (auto simp: n_def)
    have k: "?k < 140" using less.prems(9) False by (intro less_mult_imp_div_less) (cases p, simp_all)
    have ns: "nblk (?l + n) = nblk ?l + mk_need g" using nblk_step [OF less.prems(1,7) k n(1,3)] .
    have fits: "mk_free s + mk_need g \<le> 1024" using less.prems(10) nblk_mono [of "?l + n" "?l + length p"] n(2) ns by simp
    obtain s1 g1 where b: "mk_bmap s din ?k = Some (g_blocks g1 ! ?k, s1, din\<lparr>d_addrs := addrs_of g1\<rparr>)"
      "mk_free s1 = mk_free s + mk_need g" "mk_used s1 = mk_used s + mk_need g" "mk_len s1 = 1024" "mk_inode s1 = mk_inode s"
      "gfile_ok (mk_disk s1) g1" "distinct (blocks_of g1)" "set (blocks_of g1) = set (blocks_of g) \<union> {mk_free s..<mk_free s + mk_need g}"
      "length (g_blocks g1) = ?k + 1" "g_data g1 = g_data g" "g_type g1 = g_type g"
      "\<forall>b. b \<notin> set (blocks_of g1) \<longrightarrow> mk_disk s1 b = mk_disk s b"
      using mk_bmap_spec [OF less.prems(1-6) k less.prems(8) fits] by (elim exE conjE) (rule that)
    let ?x = "g_blocks g1 ! ?k" and ?q = "take n p"
    define g2 where "g2 = g1\<lparr>g_data := g_data g @ ?q\<rparr>"
    define s2 where "s2 = mk_wsect s1 ?x (put_bytes (mk_disk s1 ?x) (?l - ?k * 512) ?q)"
    have own1: "set (blocks_of g1) \<subseteq> {29..<mk_free s1}" using b(2,8) less.prems(3,8) by fastforce
    have x: "29 \<le> ?x" "?x < 1024" using g_blocks_range(1) [OF own1, of ?k] b(2,9) fits by simp_all
    have xin: "?x \<in> set (blocks_of g1)" using b(9) by (simp add: blocks_of_def)
    have s2: "mk_disk s2 = (mk_disk s1)(?x := put_bytes (mk_disk s1 ?x) (?l - ?k * 512) ?q)" "mk_len s2 = 1024"
      "mk_free s2 = mk_free s1" "mk_used s2 = mk_used s1" "mk_inode s2 = mk_inode s1"
      using x(2) b(4) by (simp_all add: s2_def mk_wsect_def)
    have bl: "blocks_of g2 = blocks_of g1" "addrs_of g2 = addrs_of g1" "g_blocks g2 = g_blocks g1" "g_type g2 = g_type g1"
      "g_data g2 = g_data g @ ?q" by (simp_all add: g2_def blocks_of_def addrs_of_def)
    have lq: "length ?q = n" using n(2) by simp
    have ok2: "gfile_ok (mk_disk s2) g2"
      unfolding s2(1) g2_def b(10) [symmetric] by (rule gfile_write) (use b(6,7,9,10) n(3) lq in simp_all)
    have l2: "length (g_data g2) = ?l + n" using lq by (simp add: bl(5))
    have t2: "tight g2" using n(1) lk unfolding tight_def l2 bl(3) b(9) by simp
    have z2: "\<forall>y \<ge> mk_free s2. mk_disk s2 y = (\<lambda>_. 0)"
    proof (intro allI impI)
      fix y assume y: "mk_free s2 \<le> y"
      hence ni: "y \<notin> set (blocks_of g1)" using own1 by (auto simp: s2(3))
      hence "mk_disk s2 y = mk_disk s y" using b(12) xin unfolding s2(1) by auto
      thus "mk_disk s2 y = (\<lambda>_. 0)" using less.prems(4) y b(2) by (simp add: s2(3))
    qed
    have step: "mk_iappend_loop s din ?l p = mk_iappend_loop s2 (din\<lparr>d_addrs := addrs_of g1\<rparr>) (?l + n) (drop n p)"
    proof -
      have c: "\<not> MAXFILE \<le> ?k" "mk_rsect s1 ?x = Some (mk_disk s1 ?x)" using k b(4) x(2) by (simp_all add: mk_rsect_def)
      show ?thesis by (subst mk_iappend_loop.simps) (simp only: False c if_False Let_def b(1) n_def [symmetric] s2_def option.case prod.case)
    qed
    have d1: "length (drop n p) < length p" using n(1) False by simp
    have d2: "d_addrs (din\<lparr>d_addrs := addrs_of g1\<rparr>) = addrs_of g2" by (simp add: bl(2))
    have own2: "set (blocks_of g2) \<subseteq> {29..<mk_free s2}" "29 \<le> mk_free s2" "mk_free s2 \<le> 1024"
      using own1 b(2) less.prems(8) fits by (simp_all add: bl(1) s2(3))
    have size2: "length (g_data g2) + length (drop n p) \<le> 71680"
      "mk_free s2 + nblk (length (g_data g2) + length (drop n p)) \<le> 1024 + nblk (length (g_data g2))"
      using less.prems(9,10) n(2) ns b(2) by (simp_all add: l2 s2(3))
    have ds2: "distinct (blocks_of g2)" using b(7) by (simp add: bl(1))
    obtain s3 g3 where r: "mk_iappend_loop s2 (din\<lparr>d_addrs := addrs_of g1\<rparr>) (length (g_data g2)) (drop n p) =
        Some (s3, (din\<lparr>d_addrs := addrs_of g1\<rparr>)\<lparr>d_addrs := addrs_of g3\<rparr>, length (g_data g2) + length (drop n p))"
      "mk_free s3 + nblk (length (g_data g2)) = mk_free s2 + nblk (length (g_data g2) + length (drop n p))"
      "mk_used s3 + mk_free s2 = mk_used s2 + mk_free s3" "mk_len s3 = 1024" "mk_inode s3 = mk_inode s2" "mk_free s2 \<le> mk_free s3"
      "gfile_ok (mk_disk s3) g3" "distinct (blocks_of g3)" "set (blocks_of g3) = set (blocks_of g2) \<union> {mk_free s2..<mk_free s3}"
      "tight g3" "g_data g3 = g_data g2 @ drop n p" "g_type g3 = g_type g2"
      "\<forall>b. b \<notin> set (blocks_of g3) \<longrightarrow> mk_disk s3 b = mk_disk s2 b"
      using less.hyps [OF d1 ok2 ds2 own2(1) z2 s2(2) d2 t2 own2(2) size2 own2(3)] by (elim exE conjE) (rule that)
    have "mk_iappend_loop s din ?l p = Some (s3, din\<lparr>d_addrs := addrs_of g3\<rparr>, ?l + length p)"
      using r(1) n(2) unfolding step by (simp add: l2)
    moreover have "mk_free s3 + nblk ?l = mk_free s + nblk (?l + length p)"
      using r(2) n(2) ns b(2) by (simp add: l2 s2(3))
    moreover have "mk_used s3 + mk_free s = mk_used s + mk_free s3" using r(3) b(2,3) by (simp add: s2(3,4))
    moreover have "mk_inode s3 = mk_inode s" "mk_free s \<le> mk_free s3" using r(5,6) b(2,5) by (simp_all add: s2(3,5))
    moreover have "set (blocks_of g3) = set (blocks_of g) \<union> {mk_free s..<mk_free s3}"
      using r(6,9) b(2,8) by (auto simp: bl(1) s2(3))
    moreover have "g_data g3 = g_data g @ p" "g_type g3 = g_type g" using r(11,12) b(11) by (simp_all add: bl(4,5))
    moreover have "\<forall>b. b \<notin> set (blocks_of g3) \<longrightarrow> mk_disk s3 b = mk_disk s b"
      using r(9,13) b(12) xin unfolding s2(1) bl(1) by auto
    ultimately show ?thesis using r(4,7,8,10) by (intro exI [of _ s3] exI [of _ g3] conjI)
  qed
qed

subsection \<open>Images\<close>

definition dinode_of :: "gfile \<Rightarrow> dinode" where
  "dinode_of g = \<lparr>d_type = g_type g, d_major = 0, d_minor = 0, d_nlink = 1, d_size = of_nat (g_size g), d_addrs = addrs_of g\<rparr>"

definition on_disk :: "(nat \<Rightarrow> block) \<Rightarrow> nat \<Rightarrow> dinode" where
  "on_disk d n = rd_dinode (d (mk_i2b n)) (64 * (n mod 8))"

definition mk_super :: block where
  "mk_super = wr32 (wr32 (wr32 (\<lambda>_. 0) 0 1024) 4 995) 8 200"

text \<open>
  The blocks from 29 to the first free one are exactly those of the files, each in one file, and the rest is zero.
\<close>

definition img_data :: "mkst \<Rightarrow> (nat \<Rightarrow> gfile) \<Rightarrow> bool" where
  "img_data s F \<longleftrightarrow>
     mk_len s = 1024 \<and> 29 \<le> mk_free s \<and> mk_free s \<le> 1024 \<and> mk_used s = mk_free s \<and> 1 \<le> mk_inode s \<and> mk_inode s \<le> 200 \<and>
     mk_disk s 1 = mk_super \<and> (\<forall>b \<ge> mk_free s. mk_disk s b = (\<lambda>_. 0)) \<and>
     (\<forall>i \<in> {1..<mk_inode s}. gfile_ok (mk_disk s) (F i) \<and> distinct (blocks_of (F i)) \<and> tight (F i)) \<and>
     (\<forall>i \<in> {1..<mk_inode s}. \<forall>j \<in> {1..<mk_inode s}. i \<noteq> j \<longrightarrow> set (blocks_of (F i)) \<inter> set (blocks_of (F j)) = {}) \<and>
     (\<Union>i \<in> {1..<mk_inode s}. set (blocks_of (F i))) = {29..<mk_free s}"

definition img_ok :: "mkst \<Rightarrow> (nat \<Rightarrow> gfile) \<Rightarrow> bool" where
  "img_ok s F \<longleftrightarrow> img_data s F \<and> (\<forall>i \<in> {1..<mk_inode s}. on_disk (mk_disk s) i = dinode_of (F i)) \<and>
     (\<forall>i. mk_inode s \<le> i \<longrightarrow> i < 200 \<longrightarrow> d_type (on_disk (mk_disk s) i) = 0)"

lemma gfile_ok_cong:
  assumes "\<And>b. b \<in> set (blocks_of g) \<Longrightarrow> d' b = d b"
  shows "gfile_ok d' g = gfile_ok d g"
proof -
  have "d' (g_blocks g ! k) = d (g_blocks g ! k)" if "k < length (g_blocks g)" for k
    using assms [of "g_blocks g ! k"] that by (simp add: blocks_of_def)
  moreover have "d' b = d b" if "g_ind g = Some b" for b using assms [of b] that by (simp add: blocks_of_def)
  ultimately show ?thesis unfolding gfile_ok_def by auto
qed

lemma mk_i2b_low: "i < 200 \<Longrightarrow> 2 \<le> mk_i2b i \<and> mk_i2b i < 29"
  by (simp add: mk_i2b_def)

lemma rd_dinode_cong:
  assumes "\<And>k. o' \<le> k \<Longrightarrow> k < o' + 64 \<Longrightarrow> d' k = d k"
  shows "rd_dinode d' o' = rd_dinode d o'"
proof -
  have "rd32 d' (o' + 12 + 4 * k) = rd32 d (o' + 12 + 4 * k)" if "k < 13" for k
    using that assms by (intro rd32_cong) simp
  thus ?thesis using assms by (simp add: rd_dinode_def rd16_def rd32_def)
qed

lemma on_disk_winode:
  assumes "length (d_addrs x) = 13"
  shows "on_disk (d(mk_i2b i := wr_dinode (d (mk_i2b i)) (64 * (i mod 8)) x)) j = (if j = i then x else on_disk d j)"
proof (cases "j = i \<or> mk_i2b j \<noteq> mk_i2b i")
  case True
  thus ?thesis using assms by (auto simp: on_disk_def rd_wr_dinode)
next
  case False
  hence "j div 8 = i div 8" "j \<noteq> i" by (simp_all add: mk_i2b_def)
  hence "j mod 8 \<noteq> i mod 8" by (metis div_mult_mod_eq)
  hence "64 * (j mod 8) + 64 \<le> 64 * (i mod 8) \<or> 64 * (i mod 8) + 64 \<le> 64 * (j mod 8)" by linarith
  hence "rd_dinode (wr_dinode (d (mk_i2b i)) (64 * (i mod 8)) x) (64 * (j mod 8)) = rd_dinode (d (mk_i2b i)) (64 * (j mod 8))"
    by (intro rd_dinode_cong wr_dinode_outside assms) linarith
  thus ?thesis using False by (simp add: on_disk_def)
qed

lemma img_data_own:
  assumes "img_data s F" "1 \<le> i" "i < mk_inode s"
  shows "set (blocks_of (F i)) \<subseteq> {29..<mk_free s}"
proof -
  have "(\<Union>i \<in> {1..<mk_inode s}. set (blocks_of (F i))) = {29..<mk_free s}" using assms(1) by (simp add: img_data_def)
  thus ?thesis using assms(2,3) by auto
qed

text \<open>A file that grows into the free blocks.\<close>

lemma img_data_grow:
  assumes d: "img_data s F" and i: "1 \<le> i" "i < mk_inode s"
    and s': "mk_len s' = 1024" "mk_free s \<le> mk_free s'" "mk_free s' \<le> 1024" "mk_used s' = mk_free s'" "mk_inode s' = mk_inode s"
    and g: "gfile_ok (mk_disk s') g" "distinct (blocks_of g)" "tight g" "set (blocks_of g) = set (blocks_of (F i)) \<union> {mk_free s..<mk_free s'}"
    and same: "\<forall>b. b \<notin> set (blocks_of g) \<longrightarrow> mk_disk s' b = mk_disk s b"
  shows "img_data s' (F(i := g))"
proof -
  note dd = d [unfolded img_data_def]
  let ?I = "{1..<mk_inode s}"
  have own: "\<forall>j \<in> ?I. set (blocks_of (F j)) \<subseteq> {29..<mk_free s}" using img_data_own [OF d] by simp
  have un: "(\<Union>j \<in> ?I. set (blocks_of (F j))) = {29..<mk_free s}" and f: "29 \<le> mk_free s" using dd by blast+
  have sep: "set (blocks_of (F j)) \<inter> set (blocks_of (F k)) = {}" if "j \<in> ?I" "k \<in> ?I" "j \<noteq> k" for j k using dd that by blast
  have iI: "i \<in> ?I" using i by simp
  have dis: "set (blocks_of (F j)) \<inter> set (blocks_of g) = {}" if "j \<in> ?I" "j \<noteq> i" for j
    using sep [OF that(1) iI that(2)] own that(1) unfolding g(4) by fastforce
  have gr: "set (blocks_of g) \<subseteq> {29..<mk_free s'}" using own iI s'(2) f unfolding g(4) by fastforce
  have ok: "gfile_ok (mk_disk s') (F j)" if "j \<in> ?I" "j \<noteq> i" for j
  proof -
    have "gfile_ok (mk_disk s') (F j) = gfile_ok (mk_disk s) (F j)" using dis [OF that] same by (intro gfile_ok_cong) blast
    thus ?thesis using dd that(1) by blast
  qed
  have "(\<Union>j \<in> ?I. set (blocks_of ((F(i := g)) j))) = {29..<mk_free s'}"
  proof -
    have "(\<Union>j \<in> ?I. set (blocks_of ((F(i := g)) j))) = (\<Union>j \<in> ?I. set (blocks_of (F j))) \<union> {mk_free s..<mk_free s'}"
      using iI g(4) by (auto split: if_splits)
    thus ?thesis unfolding un using s'(2) f by auto
  qed
  moreover have "\<forall>b \<ge> mk_free s'. mk_disk s' b = (\<lambda>_. 0)"
  proof (intro allI impI)
    fix b assume b: "mk_free s' \<le> b"
    hence "b \<notin> set (blocks_of g)" using gr by auto
    thus "mk_disk s' b = (\<lambda>_. 0)" using same dd b s'(2) by auto
  qed
  moreover have "mk_disk s' 1 = mk_super"
  proof -
    have "1 \<notin> set (blocks_of g)" using gr by auto
    thus ?thesis using same dd by auto
  qed
  moreover have "\<forall>j \<in> ?I. \<forall>k \<in> ?I. j \<noteq> k \<longrightarrow> set (blocks_of ((F(i := g)) j)) \<inter> set (blocks_of ((F(i := g)) k)) = {}"
    using sep dis by (simp add: Int_commute)
  moreover have "\<forall>j \<in> ?I. gfile_ok (mk_disk s') ((F(i := g)) j) \<and> distinct (blocks_of ((F(i := g)) j)) \<and> tight ((F(i := g)) j)"
    using ok g(1-3) dd by simp
  moreover have "1 \<le> mk_inode s" "mk_inode s \<le> 200" "29 \<le> mk_free s'" using dd s'(2) by auto
  ultimately show ?thesis using s' unfolding img_data_def by simp
qed

text \<open>Writing an inode completes the image; its blocks are below the data blocks.\<close>

lemma mk_winode_ok:
  assumes d: "img_data s F" and i: "i < 200" and t: "\<forall>j \<in> {1..<mk_inode s}. j \<noteq> i \<longrightarrow> on_disk (mk_disk s) j = dinode_of (F j)"
    and z: "\<forall>j. mk_inode s \<le> j \<longrightarrow> j < 200 \<longrightarrow> d_type (on_disk (mk_disk s) j) = 0" and i2: "1 \<le> i" "i < mk_inode s"
  shows "\<exists>s'. mk_winode s i (dinode_of (F i)) = Some s' \<and> img_ok s' F \<and> mk_free s' = mk_free s \<and> mk_inode s' = mk_inode s"
proof -
  let ?d = "(mk_disk s)(mk_i2b i := wr_dinode (mk_disk s (mk_i2b i)) (64 * (i mod 8)) (dinode_of (F i)))"
  let ?s = "s\<lparr>mk_disk := ?d\<rparr>"
  note low = mk_i2b_low [OF i]
  note dd = d [unfolded img_data_def]
  have len: "mk_len s = 1024" and f29: "29 \<le> mk_free s" using dd by blast+
  have w: "mk_winode s i (dinode_of (F i)) = Some ?s"
    using low len by (cases s) (simp add: mk_winode_def mk_rsect_def mk_wsect_def)
  have hi: "?d b = mk_disk s b" if "29 \<le> b \<or> b = 1" for b using low that by auto
  have ok: "gfile_ok ?d (F j) = gfile_ok (mk_disk s) (F j)" if "j \<in> {1..<mk_inode s}" for j
  proof (rule gfile_ok_cong)
    fix b assume "b \<in> set (blocks_of (F j))"
    hence "29 \<le> b" using img_data_own [OF d, of j] that by auto
    thus "?d b = mk_disk s b" by (intro hi) simp
  qed
  have "img_data ?s F" using dd ok hi f29 unfolding img_data_def by simp
  moreover have "on_disk ?d j = dinode_of (F j)" if "j \<in> {1..<mk_inode s}" for j
    using t that by (simp add: on_disk_winode dinode_of_def)
  moreover have "d_type (on_disk ?d j) = 0" if "mk_inode s \<le> j" "j < 200" for j
    using z that i2(2) by (simp add: on_disk_winode dinode_of_def)
  ultimately show ?thesis using w by (simp add: img_ok_def)
qed

lemma mk_rinode_ok:
  assumes "img_ok s F" "1 \<le> i" "i < mk_inode s"
  shows "mk_rinode s i = Some (dinode_of (F i))"
proof -
  have "i < 200" using assms by (simp add: img_ok_def img_data_def)
  from mk_i2b_low [OF this] show ?thesis
    using assms by (simp add: img_ok_def img_data_def mk_rinode_def mk_rsect_def on_disk_def)
qed

lemma mk_ialloc_ok:
  assumes s: "img_ok s F" and i: "mk_inode s < 200"
  shows "\<exists>s'. mk_ialloc s ty = Some (mk_inode s, s') \<and>
    img_ok s' (F(mk_inode s := \<lparr>g_type = ty, g_data = [], g_blocks = [], g_ind = None, g_size = 0\<rparr>)) \<and>
    mk_free s' = mk_free s \<and> mk_inode s' = mk_inode s + 1"
proof -
  let ?n = "mk_inode s" and ?g = "\<lparr>g_type = ty, g_data = [], g_blocks = [], g_ind = None, g_size = 0\<rparr>"
  let ?s = "s\<lparr>mk_inode := ?n + 1\<rparr>"
  have d: "img_data s F" using s by (simp add: img_ok_def)
  note dd = d [unfolded img_data_def]
  have e: "blocks_of ?g = []" "addrs_of ?g = replicate 13 0"
    by (simp_all add: blocks_of_def addrs_of_def numeral_eq_Suc)
  have "gfile_ok (mk_disk s) ?g" "tight ?g" by (simp_all add: gfile_ok_def tight_def)
  hence new: "\<forall>j \<in> {1..<?n + 1}. gfile_ok (mk_disk s) ((F(?n := ?g)) j) \<and> distinct (blocks_of ((F(?n := ?g)) j)) \<and> tight ((F(?n := ?g)) j)"
    using dd e(1) by auto
  have sp: "{1..<?n + 1} = insert ?n {1..<?n}" using dd by auto
  have dj: "\<forall>j \<in> {1..<?n + 1}. \<forall>k \<in> {1..<?n + 1}. j \<noteq> k \<longrightarrow> set (blocks_of ((F(?n := ?g)) j)) \<inter> set (blocks_of ((F(?n := ?g)) k)) = {}"
    using dd e(1) by auto
  have un: "(\<Union>j \<in> {1..<?n + 1}. set (blocks_of ((F(?n := ?g)) j))) = {29..<mk_free s}"
    using dd e(1) unfolding sp by auto
  have "img_data ?s (F(?n := ?g))" using dd new dj un i unfolding img_data_def by simp
  moreover have "\<forall>j \<in> {1..<mk_inode ?s}. j \<noteq> ?n \<longrightarrow> on_disk (mk_disk ?s) j = dinode_of ((F(?n := ?g)) j)"
    "\<forall>j. mk_inode ?s \<le> j \<longrightarrow> j < 200 \<longrightarrow> d_type (on_disk (mk_disk ?s) j) = 0"
    using s unfolding img_ok_def by auto
  moreover have "1 \<le> ?n" "?n < mk_inode ?s" using dd by simp_all
  ultimately obtain s' where "mk_winode ?s ?n (dinode_of ((F(?n := ?g)) ?n)) = Some s'" "img_ok s' (F(?n := ?g))"
    "mk_free s' = mk_free ?s" "mk_inode s' = mk_inode ?s" using mk_winode_ok [OF _ i] by blast
  moreover have "dinode_of ?g = \<lparr>d_type = ty, d_major = 0, d_minor = 0, d_nlink = 1, d_size = 0, d_addrs = replicate 13 0\<rparr>"
    by (simp add: dinode_of_def e(2))
  ultimately show ?thesis by (simp add: mk_ialloc_def Let_def)
qed

lemma mk_fixsize_ok:
  assumes s: "img_ok s F" and i: "1 \<le> i" "i < mk_inode s" and l: "g_size (F i) < 2 ^ 20"
  shows "\<exists>s'. mk_fixsize s i = Some s' \<and> img_ok s' (F(i := (F i)\<lparr>g_size := (g_size (F i) div 512 + 1) * 512\<rparr>)) \<and>
    mk_free s' = mk_free s \<and> mk_inode s' = mk_inode s"
proof -
  let ?g = "(F i)\<lparr>g_size := (g_size (F i) div 512 + 1) * 512\<rparr>"
  have d: "img_data s F" and n: "i < 200" using s i by (simp_all add: img_ok_def img_data_def)
  have t: "tight (g\<lparr>g_size := n\<rparr>) = tight g" for g n by (simp add: tight_def)
  have "img_data s (F(i := ?g))"
    using d i by (intro img_data_grow [OF d i]) (simp_all add: img_data_def t)
  moreover have "\<forall>j \<in> {1..<mk_inode s}. j \<noteq> i \<longrightarrow> on_disk (mk_disk s) j = dinode_of ((F(i := ?g)) j)"
    "\<forall>j. mk_inode s \<le> j \<longrightarrow> j < 200 \<longrightarrow> d_type (on_disk (mk_disk s) j) = 0"
    using s unfolding img_ok_def by auto
  ultimately obtain s' where s': "mk_winode s i (dinode_of ((F(i := ?g)) i)) = Some s'" "img_ok s' (F(i := ?g))"
    "mk_free s' = mk_free s" "mk_inode s' = mk_inode s" using mk_winode_ok [OF _ n _ _ i] by blast
  have "unat (of_nat (g_size (F i)) :: u32) = g_size (F i)" using l by (simp add: unat_of_nat)
  hence "dinode_of ?g = (dinode_of (F i))\<lparr>d_size := of_nat ((unat (d_size (dinode_of (F i))) div 512 + 1) * 512)\<rparr>"
    by (simp add: dinode_of_def)
  thus ?thesis using s' mk_rinode_ok [OF s i] by (simp add: mk_fixsize_def)
qed

lemma mk_iappend_ok:
  assumes s: "img_ok s F" and i: "1 \<le> i" "i < mk_inode s" and z: "g_size (F i) = length (g_data (F i))"
    and l: "length (g_data (F i)) + length p \<le> 71680"
    and b: "mk_free s + nblk (length (g_data (F i)) + length p) \<le> 1024 + nblk (length (g_data (F i)))"
  shows "\<exists>s' g. mk_iappend s i p = Some s' \<and> img_ok s' (F(i := g)) \<and> g_type g = g_type (F i) \<and> g_data g = g_data (F i) @ p \<and>
    g_size g = length (g_data (F i)) + length p \<and> mk_inode s' = mk_inode s \<and>
    mk_free s' + nblk (length (g_data (F i))) = mk_free s + nblk (length (g_data (F i)) + length p)"
proof -
  let ?g = "F i"
  have d: "img_data s F" and n: "i < 200" using s i by (simp_all add: img_ok_def img_data_def)
  note dd = d [unfolded img_data_def]
  have gi: "gfile_ok (mk_disk s) ?g" "distinct (blocks_of ?g)" "tight ?g" using dd i by auto
  have c: "\<forall>b \<ge> mk_free s. mk_disk s b = (\<lambda>_. 0)" "mk_len s = 1024" "29 \<le> mk_free s" "mk_free s \<le> 1024" "mk_used s = mk_free s" using dd by blast+
  have a: "d_addrs (dinode_of ?g) = addrs_of ?g" by (simp add: dinode_of_def)
  have sz: "unat (d_size (dinode_of ?g)) = length (g_data ?g)" using l z by (simp add: dinode_of_def unat_of_nat)
  obtain s1 g1 where r: "mk_iappend_loop s (dinode_of ?g) (length (g_data ?g)) p =
      Some (s1, (dinode_of ?g)\<lparr>d_addrs := addrs_of g1\<rparr>, length (g_data ?g) + length p)"
    "mk_free s1 + nblk (length (g_data ?g)) = mk_free s + nblk (length (g_data ?g) + length p)"
    "mk_used s1 + mk_free s = mk_used s + mk_free s1" "mk_len s1 = 1024" "mk_inode s1 = mk_inode s" "mk_free s \<le> mk_free s1"
    "gfile_ok (mk_disk s1) g1" "distinct (blocks_of g1)" "set (blocks_of g1) = set (blocks_of ?g) \<union> {mk_free s..<mk_free s1}"
    "tight g1" "g_data g1 = g_data ?g @ p" "g_type g1 = g_type ?g"
    "\<forall>b. b \<notin> set (blocks_of g1) \<longrightarrow> mk_disk s1 b = mk_disk s b"
    using mk_iappend_loop_spec [OF gi(1,2) img_data_own [OF d i] c(1,2) a gi(3) c(3) l b c(4)] by (elim exE conjE) (rule that)
  define g2 where "g2 = g1\<lparr>g_size := length (g_data ?g) + length p\<rparr>"
  have g2: "tight g2" "g_data g2 = g_data ?g @ p" "g_type g2 = g_type ?g" "g_size g2 = length (g_data ?g) + length p"
    using r(10-12) by (simp_all add: g2_def tight_def)
  have f: "mk_free s1 \<le> 1024" using r(2) b by simp
  have own: "set (blocks_of g1) \<subseteq> {29..<mk_free s1}" using r(6,9) img_data_own [OF d i] c(3) by fastforce
  have id: "img_data s1 (F(i := g2))"
    using r f c(5) g2(1) by (intro img_data_grow [OF d i]) (simp_all add: g2_def)
  have same: "on_disk (mk_disk s1) j = on_disk (mk_disk s) j" if "j < 200" for j
  proof -
    have "mk_i2b j \<notin> set (blocks_of g1)" using mk_i2b_low [OF that] own by auto
    thus ?thesis using r(13) by (simp add: on_disk_def)
  qed
  have t: "\<forall>j \<in> {1..<mk_inode s1}. j \<noteq> i \<longrightarrow> on_disk (mk_disk s1) j = dinode_of ((F(i := g2)) j)"
  proof (intro ballI impI)
    fix j assume j: "j \<in> {1..<mk_inode s1}" "j \<noteq> i"
    hence "j < 200" using dd r(5) by auto
    thus "on_disk (mk_disk s1) j = dinode_of ((F(i := g2)) j)" using same j s r(5) by (simp add: img_ok_def)
  qed
  have z: "\<forall>j. mk_inode s1 \<le> j \<longrightarrow> j < 200 \<longrightarrow> d_type (on_disk (mk_disk s1) j) = 0" using same s r(5) by (simp add: img_ok_def)
  have i1: "i < mk_inode s1" using i r(5) by simp
  obtain s2 where w: "mk_winode s1 i (dinode_of ((F(i := g2)) i)) = Some s2" "img_ok s2 (F(i := g2))" "mk_free s2 = mk_free s1"
    "mk_inode s2 = mk_inode s1" using mk_winode_ok [OF id n t z i(1) i1] by blast
  have "dinode_of g2 = (dinode_of ?g)\<lparr>d_addrs := addrs_of g1\<rparr>\<lparr>d_size := of_nat (length (g_data ?g) + length p)\<rparr>"
    by (simp add: dinode_of_def g2_def r(12))
  hence "mk_iappend s i p = Some s2" using mk_rinode_ok [OF s i] r(1) w(1) by (simp add: mk_iappend_def sz)
  thus ?thesis using w g2 r(2,5) by (intro exI [of _ s2] exI [of _ g2]) simp
qed

end
