(* ===== verification/MkfsProps.thy ===== *)
theory MkfsProps
  imports MkfsFile
begin

text \<open>
  What the image builder guarantees: the image holds the tree it was given, the bitmap marks the blocks in use, and the
  kernel reads the files back.
\<close>

subsection \<open>The tree in the image\<close>

text \<open>
  Inodes are numbered in preorder.  The functions below skip the entries for the directory itself and its parent, as the
  builder does; \<open>copied\<close> are the bytes of a file up to the first empty read.
\<close>

definition copied :: "u8 list list \<Rightarrow> u8 list" where
  "copied ps = concat (takeWhile (\<lambda>p. p \<noteq> []) ps)"

definition dot_name :: "u8 list \<Rightarrow> bool" where
  "dot_name nm \<longleftrightarrow> nm = [46] \<or> nm = [46, 46]"

definition n_entries :: "(u8 list \<times> hnode) list \<Rightarrow> nat" where
  "n_entries es = length (filter (\<lambda>(nm, h). \<not> dot_name nm) es)"

fun inodes :: "hnode \<Rightarrow> nat" and inodes_in :: "(u8 list \<times> hnode) list \<Rightarrow> nat" where
  "inodes (Reg ps) = 1"
| "inodes (Dir es) = 1 + inodes_in es"
| "inodes_in [] = 0"
| "inodes_in ((nm, h) # es) = (if dot_name nm then 0 else inodes h) + inodes_in es"

fun blocks :: "hnode \<Rightarrow> nat" and blocks_in :: "(u8 list \<times> hnode) list \<Rightarrow> nat" where
  "blocks (Reg ps) = nblk (length (copied ps))"
| "blocks (Dir es) = nblk (32 + 16 * n_entries es) + blocks_in es"
| "blocks_in [] = 0"
| "blocks_in ((nm, h) # es) = (if dot_name nm then 0 else blocks h) + blocks_in es"

fun small :: "hnode \<Rightarrow> bool" and small_in :: "(u8 list \<times> hnode) list \<Rightarrow> bool" where
  "small (Reg ps) = (length (copied ps) \<le> 71680)"
| "small (Dir es) = (32 + 16 * n_entries es \<le> 71680 \<and> small_in es)"
| "small_in [] = True"
| "small_in ((nm, h) # es) = ((dot_name nm \<or> small h) \<and> small_in es)"

fun dir_bytes :: "nat \<Rightarrow> (u8 list \<times> hnode) list \<Rightarrow> u8 list" where
  "dir_bytes n [] = []"
| "dir_bytes n ((nm, h) # es) = (if dot_name nm then dir_bytes n es else mk_dirent n nm @ dir_bytes (n + inodes h) es)"

text \<open>The tree \<open>h\<close> with its root in the inode \<open>i\<close>, below the directory \<open>par\<close>.\<close>

fun holds :: "(nat \<Rightarrow> gfile) \<Rightarrow> nat \<Rightarrow> nat \<Rightarrow> hnode \<Rightarrow> bool"
  and holds_in :: "(nat \<Rightarrow> gfile) \<Rightarrow> nat \<Rightarrow> nat \<Rightarrow> (u8 list \<times> hnode) list \<Rightarrow> bool" where
  "holds F i par (Reg ps) = (g_type (F i) = T_FILE \<and> g_data (F i) = copied ps \<and> g_size (F i) = length (copied ps))"
| "holds F i par (Dir es) =
     (g_type (F i) = T_DIR \<and> g_data (F i) = mk_dirent i [46] @ mk_dirent par [46, 46] @ dir_bytes (i + 1) es \<and>
      g_size (F i) = (length (g_data (F i)) div 512 + 1) * 512 \<and> holds_in F (i + 1) i es)"
| "holds_in F n cur [] = True"
| "holds_in F n cur ((nm, h) # es) =
     (if dot_name nm then holds_in F n cur es else holds F n cur h \<and> holds_in F (n + inodes h) cur es)"

lemma holds_cong:
  "(\<And>j. i \<le> j \<Longrightarrow> j < i + inodes h \<Longrightarrow> F' j = F j) \<Longrightarrow> holds F' i par h = holds F i par h"
  "(\<And>j. n \<le> j \<Longrightarrow> j < n + inodes_in es \<Longrightarrow> F' j = F j) \<Longrightarrow> holds_in F' n cur es = holds_in F n cur es"
proof (induction F i par h and F n cur es rule: holds_holds_in.induct)
  case (4 F n cur nm h es)
  show ?case
  proof (cases "dot_name nm")
    case True
    thus ?thesis using 4(1) [OF True] 4(4) by simp
  next
    case False
    have "holds F' n cur h = holds F n cur h" by (rule 4(2) [OF False]) (use 4(4) False in simp)
    moreover have "holds_in F' (n + inodes h) cur es = holds_in F (n + inodes h) cur es"
      by (rule 4(3) [OF False]) (use 4(4) False in simp)
    ultimately show ?thesis using False by simp
  qed
qed simp_all

lemma length_dirent [simp]: "length (mk_dirent n nm) = 16"
  by (simp add: mk_dirent_def)

lemma length_dir_bytes: "length (dir_bytes n es) = 16 * n_entries es"
  by (induction n es rule: dir_bytes.induct) (simp_all add: n_entries_def)

lemma copied_Cons: "copied (p # ps) = (if p = [] then [] else p @ copied ps)"
  by (simp add: copied_def)

lemma mk_copy_ok:
  assumes "img_ok s F" "1 \<le> i" "i < mk_inode s" "g_size (F i) = length (g_data (F i))"
    "length (g_data (F i)) + length (copied ps) \<le> 71680"
    "mk_free s + nblk (length (g_data (F i)) + length (copied ps)) \<le> 1024 + nblk (length (g_data (F i)))"
  shows "\<exists>s' g. mk_copy s i ps = Some s' \<and> img_ok s' (F(i := g)) \<and> g_type g = g_type (F i) \<and> g_data g = g_data (F i) @ copied ps \<and>
    g_size g = length (g_data g) \<and> mk_inode s' = mk_inode s \<and>
    mk_free s' + nblk (length (g_data (F i))) = mk_free s + nblk (length (g_data (F i)) + length (copied ps))"
  using assms
proof (induction ps arbitrary: s F)
  case Nil
  thus ?case by (intro exI [of _ s] exI [of _ "F i"]) (simp add: copied_def)
next
  case (Cons p ps)
  show ?case
  proof (cases "p = []")
    case True
    thus ?thesis using Cons.prems by (intro exI [of _ s] exI [of _ "F i"]) (simp add: copied_Cons)
  next
    case False
    let ?l = "length (g_data (F i))"
    have c: "length (copied (p # ps)) = length p + length (copied ps)" using False by (simp add: copied_Cons)
    have "nblk (?l + length p) \<le> nblk (?l + length (copied (p # ps)))" by (rule nblk_mono) (simp add: c)
    then obtain s1 g where a: "mk_iappend s i p = Some s1" "img_ok s1 (F(i := g))" "g_type g = g_type (F i)" "g_data g = g_data (F i) @ p"
      "g_size g = ?l + length p" "mk_inode s1 = mk_inode s" "mk_free s1 + nblk ?l = mk_free s + nblk (?l + length p)"
      using mk_iappend_ok [OF Cons.prems(1-4), of p] Cons.prems(5,6) c by auto
    let ?F = "F(i := g)"
    have l: "length (g_data (?F i)) = ?l + length p" using a(4) by simp
    have pre: "i < mk_inode s1" "g_size (?F i) = length (g_data (?F i))" "length (g_data (?F i)) + length (copied ps) \<le> 71680"
      "mk_free s1 + nblk (length (g_data (?F i)) + length (copied ps)) \<le> 1024 + nblk (length (g_data (?F i)))"
      using a(4-7) Cons.prems(3,5,6) unfolding l c by (simp_all add: add.assoc)
    obtain s2 g2 where r: "mk_copy s1 i ps = Some s2" "img_ok s2 (?F(i := g2))" "g_type g2 = g_type (?F i)" "g_data g2 = g_data (?F i) @ copied ps"
      "g_size g2 = length (g_data g2)" "mk_inode s2 = mk_inode s1"
      "mk_free s2 + nblk (?l + length p) = mk_free s1 + nblk (?l + length p + length (copied ps))"
      using Cons.IH [OF a(2) Cons.prems(2) pre] unfolding l by (elim exE conjE) (rule that)
    have "mk_free s2 + nblk ?l = mk_free s + nblk (?l + length (copied (p # ps)))"
      using r(7) a(7) by (simp add: c add.assoc [symmetric])
    moreover have "img_ok s2 (F(i := g2))" using r(2) by simp
    moreover have "mk_copy s i (p # ps) = Some s2" using False a(1) r(1) by simp
    moreover have "g_type g2 = g_type (F i)" "g_data g2 = g_data (F i) @ copied (p # ps)" "mk_inode s2 = mk_inode s"
      using False a(3,4,6) r(3,4,6) by (simp_all add: copied_Cons)
    ultimately show ?thesis using r(5) by blast
  qed
qed

text \<open>Building a tree, and the entries of a directory that is being filled.\<close>

definition built :: "mkst \<Rightarrow> (nat \<Rightarrow> gfile) \<Rightarrow> hnode \<Rightarrow> nat \<Rightarrow> bool" where
  "built s F h cur \<longleftrightarrow> (\<exists>s' F'. mk_node h cur s = Some (mk_inode s, s') \<and> img_ok s' F' \<and> mk_inode s' = mk_inode s + inodes h \<and>
     mk_free s' = mk_free s + blocks h \<and> (\<forall>j < mk_inode s. F' j = F j) \<and> holds F' (mk_inode s) cur h)"

definition filled :: "mkst \<Rightarrow> (nat \<Rightarrow> gfile) \<Rightarrow> (u8 list \<times> hnode) list \<Rightarrow> nat \<Rightarrow> bool" where
  "filled s F es cur \<longleftrightarrow> (\<exists>s' F'. mk_entries es cur s = Some s' \<and> img_ok s' F' \<and> mk_inode s' = mk_inode s + inodes_in es \<and>
     mk_free s' + nblk (length (g_data (F cur))) = mk_free s + blocks_in es + nblk (length (g_data (F cur)) + 16 * n_entries es) \<and>
     (\<forall>j < mk_inode s. j \<noteq> cur \<longrightarrow> F' j = F j) \<and> g_type (F' cur) = g_type (F cur) \<and>
     g_data (F' cur) = g_data (F cur) @ dir_bytes (mk_inode s) es \<and> g_size (F' cur) = length (g_data (F' cur)) \<and>
     holds_in F' (mk_inode s) cur es)"

lemma built_reg:
  assumes s: "img_ok s F" and n: "mk_inode s + inodes (Reg ps) \<le> 200" and sm: "small (Reg ps)" and b: "mk_free s + blocks (Reg ps) \<le> 1024"
  shows "built s F (Reg ps) cur"
proof -
  let ?n = "mk_inode s" and ?g = "\<lparr>g_type = T_FILE, g_data = [], g_blocks = [], g_ind = None, g_size = 0\<rparr>"
  have n1: "1 \<le> ?n" using s by (simp add: img_ok_def img_data_def)
  obtain s1 where a: "mk_ialloc s T_FILE = Some (?n, s1)" "img_ok s1 (F(?n := ?g))" "mk_free s1 = mk_free s" "mk_inode s1 = ?n + 1"
    using mk_ialloc_ok [OF s, of T_FILE] n by auto
  have z: "nblk 0 = 0" by (simp add: nblk_def)
  let ?F = "F(?n := ?g)"
  have pre: "?n < mk_inode s1" "g_size (?F ?n) = length (g_data (?F ?n))" "length (g_data (?F ?n)) + length (copied ps) \<le> 71680"
    "mk_free s1 + nblk (length (g_data (?F ?n)) + length (copied ps)) \<le> 1024 + nblk (length (g_data (?F ?n)))"
    using a sm b by (simp_all add: z)
  obtain s2 g where r: "mk_copy s1 ?n ps = Some s2" "img_ok s2 (?F(?n := g))" "g_type g = g_type (?F ?n)" "g_data g = g_data (?F ?n) @ copied ps"
    "g_size g = length (g_data g)" "mk_inode s2 = mk_inode s1"
    "mk_free s2 + nblk (length (g_data (?F ?n))) = mk_free s1 + nblk (length (g_data (?F ?n)) + length (copied ps))"
    using mk_copy_ok [OF a(2) n1 pre] by (elim exE conjE) (rule that)
  have "mk_node (Reg ps) cur s = Some (?n, s2)" using a(1) r(1) by simp
  moreover have "img_ok s2 (F(?n := g))" using r(2) by simp
  moreover have "mk_inode s2 = ?n + inodes (Reg ps)" "mk_free s2 = mk_free s + blocks (Reg ps)" using r(6,7) a(3,4) by (simp_all add: z)
  moreover have "\<forall>j < ?n. (F(?n := g)) j = F j" "holds (F(?n := g)) ?n cur (Reg ps)" using r(3-5) by simp_all
  ultimately show ?thesis unfolding built_def by blast
qed

lemma built_dir:
  assumes s: "img_ok s F" and n: "mk_inode s + inodes (Dir es) \<le> 200" and sm: "small (Dir es)" and b: "mk_free s + blocks (Dir es) \<le> 1024"
    and IH: "\<And>s F cur. img_ok s F \<Longrightarrow> 1 \<le> cur \<Longrightarrow> cur < mk_inode s \<Longrightarrow> g_size (F cur) = length (g_data (F cur)) \<Longrightarrow>
      mk_inode s + inodes_in es \<le> 200 \<Longrightarrow> length (g_data (F cur)) + 16 * n_entries es \<le> 71680 \<Longrightarrow>
      mk_free s + blocks_in es + nblk (length (g_data (F cur)) + 16 * n_entries es) \<le> 1024 + nblk (length (g_data (F cur))) \<Longrightarrow> filled s F es cur"
  shows "built s F (Dir es) cur"
proof -
  let ?n = "mk_inode s" and ?g = "\<lparr>g_type = T_DIR, g_data = [], g_blocks = [], g_ind = None, g_size = 0\<rparr>"
  let ?e = "16 * n_entries es"
  have n1: "1 \<le> ?n" using s by (simp add: img_ok_def img_data_def)
  have z: "nblk 0 = 0" by (simp add: nblk_def)
  have mono: "nblk 16 \<le> nblk (32 + ?e)" "nblk 32 \<le> nblk (32 + ?e)" by (intro nblk_mono; simp)+
  have b': "mk_free s + nblk (32 + ?e) + blocks_in es \<le> 1024" using b by simp
  obtain s1 where a: "mk_ialloc s T_DIR = Some (?n, s1)" "img_ok s1 (F(?n := ?g))" "mk_free s1 = mk_free s" "mk_inode s1 = ?n + 1"
    using mk_ialloc_ok [OF s, of T_DIR] n by auto
  let ?F1 = "F(?n := ?g)"
  have p1: "?n < mk_inode s1" "g_size (?F1 ?n) = length (g_data (?F1 ?n))" "length (g_data (?F1 ?n)) + length (mk_dirent ?n [46]) \<le> 71680"
    "mk_free s1 + nblk (length (g_data (?F1 ?n)) + length (mk_dirent ?n [46])) \<le> 1024 + nblk (length (g_data (?F1 ?n)))"
    using a b' mono by (simp_all add: z)
  obtain s2 g2 where d1: "mk_iappend s1 ?n (mk_dirent ?n [46]) = Some s2" "img_ok s2 (?F1(?n := g2))" "g_type g2 = g_type (?F1 ?n)"
    "g_data g2 = g_data (?F1 ?n) @ mk_dirent ?n [46]" "g_size g2 = length (g_data (?F1 ?n)) + length (mk_dirent ?n [46])" "mk_inode s2 = mk_inode s1"
    "mk_free s2 + nblk (length (g_data (?F1 ?n))) = mk_free s1 + nblk (length (g_data (?F1 ?n)) + length (mk_dirent ?n [46]))"
    using mk_iappend_ok [OF a(2) n1 p1] by (elim exE conjE) (rule that)
  let ?F2 = "F(?n := g2)"
  have i2: "img_ok s2 ?F2" using d1(2) by simp
  have f2: "mk_free s2 = mk_free s + nblk 16" "length (g_data (?F2 ?n)) = 16" using d1(4,7) a(3) by (simp_all add: z)
  have p2: "?n < mk_inode s2" "g_size (?F2 ?n) = length (g_data (?F2 ?n))" "length (g_data (?F2 ?n)) + length (mk_dirent cur [46, 46]) \<le> 71680"
    "mk_free s2 + nblk (length (g_data (?F2 ?n)) + length (mk_dirent cur [46, 46])) \<le> 1024 + nblk (length (g_data (?F2 ?n)))"
    using a(4) d1(4-6) b' mono unfolding f2 by simp_all
  obtain s3 g3 where d2: "mk_iappend s2 ?n (mk_dirent cur [46, 46]) = Some s3" "img_ok s3 (?F2(?n := g3))" "g_type g3 = g_type (?F2 ?n)"
    "g_data g3 = g_data (?F2 ?n) @ mk_dirent cur [46, 46]" "g_size g3 = length (g_data (?F2 ?n)) + length (mk_dirent cur [46, 46])" "mk_inode s3 = mk_inode s2"
    "mk_free s3 + nblk (length (g_data (?F2 ?n))) = mk_free s2 + nblk (length (g_data (?F2 ?n)) + length (mk_dirent cur [46, 46]))"
    using mk_iappend_ok [OF i2 n1 p2] by (elim exE conjE) (rule that)
  let ?F3 = "F(?n := g3)"
  have i3: "img_ok s3 ?F3" using d2(2) by simp
  have f3: "mk_free s3 = mk_free s + nblk 32" "length (g_data (?F3 ?n)) = 32" "mk_inode s3 = ?n + 1"
    using d2(4,6,7) d1(6) a(4) f2 by simp_all
  have g3: "g_data g3 = mk_dirent ?n [46] @ mk_dirent cur [46, 46]" "g_type g3 = T_DIR" "g_size g3 = 32"
    using d2(3-5) d1(3,4) f2(2) by simp_all
  have "filled s3 ?F3 es ?n"
    using n sm b' f3 g3(3) by (intro IH [OF i3 n1]) simp_all
  then obtain s4 F4 where e: "mk_entries es ?n s3 = Some s4" "img_ok s4 F4" "mk_inode s4 = mk_inode s3 + inodes_in es"
    "mk_free s4 + nblk 32 = mk_free s3 + blocks_in es + nblk (32 + ?e)"
    "\<forall>j < mk_inode s3. j \<noteq> ?n \<longrightarrow> F4 j = ?F3 j" "g_type (F4 ?n) = g_type (?F3 ?n)" "g_data (F4 ?n) = g_data (?F3 ?n) @ dir_bytes (mk_inode s3) es"
    "g_size (F4 ?n) = length (g_data (F4 ?n))" "holds_in F4 (mk_inode s3) ?n es"
    unfolding filled_def f3(2) by (elim exE conjE) (rule that)
  have l4: "length (g_data (F4 ?n)) = 32 + ?e" using e(7) f3(2) by (simp add: length_dir_bytes)
  have p4: "?n < mk_inode s4" "g_size (F4 ?n) < 2 ^ 20" using e(3,8) f3(3) l4 sm by simp_all
  obtain s5 where x: "mk_fixsize s4 ?n = Some s5" "img_ok s5 (F4(?n := (F4 ?n)\<lparr>g_size := (g_size (F4 ?n) div 512 + 1) * 512\<rparr>))"
    "mk_free s5 = mk_free s4" "mk_inode s5 = mk_inode s4" using mk_fixsize_ok [OF e(2) n1 p4] by blast
  let ?F5 = "F4(?n := (F4 ?n)\<lparr>g_size := (g_size (F4 ?n) div 512 + 1) * 512\<rparr>)"
  have "mk_node (Dir es) cur s = Some (?n, s5)" using a(1) d1(1) d2(1) e(1) x(1) by (simp add: mk_dots_def)
  moreover have "mk_inode s5 = ?n + inodes (Dir es)" "mk_free s5 = mk_free s + blocks (Dir es)" using x(3,4) e(3,4) f3 by simp_all
  moreover have "\<forall>j < ?n. ?F5 j = F j" using e(5) f3(3) by simp
  moreover have "holds_in ?F5 (?n + 1) ?n es"
  proof -
    have "holds_in ?F5 (?n + 1) ?n es = holds_in F4 (?n + 1) ?n es" by (rule holds_cong(2)) simp
    thus ?thesis using e(9) f3(3) by simp
  qed
  moreover have "g_type (?F5 ?n) = T_DIR" "g_data (?F5 ?n) = mk_dirent ?n [46] @ mk_dirent cur [46, 46] @ dir_bytes (?n + 1) es"
    "g_size (?F5 ?n) = (length (g_data (?F5 ?n)) div 512 + 1) * 512" using e(6-8) g3 f3(3) by simp_all
  ultimately show ?thesis using x(2) unfolding built_def holds.simps by blast
qed

lemma filled_step:
  assumes s: "img_ok s F" and c: "1 \<le> cur" "cur < mk_inode s" and z: "g_size (F cur) = length (g_data (F cur))"
    and n: "mk_inode s + inodes_in ((nm, h) # es) \<le> 200" and l: "length (g_data (F cur)) + 16 * n_entries ((nm, h) # es) \<le> 71680"
    and b: "mk_free s + blocks_in ((nm, h) # es) + nblk (length (g_data (F cur)) + 16 * n_entries ((nm, h) # es))
      \<le> 1024 + nblk (length (g_data (F cur)))"
    and nd: "\<not> dot_name nm" and H: "mk_inode s + inodes h \<le> 200 \<Longrightarrow> mk_free s + blocks h \<le> 1024 \<Longrightarrow> built s F h cur"
    and IH: "\<And>s F. img_ok s F \<Longrightarrow> cur < mk_inode s \<Longrightarrow> g_size (F cur) = length (g_data (F cur)) \<Longrightarrow>
      mk_inode s + inodes_in es \<le> 200 \<Longrightarrow> length (g_data (F cur)) + 16 * n_entries es \<le> 71680 \<Longrightarrow>
      mk_free s + blocks_in es + nblk (length (g_data (F cur)) + 16 * n_entries es) \<le> 1024 + nblk (length (g_data (F cur))) \<Longrightarrow> filled s F es cur"
  shows "filled s F ((nm, h) # es) cur"
proof -
  let ?l = "length (g_data (F cur))" and ?n = "mk_inode s"
  have ne: "n_entries ((nm, h) # es) = n_entries es + 1" using nd by (simp add: n_entries_def)
  have mono: "nblk ?l \<le> nblk (?l + 16)" "nblk (?l + 16) \<le> nblk (?l + 16 * n_entries ((nm, h) # es))" unfolding ne by (intro nblk_mono; simp)+
  have "built s F h cur" using n b nd mono by (intro H) simp_all
  then obtain s1 F1 where a: "mk_node h cur s = Some (?n, s1)" "img_ok s1 F1" "mk_inode s1 = ?n + inodes h" "mk_free s1 = mk_free s + blocks h"
    "\<forall>j < ?n. F1 j = F j" "holds F1 ?n cur h" unfolding built_def by (elim exE conjE) (rule that)
  have F1: "F1 cur = F cur" using a(5) c(2) by simp
  have p1: "cur < mk_inode s1" "g_size (F1 cur) = length (g_data (F1 cur))" "length (g_data (F1 cur)) + length (mk_dirent ?n nm) \<le> 71680"
    "mk_free s1 + nblk (length (g_data (F1 cur)) + length (mk_dirent ?n nm)) \<le> 1024 + nblk (length (g_data (F1 cur)))"
    using c(2) a(3,4) z l b nd mono unfolding F1 by (simp_all add: ne)
  obtain s2 g where d: "mk_iappend s1 cur (mk_dirent ?n nm) = Some s2" "img_ok s2 (F1(cur := g))" "g_type g = g_type (F1 cur)"
    "g_data g = g_data (F1 cur) @ mk_dirent ?n nm" "g_size g = length (g_data (F1 cur)) + length (mk_dirent ?n nm)" "mk_inode s2 = mk_inode s1"
    "mk_free s2 + nblk (length (g_data (F1 cur))) = mk_free s1 + nblk (length (g_data (F1 cur)) + length (mk_dirent ?n nm))"
    using mk_iappend_ok [OF a(2) c(1) p1] by (elim exE conjE) (rule that)
  let ?F2 = "F1(cur := g)"
  have l2: "length (g_data (?F2 cur)) = ?l + 16" using d(4) by (simp add: F1)
  have f2: "mk_free s2 + nblk ?l = mk_free s + blocks h + nblk (?l + 16)" using d(7) a(4) by (simp add: F1)
  have e16: "?l + 16 + 16 * n_entries es = ?l + 16 * n_entries ((nm, h) # es)" by (simp add: ne)
  have "filled s2 ?F2 es cur"
  proof (rule IH [OF d(2)])
    show "cur < mk_inode s2" "g_size (?F2 cur) = length (g_data (?F2 cur))" using c(2) a(3) d(4-6) by simp_all
    show "mk_inode s2 + inodes_in es \<le> 200" using n nd a(3) d(6) by simp
    show "length (g_data (?F2 cur)) + 16 * n_entries es \<le> 71680" unfolding l2 e16 using l .
    show "mk_free s2 + blocks_in es + nblk (length (g_data (?F2 cur)) + 16 * n_entries es) \<le> 1024 + nblk (length (g_data (?F2 cur)))"
      unfolding l2 e16 using b nd f2 by simp
  qed
  then obtain s3 F3 where r: "mk_entries es cur s2 = Some s3" "img_ok s3 F3" "mk_inode s3 = mk_inode s2 + inodes_in es"
    "mk_free s3 + nblk (?l + 16) = mk_free s2 + blocks_in es + nblk (?l + 16 * n_entries ((nm, h) # es))"
    "\<forall>j < mk_inode s2. j \<noteq> cur \<longrightarrow> F3 j = ?F2 j" "g_type (F3 cur) = g_type (?F2 cur)" "g_data (F3 cur) = g_data (?F2 cur) @ dir_bytes (mk_inode s2) es"
    "g_size (F3 cur) = length (g_data (F3 cur))" "holds_in F3 (mk_inode s2) cur es"
    unfolding filled_def l2 e16 by (elim exE conjE) (rule that)
  have n2: "mk_inode s2 = ?n + inodes h" using a(3) d(6) by simp
  have "mk_entries ((nm, h) # es) cur s = Some s3" using nd a(1) d(1) r(1) by (auto simp: dot_name_def)
  moreover have "mk_inode s3 = ?n + inodes_in ((nm, h) # es)" using r(3) n2 nd by simp
  moreover have "mk_free s3 + nblk ?l = mk_free s + blocks_in ((nm, h) # es) + nblk (?l + 16 * n_entries ((nm, h) # es))" using r(4) f2 nd by simp
  moreover have "\<forall>j < ?n. j \<noteq> cur \<longrightarrow> F3 j = F j" using r(5) a(5) n2 by simp
  moreover have "g_type (F3 cur) = g_type (F cur)" using r(6) d(3) by (simp add: F1)
  moreover have "g_data (F3 cur) = g_data (F cur) @ dir_bytes ?n ((nm, h) # es)" using r(7) d(4) n2 nd by (simp add: F1)
  moreover have "holds F3 ?n cur h"
  proof -
    have "holds F3 ?n cur h = holds F1 ?n cur h" using r(5) n2 c(2) by (intro holds_cong(1)) simp
    thus ?thesis using a(6) by simp
  qed
  hence "holds_in F3 ?n cur ((nm, h) # es)" using r(9) n2 nd by simp
  ultimately show ?thesis using r(2,8) unfolding filled_def by blast
qed

lemma tree_built:
  "img_ok s F \<Longrightarrow> mk_inode s + inodes h \<le> 200 \<Longrightarrow> small h \<Longrightarrow> mk_free s + blocks h \<le> 1024 \<Longrightarrow> built s F h cur"
  "img_ok s F \<Longrightarrow> 1 \<le> cur \<Longrightarrow> cur < mk_inode s \<Longrightarrow> g_size (F cur) = length (g_data (F cur)) \<Longrightarrow> mk_inode s + inodes_in es \<le> 200 \<Longrightarrow>
     small_in es \<Longrightarrow> length (g_data (F cur)) + 16 * n_entries es \<le> 71680 \<Longrightarrow>
     mk_free s + blocks_in es + nblk (length (g_data (F cur)) + 16 * n_entries es) \<le> 1024 + nblk (length (g_data (F cur))) \<Longrightarrow> filled s F es cur"
proof (induction h and es arbitrary: s F cur and s F cur rule: small_small_in.induct)
  case (1 ps)
  thus ?case by (intro built_reg)
next
  case (2 es)
  have "small_in es" using 2(4) by simp
  show ?case by (rule built_dir [OF 2(2-5)]) (rule 2(1) [OF _ _ _ _ _ \<open>small_in es\<close>])
next
  case 3
  thus ?case unfolding filled_def by (intro exI [of _ s] exI [of _ F]) (simp add: n_entries_def)
next
  case (4 nm h es)
  show ?case
  proof (cases "dot_name nm")
    case True
    have e: "n_entries ((nm, h) # es) = n_entries es" using True by (simp add: n_entries_def)
    have "filled s F es cur" using 4(3-10) True unfolding e by (intro 4(2)) simp_all
    thus ?thesis using True unfolding filled_def e by (simp add: dot_name_def)
  next
    case False
    have sm: "small h" "small_in es" using 4(8) False by simp_all
    show ?thesis
      by (rule filled_step [OF 4(3-7,9,10) False 4(1) [OF 4(3) _ sm(1)] 4(2) [OF _ 4(4) _ _ _ sm(2)]])
  qed
qed

subsection \<open>The whole image\<close>

lemma mk_zero_blocks:
  assumes "mk_disk s = (\<lambda>_ _. 0)" "mk_len s = 0"
  shows "fold (\<lambda>i s. mk_wsect s i (\<lambda>_. 0)) [0..<n] s = s\<lparr>mk_len := n\<rparr>"
proof (induction n)
  case 0
  thus ?case using assms(2) by (cases s) simp
next
  case (Suc n)
  thus ?case using assms(1) by (cases s) (simp add: mk_wsect_def fun_upd_idem)
qed

lemma mk_mkfs_ok: "\<exists>s. mk_mkfs = Some s \<and> img_ok s F \<and> mk_inode s = 1 \<and> mk_free s = 29"
proof -
  let ?z = "\<lparr>mk_disk = (\<lambda>_ _. 0), mk_len = 0, mk_free = 29, mk_used = 29, mk_inode = 1\<rparr>"
  let ?s = "\<lparr>mk_disk = (\<lambda>_ _. 0)(1 := mk_super), mk_len = 1024, mk_free = 29, mk_used = 29, mk_inode = 1\<rparr>"
  have "mk_mkfs = Some ?s"
  proof -
    have "fold (\<lambda>i s. mk_wsect s i (\<lambda>_. 0)) [0..<1024] ?z = ?z\<lparr>mk_len := 1024\<rparr>" by (rule mk_zero_blocks) simp_all
    hence "mk_mkfs = Some (mk_wsect (?z\<lparr>mk_len := 1024\<rparr>) 1 mk_super)" by (simp add: mk_mkfs_def Let_def mk_super_def)
    thus ?thesis by (simp add: mk_wsect_def)
  qed
  moreover have "d_type (on_disk (mk_disk ?s) i) = 0" if "i < 200" for i
    using mk_i2b_low [OF that] by (simp add: on_disk_def rd_dinode_def rd16_def)
  hence "img_ok ?s F" by (simp add: img_ok_def img_data_def)
  ultimately show ?thesis by (intro exI [of _ ?s]) simp
qed

lemma map_bit_fold: "map_bit (fold (\<lambda>i buf. set_map_bit buf i True) [0..<n] d) b \<longleftrightarrow> b < n \<or> map_bit d b"
  by (induction n) (auto simp: map_bit_set)

text \<open>Writing the bitmap touches neither the inodes nor the data.\<close>

lemma mk_balloc_ok:
  assumes "img_ok s F"
  shows "\<exists>s'. mk_balloc s (mk_used s) = Some s' \<and> img_ok s' F \<and> mk_inode s' = mk_inode s \<and> mk_free s' = mk_free s \<and>
    (\<forall>b < 4096. map_bit (mk_disk s' 28) b \<longleftrightarrow> b < mk_free s)"
proof -
  have d: "img_data s F" using assms by (simp add: img_ok_def)
  note dd = d [unfolded img_data_def]
  let ?b = "fold (\<lambda>i buf. set_map_bit buf i True) [0..<mk_used s] (\<lambda>_. 0)"
  let ?s = "s\<lparr>mk_disk := (mk_disk s)(28 := ?b)\<rparr>"
  have c: "mk_used s = mk_free s" "mk_len s = 1024" "29 \<le> mk_free s" "mk_free s \<le> 1024" "mk_inode s \<le> 200" using dd by blast+
  have w: "mk_balloc s (mk_used s) = Some ?s" using c by (cases s) (simp add: mk_balloc_def mk_wsect_def)
  have ok: "gfile_ok ((mk_disk s)(28 := ?b)) (F j) = gfile_ok (mk_disk s) (F j)" if "j \<in> {1..<mk_inode s}" for j
  proof (rule gfile_ok_cong)
    fix x assume "x \<in> set (blocks_of (F j))"
    hence "29 \<le> x" using img_data_own [OF d, of j] that by auto
    thus "((mk_disk s)(28 := ?b)) x = mk_disk s x" by simp
  qed
  have tab: "on_disk ((mk_disk s)(28 := ?b)) j = on_disk (mk_disk s) j" if "j < 200" for j
  proof -
    have "mk_i2b j \<noteq> 28" using that by (simp add: mk_i2b_def)
    thus ?thesis by (simp add: on_disk_def)
  qed
  have "img_data ?s F" using dd ok c(3) unfolding img_data_def by simp
  hence "img_ok ?s F" using assms tab c(5) by (simp add: img_ok_def)
  moreover have "\<forall>b < 4096. map_bit (mk_disk ?s 28) b \<longleftrightarrow> b < mk_free s" by (simp add: map_bit_fold c(1)) (simp add: map_bit_def)
  ultimately show ?thesis using w by (intro exI [of _ ?s]) simp
qed

lemma mk_main_ok:
  assumes "inodes (Dir es) < 200" "small (Dir es)" "blocks (Dir es) \<le> 995"
  shows "\<exists>s F. mk_main es = Some s \<and> holds F 1 1 (Dir es) \<and> img_ok s F \<and> mk_inode s = 1 + inodes (Dir es) \<and>
    mk_free s = 29 + blocks (Dir es) \<and> (\<forall>b < 4096. map_bit (mk_disk s 28) b \<longleftrightarrow> b < mk_free s)"
proof -
  obtain s0 where m: "mk_mkfs = Some s0" "img_ok s0 undefined" "mk_inode s0 = 1" "mk_free s0 = 29" using mk_mkfs_ok by blast
  have "built s0 undefined (Dir es) 1" using assms m(3,4) by (intro tree_built(1) [OF m(2)]) simp_all
  then obtain s1 F where t: "mk_node (Dir es) 1 s0 = Some (1, s1)" "img_ok s1 F" "mk_inode s1 = 1 + inodes (Dir es)"
    "mk_free s1 = 29 + blocks (Dir es)" "holds F 1 1 (Dir es)" unfolding built_def m(3,4) by blast
  obtain s2 where b: "mk_balloc s1 (mk_used s1) = Some s2" "img_ok s2 F" "mk_inode s2 = mk_inode s1" "mk_free s2 = mk_free s1"
    "\<forall>b < 4096. map_bit (mk_disk s2 28) b \<longleftrightarrow> b < mk_free s1" using mk_balloc_ok [OF t(2)] by blast
  have "mk_main es = Some s2" 
    by (simp only: mk_main_def m(1) t(1) b(1) option.case prod.case not_True_eq_False if_False simp_thms)
  thus ?thesis using t b by (intro exI [of _ s2] exI [of _ F]) (simp only: simp_thms)
qed

text \<open>
  C39: the image builder stores the tree it is given.  When the tree has fewer than 200 nodes, no file or directory is longer than 140
  blocks and all of them fit into the 995 data blocks, the program succeeds, and in the image the inodes, numbered in
  preorder from 1, hold the bytes of the files and the entries of the directories; the data blocks from 29 on belong
  to exactly one inode each, and the bitmap marks exactly the blocks in use.
\<close>

theorem mkfs_builds_tree:
  assumes "inodes (Dir es) < 200" "small (Dir es)" "blocks (Dir es) \<le> 995"
  shows "\<exists>s F. mk_main es = Some s \<and> holds F 1 1 (Dir es) \<and>
    (\<forall>i. 1 \<le> i \<longrightarrow> i \<le> inodes (Dir es) \<longrightarrow> on_disk (mk_disk s) i = dinode_of (F i) \<and> gfile_ok (mk_disk s) (F i)) \<and>
    (\<forall>i. inodes (Dir es) < i \<longrightarrow> i < 200 \<longrightarrow> d_type (on_disk (mk_disk s) i) = 0) \<and>
    (\<forall>b. 29 \<le> b \<longrightarrow> b < 29 + blocks (Dir es) \<longrightarrow> (\<exists>!i. 1 \<le> i \<and> i \<le> inodes (Dir es) \<and> b \<in> set (blocks_of (F i)))) \<and>
    (\<forall>b < 4096. map_bit (mk_disk s 28) b \<longleftrightarrow> b < 29 + blocks (Dir es)) \<and> mk_len s = 1024"
proof -
  obtain s F where m: "mk_main es = Some s" "holds F 1 1 (Dir es)" "img_ok s F" "mk_inode s = 1 + inodes (Dir es)"
    "mk_free s = 29 + blocks (Dir es)" "\<forall>b < 4096. map_bit (mk_disk s 28) b \<longleftrightarrow> b < mk_free s" using mk_main_ok [OF assms] by blast
  have id: "img_data s F" using m(3) by (simp add: img_ok_def)
  have "\<forall>b. 29 \<le> b \<longrightarrow> b < 29 + blocks (Dir es) \<longrightarrow> (\<exists>!i. 1 \<le> i \<and> i \<le> inodes (Dir es) \<and> b \<in> set (blocks_of (F i)))"
  proof (intro allI impI)
    fix b assume that: "29 \<le> b" "b < 29 + blocks (Dir es)"
    have un: "(\<Union>i \<in> {1..<mk_inode s}. set (blocks_of (F i))) = {29..<mk_free s}"
      and sep: "\<forall>i \<in> {1..<mk_inode s}. \<forall>j \<in> {1..<mk_inode s}. i \<noteq> j \<longrightarrow> set (blocks_of (F i)) \<inter> set (blocks_of (F j)) = {}"
      using id unfolding img_data_def by blast+
    have "b \<in> {29..<mk_free s}" using that m(5) by simp
    then obtain i where i: "i \<in> {1..<mk_inode s}" "b \<in> set (blocks_of (F i))" unfolding un [symmetric] by blast
    have u: "j = i" if "j \<in> {1..<mk_inode s}" "b \<in> set (blocks_of (F j))" for j using sep i that by blast
    show "\<exists>!i. 1 \<le> i \<and> i \<le> inodes (Dir es) \<and> b \<in> set (blocks_of (F i))"
    proof (intro ex1I [of _ i])
      show "1 \<le> i \<and> i \<le> inodes (Dir es) \<and> b \<in> set (blocks_of (F i))" using i m(4) by simp
      show "j = i" if "1 \<le> j \<and> j \<le> inodes (Dir es) \<and> b \<in> set (blocks_of (F j))" for j using that m(4) by (intro u) simp_all
    qed
  qed
  moreover have "\<forall>b < 4096. map_bit (mk_disk s 28) b \<longleftrightarrow> b < 29 + blocks (Dir es)" using m(6) by (simp only: m(5))
  moreover have "\<forall>i. 1 \<le> i \<longrightarrow> i \<le> inodes (Dir es) \<longrightarrow> on_disk (mk_disk s) i = dinode_of (F i) \<and> gfile_ok (mk_disk s) (F i)"
    "\<forall>i. inodes (Dir es) < i \<longrightarrow> i < 200 \<longrightarrow> d_type (on_disk (mk_disk s) i) = 0" "mk_len s = 1024"
    using m(3,4) id by (simp_all add: img_ok_def img_data_def)
  ultimately show ?thesis using m(1,2) by (intro exI [of _ s] exI [of _ F] conjI)
qed

text \<open>Witness for C39: a root directory with one file, in inode 2, and an empty subdirectory.\<close>

abbreviation demo_tree :: "(u8 list \<times> hnode) list" where
  "demo_tree \<equiv> [([46], Dir []), ([97], Reg [[104, 105], [33]]), ([98], Dir [])]"

lemma demo_fits: "inodes (Dir demo_tree) = 3" "small (Dir demo_tree)" "blocks (Dir demo_tree) = 3"
  by (simp_all add: dot_name_def n_entries_def copied_def nblk_def)

theorem mkfs_builds_tree_witness:
  "\<exists>s (F :: nat \<Rightarrow> gfile). mk_main demo_tree = Some s \<and> on_disk (mk_disk s) 2 = dinode_of (F 2) \<and> g_data (F 2) = [104, 105, 33] \<and> g_size (F 2) = 3 \<and>
     (\<forall>b < 4096. map_bit (mk_disk s 28) b \<longleftrightarrow> b < 32)"
proof -
  obtain s F where m: "mk_main demo_tree = Some s" "holds F 1 1 (Dir demo_tree)"
    "\<forall>i. 1 \<le> i \<longrightarrow> i \<le> inodes (Dir demo_tree) \<longrightarrow> on_disk (mk_disk s) i = dinode_of (F i) \<and> gfile_ok (mk_disk s) (F i)"
    "\<forall>b < 4096. map_bit (mk_disk s 28) b \<longleftrightarrow> b < 29 + blocks (Dir demo_tree)"
    using mkfs_builds_tree [of demo_tree] demo_fits by auto
  have "holds F 2 1 (Reg [[104, 105], [33]])" using m(2) by (simp add: dot_name_def numeral_2_eq_2 [symmetric])
  hence "g_data (F 2) = [104, 105, 33]" "g_size (F 2) = 3" by (simp_all add: copied_def)
  moreover have "on_disk (mk_disk s) 2 = dinode_of (F 2)" using m(3) demo_fits(1) by simp
  moreover have "29 + blocks (Dir demo_tree) = 32" by (simp only: demo_fits(3))
  ultimately show ?thesis using m(1,4) by (intro exI [of _ s] exI [of _ F] conjI) simp_all
qed

subsection \<open>Reading the image with the kernel\<close>

text \<open>The inode and the bytes of every regular file of a tree.\<close>

fun files_at :: "nat \<Rightarrow> hnode \<Rightarrow> (nat \<times> u8 list) list" and files_in :: "nat \<Rightarrow> (u8 list \<times> hnode) list \<Rightarrow> (nat \<times> u8 list) list" where
  "files_at i (Reg ps) = [(i, copied ps)]"
| "files_at i (Dir es) = files_in (i + 1) es"
| "files_in n [] = []"
| "files_in n ((nm, h) # es) = (if dot_name nm then files_in n es else files_at n h @ files_in (n + inodes h) es)"

lemma holds_files:
  "holds F i par h \<Longrightarrow> (j, c) \<in> set (files_at i h) \<Longrightarrow>
     i \<le> j \<and> j < i + inodes h \<and> g_type (F j) = T_FILE \<and> g_data (F j) = c \<and> g_size (F j) = length c"
  "holds_in F n cur es \<Longrightarrow> (j, c) \<in> set (files_in n es) \<Longrightarrow>
     n \<le> j \<and> j < n + inodes_in es \<and> g_type (F j) = T_FILE \<and> g_data (F j) = c \<and> g_size (F j) = length c"
proof (induction F i par h and F n cur es rule: holds_holds_in.induct)
  case (4 F n cur nm h es)
  thus ?case by (cases "dot_name nm") fastforce+
qed fastforce+

lemma holds_small: "small h \<Longrightarrow> (j, c) \<in> set (files_at i h) \<Longrightarrow> length c \<le> 71680"
  "small_in es \<Longrightarrow> (j, c) \<in> set (files_in n es) \<Longrightarrow> length c \<le> 71680"
  by (induction i h and n es rule: files_at_files_in.induct) (auto split: if_splits)

lemma file_in_kernel:
  assumes g: "gfile_ok d g" "set (blocks_of g) \<subseteq> {29..<m}" "m \<le> 1024" and d: "\<forall>b < 1024. disk f dev (of_nat b) = d b"
    and ip: "idev (icache f ! k) = dev" "addrs (icache f ! k) = addrs_of g" and n: "512 * bn < length (g_data g)"
  shows "mapped f k bn" "\<forall>j < 512. fblk f k bn j = byte_at (g_data g) (512 * bn + j)"
proof -
  note gd = g(1) [unfolded gfile_ok_def]
  note range = g_blocks_range [OF g(2,3)]
  have l: "length (g_data g) \<le> 512 * length (g_blocks g)" and l140: "length (g_blocks g) \<le> 140" using gd by blast+
  have b: "bn < length (g_blocks g)" using n l by linarith
  have p: "ptr f k bn = of_nat (g_blocks g ! bn) \<and> (12 \<le> bn \<longrightarrow> ind_addr f k \<noteq> 0)"
  proof (cases "bn < 12")
    case True
    thus ?thesis using b by (simp add: ptr_def Let_def ip(2) addrs_direct)
  next
    case False
    hence "12 < length (g_blocks g)" using b by simp
    then obtain i where i: "g_ind g = Some i" using gd by blast
    have "CH_GET_ADDR (of_nat i) = (of_nat i :: u32)" "(of_nat i :: u32) \<noteq> 0"
      using range(2) [OF i] small_word [of i] by (auto intro!: CH_addr_small)
    moreover have "rd32 (d i) (4 * (bn - 12)) = of_nat (g_blocks g ! (12 + (bn - 12)))"
    proof -
      have "bn - 12 < 128" "12 + (bn - 12) < length (g_blocks g)" using b l140 False by simp_all
      thus ?thesis using gd i by (metis (no_types, lifting))
    qed
    moreover have "disk f dev (of_nat i) = d i" using d range(2) [OF i] by simp
    ultimately show ?thesis using False by (simp add: ptr_def ind_addr_def Let_def ip addrs_ind i bread_def)
  qed
  have a: "baddr f k bn = of_nat (g_blocks g ! bn)" "baddr f k bn \<noteq> 0"
  proof -
    note w = small_word [of "g_blocks g ! bn"] range(1) [OF b]
    have "CH_GET_ADDR (of_nat (g_blocks g ! bn)) = (of_nat (g_blocks g ! bn) :: u32)" using w by (intro CH_addr_small) simp
    thus "baddr f k bn = of_nat (g_blocks g ! bn)" "baddr f k bn \<noteq> 0" using w p by (simp_all add: baddr_def)
  qed
  show "mapped f k bn" using a(2) b l140 p by (simp add: mapped_def)
  show "\<forall>j < 512. fblk f k bn j = byte_at (g_data g) (512 * bn + j)"
    using gd b d range(1) [OF b] by (simp add: fblk_def bread_def ip(1) a(1))
qed

text \<open>
  C40: the kernel reads back what the image builder wrote.  Take any tree that fits, the image built from it as the disk of the
  kernel, and any unlocked entry of the inode cache that stands for the inode of a regular file of the tree and
  is not loaded yet: \<open>ilock\<close> succeeds, and \<open>readi\<close> of the whole file returns exactly its bytes.
\<close>

theorem kernel_reads_mkfs_image:
  assumes "inodes (Dir es) < 200" "small (Dir es)" "blocks (Dir es) \<le> 995" and s: "mk_main es = Some s"
    and d: "\<forall>b < 1024. disk f dev (of_nat b) = mk_disk s b" and jc: "(j, c) \<in> set (files_at 1 (Dir es))"
    and ip: "k < length (icache f)" "idev (icache f ! k) = dev" "inum (icache f ! k) = of_nat j" "1 \<le> iref (icache f ! k)"
      "\<not> ibusy (icache f ! k)" "\<not> ivalid (icache f ! k)"
  shows "\<exists>f1. ilock f k = Some f1 \<and> isize (icache f1 ! k) = of_nat (length c) \<and>
    readi dv f1 k 0 (of_nat (length c)) = Some (int (length c), c, f1)"
proof -
  obtain F where t: "holds F 1 1 (Dir es)" "img_ok s F" "mk_inode s = 1 + inodes (Dir es)"
    using mk_main_ok [OF assms(1-3)] s by auto
  have j: "1 \<le> j" "j < mk_inode s" and g: "g_type (F j) = T_FILE" "g_data (F j) = c" "g_size (F j) = length c"
    using holds_files(1) [OF t(1) jc] t(3) by simp_all
  have c: "length c \<le> 71680" using holds_small(1) [OF assms(2) jc] .
  have id: "img_data s F" using t(2) by (simp add: img_ok_def)
  have n: "j < 200" using j(2) t(3) assms(1) by simp
  have uj: "unat (of_nat j :: u32) = j" using n by (simp add: unat_of_nat)
  have "unat (IBLOCK (of_nat j)) = mk_i2b j"
    using n by (simp add: IBLOCK_def mk_i2b_def unat_word_ariths unat_div uj)
  hence ib: "IBLOCK (of_nat j) = of_nat (mk_i2b j)" by (metis of_nat_unat ucast_id)
  have "on_disk (mk_disk s) j = dinode_of (F j)" using t(2) j by (simp add: img_ok_def)
  hence rd: "rd_dinode (bread f dev (IBLOCK (inum (icache f ! k)))) (64 * (unat (inum (icache f ! k)) mod IPB)) = dinode_of (F j)"
    using d mk_i2b_low [OF n] by (simp add: bread_def ip(3) ib uj on_disk_def)
  define f1 where "f1 = iupd f k (\<lambda>ip. ip\<lparr>ibusy := True, ivalid := True, itype := T_FILE, imajor := 0, iminor := 0, inlink := 1,
      isize := of_nat (length c), addrs := addrs_of (F j)\<rparr>)"
  have l: "ilock f k = Some f1"
    using ip rd g by (simp add: ilock_def Let_def f1_def dinode_of_def)
  have e: "icache f1 ! k = (icache f ! k)\<lparr>ibusy := True, ivalid := True, itype := T_FILE, imajor := 0, iminor := 0, inlink := 1,
      isize := of_nat (length c), addrs := addrs_of (F j)\<rparr>" "disk f1 = disk f"
    using ip(1) by (simp_all add: f1_def iupd_def)
  have ok: "gfile_ok (mk_disk s) (F j)" "mk_free s \<le> 1024" using id j by (simp_all add: img_data_def)
  have d1: "\<forall>b < 1024. disk f1 dev (of_nat b) = mk_disk s b" "idev (icache f1 ! k) = dev" "addrs (icache f1 ! k) = addrs_of (F j)"
    using d ip(2) by (simp_all add: e)
  note fk = file_in_kernel [OF ok(1) img_data_own [OF id j] ok(2) d1]
  have ul: "unat (of_nat (length c) :: u32) = length c" using c by (simp add: unat_of_nat)
  have "readi dv f1 k 0 (of_nat (length c)) = Some (int (length c), map (fbyte f1 k) [0..<length c], f1)"
    using readi_file [where s = f1 and i = k and off = 0 and n = "of_nat (length c)" and m = "length c" and dv = dv] c fk(1) g(2)
    by (auto simp: e(1) ul touches_def mult.commute)
  moreover have "map (fbyte f1 k) [0..<length c] = c"
  proof (rule nth_equalityI)
    fix i assume "i < length (map (fbyte f1 k) [0..<length c])"
    hence i: "i < length c" by simp
    hence "512 * (i div 512) < length (g_data (F j))" unfolding g(2) by (meson le_less_trans times_div_less_eq_dividend)
    from fk(2) [OF this] have "fblk f1 k (i div 512) (i mod 512) = byte_at c i" by (simp add: g(2))
    thus "map (fbyte f1 k) [0..<length c] ! i = c ! i" using i by (simp add: fbyte_def byte_at_def)
  qed simp
  ultimately show ?thesis using l by (simp add: e(1))
qed

definition no_devs :: devsw where
  "no_devs = \<lparr>dread = (\<lambda>_. None), dwrite = (\<lambda>_. None)\<rparr>"

text \<open>Witness for C40: the file of that tree, through a cache of one entry.\<close>

theorem kernel_reads_mkfs_image_witness:
  "\<exists>s f f1. mk_main demo_tree = Some s \<and> (\<forall>b < 1024. disk f 1 (of_nat b) = mk_disk s b) \<and>
     ilock f 0 = Some f1 \<and> readi no_devs f1 0 0 3 = Some (3, [104, 105, 33], f1)"
proof -
  obtain s where s: "mk_main demo_tree = Some s" using mk_main_ok [of demo_tree] demo_fits by auto
  define f where "f = \<lparr>disk = (\<lambda>_ b. mk_disk s (unat b)), icache = [\<lparr>idev = 1, inum = of_nat 2, iref = 1, ibusy = False, ivalid = False,
    itype = 0, imajor = 0, iminor = 0, inlink = 0, isize = 0, addrs = []\<rparr>]\<rparr>"
  have ip: "0 < length (icache f)" "idev (icache f ! 0) = 1" "inum (icache f ! 0) = of_nat 2" "1 \<le> iref (icache f ! 0)"
    "\<not> ibusy (icache f ! 0)" "\<not> ivalid (icache f ! 0)" by (simp_all add: f_def)
  have d: "\<forall>b < 1024. disk f 1 (of_nat b) = mk_disk s b" using small_word(1) by (simp add: f_def)
  have c: "(2, [104, 105, 33]) \<in> set (files_at 1 (Dir demo_tree))" by (simp add: dot_name_def copied_def)
  have "inodes (Dir demo_tree) < 200" "blocks (Dir demo_tree) \<le> 995" by (simp_all only: demo_fits)
  from kernel_reads_mkfs_image [OF this(1) demo_fits(2) this(2) s d c ip, of no_devs] obtain f1 where
    "ilock f 0 = Some f1" "readi no_devs f1 0 0 3 = Some (3, [104, 105, 33], f1)" by auto
  thus ?thesis using s d by blast
qed

subsection \<open>Limits that the program does not check\<close>

text \<open>The inode table runs into the bitmap: inode 208 lies in the block that \<open>mk_balloc\<close> overwrites.\<close>

lemma inode_table_overlaps_bitmap: "mk_i2b 208 = mk_ninodes div IPB + 3"
  by (simp add: mk_i2b_def)

text \<open>
  A directory whose entries fill its blocks exactly gets a size that is one block too long, and its inode has no block there:
  the checker of Project5a rejects such an inode, since block 0 is no data block.
\<close>

lemma full_directory_unbacked:
  assumes h: "holds F i par (Dir es)" and n: "n_entries es = 30" and g: "gfile_ok d (F i)" "tight (F i)"
  shows "g_size (F i) = 1024" "addrs_of (F i) ! 1 = 0"
proof -
  have l: "length (g_data (F i)) = 512" using h n by (simp add: length_dir_bytes)
  thus "g_size (F i) = 1024" using h by simp
  have "length (g_blocks (F i)) = 1" using g l unfolding gfile_ok_def tight_def by linarith
  thus "addrs_of (F i) ! 1 = 0" by (simp add: addrs_direct)
qed

end
