(* ===== verification/Spec2Isabelle.thy ===== *)
theory Spec2Isabelle
  imports KString Kalloc Vm Mlfq MlfqSched MlfqInv MlfqProps FsProps FsCheck BioProps Syscall Locks ThreadProps FileProps Server LinkedList Shm Shell Umalloc Grep Request Console VmUser MlfqMem ExecProps MkfsProps
begin

text \<open>
  A verification development for the projects of an operating systems course: five variants of the xv6 teaching
  kernel (\<^verbatim>\<open>Project1b\<close> to \<^verbatim>\<open>Project5b\<close>) and the Unix programs that go with them (\<^verbatim>\<open>Project1a\<close> to \<^verbatim>\<open>Project5a\<close>).
  Each kernel project holds a whole copy of xv6 and changes a part of it: 1b counts system calls, 2b replaces the
  scheduler by a multi-level feedback queue, 3b adds shared memory pages, 4b adds kernel threads and 5b adds
  checksums to the file system.  A part is modelled in the project that changes it; the common parts are modelled
  once, in the project named below.

  \<^bold>\<open>Conventions.\<close>  Machine integers are words of their width (\<open>u8\<close>, \<open>u16\<close>, \<open>u32\<close> of \<open>Prelude\<close>), and counters and
  sizes that the code keeps far from their limits are numbers.  Kernel memory is a function from 32-bit addresses
  to bytes, tables of the kernel are lists of records, and a pointer into a table is an index.  A panic of the
  kernel, an access through a bad pointer and an exit of a program are \<open>None\<close> or a value of an error type; a return
  of -1 is a value of the function.  A call that may sleep is modelled by its passes: what it does up to the
  sleep, and what it does when it is scheduled again.  Locks that protect a whole operation make it one step.

  \<^bold>\<open>Memory.\<close>
  \<^item> \<open>KString\<close>: \<^verbatim>\<open>kernel/string.c\<close> on byte memory; overlapping copies are right in both directions.
  \<^item> \<open>Kalloc\<close>: the page allocator \<^verbatim>\<open>kernel/kalloc.c\<close>, its free list threaded through the free pages.  The interface
    \<open>page_allocator\<close> states what page tables, kernel stacks and pipes rely on; \<open>kpages\<close> shows that the code provides
    it.  Allocated and free pages together stay the pages \<open>kinit\<close> freed.
  \<^item> \<open>Vm\<close>: page directories and page tables of \<^verbatim>\<open>Project3b/xv6/kernel/vm.c\<close> inside that memory, from \<open>walkpgdir\<close> to
    \<open>copyout\<close>; \<open>mappages\<close> installs exactly the translations it is asked for.
  \<^item> \<open>VmUser\<close>: what the page tables mean.  \<open>uspace\<close> reads a page directory as a map from page numbers to pages, and with the
    contents of the pages as a partial map from addresses to bytes (\<open>umem\<close>).  Creating, growing, shrinking, copying and
    freeing an address space are shown to do what they say on these maps, and every page is accounted for: it is
    free or part of exactly one address space.
  \<^item> \<open>Shm\<close>: the shared pages of Project3b, with the invariant that the count of a key is the number of processes
    that have it attached.

  \<^bold>\<open>Processes.\<close>
  \<^item> \<open>Mlfq\<close>: \<^verbatim>\<open>proc.c\<close>, \<^verbatim>\<open>trap.c\<close> and \<^verbatim>\<open>sysproc.c\<close> of Project2b: process table, four priority queues, the scheduler,
    timer ticks, the starvation boost, fork, exit, wait, kill, sleep and wakeup.  The file system calls of \<open>exit\<close>
    and \<open>fork\<close> are the argument \<open>kenv\<close>, so that the scheduler does not depend on one file system.
  \<^item> \<open>MlfqSched\<close>: the interface \<open>level_store\<close> of a queue that holds every process on at most one level, provided by
    the array queues of the code (\<open>mlq\<close>).  \<open>MlfqInv\<close>: the scheduler invariant and its preservation by every step of
    the relation \<open>mlfq_step\<close>.  \<open>MlfqProps\<close>: the properties.
  \<^item> \<open>MlfqMem\<close>: the memory of all processes under the steps of \<open>mlfq_step\<close>: their kernel stacks and address spaces stay
    disjoint, a step leaves the memory of the other processes alone, and \<open>fork\<close> gives the child a copy.
  \<^item> \<open>Exec\<close>, \<open>ExecProps\<close>: \<^verbatim>\<open>exec.c\<close> and \<open>sys_exec\<close> of Project5b over the page tables and the file system.  \<open>exec\<close> either
    installs the image that the program file describes (\<open>load_image\<close>) with the arguments on its stack, or fails
    and leaves the process as it was.
  \<^item> \<open>Threads\<close>, \<open>ThreadProps\<close>: \<^verbatim>\<open>proc.c\<close> of Project4b with \<open>clone\<close> and \<open>join\<close> and the user library
    \<^verbatim>\<open>user/thread.c\<close>: thread creation writes the new stack through the page tables, join returns the stack, and no
    wake-up is lost.
  \<^item> \<open>Locks\<close>: \<^verbatim>\<open>kernel/spinlock.c\<close>, one attempt of \<open>acquire\<close> at a time so that CPUs interleave.  The interface
    \<open>mutex_lock\<close> (a successful attempt makes its caller the owner, a failed one changes nothing) gives mutual
    exclusion; it is provided by the kernel lock (\<open>kspin\<close>) and the user lock of Project4b (\<open>uspin\<close>).
  \<^item> \<open>Syscall\<close>: fetching arguments from user memory (Project5b) and the counting dispatcher of Project1b.

  \<^bold>\<open>Files.\<close>
  \<^item> \<open>Bio\<close>, \<open>BioProps\<close>: the buffer cache \<^verbatim>\<open>bio.c\<close> as a ring of ten buffers and the queue of the driver \<^verbatim>\<open>ide.c\<close>.  The
    interface \<open>block_device\<close> is what the file system relies on: a read returns the last write.  It is provided by the
    plain disk that \<open>Fs\<close> works on (\<open>fsdev\<close>) and by cache and driver together (\<open>biodev\<close>), which is the sense in
    which \<open>Fs\<close> may read and write blocks directly.
  \<^item> \<open>Fs\<close>: \<^verbatim>\<open>fs.c\<close> of Project5b with the checksum in the upper byte of a block pointer.  \<open>FsBlocks\<close>: the bitmap as a
    set of blocks through the interface \<open>block_store\<close> (\<open>bitmap\<close>).  \<open>FsFile\<close>: files as byte sequences.  \<open>FsProps\<close>: the
    properties of reads, writes and checksums.
  \<^item> \<open>Mkfs\<close>, \<open>MkfsFile\<close>, \<open>MkfsProps\<close>: the image builder \<^verbatim>\<open>tools/mkfs.c\<close> of Project5b.  The image holds the given tree, each block in
    one file, and \<open>readi\<close> of \<open>Fs\<close> reads its files back.
  \<^item> \<open>FsCheck\<close>: the checker \<^verbatim>\<open>Project5a/main.c\<close>; what holds of an image that it accepts.
  \<^item> \<open>Buffers\<close>: the interfaces \<open>bounded_buffer\<close> and \<open>fifo_buffer\<close> between a producer and a consumer.  \<open>Pipe\<close>:
    \<^verbatim>\<open>pipe.c\<close>, a first-in first-out buffer of 512 bytes (\<open>kpipe\<close>).  \<open>Server\<close>: the connection buffer of the web server
    \<^verbatim>\<open>Project4a/server.c\<close> (\<open>srvbuf\<close>), with the interleaving of its threads.
  \<^item> \<open>File\<close>, \<open>Sysfile\<close>, \<open>FileProps\<close>: open files \<^verbatim>\<open>file.c\<close> and the system calls \<^verbatim>\<open>sysfile.c\<close> on files and pipes, with
    the reference counts of descriptors.

  \<^bold>\<open>Programs.\<close>
  \<^item> \<open>Shell\<close>: the command parser of \<^verbatim>\<open>user/sh.c\<close>.  Its recursion carries fuel; four units more than four times the
    length of the line are enough, because each round of the four mutually recursive functions consumes a
    character, and this is part of what is proved.
  \<^item> \<open>LinkedList\<close>: the doubly linked list \<^verbatim>\<open>Project2a/linked_list.c\<close> on a heap of nodes, refining lists.
  \<^item> \<open>Umalloc\<close>: \<open>malloc\<close> and \<open>free\<close> of \<^verbatim>\<open>user/umalloc.c\<close> on the circular list of free blocks; blocks handed out never
    overlap each other or the free blocks, and neighbours are joined.
  \<^item> \<open>Grep\<close>: \<^verbatim>\<open>user/grep.c\<close>: the matcher agrees with the meaning of the pattern as a set of strings, and the reader
    prints the matching lines of its input when every read ends with a whole line.
  \<^item> \<open>Console\<close>: the input side of \<^verbatim>\<open>kernel/console.c\<close>, a line-editing queue of 128 bytes.
  \<^item> \<open>Rio\<close>, \<open>Request\<close>: buffered reading (\<^verbatim>\<open>Project4a/cs537.c\<close>) and the requests of the web server
    (\<^verbatim>\<open>Project4a/request.c\<close>), over a connection that returns its bytes in arbitrary pieces.

  \<^bold>\<open>Bounds.\<close>  Loops over memory recurse on the number of bytes left; the walk along the ring of buffers and along the
  nodes of a list is bounded by the number of buffers and nodes, which the invariants show to be enough.  Where a
  loop of the code waits for another process, the model returns a value that says so.

  \<^bold>\<open>Assumptions.\<close>  Pages below \<open>USERTOP\<close> are the only user pages, as \<open>allocuvm\<close> ensures, and the end of the kernel and of its
  text are parameters.  The file system works on blocks directly, which \<open>BioProps\<close> justifies.  \<open>exec\<close> is stated for program
  files without holes or corrupt blocks and for segments that do not wrap around; what happens to a segment that
  does is the last lemma of \<open>Exec\<close>.

  \<^bold>\<open>Not modelled.\<close>  Device registers, interrupt controllers, boot code and context switches are hardware; their effect
  is not in the source.  Test programs (\<^verbatim>\<open>usertests.c\<close> and the like) and small user programs only call the system and
  print.  The sorter of Project1a, the shell of Project2a and the statistics server of Project3a are
  thin layers over the C library and the system calls of the host, which are not in the repository.  Each project
  holds its own copy of xv6; the files that a project does not change are modelled once.
\<close>

end
